(* ===== verification/Smart_Prelude.thy ===== *)
theory Smart_Prelude
  imports Main "HOL-Library.Word" "HOL-Library.Monad_Syntax"
begin

text \<open>
  The vocabulary the components share: machine integers at their widths, a byte memory in which
  every access outside a block is the value \<^const>\<open>None\<close>, and the lemmas about masks,
  wrap-around and memory blocks on which the component proofs rest.

  A byte (\<open>unsigned char\<close>, \<open>char\<close>) is a HOL character, which has exactly 256 values; the
  bytes of a \<open>std::string\<close> or of a block of memory are a list of them.
\<close>

unbundle bit_operations_syntax

type_synonym size_t = "64 word"
type_synonym uint16_t = "16 word"
type_synonym uint32_t = "32 word"
type_synonym uint64_t = "64 word"
type_synonym bytes = "char list"

named_theorems mem_simps \<open>reads and writes of memory blocks\<close>

text \<open>Words are read through \<^const>\<open>unat\<close> throughout, so its conversion to integers stays.\<close>

declare of_nat_unat [simp del]

lemma of_nat_unat_word [simp]: "word_of_nat (unat w) = w"
  by (simp add: of_nat_unat)

subsection \<open>C integer conversions\<close>

text \<open>The conversion of a \<open>size_t\<close> argument to an \<open>int\<close> parameter (two's complement).\<close>

definition to_c_int :: "size_t \<Rightarrow> int" where
  "to_c_int w = sint (ucast w :: 32 word)"

definition byte_of_nat :: "nat \<Rightarrow> char" where
  "byte_of_nat n = char_of n"

definition code :: "char \<Rightarrow> nat" where
  "code c = of_char c"

lemma code_less: "code c < 256"
proof -
  have "(of_char c :: nat) mod 256 = of_char c" by (rule of_char_mod_256)
  then show ?thesis unfolding code_def by (metis mod_less_divisor zero_less_numeral)
qed

lemma byte_of_nat_code [simp]: "byte_of_nat (code c) = c"
  by (simp add: byte_of_nat_def code_def)

lemma code_byte_of_nat: "code (byte_of_nat n) = n mod 256"
  by (simp add: byte_of_nat_def code_def)

lemma code_inject: "code a = code b \<Longrightarrow> a = b"
  by (metis byte_of_nat_code)

subsection \<open>Masks and wrap-around\<close>

lemma unat_and_low_mask:
  fixes x :: "64 word"
  assumes "k < 64"
  shows "unat (x AND (2 ^ k - 1)) = unat x mod 2 ^ k"
proof -
  have "(2 ^ k - 1 :: 64 word) = mask k"
    by (simp add: mask_eq_exp_minus_1)
  then have "x AND (2 ^ k - 1) = take_bit k x"
    by (simp add: take_bit_eq_mask)
  then have "unat (x AND (2 ^ k - 1)) = unat (take_bit k x)"
    by (simp only:)
  also have "\<dots> = take_bit k (unat x)"
    by (simp only: unsigned_take_bit_eq)
  finally show ?thesis
    by (simp only: take_bit_eq_mod)
qed

lemma unat_pow2: "k < 64 \<Longrightarrow> unat (2 ^ k :: 64 word) = 2 ^ k"
proof -
  assume "k < 64"
  then have lt: "(2::nat) ^ k < 2 ^ 64" by (rule power_strict_increasing) simp
  have "(2 ^ k :: 64 word) = word_of_nat (2 ^ k)" by simp
  then have "unat (2 ^ k :: 64 word) = take_bit 64 (2 ^ k)"
    by (simp only: unsigned_of_nat) simp
  also have "\<dots> = 2 ^ k" using lt by (simp only: take_bit_eq_mod mod_less)
  finally show ?thesis .
qed

lemma unat_add_mod_pow2:
  fixes x y :: "64 word"
  assumes "k \<le> 64"
  shows "unat (x + y) mod 2 ^ k = (unat x + unat y) mod 2 ^ k"
proof -
  have "(2::nat) ^ k dvd 2 ^ 64" by (rule le_imp_power_dvd[OF assms])
  then show ?thesis
    by (simp add: unat_word_ariths mod_mod_cancel)
qed

lemma unat_diff_mod_pow2:
  fixes x y :: "64 word"
  assumes "k \<le> 64" and "unat y \<le> 2 ^ k"
  shows "unat (x - y) mod 2 ^ k = (unat x + (2 ^ k - unat y)) mod 2 ^ k"
proof -
  have "unat (x - y) mod 2 ^ k = (unat (x - y) + (unat y + (2 ^ k - unat y))) mod 2 ^ k"
    using assms(2) by simp
  also have "\<dots> = ((unat (x - y) + unat y) mod 2 ^ k + (2 ^ k - unat y)) mod 2 ^ k"
    by (simp add: mod_add_left_eq add.assoc)
  also have "(unat (x - y) + unat y) mod 2 ^ k = unat (x - y + y) mod 2 ^ k"
    by (simp only: unat_add_mod_pow2[OF assms(1)])
  also have "(unat (x - y + y) mod 2 ^ k + (2 ^ k - unat y)) mod 2 ^ k
      = (unat x + (2 ^ k - unat y)) mod 2 ^ k"
    by (simp add: mod_add_left_eq)
  finally show ?thesis .
qed

subsection \<open>Memory blocks\<close>

text \<open>
  A pointer to allocated memory: null, a live block with its address and its bytes, or a pointer
  to a block that has been freed. Reading or writing through a null or a dangling pointer, or
  past the end of a block, is \<^const>\<open>None\<close>; a transfer of no bytes touches nothing.
\<close>

datatype mem_block = Null | Block (blk_addr: nat) (blk_bytes: bytes) | Dangling

definition bytes_read :: "bytes \<Rightarrow> nat \<Rightarrow> nat \<Rightarrow> bytes option" where
  "bytes_read m off n = (if off + n \<le> length m then Some (take n (drop off m)) else None)"

definition block_read :: "mem_block \<Rightarrow> nat \<Rightarrow> nat \<Rightarrow> bytes option" where
  "block_read p off n =
     (case p of Block a m \<Rightarrow> bytes_read m off n
      | _ \<Rightarrow> (if n = 0 then Some [] else None))"

definition overwrite :: "'a list \<Rightarrow> nat \<Rightarrow> 'a list \<Rightarrow> 'a list" where
  "overwrite m off src = take off m @ src @ drop (off + length src) m"

definition block_write :: "mem_block \<Rightarrow> nat \<Rightarrow> bytes \<Rightarrow> mem_block option" where
  "block_write p off src =
     (case p of Block a m \<Rightarrow>
        (if off + length src \<le> length m then Some (Block a (overwrite m off src)) else None)
      | _ \<Rightarrow> (if src = [] then Some p else None))"

text \<open>
  \<open>std::free\<close>: freeing null does nothing, freeing a live block leaves every copy of the pointer
  dangling, freeing it again is an error.
\<close>

definition block_free :: "mem_block \<Rightarrow> mem_block option" where
  "block_free p = (case p of Null \<Rightarrow> Some Null | Block a m \<Rightarrow> Some Dangling | Dangling \<Rightarrow> None)"

definition ptr_eq :: "mem_block \<Rightarrow> mem_block \<Rightarrow> bool" where
  "ptr_eq p q =
     (case (p, q) of (Null, Null) \<Rightarrow> True | (Block a _, Block b _) \<Rightarrow> a = b | _ \<Rightarrow> False)"

lemma bytes_read_Some [mem_simps]:
  "off + n \<le> length m \<Longrightarrow> bytes_read m off n = Some (take n (drop off m))"
  by (simp add: bytes_read_def)

lemma block_read_Block [mem_simps]: "block_read (Block a m) off n = bytes_read m off n"
  by (simp add: block_read_def)

lemma block_write_Block [mem_simps]:
  "off + length src \<le> length m \<Longrightarrow>
   block_write (Block a m) off src = Some (Block a (overwrite m off src))"
  by (simp add: block_write_def)

lemma block_read_length: "block_read p off n = Some d \<Longrightarrow> length d = n"
  by (auto simp: block_read_def bytes_read_def split: mem_block.splits if_splits)

lemma length_overwrite [simp]:
  "off + length src \<le> length m \<Longrightarrow> length (overwrite m off src) = length m"
  by (simp add: overwrite_def)

text \<open>What a read returns after a write: the source bytes inside, the old bytes outside.\<close>

lemma nth_overwrite:
  assumes "off + length src \<le> length m" and "i < length m"
  shows "overwrite m off src ! i =
    (if off \<le> i \<and> i < off + length src then src ! (i - off) else m ! i)"
  using assms by (auto simp: overwrite_def nth_append min_def)

lemma take_overwrite_before: "q \<le> off \<Longrightarrow> off \<le> length m \<Longrightarrow> take q (overwrite m off src) = take q m"
  by (simp add: overwrite_def)

lemma take_overwrite_upto:
  "off \<le> length m \<Longrightarrow> take (off + length src) (overwrite m off src) = take off m @ src"
  by (simp add: overwrite_def)

lemma drop_overwrite_after:
  "off + length src \<le> q \<Longrightarrow> off + length src \<le> length m \<Longrightarrow>
   drop q (overwrite m off src) = drop q m"
  by (simp add: overwrite_def)

lemma drop_overwrite_before:
  "q \<le> off \<Longrightarrow> off \<le> length m \<Longrightarrow>
   drop q (overwrite m off src) = overwrite (drop q m) (off - q) src"
  by (simp add: overwrite_def drop_take)

lemma overwrite_to_end:
  "off + length src = length m \<Longrightarrow> overwrite m off src = take off m @ src"
  by (simp add: overwrite_def)

end
