(* ===== verification/Ring_Buffer.thy ===== *)
theory Ring_Buffer
  imports Smart_Prelude
begin

text \<open>
  The byte ring buffer of \<open>public/buffer.h\<close> (class \<open>Buffer\<close>), which holds the bytes a
  connection has received and the bytes it has yet to send.

  The indices, the capacity and the mask are \<open>size_t\<close> words and every index computation is
  the code's, wrap-around included. Every operation that touches memory returns
  \<^const>\<open>None\<close> where the code would read or write outside the allocation, use a freed block
  or free it twice, so the lemmas that show \<^const>\<open>Some\<close> are memory safety.

  Outside the program: \<open>std::malloc\<close>, \<open>readv\<close>, \<open>writev\<close>, \<open>SSL_read\<close>, \<open>SSL_write\<close> and
  \<open>SSL_get_error\<close> are arguments.
\<close>

subsection \<open>The state\<close>

record buffer =
  buf_read_index :: size_t
  buf_write_index :: size_t
  buf_capacity :: size_t
  buf_mask :: size_t
  buf_ring :: mem_block
  buf_read_buffer :: mem_block

type_synonym allocator = "size_t \<Rightarrow> mem_block"

definition DEFAULT_INITIAL_SIZE :: size_t where
  "DEFAULT_INITIAL_SIZE = 8192"

subsection \<open>Construction, copy, move and destruction\<close>

text \<open>The assertion of the sized constructor is \<^const>\<open>None\<close> when it fails.\<close>

definition buffer_sized :: "allocator \<Rightarrow> size_t \<Rightarrow> buffer option" where
  "buffer_sized malloc sz =
     (if sz AND (sz - 1) \<noteq> 0 then None
      else Some \<lparr>buf_read_index = 0, buf_write_index = 0, buf_capacity = sz, buf_mask = sz - 1,
                 buf_ring = malloc sz, buf_read_buffer = Null\<rparr>)"

definition buffer_default :: "allocator \<Rightarrow> buffer" where
  "buffer_default malloc =
     \<lparr>buf_read_index = 0, buf_write_index = 0, buf_capacity = DEFAULT_INITIAL_SIZE,
      buf_mask = DEFAULT_INITIAL_SIZE - 1, buf_ring = malloc DEFAULT_INITIAL_SIZE,
      buf_read_buffer = Null\<rparr>"

definition buffer_copy :: "allocator \<Rightarrow> buffer \<Rightarrow> buffer option" where
  "buffer_copy malloc rhs = do {
     src \<leftarrow> block_read (buf_ring rhs) 0 (unat (buf_capacity rhs));
     ring \<leftarrow> block_write (malloc (buf_capacity rhs)) 0 src;
     Some \<lparr>buf_read_index = buf_read_index rhs, buf_write_index = buf_write_index rhs,
           buf_capacity = buf_capacity rhs, buf_mask = buf_mask rhs,
           buf_ring = ring, buf_read_buffer = Null\<rparr> }"

text \<open>
  Copy assignment between two different objects. The read buffer of the target is freed and its
  pointer is kept.
\<close>

definition buffer_assign :: "allocator \<Rightarrow> buffer \<Rightarrow> buffer \<Rightarrow> buffer option" where
  "buffer_assign malloc this rhs = do {
     _ \<leftarrow> block_free (buf_ring this);
     src \<leftarrow> block_read (buf_ring rhs) 0 (unat (buf_capacity rhs));
     ring \<leftarrow> block_write (malloc (buf_capacity rhs)) 0 src;
     rb \<leftarrow> block_free (buf_read_buffer this);
     Some \<lparr>buf_read_index = buf_read_index rhs, buf_write_index = buf_write_index rhs,
           buf_capacity = buf_capacity rhs, buf_mask = buf_mask rhs,
           buf_ring = ring, buf_read_buffer = rb\<rparr> }"

definition buffer_moved_from :: buffer where
  "buffer_moved_from =
     \<lparr>buf_read_index = 0, buf_write_index = 0, buf_capacity = 0, buf_mask = 0,
      buf_ring = Null, buf_read_buffer = Null\<rparr>"

text \<open>The move constructor: the new object and what is left of the old one.\<close>

definition buffer_move :: "buffer \<Rightarrow> buffer \<times> buffer" where
  "buffer_move rhs = (rhs, buffer_moved_from)"

definition buffer_move_assign :: "buffer \<Rightarrow> buffer \<Rightarrow> (buffer \<times> buffer) option" where
  "buffer_move_assign this rhs = do {
     _ \<leftarrow> block_free (buf_ring this);
     _ \<leftarrow> block_free (buf_read_buffer this);
     Some (rhs, buffer_moved_from) }"

definition buffer_destroy :: "buffer \<Rightarrow> unit option" where
  "buffer_destroy b = do {
     _ \<leftarrow> block_free (buf_ring b);
     _ \<leftarrow> block_free (buf_read_buffer b);
     Some () }"

text \<open>\<open>swap\<close> exchanges everything but the read buffers.\<close>

definition buffer_swap :: "buffer \<Rightarrow> buffer \<Rightarrow> buffer \<times> buffer" where
  "buffer_swap this rhs =
     (rhs\<lparr>buf_read_buffer := buf_read_buffer this\<rparr>,
      this\<lparr>buf_read_buffer := buf_read_buffer rhs\<rparr>)"

subsection \<open>Sizes\<close>

definition readable_bytes :: "buffer \<Rightarrow> size_t" where
  "readable_bytes b = (buf_capacity b + buf_write_index b - buf_read_index b) AND buf_mask b"

definition buffer_size :: "buffer \<Rightarrow> size_t" where
  "buffer_size b = readable_bytes b"

definition buffer_capacity :: "buffer \<Rightarrow> size_t" where
  "buffer_capacity b = buf_mask b"

definition writable_bytes :: "buffer \<Rightarrow> size_t" where
  "writable_bytes b = (buf_mask b + buf_read_index b - buf_write_index b) AND buf_mask b"

definition buffer_clear :: "buffer \<Rightarrow> buffer" where
  "buffer_clear b = b\<lparr>buf_read_index := 0, buf_write_index := 0\<rparr>"

subsection \<open>Iteration\<close>

record const_iterator =
  it_pointer :: mem_block
  it_index :: size_t
  it_mask :: size_t

definition it_next :: "const_iterator \<Rightarrow> const_iterator" where
  "it_next it = it\<lparr>it_index := (it_index it + 1) AND it_mask it\<rparr>"

definition it_plus :: "const_iterator \<Rightarrow> size_t \<Rightarrow> const_iterator" where
  "it_plus it offset = it\<lparr>it_index := (it_index it + offset) AND it_mask it\<rparr>"

definition it_eq :: "const_iterator \<Rightarrow> const_iterator \<Rightarrow> bool" where
  "it_eq l r \<longleftrightarrow>
     it_index l = it_index r \<and> ptr_eq (it_pointer l) (it_pointer r) \<and> it_mask l = it_mask r"

definition it_deref :: "const_iterator \<Rightarrow> char option" where
  "it_deref it = map_option hd (block_read (it_pointer it) (unat (it_index it)) 1)"

definition buffer_begin :: "buffer \<Rightarrow> const_iterator" where
  "buffer_begin b =
     \<lparr>it_pointer = buf_ring b, it_index = buf_read_index b, it_mask = buf_mask b\<rparr>"

definition buffer_end :: "buffer \<Rightarrow> const_iterator" where
  "buffer_end b =
     \<lparr>it_pointer = buf_ring b, it_index = buf_write_index b, it_mask = buf_mask b\<rparr>"

text \<open>
  The loop \<open>for (itr = begin (); itr != end (); ++itr)\<close> with the bytes it reads. It has no
  bound of its own, so not ending is \<^const>\<open>None\<close>, as is a read outside the ring.
\<close>

partial_function (option) it_collect ::
  "const_iterator \<Rightarrow> const_iterator \<Rightarrow> bytes \<Rightarrow> bytes option" where
  "it_collect itr fin acc =
     (if it_eq itr fin then Some acc
      else do { c \<leftarrow> it_deref itr; it_collect (it_next itr) fin (acc @ [c]) })"

definition buffer_iterate :: "buffer \<Rightarrow> bytes option" where
  "buffer_iterate b = it_collect (buffer_begin b) (buffer_end b) []"

subsection \<open>Views of the content\<close>

text \<open>A view is an offset into the ring and a length.\<close>

definition strs :: "buffer \<Rightarrow> (size_t \<times> size_t) list" where
  "strs b =
     (if buf_read_index b \<le> buf_write_index b
      then [(buf_read_index b, buf_write_index b - buf_read_index b)]
      else [(buf_read_index b, buf_capacity b - buf_read_index b), (0, buf_write_index b)])"

definition view_bytes :: "mem_block \<Rightarrow> size_t \<times> size_t \<Rightarrow> bytes option" where
  "view_bytes p v = block_read p (unat (fst v)) (unat (snd v))"

text \<open>
  \<open>str\<close> returns a pointer (a block and an offset) and a length; when the content wraps it is
  first copied into the read buffer, which is allocated on first use.
\<close>

definition buffer_str :: "allocator \<Rightarrow> buffer \<Rightarrow> (buffer \<times> mem_block \<times> size_t \<times> size_t) option" where
  "buffer_str malloc b =
     (let r = buf_read_index b; w = buf_write_index b; cap = buf_capacity b in
      if r \<le> w then Some (b, buf_ring b, r, w - r)
      else do {
        let rb = (if buf_read_buffer b = Null then malloc cap else buf_read_buffer b);
        s1 \<leftarrow> block_read (buf_ring b) (unat r) (unat (cap - r));
        rb1 \<leftarrow> block_write rb 0 s1;
        s2 \<leftarrow> block_read (buf_ring b) 0 (unat w);
        rb2 \<leftarrow> block_write rb1 (unat (cap - r)) s2;
        let b' = b\<lparr>buf_read_buffer := rb2\<rparr>;
        Some (b', rb2, 0, readable_bytes b') })"

definition buffer_str_bytes :: "allocator \<Rightarrow> buffer \<Rightarrow> (buffer \<times> bytes) option" where
  "buffer_str_bytes malloc b = do {
     (b', p, off, len) \<leftarrow> buffer_str malloc b;
     d \<leftarrow> block_read p (unat off) (unat len);
     Some (b', d) }"

subsection \<open>Appending and cutting\<close>

text \<open>
  \<open>append (const unsigned char* data, size_t size)\<close>: copies as much of the data as there is
  room for and returns that number.
\<close>

definition append_bytes :: "buffer \<Rightarrow> bytes \<Rightarrow> size_t \<Rightarrow> (buffer \<times> size_t) option" where
  "append_bytes b data sz =
     (let nw0 = writable_bytes b; nw = (if nw0 > sz then sz else nw0) in
      if nw = 0 then Some (b, nw)
      else do {
        ring \<leftarrow>
          (if buf_read_index b \<le> buf_write_index b then
             (if buf_capacity b - buf_write_index b \<ge> nw then do {
                d \<leftarrow> bytes_read data 0 (unat nw);
                block_write (buf_ring b) (unat (buf_write_index b)) d }
              else do {
                let writen = buf_capacity b - buf_write_index b;
                d1 \<leftarrow> bytes_read data 0 (unat writen);
                ring1 \<leftarrow> block_write (buf_ring b) (unat (buf_write_index b)) d1;
                d2 \<leftarrow> bytes_read data (unat writen) (unat (nw - writen));
                block_write ring1 0 d2 })
           else do {
             d \<leftarrow> bytes_read data 0 (unat nw);
             block_write (buf_ring b) (unat (buf_write_index b)) d });
        Some (b\<lparr>buf_ring := ring,
                buf_write_index := (buf_write_index b + nw) AND buf_mask b\<rparr>, nw) })"

definition append_string :: "buffer \<Rightarrow> string \<Rightarrow> (buffer \<times> size_t) option" where
  "append_string b other = append_bytes b other (word_of_nat (length other))"

text \<open>\<open>append (const Buffer&)\<close>: also the other buffer changes, when \<open>str\<close> allocates.\<close>

definition append_buffer ::
  "allocator \<Rightarrow> buffer \<Rightarrow> buffer \<Rightarrow> (buffer \<times> buffer \<times> size_t) option" where
  "append_buffer malloc b other = do {
     (other', p, off, len) \<leftarrow> buffer_str malloc other;
     d \<leftarrow> block_read p (unat off) (unat len);
     (b', n) \<leftarrow> append_bytes b d len;
     Some (b', other', n) }"

definition append_buffer_upto ::
  "allocator \<Rightarrow> buffer \<Rightarrow> buffer \<Rightarrow> size_t \<Rightarrow> (buffer \<times> buffer \<times> size_t) option" where
  "append_buffer_upto malloc b other sz = do {
     (other', p, off, len) \<leftarrow> buffer_str malloc other;
     d \<leftarrow> block_read p (unat off) (unat len);
     (b', n) \<leftarrow> append_bytes b d (if len > sz then sz else len);
     Some (b', other', n) }"

text \<open>\<open>append (const char*)\<close>: the length is found with \<open>strlen\<close>, up to the first nul.\<close>

definition append_cstr :: "buffer \<Rightarrow> string \<Rightarrow> (buffer \<times> size_t) option" where
  "append_cstr b other =
     (let s = takeWhile (\<lambda>c. c \<noteq> CHR 0x00) other in append_bytes b s (word_of_nat (length s)))"

definition buffer_cut :: "buffer \<Rightarrow> size_t \<Rightarrow> buffer \<times> size_t" where
  "buffer_cut b sz =
     (let nr = (if sz < readable_bytes b then sz else readable_bytes b) in
      (b\<lparr>buf_read_index := (buf_read_index b + nr) AND buf_mask b\<rparr>, nr))"

subsection \<open>Reading from a file descriptor\<close>

text \<open>
  The answer of \<open>readv\<close> to a list of free lengths: the return value, the bytes stored (filling
  the first segment before the second) and \<open>errno\<close>.
\<close>

record readv_result =
  rv_ret :: int
  rv_data :: bytes
  rv_errno :: int

type_synonym readv_fn = "size_t list \<Rightarrow> readv_result"

text \<open>Where the free space lies: one or two (offset, length) segments.\<close>

definition free_iov :: "buffer \<Rightarrow> (size_t \<times> size_t) list" where
  "free_iov b =
     (let nw = writable_bytes b in
      if buf_read_index b \<le> buf_write_index b then
        (if buf_capacity b - buf_write_index b \<ge> nw then [(buf_write_index b, nw)]
         else let writen = buf_capacity b - buf_write_index b in
           [(buf_write_index b, writen), (0, nw - writen)])
      else [(buf_write_index b, nw)])"

fun scatter :: "mem_block \<Rightarrow> (size_t \<times> size_t) list \<Rightarrow> bytes \<Rightarrow> mem_block option" where
  "scatter p [] d = (if d = [] then Some p else None)"
| "scatter p ((off, len) # vs) d = do {
     p' \<leftarrow> block_write p (unat off) (take (unat len) d);
     scatter p' vs (drop (unat len) d) }"

text \<open>
  The result is the return value and what was stored in \<open>*error\<close>, if anything; with a null
  \<open>error\<close> pointer (the first argument is \<^const>\<open>False\<close>) a failing read dereferences it.
\<close>

definition append_from_fd ::
  "bool \<Rightarrow> readv_fn \<Rightarrow> buffer \<Rightarrow> (buffer \<times> int \<times> int option) option" where
  "append_from_fd has_error readv b =
     (if writable_bytes b = 0 then Some (b, 0, None)
      else
        let vec = free_iov b; res = readv (map snd vec) in
        do {
          ring \<leftarrow> scatter (buf_ring b) vec (rv_data res);
          if rv_ret res > 0 then
            Some (b\<lparr>buf_ring := ring,
                    buf_write_index := (buf_write_index b + word_of_int (rv_ret res)) AND buf_mask b\<rparr>,
                  rv_ret res, None)
          else if has_error then
            Some (b\<lparr>buf_ring := ring\<rparr>, rv_ret res, Some (rv_errno res))
          else None })"

subsection \<open>Reading from a TLS session\<close>

text \<open>
  The session is a state of type \<open>'s\<close>. \<open>SSL_read\<close> takes an \<open>int\<close> length and returns an
  \<open>int\<close> and the bytes it stored.
\<close>

type_synonym 's ssl_read_fn = "'s \<Rightarrow> int \<Rightarrow> int \<times> bytes \<times> 's"
type_synonym 's ssl_error_fn = "'s \<Rightarrow> int \<Rightarrow> int"

record 's ssl_io =
  io_buffer :: buffer
  io_session :: 's
  io_ret :: int
  io_error :: "int option"

definition append_from_ssl ::
  "'s ssl_read_fn \<Rightarrow> 's ssl_error_fn \<Rightarrow> 's \<Rightarrow> buffer \<Rightarrow> 's ssl_io option" where
  "append_from_ssl SSL_read SSL_get_error ssl b =
     (let nw = writable_bytes b; w = buf_write_index b in
      if nw = 0 then Some \<lparr>io_buffer = b, io_session = ssl, io_ret = 0, io_error = None\<rparr>
      else if buf_read_index b \<le> w then
        (let writen = buf_capacity b - w; (ret, d, s1) = SSL_read ssl (to_c_int writen) in do {
           ring \<leftarrow> block_write (buf_ring b) (unat w) d;
           let b1 = b\<lparr>buf_ring := ring\<rparr>;
           if ret \<le> 0 then
             Some \<lparr>io_buffer = b1, io_session = s1, io_ret = ret,
                   io_error = Some (SSL_get_error s1 ret)\<rparr>
           else if (word_of_int ret :: size_t) = writen then
             (let (ret2, d2, s2) = SSL_read s1 (to_c_int (nw - writen)) in do {
                ring2 \<leftarrow> block_write ring 0 d2;
                let b2 = b\<lparr>buf_ring := ring2\<rparr>;
                if ret2 < 0 then
                  Some \<lparr>io_buffer = b2, io_session = s2, io_ret = ret2,
                        io_error = Some (SSL_get_error s2 ret2)\<rparr>
                else
                  Some \<lparr>io_buffer = b2\<lparr>buf_write_index :=
                            (w + word_of_int (ret + ret2)) AND buf_mask b\<rparr>,
                        io_session = s2, io_ret = ret + ret2, io_error = None\<rparr> })
           else
             Some \<lparr>io_buffer = b1\<lparr>buf_write_index := (w + word_of_int ret) AND buf_mask b\<rparr>,
                   io_session = s1, io_ret = ret, io_error = None\<rparr> })
      else
        (let (ret, d, s1) = SSL_read ssl (to_c_int nw) in do {
           ring \<leftarrow> block_write (buf_ring b) (unat w) d;
           let b1 = b\<lparr>buf_ring := ring\<rparr>;
           if ret \<le> 0 then
             Some \<lparr>io_buffer = b1, io_session = s1, io_ret = ret,
                   io_error = Some (SSL_get_error s1 ret)\<rparr>
           else
             Some \<lparr>io_buffer = b1\<lparr>buf_write_index := (w + word_of_int ret) AND buf_mask b\<rparr>,
                   io_session = s1, io_ret = ret, io_error = None\<rparr> }))"

subsection \<open>Writing to a file descriptor or a TLS session\<close>

text \<open>\<open>writev\<close> is given the bytes of the segments, one after the other, and returns a number.\<close>

type_synonym writev_fn = "bytes list \<Rightarrow> int"
type_synonym 's ssl_write_fn = "'s \<Rightarrow> bytes \<Rightarrow> int \<Rightarrow> int \<times> 's"

definition cut_amount :: "buffer \<Rightarrow> size_t \<Rightarrow> size_t" where
  "cut_amount b sz =
     (let nr = readable_bytes b in if sz \<noteq> 0 \<and> nr > sz then sz else nr)"

definition used_iov :: "buffer \<Rightarrow> size_t \<Rightarrow> (size_t \<times> size_t) list" where
  "used_iov b nr =
     (if buf_read_index b < buf_write_index b then [(buf_read_index b, nr)]
      else if buf_capacity b - buf_read_index b > nr then [(buf_read_index b, nr)]
      else let rd = buf_capacity b - buf_read_index b in
        [(buf_read_index b, rd), (0, nr - rd)])"

fun gather :: "mem_block \<Rightarrow> (size_t \<times> size_t) list \<Rightarrow> bytes list option" where
  "gather p [] = Some []"
| "gather p (v # vs) = do { d \<leftarrow> view_bytes p v; ds \<leftarrow> gather p vs; Some (d # ds) }"

definition cut_into_fd :: "writev_fn \<Rightarrow> buffer \<Rightarrow> size_t \<Rightarrow> (buffer \<times> int) option" where
  "cut_into_fd writev b sz = do {
     ds \<leftarrow> gather (buf_ring b) (used_iov b (cut_amount b sz));
     let ret = writev ds;
     if ret > 0 then
       Some (b\<lparr>buf_read_index := (buf_read_index b + word_of_int ret) AND buf_mask b\<rparr>, ret)
     else Some (b, ret) }"

definition cut_into_ssl ::
  "'s ssl_write_fn \<Rightarrow> 's \<Rightarrow> buffer \<Rightarrow> size_t \<Rightarrow> (buffer \<times> 's \<times> int) option" where
  "cut_into_ssl SSL_write ssl b sz =
     (let nr = cut_amount b sz; r = buf_read_index b;
          cut = b\<lparr>buf_read_index := (r + nr) AND buf_mask b\<rparr> in
      if r < buf_write_index b \<or> buf_capacity b - r > nr then do {
        d \<leftarrow> block_read (buf_ring b) (unat r) (unat nr);
        let (ret, s1) = SSL_write ssl d (to_c_int nr);
        Some (if ret > 0 then cut else b, s1, ret) }
      else do {
        let rd = buf_capacity b - r;
        d \<leftarrow> block_read (buf_ring b) (unat r) (unat rd);
        let (ret, s1) = SSL_write ssl d (to_c_int rd);
        if ret < 0 then Some (b, s1, ret)
        else if (word_of_int ret :: size_t) = rd then do {
          d2 \<leftarrow> block_read (buf_ring b) 0 (unat (nr - rd));
          let (ret2, s2) = SSL_write s1 d2 (to_c_int (nr - rd));
          Some (if ret2 < 0 then (b, s2, ret2) else (cut, s2, ret + ret2)) }
        else Some (cut, s1, ret) })"

subsection \<open>The content as a list\<close>

text \<open>
  The abstraction: the bytes between the read index and the write index, read around the end of
  the ring. First on plain lists, then on the buffer.
\<close>

definition ring_content :: "'a list \<Rightarrow> nat \<Rightarrow> nat \<Rightarrow> 'a list" where
  "ring_content m r w = (if r \<le> w then take (w - r) (drop r m) else drop r m @ take w m)"

lemma length_ring_content:
  "r < length m \<Longrightarrow> w < length m \<Longrightarrow>
   length (ring_content m r w) = (if r \<le> w then w - r else length m + w - r)"
  by (auto simp: ring_content_def)

lemma ring_content_append_flat:
  assumes "r < length m" "w + length d \<le> length m" "0 < length d" "r \<le> w"
    and room: "length (ring_content m r w) + length d < length m"
  shows "ring_content (overwrite m w d) r ((w + length d) mod length m) = ring_content m r w @ d"
proof (cases "w + length d = length m")
  case True
  with assms have "w < length m" by linarith
  with True assms have "0 < r" by (simp add: length_ring_content)
  with True assms show ?thesis
    by (simp add: ring_content_def drop_overwrite_before overwrite_to_end drop_take)
next
  case False
  with assms have "w + length d < length m" by simp
  moreover have "w + length d - r = (w - r) + length d" using assms by simp
  moreover have "take ((w - r) + length d) (overwrite (drop r m) (w - r) d) = take (w - r) (drop r m) @ d"
    using assms by (intro take_overwrite_upto) simp
  ultimately show ?thesis using assms
    by (simp add: ring_content_def drop_overwrite_before)
qed

lemma ring_content_append_below:
  assumes "r < length m" "w < r"
    and room: "length (ring_content m r w) + length d < length m"
  shows "ring_content (overwrite m w d) r ((w + length d) mod length m) = ring_content m r w @ d"
proof -
  have lt: "w + length d < r" using assms by (simp add: length_ring_content)
  with assms show ?thesis
    by (simp add: ring_content_def drop_overwrite_after take_overwrite_upto)
qed

lemma ring_content_append_wrap:
  assumes "r < length m" "w < length m" "r \<le> w" "length m < w + length d"
    and room: "length (ring_content m r w) + length d < length m"
  shows "ring_content (overwrite (overwrite m w (take (length m - w) d)) 0 (drop (length m - w) d)) r
           ((w + length d) mod length m) = ring_content m r w @ d"
proof -
  let ?m1 = "overwrite m w (take (length m - w) d)"
  have lt: "w + length d - length m < r" using assms by (simp add: length_ring_content)
  have md: "(w + length d) mod length m = w + length d - length m"
    using assms lt by (simp add: mod_if)
  have len1: "length ?m1 = length m" using assms by simp
  have ld: "length (drop (length m - w) d) = w + length d - length m" using assms by simp
  have t: "take (w + length d - length m) (overwrite ?m1 0 (drop (length m - w) d)) = drop (length m - w) d"
    using take_overwrite_upto[of 0 ?m1 "drop (length m - w) d"] ld by simp
  have d: "drop r (overwrite ?m1 0 (drop (length m - w) d)) = drop r ?m1"
    using assms lt ld len1 by (intro drop_overwrite_after) auto
  have e: "drop r ?m1 = take (w - r) (drop r m) @ take (length m - w) d"
    using assms by (simp add: overwrite_to_end drop_take)
  show ?thesis
    using assms lt by (simp add: ring_content_def md t d e)
qed

lemma ring_content_cut:
  assumes "r < length m" "w < length m" "n \<le> length (ring_content m r w)"
  shows "ring_content m ((r + n) mod length m) w = drop n (ring_content m r w)"
proof (cases "r \<le> w")
  case True
  with assms show ?thesis
    by (auto simp: ring_content_def length_ring_content drop_take mod_if add.commute)
next
  case False
  show ?thesis
  proof (cases "r + n < length m")
    case True
    with False assms show ?thesis by (simp add: ring_content_def add.commute)
  next
    case ge: False
    then have "(r + n) mod length m = r + n - length m" and "r + n - length m \<le> w"
      using False assms by (auto simp: length_ring_content mod_if)
    with False ge assms show ?thesis
      by (simp add: ring_content_def length_ring_content drop_take add.commute)
  qed
qed

definition sized_block :: "nat \<Rightarrow> mem_block \<Rightarrow> bool" where
  "sized_block n p = (case p of Block a m \<Rightarrow> length m = n | _ \<Rightarrow> False)"

lemma sized_block_iff: "sized_block n p \<longleftrightarrow> (\<exists>a m. p = Block a m \<and> length m = n)"
  by (auto simp: sized_block_def split: mem_block.splits)

definition buf_ok :: "nat \<Rightarrow> buffer \<Rightarrow> bool" where
  "buf_ok k b \<longleftrightarrow>
     k < 64 \<and> buf_capacity b = 2 ^ k \<and> buf_mask b = 2 ^ k - 1
     \<and> unat (buf_read_index b) < 2 ^ k \<and> unat (buf_write_index b) < 2 ^ k
     \<and> sized_block (2 ^ k) (buf_ring b)
     \<and> (buf_read_buffer b = Null \<or> sized_block (2 ^ k) (buf_read_buffer b))"

definition contents :: "buffer \<Rightarrow> bytes" where
  "contents b =
     ring_content (blk_bytes (buf_ring b)) (unat (buf_read_index b)) (unat (buf_write_index b))"

lemma buf_okE:
  assumes "buf_ok k b"
  obtains a m where "buf_ring b = Block a m" "length m = 2 ^ k" "k < 64"
    "buf_capacity b = 2 ^ k" "buf_mask b = 2 ^ k - 1"
    "unat (buf_read_index b) < length m" "unat (buf_write_index b) < length m"
    "contents b = ring_content m (unat (buf_read_index b)) (unat (buf_write_index b))"
  using assms by (auto simp: buf_ok_def sized_block_iff contents_def)

lemma length_contents:
  "buf_ok k b \<Longrightarrow> length (contents b) =
     (if unat (buf_read_index b) \<le> unat (buf_write_index b)
      then unat (buf_write_index b) - unat (buf_read_index b)
      else 2 ^ k + unat (buf_write_index b) - unat (buf_read_index b))"
  by (erule buf_okE) (simp add: length_ring_content)

lemma length_contents_less: "buf_ok k b \<Longrightarrow> length (contents b) < 2 ^ k"
  by (erule buf_okE) (auto simp: length_ring_content)

lemma unat_masked_add:
  "buf_ok k b \<Longrightarrow> unat ((x + n) AND buf_mask b) = (unat x + unat n) mod 2 ^ k"
  by (simp add: buf_ok_def unat_and_low_mask unat_add_mod_pow2)

lemma unat_readable: "buf_ok k b \<Longrightarrow> unat (readable_bytes b) = length (contents b)"
proof -
  assume ok: "buf_ok k b"
  let ?r = "unat (buf_read_index b)" and ?w = "unat (buf_write_index b)"
  from ok have k: "k < 64" and r: "?r < 2 ^ k" and w: "?w < 2 ^ k" by (auto simp: buf_ok_def)
  have "unat (readable_bytes b) = unat (buf_capacity b + buf_write_index b - buf_read_index b) mod 2 ^ k"
    using ok by (simp add: readable_bytes_def buf_ok_def unat_and_low_mask)
  also have "\<dots> = (unat (buf_capacity b + buf_write_index b) + (2 ^ k - ?r)) mod 2 ^ k"
    using k r by (simp add: unat_diff_mod_pow2)
  also have "\<dots> = (unat (buf_capacity b + buf_write_index b) mod 2 ^ k + (2 ^ k - ?r)) mod 2 ^ k"
    by (simp add: mod_add_left_eq)
  also have "unat (buf_capacity b + buf_write_index b) mod 2 ^ k = ?w"
    using ok k w by (simp add: unat_add_mod_pow2 buf_ok_def unat_pow2)
  also have "(?w + (2 ^ k - ?r)) mod 2 ^ k = length (contents b)"
    using ok r w by (auto simp: length_contents mod_if)
  finally show ?thesis .
qed

lemma unat_writable: "buf_ok k b \<Longrightarrow> unat (writable_bytes b) = 2 ^ k - 1 - length (contents b)"
proof -
  assume ok: "buf_ok k b"
  let ?r = "unat (buf_read_index b)" and ?w = "unat (buf_write_index b)"
  from ok have k: "k < 64" and r: "?r < 2 ^ k" and w: "?w < 2 ^ k" by (auto simp: buf_ok_def)
  have m: "unat (2 ^ k - 1 :: 64 word) = 2 ^ k - 1"
    using k by (simp add: unat_minus_one unat_pow2)
  have "unat (writable_bytes b) = unat (buf_mask b + buf_read_index b - buf_write_index b) mod 2 ^ k"
    using ok by (simp add: writable_bytes_def buf_ok_def unat_and_low_mask)
  also have "\<dots> = (unat (buf_mask b + buf_read_index b) + (2 ^ k - ?w)) mod 2 ^ k"
    using k w by (simp add: unat_diff_mod_pow2)
  also have "\<dots> = (unat (buf_mask b + buf_read_index b) mod 2 ^ k + (2 ^ k - ?w)) mod 2 ^ k"
    by (simp add: mod_add_left_eq)
  also have "unat (buf_mask b + buf_read_index b) mod 2 ^ k = (2 ^ k - 1 + ?r) mod 2 ^ k"
    using ok k w m by (simp add: unat_add_mod_pow2 buf_ok_def)
  also have "((2 ^ k - 1 + ?r) mod 2 ^ k + (2 ^ k - ?w)) mod 2 ^ k = (2 ^ k - 1 + ?r + (2 ^ k - ?w)) mod 2 ^ k"
    by (simp add: mod_add_left_eq)
  also have "\<dots> = 2 ^ k - 1 - length (contents b)"
    using ok r w by (auto simp: length_contents mod_if)
  finally show ?thesis .
qed

definition store :: "'a list \<Rightarrow> nat \<Rightarrow> 'a list \<Rightarrow> 'a list" where
  "store m w d =
     (if w + length d \<le> length m then overwrite m w d
      else overwrite (overwrite m w (take (length m - w) d)) 0 (drop (length m - w) d))"

lemma length_store: "w < length m \<Longrightarrow> length d \<le> length m \<Longrightarrow> length (store m w d) = length m"
  by (simp add: store_def)

lemma ring_content_store:
  assumes "r < length m" "w < length m" and "length (ring_content m r w) + length d < length m"
  shows "ring_content (store m w d) r ((w + length d) mod length m) = ring_content m r w @ d"
proof (cases "d = []")
  case True
  with assms show ?thesis by (simp add: store_def overwrite_def)
next
  case False
  show ?thesis
  proof (cases "r \<le> w")
    case flat: True
    show ?thesis
    proof (cases "w + length d \<le> length m")
      case True
      with assms flat False show ?thesis
        by (simp add: store_def ring_content_append_flat)
    next
      case nw: False
      with assms flat show ?thesis
        by (simp add: store_def ring_content_append_wrap)
    qed
  next
    case below: False
    then have "w + length d \<le> length m" using assms by (auto simp: length_ring_content)
    with assms below show ?thesis by (simp add: store_def ring_content_append_below)
  qed
qed

text \<open>Storing bytes behind the content and advancing the write index appends them.\<close>

lemma buf_advance:
  assumes ok: "buf_ok k b" and ring: "buf_ring b = Block a m"
    and room: "length (contents b) + length d < 2 ^ k" and n: "unat n = length d"
  defines "b' \<equiv> b\<lparr>buf_ring := Block a (store m (unat (buf_write_index b)) d),
                   buf_write_index := (buf_write_index b + n) AND buf_mask b\<rparr>"
  shows "buf_ok k b'" and "contents b' = contents b @ d"
proof -
  from ok ring have m: "length m = 2 ^ k" "unat (buf_read_index b) < length m"
      "unat (buf_write_index b) < length m"
      "contents b = ring_content m (unat (buf_read_index b)) (unat (buf_write_index b))"
    by (auto elim: buf_okE)
  have w: "unat ((buf_write_index b + n) AND buf_mask b) = (unat (buf_write_index b) + length d) mod length m"
    using ok m n by (simp add: unat_masked_add)
  have ls: "length (store m (unat (buf_write_index b)) d) = 2 ^ k"
    using m room by (simp add: length_store)
  from m(1) have "(unat (buf_write_index b) + length d) mod length m < 2 ^ k" by simp
  with ok ls w show "buf_ok k b'"
    by (simp add: buf_ok_def b'_def sized_block_def)
  show "contents b' = contents b @ d"
    using ring_content_store[OF m(2) m(3), of d] m room w by (simp add: contents_def b'_def)
qed

lemma buf_nat_le:
  assumes "buf_ok k b"
  shows "buf_read_index b \<le> buf_write_index b \<longleftrightarrow> unat (buf_read_index b) \<le> unat (buf_write_index b)"
  by (simp add: word_le_nat_alt)

lemma unat_cap_minus:
  assumes "buf_ok k b" "unat x < 2 ^ k"
  shows "unat (buf_capacity b - x) = 2 ^ k - unat x"
proof -
  have "x \<le> buf_capacity b" using assms by (simp add: buf_ok_def word_le_nat_alt unat_pow2)
  then show ?thesis using assms by (simp add: unat_sub buf_ok_def unat_pow2)
qed

subsection \<open>What the operations do to the content\<close>

lemma append_bytes_correct:
  assumes ok: "buf_ok k b" and sz: "unat sz \<le> length data"
  defines "n \<equiv> min (unat sz) (2 ^ k - 1 - length (contents b))"
  shows "\<exists>b'. append_bytes b data sz = Some (b', word_of_nat n) \<and> buf_ok k b'
    \<and> contents b' = contents b @ take n data"
proof -
  obtain a m where r: "buf_ring b = Block a m" and m: "length m = 2 ^ k"
    and rl: "unat (buf_read_index b) < length m" and wl: "unat (buf_write_index b) < length m"
    using ok by (auto elim: buf_okE)
  define nw where "nw = (if writable_bytes b > sz then sz else writable_bytes b)"
  have un: "unat nw = n"
    using unat_writable[OF ok] by (simp add: nw_def n_def word_less_nat_alt min_def)
  then have nw_n: "nw = word_of_nat n" by (simp flip: un)
  show ?thesis
  proof (cases "nw = 0")
    case True
    then have "n = 0" using un by simp
    with True ok nw_n show ?thesis
      by (simp add: append_bytes_def Let_def nw_def[symmetric])
  next
    case False
    let ?w = "unat (buf_write_index b)"
    define d where "d = take n data"
    have ld: "length d = n" and nd: "n \<le> length data" using sz by (auto simp: d_def n_def)
    have room: "length (contents b) + length d < 2 ^ k"
      using length_contents_less[OF ok] ld by (auto simp: n_def)
    note adv = buf_advance[OF ok r room, of nw]
    have cw: "unat (buf_capacity b - buf_write_index b) = 2 ^ k - ?w"
      using ok wl m by (simp add: unat_cap_minus)
    have fits: "unat (buf_write_index b) + n \<le> 2 ^ k" if "\<not> buf_read_index b \<le> buf_write_index b"
      using that room ld ok rl wl m by (simp add: length_contents word_le_nat_alt)
    have "append_bytes b data sz =
      Some (b\<lparr>buf_ring := Block a (store m ?w d),
              buf_write_index := (buf_write_index b + nw) AND buf_mask b\<rparr>, nw)"
    proof (cases "?w + n \<le> 2 ^ k")
      case True
      then show ?thesis
        using False r m ld nd fits un cw
        by (auto simp: append_bytes_def Let_def nw_def[symmetric] word_le_nat_alt mem_simps store_def d_def)
    next
      case wrap: False
      have rw: "buf_read_index b \<le> buf_write_index b" using fits wrap by blast
      have lt: "\<not> nw \<le> buf_capacity b - buf_write_index b" and le: "buf_capacity b - buf_write_index b \<le> nw"
        using wrap un cw wl m by (auto simp: word_le_nat_alt)
      have rest: "unat (nw - (buf_capacity b - buf_write_index b)) = n - (2 ^ k - ?w)"
        using le un cw by (simp add: unat_sub)
      let ?d1 = "take (2 ^ k - ?w) d" and ?d2 = "drop (2 ^ k - ?w) d"
      have n2: "n < 2 ^ k" using room ld by simp
      have ge: "2 ^ k - ?w \<le> n" using wrap by linarith
      have rd: "bytes_read data 0 (2 ^ k - ?w) = Some ?d1"
          "bytes_read data (2 ^ k - ?w) (n - (2 ^ k - ?w)) = Some ?d2"
        using ge wl m nd by (simp_all add: mem_simps d_def min_def drop_take)
      have l1: "?w + length ?d1 = length m" using wrap wl m ld by simp
      have wr1: "block_write (Block a m) ?w ?d1 = Some (Block a (overwrite m ?w ?d1))"
        using l1 by (simp add: mem_simps)
      have wr2: "block_write (Block a (overwrite m ?w ?d1)) 0 ?d2
          = Some (Block a (overwrite (overwrite m ?w ?d1) 0 ?d2))"
        using l1 ld n2 m by (intro block_write_Block) simp
      have st: "store m ?w d = overwrite (overwrite m ?w ?d1) 0 ?d2"
        using wrap m ld by (simp add: store_def)
      show ?thesis
        using False rw lt
        by (simp add: append_bytes_def Let_def nw_def[symmetric] r cw rest rd wr1 wr2 st)
    qed
    with adv nw_n un ld d_def show ?thesis by auto
  qed
qed

lemma buf_retreat:
  assumes ok: "buf_ok k b" and n: "unat n \<le> length (contents b)"
  defines "b' \<equiv> b\<lparr>buf_read_index := (buf_read_index b + n) AND buf_mask b\<rparr>"
  shows "buf_ok k b'" and "contents b' = drop (unat n) (contents b)"
proof -
  obtain a m where r: "buf_ring b = Block a m" and m: "length m = 2 ^ k"
    and rl: "unat (buf_read_index b) < length m" and wl: "unat (buf_write_index b) < length m"
    and c: "contents b = ring_content m (unat (buf_read_index b)) (unat (buf_write_index b))"
    using ok by (auto elim: buf_okE)
  have i: "unat ((buf_read_index b + n) AND buf_mask b) = (unat (buf_read_index b) + unat n) mod length m"
    using ok m by (simp add: unat_masked_add)
  from m have "(unat (buf_read_index b) + unat n) mod length m < 2 ^ k" by simp
  with ok i show "buf_ok k b'" by (simp add: buf_ok_def b'_def)
  show "contents b' = drop (unat n) (contents b)"
    using ring_content_cut[OF rl wl, of "unat n"] n c r i by (simp add: contents_def b'_def)
qed

lemma buffer_cut_correct:
  assumes ok: "buf_ok k b"
  shows "buf_ok k (fst (buffer_cut b sz))"
    and "contents (fst (buffer_cut b sz)) = drop (unat sz) (contents b)"
    and "unat (snd (buffer_cut b sz)) = min (unat sz) (length (contents b))"
proof -
  define nr where "nr = (if sz < readable_bytes b then sz else readable_bytes b)"
  have un: "unat nr = min (unat sz) (length (contents b))"
    using unat_readable[OF ok] by (auto simp: nr_def word_less_nat_alt)
  then have le: "unat nr \<le> length (contents b)" by simp
  have e: "buffer_cut b sz = (b\<lparr>buf_read_index := (buf_read_index b + nr) AND buf_mask b\<rparr>, nr)"
    by (simp add: buffer_cut_def Let_def nr_def)
  show "buf_ok k (fst (buffer_cut b sz))"
    using buf_retreat(1)[OF ok le] by (simp add: e)
  show "contents (fst (buffer_cut b sz)) = drop (unat sz) (contents b)"
    using buf_retreat(2)[OF ok le] un by (simp add: e min_def)
  show "unat (snd (buffer_cut b sz)) = min (unat sz) (length (contents b))"
    using un by (simp add: e)
qed

lemma buffer_clear_correct:
  assumes "buf_ok k b"
  shows "buf_ok k (buffer_clear b)" and "contents (buffer_clear b) = []"
  using assms by (auto simp: buffer_clear_def buf_ok_def contents_def ring_content_def)

lemma buffer_default_correct:
  assumes "sized_block 8192 (malloc DEFAULT_INITIAL_SIZE)"
  shows "buf_ok 13 (buffer_default malloc)" and "contents (buffer_default malloc) = []"
  using assms by (simp_all add: buffer_default_def buf_ok_def DEFAULT_INITIAL_SIZE_def contents_def ring_content_def)

lemma buffer_sized_correct:
  assumes "k < 64" and "sized_block (2 ^ k) (malloc (2 ^ k))"
  shows "\<exists>b. buffer_sized malloc (2 ^ k) = Some b \<and> buf_ok k b \<and> contents b = []"
proof -
  have "unat ((2 ^ k :: 64 word) AND (2 ^ k - 1)) = 0"
    using assms(1) by (simp add: unat_and_low_mask unat_pow2)
  then have "(2 ^ k :: 64 word) AND (2 ^ k - 1) = 0" by (simp add: unat_eq_0)
  with assms show ?thesis
    by (simp add: buffer_sized_def buf_ok_def contents_def ring_content_def)
qed

lemma strs_views:
  assumes ok: "buf_ok k b"
  shows "\<exists>ds. map (view_bytes (buf_ring b)) (strs b) = map Some ds \<and> concat ds = contents b"
proof -
  obtain a m where r: "buf_ring b = Block a m" and m: "length m = 2 ^ k"
    and rl: "unat (buf_read_index b) < length m" and wl: "unat (buf_write_index b) < length m"
    and c: "contents b = ring_content m (unat (buf_read_index b)) (unat (buf_write_index b))"
    using ok by (auto elim: buf_okE)
  have cr: "unat (buf_capacity b - buf_read_index b) = 2 ^ k - unat (buf_read_index b)"
    using unat_cap_minus[OF ok] rl m by simp
  show ?thesis
  proof (cases "buf_read_index b \<le> buf_write_index b")
    case True
    then have u: "unat (buf_write_index b - buf_read_index b) = unat (buf_write_index b) - unat (buf_read_index b)"
      by (simp add: unat_sub)
    show ?thesis
      using True r m rl wl c
      by (intro exI[of _ "[contents b]"])
         (simp add: strs_def view_bytes_def mem_simps ring_content_def u word_le_nat_alt)
  next
    case False
    then show ?thesis
      using r m rl wl c cr
      by (intro exI[of _ "[drop (unat (buf_read_index b)) m, take (unat (buf_write_index b)) m]"])
         (simp add: strs_def view_bytes_def mem_simps ring_content_def word_le_nat_alt)
  qed
qed

lemma buffer_str_correct:
  assumes ok: "buf_ok k b" and alloc: "sized_block (2 ^ k) (malloc (buf_capacity b))"
  shows "\<exists>b'. buffer_str_bytes malloc b = Some (b', contents b) \<and> buf_ok k b' \<and> contents b' = contents b"
proof -
  obtain a m where r: "buf_ring b = Block a m" and m: "length m = 2 ^ k"
    and rl: "unat (buf_read_index b) < length m" and wl: "unat (buf_write_index b) < length m"
    and c: "contents b = ring_content m (unat (buf_read_index b)) (unat (buf_write_index b))"
    using ok by (auto elim: buf_okE)
  let ?r = "unat (buf_read_index b)" and ?w = "unat (buf_write_index b)"
  have cr: "unat (buf_capacity b - buf_read_index b) = 2 ^ k - ?r"
    using unat_cap_minus[OF ok] rl m by simp
  show ?thesis
  proof (cases "buf_read_index b \<le> buf_write_index b")
    case True
    then have u: "unat (buf_write_index b - buf_read_index b) = ?w - ?r" by (simp add: unat_sub)
    show ?thesis
      using True r m rl wl c ok u
      by (simp add: buffer_str_bytes_def buffer_str_def Let_def mem_simps ring_content_def word_le_nat_alt)
  next
    case False
    then have lt: "?w < ?r" by (simp add: word_le_nat_alt)
    define rb where "rb = (if buf_read_buffer b = Null then malloc (buf_capacity b) else buf_read_buffer b)"
    have "sized_block (2 ^ k) rb" using ok alloc by (auto simp: rb_def buf_ok_def)
    then obtain a' m' where rb: "rb = Block a' m'" and m': "length m' = 2 ^ k" by (auto simp: sized_block_iff)
    define m1 where "m1 = overwrite m' 0 (drop ?r m)"
    define m2 where "m2 = overwrite m1 (2 ^ k - ?r) (take ?w m)"
    have l1: "length m1 = 2 ^ k" using m m' by (simp add: m1_def)
    have l2: "length m2 = 2 ^ k" using l1 lt rl wl m unfolding m2_def by simp
    have w1: "block_write rb 0 (drop ?r m) = Some (Block a' m1)"
      using rb m m' by (simp add: mem_simps m1_def)
    have w2: "block_write (Block a' m1) (2 ^ k - ?r) (take ?w m) = Some (Block a' m2)"
      unfolding m2_def using l1 lt rl wl m by (intro block_write_Block) simp
    define b' where "b' = b\<lparr>buf_read_buffer := Block a' m2\<rparr>"
    have ok': "buf_ok k b'" and cb': "contents b' = contents b"
      using ok l2 by (auto simp: buf_ok_def b'_def sized_block_def contents_def)
    have len: "length (contents b) = (2 ^ k - ?r) + ?w"
      using lt rl wl m by (simp add: length_contents[OF ok])
    have "take ((2 ^ k - ?r) + ?w) m2 = drop ?r m @ take ?w m"
      using take_overwrite_upto[of "2 ^ k - ?r" m1 "take ?w m"] l1 m rl wl m'
        take_overwrite_upto[of 0 m' "drop ?r m"]
      by (simp add: m2_def m1_def)
    moreover have "contents b = drop ?r m @ take ?w m"
      using c lt by (simp add: ring_content_def)
    ultimately have "take (length (contents b)) m2 = contents b"
      by (metis len)
    moreover have "length (contents b) \<le> length m2" using l2 length_contents_less[OF ok] by simp
    ultimately have rd: "block_read (Block a' m2) 0 (unat (readable_bytes b')) = Some (contents b)"
      by (simp add: unat_readable[OF ok'] cb' mem_simps)
    have "buffer_str malloc b = Some (b', Block a' m2, 0, readable_bytes b')"
      using False r m rl wl lt
      by (simp add: buffer_str_def Let_def rb_def[symmetric] mem_simps cr w1 w2 b'_def)
    with rd ok' cb' show ?thesis by (simp add: buffer_str_bytes_def)
  qed
qed

subsection \<open>Iteration visits the content\<close>

lemma it_deref_begin:
  assumes ok: "buf_ok k b" and ne: "contents b \<noteq> []"
  shows "it_deref (buffer_begin b) = Some (hd (contents b))"
proof -
  obtain a m where r: "buf_ring b = Block a m" and rl: "unat (buf_read_index b) < length m"
    and c: "contents b = ring_content m (unat (buf_read_index b)) (unat (buf_write_index b))"
    using ok by (auto elim: buf_okE)
  have "hd (contents b) = m ! unat (buf_read_index b)"
    using ne rl by (auto simp: c ring_content_def hd_append hd_drop_conv_nth split: if_splits)
  with r rl show ?thesis
    by (simp add: it_deref_def buffer_begin_def mem_simps hd_drop_conv_nth)
qed

lemma it_eq_begin_end:
  assumes ok: "buf_ok k b"
  shows "it_eq (buffer_begin b) (buffer_end b) \<longleftrightarrow> contents b = []"
proof -
  have "contents b = [] \<longleftrightarrow> unat (buf_read_index b) = unat (buf_write_index b)"
    using length_contents[OF ok] ok by (auto simp: buf_ok_def simp flip: length_0_conv split: if_splits)
  then show ?thesis
    using ok by (auto simp: it_eq_def buffer_begin_def buffer_end_def ptr_eq_def buf_ok_def
        sized_block_iff word_unat_eq_iff)
qed

lemma it_collect_contents:
  "buf_ok k b \<Longrightarrow> it_collect (buffer_begin b) (buffer_end b) acc = Some (acc @ contents b)"
proof (induction "length (contents b)" arbitrary: b acc)
  case 0
  then show ?case by (simp add: it_collect.simps it_eq_begin_end)
next
  case (Suc n)
  define b' where "b' = fst (buffer_cut b 1)"
  have le: "unat (1 :: size_t) \<le> length (contents b)" using Suc.hyps(2) by simp
  have ne: "contents b \<noteq> []" using Suc.hyps(2) by auto
  have e: "b' = b\<lparr>buf_read_index := (buf_read_index b + 1) AND buf_mask b\<rparr>"
  proof -
    have "(if 1 < readable_bytes b then 1 else readable_bytes b) = 1"
      using le unat_readable[OF Suc.prems] by (simp add: word_less_nat_alt word_unat_eq_iff)
    then show ?thesis by (simp add: b'_def buffer_cut_def Let_def)
  qed
  have ok': "buf_ok k b'" and c': "contents b' = tl (contents b)"
    using buffer_cut_correct[OF Suc.prems, of 1] by (simp_all add: b'_def drop_Suc)
  have nxt: "it_next (buffer_begin b) = buffer_begin b'" and fin: "buffer_end b = buffer_end b'"
    by (simp_all add: e it_next_def buffer_begin_def buffer_end_def)
  have neq: "\<not> it_eq (buffer_begin b) (buffer_end b')"
    using it_eq_begin_end[OF Suc.prems] ne fin by simp
  have "it_collect (buffer_begin b) (buffer_end b) acc
      = it_collect (buffer_begin b') (buffer_end b') (acc @ [hd (contents b)])"
    using neq it_deref_begin[OF Suc.prems ne] by (subst it_collect.simps) (simp add: nxt fin)
  also have "\<dots> = Some (acc @ [hd (contents b)] @ contents b')"
    using Suc.hyps(1)[of b'] ok' c' Suc.hyps(2) by simp
  finally show ?case using ne c' by simp
qed

subsection \<open>File descriptor and TLS transfers\<close>

lemma free_iov_scatter:
  assumes ok: "buf_ok k b" and room: "length d \<le> unat (writable_bytes b)" and nz: "writable_bytes b \<noteq> 0"
  obtains a m where "buf_ring b = Block a m"
    "scatter (buf_ring b) (free_iov b) d = Some (Block a (store m (unat (buf_write_index b)) d))"
proof -
  obtain a m where r: "buf_ring b = Block a m" and m: "length m = 2 ^ k"
    and rl: "unat (buf_read_index b) < length m" and wl: "unat (buf_write_index b) < length m"
    using ok by (auto elim: buf_okE)
  let ?w = "unat (buf_write_index b)"
  let ?nw = "unat (writable_bytes b)"
  have cw: "unat (buf_capacity b - buf_write_index b) = 2 ^ k - ?w"
    using ok wl m by (simp add: unat_cap_minus)
  have nw: "?nw = 2 ^ k - 1 - length (contents b)" by (rule unat_writable[OF ok])
  have "scatter (buf_ring b) (free_iov b) d = Some (Block a (store m ?w d))"
  proof (cases "buf_read_index b \<le> buf_write_index b \<and> \<not> writable_bytes b \<le> buf_capacity b - buf_write_index b")
    case False
    have fits: "?w + ?nw \<le> 2 ^ k"
    proof (cases "buf_read_index b \<le> buf_write_index b")
      case True
      with False have "?nw \<le> 2 ^ k - ?w" using cw by (simp add: word_le_nat_alt)
      then show ?thesis using wl m by simp
    next
      case below: False
      then show ?thesis using nw ok rl wl m by (simp add: length_contents word_le_nat_alt)
    qed
    have iov: "free_iov b = [(buf_write_index b, writable_bytes b)]"
      using False by (auto simp: free_iov_def Let_def)
    show ?thesis using fits room m r by (simp add: iov mem_simps store_def)
  next
    case True
    have lt: "2 ^ k - ?w < ?nw" using True cw by (simp add: word_le_nat_alt)
    have iov: "free_iov b = [(buf_write_index b, buf_capacity b - buf_write_index b),
        (0, writable_bytes b - (buf_capacity b - buf_write_index b))]"
      using True by (simp add: free_iov_def Let_def)
    have u: "unat (writable_bytes b - (buf_capacity b - buf_write_index b)) = ?nw - (2 ^ k - ?w)"
      using lt cw by (simp add: unat_sub word_le_nat_alt)
    let ?d1 = "take (2 ^ k - ?w) d" and ?d2 = "drop (2 ^ k - ?w) d"
    have w1: "block_write (Block a m) ?w ?d1 = Some (Block a (overwrite m ?w ?d1))"
      using m wl by (simp add: mem_simps)
    have l1: "length (overwrite m ?w ?d1) = 2 ^ k" using m wl by simp
    have w2: "block_write (Block a (overwrite m ?w ?d1)) 0 ?d2
        = Some (Block a (overwrite (overwrite m ?w ?d1) 0 ?d2))"
      using l1 room nw by (intro block_write_Block) simp
    have d2: "take (?nw - (2 ^ k - ?w)) ?d2 = ?d2" using room by simp
    have st: "overwrite (overwrite m ?w ?d1) 0 ?d2 = store m ?w d"
    proof (cases "?w + length d \<le> 2 ^ k")
      case True
      then have "?d1 = d" "?d2 = []" by auto
      with True m show ?thesis by (simp add: store_def overwrite_def)
    next
      case False
      with m show ?thesis by (simp add: store_def)
    qed
    show ?thesis
      using room by (simp add: iov r cw u w1 w2 d2 st)
  qed
  with r show ?thesis by (rule that)
qed

text \<open>
  \<open>readv\<close> as documented: a positive return value is the number of bytes stored and at most the
  space offered; otherwise nothing is stored.
\<close>

definition readv_ok :: "readv_fn \<Rightarrow> bool" where
  "readv_ok readv \<longleftrightarrow>
     (\<forall>lens. length (rv_data (readv lens)) = nat (rv_ret (readv lens))
       \<and> length (rv_data (readv lens)) \<le> sum_list (map unat lens))"

lemma sum_free_iov:
  assumes ok: "buf_ok k b"
  shows "sum_list (map unat (map snd (free_iov b))) = unat (writable_bytes b)"
proof (cases "buf_read_index b \<le> buf_write_index b \<and> \<not> writable_bytes b \<le> buf_capacity b - buf_write_index b")
  case True
  then have "buf_capacity b - buf_write_index b \<le> writable_bytes b" by (meson linear)
  with True show ?thesis by (simp add: free_iov_def Let_def unat_sub word_le_nat_alt)
next
  case False
  then show ?thesis by (auto simp: free_iov_def Let_def)
qed

lemma append_from_fd_correct:
  assumes ok: "buf_ok k b" and rv: "readv_ok readv" and nz: "writable_bytes b \<noteq> 0"
  defines "res \<equiv> readv (map snd (free_iov b))"
  shows "\<exists>b'. append_from_fd True readv b =
        Some (b', rv_ret res, if rv_ret res > 0 then None else Some (rv_errno res))
      \<and> buf_ok k b' \<and> contents b' = contents b @ rv_data res"
proof -
  have len: "length (rv_data res) = nat (rv_ret res)"
    and room: "length (rv_data res) \<le> unat (writable_bytes b)"
    using rv sum_free_iov[OF ok] unfolding readv_ok_def res_def by metis+
  obtain a m where r: "buf_ring b = Block a m"
    and sc: "scatter (buf_ring b) (free_iov b) (rv_data res)
      = Some (Block a (store m (unat (buf_write_index b)) (rv_data res)))"
    by (rule free_iov_scatter[OF ok room nz])
  have room2: "length (contents b) + length (rv_data res) < 2 ^ k"
    using room length_contents_less[OF ok] by (simp add: unat_writable[OF ok])
  have k: "k < 64" using ok by (simp add: buf_ok_def)
  show ?thesis
  proof (cases "rv_ret res > 0")
    case True
    have "(2::nat) ^ k < 2 ^ 64" using k by (rule power_strict_increasing) simp
    then have "nat (rv_ret res) < 2 ^ 64" using room2 len by linarith
    then have n: "unat (word_of_int (rv_ret res) :: size_t) = length (rv_data res)"
      using True len by (simp add: unsigned_of_int take_bit_int_eq_self nat_less_iff)
    note adv = buf_advance[OF ok r room2 n]
    from True sc adv show ?thesis
      by (auto simp: append_from_fd_def Let_def nz res_def)
  next
    case False
    then have d: "rv_data res = []" using len by simp
    have "store m (unat (buf_write_index b)) [] = m"
    proof -
      have "unat (buf_write_index b) \<le> length m" using ok r by (simp add: buf_ok_def sized_block_def)
      then show ?thesis by (simp add: store_def overwrite_def)
    qed
    then have "b\<lparr>buf_ring := Block a (store m (unat (buf_write_index b)) [])\<rparr> = b" using r by simp
    with False sc d ok show ?thesis
      by (simp add: append_from_fd_def Let_def nz res_def[symmetric])
  qed
qed

lemma unat_cut_amount:
  "buf_ok k b \<Longrightarrow> unat (cut_amount b sz) =
     (if sz = 0 then length (contents b) else min (unat sz) (length (contents b)))"
  using unat_readable[of k b]
  by (auto simp: cut_amount_def Let_def word_less_nat_alt min_def)

lemma gather_used:
  assumes ok: "buf_ok k b" and nr: "unat nr \<le> length (contents b)"
  shows "\<exists>ds. gather (buf_ring b) (used_iov b nr) = Some ds \<and> concat ds = take (unat nr) (contents b)"
proof -
  obtain a m where r: "buf_ring b = Block a m" and m: "length m = 2 ^ k"
    and rl: "unat (buf_read_index b) < length m" and wl: "unat (buf_write_index b) < length m"
    and c: "contents b = ring_content m (unat (buf_read_index b)) (unat (buf_write_index b))"
    using ok by (auto elim: buf_okE)
  let ?r = "unat (buf_read_index b)" and ?w = "unat (buf_write_index b)"
  have cr: "unat (buf_capacity b - buf_read_index b) = 2 ^ k - ?r"
    using unat_cap_minus[OF ok] rl m by simp
  have lc: "length (contents b) = (if ?r \<le> ?w then ?w - ?r else 2 ^ k + ?w - ?r)"
    by (rule length_contents[OF ok])
  consider "?r < ?w" | "?w \<le> ?r" "unat nr < 2 ^ k - ?r" | "?w \<le> ?r" "2 ^ k - ?r \<le> unat nr"
    by linarith
  then show ?thesis
  proof cases
    case 1
    then show ?thesis using r m rl wl c nr lc
      by (simp add: used_iov_def view_bytes_def mem_simps word_less_nat_alt ring_content_def)
  next
    case 2
    have "take (unat nr) (drop ?r m) = take (unat nr) (contents b)"
    proof (cases "?r = ?w")
      case True
      then have "unat nr = 0" using nr lc by simp
      then show ?thesis by simp
    next
      case False
      then show ?thesis using 2 c m by (simp add: ring_content_def)
    qed
    then show ?thesis using 2 r m rl cr
      by (simp add: used_iov_def view_bytes_def mem_simps word_less_nat_alt)
  next
    case 3
    have lt: "?w < ?r"
    proof (rule ccontr)
      assume "\<not> ?w < ?r"
      then have "unat nr = 0" using nr lc 3 by simp
      then show False using 3 rl m by simp
    qed
    have ge: "buf_capacity b - buf_read_index b \<le> nr" using 3 cr by (simp add: word_le_nat_alt)
    have u: "unat (nr - (buf_capacity b - buf_read_index b)) = unat nr - (2 ^ k - ?r)"
      using ge cr by (simp add: unat_sub)
    have bnd: "unat nr - (2 ^ k - ?r) \<le> ?w" using nr lc lt rl m by simp
    have "gather (buf_ring b) (used_iov b nr) = Some [drop ?r m, take (unat nr - (2 ^ k - ?r)) m]"
      using 3 ge r m rl cr u bnd wl
      by (simp add: used_iov_def Let_def view_bytes_def mem_simps word_less_nat_alt word_le_nat_alt)
    moreover have "drop ?r m @ take (unat nr - (2 ^ k - ?r)) m = take (unat nr) (contents b)"
      using lt c m 3 bnd rl by (simp add: ring_content_def)
    ultimately show ?thesis by simp
  qed
qed

lemma word_of_int_small:
  assumes "k < 64" and "0 \<le> i" and "nat i < 2 ^ k"
  shows "unat (word_of_int i :: size_t) = nat i"
proof -
  have "(2::nat) ^ k < 2 ^ 64" using assms(1) by (rule power_strict_increasing) simp
  with assms(3) have "nat i < 2 ^ 64" by linarith
  then show ?thesis using assms(2) by (simp add: unsigned_of_int take_bit_int_eq_self nat_less_iff)
qed

text \<open>\<open>writev\<close> as documented: it takes at most the bytes it is given.\<close>

definition writev_ok :: "writev_fn \<Rightarrow> bool" where
  "writev_ok writev \<longleftrightarrow> (\<forall>ds. writev ds \<le> int (length (concat ds)))"

lemma cut_into_fd_correct:
  fixes sz :: size_t
  assumes ok: "buf_ok k b" and wv: "writev_ok writev"
  defines "nr \<equiv> unat (cut_amount b sz)"
  shows "\<exists>b' ds. cut_into_fd writev b sz = Some (b', writev ds)
    \<and> concat ds = take nr (contents b)
    \<and> buf_ok k b' \<and> contents b' = drop (nat (writev ds)) (contents b)"
proof -
  have nr: "nr \<le> length (contents b)" using unat_cut_amount[OF ok] by (simp add: nr_def)
  obtain ds where ds: "gather (buf_ring b) (used_iov b (cut_amount b sz)) = Some ds"
      "concat ds = take nr (contents b)"
    using gather_used[OF ok] nr unfolding nr_def by blast
  have "writev ds \<le> int (length (concat ds))" using wv unfolding writev_ok_def by blast
  then have le: "nat (writev ds) \<le> length (contents b)" using ds(2) nr by simp
  show ?thesis
  proof (cases "writev ds > 0")
    case True
    have k: "k < 64" using ok by (simp add: buf_ok_def)
    have u: "unat (word_of_int (writev ds) :: size_t) = nat (writev ds)"
      using True le le_less_trans[OF le length_contents_less[OF ok]]
      by (intro word_of_int_small[OF k]) simp_all
    with le have "unat (word_of_int (writev ds) :: size_t) \<le> length (contents b)" by simp
    note cut = buf_retreat[OF ok this]
    with True ds u show ?thesis
      by (intro exI[of _ "b\<lparr>buf_read_index := (buf_read_index b + word_of_int (writev ds)) AND buf_mask b\<rparr>"]
          exI[of _ ds]) (simp add: cut_into_fd_def Let_def)
  next
    case False
    with ds ok show ?thesis
      by (intro exI[of _ b] exI[of _ ds]) (simp add: cut_into_fd_def Let_def)
  qed
qed

subsection \<open>TLS reads\<close>

text \<open>
  \<open>SSL_read\<close> as documented: a positive return value is the number of bytes stored, at most the
  number asked for; otherwise nothing is stored.
\<close>

definition ssl_read_ok :: "'s ssl_read_fn \<Rightarrow> bool" where
  "ssl_read_ok SSL_read \<longleftrightarrow>
     (\<forall>s n. case SSL_read s n of (ret, d, s') \<Rightarrow>
        length d = nat ret \<and> ret \<le> max 0 n)"

lemma ssl_read_okD:
  "ssl_read_ok SSL_read \<Longrightarrow> SSL_read s n = (ret, d, s') \<Longrightarrow>
     length d = nat ret \<and> ret \<le> max 0 n"
  unfolding ssl_read_ok_def by (metis (mono_tags, lifting) case_prod_conv)

lemma to_c_int_small: "unat w < 2 ^ 31 \<Longrightarrow> to_c_int w = int (unat w)"
proof -
  assume w: "unat w < 2 ^ 31"
  have "to_c_int w = signed_take_bit 31 (int (unat w))"
    unfolding to_c_int_def by (simp add: signed_ucast_eq uint_nat)
  also have "\<dots> = int (unat w)"
  proof (rule signed_take_bit_int_eq_self)
    show "- (2 ^ 31) \<le> int (unat w)" by (rule order_trans[of _ 0]) simp_all
    show "int (unat w) < 2 ^ 31" using w by simp
  qed
  finally show ?thesis .
qed

lemma to_c_int_minus_one: "to_c_int (- 1) = - 1"
  by (simp add: to_c_int_def signed_ucast_eq unsigned_minus_1_eq_mask mask_eq_exp_minus_1)

lemma free_tail:
  assumes ok: "buf_ok k b" and le: "buf_read_index b \<le> buf_write_index b"
  shows "unat (buf_capacity b - buf_write_index b) = 2 ^ k - unat (buf_write_index b)"
    and "unat (writable_bytes b) = 2 ^ k - 1 - (unat (buf_write_index b) - unat (buf_read_index b))"
  using unat_cap_minus[OF ok] unat_writable[OF ok] length_contents[OF ok] ok le
  by (auto simp: buf_ok_def word_le_nat_alt)
lemma store_at_end:
  "w < length m \<Longrightarrow> length d1 = length m - w \<Longrightarrow>
   overwrite (overwrite m w d1) 0 d2 = store m w (d1 @ d2)"
  by (cases "d2 = []") (auto simp: store_def overwrite_def)

lemma ring_content_write_free:
  "r \<le> w \<Longrightarrow> w \<le> length m \<Longrightarrow> ring_content (overwrite m w d) r w = ring_content m r w"
  by (simp add: ring_content_def drop_overwrite_before take_overwrite_before)

text \<open>Writing into the free tail of the ring leaves the content alone until the index moves.\<close>

lemma buf_write_free:
  assumes ok: "buf_ok k b" and ring: "buf_ring b = Block a m"
    and le: "buf_read_index b \<le> buf_write_index b"
    and fit: "unat (buf_write_index b) + length d \<le> 2 ^ k"
  defines "b' \<equiv> b\<lparr>buf_ring := Block a (overwrite m (unat (buf_write_index b)) d)\<rparr>"
  shows "buf_ok k b'" and "contents b' = contents b"
proof -
  have m: "length m = 2 ^ k" and wl: "unat (buf_write_index b) < 2 ^ k"
    using ok ring by (simp_all add: buf_ok_def sized_block_def)
  show "buf_ok k b'" using ok fit m by (simp add: b'_def buf_ok_def sized_block_def)
  show "contents b' = contents b"
    using ring le m wl ring_content_write_free[of "unat (buf_read_index b)" "unat (buf_write_index b)" m d]
    by (simp add: b'_def contents_def word_le_nat_alt)
qed

text \<open>
  What a TLS read does to the content when the ring has its free space in one or two pieces and
  the read index is not 0: exactly the bytes of a successful call are appended.
\<close>

definition ssl_appends :: "nat \<Rightarrow> buffer \<Rightarrow> 's ssl_io \<Rightarrow> bool" where
  "ssl_appends k b res \<longleftrightarrow> buf_ok k (io_buffer res)
     \<and> (if io_ret res > 0
        then take (length (contents b)) (contents (io_buffer res)) = contents b
          \<and> int (length (contents (io_buffer res))) = int (length (contents b)) + io_ret res
        else contents (io_buffer res) = contents b)"

lemma ssl_appends_store:
  assumes ok: "buf_ok k b" and ring: "buf_ring b = Block a m"
    and room: "length d \<le> unat (writable_bytes b)" and ret: "0 < ret" "length d = nat ret"
    and b': "io_buffer res = b\<lparr>buf_ring := Block a (store m (unat (buf_write_index b)) d),
               buf_write_index := (buf_write_index b + word_of_int ret) AND buf_mask b\<rparr>"
    and res: "io_ret res = ret"
  shows "ssl_appends k b res"
proof -
  have room2: "length (contents b) + length d < 2 ^ k"
    using room length_contents_less[OF ok] by (simp add: unat_writable[OF ok])
  have k: "k < 64" using ok by (simp add: buf_ok_def)
  have n: "unat (word_of_int ret :: size_t) = length d"
  proof -
    have "nat ret < 2 ^ k" using room2 ret(2) by linarith
    then show ?thesis using word_of_int_small[OF k, of ret] ret by simp
  qed
  show ?thesis
    using buf_advance[OF ok ring room2 n] b' res ret by (simp add: ssl_appends_def)
qed

lemma append_from_ssl_below:
  assumes ok: "buf_ok k b" and k: "k < 31" and sr: "ssl_read_ok SSL_read"
    and nz: "writable_bytes b \<noteq> 0" and gt: "\<not> buf_read_index b \<le> buf_write_index b"
  shows "\<exists>res. append_from_ssl SSL_read SSL_get_error ssl b = Some res \<and> ssl_appends k b res"
proof -
  obtain a m where r: "buf_ring b = Block a m" and m: "length m = 2 ^ k"
    and rl: "unat (buf_read_index b) < length m" and wl: "unat (buf_write_index b) < length m"
    using ok by (auto elim: buf_okE)
  let ?w = "unat (buf_write_index b)" and ?nw = "unat (writable_bytes b)"
  have fit: "?w + ?nw \<le> 2 ^ k"
    using gt unat_writable[OF ok] length_contents[OF ok] rl wl m by (simp add: word_le_nat_alt)
  have k31: "(2::nat) ^ k < 2 ^ 31" using k by (intro power_strict_increasing) auto
  have ci: "to_c_int (writable_bytes b) = int ?nw"
    using fit k31 by (intro to_c_int_small) simp
  obtain ret d s1 where c: "SSL_read ssl (int ?nw) = (ret, d, s1)" by (metis prod_cases3)
  have d: "length d = nat ret" "ret \<le> int ?nw" using ssl_read_okD[OF sr c] by auto
  have dl: "length d \<le> ?nw" unfolding d(1) nat_le_iff using d(2) by simp
  have st: "store m ?w d = overwrite m ?w d" using dl fit m by (simp add: store_def)
  have wr: "block_write (Block a m) ?w d = Some (Block a (store m ?w d))"
    using dl fit m by (simp add: mem_simps st)
  show ?thesis
  proof (cases "ret > 0")
    case True
    note app = ssl_appends_store[OF ok r dl True d(1)]
    with True gt nz show ?thesis
      by (auto simp: append_from_ssl_def Let_def ci c r wr intro!: app)
  next
    case False
    then have "d = []" using d by simp
    have eq: "b\<lparr>buf_ring := Block a m\<rparr> = b" using r by simp
    have fin: "buf_ok k (b\<lparr>buf_ring := Block a m\<rparr>)" "contents (b\<lparr>buf_ring := Block a m\<rparr>) = contents b"
      using ok by (simp_all only: eq)
    have "block_write (Block a m) ?w [] = Some (Block a m)"
      using wl by (simp add: mem_simps overwrite_def)
    with False gt nz fin \<open>d = []\<close> show ?thesis
      by (simp add: append_from_ssl_def Let_def ci c r ssl_appends_def)
  qed
qed

lemma append_from_ssl_above:
  assumes ok: "buf_ok k b" and k: "k < 31" and sr: "ssl_read_ok SSL_read"
    and nz: "writable_bytes b \<noteq> 0" and le: "buf_read_index b \<le> buf_write_index b"
    and r0: "buf_read_index b \<noteq> 0"
  shows "\<exists>res. append_from_ssl SSL_read SSL_get_error ssl b = Some res \<and> ssl_appends k b res"
proof -
  obtain a m where r: "buf_ring b = Block a m" and m: "length m = 2 ^ k"
    and rl: "unat (buf_read_index b) < length m" and wl: "unat (buf_write_index b) < length m"
    using ok by (auto elim: buf_okE)
  let ?r = "unat (buf_read_index b)" and ?w = "unat (buf_write_index b)" and ?nw = "unat (writable_bytes b)"
  let ?tail = "buf_capacity b - buf_write_index b"
  define t where "t = 2 ^ k - ?w"
  define t2 where "t2 = ?nw - t"
  have tl: "unat ?tail = t" and nw: "?nw = 2 ^ k - 1 - (?w - ?r)"
    using free_tail[OF ok le] by (auto simp: t_def)
  have r1: "0 < ?r" using r0 by (simp add: unat_gt_0)
  have ge: "t \<le> ?nw" using nw r1 rl wl m le by (simp add: word_le_nat_alt t_def)
  have k31: "(2::nat) ^ k < 2 ^ 31" using k by (intro power_strict_increasing) auto
  have ci: "to_c_int ?tail = int t"
    using tl k31 by (subst to_c_int_small) (simp_all add: t_def)
  have rest: "unat (writable_bytes b - ?tail) = t2"
    using ge tl by (simp add: unat_sub word_le_nat_alt t2_def)
  have ci2: "to_c_int (writable_bytes b - ?tail) = int t2"
    using rest nw k31 by (subst to_c_int_small) (simp_all add: t2_def)
  obtain ret d s1 where c: "SSL_read ssl (int t) = (ret, d, s1)" by (metis prod_cases3)
  have d: "length d = nat ret" "ret \<le> int t" using ssl_read_okD[OF sr c] by auto
  have dl: "length d \<le> t" unfolding d(1) nat_le_iff using d(2) by simp
  then have fit: "?w + length d \<le> 2 ^ k" using wl m by (simp add: t_def)
  have wr: "block_write (Block a m) ?w d = Some (Block a (overwrite m ?w d))"
    using fit m by (simp add: mem_simps)
  note free = buf_write_free[OF ok r le]
  consider "ret \<le> 0" | "0 < ret" "ret < int t" | "0 < ret" "ret = int t"
    using d(2) by linarith
  then show ?thesis
  proof cases
    case 1
    with nz le free[OF fit] show ?thesis
      by (simp add: append_from_ssl_def Let_def ci c r wr ssl_appends_def)
  next
    case 2
    have ne: "(word_of_int ret :: size_t) \<noteq> ?tail"
    proof
      assume "(word_of_int ret :: size_t) = ?tail"
      then have "unat (word_of_int ret :: size_t) = t" using tl by simp
      moreover have "unat (word_of_int ret :: size_t) = nat ret"
      proof (rule word_of_int_small[of k])
        show "k < 64" "0 \<le> ret" using ok 2 by (simp_all add: buf_ok_def)
        show "nat ret < 2 ^ k" proof -
          have "t \<le> 2 ^ k" by (simp add: t_def)
          then show ?thesis using 2(1,2) by linarith
        qed
      qed
      ultimately have "nat ret = t" by simp
      then show False using 2 by linarith
    qed
    have "length d \<le> ?nw" using dl ge by simp
    note app = ssl_appends_store[OF ok r this 2(1) d(1)]
    have "store m ?w d = overwrite m ?w d" using fit m by (simp add: store_def)
    with 2 nz le ne show ?thesis
      by (auto simp: append_from_ssl_def Let_def ci c r wr intro!: app)
  next
    case 3
    have eq: "(word_of_int ret :: size_t) = ?tail"
    proof -
      have "unat (word_of_int ret :: size_t) = unat ?tail"
        using 3 ok tl ge nw r1 rl m by (subst word_of_int_small[of k]) (auto simp: buf_ok_def)
      then show ?thesis by (simp add: word_unat_eq_iff)
    qed
    obtain ret2 d2 s2 where c2: "SSL_read s1 (int t2) = (ret2, d2, s2)"
      by (metis prod_cases3)
    have d2: "length d2 = nat ret2" "ret2 \<le> int t2"
      using ssl_read_okD[OF sr c2] by auto
    have l1: "length (overwrite m ?w d) = 2 ^ k" using fit m by simp
    have wr2: "block_write (Block a (overwrite m ?w d)) 0 d2 = Some (Block a (store m ?w (d @ d2)))"
    proof -
      have "length d2 \<le> t2" unfolding d2(1) nat_le_iff using d2(2) by simp
      then have "length d2 \<le> 2 ^ k" using nw unfolding t2_def by linarith
      moreover have "overwrite (overwrite m ?w d) 0 d2 = store m ?w (d @ d2)"
      proof (rule store_at_end)
        have "length d = t" using 3(2) d(1) by simp
        then show "length d = length m - ?w" using m by (simp add: t_def)
      qed (rule wl)
      ultimately show ?thesis using l1 block_write_Block[of 0 d2 "overwrite m ?w d" a] by simp
    qed
    show ?thesis
    proof (cases "ret2 < 0")
      case True
      then have "d2 = []" using d2 by simp
      then have "store m ?w (d @ d2) = overwrite m ?w d" using fit m by (simp add: store_def)
      with 3 True nz le eq free[OF fit] show ?thesis
        by (simp add: append_from_ssl_def Let_def ci ci2 c c2 r wr wr2 ssl_appends_def)
    next
      case False
      have "length (d @ d2) \<le> ?nw" "length (d @ d2) = nat (ret + ret2)" "0 < ret + ret2"
        using d d2 3 ge False by (auto simp: nat_add_distrib t2_def)
      note app = ssl_appends_store[OF ok r this(1) this(3) this(2)]
      with 3 False nz le eq show ?thesis
        by (auto simp: append_from_ssl_def Let_def ci ci2 c c2 r wr wr2 intro!: app)
    qed
  qed
qed

end
