(* ===== verification/Ring_Queue.thy ===== *)
theory Ring_Queue
  imports Ring_Buffer
begin

text \<open>
  What the users of the ring buffer rely on: the interface of a byte queue as a locale, the buffer
  of \<open>public/buffer.h\<close> as an instance of it, and the properties of its operations, among them
  the TLS transfers and the copy assignment that do not keep the contract.
\<close>


subsection \<open>The buffer as a first-in first-out queue\<close>

text \<open>
  The contract the users of a buffer rely on: bytes are put at the end as far as there is room,
  and taken from the front. What a client reads is the content (\<open>str\<close>) followed by \<open>cut\<close>.
\<close>

definition buffer_put :: "buffer \<Rightarrow> bytes \<Rightarrow> (buffer \<times> nat) option" where
  "buffer_put b d = do { (b', n) \<leftarrow> append_string b d; Some (b', unat n) }"

definition buffer_take :: "allocator \<Rightarrow> buffer \<Rightarrow> nat \<Rightarrow> (buffer \<times> bytes) option" where
  "buffer_take malloc b n = do {
     (b1, d) \<leftarrow> buffer_str_bytes malloc b;
     let (b2, m) = buffer_cut b1 (word_of_nat n);
     Some (b2, take (unat m) d) }"

datatype queue_op = Put bytes | Take nat

text \<open>A run of operations; the bytes accepted and the bytes handed out are collected.\<close>

fun queue_run ::
  "('q \<Rightarrow> bytes \<Rightarrow> ('q \<times> nat) option) \<Rightarrow> ('q \<Rightarrow> nat \<Rightarrow> ('q \<times> bytes) option)
    \<Rightarrow> queue_op list \<Rightarrow> 'q \<Rightarrow> ('q \<times> bytes \<times> bytes) option" where
  "queue_run put get [] q = Some (q, [], [])"
| "queue_run put get (Put d # ops) q = do {
     (q1, n) \<leftarrow> put q d;
     (q2, ins, outs) \<leftarrow> queue_run put get ops q1;
     Some (q2, take n d @ ins, outs) }"
| "queue_run put get (Take n # ops) q = do {
     (q1, d) \<leftarrow> get q n;
     (q2, ins, outs) \<leftarrow> queue_run put get ops q1;
     Some (q2, ins, d @ outs) }"

fun op_small :: "queue_op \<Rightarrow> bool" where
  "op_small (Put d) = (length d < 2 ^ 64)"
| "op_small (Take n) = (n < 2 ^ 64)"

locale byte_queue =
  fixes ok :: "'q \<Rightarrow> bool"
    and content :: "'q \<Rightarrow> bytes"
    and room :: "'q \<Rightarrow> nat"
    and put :: "'q \<Rightarrow> bytes \<Rightarrow> ('q \<times> nat) option"
    and get :: "'q \<Rightarrow> nat \<Rightarrow> ('q \<times> bytes) option"
  assumes put_law: "ok q \<Longrightarrow> length d < 2 ^ 64 \<Longrightarrow>
      \<exists>q'. put q d = Some (q', min (length d) (room q)) \<and> ok q'
        \<and> content q' = content q @ take (room q) d"
    and get_law: "ok q \<Longrightarrow> n < 2 ^ 64 \<Longrightarrow>
      \<exists>q'. get q n = Some (q', take n (content q)) \<and> ok q' \<and> content q' = drop n (content q)"
begin

text \<open>Every run succeeds, and no byte is lost, duplicated or reordered.\<close>

lemma run_conserves:
  "ok q \<Longrightarrow> list_all op_small ops \<Longrightarrow>
   \<exists>q' ins outs. queue_run put get ops q = Some (q', ins, outs) \<and> ok q'
     \<and> content q @ ins = outs @ content q'"
proof (induction ops arbitrary: q)
  case Nil
  then show ?case by simp
next
  case (Cons x ops)
  show ?case
  proof (cases x)
    case (Put d)
    obtain q1 where 1: "put q d = Some (q1, min (length d) (room q))" "ok q1"
      "content q1 = content q @ take (room q) d"
      using put_law[OF Cons.prems(1), of d] Cons.prems(2) Put by auto
    obtain q2 ins outs where "queue_run put get ops q1 = Some (q2, ins, outs)" "ok q2"
      "content q1 @ ins = outs @ content q2"
      using Cons.IH[OF 1(2)] Cons.prems(2) by auto
    moreover have "take (min (length d) (room q)) d = take (room q) d" by (simp add: min_def)
    ultimately show ?thesis using 1 Put by simp
  next
    case (Take n)
    obtain q1 where 1: "get q n = Some (q1, take n (content q))" "ok q1"
      "content q1 = drop n (content q)"
      using get_law[OF Cons.prems(1), of n] Cons.prems(2) Take by auto
    obtain q2 ins outs where 2: "queue_run put get ops q1 = Some (q2, ins, outs)" "ok q2"
      "content q1 @ ins = outs @ content q2"
      using Cons.IH[OF 1(2)] Cons.prems(2) by auto
    have "content q @ ins = take n (content q) @ (content q1 @ ins)"
      using 1(3) by (simp flip: append_assoc)
    with 1 2 Take show ?thesis by simp
  qed
qed

end

definition malloc_ok :: "allocator \<Rightarrow> bool" where
  "malloc_ok malloc \<longleftrightarrow> (\<forall>n. sized_block (unat n) (malloc n))"

lemma unat_less_64: "unat (x :: size_t) < 2 ^ 64"
proof -
  have "unat x < 2 ^ LENGTH(64)" by (rule unsigned_less)
  then show ?thesis by simp
qed

lemma unat_word_of_nat_small: "n < 2 ^ 64 \<Longrightarrow> unat (word_of_nat n :: size_t) = n"
  by (simp add: unsigned_of_nat take_bit_nat_eq_self)

lemma malloc_okD: "malloc_ok malloc \<Longrightarrow> buf_ok k b \<Longrightarrow> sized_block (2 ^ k) (malloc (buf_capacity b))"
  using unat_pow2[of k] by (auto simp: malloc_ok_def buf_ok_def dest: spec[of _ "2 ^ k"])

lemma buffer_put_law:
  assumes ok: "buf_ok k b" and d: "length d < 2 ^ 64"
  shows "\<exists>b'. buffer_put b d = Some (b', min (length d) (2 ^ k - 1 - length (contents b))) \<and> buf_ok k b'
    \<and> contents b' = contents b @ take (2 ^ k - 1 - length (contents b)) d"
proof -
  let ?n = "min (length d) (2 ^ k - 1 - length (contents b))"
  have u: "unat (word_of_nat (length d) :: size_t) = length d" by (rule unat_word_of_nat_small[OF d])
  have "?n < 2 ^ 64" using d by simp
  then have un: "unat (word_of_nat ?n :: size_t) = ?n" by (rule unat_word_of_nat_small)
  have "take ?n d = take (2 ^ k - 1 - length (contents b)) d" by (simp add: min_def)
  then show ?thesis
    using append_bytes_correct[OF ok, of "word_of_nat (length d)" d] un
    by (auto simp: buffer_put_def append_string_def u)
qed

lemma buffer_take_law:
  assumes ma: "malloc_ok malloc" and ok: "buf_ok k b" and n: "n < 2 ^ 64"
  shows "\<exists>b'. buffer_take malloc b n = Some (b', take n (contents b)) \<and> buf_ok k b'
    \<and> contents b' = drop n (contents b)"
proof -
  obtain b1 where b1: "buffer_str_bytes malloc b = Some (b1, contents b)" "buf_ok k b1"
    "contents b1 = contents b"
    using buffer_str_correct[where malloc = malloc, OF ok malloc_okD[OF ma ok]] by blast
  obtain b2 m where b2: "buffer_cut b1 (word_of_nat n) = (b2, m)" by (cases "buffer_cut b1 (word_of_nat n)")
  note cut = buffer_cut_correct[OF b1(2), of "word_of_nat n"]
  have "take (unat m) (contents b) = take n (contents b)"
    using cut(3) b2 b1(3) unat_word_of_nat_small[OF n] by (simp add: min_def)
  then show ?thesis
    using cut b1 b2 unat_word_of_nat_small[OF n] by (simp add: buffer_take_def)
qed

text \<open>The model of the code keeps the contract, with any capacity \<open>2 ^ k\<close>.\<close>

interpretation ring: byte_queue "\<lambda>q :: buffer. buf_ok k q \<and> malloc_ok malloc" contents
    "\<lambda>q. 2 ^ k - 1 - length (contents q)" buffer_put "buffer_take malloc" for k malloc
proof unfold_locales
  fix q :: buffer and d :: bytes
  assume "buf_ok k q \<and> malloc_ok malloc" "length d < 2 ^ 64"
  then show "\<exists>q'. buffer_put q d = Some (q', min (length d) (2 ^ k - 1 - length (contents q)))
      \<and> (buf_ok k q' \<and> malloc_ok malloc)
      \<and> contents q' = contents q @ take (2 ^ k - 1 - length (contents q)) d"
    using buffer_put_law by blast
next
  fix q :: buffer and n :: nat
  assume "buf_ok k q \<and> malloc_ok malloc" "n < 2 ^ 64"
  then show "\<exists>q'. buffer_take malloc q n = Some (q', take n (contents q))
      \<and> (buf_ok k q' \<and> malloc_ok malloc) \<and> contents q' = drop n (contents q)"
    using buffer_take_law by blast
qed

subsection \<open>TLS reads and writes that lose bytes\<close>

lemma append_from_ssl_lost:
  assumes ok: "buf_ok k b" and le: "buf_read_index b \<le> buf_write_index b"
    and nz: "writable_bytes b \<noteq> 0"
    and r1: "SSL_read ssl (to_c_int tail) = (int (unat tail), d, s1)" and d: "length d = unat tail"
    and r2: "SSL_read s1 (to_c_int (writable_bytes b - tail)) = (ret2, [], s2)" and neg: "ret2 < 0"
    and tail: "tail = buf_capacity b - buf_write_index b"
  shows "\<exists>res. append_from_ssl SSL_read SSL_get_error ssl b = Some res
    \<and> contents (io_buffer res) = contents b \<and> io_ret res = ret2 \<and> io_session res = s2"
proof -
  obtain a m where r: "buf_ring b = Block a m" and m: "length m = 2 ^ k"
    and wl: "unat (buf_write_index b) < length m"
    using ok by (auto elim: buf_okE)
  have t: "unat tail = 2 ^ k - unat (buf_write_index b)" using free_tail(1)[OF ok le] by (simp add: tail)
  have fit: "unat (buf_write_index b) + length d \<le> 2 ^ k" using t wl m d by simp
  have pos: "0 < int (unat tail)" using t wl m by simp
  have wr: "block_write (Block a m) (unat (buf_write_index b)) d
      = Some (Block a (overwrite m (unat (buf_write_index b)) d))"
    using fit m by (simp add: mem_simps)
  let ?m' = "overwrite m (unat (buf_write_index b)) d"
  have wr2: "block_write (Block a ?m') 0 [] = Some (Block a ?m')"
    by (simp add: mem_simps overwrite_def)
  have eq: "(word_of_int (int (unat tail)) :: size_t) = tail" by simp
  show ?thesis
    using nz le neg pos buf_write_free(2)[OF ok r le fit] eq
    by (simp add: append_from_ssl_def Let_def r1 r2 r wr wr2 flip: tail)
qed

lemma cut_into_ssl_flat:
  fixes sz :: size_t
  assumes ok: "buf_ok k b" and flat: "buf_read_index b < buf_write_index b"
  defines "nr \<equiv> cut_amount b sz"
  assumes wr: "SSL_write ssl (take (unat nr) (contents b)) (to_c_int nr) = (ret, s1)" and pos: "ret > 0"
  shows "\<exists>b'. cut_into_ssl SSL_write ssl b sz = Some (b', s1, ret) \<and> buf_ok k b'
    \<and> contents b' = drop (unat nr) (contents b)"
proof -
  obtain a m where r: "buf_ring b = Block a m" and m: "length m = 2 ^ k"
    and wl: "unat (buf_write_index b) < length m"
    and c: "contents b = ring_content m (unat (buf_read_index b)) (unat (buf_write_index b))"
    using ok by (auto elim: buf_okE)
  have le: "unat nr \<le> length (contents b)" using unat_cut_amount[OF ok] by (simp add: nr_def)
  have lc: "length (contents b) = unat (buf_write_index b) - unat (buf_read_index b)"
    using flat length_contents[OF ok] by (simp add: word_less_nat_alt)
  have "unat (buf_read_index b) + unat nr \<le> length m"
    using le lc wl flat by (simp add: word_less_nat_alt)
  moreover have "take (unat nr) (drop (unat (buf_read_index b)) m) = take (unat nr) (contents b)"
    using c le lc flat by (simp add: ring_content_def word_less_nat_alt min_absorb1)
  ultimately show ?thesis
    using flat wr pos buf_retreat[OF ok le]
    by (simp add: cut_into_ssl_def Let_def r mem_simps nr_def[symmetric])
qed

lemma buffer_assign_dangling:
  assumes "buf_ok k this" and "buf_read_buffer this \<noteq> Null" and "buf_ok j rhs" and "malloc_ok malloc"
  shows "\<exists>b. buffer_assign malloc this rhs = Some b \<and> contents b = contents rhs
    \<and> buf_read_buffer b = Dangling \<and> buffer_destroy b = None"
proof -
  have rb: "block_free (buf_read_buffer this) = Some Dangling" and fr: "block_free (buf_ring this) = Some Dangling"
    using assms(1,2) by (auto simp: buf_ok_def sized_block_iff block_free_def)
  obtain a m where r: "buf_ring rhs = Block a m" and m: "length m = unat (buf_capacity rhs)"
    using assms(3) by (auto simp: buf_ok_def sized_block_iff unat_pow2)
  obtain a' m' where al: "malloc (buf_capacity rhs) = Block a' m'" and m': "length m' = unat (buf_capacity rhs)"
    using assms(4)[unfolded malloc_ok_def sized_block_iff] by blast
  show ?thesis using m m'
    by (simp add: buffer_assign_def rb fr r al mem_simps buffer_destroy_def contents_def overwrite_def)
      (simp add: block_free_def)
qed

subsection \<open>Properties\<close>

text \<open>An allocator that zeroes its blocks, and an empty buffer of 8 bytes, for the witnesses.\<close>

definition zero_malloc :: allocator where
  "zero_malloc n = Block 1 (replicate (unat n) CHR 0x00)"

definition buffer8 :: buffer where
  "buffer8 = the (buffer_sized zero_malloc 8)"

lemma zero_malloc_ok: "malloc_ok zero_malloc"
  by (simp add: malloc_ok_def zero_malloc_def sized_block_def)

lemma buffer8_ok: "buf_ok 3 buffer8" and buffer8_empty: "contents buffer8 = []"
  using buffer_sized_correct[of 3 zero_malloc] by (auto simp: buffer8_def zero_malloc_def sized_block_def)

lemma buffer8_simps: "buf_read_index buffer8 = 0" "buf_write_index buffer8 = 0"
  "buf_capacity buffer8 = 8" "writable_bytes buffer8 = 7" "readable_bytes buffer8 = 0"
  by (simp_all add: buffer8_def buffer_sized_def writable_bytes_def readable_bytes_def)

text \<open>A buffer whose content \<open>ghab\<close> wraps around the end of the ring.\<close>

definition buffer8_wrapped :: buffer where
  "buffer8_wrapped =
     \<lparr>buf_read_index = 6, buf_write_index = 2, buf_capacity = 8, buf_mask = 7,
      buf_ring = Block 1 ''abcdefgh'', buf_read_buffer = Null\<rparr>"

lemma buffer8_wrapped_ok: "buf_ok 3 buffer8_wrapped"
  and buffer8_wrapped_content: "contents buffer8_wrapped = ''ghab''"
  by (simp_all add: buffer8_wrapped_def buf_ok_def sized_block_def contents_def ring_content_def)

text \<open>C9: any sequence of appends and of reads followed by cuts runs without touching memory
  outside the blocks of the buffer, and the bytes accepted, after those already there, are exactly
  the bytes handed out followed by the content that is left: nothing is lost, duplicated or
  reordered, around the end of the ring too.\<close>

theorem ring_buffer_fifo:
  assumes "buf_ok k b" and "malloc_ok malloc" and "list_all op_small ops"
  shows "\<exists>b' ins outs. queue_run buffer_put (buffer_take malloc) ops b = Some (b', ins, outs)
    \<and> buf_ok k b' \<and> contents b @ ins = outs @ contents b'"
  using ring.run_conserves[of k b malloc ops] assms by blast

theorem ring_buffer_fifo_witness:
  "\<exists>b' ins outs. queue_run buffer_put (buffer_take zero_malloc)
      [Put ''hello'', Take 4, Put ''abcdefgh'', Take 100] buffer8 = Some (b', ins, outs)
    \<and> buf_ok 3 b' \<and> contents buffer8 @ ins = outs @ contents b'"
  by (rule ring_buffer_fifo[OF buffer8_ok zero_malloc_ok]) simp

text \<open>\<open>append\<close> stores the longest prefix of the data that fits (one byte of the ring always
  stays free), returns its length and keeps the invariant; afterwards the free and the used bytes
  still add up to the capacity the buffer reports.\<close>

theorem ring_buffer_append:
  assumes "buf_ok k b" and "unat sz \<le> length data"
  shows "\<exists>b' n. append_bytes b data sz = Some (b', n) \<and> buf_ok k b'
    \<and> unat n = min (unat sz) (unat (writable_bytes b))
    \<and> contents b' = contents b @ take (unat n) data
    \<and> unat (readable_bytes b') + unat (writable_bytes b') = unat (buffer_capacity b')"
proof -
  let ?n = "min (unat sz) (2 ^ k - 1 - length (contents b))"
  obtain b' where b': "append_bytes b data sz = Some (b', word_of_nat ?n)" "buf_ok k b'"
    "contents b' = contents b @ take ?n data"
    using append_bytes_correct[OF assms] by blast
  have "?n < 2 ^ 64" using unat_less_64[of sz] by simp
  then have "unat (word_of_nat ?n :: size_t) = ?n" by (rule unat_word_of_nat_small)
  moreover have "unat (readable_bytes b') + unat (writable_bytes b') = unat (buffer_capacity b')"
    using length_contents_less[OF b'(2)] unat_readable[OF b'(2)] unat_writable[OF b'(2)] b'(2)
    by (simp add: buf_ok_def buffer_capacity_def unat_minus_one unat_pow2)
  ultimately show ?thesis using b' unat_writable[OF assms(1)] by simp
qed

theorem ring_buffer_append_witness:
  "\<exists>b' n. append_bytes buffer8 ''abcdefghij'' 10 = Some (b', n) \<and> buf_ok 3 b'
    \<and> unat n = min (unat (10 :: size_t)) (unat (writable_bytes buffer8))
    \<and> contents b' = contents buffer8 @ take (unat n) ''abcdefghij''
    \<and> unat (readable_bytes b') + unat (writable_bytes b') = unat (buffer_capacity b')"
  by (rule ring_buffer_append[OF buffer8_ok]) simp

text \<open>The three ways to look at the content agree: the iterator loop ends and visits the
  content in order, \<open>str\<close> returns one contiguous copy of it (allocating the read buffer when the
  content wraps) without changing it, and the views of \<open>strs\<close> concatenate to it.\<close>

theorem ring_buffer_views:
  assumes "buf_ok k b" and "malloc_ok malloc"
  shows "buffer_iterate b = Some (contents b)
    \<and> (\<exists>b'. buffer_str_bytes malloc b = Some (b', contents b) \<and> buf_ok k b' \<and> contents b' = contents b)
    \<and> (\<exists>ds. map (view_bytes (buf_ring b)) (strs b) = map Some ds \<and> concat ds = contents b)"
  using it_collect_contents[OF assms(1)] strs_views[OF assms(1)]
    buffer_str_correct[where malloc = malloc, OF assms(1) malloc_okD[OF assms(2,1)]]
  by (simp add: buffer_iterate_def)

theorem ring_buffer_views_witness:
  "buffer_iterate buffer8_wrapped = Some (contents buffer8_wrapped)
    \<and> (\<exists>b'. buffer_str_bytes zero_malloc buffer8_wrapped = Some (b', contents buffer8_wrapped) \<and> buf_ok 3 b'
        \<and> contents b' = contents buffer8_wrapped)
    \<and> (\<exists>ds. map (view_bytes (buf_ring buffer8_wrapped)) (strs buffer8_wrapped) = map Some ds
        \<and> concat ds = contents buffer8_wrapped)"
  by (rule ring_buffer_views[OF buffer8_wrapped_ok zero_malloc_ok])

text \<open>\<open>append_from_fd\<close> offers \<open>readv\<close> exactly the free space, in one or two segments inside
  the ring, and appends exactly the bytes \<open>readv\<close> stored, in order; a return value that is not
  positive leaves the content as it was and stores \<open>errno\<close>; a full buffer reads nothing.\<close>

theorem ring_buffer_read_fd:
  assumes "buf_ok k b" and "readv_ok readv"
  defines "res \<equiv> readv (map snd (free_iov b))"
  shows "if writable_bytes b = 0 then append_from_fd True readv b = Some (b, 0, None)
    else sum_list (map unat (map snd (free_iov b))) = unat (writable_bytes b)
      \<and> (\<exists>b'. append_from_fd True readv b =
          Some (b', rv_ret res, if rv_ret res > 0 then None else Some (rv_errno res))
        \<and> buf_ok k b' \<and> contents b' = contents b @ rv_data res)"
proof (cases "writable_bytes b = 0")
  case True
  then show ?thesis by (simp add: append_from_fd_def)
next
  case False
  show ?thesis
    unfolding if_not_P[OF False] res_def
    using append_from_fd_correct[OF assms(1,2) False] sum_free_iov[OF assms(1)] by blast
qed

text \<open>A descriptor with the bytes \<open>d\<close> to read.\<close>

definition readv_of :: "bytes \<Rightarrow> readv_fn" where
  "readv_of d lens =
     (let t = take (sum_list (map unat lens)) d in \<lparr>rv_ret = int (length t), rv_data = t, rv_errno = 0\<rparr>)"

lemma readv_of_ok: "readv_ok (readv_of d)"
  by (simp add: readv_ok_def readv_of_def Let_def)

theorem ring_buffer_read_fd_witness:
  "\<exists>b'. append_from_fd True (readv_of ''0123456789'') buffer8_wrapped = Some (b', 3, None)
     \<and> contents b' = ''ghab012''"
proof -
  have w: "writable_bytes buffer8_wrapped = 3" by (simp add: buffer8_wrapped_def writable_bytes_def)
  have f: "free_iov buffer8_wrapped = [(2, 3)]"
    by (simp add: free_iov_def w) (simp add: buffer8_wrapped_def)
  show ?thesis
    using ring_buffer_read_fd[OF buffer8_wrapped_ok readv_of_ok, of "''0123456789''"]
    by (auto simp: w f readv_of_def buffer8_wrapped_content)
qed

text \<open>\<open>cut_into_fd\<close> gives \<open>writev\<close> exactly the first bytes of the content (all of it when the
  size is 0, at most the size otherwise), however it lies in the ring, and removes from the front
  exactly as many bytes as \<open>writev\<close> took: a short write keeps the rest, an error removes nothing.\<close>

theorem ring_buffer_write_fd:
  assumes "buf_ok k b" and "writev_ok writev"
  shows "\<exists>b' ds. cut_into_fd writev b sz = Some (b', writev ds)
    \<and> concat ds = (if sz = 0 then contents b else take (unat sz) (contents b))
    \<and> buf_ok k b' \<and> contents b' = drop (nat (writev ds)) (contents b)"
proof -
  have "take (unat (cut_amount b sz)) (contents b) = (if sz = 0 then contents b else take (unat sz) (contents b))"
    by (simp add: unat_cut_amount[OF assms(1)] min_def)
  then show ?thesis using cut_into_fd_correct[OF assms, of sz] by simp
qed

theorem ring_buffer_write_fd_witness:
  "\<exists>b' ds. cut_into_fd (\<lambda>ds. min 3 (int (length (concat ds)))) buffer8_wrapped 0
      = Some (b', min 3 (int (length (concat ds))))
    \<and> concat ds = ''ghab'' \<and> contents b' = ''b''"
proof -
  have "writev_ok (\<lambda>ds. min 3 (int (length (concat ds))))" by (simp add: writev_ok_def)
  from ring_buffer_write_fd[OF buffer8_wrapped_ok this, of 0]
  obtain b' ds where "cut_into_fd (\<lambda>ds. min 3 (int (length (concat ds)))) buffer8_wrapped 0
      = Some (b', min 3 (int (length (concat ds))))" "concat ds = ''ghab''"
    "contents b' = drop (nat (min 3 (int (length (concat ds))))) ''ghab''"
    by (auto simp: buffer8_wrapped_content)
  then show ?thesis by (intro exI[of _ b'] exI[of _ ds]) simp
qed

text \<open>\<open>append_from_ssl\<close> appends exactly the bytes of a successful read, and leaves the content
  alone when it reports an error or the end of the stream, provided the free space does not end
  exactly at the end of the ring with the read index at 0.\<close>

theorem ring_buffer_read_tls:
  assumes "buf_ok k b" and "k < 31" and "ssl_read_ok SSL_read"
    and "buf_read_index b \<noteq> 0 \<or> writable_bytes b = 0"
  shows "\<exists>res. append_from_ssl SSL_read SSL_get_error ssl b = Some res \<and> ssl_appends k b res"
proof (cases "writable_bytes b = 0")
  case True
  then show ?thesis using assms(1) by (simp add: append_from_ssl_def ssl_appends_def)
next
  case nz: False
  show ?thesis
  proof (cases "buf_read_index b \<le> buf_write_index b")
    case True
    with nz assms show ?thesis by (intro append_from_ssl_above) auto
  next
    case False
    with nz assms show ?thesis by (intro append_from_ssl_below) auto
  qed
qed

text \<open>A TLS session with the bytes left to read; without any, reading asks to be called again.\<close>

definition ssl_read_from :: "bytes ssl_read_fn" where
  "ssl_read_from s n = (if s = [] \<or> n \<le> 0 then (-1, [], s) else (int (length (take (nat n) s)), take (nat n) s, drop (nat n) s))"

lemma ssl_read_from_ok: "ssl_read_ok ssl_read_from"
  by (auto simp: ssl_read_ok_def ssl_read_from_def)

theorem ring_buffer_read_tls_witness:
  "\<exists>res. append_from_ssl ssl_read_from (\<lambda>_ _. 2) ''xy'' buffer8_wrapped = Some res
     \<and> ssl_appends 3 buffer8_wrapped res"
  by (rule ring_buffer_read_tls[OF buffer8_wrapped_ok _ ssl_read_from_ok])
     (simp_all add: buffer8_wrapped_def)

text \<open>C40: when a TLS read fills the free tail of the ring and the second \<open>SSL_read\<close> of the same
  call reports an error (asking to be called again, as it does when the record is exhausted), the
  bytes of the first one are dropped: they have left the session and the content is unchanged.\<close>

theorem ring_buffer_tls_read_loses_bytes:
  assumes "buf_ok k b" and "buf_read_index b \<le> buf_write_index b" and "writable_bytes b \<noteq> 0"
    and "tail = buf_capacity b - buf_write_index b"
    and "SSL_read ssl (to_c_int tail) = (int (unat tail), d, s1)" and "length d = unat tail"
    and "SSL_read s1 (to_c_int (writable_bytes b - tail)) = (ret2, [], s2)" and "ret2 < 0"
  shows "\<exists>res. append_from_ssl SSL_read SSL_get_error ssl b = Some res
    \<and> contents (io_buffer res) = contents b \<and> io_ret res = ret2 \<and> io_session res = s2"
  using append_from_ssl_lost[OF assms(1,2,3,5,6,7,8,4)] .

theorem ring_buffer_tls_read_loses_bytes_witness:
  "\<exists>res. append_from_ssl ssl_read_from (\<lambda>_ _. 2) ''12345678'' buffer8 = Some res
     \<and> contents (io_buffer res) = contents buffer8 \<and> io_ret res = -1 \<and> io_session res = []"
proof (rule ring_buffer_tls_read_loses_bytes[OF buffer8_ok])
  show "buf_read_index buffer8 \<le> buf_write_index buffer8" "writable_bytes buffer8 \<noteq> 0"
    "8 = buf_capacity buffer8 - buf_write_index buffer8"
    by (simp_all add: buffer8_simps)
  show "ssl_read_from ''12345678'' (to_c_int 8) = (int (unat (8 :: size_t)), ''12345678'', [])"
    by (simp add: ssl_read_from_def to_c_int_small)
  show "ssl_read_from [] (to_c_int (writable_bytes buffer8 - 8)) = (-1, [], [])"
    by (simp add: ssl_read_from_def)
qed simp_all

text \<open>When the content is in one piece, a TLS write that succeeds drops everything that was
  offered, whatever the number \<open>ret\<close> of bytes \<open>SSL_write\<close> took: after a short write the rest of
  the offer is lost.\<close>

theorem ring_buffer_tls_write_drops_offer:
  assumes "buf_ok k b" and "buf_read_index b < buf_write_index b" and "nr = cut_amount b sz"
    and "SSL_write ssl (take (unat nr) (contents b)) (to_c_int nr) = (ret, s1)" and "ret > 0"
  shows "\<exists>b'. cut_into_ssl SSL_write ssl b sz = Some (b', s1, ret) \<and> buf_ok k b'
    \<and> contents b' = drop (unat nr) (contents b)"
  using cut_into_ssl_flat[where SSL_write = SSL_write and ssl = ssl and sz = sz] assms by blast

definition buffer8_flat :: buffer where
  "buffer8_flat = buffer8_wrapped\<lparr>buf_read_index := 1, buf_write_index := 5\<rparr>"

theorem ring_buffer_tls_write_drops_offer_witness:
  "\<exists>b'. cut_into_ssl (\<lambda>s d n. (1, s @ take 1 d)) [] buffer8_flat 0 = Some (b', ''b'', 1) \<and> buf_ok 3 b'
     \<and> contents b' = drop (unat (4 :: size_t)) (contents buffer8_flat)"
  by (rule ring_buffer_tls_write_drops_offer)
     (simp_all add: buffer8_flat_def buffer8_wrapped_def buf_ok_def sized_block_def cut_amount_def
       readable_bytes_def contents_def ring_content_def)

text \<open>Copy assignment to a buffer whose read buffer has been allocated leaves that pointer
  dangling, and destroying the target frees it a second time.\<close>

theorem ring_buffer_assign_double_free:
  assumes "buf_ok k this" and "buf_read_buffer this \<noteq> Null" and "buf_ok j rhs" and "malloc_ok malloc"
  shows "\<exists>b. buffer_assign malloc this rhs = Some b \<and> contents b = contents rhs
    \<and> buf_read_buffer b = Dangling \<and> buffer_destroy b = None"
  using buffer_assign_dangling[OF assms] by blast

theorem ring_buffer_assign_double_free_witness:
  "\<exists>b. buffer_assign zero_malloc (buffer8\<lparr>buf_read_buffer := Block 2 ''abcdefgh''\<rparr>) buffer8_wrapped = Some b
     \<and> contents b = contents buffer8_wrapped \<and> buf_read_buffer b = Dangling \<and> buffer_destroy b = None"
proof (rule ring_buffer_assign_double_free[OF _ _ buffer8_wrapped_ok zero_malloc_ok])
  show "buf_ok 3 (buffer8\<lparr>buf_read_buffer := Block 2 ''abcdefgh''\<rparr>)"
    using buffer8_ok by (simp add: buf_ok_def sized_block_def)
qed simp

end
