(* ===== verification/Ev_Heap.thy ===== *)
theory Ev_Heap
  imports Smart_Prelude "HOL-Library.Multiset"
begin

text \<open>
  The 4-heap of \<open>open_source/ev.c\<close> that holds the timers and the periodics of an event loop.

  The array is a function from its index to the entry there, the first entry being at index
  \<open>HEAP0\<close>; an entry is a cached time and a watcher. The code keeps the index of an entry in the
  \<open>active\<close> field of its watcher, here a function from watchers to that field, so every routine
  takes and returns the pair of both. Times are of any linear order.
\<close>

subsection \<open>The array and its index arithmetic\<close>

type_synonym wid = nat

record 'a anhe =
  anhe_at :: 'a
  anhe_w :: wid

type_synonym 'a heap_mem = "(nat \<Rightarrow> 'a anhe) \<times> (wid \<Rightarrow> nat)"

definition DHEAP :: nat where "DHEAP = 4"

definition HEAP0 :: nat where "HEAP0 = DHEAP - 1"

definition HPARENT :: "nat \<Rightarrow> nat" where
  "HPARENT k = (k - HEAP0 - 1) div DHEAP + HEAP0"

definition UPHEAP_DONE :: "nat \<Rightarrow> nat \<Rightarrow> bool" where
  "UPHEAP_DONE p k \<longleftrightarrow> p = k"

text \<open>\<open>heap [k] = he; ev_active (ANHE_w (he)) = k\<close>\<close>

definition heap_place :: "'a heap_mem \<Rightarrow> nat \<Rightarrow> 'a anhe \<Rightarrow> 'a heap_mem" where
  "heap_place m k he = ((fst m)(k := he), (snd m)(anhe_w he := k))"

text \<open>
  The minimum child among the four from \<open>pos\<close> on: the fast path when all of them exist, the slow
  path when the end \<open>E\<close> of the array comes first.
\<close>

definition min_child :: "(nat \<Rightarrow> 'a :: linorder anhe) \<Rightarrow> nat \<Rightarrow> nat \<Rightarrow> nat" where
  "min_child h pos E =
     (let at = (\<lambda>i. anhe_at (h i)) in
      if pos + DHEAP - 1 < E then
        (let m0 = pos;
             m1 = (if at (pos + 1) < at m0 then pos + 1 else m0);
             m2 = (if at (pos + 2) < at m1 then pos + 2 else m1)
         in if at (pos + 3) < at m2 then pos + 3 else m2)
      else
        (let m0 = pos;
             m1 = (if pos + 1 < E \<and> at (pos + 1) < at m0 then pos + 1 else m0);
             m2 = (if pos + 2 < E \<and> at (pos + 2) < at m1 then pos + 2 else m1)
         in if pos + 3 < E \<and> at (pos + 3) < at m2 then pos + 3 else m2))"

subsection \<open>The routines\<close>

definition first_child :: "nat \<Rightarrow> nat" where
  "first_child k = DHEAP * (k - HEAP0) + HEAP0 + 1"

lemma first_child_greater: "k < first_child k"
  by (simp add: first_child_def HEAP0_def DHEAP_def)

lemma min_child_range:
  "pos < E \<Longrightarrow> pos \<le> min_child h pos E \<and> min_child h pos E < E \<and> min_child h pos E \<le> pos + 3"
  by (simp add: min_child_def Let_def DHEAP_def)

function downheap_loop ::
  "'a :: linorder heap_mem \<Rightarrow> nat \<Rightarrow> nat \<Rightarrow> 'a anhe \<Rightarrow> 'a heap_mem" where
  "downheap_loop m E k he =
     (if first_child k < E then
        (let c = min_child (fst m) (first_child k) E in
         if anhe_at he \<le> anhe_at (fst m c) then heap_place m k he
         else downheap_loop (heap_place m k (fst m c)) E c he)
      else heap_place m k he)"
  by pat_completeness auto
termination
proof (relation "measure (\<lambda>(m, E, k, he). E - k)")
  fix m :: "'a heap_mem" and E k :: nat and he :: "'a anhe" and c
  assume lt: "first_child k < E" and c: "c = min_child (fst m) (first_child k) E"
  have "first_child k \<le> c" using min_child_range[OF lt, of "fst m"] c by simp
  then show "((heap_place m k (fst m c), E, c, he), (m, E, k, he)) \<in> measure (\<lambda>(m, E, k, he). E - k)"
    using first_child_greater[of k] lt by simp
qed simp

definition downheap :: "'a :: linorder heap_mem \<Rightarrow> nat \<Rightarrow> nat \<Rightarrow> 'a heap_mem" where
  "downheap m N k = downheap_loop m (N + HEAP0) k (fst m k)"

lemma HPARENT_less: "HEAP0 < k \<Longrightarrow> HPARENT k < k"
  by (simp add: HPARENT_def HEAP0_def DHEAP_def)

lemma HPARENT_ge: "HEAP0 \<le> HPARENT k"
  by (simp add: HPARENT_def)

function upheap_loop :: "'a :: linorder heap_mem \<Rightarrow> nat \<Rightarrow> 'a anhe \<Rightarrow> 'a heap_mem" where
  "upheap_loop m k he =
     (let p = HPARENT k in
      if UPHEAP_DONE p k \<or> anhe_at (fst m p) \<le> anhe_at he then heap_place m k he
      else upheap_loop (heap_place m k (fst m p)) p he)"
  by pat_completeness auto
termination
proof (relation "measure (\<lambda>(m, k, he). if k < HEAP0 then HEAP0 + 1 else k)")
  fix m :: "'a heap_mem" and k :: nat and he :: "'a anhe" and p
  assume p: "p = HPARENT k" and nd: "\<not> (UPHEAP_DONE p k \<or> anhe_at (fst m p) \<le> anhe_at he)"
  consider "k < HEAP0" | "k = HEAP0" | "HEAP0 < k" by linarith
  then show "((heap_place m k (fst m p), p, he), (m, k, he))
      \<in> measure (\<lambda>(m, k, he). if k < HEAP0 then HEAP0 + 1 else k)"
  proof cases
    case 1
    then have "p = HEAP0" using p by (simp add: HPARENT_def)
    with 1 show ?thesis by simp
  next
    case 2
    then show ?thesis using p nd by (simp add: HPARENT_def UPHEAP_DONE_def)
  next
    case 3
    then show ?thesis using p HPARENT_less[OF 3] HPARENT_ge[of k] by simp
  qed
qed simp

definition upheap :: "'a :: linorder heap_mem \<Rightarrow> nat \<Rightarrow> 'a heap_mem" where
  "upheap m k = upheap_loop m k (fst m k)"

definition adjustheap :: "'a :: linorder heap_mem \<Rightarrow> nat \<Rightarrow> nat \<Rightarrow> 'a heap_mem" where
  "adjustheap m N k =
     (if k > HEAP0 \<and> anhe_at (fst m k) \<le> anhe_at (fst m (HPARENT k)) then upheap m k
      else downheap m N k)"

definition reheap :: "'a :: linorder heap_mem \<Rightarrow> nat \<Rightarrow> 'a heap_mem" where
  "reheap m N = fold (\<lambda>i m. upheap m (i + HEAP0)) [0..<N] m"

declare downheap_loop.simps [simp del] upheap_loop.simps [simp del]

subsection \<open>What a heap is\<close>

definition heap_ordered :: "(nat \<Rightarrow> 'a :: linorder anhe) \<Rightarrow> nat \<Rightarrow> bool" where
  "heap_ordered h N \<longleftrightarrow>
     (\<forall>k. HEAP0 < k \<and> k < N + HEAP0 \<longrightarrow> anhe_at (h (HPARENT k)) \<le> anhe_at (h k))"

text \<open>Every entry of the array knows its place.\<close>

definition heap_indexed :: "'a heap_mem \<Rightarrow> nat \<Rightarrow> bool" where
  "heap_indexed m N \<longleftrightarrow> (\<forall>k. HEAP0 \<le> k \<and> k < N + HEAP0 \<longrightarrow> snd m (anhe_w (fst m k)) = k)"

definition heap_ok :: "'a :: linorder heap_mem \<Rightarrow> nat \<Rightarrow> bool" where
  "heap_ok m N \<longleftrightarrow> heap_ordered (fst m) N \<and> heap_indexed m N"

definition heap_entries :: "(nat \<Rightarrow> 'a anhe) \<Rightarrow> nat \<Rightarrow> 'a anhe list" where
  "heap_entries h N = map h [HEAP0..<N + HEAP0]"

lemma min_child_least:
  fixes h :: "nat \<Rightarrow> 'a :: linorder anhe"
  assumes "pos \<le> j" "j < pos + 4" "j < E"
  shows "anhe_at (h (min_child h pos E)) \<le> anhe_at (h j)"
proof -
  consider "j = pos" | "j = pos + 1" | "j = pos + 2" | "j = pos + 3" using assms by linarith
  then show ?thesis
    by cases (use assms in \<open>auto simp: min_child_def Let_def DHEAP_def\<close>)
qed

lemma HPARENT_first_child:
  "HEAP0 \<le> k \<Longrightarrow> HEAP0 < j \<Longrightarrow> HPARENT j = k \<longleftrightarrow> first_child k \<le> j \<and> j < first_child k + 4"
  by (simp add: HPARENT_def first_child_def HEAP0_def DHEAP_def) linarith

lemma HPARENT_min_child:
  assumes "HEAP0 \<le> k" and "first_child k < E"
  shows "HPARENT (min_child h (first_child k) E) = k" "HEAP0 < min_child h (first_child k) E"
    "k < min_child h (first_child k) E" "min_child h (first_child k) E < E"
proof -
  note r = min_child_range[OF assms(2), of h]
  show "k < min_child h (first_child k) E" "min_child h (first_child k) E < E"
    using r first_child_greater[of k] by auto
  with assms(1) show gt: "HEAP0 < min_child h (first_child k) E" by linarith
  show "HPARENT (min_child h (first_child k) E) = k"
    using HPARENT_first_child[OF assms(1) gt] r by simp
qed

text \<open>Writing one entry, on the list of entries.\<close>

lemma heap_entries_upd:
  "HEAP0 \<le> k \<Longrightarrow> k < N + HEAP0 \<Longrightarrow> heap_entries (h(k := x)) N = (heap_entries h N)[k - HEAP0 := x]"
  by (rule nth_equalityI) (auto simp: heap_entries_def nth_list_update)

lemma heap_entries_nth: "i < N \<Longrightarrow> heap_entries h N ! i = h (i + HEAP0)"
  by (simp add: heap_entries_def add.commute)

lemma length_heap_entries [simp]: "length (heap_entries h N) = N"
  by (simp add: heap_entries_def)

lemma heap_entries_swap:
  assumes "HEAP0 \<le> i" "i < N + HEAP0" "HEAP0 \<le> j" "j < N + HEAP0"
  shows "mset (heap_entries (h(i := h j, j := h i)) N) = mset (heap_entries h N)"
proof -
  let ?xs = "heap_entries h N"
  have e: "?xs ! (i - HEAP0) = h i" "?xs ! (j - HEAP0) = h j"
    using assms by (simp_all add: heap_entries_nth)
  have "heap_entries (h(i := h j, j := h i)) N = ?xs[i - HEAP0 := ?xs ! (j - HEAP0), j - HEAP0 := ?xs ! (i - HEAP0)]"
    using assms by (simp only: heap_entries_upd e)
  then show ?thesis using assms by (simp add: mset_swap)
qed

text \<open>
  A routine carries the entry \<open>he\<close> and has a hole at \<open>k\<close>. Filling the hole gives an array that
  is a heap but for \<open>k\<close>; all entries but the one at \<open>k\<close> know their places.
\<close>

definition hole_indexed :: "'a heap_mem \<Rightarrow> nat \<Rightarrow> nat \<Rightarrow> 'a anhe \<Rightarrow> bool" where
  "hole_indexed m N k he \<longleftrightarrow>
     (\<forall>j. HEAP0 \<le> j \<and> j < N + HEAP0 \<and> j \<noteq> k \<longrightarrow>
        snd m (anhe_w (fst m j)) = j \<and> anhe_w (fst m j) \<noteq> anhe_w he)"

lemma hole_indexed_move:
  assumes "hole_indexed m N k he" "HEAP0 \<le> c" "c < N + HEAP0" "c \<noteq> k"
  shows "hole_indexed (heap_place m k (fst m c)) N c he"
proof -
  have d: "anhe_w (fst m j) \<noteq> anhe_w (fst m c)" if "HEAP0 \<le> j" "j < N + HEAP0" "j \<noteq> k" "j \<noteq> c" for j
    using assms that unfolding hole_indexed_def by metis
  with assms show ?thesis unfolding hole_indexed_def heap_place_def by auto
qed

lemma hole_indexed_fill:
  assumes "hole_indexed m N k he"
  shows "heap_indexed (heap_place m k he) N"
  using assms unfolding hole_indexed_def heap_indexed_def heap_place_def by auto

definition down_pre :: "(nat \<Rightarrow> 'a :: linorder anhe) \<Rightarrow> nat \<Rightarrow> nat \<Rightarrow> bool" where
  "down_pre h N k \<longleftrightarrow>
     (\<forall>j. HEAP0 < j \<and> j < N + HEAP0 \<and> HPARENT j \<noteq> k \<longrightarrow> anhe_at (h (HPARENT j)) \<le> anhe_at (h j))
   \<and> (\<forall>j. HEAP0 < j \<and> j < N + HEAP0 \<and> HPARENT j = k \<and> HEAP0 < k \<longrightarrow>
        anhe_at (h (HPARENT k)) \<le> anhe_at (h j))"

definition up_pre :: "(nat \<Rightarrow> 'a :: linorder anhe) \<Rightarrow> nat \<Rightarrow> nat \<Rightarrow> bool" where
  "up_pre h N k \<longleftrightarrow>
     (\<forall>j. HEAP0 < j \<and> j < N + HEAP0 \<and> j \<noteq> k \<longrightarrow> anhe_at (h (HPARENT j)) \<le> anhe_at (h j))
   \<and> (\<forall>j. HEAP0 < j \<and> j < N + HEAP0 \<and> HPARENT j = k \<and> HEAP0 < k \<longrightarrow>
        anhe_at (h (HPARENT k)) \<le> anhe_at (h j))"

text \<open>What every routine guarantees of its result: a heap of the same entries that know their
  places, with nothing else touched.\<close>

definition heap_result ::
  "'a :: linorder heap_mem \<Rightarrow> 'a heap_mem \<Rightarrow> nat \<Rightarrow> bool" where
  "heap_result m m' N \<longleftrightarrow>
     heap_ok m' N \<and> mset (heap_entries (fst m') N) = mset (heap_entries (fst m) N)
   \<and> (\<forall>j. \<not> (HEAP0 \<le> j \<and> j < N + HEAP0) \<longrightarrow> fst m' j = fst m j)
   \<and> (\<forall>x. x \<notin> anhe_w ` set (heap_entries (fst m) N) \<longrightarrow> snd m' x = snd m x)"

lemma downheap_loop_correct:
  fixes m :: "'a :: linorder heap_mem"
  assumes "HEAP0 \<le> k" "k < N + HEAP0"
    and "down_pre ((fst m)(k := he)) N k" and "hole_indexed m N k he"
  shows "heap_result ((fst m)(k := he), snd m) (downheap_loop m (N + HEAP0) k he) N"
  using assms
proof (induction m "N + HEAP0" k he rule: downheap_loop.induct)
  case (1 m k he)
  let ?H = "(fst m)(k := he)"
  let ?E = "N + HEAP0"
  have in_set: "he \<in> set (heap_entries ?H N)"
    using 1(2,3) by (auto simp: heap_entries_def image_iff intro!: bexI[of _ k])
  have stop: "heap_result (?H, snd m) (heap_place m k he) N" if "heap_ordered ?H N"
    using that hole_indexed_fill[OF 1(5)] in_set 1(2,3)
    by (auto simp: heap_result_def heap_ok_def heap_place_def)
  show ?case
  proof (cases "first_child k < ?E")
    case False
    have "heap_ordered ?H N"
      unfolding heap_ordered_def
    proof (intro allI impI)
      fix j assume j: "HEAP0 < j \<and> j < ?E"
      have "HPARENT j \<noteq> k"
        using j False HPARENT_first_child[OF 1(2)] by auto
      then show "anhe_at (?H (HPARENT j)) \<le> anhe_at (?H j)" using 1(4) j unfolding down_pre_def by blast
    qed
    with stop False show ?thesis by (subst downheap_loop.simps) simp
  next
    case True
    define c where "c = min_child (fst m) (first_child k) ?E"
    have c: "HPARENT c = k" "HEAP0 < c" "k < c" "c < ?E"
      unfolding c_def by (rule HPARENT_min_child[OF 1(2) True])+
    have least: "anhe_at (fst m c) \<le> anhe_at (fst m j)" if "HEAP0 < j" "j < ?E" "HPARENT j = k" for j
      unfolding c_def using that HPARENT_first_child[OF 1(2) that(1)] by (intro min_child_least) auto
    show ?thesis
    proof (cases "anhe_at he \<le> anhe_at (fst m c)")
      case le: True
      have "heap_ordered ?H N"
        unfolding heap_ordered_def
      proof (intro allI impI)
        fix j assume j: "HEAP0 < j \<and> j < ?E"
        show "anhe_at (?H (HPARENT j)) \<le> anhe_at (?H j)"
        proof (cases "HPARENT j = k")
          case True
          then have "j \<noteq> k" using HPARENT_less[of j] j by auto
          with True le least[of j] j show ?thesis by simp
        next
          case False
          then show ?thesis using 1(4) j unfolding down_pre_def by blast
        qed
      qed
      with stop True le show ?thesis by (subst downheap_loop.simps) (simp add: c_def Let_def)
    next
      case gt: False
      let ?m = "heap_place m k (fst m c)"
      let ?H' = "(fst ?m)(c := he)"
      have H': "?H' = ?H(k := ?H c, c := ?H k)" using c by (auto simp: heap_place_def)
      have pre: "down_pre ?H' N c"
        unfolding down_pre_def
      proof (intro conjI allI impI)
        fix j assume j: "HEAP0 < j \<and> j < ?E \<and> HPARENT j \<noteq> c"
        show "anhe_at (?H' (HPARENT j)) \<le> anhe_at (?H' j)"
        proof (cases "j = c")
          case True
          then show ?thesis using c gt by (simp add: heap_place_def)
        next
          case jc: False
          have "HPARENT j < j" using j HPARENT_less by blast
          show ?thesis
          proof (cases "HPARENT j = k")
            case True
            then have "j \<noteq> k" using \<open>HPARENT j < j\<close> by simp
            with True jc least[of j] j c show ?thesis by (simp add: heap_place_def)
          next
            case pk: False
            show ?thesis
            proof (cases "j = k")
              case True
              then have "anhe_at (?H (HPARENT k)) \<le> anhe_at (?H c)"
                using 1(4) c j unfolding down_pre_def by blast
              then show ?thesis using True pk c j by (simp add: heap_place_def)
            next
              case False
              have "anhe_at (?H (HPARENT j)) \<le> anhe_at (?H j)"
                using 1(4) j pk unfolding down_pre_def by blast
              then show ?thesis using False pk jc j by (simp add: heap_place_def)
            qed
          qed
        qed
      next
        fix j assume j: "HEAP0 < j \<and> j < ?E \<and> HPARENT j = c \<and> HEAP0 < c"
        have "HPARENT j < j" using j HPARENT_less by blast
        then have "j \<noteq> c" "j \<noteq> k" using j c by auto
        have "anhe_at (?H (HPARENT j)) \<le> anhe_at (?H j)"
          using 1(4) j c unfolding down_pre_def by (metis less_irrefl)
        then show "anhe_at (?H' (HPARENT c)) \<le> anhe_at (?H' j)"
          using j c \<open>j \<noteq> c\<close> \<open>j \<noteq> k\<close> by (simp add: heap_place_def)
      qed
      have idx: "hole_indexed ?m N c he"
        using 1(5) c by (intro hole_indexed_move) auto
      have "heap_result (?H', snd ?m) (downheap_loop ?m ?E c he) N"
        using 1(1)[OF True c_def gt] c pre idx by simp
      moreover have "mset (heap_entries ?H' N) = mset (heap_entries ?H N)"
        unfolding H' using 1(2,3) c by (intro heap_entries_swap) auto
      moreover have "fst m c \<in> set (heap_entries ?H N)"
        using c by (auto simp: heap_entries_def image_iff intro!: bexI[of _ c])
      moreover have "?H' j = ?H j" if "\<not> (HEAP0 \<le> j \<and> j < ?E)" for j
        using that c 1(2,3) by (auto simp: H')
      moreover have "downheap_loop m ?E k he = downheap_loop ?m ?E c he"
        using True gt by (subst downheap_loop.simps) (simp add: c_def Let_def)
      ultimately show ?thesis
        unfolding heap_result_def using mset_eq_setD by (fastforce simp: heap_place_def)
    qed
  qed
qed
lemma upheap_loop_correct:
  fixes m :: "'a :: linorder heap_mem"
  assumes "HEAP0 \<le> k" "k < N + HEAP0"
    and "up_pre ((fst m)(k := he)) N k" and "hole_indexed m N k he"
  shows "heap_result ((fst m)(k := he), snd m) (upheap_loop m k he) N"
  using assms
proof (induction m k he rule: upheap_loop.induct)
  case (1 m k he)
  let ?H = "(fst m)(k := he)"
  let ?E = "N + HEAP0"
  let ?p = "HPARENT k"
  have in_set: "he \<in> set (heap_entries ?H N)"
    using 1(2,3) by (auto simp: heap_entries_def image_iff intro!: bexI[of _ k])
  show ?case
  proof (cases "UPHEAP_DONE ?p k \<or> anhe_at (fst m ?p) \<le> anhe_at he")
    case True
    have "heap_ordered ?H N"
      unfolding heap_ordered_def
    proof (intro allI impI)
      fix j assume j: "HEAP0 < j \<and> j < ?E"
      show "anhe_at (?H (HPARENT j)) \<le> anhe_at (?H j)"
      proof (cases "j = k")
        case jk: True
        then have "HPARENT k < k" using j HPARENT_less by blast
        with True jk show ?thesis by (auto simp: UPHEAP_DONE_def)
      next
        case False
        then show ?thesis using 1(4) j unfolding up_pre_def by blast
      qed
    qed
    then have "heap_result (?H, snd m) (heap_place m k he) N"
      using hole_indexed_fill[OF 1(5)] in_set 1(2,3)
      by (auto simp: heap_result_def heap_ok_def heap_place_def)
    with True show ?thesis by (subst upheap_loop.simps) simp
  next
    case False
    then have ne: "?p \<noteq> k" and gt: "anhe_at he < anhe_at (fst m ?p)"
      by (auto simp: UPHEAP_DONE_def)
    have k: "HEAP0 < k" using ne 1(2) by (cases "k = HEAP0") (auto simp: HPARENT_def)
    then have p: "HEAP0 \<le> ?p" "?p < k" using HPARENT_less HPARENT_ge by auto
    let ?m = "heap_place m k (fst m ?p)"
    let ?H' = "(fst ?m)(?p := he)"
    have H': "?H' = ?H(k := ?H ?p, ?p := ?H k)" using p by (auto simp: heap_place_def)
    have pre: "up_pre ?H' N ?p"
      unfolding up_pre_def
    proof (intro conjI allI impI)
      fix j assume j: "HEAP0 < j \<and> j < ?E \<and> j \<noteq> ?p"
      have "HPARENT j < j" using j HPARENT_less by blast
      consider "j = k" | "j \<noteq> k" "HPARENT j = k" | "j \<noteq> k" "HPARENT j \<noteq> k" "HPARENT j = ?p"
        | "j \<noteq> k" "HPARENT j \<noteq> k" "HPARENT j \<noteq> ?p" by blast
      then show "anhe_at (?H' (HPARENT j)) \<le> anhe_at (?H' j)"
      proof cases
        case 1
        then show ?thesis using p gt by (simp add: heap_place_def)
      next
        case 2
        then have "anhe_at (?H ?p) \<le> anhe_at (?H j)"
          using \<open>up_pre ?H N k\<close> j k unfolding up_pre_def by blast
        then show ?thesis using 2 j p by (simp add: heap_place_def)
      next
        case 3
        then have "anhe_at (?H (HPARENT j)) \<le> anhe_at (?H j)"
          using \<open>up_pre ?H N k\<close> j k unfolding up_pre_def by blast
        then show ?thesis using 3 j p gt by (simp add: heap_place_def)
      next
        case 4
        then have "anhe_at (?H (HPARENT j)) \<le> anhe_at (?H j)"
          using \<open>up_pre ?H N k\<close> j k unfolding up_pre_def by blast
        then show ?thesis using 4 j p by (simp add: heap_place_def)
      qed
    next
      fix j assume j: "HEAP0 < j \<and> j < ?E \<and> HPARENT j = ?p \<and> HEAP0 < ?p"
      have "HPARENT j < j" "HPARENT ?p < ?p" using j HPARENT_less by blast+
      have pp: "anhe_at (?H (HPARENT ?p)) \<le> anhe_at (?H ?p)"
        using \<open>up_pre ?H N k\<close> j p 1(3) unfolding up_pre_def by auto
      show "anhe_at (?H' (HPARENT ?p)) \<le> anhe_at (?H' j)"
      proof (cases "j = k")
        case True
        then show ?thesis using pp p \<open>HPARENT ?p < ?p\<close> by (simp add: heap_place_def)
      next
        case False
        then have "anhe_at (?H ?p) \<le> anhe_at (?H j)"
          using \<open>up_pre ?H N k\<close> j unfolding up_pre_def by metis
        then show ?thesis using False pp p \<open>HPARENT ?p < ?p\<close> \<open>HPARENT j < j\<close> j
          by (auto simp: heap_place_def)
      qed
    qed
    have idx: "hole_indexed ?m N ?p he"
      using 1(5) p 1(3) by (intro hole_indexed_move) auto
    have "heap_result (?H', snd ?m) (upheap_loop ?m ?p he) N"
      by (rule 1(1)[OF refl False _ _ pre idx]) (use p 1(3) in auto)
    moreover have "mset (heap_entries ?H' N) = mset (heap_entries ?H N)"
      unfolding H' using 1(2,3) p by (intro heap_entries_swap) auto
    moreover have "fst m ?p \<in> set (heap_entries ?H N)"
      using p 1(3) by (auto simp: heap_entries_def image_iff intro!: bexI[of _ ?p])
    moreover have "?H' j = ?H j" if "\<not> (HEAP0 \<le> j \<and> j < ?E)" for j
      using that p 1(2,3) by (auto simp: H')
    moreover have "upheap_loop m k he = upheap_loop ?m ?p he"
      using False by (subst upheap_loop.simps) (simp add: Let_def)
    ultimately show ?thesis
      unfolding heap_result_def using mset_eq_setD by (fastforce simp: heap_place_def)
  qed
qed

subsection \<open>The routines keep the heap\<close>

text \<open>The array is a heap but for the entry at \<open>k\<close>, which may be anything.\<close>

definition near_heap :: "'a :: linorder heap_mem \<Rightarrow> nat \<Rightarrow> nat \<Rightarrow> bool" where
  "near_heap m N k \<longleftrightarrow> hole_indexed m N k (fst m k)
   \<and> (\<forall>j. HEAP0 < j \<and> j < N + HEAP0 \<and> j \<noteq> k \<and> HPARENT j \<noteq> k \<longrightarrow>
        anhe_at (fst m (HPARENT j)) \<le> anhe_at (fst m j))
   \<and> (\<forall>j. HEAP0 < j \<and> j < N + HEAP0 \<and> HPARENT j = k \<and> HEAP0 < k \<longrightarrow>
        anhe_at (fst m (HPARENT k)) \<le> anhe_at (fst m j))"

lemma downheap_correct:
  assumes "HEAP0 \<le> k" "k < N + HEAP0" "near_heap m N k"
    and "HEAP0 < k \<Longrightarrow> anhe_at (fst m (HPARENT k)) \<le> anhe_at (fst m k)"
  shows "heap_result m (downheap m N k) N"
proof -
  have "down_pre (fst m) N k"
    using assms(3,4) unfolding down_pre_def near_heap_def by (metis)
  then show ?thesis
    using downheap_loop_correct[of k N m "fst m k"] assms(1,2,3)
    by (simp add: downheap_def near_heap_def)
qed

lemma upheap_correct:
  assumes "HEAP0 \<le> k" "k < N + HEAP0" "near_heap m N k"
    and "\<And>j. HEAP0 < j \<Longrightarrow> j < N + HEAP0 \<Longrightarrow> HPARENT j = k \<Longrightarrow> anhe_at (fst m k) \<le> anhe_at (fst m j)"
  shows "heap_result m (upheap m k) N"
proof -
  have "up_pre (fst m) N k"
    using assms(3,4) unfolding up_pre_def near_heap_def by (metis)
  then show ?thesis
    using upheap_loop_correct[of k N m "fst m k"] assms(1,2,3)
    by (simp add: upheap_def near_heap_def)
qed

lemma adjustheap_correct:
  assumes k: "HEAP0 \<le> k" "k < N + HEAP0" and near: "near_heap m N k"
  shows "heap_result m (adjustheap m N k) N"
proof (cases "k > HEAP0 \<and> anhe_at (fst m k) \<le> anhe_at (fst m (HPARENT k))")
  case True
  have "anhe_at (fst m k) \<le> anhe_at (fst m j)" if "HEAP0 < j" "j < N + HEAP0" "HPARENT j = k" for j
  proof -
    have "anhe_at (fst m (HPARENT k)) \<le> anhe_at (fst m j)"
      using near that True unfolding near_heap_def by blast
    with True show ?thesis by (metis order_trans)
  qed
  with True upheap_correct[OF k near] show ?thesis by (simp add: adjustheap_def)
next
  case False
  then have "HEAP0 < k \<Longrightarrow> anhe_at (fst m (HPARENT k)) \<le> anhe_at (fst m k)" by auto
  then show ?thesis unfolding adjustheap_def if_not_P[OF False] by (rule downheap_correct[OF k near])
qed

text \<open>The three changes the event loop makes to a heap.\<close>

lemma heap_ok_distinct:
  assumes "heap_ok m N" "HEAP0 \<le> i" "i < N + HEAP0" "HEAP0 \<le> j" "j < N + HEAP0"
    "anhe_w (fst m i) = anhe_w (fst m j)"
  shows "i = j"
  using assms unfolding heap_ok_def heap_indexed_def by metis

lemma heap_ok_change:
  assumes ok: "heap_ok m N" and k: "HEAP0 \<le> k" "k < N + HEAP0"
    and w: "\<And>j. HEAP0 \<le> j \<Longrightarrow> j < N + HEAP0 \<Longrightarrow> j \<noteq> k \<Longrightarrow> anhe_w (fst m j) \<noteq> anhe_w he"
  shows "near_heap ((fst m)(k := he), snd m) N k"
proof -
  have ord: "anhe_at (fst m (HPARENT j)) \<le> anhe_at (fst m j)" if "HEAP0 < j" "j < N + HEAP0" for j
    using ok that unfolding heap_ok_def heap_ordered_def by blast
  have "anhe_at (((fst m)(k := he)) (HPARENT k)) \<le> anhe_at (((fst m)(k := he)) j)"
    if j: "HEAP0 < j" "j < N + HEAP0" "HPARENT j = k" "HEAP0 < k" for j
  proof -
    have "HPARENT j < j" "HPARENT k < k" using j HPARENT_less by auto
    then show ?thesis using ord[of j] ord[of k] j k by auto
  qed
  with ok w ord show ?thesis
    unfolding near_heap_def hole_indexed_def heap_ok_def heap_indexed_def by simp
qed

lemma heap_update_correct:
  assumes ok: "heap_ok m N" and k: "HEAP0 \<le> k" "k < N + HEAP0"
    and w: "anhe_w he = anhe_w (fst m k)"
  shows "heap_result ((fst m)(k := he), snd m) (adjustheap ((fst m)(k := he), snd m) N k) N"
proof (rule adjustheap_correct[OF k heap_ok_change[OF ok k]])
  fix j assume "HEAP0 \<le> j" "j < N + HEAP0" "j \<noteq> k"
  then show "anhe_w (fst m j) \<noteq> anhe_w he" using heap_ok_distinct[OF ok _ _ k] w by auto
qed

lemma heap_insert_correct:
  assumes ok: "heap_ok m N"
    and w: "\<And>j. HEAP0 \<le> j \<Longrightarrow> j < N + HEAP0 \<Longrightarrow> anhe_w (fst m j) \<noteq> anhe_w he"
  shows "heap_result ((fst m)(N + HEAP0 := he), snd m)
      (upheap ((fst m)(N + HEAP0 := he), snd m) (N + HEAP0)) (Suc N)"
proof -
  have np: "HPARENT j \<noteq> N + HEAP0" if "HEAP0 < j" "j < Suc N + HEAP0" for j
    using HPARENT_less[OF that(1)] that(2) by linarith
  show ?thesis
    using ok w np
    by (intro upheap_correct)
      (auto simp: near_heap_def hole_indexed_def heap_ok_def heap_ordered_def heap_indexed_def)
qed

lemma heap_entries_Suc: "heap_entries h (Suc N) = heap_entries h N @ [h (N + HEAP0)]"
  by (simp add: heap_entries_def)

lemma heap_ok_less: "heap_ok m N \<Longrightarrow> M \<le> N \<Longrightarrow> heap_ok m M"
  by (simp add: heap_ok_def heap_ordered_def heap_indexed_def)

definition heap_remove :: "'a :: linorder heap_mem \<Rightarrow> nat \<Rightarrow> nat \<Rightarrow> 'a heap_mem" where
  "heap_remove m N k =
     (if k < N + HEAP0 then adjustheap ((fst m)(k := fst m (N + HEAP0)), snd m) N k else m)"

lemma heap_remove_correct:
  assumes ok: "heap_ok m (Suc N)" and k: "HEAP0 \<le> k" "k < Suc N + HEAP0"
  defines "m' \<equiv> heap_remove m N k"
  shows "heap_ok m' N" and "mset (heap_entries (fst m') N) + {#fst m k#} = mset (heap_entries (fst m) (Suc N))"
    and "\<And>x. x \<notin> anhe_w ` set (heap_entries (fst m) (Suc N)) \<Longrightarrow> snd m' x = snd m x"
    and "snd m' (anhe_w (fst m k)) = snd m (anhe_w (fst m k))"
proof -
  let ?h = "fst m" and ?E = "N + HEAP0"
  have all: "heap_ok m' N \<and> mset (heap_entries (fst m') N) + {#?h k#} = mset (heap_entries ?h (Suc N))
    \<and> (\<forall>x. x \<notin> anhe_w ` set (heap_entries ?h (Suc N)) - {anhe_w (?h k)} \<longrightarrow> snd m' x = snd m x)"
  proof (cases "k < ?E")
    case False
    then have "k = ?E" using k by simp
    then show ?thesis using heap_ok_less[OF ok, of N]
      by (simp add: m'_def heap_remove_def heap_entries_Suc)
  next
    case True
    let ?m = "(?h(k := ?h ?E), snd m)"
    have near: "near_heap ?m N k"
    proof (rule heap_ok_change[OF heap_ok_less[OF ok] k(1) True])
      fix j assume "HEAP0 \<le> j" "j < ?E" "j \<noteq> k"
      then show "anhe_w (?h j) \<noteq> anhe_w (?h ?E)" using heap_ok_distinct[OF ok, of j ?E] by auto
    qed simp
    have res: "heap_result ?m m' N"
      using adjustheap_correct[OF k(1) True near] True by (simp add: m'_def heap_remove_def)
    have ent: "heap_entries (?h(k := ?h ?E)) N = (heap_entries ?h N)[k - HEAP0 := ?h ?E]"
      using k(1) True by (simp add: heap_entries_upd del: fun_upd_apply)
    have hk: "heap_entries ?h N ! (k - HEAP0) = ?h k" "k - HEAP0 < N"
      using k(1) True by (auto simp: heap_entries_nth)
    have ms: "mset (heap_entries (fst ?m) N) + {#?h k#} = mset (heap_entries ?h (Suc N))"
    proof -
      have "?h k \<in># mset (heap_entries ?h N)" using hk nth_mem[of "k - HEAP0" "heap_entries ?h N"] by simp
      then show ?thesis using hk unfolding fst_conv ent by (simp add: mset_update heap_entries_Suc)
    qed
    have sub: "anhe_w ` set (heap_entries (fst ?m) N) \<subseteq> anhe_w ` set (heap_entries ?h (Suc N)) - {anhe_w (?h k)}"
    proof
      fix x assume "x \<in> anhe_w ` set (heap_entries (fst ?m) N)"
      then obtain j where j: "HEAP0 \<le> j" "j < ?E" "x = anhe_w ((?h(k := ?h ?E)) j)"
        by (auto simp: heap_entries_def)
      define i where "i = (if j = k then ?E else j)"
      have i: "HEAP0 \<le> i" "i < Suc ?E" "i \<noteq> k" "x = anhe_w (?h i)" using j True by (auto simp: i_def)
      then have "x \<noteq> anhe_w (?h k)" using heap_ok_distinct[OF ok i(1) _ k] by auto
      with i show "x \<in> anhe_w ` set (heap_entries ?h (Suc N)) - {anhe_w (?h k)}"
        by (auto simp: heap_entries_def simp del: upt_Suc)
    qed
    have "\<forall>x. x \<notin> anhe_w ` set (heap_entries ?h (Suc N)) - {anhe_w (?h k)} \<longrightarrow> snd m' x = snd m x"
      using res sub unfolding heap_result_def snd_conv by blast
    with res ms show ?thesis unfolding heap_result_def by simp
  qed
  then show "heap_ok m' N" "mset (heap_entries (fst m') N) + {#?h k#} = mset (heap_entries ?h (Suc N))"
    "snd m' (anhe_w (?h k)) = snd m (anhe_w (?h k))" by blast+
  show "snd m' x = snd m x" if "x \<notin> anhe_w ` set (heap_entries ?h (Suc N))" for x
    using all that by blast
qed

text \<open>The root is the least entry.\<close>

lemma heap_root_least:
  assumes "heap_ordered h N" "HEAP0 \<le> k" "k < N + HEAP0"
  shows "anhe_at (h HEAP0) \<le> anhe_at (h k)"
  using assms(2,3)
proof (induction k rule: less_induct)
  case (less k)
  show ?case
  proof (cases "k = HEAP0")
    case False
    then have gt: "HEAP0 < k" using less by simp
    have "anhe_at (h HEAP0) \<le> anhe_at (h (HPARENT k))"
      using less.IH[OF HPARENT_less[OF gt]] HPARENT_ge[of k] HPARENT_less[OF gt] less.prems(2) by simp
    also have "\<dots> \<le> anhe_at (h k)"
      using assms(1) gt less.prems unfolding heap_ordered_def by blast
    finally show ?thesis .
  qed simp
qed
lemma heap_indexed_inj:
  assumes "heap_indexed m N" "HEAP0 \<le> i" "i < N + HEAP0" "HEAP0 \<le> j" "j < N + HEAP0"
    "anhe_w (fst m i) = anhe_w (fst m j)"
  shows "i = j"
  using assms unfolding heap_indexed_def by metis

text \<open>Inserting one by one: a prefix of the array is a heap, the rest is still in its place.\<close>

lemma heap_result_extend:
  assumes res: "heap_result m m' M" and idx: "heap_indexed m N" and le: "M \<le> N"
  shows "heap_indexed m' N" and "mset (heap_entries (fst m') N) = mset (heap_entries (fst m) N)"
    and "\<And>x. x \<notin> anhe_w ` set (heap_entries (fst m) N) \<Longrightarrow> snd m' x = snd m x"
proof -
  have split: "heap_entries h N = heap_entries h M @ map h [M + HEAP0..<N + HEAP0]" for h :: "nat \<Rightarrow> 'a anhe"
  proof -
    have "[HEAP0..<N + HEAP0] = [HEAP0..<M + HEAP0] @ [M + HEAP0..<N + HEAP0]"
      using upt_add_eq_append[of HEAP0 "M + HEAP0" "N - M"] le by (simp add: add.commute)
    then show ?thesis by (simp add: heap_entries_def)
  qed
  have same: "fst m' j = fst m j" if "M + HEAP0 \<le> j" for j
    using res that unfolding heap_result_def by simp
  have "map (fst m') [M + HEAP0..<N + HEAP0] = map (fst m) [M + HEAP0..<N + HEAP0]"
    using same by (intro map_cong) auto
  moreover have "mset (heap_entries (fst m') M) = mset (heap_entries (fst m) M)"
    using res unfolding heap_result_def by blast
  ultimately show "mset (heap_entries (fst m') N) = mset (heap_entries (fst m) N)"
    by (simp only: split mset_append)
  have sub: "set (heap_entries (fst m) M) \<subseteq> set (heap_entries (fst m) N)" by (simp add: split)
  then show "snd m' x = snd m x" if "x \<notin> anhe_w ` set (heap_entries (fst m) N)" for x
    using res that unfolding heap_result_def by blast
  show "heap_indexed m' N"
    unfolding heap_indexed_def
  proof (intro allI impI)
    fix j assume j: "HEAP0 \<le> j \<and> j < N + HEAP0"
    show "snd m' (anhe_w (fst m' j)) = j"
    proof (cases "j < M + HEAP0")
      case True
      then show ?thesis using res j unfolding heap_result_def heap_ok_def heap_indexed_def by blast
    next
      case False
      have "anhe_w (fst m j) \<notin> anhe_w ` set (heap_entries (fst m) M)"
      proof
        assume "anhe_w (fst m j) \<in> anhe_w ` set (heap_entries (fst m) M)"
        then obtain i where i: "HEAP0 \<le> i" "i < M + HEAP0" "anhe_w (fst m i) = anhe_w (fst m j)"
          by (auto simp: heap_entries_def)
        then have "i = j" using heap_indexed_inj[OF idx, of i j] j le by simp
        with i False show False by simp
      qed
      then have "snd m' (anhe_w (fst m j)) = snd m (anhe_w (fst m j))"
        using res unfolding heap_result_def by blast
      then show ?thesis using same[of j] False idx j unfolding heap_indexed_def by simp
    qed
  qed
qed

lemma reheap_correct:
  assumes idx: "heap_indexed m N"
  shows "heap_result m (reheap m N) N"
proof -
  define f where "f = (\<lambda>i (m :: 'a heap_mem). upheap m (i + HEAP0))"
  have step: "heap_ok (fold f [0..<i] m) i \<and> heap_indexed (fold f [0..<i] m) N
      \<and> mset (heap_entries (fst (fold f [0..<i] m)) N) = mset (heap_entries (fst m) N)
      \<and> (\<forall>j. \<not> (HEAP0 \<le> j \<and> j < N + HEAP0) \<longrightarrow> fst (fold f [0..<i] m) j = fst m j)
      \<and> (\<forall>x. x \<notin> anhe_w ` set (heap_entries (fst m) N) \<longrightarrow> snd (fold f [0..<i] m) x = snd m x)"
    if "i \<le> N" for i
    using that
  proof (induction i)
    case 0
    then show ?case using idx by (auto simp: heap_ok_def heap_ordered_def heap_indexed_def)
  next
    case (Suc i)
    let ?m = "fold f [0..<i] m"
    have IH: "heap_ok ?m i" "heap_indexed ?m N" "mset (heap_entries (fst ?m) N) = mset (heap_entries (fst m) N)"
      "\<forall>j. \<not> (HEAP0 \<le> j \<and> j < N + HEAP0) \<longrightarrow> fst ?m j = fst m j"
      "\<forall>x. x \<notin> anhe_w ` set (heap_entries (fst m) N) \<longrightarrow> snd ?m x = snd m x"
      using Suc by auto
    have ws: "anhe_w (fst ?m j) \<noteq> anhe_w (fst ?m (i + HEAP0))" if "HEAP0 \<le> j" "j < i + HEAP0" for j
      using heap_indexed_inj[OF IH(2), of j "i + HEAP0"] that Suc.prems by auto
    have res: "heap_result ?m (f i ?m) (Suc i)"
      using heap_insert_correct[OF IH(1) ws] by (simp add: f_def)
    note ext = heap_result_extend[OF res IH(2) Suc.prems]
    have "set (heap_entries (fst ?m) N) = set (heap_entries (fst m) N)" using IH(3) by (rule mset_eq_setD)
    with ext(3) IH(5) have "\<forall>x. x \<notin> anhe_w ` set (heap_entries (fst m) N) \<longrightarrow> snd (f i ?m) x = snd m x"
      by metis
    moreover have "\<forall>j. \<not> (HEAP0 \<le> j \<and> j < N + HEAP0) \<longrightarrow> fst (f i ?m) j = fst m j"
      using res IH(4) Suc.prems unfolding heap_result_def by auto
    ultimately show ?case using ext(1,2) IH(3) res unfolding heap_result_def by simp
  qed
  from step[of N] show ?thesis by (simp add: heap_result_def reheap_def f_def)
qed

subsection \<open>Properties\<close>

lemma heap_ok_root:
  assumes "heap_ok m N" "x \<in> set (heap_entries (fst m) N)"
  shows "anhe_at (fst m HEAP0) \<le> anhe_at x"
  using assms heap_root_least[of "fst m" N] by (auto simp: heap_ok_def heap_entries_def)

text \<open>A heap of \<open>N\<close> entries in which entry \<open>i\<close> is watcher \<open>i\<close> at time \<open>10 * i\<close>, for the
  witnesses.\<close>

definition sample_heap :: "nat heap_mem" where
  "sample_heap = (\<lambda>i. \<lparr>anhe_at = 10 * i, anhe_w = i\<rparr>, \<lambda>x. x)"

lemma sample_heap_ok: "heap_ok sample_heap N"
proof -
  have "HPARENT k \<le> k" if "HEAP0 < k" for k using HPARENT_less[OF that] by simp
  then show ?thesis by (simp add: heap_ok_def heap_ordered_def heap_indexed_def sample_heap_def)
qed

text \<open>C34: after the time of one entry has changed in any way, \<open>adjustheap\<close> makes the array a heap
  again: the same entries, each at the place its watcher's \<open>active\<close> field says, with a least time
  at the root.\<close>

theorem ev_heap_adjust:
  fixes m :: "'a :: linorder heap_mem"
  assumes "heap_ok m N" and "HEAP0 \<le> k" and "k < N + HEAP0" and "anhe_w he = anhe_w (fst m k)"
    and "m1 = ((fst m)(k := he), snd m)"
  shows "heap_ok (adjustheap m1 N k) N
    \<and> mset (heap_entries (fst (adjustheap m1 N k)) N) = mset (heap_entries (fst m1) N)
    \<and> (\<forall>x \<in> set (heap_entries (fst m1) N). anhe_at (fst (adjustheap m1 N k) HEAP0) \<le> anhe_at x)"
proof -
  have res: "heap_result m1 (adjustheap m1 N k) N" using heap_update_correct assms by blast
  then have "set (heap_entries (fst (adjustheap m1 N k)) N) = set (heap_entries (fst m1) N)"
    by (metis heap_result_def mset_eq_setD)
  with res heap_ok_root show ?thesis unfolding heap_result_def by blast
qed

theorem ev_heap_adjust_witness:
  "heap_ok (adjustheap ((fst sample_heap)(4 := \<lparr>anhe_at = 75, anhe_w = 4\<rparr>), snd sample_heap) 7 4) 7"
  using ev_heap_adjust[OF sample_heap_ok, where N = 7 and k = 4 and he = "\<lparr>anhe_at = 75, anhe_w = 4\<rparr>", OF _ _ _ refl]
  by (simp add: HEAP0_def DHEAP_def sample_heap_def)

text \<open>The way a timer leaves the heap (the last entry is moved to its place and adjusted)
  removes exactly its entry and keeps the heap, with every other watcher knowing its place.\<close>

theorem ev_heap_remove:
  fixes m :: "'a :: linorder heap_mem"
  assumes "heap_ok m (Suc N)" and "HEAP0 \<le> k" and "k < Suc N + HEAP0"
  shows "heap_ok (heap_remove m N k) N
    \<and> mset (heap_entries (fst (heap_remove m N k)) N) = mset (heap_entries (fst m) (Suc N)) - {#fst m k#}"
  using heap_remove_correct(1,2)[OF assms] by (metis add_diff_cancel_right')

theorem ev_heap_remove_witness:
  "heap_ok (heap_remove sample_heap 9 3) 9
    \<and> mset (heap_entries (fst (heap_remove sample_heap 9 3)) 9)
      = mset (heap_entries (fst sample_heap) (Suc 9)) - {#fst sample_heap 3#}"
  by (rule ev_heap_remove[OF sample_heap_ok]) (simp_all add: HEAP0_def DHEAP_def)

text \<open>\<open>reheap\<close> makes a heap of an array in any order, keeping its entries.\<close>

theorem ev_heap_reheap:
  fixes m :: "'a :: linorder heap_mem"
  assumes "heap_indexed m N"
  shows "heap_ok (reheap m N) N \<and> mset (heap_entries (fst (reheap m N)) N) = mset (heap_entries (fst m) N)"
  using reheap_correct[OF assms] unfolding heap_result_def by blast

theorem ev_heap_reheap_witness:
  "heap_ok (reheap (\<lambda>i. \<lparr>anhe_at = 100 - (i :: nat), anhe_w = i\<rparr>, \<lambda>x. x) 20) 20"
  using ev_heap_reheap[of "(\<lambda>i. \<lparr>anhe_at = 100 - (i :: nat), anhe_w = i\<rparr>, \<lambda>x. x)" 20]
  by (simp add: heap_indexed_def)

end
