(* ===== verification/Ev_Core.thy ===== *)
theory Ev_Core
  imports Ev_Heap Complex_Main
begin

text \<open>
  The state of a libev event loop (\<open>open_source/ev.c\<close>, \<open>ev.h\<close>) and the operations that do not
  depend on the backend: pending events, file descriptor changes, and the starting and stopping of
  watchers.

  A watcher is a pointer in the code and a number here; its fields are functions of the state from
  that number (\<open>w_active\<close>, \<open>w_pending\<close>, \<open>w_priority\<close> for all watchers, the rest by type). The
  type of the C struct behind a pointer is \<open>w_kind\<close>, which no operation changes. An array with its
  count is a list; the timers and periodics are the arrays of \<open>Ev_Heap\<close>. Times, \<open>double\<close> in the
  code, are reals: rounding is not modelled.

  An operation returns \<^const>\<open>None\<close> where the code runs into a failed assertion or would access
  an array outside its elements. The type \<open>'e\<close> is the rest of the process (kernel, user data).
\<close>

subsection \<open>Constants\<close>

type_synonym mask32 = "32 word"
type_synonym mask8 = "8 word"

definition EV_READ :: mask32 where "EV_READ = 0x01"
definition EV_WRITE :: mask32 where "EV_WRITE = 0x02"
definition EV__IOFDSET :: mask32 where "EV__IOFDSET = 0x80"
definition EV_TIMER :: mask32 where "EV_TIMER = 0x00000100"
definition EV_PERIODIC :: mask32 where "EV_PERIODIC = 0x00000200"
definition EV_IDLE :: mask32 where "EV_IDLE = 0x00002000"
definition EV_PREPARE :: mask32 where "EV_PREPARE = 0x00004000"
definition EV_CHECK :: mask32 where "EV_CHECK = 0x00008000"
definition EV_FORK :: mask32 where "EV_FORK = 0x00020000"
definition EV_CLEANUP :: mask32 where "EV_CLEANUP = 0x00040000"
definition EV_ASYNC :: mask32 where "EV_ASYNC = 0x00080000"
definition EV_ET :: mask32 where "EV_ET = 0x00100000"
definition EV_CUSTOM :: mask32 where "EV_CUSTOM = 0x01000000"
definition EV_ERROR :: mask32 where "EV_ERROR = 0x80000000"

definition EV_ANFD_REIFY :: mask8 where "EV_ANFD_REIFY = 1"

definition EV_MINPRI :: int where "EV_MINPRI = -2"
definition EV_MAXPRI :: int where "EV_MAXPRI = 2"
definition NUMPRI :: nat where "NUMPRI = nat (EV_MAXPRI - EV_MINPRI + 1)"

subsection \<open>The state\<close>

text \<open>The struct types of the watchers (\<open>union ev_any_watcher\<close>).\<close>

datatype watcher_kind =
  Ev_Io | Ev_Timer | Ev_Periodic | Ev_Idle | Ev_Prepare | Ev_Check | Ev_Fork | Ev_Cleanup | Ev_Async

record anfd =
  anfd_head :: "wid list"
  anfd_events :: mask8
  anfd_reify :: mask8
  anfd_emask :: mask8
  anfd_egen :: mask32

record anpending =
  anp_w :: wid
  anp_events :: mask32

record 'e ev_loop =
  w_kind :: "wid \<Rightarrow> watcher_kind"
  w_active :: "wid \<Rightarrow> nat"
  w_pending :: "wid \<Rightarrow> nat"
  w_priority :: "wid \<Rightarrow> int"
  w_fd :: "wid \<Rightarrow> int"
  w_events :: "wid \<Rightarrow> mask32"
  w_at :: "wid \<Rightarrow> real"
  w_repeat :: "wid \<Rightarrow> real"
  w_offset :: "wid \<Rightarrow> real"
  w_interval :: "wid \<Rightarrow> real"
  w_resched :: "wid \<Rightarrow> (real \<Rightarrow> real) option"
  w_sent :: "wid \<Rightarrow> bool"
  ev_rt_now :: real
  mn_now :: real
  now_floor :: real
  rtmn_diff :: real
  io_blocktime :: real
  timeout_blocktime :: real
  backend_mintime :: real
  pendings :: "anpending list list"
  pendingpri :: nat
  rfeeds :: "wid list"
  anfds :: "anfd list"
  fdchanges :: "nat list"
  timers :: "nat \<Rightarrow> real anhe"
  timercnt :: nat
  periodics :: "nat \<Rightarrow> real anhe"
  periodiccnt :: nat
  idles :: "wid list list"
  idleall :: nat
  prepares :: "wid list"
  checks :: "wid list"
  forks :: "wid list"
  cleanups :: "wid list"
  asyncs :: "wid list"
  async_pending :: bool
  pipe_write_wanted :: bool
  pipe_write_skipped :: bool
  evpipe0 :: int
  evpipe1 :: int
  curpid :: nat
  activecnt :: int
  loop_count :: nat
  loop_depth :: nat
  loop_done :: nat
  postfork :: nat
  epoll_eperms :: "nat list"
  epoll_eventmax :: nat
  env :: 'e

text \<open>The watchers inside the loop itself: the dummy of cleared pending events and the pipe.\<close>

definition pending_w :: wid where "pending_w = 0"
definition pipe_w :: wid where "pipe_w = 1"

text \<open>\<open>w->active = n\<close> and its like for the other fields.\<close>

definition set_active :: "wid \<Rightarrow> nat \<Rightarrow> 'e ev_loop \<Rightarrow> 'e ev_loop" where
  "set_active w n l = l\<lparr>w_active := (w_active l)(w := n)\<rparr>"

definition set_pending :: "wid \<Rightarrow> nat \<Rightarrow> 'e ev_loop \<Rightarrow> 'e ev_loop" where
  "set_pending w n l = l\<lparr>w_pending := (w_pending l)(w := n)\<rparr>"

definition set_at :: "wid \<Rightarrow> real \<Rightarrow> 'e ev_loop \<Rightarrow> 'e ev_loop" where
  "set_at w t l = l\<lparr>w_at := (w_at l)(w := t)\<rparr>"

definition set_anfd :: "nat \<Rightarrow> (anfd \<Rightarrow> anfd) \<Rightarrow> 'e ev_loop \<Rightarrow> 'e ev_loop" where
  "set_anfd fd f l = l\<lparr>anfds := (anfds l)[fd := f (anfds l ! fd)]\<rparr>"

subsection \<open>Growing arrays\<close>

function next_double :: "nat \<Rightarrow> nat \<Rightarrow> nat" where
  "next_double ncur cnt =
     (if ncur = 0 then 0 else if cnt > 2 * ncur then next_double (2 * ncur) cnt else 2 * ncur)"
  by pat_completeness auto
termination by (relation "measure (\<lambda>(ncur, cnt). cnt - ncur)") auto

definition MALLOC_ROUND :: nat where "MALLOC_ROUND = 4096"

definition array_nextsize :: "nat \<Rightarrow> nat \<Rightarrow> nat \<Rightarrow> nat" where
  "array_nextsize elem cur cnt =
     (let ncur = next_double (cur + 1) cnt; ptr = (8 :: nat) in
      if elem * ncur > MALLOC_ROUND - ptr * 4 then
        (let x = ncur * elem + elem + (MALLOC_ROUND - 1) + ptr * 4;
             y = x - x mod MALLOC_ROUND
         in (y - ptr * 4) div elem)
      else ncur)"

definition anfd_zero :: anfd where
  "anfd_zero = \<lparr>anfd_head = [], anfd_events = 0, anfd_reify = 0, anfd_emask = 0, anfd_egen = 0\<rparr>"

definition SIZEOF_ANFD :: nat where "SIZEOF_ANFD = 16"

text \<open>\<open>array_needsize\<close> for the array of file descriptors, whose new elements are zeroed.\<close>

definition anfds_needsize :: "nat \<Rightarrow> anfd list \<Rightarrow> anfd list" where
  "anfds_needsize cnt xs =
     (if cnt > length xs then
        xs @ replicate (array_nextsize SIZEOF_ANFD (length xs) cnt - length xs) anfd_zero
      else xs)"

subsection \<open>Pending events\<close>

definition ABSPRI :: "'e ev_loop \<Rightarrow> wid \<Rightarrow> int" where
  "ABSPRI l w = w_priority l w - EV_MINPRI"

definition ev_feed_event :: "wid \<Rightarrow> mask32 \<Rightarrow> 'e ev_loop \<Rightarrow> 'e ev_loop option" where
  "ev_feed_event w revents l =
     (let p = ABSPRI l w; pri = nat p in
      if p < 0 \<or> length (pendings l) \<le> pri then None
      else if w_pending l w \<noteq> 0 then
        (let i = w_pending l w - 1; q = pendings l ! pri in
         if i < length q then
           Some (l\<lparr>pendings := (pendings l)[pri := q[i := (q ! i)\<lparr>anp_events := anp_events (q ! i) OR revents\<rparr>]],
                   pendingpri := NUMPRI - 1\<rparr>)
         else None)
      else
        (let q = pendings l ! pri in
         Some ((set_pending w (length q + 1) l)
           \<lparr>pendings := (pendings l)[pri := q @ [\<lparr>anp_w = w, anp_events = revents\<rparr>]],
            pendingpri := NUMPRI - 1\<rparr>)))"

fun feed_all :: "wid list \<Rightarrow> mask32 \<Rightarrow> 'e ev_loop \<Rightarrow> 'e ev_loop option" where
  "feed_all [] revents l = Some l"
| "feed_all (w # ws) revents l = Option.bind (ev_feed_event w revents l) (feed_all ws revents)"

definition queue_events :: "wid list \<Rightarrow> mask32 \<Rightarrow> 'e ev_loop \<Rightarrow> 'e ev_loop option" where
  "queue_events ws type l = feed_all ws type l"

definition feed_reverse :: "wid \<Rightarrow> 'e ev_loop \<Rightarrow> 'e ev_loop" where
  "feed_reverse w l = l\<lparr>rfeeds := rfeeds l @ [w]\<rparr>"

text \<open>\<open>feed_reverse_done\<close> is called with at least one element (\<open>do ... while\<close>).\<close>

definition feed_reverse_done :: "mask32 \<Rightarrow> 'e ev_loop \<Rightarrow> 'e ev_loop option" where
  "feed_reverse_done revents l =
     (if rfeeds l = [] then None else feed_all (rev (rfeeds l)) revents (l\<lparr>rfeeds := []\<rparr>))"

definition clear_pending :: "wid \<Rightarrow> 'e ev_loop \<Rightarrow> 'e ev_loop option" where
  "clear_pending w l =
     (if w_pending l w = 0 then Some l
      else
        (let p = ABSPRI l w; pri = nat p; i = w_pending l w - 1 in
         if p < 0 \<or> length (pendings l) \<le> pri \<or> length (pendings l ! pri) \<le> i then None
         else Some (set_pending w 0
           (l\<lparr>pendings := (pendings l)[pri := (pendings l ! pri)[i := (pendings l ! pri ! i)\<lparr>anp_w := pending_w\<rparr>]]\<rparr>))))"

definition ev_clear_pending :: "wid \<Rightarrow> 'e ev_loop \<Rightarrow> ('e ev_loop \<times> mask32) option" where
  "ev_clear_pending w l =
     (if w_pending l w = 0 then Some (l, 0)
      else do {
        l' \<leftarrow> clear_pending w l;
        Some (l', anp_events (pendings l ! nat (ABSPRI l w) ! (w_pending l w - 1))) })"

definition ev_pending_count :: "'e ev_loop \<Rightarrow> nat" where
  "ev_pending_count l = sum_list (map length (pendings l))"

subsection \<open>File descriptors\<close>

fun fd_feed :: "wid list \<Rightarrow> mask32 \<Rightarrow> 'e ev_loop \<Rightarrow> 'e ev_loop option" where
  "fd_feed [] revents l = Some l"
| "fd_feed (w # ws) revents l =
     (let ev = w_events l w AND revents in
      if ev \<noteq> 0 then Option.bind (ev_feed_event w ev l) (fd_feed ws revents)
      else fd_feed ws revents l)"

definition fd_event_nocheck :: "nat \<Rightarrow> mask32 \<Rightarrow> 'e ev_loop \<Rightarrow> 'e ev_loop option" where
  "fd_event_nocheck fd revents l =
     (if fd < length (anfds l) then fd_feed (anfd_head (anfds l ! fd)) revents l else None)"

definition fd_event :: "nat \<Rightarrow> mask32 \<Rightarrow> 'e ev_loop \<Rightarrow> 'e ev_loop option" where
  "fd_event fd revents l =
     (if fd < length (anfds l) then
        (if anfd_reify (anfds l ! fd) = 0 then fd_event_nocheck fd revents l else Some l)
      else None)"

definition ev_feed_fd_event :: "int \<Rightarrow> mask32 \<Rightarrow> 'e ev_loop \<Rightarrow> 'e ev_loop option" where
  "ev_feed_fd_event fd revents l =
     (if 0 \<le> fd \<and> nat fd < length (anfds l) then fd_event_nocheck (nat fd) revents l else Some l)"

definition fd_change :: "nat \<Rightarrow> mask8 \<Rightarrow> 'e ev_loop \<Rightarrow> 'e ev_loop option" where
  "fd_change fd flags l =
     (if fd < length (anfds l) then
        (let reify = anfd_reify (anfds l ! fd);
             l1 = set_anfd fd (\<lambda>a. a\<lparr>anfd_reify := anfd_reify a OR flags\<rparr>) l
         in Some (if reify = 0 then l1\<lparr>fdchanges := fdchanges l1 @ [fd]\<rparr> else l1))
      else None)"

text \<open>
  \<open>fd_reify\<close> walks over \<open>fdchanges\<close> by index, because the backend may append to it. The events
  of a file descriptor are kept in an \<open>unsigned char\<close>.
\<close>

type_synonym 'e backend_modify = "nat \<Rightarrow> mask32 \<Rightarrow> mask32 \<Rightarrow> 'e ev_loop \<Rightarrow> 'e ev_loop option"

definition wanted_events :: "'e ev_loop \<Rightarrow> wid list \<Rightarrow> mask8" where
  "wanted_events l ws = fold (\<lambda>w acc. acc OR ucast (w_events l w)) ws 0"

definition fd_reify_step :: "'e backend_modify \<Rightarrow> nat \<Rightarrow> 'e ev_loop \<Rightarrow> 'e ev_loop option" where
  "fd_reify_step modify fd l =
     (if fd < length (anfds l) then
        (let a = anfds l ! fd;
             o_events = anfd_events a;
             events = wanted_events l (anfd_head a);
             o_reify = (if o_events \<noteq> events then ucast EV__IOFDSET else anfd_reify a);
             l1 = set_anfd fd (\<lambda>a. a\<lparr>anfd_reify := 0, anfd_events := events\<rparr>) l
         in if o_reify AND ucast EV__IOFDSET \<noteq> 0 then modify fd (ucast o_events) (ucast events) l1
            else Some l1)
      else None)"

partial_function (option) fd_reify_loop ::
  "'e backend_modify \<Rightarrow> nat \<Rightarrow> 'e ev_loop \<Rightarrow> 'e ev_loop option" where
  "fd_reify_loop modify i l =
     (if i < length (fdchanges l) then do {
        l1 \<leftarrow> fd_reify_step modify (fdchanges l ! i) l;
        fd_reify_loop modify (i + 1) l1 }
      else Some (l\<lparr>fdchanges := []\<rparr>))"

definition fd_reify :: "'e backend_modify \<Rightarrow> 'e ev_loop \<Rightarrow> 'e ev_loop option" where
  "fd_reify modify l = fd_reify_loop modify 0 l"

subsection \<open>Starting and stopping\<close>

definition pri_adjust :: "wid \<Rightarrow> 'e ev_loop \<Rightarrow> 'e ev_loop" where
  "pri_adjust w l =
     (let pri = w_priority l w;
          pri = (if pri < EV_MINPRI then EV_MINPRI else pri);
          pri = (if pri > EV_MAXPRI then EV_MAXPRI else pri)
      in l\<lparr>w_priority := (w_priority l)(w := pri)\<rparr>)"

definition ev_ref :: "'e ev_loop \<Rightarrow> 'e ev_loop" where
  "ev_ref l = l\<lparr>activecnt := activecnt l + 1\<rparr>"

definition ev_unref :: "'e ev_loop \<Rightarrow> 'e ev_loop" where
  "ev_unref l = l\<lparr>activecnt := activecnt l - 1\<rparr>"

definition ev_start :: "wid \<Rightarrow> nat \<Rightarrow> 'e ev_loop \<Rightarrow> 'e ev_loop" where
  "ev_start w active l = ev_ref (set_active w active (pri_adjust w l))"

definition ev_stop :: "wid \<Rightarrow> 'e ev_loop \<Rightarrow> 'e ev_loop" where
  "ev_stop w l = set_active w 0 (ev_unref l)"

text \<open>The list of watchers of a file descriptor: added at the head, the first match removed.\<close>

definition wlist_add :: "wid list \<Rightarrow> wid \<Rightarrow> wid list" where
  "wlist_add head w = w # head"

fun wlist_del :: "wid list \<Rightarrow> wid \<Rightarrow> wid list" where
  "wlist_del [] w = []"
| "wlist_del (x # xs) w = (if x = w then xs else x # wlist_del xs w)"

definition ev_io_set :: "wid \<Rightarrow> int \<Rightarrow> mask32 \<Rightarrow> 'e ev_loop \<Rightarrow> 'e ev_loop" where
  "ev_io_set w fd events l =
     l\<lparr>w_fd := (w_fd l)(w := fd), w_events := (w_events l)(w := events OR EV__IOFDSET)\<rparr>"

text \<open>The assertions are the code's: a descriptor that is not negative, a legal event mask, and a
  watcher that is not already at the head of the list.\<close>

definition ev_io_start :: "wid \<Rightarrow> 'e ev_loop \<Rightarrow> 'e ev_loop option" where
  "ev_io_start w l =
     (if w_active l w \<noteq> 0 then Some l
      else if w_fd l w < 0 then None
      else if w_events l w AND NOT (EV__IOFDSET OR EV_READ OR EV_WRITE OR EV_ET) \<noteq> 0 then None
      else
        (let fd = nat (w_fd l w);
             l1 = ev_start w 1 l;
             l2 = l1\<lparr>anfds := anfds_needsize (fd + 1) (anfds l1)\<rparr>
         in if take 1 (anfd_head (anfds l2 ! fd)) = [w] then None
            else do {
              let l3 = set_anfd fd (\<lambda>a. a\<lparr>anfd_head := wlist_add (anfd_head a) w\<rparr>) l2;
              l4 \<leftarrow> fd_change fd (ucast (w_events l3 w AND EV__IOFDSET) OR EV_ANFD_REIFY) l3;
              Some (l4\<lparr>w_events := (w_events l4)(w := w_events l4 w AND NOT EV__IOFDSET)\<rparr>) }))"

definition ev_io_stop :: "wid \<Rightarrow> 'e ev_loop \<Rightarrow> 'e ev_loop option" where
  "ev_io_stop w l = do {
     l1 \<leftarrow> clear_pending w l;
     if w_active l1 w = 0 then Some l1
     else if w_fd l1 w < 0 \<or> length (anfds l1) \<le> nat (w_fd l1 w) then None
     else
       (let fd = nat (w_fd l1 w);
            l2 = set_anfd fd (\<lambda>a. a\<lparr>anfd_head := wlist_del (anfd_head a) w\<rparr>) l1
        in fd_change fd EV_ANFD_REIFY (ev_stop w l2)) }"

text \<open>
  \<open>fd_kill\<close> stops every watcher of a descriptor, which removes it from the list, and tells it.
\<close>

partial_function (option) fd_kill :: "nat \<Rightarrow> 'e ev_loop \<Rightarrow> 'e ev_loop option" where
  "fd_kill fd l =
     (if fd < length (anfds l) then
        (case anfd_head (anfds l ! fd) of
           [] \<Rightarrow> Some l
         | w # _ \<Rightarrow> do {
             l1 \<leftarrow> ev_io_stop w l;
             l2 \<leftarrow> ev_feed_event w (EV_ERROR OR EV_READ OR EV_WRITE) l1;
             fd_kill fd l2 })
      else None)"

end
