(* ===== verification/Ev_Watchers.thy ===== *)
theory Ev_Watchers
  imports Ev_Core
begin

text \<open>
  Invariants of the event loop and what the operations of \<open>Ev_Core\<close> do to them: the pending
  queues, and the lists of watchers of the file descriptors with the changes the kernel has not
  been told of.
\<close>

subsection \<open>Pending events\<close>

definition prio_ok :: "'e ev_loop \<Rightarrow> wid \<Rightarrow> bool" where
  "prio_ok l w \<longleftrightarrow> 0 \<le> ABSPRI l w \<and> nat (ABSPRI l w) < NUMPRI"

abbreviation pend_queue :: "'e ev_loop \<Rightarrow> wid \<Rightarrow> anpending list" where
  "pend_queue l w \<equiv> pendings l ! nat (ABSPRI l w)"

text \<open>
  The pending queues and the \<open>pending\<close> fields agree: a watcher is at the place its field says, and
  an entry belongs to a watcher that says so or to the dummy.
\<close>

definition pend_ok :: "'e ev_loop \<Rightarrow> bool" where
  "pend_ok l \<longleftrightarrow> length (pendings l) = NUMPRI \<and> w_pending l pending_w = 0
   \<and> (\<forall>w. w_pending l w \<noteq> 0 \<longrightarrow> prio_ok l w \<and> w_pending l w \<le> length (pend_queue l w)
        \<and> anp_w (pend_queue l w ! (w_pending l w - 1)) = w)
   \<and> (\<forall>pri < NUMPRI. \<forall>i < length (pendings l ! pri).
        anp_w (pendings l ! pri ! i) \<noteq> pending_w \<longrightarrow>
        w_pending l (anp_w (pendings l ! pri ! i)) = Suc i
        \<and> ABSPRI l (anp_w (pendings l ! pri ! i)) = int pri)"

definition pending_events :: "'e ev_loop \<Rightarrow> wid \<Rightarrow> mask32 option" where
  "pending_events l w =
     (if w_pending l w = 0 then None else Some (anp_events (pend_queue l w ! (w_pending l w - 1))))"

text \<open>The fields an operation on pending events may change.\<close>

definition same_but_pending :: "'e ev_loop \<Rightarrow> 'e ev_loop \<Rightarrow> bool" where
  "same_but_pending l l' \<longleftrightarrow>
     (\<exists>P Q p. l' = l\<lparr>w_pending := P, pendings := Q, pendingpri := p\<rparr>)"

lemma same_but_pending_refl [simp]: "same_but_pending l l"
  unfolding same_but_pending_def
  by (rule exI[of _ "w_pending l"], rule exI[of _ "pendings l"], rule exI[of _ "pendingpri l"]) simp

lemma same_but_pending_trans:
  assumes "same_but_pending a b" "same_but_pending b c"
  shows "same_but_pending a c"
proof -
  obtain P Q p where b: "b = a\<lparr>w_pending := P, pendings := Q, pendingpri := p\<rparr>"
    using assms(1) unfolding same_but_pending_def by blast
  obtain P' Q' p' where "c = b\<lparr>w_pending := P', pendings := Q', pendingpri := p'\<rparr>"
    using assms(2) unfolding same_but_pending_def by blast
  then have "c = a\<lparr>w_pending := P', pendings := Q', pendingpri := p'\<rparr>" by (simp add: b)
  then show ?thesis unfolding same_but_pending_def by blast
qed

lemma same_but_pendingD:
  assumes "same_but_pending l l'"
  shows "w_priority l' = w_priority l" "w_active l' = w_active l" "w_kind l' = w_kind l"
    "w_fd l' = w_fd l" "w_events l' = w_events l" "anfds l' = anfds l" "fdchanges l' = fdchanges l"
    "timers l' = timers l" "timercnt l' = timercnt l" "periodics l' = periodics l"
    "periodiccnt l' = periodiccnt l" "w_at l' = w_at l" "rfeeds l' = rfeeds l" "mn_now l' = mn_now l"
    "ABSPRI l' w = ABSPRI l w" "activecnt l' = activecnt l" "env l' = env l" "w_repeat l' = w_repeat l"
proof -
  obtain P Q p where l': "l' = l\<lparr>w_pending := P, pendings := Q, pendingpri := p\<rparr>"
    using assms unfolding same_but_pending_def by blast
  show "w_priority l' = w_priority l" "w_active l' = w_active l" "w_kind l' = w_kind l"
    "w_fd l' = w_fd l" "w_events l' = w_events l" "anfds l' = anfds l" "fdchanges l' = fdchanges l"
    "timers l' = timers l" "timercnt l' = timercnt l" "periodics l' = periodics l"
    "periodiccnt l' = periodiccnt l" "w_at l' = w_at l" "rfeeds l' = rfeeds l" "mn_now l' = mn_now l"
    "ABSPRI l' w = ABSPRI l w" "activecnt l' = activecnt l" "env l' = env l" "w_repeat l' = w_repeat l"
    by (simp_all add: l' ABSPRI_def)
qed

lemma same_but_pendingD2:
  assumes "same_but_pending l l'"
  shows "epoll_eperms l' = epoll_eperms l" "epoll_eventmax l' = epoll_eventmax l"
    "idles l' = idles l" "prepares l' = prepares l" "checks l' = checks l" "forks l' = forks l"
    "cleanups l' = cleanups l" "asyncs l' = asyncs l" "idleall l' = idleall l" "postfork l' = postfork l"
    "ev_rt_now l' = ev_rt_now l" "w_sent l' = w_sent l" "w_interval l' = w_interval l"
    "w_offset l' = w_offset l" "w_resched l' = w_resched l"
proof -
  obtain P Q p where l': "l' = l\<lparr>w_pending := P, pendings := Q, pendingpri := p\<rparr>"
    using assms unfolding same_but_pending_def by blast
  show "epoll_eperms l' = epoll_eperms l" "epoll_eventmax l' = epoll_eventmax l"
    "idles l' = idles l" "prepares l' = prepares l" "checks l' = checks l" "forks l' = forks l"
    "cleanups l' = cleanups l" "asyncs l' = asyncs l" "idleall l' = idleall l" "postfork l' = postfork l"
    "ev_rt_now l' = ev_rt_now l" "w_sent l' = w_sent l" "w_interval l' = w_interval l"
    "w_offset l' = w_offset l" "w_resched l' = w_resched l"
    by (simp_all add: l')
qed

lemma pend_okD:
  assumes "pend_ok l" "w_pending l w \<noteq> 0"
  shows "prio_ok l w" "w_pending l w - 1 < length (pend_queue l w)"
    "anp_w (pend_queue l w ! (w_pending l w - 1)) = w"
    "nat (ABSPRI l w) < length (pendings l)" "\<not> ABSPRI l w < 0" "w \<noteq> pending_w"
proof -
  have a: "prio_ok l w" "w_pending l w \<le> length (pend_queue l w)"
    "anp_w (pend_queue l w ! (w_pending l w - 1)) = w"
    using assms unfolding pend_ok_def by blast+
  then show "prio_ok l w" "w_pending l w - 1 < length (pend_queue l w)"
    "anp_w (pend_queue l w ! (w_pending l w - 1)) = w"
    using assms(2) by linarith+
  show "nat (ABSPRI l w) < length (pendings l)" "\<not> ABSPRI l w < 0" "w \<noteq> pending_w"
  proof -
    have "length (pendings l) = NUMPRI" "w_pending l pending_w = 0"
      using assms(1) unfolding pend_ok_def by blast+
    then show "nat (ABSPRI l w) < length (pendings l)" "\<not> ABSPRI l w < 0" "w \<noteq> pending_w"
      using a(1) assms(2) unfolding prio_ok_def by auto
  qed
qed

lemma ev_feed_event_correct:
  assumes ok: "pend_ok l" and pr: "prio_ok l w" and nd: "w \<noteq> pending_w"
  shows "\<exists>l'. ev_feed_event w revents l = Some l' \<and> pend_ok l' \<and> same_but_pending l l'
    \<and> pending_events l' w = Some (case pending_events l w of None \<Rightarrow> revents | Some e \<Rightarrow> e OR revents)
    \<and> (\<forall>x. x \<noteq> w \<longrightarrow> pending_events l' x = pending_events l x)"
proof -
  let ?pri = "nat (ABSPRI l w)"
  let ?q = "pendings l ! ?pri"
  have len: "length (pendings l) = NUMPRI" using ok by (simp add: pend_ok_def)
  have pri: "\<not> (ABSPRI l w < 0 \<or> length (pendings l) \<le> ?pri)" "?pri < length (pendings l)"
    using pr len by (auto simp: prio_ok_def)
  show ?thesis
  proof (cases "w_pending l w = 0")
    case False
    let ?i = "w_pending l w - 1"
    define Q where "Q = (pendings l)[?pri := ?q[?i := (?q ! ?i)\<lparr>anp_events := anp_events (?q ! ?i) OR revents\<rparr>]]"
    define l' where "l' = l\<lparr>pendings := Q, pendingpri := NUMPRI - 1\<rparr>"
    have i: "?i < length ?q" by (rule pend_okD(2)[OF ok False])
    have Qw: "anp_w (Q ! p ! j) = anp_w (pendings l ! p ! j)" for p j
      using pri i by (cases "p = ?pri"; cases "j = ?i") (auto simp: Q_def nth_list_update)
    have Ql: "length Q = length (pendings l)" "length (Q ! p) = length (pendings l ! p)" for p
      using pri by (cases "p = ?pri", auto simp: Q_def)+
    have "ev_feed_event w revents l = Some l'"
      using pri(1) False i by (simp add: ev_feed_event_def Let_def l'_def Q_def)
    moreover have "pend_ok l'"
      using ok by (simp add: pend_ok_def l'_def prio_ok_def ABSPRI_def Qw Ql)
    moreover have "same_but_pending l l'"
      unfolding same_but_pending_def l'_def
      by (rule exI[of _ "w_pending l"], rule exI[of _ Q], rule exI[of _ "NUMPRI - 1"]) simp
    moreover have "pending_events l' w = Some (case pending_events l w of None \<Rightarrow> revents | Some e \<Rightarrow> e OR revents)"
      using False pri i by (simp add: pending_events_def l'_def ABSPRI_def[abs_def] Q_def)
    moreover have "pending_events l' x = pending_events l x" if "x \<noteq> w" for x
    proof (cases "w_pending l x = 0")
      case True
      then show ?thesis by (simp add: pending_events_def l'_def)
    next
      case nx: False
      have "\<not> (nat (ABSPRI l x) = ?pri \<and> w_pending l x - 1 = ?i)"
      proof
        assume "nat (ABSPRI l x) = ?pri \<and> w_pending l x - 1 = ?i"
        moreover have "anp_w (pend_queue l x ! (w_pending l x - 1)) = x"
          "anp_w (pend_queue l w ! (w_pending l w - 1)) = w"
          using pend_okD(3)[OF ok] nx False by auto
        ultimately show False using that by metis
      qed
      then show ?thesis using pri i nx
        by (auto simp: pending_events_def l'_def ABSPRI_def[abs_def] Q_def nth_list_update)
    qed
    ultimately show ?thesis by blast
  next
    case True
    define Q where "Q = (pendings l)[?pri := ?q @ [\<lparr>anp_w = w, anp_events = revents\<rparr>]]"
    define P where "P = (w_pending l)(w := Suc (length ?q))"
    define l' where "l' = l\<lparr>w_pending := P, pendings := Q, pendingpri := NUMPRI - 1\<rparr>"
    have new: "anp_w (pendings l ! p ! j) \<noteq> w" if "p < NUMPRI" "j < length (pendings l ! p)" for p j
      using ok that True nd unfolding pend_ok_def by (metis Suc_not_Zero)
    have Ql: "length Q = length (pendings l)" by (simp add: Q_def)
    have Qn: "Q ! p = (if p = ?pri then ?q @ [\<lparr>anp_w = w, anp_events = revents\<rparr>] else pendings l ! p)"
      if "p < NUMPRI" for p using that len pri by (simp add: Q_def)
    have L: "ABSPRI l' x = ABSPRI l x" "pendings l' = Q" "w_pending l' = P" for x
      by (simp_all add: ABSPRI_def l'_def)
    have ext: "\<exists>r. Q ! p = pendings l ! p @ r" if "p < NUMPRI" for p
      using Qn[OF that] by (cases "p = ?pri") auto
    have "ev_feed_event w revents l = Some l'"
      using pri(1) True by (simp add: ev_feed_event_def Let_def l'_def Q_def P_def set_pending_def)
    moreover have "pend_ok l'"
      unfolding pend_ok_def L prio_ok_def
    proof (intro conjI allI impI)
      show "length Q = NUMPRI" using len Ql by simp
      show "P pending_w = 0" using ok nd by (simp add: P_def pend_ok_def)
    next
      fix x assume x: "P x \<noteq> 0"
      have "(0 \<le> ABSPRI l x \<and> nat (ABSPRI l x) < NUMPRI) \<and> P x \<le> length (Q ! nat (ABSPRI l x)) \<and>
        anp_w (Q ! nat (ABSPRI l x) ! (P x - 1)) = x"
      proof (cases "x = w")
        case True
        then show ?thesis using pr Qn[of ?pri] by (simp add: prio_ok_def P_def)
      next
        case False
        then have x0: "w_pending l x \<noteq> 0" using x by (simp add: P_def)
        note xo = pend_okD[OF ok x0]
        then obtain r where "Q ! nat (ABSPRI l x) = pend_queue l x @ r"
          using ext[of "nat (ABSPRI l x)"] by (auto simp: prio_ok_def)
        then show ?thesis using xo(1,2,3) False x0 by (simp add: prio_ok_def P_def nth_append)
      qed
      then show "0 \<le> ABSPRI l x" "nat (ABSPRI l x) < NUMPRI" "P x \<le> length (Q ! nat (ABSPRI l x))"
        "anp_w (Q ! nat (ABSPRI l x) ! (P x - 1)) = x" by auto
    next
      fix p j assume p: "p < NUMPRI" and j: "j < length (Q ! p)" and np: "anp_w (Q ! p ! j) \<noteq> pending_w"
      let ?x = "anp_w (Q ! p ! j)"
      have "P ?x = Suc j \<and> ABSPRI l ?x = int p"
      proof (cases "p = ?pri \<and> j = length ?q")
        case True
        then show ?thesis using Qn[OF p] pr by (simp add: P_def prio_ok_def)
      next
        case False
        then have jj: "j < length (pendings l ! p)" and e: "?x = anp_w (pendings l ! p ! j)"
          using j Qn[OF p] by (auto simp: nth_append split: if_splits)
        have "w_pending l ?x = Suc j \<and> ABSPRI l ?x = int p"
          using ok p jj np unfolding e pend_ok_def by blast
        moreover have "?x \<noteq> w" using new[OF p jj] e by simp
        ultimately show ?thesis by (simp add: P_def)
      qed
      then show "P ?x = Suc j" "ABSPRI l ?x = int p" by auto
    qed
    moreover have "same_but_pending l l'"
      unfolding same_but_pending_def l'_def by blast
    moreover have "pending_events l' w = Some (case pending_events l w of None \<Rightarrow> revents | Some e \<Rightarrow> e OR revents)"
      using True Qn[of ?pri] pr by (simp add: pending_events_def L prio_ok_def P_def)
    moreover have "pending_events l' x = pending_events l x" if "x \<noteq> w" for x
    proof (cases "w_pending l x = 0")
      case x0: True
      then show ?thesis using that by (simp add: pending_events_def L P_def)
    next
      case False
      note xo = pend_okD[OF ok False]
      then obtain r where "Q ! nat (ABSPRI l x) = pend_queue l x @ r"
        using ext[of "nat (ABSPRI l x)"] by (auto simp: prio_ok_def)
      then show ?thesis using that xo(2) by (simp add: pending_events_def L P_def nth_append)
    qed
    ultimately show ?thesis by blast
  qed
qed

lemma clear_pending_correct:
  assumes ok: "pend_ok l"
  shows "\<exists>l'. clear_pending w l = Some l' \<and> pend_ok l' \<and> same_but_pending l l'
    \<and> w_pending l' w = 0 \<and> (\<forall>x. x \<noteq> w \<longrightarrow> pending_events l' x = pending_events l x)"
proof (cases "w_pending l w = 0")
  case True
  then show ?thesis using ok by (simp add: clear_pending_def)
next
  case False
  let ?pri = "nat (ABSPRI l w)" and ?i = "w_pending l w - 1"
  note wo = pend_okD[OF ok False]
  define Q where "Q = (pendings l)[?pri := (pendings l ! ?pri)[?i := (pendings l ! ?pri ! ?i)\<lparr>anp_w := pending_w\<rparr>]]"
  define P where "P = (w_pending l)(w := 0)"
  define l' where "l' = l\<lparr>w_pending := P, pendings := Q, pendingpri := pendingpri l\<rparr>"
  have L: "ABSPRI l' x = ABSPRI l x" "pendings l' = Q" "w_pending l' = P" for x
    by (simp_all add: ABSPRI_def l'_def)
  have Ql: "length Q = length (pendings l)" "length (Q ! p) = length (pendings l ! p)" for p
    using wo by (cases "p = ?pri", auto simp: Q_def)+
  have Qn: "Q ! p ! j = (if p = ?pri \<and> j = ?i then (pendings l ! ?pri ! ?i)\<lparr>anp_w := pending_w\<rparr> else pendings l ! p ! j)" for p j
    using wo by (cases "p = ?pri") (auto simp: Q_def nth_list_update)
  have other: "\<not> (nat (ABSPRI l x) = ?pri \<and> w_pending l x - 1 = ?i)" if "x \<noteq> w" "w_pending l x \<noteq> 0" for x
    using pend_okD(3)[OF ok that(2)] wo(3) that(1) by metis
  have "clear_pending w l = Some l'"
    using False wo by (simp add: clear_pending_def Let_def l'_def P_def Q_def set_pending_def)
  moreover have "same_but_pending l l'" unfolding same_but_pending_def l'_def by blast
  moreover have "pend_ok l'"
    unfolding pend_ok_def L prio_ok_def
  proof (intro conjI allI impI)
    show "length Q = NUMPRI" "P pending_w = 0"
      using ok by (simp_all add: Ql P_def pend_ok_def)
  next
    fix x assume "P x \<noteq> 0"
    then have x: "x \<noteq> w" "w_pending l x \<noteq> 0" by (auto simp: P_def split: if_splits)
    note xo = pend_okD[OF ok x(2)]
    have "w_pending l x \<le> length (pend_queue l x)" using xo(2) x(2) by linarith
    then show "0 \<le> ABSPRI l x" "nat (ABSPRI l x) < NUMPRI" "P x \<le> length (Q ! nat (ABSPRI l x))"
      "anp_w (Q ! nat (ABSPRI l x) ! (P x - 1)) = x"
      using xo(1,3) other[OF x] x by (auto simp: prio_ok_def P_def Ql Qn)
  next
    fix p j assume p: "p < NUMPRI" and j: "j < length (Q ! p)" and np: "anp_w (Q ! p ! j) \<noteq> pending_w"
    have nj: "\<not> (p = ?pri \<and> j = ?i)" using np by (auto simp: Qn)
    then have e: "Q ! p ! j = pendings l ! p ! j" by (auto simp: Qn)
    have old: "w_pending l (anp_w (pendings l ! p ! j)) = Suc j \<and> ABSPRI l (anp_w (pendings l ! p ! j)) = int p"
      using ok p j np unfolding e pend_ok_def Ql by blast
    have "anp_w (pendings l ! p ! j) \<noteq> w"
    proof
      assume "anp_w (pendings l ! p ! j) = w"
      with old have "w_pending l w = Suc j" "ABSPRI l w = int p" by auto
      with nj show False by simp
    qed
    with old show "P (anp_w (Q ! p ! j)) = Suc j" "ABSPRI l (anp_w (Q ! p ! j)) = int p"
      by (auto simp: e P_def)
  qed
  moreover have "w_pending l' w = 0" by (simp add: L P_def)
  moreover have "pending_events l' x = pending_events l x" if "x \<noteq> w" for x
    using that other[OF that] by (auto simp: pending_events_def L P_def Qn)
  ultimately show ?thesis by blast
qed

text \<open>Events are only lost when they are cleared: \<open>ev_clear_pending\<close> returns them.\<close>

lemma ev_clear_pending_correct:
  assumes ok: "pend_ok l"
  shows "\<exists>l'. ev_clear_pending w l = Some (l', case pending_events l w of None \<Rightarrow> 0 | Some e \<Rightarrow> e)
    \<and> pend_ok l' \<and> same_but_pending l l'
    \<and> pending_events l' w = None \<and> (\<forall>x. x \<noteq> w \<longrightarrow> pending_events l' x = pending_events l x)"
proof -
  obtain l' where l': "clear_pending w l = Some l'" "pend_ok l'" "same_but_pending l l'"
    "w_pending l' w = 0" "\<forall>x. x \<noteq> w \<longrightarrow> pending_events l' x = pending_events l x"
    using clear_pending_correct[OF ok] by blast
  show ?thesis
  proof (cases "w_pending l w = 0")
    case True
    then show ?thesis using ok by (simp add: ev_clear_pending_def pending_events_def)
  next
    case False
    with l' show ?thesis by (simp add: ev_clear_pending_def pending_events_def)
  qed
qed

text \<open>Clamping the priority of a watcher that is not pending yet, or has a legal one.\<close>

lemma pri_adjust_fields:
  "w_pending (pri_adjust w l) = w_pending l" "pendings (pri_adjust w l) = pendings l"
  "x \<noteq> w \<Longrightarrow> ABSPRI (pri_adjust w l) x = ABSPRI l x"
  "prio_ok l w \<Longrightarrow> ABSPRI (pri_adjust w l) w = ABSPRI l w"
  "prio_ok (pri_adjust w l) w"
  by (auto simp: pri_adjust_def Let_def ABSPRI_def prio_ok_def EV_MINPRI_def EV_MAXPRI_def NUMPRI_def)

lemma pend_ok_cong:
  assumes "pend_ok l" "w_pending l' = w_pending l" "pendings l' = pendings l"
    and "\<And>x. w_pending l x \<noteq> 0 \<Longrightarrow> ABSPRI l' x = ABSPRI l x"
  shows "pend_ok l'" and "pending_events l' x = pending_events l x"
proof -
  show "pend_ok l'"
    unfolding pend_ok_def prio_ok_def assms(2,3)
  proof (intro conjI allI impI)
    show "length (pendings l) = NUMPRI" "w_pending l pending_w = 0"
      using assms(1) unfolding pend_ok_def by blast+
  next
    fix x assume x: "w_pending l x \<noteq> 0"
    note xo = pend_okD[OF assms(1) x]
    have "w_pending l x \<le> length (pend_queue l x)" using xo(2) x by linarith
    then show "0 \<le> ABSPRI l' x" "nat (ABSPRI l' x) < NUMPRI"
      "w_pending l x \<le> length (pendings l ! nat (ABSPRI l' x))"
      "anp_w (pendings l ! nat (ABSPRI l' x) ! (w_pending l x - 1)) = x"
      using xo(1,3) assms(4)[OF x] by (auto simp: prio_ok_def)
  next
    fix p j assume "p < NUMPRI" "j < length (pendings l ! p)" "anp_w (pendings l ! p ! j) \<noteq> pending_w"
    then have "w_pending l (anp_w (pendings l ! p ! j)) = Suc j \<and> ABSPRI l (anp_w (pendings l ! p ! j)) = int p"
      using assms(1) unfolding pend_ok_def by blast
    then show "w_pending l (anp_w (pendings l ! p ! j)) = Suc j" "ABSPRI l' (anp_w (pendings l ! p ! j)) = int p"
      using assms(4) by auto
  qed
  show "pending_events l' x = pending_events l x"
    using assms(2,3,4) by (simp add: pending_events_def)
qed

lemma ev_start_correct:
  assumes "pend_ok l"
  shows "pend_ok (ev_start w n l)" and "prio_ok (ev_start w n l) w"
    and "x \<noteq> w \<Longrightarrow> ABSPRI (ev_start w n l) x = ABSPRI l x"
    and "pending_events (ev_start w n l) x = pending_events l x"
proof -
  have A: "ABSPRI (ev_start w n l) y = ABSPRI (pri_adjust w l) y" for y
    by (simp add: ev_start_def ev_ref_def set_active_def ABSPRI_def)
  have f: "w_pending (ev_start w n l) = w_pending l" "pendings (ev_start w n l) = pendings l"
    by (simp_all add: ev_start_def ev_ref_def set_active_def pri_adjust_fields)
  have p: "ABSPRI (ev_start w n l) y = ABSPRI l y" if "w_pending l y \<noteq> 0" for y
    using pend_okD(1)[OF assms that] by (cases "y = w") (simp_all add: A pri_adjust_fields)
  show "pend_ok (ev_start w n l)" "pending_events (ev_start w n l) x = pending_events l x"
    by (rule pend_ok_cong[OF assms f p]; assumption)+
  show "prio_ok (ev_start w n l) w" using pri_adjust_fields(5)[of w l] by (simp add: prio_ok_def A)
  show "x \<noteq> w \<Longrightarrow> ABSPRI (ev_start w n l) x = ABSPRI l x" by (simp add: A pri_adjust_fields)
qed

subsection \<open>Growing an array\<close>

declare next_double.simps [simp del]

lemma next_double_ge: "0 < ncur \<Longrightarrow> ncur < next_double ncur cnt \<and> cnt \<le> next_double ncur cnt"
proof (induction ncur cnt rule: next_double.induct)
  case (1 ncur cnt)
  show ?case
  proof (cases "cnt > 2 * ncur")
    case True
    with 1 have "2 * ncur < next_double (2 * ncur) cnt \<and> cnt \<le> next_double (2 * ncur) cnt" by simp
    with True 1(2) show ?thesis by (subst (1 2) next_double.simps) auto
  next
    case False
    with 1(2) show ?thesis by (subst (1 2) next_double.simps) auto
  qed
qed

text \<open>The new size is at least the size asked for, and larger than the old one.\<close>

lemma array_nextsize_ge:
  assumes "0 < elem"
  shows "cnt \<le> array_nextsize elem cur cnt" and "cur < array_nextsize elem cur cnt"
proof -
  define n where "n = next_double (cur + 1) cnt"
  have n: "cur + 1 < n" "cnt \<le> n" using next_double_ge[of "cur + 1" cnt] by (auto simp: n_def)
  have "n \<le> array_nextsize elem cur cnt"
  proof (cases "elem * n > MALLOC_ROUND - 8 * 4")
    case True
    define x where "x = n * elem + elem + (MALLOC_ROUND - 1) + 8 * 4"
    have "x mod MALLOC_ROUND \<le> MALLOC_ROUND - 1" by (simp add: MALLOC_ROUND_def)
    then have "(n + 1) * elem \<le> x - x mod MALLOC_ROUND - 8 * 4" by (simp add: x_def MALLOC_ROUND_def)
    then have "n + 1 \<le> (x - x mod MALLOC_ROUND - 8 * 4) div elem"
      using assms by (simp add: less_eq_div_iff_mult_less_eq)
    with True show ?thesis
      unfolding array_nextsize_def Let_def n_def[symmetric] by (simp add: x_def)
  next
    case False
    then show ?thesis unfolding array_nextsize_def Let_def n_def[symmetric] by simp
  qed
  with n show "cnt \<le> array_nextsize elem cur cnt" "cur < array_nextsize elem cur cnt" by auto
qed

lemma anfds_needsize_correct:
  "cnt \<le> length (anfds_needsize cnt xs)" "length xs \<le> length (anfds_needsize cnt xs)"
  "fd < length xs \<Longrightarrow> anfds_needsize cnt xs ! fd = xs ! fd"
  "length xs \<le> fd \<Longrightarrow> fd < length (anfds_needsize cnt xs) \<Longrightarrow> anfds_needsize cnt xs ! fd = anfd_zero"
  using array_nextsize_ge[of SIZEOF_ANFD cnt "length xs"]
  by (auto simp: anfds_needsize_def SIZEOF_ANFD_def nth_append)

subsection \<open>The watchers of the file descriptors\<close>

text \<open>
  One descriptor: its list holds distinct, active io watchers for it; its \<open>reify\<close> field says
  whether it is in the set \<open>C\<close> of changed descriptors; when it is not, the events it is
  registered for are those its watchers want.
\<close>

definition anfd_ok :: "'e ev_loop \<Rightarrow> nat set \<Rightarrow> nat \<Rightarrow> anfd \<Rightarrow> bool" where
  "anfd_ok l C fd a \<longleftrightarrow> distinct (anfd_head a)
   \<and> (\<forall>w \<in> set (anfd_head a). w_kind l w = Ev_Io \<and> w_active l w = 1 \<and> w_fd l w = int fd)
   \<and> (anfd_reify a \<noteq> 0 \<longleftrightarrow> fd \<in> C)
   \<and> (fd \<notin> C \<longrightarrow> anfd_events a = wanted_events l (anfd_head a))"

definition io_active_ok :: "'e ev_loop \<Rightarrow> wid \<Rightarrow> bool" where
  "io_active_ok l w \<longleftrightarrow> 0 \<le> w_fd l w \<and> nat (w_fd l w) < length (anfds l)
     \<and> w \<in> set (anfd_head (anfds l ! nat (w_fd l w))) \<and> prio_ok l w"

text \<open>The changes from index \<open>j\<close> on are still to be reified.\<close>

definition io_from :: "nat \<Rightarrow> 'e ev_loop \<Rightarrow> bool" where
  "io_from j l \<longleftrightarrow> w_kind l pending_w = Ev_Prepare
   \<and> j \<le> length (fdchanges l) \<and> distinct (drop j (fdchanges l))
   \<and> (\<forall>fd \<in> set (drop j (fdchanges l)). fd < length (anfds l))
   \<and> (\<forall>fd < length (anfds l). anfd_ok l (set (drop j (fdchanges l))) fd (anfds l ! fd))
   \<and> (\<forall>w. w_kind l w = Ev_Io \<and> w_active l w \<noteq> 0 \<longrightarrow> io_active_ok l w)"

abbreviation io_ok :: "'e ev_loop \<Rightarrow> bool" where "io_ok \<equiv> io_from 0"

definition fd_inv :: "nat \<Rightarrow> 'e ev_loop \<Rightarrow> bool" where
  "fd_inv j l \<longleftrightarrow> io_from j l \<and> pend_ok l"

lemma io_from_cong:
  assumes "io_from j l" "w_kind l' = w_kind l" "fdchanges l' = fdchanges l" "anfds l' = anfds l"
    "w_fd l' = w_fd l" "w_events l' = w_events l" "w_priority l' = w_priority l"
    and "\<And>w. w_kind l w = Ev_Io \<Longrightarrow> w_active l' w = w_active l w"
  shows "io_from j l'"
proof -
  have ok: "anfd_ok l' C fd a = anfd_ok l C fd a" for C fd a
    using assms(2,5,6,8) by (auto simp: anfd_ok_def wanted_events_def)
  have "io_active_ok l' w = io_active_ok l w" for w
    using assms by (simp add: io_active_ok_def prio_ok_def ABSPRI_def)
  then have "\<forall>w. w_kind l' w = Ev_Io \<and> w_active l' w \<noteq> 0 \<longrightarrow> io_active_ok l' w"
    using assms(1,2,8) unfolding io_from_def by metis
  with assms(1-4) ok show ?thesis by (simp add: io_from_def)
qed

lemma io_from_same: "io_from j l \<Longrightarrow> same_but_pending l l' \<Longrightarrow> io_from j l'"
  by (rule io_from_cong) (simp_all add: same_but_pendingD)

lemma wanted_events_cong:
  "(\<And>w. w \<in> set ws \<Longrightarrow> w_events l' w = w_events l w) \<Longrightarrow> wanted_events l' ws = wanted_events l ws"
  unfolding wanted_events_def by (rule fold_cong) auto

text \<open>What an operation on io watchers leaves alone.\<close>

definition io_frame :: "'e ev_loop \<Rightarrow> 'e ev_loop \<Rightarrow> bool" where
  "io_frame l l' \<longleftrightarrow> w_kind l' = w_kind l \<and> timers l' = timers l \<and> timercnt l' = timercnt l
   \<and> periodics l' = periodics l \<and> periodiccnt l' = periodiccnt l \<and> w_at l' = w_at l
   \<and> (\<forall>w. w_kind l w \<noteq> Ev_Io \<longrightarrow> w_active l' w = w_active l w \<and> w_priority l' w = w_priority l w)"

lemma io_frame_refl [simp]: "io_frame l l"
  by (simp add: io_frame_def)

lemma io_frame_trans: "io_frame a b \<Longrightarrow> io_frame b c \<Longrightarrow> io_frame a c"
  by (simp add: io_frame_def)

lemma io_frame_same: "same_but_pending l l' \<Longrightarrow> io_frame l l'"
  by (simp add: io_frame_def same_but_pendingD)

text \<open>Marking a descriptor as changed.\<close>

lemma fd_change_correct:
  assumes fd: "fd < length (anfds l)" and flags: "anfd_reify (anfds l ! fd) OR flags \<noteq> 0"
    and kind: "w_kind l pending_w = Ev_Prepare"
    and j: "j \<le> length (fdchanges l)" "distinct (drop j (fdchanges l))"
      "\<forall>fd \<in> set (drop j (fdchanges l)). fd < length (anfds l)"
    and others: "\<forall>f < length (anfds l). f \<noteq> fd \<longrightarrow> anfd_ok l (set (drop j (fdchanges l))) f (anfds l ! f)"
    and self: "distinct (anfd_head (anfds l ! fd))"
      "\<forall>w \<in> set (anfd_head (anfds l ! fd)). w_kind l w = Ev_Io \<and> w_active l w = 1 \<and> w_fd l w = int fd"
      "anfd_reify (anfds l ! fd) \<noteq> 0 \<longleftrightarrow> fd \<in> set (drop j (fdchanges l))"
    and act: "\<forall>w. w_kind l w = Ev_Io \<and> w_active l w \<noteq> 0 \<longrightarrow> io_active_ok l w"
  shows "\<exists>l'. fd_change fd flags l = Some l' \<and> io_from j l' \<and> fd \<in> set (drop j (fdchanges l'))
    \<and> (\<exists>A F. l' = l\<lparr>anfds := A, fdchanges := F\<rparr>) \<and> length (anfds l') = length (anfds l)
    \<and> (\<forall>f < length (anfds l). anfd_head (anfds l' ! f) = anfd_head (anfds l ! f))
    \<and> length (fdchanges l') \<le> Suc (length (fdchanges l))"
proof -
  define A where "A = (anfds l)[fd := (anfds l ! fd)\<lparr>anfd_reify := anfd_reify (anfds l ! fd) OR flags\<rparr>]"
  define F where "F = (if anfd_reify (anfds l ! fd) = 0 then fdchanges l @ [fd] else fdchanges l)"
  define l' where "l' = l\<lparr>anfds := A, fdchanges := F\<rparr>"
  have r: "fd_change fd flags l = Some l'"
    using fd by (simp add: fd_change_def Let_def set_anfd_def l'_def A_def F_def)
  have Al: "length A = length (anfds l)" by (simp add: A_def)
  have An: "A ! f = (if f = fd then (anfds l ! fd)\<lparr>anfd_reify := anfd_reify (anfds l ! fd) OR flags\<rparr> else anfds l ! f)"
    if "f < length (anfds l)" for f using that by (simp add: A_def nth_list_update)
  have C: "set (drop j F) = insert fd (set (drop j (fdchanges l)))" "distinct (drop j F)" "j \<le> length F"
    using j self(3) by (auto simp: F_def)
  have ok: "anfd_ok l' (set (drop j F)) f (A ! f)" if f: "f < length (anfds l)" for f
  proof (cases "f = fd")
    case True
    then show ?thesis using self(1,2) flags An[OF f] by (simp add: anfd_ok_def l'_def C)
  next
    case False
    then show ?thesis using others f An[OF f] by (simp add: anfd_ok_def l'_def C wanted_events_def)
  qed
  have heads: "anfd_head (A ! f) = anfd_head (anfds l ! f)" if "f < length (anfds l)" for f
    using An[OF that] by simp
  have "io_active_ok l' w" if "w_kind l w = Ev_Io" "w_active l w \<noteq> 0" for w
    using act that heads by (simp add: io_active_ok_def l'_def Al prio_ok_def ABSPRI_def)
  then have "io_from j l'"
    using ok C j(3) fd kind by (simp add: io_from_def l'_def Al)
  moreover have "\<exists>A F. l' = l\<lparr>anfds := A, fdchanges := F\<rparr>" unfolding l'_def by blast
  moreover have "fdchanges l' = F" "anfds l' = A" by (simp_all add: l'_def)
  moreover have "length F \<le> Suc (length (fdchanges l))" by (simp add: F_def)
  ultimately show ?thesis using r C heads Al by simp
qed
lemma wlist_del_remove1: "wlist_del xs w = remove1 w xs"
  by (induction xs) auto

lemma or_one_nonzero: "(x :: mask8) OR (y OR 1) \<noteq> 0"
proof
  assume z: "x OR (y OR 1) = 0"
  have "bit (x OR (y OR 1)) 0" by (simp add: bit_simps)
  then show False unfolding z by simp
qed

definition legal_events :: "mask32 \<Rightarrow> bool" where
  "legal_events e \<longleftrightarrow> e AND NOT (EV__IOFDSET OR EV_READ OR EV_WRITE OR EV_ET) = 0"

text \<open>The number of watchers on the lists, and with it the work left to \<open>fd_reify\<close>.\<close>

definition listed :: "'e ev_loop \<Rightarrow> nat" where
  "listed l = sum_list (map (\<lambda>a. length (anfd_head a)) (anfds l))"

definition reify_work :: "'e ev_loop \<Rightarrow> nat" where
  "reify_work l = listed l + length (fdchanges l)"

lemma io_from_anfd:
  "io_from j l \<Longrightarrow> fd < length (anfds l) \<Longrightarrow> anfd_ok l (set (drop j (fdchanges l))) fd (anfds l ! fd)"
  by (simp add: io_from_def)

lemma io_from_listed:
  assumes "io_from j l" "fd < length (anfds l)" "w \<in> set (anfd_head (anfds l ! fd))"
  shows "w_kind l w = Ev_Io" "w_active l w = 1" "w_fd l w = int fd" "prio_ok l w" "w \<noteq> pending_w"
proof -
  show k: "w_kind l w = Ev_Io" "w_active l w = 1" "w_fd l w = int fd"
    using io_from_anfd[OF assms(1,2)] assms(3) by (auto simp: anfd_ok_def)
  then show "prio_ok l w" using assms(1) by (simp add: io_from_def io_active_ok_def)
  show "w \<noteq> pending_w" using k(1) assms(1) by (auto simp: io_from_def)
qed

lemma fd_change_events:
  "fd_change fd flags (l\<lparr>w_events := E\<rparr>) = map_option (\<lambda>s. s\<lparr>w_events := E\<rparr>) (fd_change fd flags l)"
  by (simp add: fd_change_def Let_def set_anfd_def)

lemma fd_change_w_events: "fd_change fd flags l = Some s \<Longrightarrow> w_events s = w_events l"
  by (auto simp: fd_change_def Let_def set_anfd_def split: if_splits)

lemma ev_io_start_correct:
  assumes inv: "fd_inv j l" and kind: "w_kind l w = Ev_Io" and idle: "w_active l w = 0"
    and fd: "0 \<le> w_fd l w" and legal: "legal_events (w_events l w)"
  shows "\<exists>l'. ev_io_start w l = Some l' \<and> fd_inv j l' \<and> io_frame l l' \<and> w_active l' w = 1
    \<and> nat (w_fd l w) \<in> set (drop j (fdchanges l'))
    \<and> w_fd l' = w_fd l \<and> (\<forall>x. pending_events l' x = pending_events l x)"
proof -
  have io: "io_from j l" and pend: "pend_ok l" using inv by (auto simp: fd_inv_def)
  define n where "n = nat (w_fd l w)"
  define l1 where "l1 = ev_start w 1 l"
  define A2 where "A2 = anfds_needsize (n + 1) (anfds l)"
  define l2 where "l2 = l1\<lparr>anfds := A2\<rparr>"
  note st = ev_start_correct[OF pend, where w = w and n = 1, folded l1_def]
  have l1: "anfds l1 = anfds l" "w_kind l1 = w_kind l" "w_fd l1 = w_fd l" "w_events l1 = w_events l"
    "fdchanges l1 = fdchanges l" "w_active l1 = (w_active l)(w := 1)" "timers l1 = timers l"
    "timercnt l1 = timercnt l" "periodics l1 = periodics l" "periodiccnt l1 = periodiccnt l" "w_at l1 = w_at l"
    by (simp_all add: l1_def ev_start_def ev_ref_def set_active_def pri_adjust_def Let_def)
  note grow = anfds_needsize_correct[where cnt = "n + 1" and xs = "anfds l", folded A2_def]
  have n: "n < length A2" using grow(1) by simp
  have notin: "w \<notin> set (anfd_head (anfds l ! f))" if "f < length (anfds l)" for f
    using io_from_listed(2)[OF io that] idle by auto
  have A2n: "A2 ! f = (if f < length (anfds l) then anfds l ! f else anfd_zero)" if "f < length A2" for f
    using grow that by auto
  have notin2: "w \<notin> set (anfd_head (A2 ! f))" if "f < length A2" for f
    using notin A2n[OF that] by (simp add: anfd_zero_def)
  define l3 where "l3 = set_anfd n (\<lambda>a. a\<lparr>anfd_head := wlist_add (anfd_head a) w\<rparr>) l2"
  have l3: "anfds l3 = A2[n := (A2 ! n)\<lparr>anfd_head := w # anfd_head (A2 ! n)\<rparr>]"
    "w_kind l3 = w_kind l" "w_fd l3 = w_fd l" "w_events l3 = w_events l" "fdchanges l3 = fdchanges l"
    "w_active l3 = (w_active l)(w := 1)" "w_priority l3 = w_priority l1" "w_pending l3 = w_pending l1"
    "pendings l3 = pendings l1" "timers l3 = timers l" "timercnt l3 = timercnt l"
    "periodics l3 = periodics l" "periodiccnt l3 = periodiccnt l" "w_at l3 = w_at l"
    by (simp_all add: l3_def l2_def set_anfd_def wlist_add_def l1)
  define ev where "ev = w_events l w AND NOT EV__IOFDSET"
  text \<open>The state with the event mask already cleaned; the code does it after \<open>fd_change\<close>.\<close>
  define l3' where "l3' = l3\<lparr>w_events := (w_events l)(w := ev)\<rparr>"
  have l3'f: "anfds l3' = A2[n := (A2 ! n)\<lparr>anfd_head := w # anfd_head (A2 ! n)\<rparr>]" "fdchanges l3' = fdchanges l"
    "w_kind l3' = w_kind l" "w_fd l3' = w_fd l" "w_active l3' = (w_active l)(w := 1)"
    by (simp_all add: l3'_def l3)
  have nfd: "w_fd l w = int n" using fd by (simp add: n_def)
  let ?flags = "ucast (w_events l w AND EV__IOFDSET) OR EV_ANFD_REIFY :: mask8"
  let ?C = "set (drop j (fdchanges l))"
  have bit: "x OR ?flags \<noteq> 0" for x by (simp add: EV_ANFD_REIFY_def or_one_nonzero)
  have W: "wanted_events l3' (anfd_head (A2 ! f)) = wanted_events l (anfd_head (A2 ! f))" if "f < length A2" for f
    using notin2[OF that] by (intro wanted_events_cong) (auto simp: l3'_def)
  have Aok: "anfd_ok l3' ?C f (A2 ! f)" if f: "f < length A2" "f \<noteq> n" for f
  proof (cases "f < length (anfds l)")
    case True
    have "w \<notin> set (anfd_head (anfds l ! f))" by (rule notin[OF True])
    then show ?thesis
      using io_from_anfd[OF io True] W[OF f(1)] A2n[OF f(1)] True by (auto simp: anfd_ok_def l3'_def l3)
  next
    case False
    have "f \<notin> ?C" using io False unfolding io_from_def by auto
    then show ?thesis using False A2n[OF f(1)] by (simp add: anfd_ok_def anfd_zero_def wanted_events_def)
  qed
  have heads: "set (anfd_head (anfds l3' ! f)) = (if f = n then insert w (set (anfd_head (A2 ! n))) else set (anfd_head (A2 ! f)))"
    if "f < length A2" for f using that by (simp add: l3'_def l3 nth_list_update)
  have self: "anfds l3' ! n = (A2 ! n)\<lparr>anfd_head := w # anfd_head (A2 ! n)\<rparr>"
    using n by (simp add: l3'_def l3)
  have listed: "w_kind l x = Ev_Io \<and> w_active l x = 1 \<and> w_fd l x = int n \<and> x \<noteq> w" if "x \<in> set (anfd_head (A2 ! n))" for x
    using that A2n[OF n] io_from_listed[OF io, of n x] notin2[OF n] by (auto simp: anfd_zero_def split: if_splits)
  have act: "io_active_ok l3' x" if x: "w_kind l3' x = Ev_Io" "w_active l3' x \<noteq> 0" for x
  proof (cases "x = w")
    case True
    then show ?thesis using n st(2) fd heads[OF n]
      by (simp add: io_active_ok_def l3'_def l3 n_def[symmetric] prio_ok_def ABSPRI_def)
  next
    case False
    then have xo: "io_active_ok l x" using x io by (auto simp: io_from_def l3'_def l3)
    then have f: "nat (w_fd l x) < length A2" using grow(2) by (auto simp: io_active_ok_def)
    have "ABSPRI l3' x = ABSPRI l x" using st(3)[OF False] by (simp add: ABSPRI_def l3'_def l3)
    then show ?thesis using xo f heads[OF f] A2n[OF f]
      by (auto simp: io_active_ok_def prio_ok_def) (auto simp: l3'_def l3)
  qed
  have "\<exists>l'. fd_change n ?flags l3' = Some l' \<and> io_from j l' \<and> n \<in> set (drop j (fdchanges l'))
    \<and> (\<exists>A F. l' = l3'\<lparr>anfds := A, fdchanges := F\<rparr>) \<and> length (anfds l') = length (anfds l3')
    \<and> (\<forall>f < length (anfds l3'). anfd_head (anfds l' ! f) = anfd_head (anfds l3' ! f))
    \<and> length (fdchanges l') \<le> Suc (length (fdchanges l3'))"
  proof (rule fd_change_correct)
    show "n < length (anfds l3')" using n by (simp add: l3'_def l3)
    show "anfd_reify (anfds l3' ! n) OR ?flags \<noteq> 0" by (rule bit)
    show "w_kind l3' pending_w = Ev_Prepare" "j \<le> length (fdchanges l3')" "distinct (drop j (fdchanges l3'))"
      using io by (simp_all add: io_from_def l3'_def l3)
    show "\<forall>fd \<in> set (drop j (fdchanges l3')). fd < length (anfds l3')"
      using io grow(2) by (auto simp: io_from_def l3'_def l3)
    show "\<forall>f < length (anfds l3'). f \<noteq> n \<longrightarrow> anfd_ok l3' (set (drop j (fdchanges l3'))) f (anfds l3' ! f)"
      unfolding l3'f using Aok by (simp add: nth_list_update)
    show "distinct (anfd_head (anfds l3' ! n))"
      using A2n[OF n] io_from_anfd[OF io, of n] notin2[OF n]
      by (auto simp: self anfd_ok_def anfd_zero_def)
    show "\<forall>x \<in> set (anfd_head (anfds l3' ! n)). w_kind l3' x = Ev_Io \<and> w_active l3' x = 1 \<and> w_fd l3' x = int n"
      unfolding self l3'f using listed kind nfd n by simp
    show "anfd_reify (anfds l3' ! n) \<noteq> 0 \<longleftrightarrow> n \<in> set (drop j (fdchanges l3'))"
    proof (cases "n < length (anfds l)")
      case True
      then show ?thesis using io_from_anfd[OF io True] A2n[OF n] unfolding self
        by (simp add: anfd_ok_def l3'_def l3)
    next
      case False
      then have "n \<notin> ?C" using io unfolding io_from_def by auto
      then show ?thesis using False A2n[OF n] unfolding self by (simp add: anfd_zero_def l3'_def l3)
    qed
    show "\<forall>w. w_kind l3' w = Ev_Io \<and> w_active l3' w \<noteq> 0 \<longrightarrow> io_active_ok l3' w" using act by blast
  qed
  then obtain A F where fc: "fd_change n ?flags l3' = Some (l3'\<lparr>anfds := A, fdchanges := F\<rparr>)"
    "io_from j (l3'\<lparr>anfds := A, fdchanges := F\<rparr>)" "n \<in> set (drop j F)"
    by auto
  define l' where "l' = l3'\<lparr>anfds := A, fdchanges := F\<rparr>"
  have ev3: "(w_events l)(w := ev) = (w_events l3)(w := w_events l3 w AND NOT EV__IOFDSET)"
    by (simp add: l3 ev_def)
  obtain s where s: "fd_change n ?flags l3 = Some s" "s\<lparr>w_events := (w_events l)(w := ev)\<rparr> = l'"
    using fc(1) unfolding l3'_def fd_change_events l'_def by auto
  have fin: "s\<lparr>w_events := (w_events s)(w := w_events s w AND NOT EV__IOFDSET)\<rparr> = l'"
    using s(2) ev3 fd_change_w_events[OF s(1)] by simp
  have hd: "take 1 (anfd_head (anfds l2 ! n)) \<noteq> [w]"
    using notin2[OF n] by (cases "anfd_head (A2 ! n)") (auto simp: l2_def)
  have "ev_io_start w l = Some l'"
    unfolding ev_io_start_def Let_def n_def[symmetric] l1_def[symmetric] l1(1) A2_def[symmetric]
      l2_def[symmetric] l3_def[symmetric] l3(4)
    using idle fd legal hd s(1) fin by (simp add: legal_events_def)
  moreover have same: "w_pending l' = w_pending l1" "pendings l' = pendings l1" "ABSPRI l' x = ABSPRI l1 x"
    "w_kind l' = w_kind l" "w_fd l' = w_fd l" "w_active l' = (w_active l)(w := 1)"
    "timers l' = timers l" "timercnt l' = timercnt l" "periodics l' = periodics l"
    "periodiccnt l' = periodiccnt l" "w_at l' = w_at l" "w_priority l' = w_priority l1" "fdchanges l' = F" for x
    by (simp_all add: l'_def l3'_def l3 ABSPRI_def)
  moreover have "fd_inv j l'"
    using fc(2) pend_ok_cong(1)[OF st(1) same(1,2)] same(3) by (simp add: fd_inv_def l'_def)
  moreover have "pending_events l' x = pending_events l x" for x
    using pend_ok_cong(2)[OF st(1) same(1,2)] same(3) st(4) by simp
  moreover have "w_priority l1 x = w_priority l x" if "x \<noteq> w" for x
    using st(3)[OF that] by (simp add: ABSPRI_def)
  ultimately show ?thesis using fc(3) kind by (auto simp: io_frame_def n_def)
qed

lemma sum_list_update_nat:
  "i < length xs \<Longrightarrow> sum_list (xs[i := (x :: nat)]) + xs ! i = sum_list xs + x"
  by (induction xs arbitrary: i) (auto split: nat.splits)

lemma listed_update:
  assumes "fd < length (anfds l)"
  shows "listed (l\<lparr>anfds := (anfds l)[fd := a]\<rparr>) + length (anfd_head (anfds l ! fd)) = listed l + length (anfd_head a)"
  using sum_list_update_nat[of fd "map (\<lambda>a. length (anfd_head a)) (anfds l)" "length (anfd_head a)"] assms
  by (simp add: listed_def map_update)

lemma listed_heads:
  assumes "length (anfds l') = length (anfds l)"
    and "\<forall>f < length (anfds l). anfd_head (anfds l' ! f) = anfd_head (anfds l ! f)"
  shows "listed l' = listed l"
proof -
  have "map (\<lambda>a. length (anfd_head a)) (anfds l') = map (\<lambda>a. length (anfd_head a)) (anfds l)"
    using assms by (intro nth_equalityI) auto
  then show ?thesis by (simp add: listed_def)
qed

text \<open>Stopping an active watcher: it leaves its list, and the descriptor is marked as changed.\<close>

lemma ev_io_stop_active:
  assumes inv: "fd_inv j l" and kind: "w_kind l w = Ev_Io" and act: "w_active l w \<noteq> 0"
  defines "n \<equiv> nat (w_fd l w)"
  shows "\<exists>l'. ev_io_stop w l = Some l' \<and> fd_inv j l' \<and> io_frame l l' \<and> w_active l' = (w_active l)(w := 0)
    \<and> w_pending l' w = 0 \<and> (\<forall>x. x \<noteq> w \<longrightarrow> pending_events l' x = pending_events l x)
    \<and> w_priority l' = w_priority l \<and> n \<in> set (drop j (fdchanges l')) \<and> length (anfds l') = length (anfds l)
    \<and> anfd_head (anfds l' ! n) = remove1 w (anfd_head (anfds l ! n)) \<and> reify_work l' \<le> reify_work l"
proof -
  have io: "io_from j l" and pend: "pend_ok l" using inv by (auto simp: fd_inv_def)
  have a: "io_active_ok l w" using io kind act by (simp add: io_from_def)
  then have n: "n < length (anfds l)" and nfd: "w_fd l w = int n" and inh: "w \<in> set (anfd_head (anfds l ! n))"
    by (auto simp: io_active_ok_def n_def)
  obtain l1 where l1: "clear_pending w l = Some l1" "pend_ok l1" "same_but_pending l l1"
    "w_pending l1 w = 0" "\<forall>x. x \<noteq> w \<longrightarrow> pending_events l1 x = pending_events l x"
    using clear_pending_correct[OF pend] by blast
  note s1 = same_but_pendingD[OF l1(3)]
  have io1: "io_from j l1" by (rule io_from_same[OF io l1(3)])
  define l2 where "l2 = set_anfd n (\<lambda>a. a\<lparr>anfd_head := wlist_del (anfd_head a) w\<rparr>) l1"
  define l3 where "l3 = ev_stop w l2"
  define a' where "a' = (anfds l ! n)\<lparr>anfd_head := remove1 w (anfd_head (anfds l ! n))\<rparr>"
  have l3: "anfds l3 = (anfds l)[n := a']" "w_kind l3 = w_kind l" "w_fd l3 = w_fd l"
    "w_events l3 = w_events l" "fdchanges l3 = fdchanges l" "w_active l3 = (w_active l)(w := 0)"
    "w_priority l3 = w_priority l" "w_pending l3 = w_pending l1" "pendings l3 = pendings l1"
    "timers l3 = timers l" "timercnt l3 = timercnt l" "periodics l3 = periodics l"
    "periodiccnt l3 = periodiccnt l" "w_at l3 = w_at l"
    by (simp_all add: l3_def l2_def ev_stop_def ev_unref_def set_active_def set_anfd_def s1
        wlist_del_remove1 a'_def)
  let ?C = "set (drop j (fdchanges l))"
  have len3: "length (anfds l3) = length (anfds l)" by (simp add: l3)
  have A3: "anfds l3 ! f = (if f = n then a' else anfds l ! f)" if "f < length (anfds l)" for f
    using that n by (simp add: l3 nth_list_update)
  have W: "wanted_events l3 ws = wanted_events l ws" for ws by (simp add: wanted_events_def l3)
  note ok = io_from_anfd[OF io]
  have "\<exists>l'. fd_change n EV_ANFD_REIFY l3 = Some l' \<and> io_from j l' \<and> n \<in> set (drop j (fdchanges l'))
    \<and> (\<exists>A F. l' = l3\<lparr>anfds := A, fdchanges := F\<rparr>) \<and> length (anfds l') = length (anfds l3)
    \<and> (\<forall>f < length (anfds l3). anfd_head (anfds l' ! f) = anfd_head (anfds l3 ! f))
    \<and> length (fdchanges l') \<le> Suc (length (fdchanges l3))"
  proof (rule fd_change_correct)
    show "n < length (anfds l3)" using n len3 by simp
    show "anfd_reify (anfds l3 ! n) OR EV_ANFD_REIFY \<noteq> 0"
      using or_one_nonzero[of _ 0] by (simp add: EV_ANFD_REIFY_def)
    show "w_kind l3 pending_w = Ev_Prepare" "j \<le> length (fdchanges l3)" "distinct (drop j (fdchanges l3))"
      "\<forall>fd \<in> set (drop j (fdchanges l3)). fd < length (anfds l3)"
      using io by (simp_all add: io_from_def l3)
    show "\<forall>f < length (anfds l3). f \<noteq> n \<longrightarrow> anfd_ok l3 (set (drop j (fdchanges l3))) f (anfds l3 ! f)"
    proof (intro allI impI)
      fix f assume f: "f < length (anfds l3)" "f \<noteq> n"
      have "w \<notin> set (anfd_head (anfds l ! f))"
        using ok[of f] f nfd len3 by (auto simp: anfd_ok_def)
      then show "anfd_ok l3 (set (drop j (fdchanges l3))) f (anfds l3 ! f)"
        using ok[of f] f len3 A3[of f] by (auto simp: anfd_ok_def W l3)
    qed
    show "distinct (anfd_head (anfds l3 ! n))"
      using ok[OF n] A3[OF n] by (simp add: anfd_ok_def a'_def)
    show "\<forall>x \<in> set (anfd_head (anfds l3 ! n)). w_kind l3 x = Ev_Io \<and> w_active l3 x = 1 \<and> w_fd l3 x = int n"
      using ok[OF n] A3[OF n] by (auto simp: anfd_ok_def a'_def l3(2,3,6))
    show "anfd_reify (anfds l3 ! n) \<noteq> 0 \<longleftrightarrow> n \<in> set (drop j (fdchanges l3))"
      using ok[OF n] A3[OF n] by (simp add: anfd_ok_def a'_def l3(5))
    show "\<forall>x. w_kind l3 x = Ev_Io \<and> w_active l3 x \<noteq> 0 \<longrightarrow> io_active_ok l3 x"
    proof (intro allI impI)
      fix x assume x: "w_kind l3 x = Ev_Io \<and> w_active l3 x \<noteq> 0"
      then have xw: "x \<noteq> w" "w_kind l x = Ev_Io" "w_active l x \<noteq> 0" by (auto simp: l3 split: if_splits)
      then have "io_active_ok l x" using io by (simp add: io_from_def)
      then show "io_active_ok l3 x" using xw(1) A3[of "nat (w_fd l x)"] len3
        by (auto simp: io_active_ok_def prio_ok_def ABSPRI_def l3(3,7) a'_def)
    qed
  qed
  then obtain A F where fc: "fd_change n EV_ANFD_REIFY l3 = Some (l3\<lparr>anfds := A, fdchanges := F\<rparr>)"
    "io_from j (l3\<lparr>anfds := A, fdchanges := F\<rparr>)" "n \<in> set (drop j F)" "length A = length (anfds l3)"
    "\<forall>f < length (anfds l3). anfd_head (A ! f) = anfd_head (anfds l3 ! f)" "length F \<le> Suc (length (fdchanges l3))"
    by auto
  define l' where "l' = l3\<lparr>anfds := A, fdchanges := F\<rparr>"
  have "ev_io_stop w l = Some l'"
    using fc(1) act n nfd
    by (simp add: ev_io_stop_def l1(1) s1 Let_def l'_def l3_def l2_def)
  moreover have same: "w_pending l' = w_pending l1" "pendings l' = pendings l1" "ABSPRI l' x = ABSPRI l1 x"
    "w_kind l' = w_kind l" "w_fd l' = w_fd l" "w_active l' = (w_active l)(w := 0)" "timers l' = timers l"
    "timercnt l' = timercnt l" "periodics l' = periodics l" "periodiccnt l' = periodiccnt l"
    "w_at l' = w_at l" "w_priority l' = w_priority l" "fdchanges l' = F" "anfds l' = A" for x
    by (simp_all add: l'_def l3 ABSPRI_def s1)
  moreover have "fd_inv j l'"
    using fc(2) pend_ok_cong(1)[OF l1(2) same(1,2)] same(3) by (simp add: fd_inv_def l'_def)
  moreover have "pending_events l' x = pending_events l1 x" for x
    using pend_ok_cong(2)[OF l1(2) same(1,2)] same(3) by simp
  moreover have "reify_work l' \<le> reify_work l"
  proof -
    have "listed l' = listed l3"
      using fc(4,5) by (intro listed_heads) (simp_all add: l'_def)
    moreover have "listed l3 + length (anfd_head (anfds l ! n)) = listed l + length (remove1 w (anfd_head (anfds l ! n)))"
      using listed_update[OF n, of a'] by (simp add: listed_def l3 a'_def)
    moreover have "length (remove1 w (anfd_head (anfds l ! n))) = length (anfd_head (anfds l ! n)) - 1"
      "0 < length (anfd_head (anfds l ! n))"
      using inh by (auto simp: length_remove1 length_pos_if_in_set)
    ultimately have "Suc (listed l') = listed l" by linarith
    then show ?thesis using fc(6) by (simp add: reify_work_def l'_def l3)
  qed
  moreover have "anfd_head (A ! n) = remove1 w (anfd_head (anfds l ! n))" "length A = length (anfds l)"
    using fc(4,5) A3[OF n] n len3 by (auto simp: a'_def)
  ultimately show ?thesis using fc(3) l1(4,5) kind by (auto simp: io_frame_def)
qed

lemma ev_io_stop_inactive:
  assumes inv: "fd_inv j l" and idle: "w_active l w = 0"
  shows "\<exists>l'. ev_io_stop w l = Some l' \<and> fd_inv j l' \<and> same_but_pending l l' \<and> w_pending l' w = 0
    \<and> (\<forall>x. x \<noteq> w \<longrightarrow> pending_events l' x = pending_events l x)"
proof -
  obtain l1 where "clear_pending w l = Some l1" "pend_ok l1" "same_but_pending l l1"
    "w_pending l1 w = 0" "\<forall>x. x \<noteq> w \<longrightarrow> pending_events l1 x = pending_events l x"
    using clear_pending_correct inv unfolding fd_inv_def by blast
  moreover from this have "w_active l1 w = 0" "io_from j l1"
    using idle inv by (auto simp: same_but_pendingD fd_inv_def intro: io_from_same)
  ultimately show ?thesis by (simp add: ev_io_stop_def fd_inv_def)
qed

lemma listed_same: "same_but_pending l l' \<Longrightarrow> reify_work l' = reify_work l"
  by (simp add: reify_work_def listed_def same_but_pendingD)

lemma fd_kill_correct:
  assumes "fd_inv j l" and "fd < length (anfds l)"
  shows "\<exists>l'. fd_kill fd l = Some l' \<and> fd_inv j l' \<and> io_frame l l' \<and> anfd_head (anfds l' ! fd) = []
    \<and> length (anfds l') = length (anfds l) \<and> reify_work l' \<le> reify_work l
    \<and> (\<forall>w. pending_events l' w = (if w \<in> set (anfd_head (anfds l ! fd))
          then Some (EV_ERROR OR EV_READ OR EV_WRITE) else pending_events l w))"
  using assms
proof (induction "length (anfd_head (anfds l ! fd))" arbitrary: l)
  case 0
  then show ?case by (simp add: fd_kill.simps)
next
  case (Suc k)
  obtain w ws where h: "anfd_head (anfds l ! fd) = w # ws" using Suc.hyps(2) by (cases "anfd_head (anfds l ! fd)") auto
  have io: "io_from j l" using Suc.prems(1) by (simp add: fd_inv_def)
  note lst = io_from_listed[OF io Suc.prems(2), of w, simplified h list.set, OF insertI1]
  obtain l1 where l1: "ev_io_stop w l = Some l1" "fd_inv j l1" "io_frame l l1" "w_active l1 = (w_active l)(w := 0)"
    "w_pending l1 w = 0" "\<forall>x. x \<noteq> w \<longrightarrow> pending_events l1 x = pending_events l x"
    "w_priority l1 = w_priority l" "length (anfds l1) = length (anfds l)"
    "anfd_head (anfds l1 ! fd) = remove1 w (anfd_head (anfds l ! fd))" "reify_work l1 \<le> reify_work l"
    using ev_io_stop_active[OF Suc.prems(1) lst(1)] lst(2,3) by auto
  have "pend_ok l1" "prio_ok l1 w" using l1(2,7) lst(4) by (simp_all add: fd_inv_def prio_ok_def ABSPRI_def)
  then obtain l2 where l2: "ev_feed_event w (EV_ERROR OR EV_READ OR EV_WRITE) l1 = Some l2" "pend_ok l2"
    "same_but_pending l1 l2" "pending_events l2 w = Some (EV_ERROR OR EV_READ OR EV_WRITE)"
    "\<forall>x. x \<noteq> w \<longrightarrow> pending_events l2 x = pending_events l1 x"
    using ev_feed_event_correct[of l1 w] lst(5) l1(5) by (fastforce simp: pending_events_def)
  have inv2: "fd_inv j l2" using l1(2) l2(2,3) io_from_same by (auto simp: fd_inv_def)
  note s2 = same_but_pendingD[OF l2(3)]
  have d: "distinct (w # ws)" using io_from_anfd[OF io Suc.prems(2)] h by (simp add: anfd_ok_def)
  have h2: "anfd_head (anfds l2 ! fd) = ws" using l1(9) h s2 by simp
  obtain l' where l': "fd_kill fd l2 = Some l'" "fd_inv j l'" "io_frame l2 l'" "anfd_head (anfds l' ! fd) = []"
    "length (anfds l') = length (anfds l2)" "reify_work l' \<le> reify_work l2"
    "\<forall>x. pending_events l' x = (if x \<in> set ws then Some (EV_ERROR OR EV_READ OR EV_WRITE) else pending_events l2 x)"
    using Suc.hyps(1)[of l2] Suc.hyps(2) inv2 Suc.prems(2) h h2 s2 l1(8) by auto
  have "fd_kill fd l = Some l'"
    using Suc.prems(2) h l1(1) l2(1) l'(1) by (subst fd_kill.simps) simp
  moreover have "io_frame l l'"
    using io_frame_trans[OF l1(3) io_frame_trans[OF io_frame_same[OF l2(3)] l'(3)]] .
  moreover have "reify_work l' \<le> reify_work l" using l'(6) l1(10) listed_same[OF l2(3)] by simp
  moreover have "pending_events l' x = (if x \<in> set (w # ws) then Some (EV_ERROR OR EV_READ OR EV_WRITE)
      else pending_events l x)" for x
    using l'(7) l2(4,5) l1(6) d by auto
  ultimately show ?case using l'(2,4,5) s2 l1(8) h by simp
qed

subsection \<open>Telling the kernel\<close>

text \<open>
  What \<open>fd_reify\<close> needs of a backend: it returns, keeps the lists and the queues consistent, does
  not add work, and leaves the other watchers and the registered events of the descriptors alone.
\<close>

locale io_backend =
  fixes modify :: "'e backend_modify"
  assumes modify_law: "fd_inv j l \<Longrightarrow> fd < length (anfds l) \<Longrightarrow>
    \<exists>l'. modify fd oev nev l = Some l' \<and> fd_inv j l' \<and> io_frame l l'
      \<and> length (anfds l') = length (anfds l) \<and> reify_work l' \<le> reify_work l"
begin

lemma reify_step:
  assumes inv: "fd_inv i l" and i: "i < length (fdchanges l)"
  shows "\<exists>l'. fd_reify_step modify (fdchanges l ! i) l = Some l' \<and> fd_inv (Suc i) l' \<and> io_frame l l'
    \<and> length (anfds l') = length (anfds l) \<and> reify_work l' \<le> reify_work l"
proof -
  define fd where "fd = fdchanges l ! i"
  have io: "io_from i l" and pend: "pend_ok l" using inv by (auto simp: fd_inv_def)
  have dr: "drop i (fdchanges l) = fd # drop (Suc i) (fdchanges l)"
    using i by (simp add: fd_def Cons_nth_drop_Suc)
  have fd: "fd < length (anfds l)" using io dr by (simp add: io_from_def)
  define a where "a = anfds l ! fd"
  define events where "events = wanted_events l (anfd_head a)"
  define l1 where "l1 = set_anfd fd (\<lambda>a. a\<lparr>anfd_reify := 0, anfd_events := events\<rparr>) l"
  have L1: "anfds l1 = (anfds l)[fd := a\<lparr>anfd_reify := 0, anfd_events := events\<rparr>]"
    "w_kind l1 = w_kind l" "w_fd l1 = w_fd l" "w_events l1 = w_events l" "fdchanges l1 = fdchanges l"
    "w_active l1 = w_active l" "w_priority l1 = w_priority l" "w_pending l1 = w_pending l"
    "pendings l1 = pendings l" "timers l1 = timers l" "timercnt l1 = timercnt l"
    "periodics l1 = periodics l" "periodiccnt l1 = periodiccnt l" "w_at l1 = w_at l"
    by (simp_all add: l1_def set_anfd_def a_def)
  have A1: "anfds l1 ! f = (if f = fd then a\<lparr>anfd_reify := 0, anfd_events := events\<rparr> else anfds l ! f)"
    if "f < length (anfds l)" for f using that by (simp add: L1 nth_list_update)
  have W: "wanted_events l1 ws = wanted_events l ws" for ws by (simp add: wanted_events_def L1)
  have nd: "fd \<notin> set (drop (Suc i) (fdchanges l))" using io dr by (simp add: io_from_def)
  have "anfd_ok l1 (set (drop (Suc i) (fdchanges l1))) f (anfds l1 ! f)" if f: "f < length (anfds l1)" for f
  proof (cases "f = fd")
    case True
    then show ?thesis using io_from_anfd[OF io fd] A1[OF fd] nd
      by (simp add: anfd_ok_def L1(2,3,5,6) W a_def[symmetric] events_def)
  next
    case False
    then show ?thesis using io_from_anfd[OF io, of f] f A1[of f]
      by (simp add: anfd_ok_def L1 W dr)
  qed
  moreover have "io_active_ok l1 w" if "w_kind l w = Ev_Io" "w_active l w \<noteq> 0" for w
  proof -
    have "io_active_ok l w" using io that by (simp add: io_from_def)
    then show ?thesis using A1[of "nat (w_fd l w)"]
      by (auto simp: io_active_ok_def prio_ok_def ABSPRI_def L1(3,7) a_def) (simp_all add: L1)
  qed
  ultimately have io1: "io_from (Suc i) l1"
    using io i dr unfolding io_from_def by (auto simp: L1)
  have "pend_ok l1" by (rule pend_ok_cong(1)[OF pend]) (simp_all add: L1 ABSPRI_def)
  with io1 have inv1: "fd_inv (Suc i) l1" by (simp add: fd_inv_def)
  have fr: "io_frame l l1" by (simp add: io_frame_def L1)
  have wk: "reify_work l1 = reify_work l"
    using listed_update[OF fd, of "a\<lparr>anfd_reify := 0, anfd_events := events\<rparr>"]
    by (simp add: reify_work_def L1 listed_def a_def)
  have len: "length (anfds l1) = length (anfds l)" by (simp add: L1)
  let ?flag = "(if anfd_events a \<noteq> events then ucast EV__IOFDSET else anfd_reify a) AND ucast EV__IOFDSET \<noteq> (0 :: mask8)"
  have e: "fd_reify_step modify fd l = (if ?flag then modify fd (ucast (anfd_events a)) (ucast events) l1 else Some l1)"
    using fd by (simp add: fd_reify_step_def Let_def a_def[symmetric] events_def[symmetric] l1_def[symmetric])
  show ?thesis
  proof (cases ?flag)
    case True
    obtain l' where "modify fd (ucast (anfd_events a)) (ucast events) l1 = Some l'" "fd_inv (Suc i) l'"
      "io_frame l1 l'" "length (anfds l') = length (anfds l1)" "reify_work l' \<le> reify_work l1"
      using modify_law[OF inv1, of fd "ucast (anfd_events a)" "ucast events"] fd len by auto
    then show ?thesis using True e io_frame_trans[OF fr] wk len by (simp add: fd_def[symmetric])
  next
    case False
    then show ?thesis using e inv1 fr wk len by (simp add: fd_def[symmetric])
  qed
qed

lemma reify_loop:
  "fd_inv i l \<Longrightarrow>
   \<exists>l'. fd_reify_loop modify i l = Some l' \<and> fd_inv 0 l' \<and> io_frame l l' \<and> fdchanges l' = []
     \<and> length (anfds l') = length (anfds l)"
proof (induction "reify_work l - i" arbitrary: i l rule: less_induct)
  case less
  show ?case
  proof (cases "i < length (fdchanges l)")
    case True
    obtain l1 where l1: "fd_reify_step modify (fdchanges l ! i) l = Some l1" "fd_inv (Suc i) l1" "io_frame l l1"
      "length (anfds l1) = length (anfds l)" "reify_work l1 \<le> reify_work l"
      using reify_step[OF less.prems True] by blast
    have "reify_work l1 - Suc i < reify_work l - i" using l1(5) True by (simp add: reify_work_def)
    from less.hyps[OF this l1(2)] l1 show ?thesis
      using True io_frame_trans[OF l1(3)] by (subst fd_reify_loop.simps) auto
  next
    case False
    define l' where "l' = l\<lparr>fdchanges := []\<rparr>"
    have io: "io_from i l" and pend: "pend_ok l" using less.prems by (auto simp: fd_inv_def)
    have "drop i (fdchanges l) = []" using False by simp
    then have "io_from 0 l'"
      using io by (simp add: io_from_def l'_def anfd_ok_def wanted_events_def io_active_ok_def prio_ok_def ABSPRI_def)
    moreover have "pend_ok l'" by (rule pend_ok_cong(1)[OF pend]) (simp_all add: l'_def ABSPRI_def)
    moreover have "io_frame l l'" by (simp add: io_frame_def l'_def)
    ultimately show ?thesis using False
      by (subst fd_reify_loop.simps) (simp add: l'_def fd_inv_def)
  qed
qed

text \<open>\<open>fd_reify\<close> returns with every descriptor registered for the events its watchers want.\<close>

lemma reify_syncs:
  assumes "fd_inv 0 l"
  shows "\<exists>l'. fd_reify modify l = Some l' \<and> fd_inv 0 l' \<and> io_frame l l' \<and> fdchanges l' = []
    \<and> length (anfds l') = length (anfds l)
    \<and> (\<forall>fd < length (anfds l'). anfd_reify (anfds l' ! fd) = 0
        \<and> anfd_events (anfds l' ! fd) = wanted_events l' (anfd_head (anfds l' ! fd)))"
proof -
  obtain l' where l': "fd_reify_loop modify 0 l = Some l'" "fd_inv 0 l'" "io_frame l l'" "fdchanges l' = []"
    "length (anfds l') = length (anfds l)"
    using reify_loop[OF assms] by blast
  have "anfd_ok l' {} fd (anfds l' ! fd)" if "fd < length (anfds l')" for fd
    using io_from_anfd[of 0 l' fd] l'(2,4) that by (simp add: fd_inv_def)
  with l' show ?thesis by (simp add: fd_reify_def anfd_ok_def)
qed

end

lemma feed_all_correct:
  assumes "pend_ok l" "distinct ws" "\<forall>w \<in> set ws. prio_ok l w \<and> w \<noteq> pending_w"
  shows "\<exists>l'. feed_all ws revents l = Some l' \<and> pend_ok l' \<and> same_but_pending l l'
    \<and> (\<forall>x. pending_events l' x =
        (if x \<in> set ws then Some (case pending_events l x of None \<Rightarrow> revents | Some e \<Rightarrow> e OR revents)
         else pending_events l x))"
  using assms
proof (induction ws arbitrary: l)
  case Nil
  then show ?case by simp
next
  case (Cons w ws)
  obtain l1 where l1: "ev_feed_event w revents l = Some l1" "pend_ok l1" "same_but_pending l l1"
    "pending_events l1 w = Some (case pending_events l w of None \<Rightarrow> revents | Some e \<Rightarrow> e OR revents)"
    "\<forall>x. x \<noteq> w \<longrightarrow> pending_events l1 x = pending_events l x"
    using ev_feed_event_correct[OF Cons.prems(1), of w revents] Cons.prems(3) by auto
  have "\<forall>w \<in> set ws. prio_ok l1 w \<and> w \<noteq> pending_w"
    using Cons.prems(3) by (simp add: prio_ok_def same_but_pendingD[OF l1(3)])
  then obtain l' where l': "feed_all ws revents l1 = Some l'" "pend_ok l'" "same_but_pending l1 l'"
    "\<forall>x. pending_events l' x =
        (if x \<in> set ws then Some (case pending_events l1 x of None \<Rightarrow> revents | Some e \<Rightarrow> e OR revents)
         else pending_events l1 x)"
    using Cons.IH[OF l1(2)] Cons.prems(2) by auto
  have "pending_events l' x =
        (if x \<in> set (w # ws) then Some (case pending_events l x of None \<Rightarrow> revents | Some e \<Rightarrow> e OR revents)
         else pending_events l x)" for x
    using l'(4) l1(4,5) Cons.prems(2) by (cases "x = w") auto
  with l1(1) l'(1,2) same_but_pending_trans[OF l1(3) l'(3)] show ?case by simp
qed

end
