(* ===== verification/Ev_Epoll.thy ===== *)
theory Ev_Epoll
  imports Ev_Watchers
begin

text \<open>
  The epoll backend of \<open>open_source/ev_epoll.c\<close>, with the edge-triggered events its author added
  (\<open>EV_ET\<close>), and the error recovery of \<open>ev.c\<close> that concerns descriptors. The system calls are
  parameters that act on the rest of the process; \<open>errno\<close> is the error they return.
\<close>

subsection \<open>The system calls\<close>

datatype ctl_op = EPOLL_CTL_ADD | EPOLL_CTL_MOD | EPOLL_CTL_DEL

datatype errno = ENOENT | EEXIST | EPERM | EBADF | EINTR | E_OTHER

record epoll_event =
  ee_events :: mask32
  ee_data :: "64 word"

record 'e sys =
  sys_epoll_ctl :: "ctl_op \<Rightarrow> nat \<Rightarrow> epoll_event \<Rightarrow> 'e \<Rightarrow> errno option \<times> 'e"
  sys_epoll_wait :: "nat \<Rightarrow> real \<Rightarrow> 'e \<Rightarrow> (errno + epoll_event list) \<times> 'e"
  sys_fd_valid :: "nat \<Rightarrow> 'e \<Rightarrow> errno option"
  sys_get_clock :: "'e \<Rightarrow> real \<times> 'e"
  sys_time :: "'e \<Rightarrow> real \<times> 'e"
  sys_sleep :: "real \<Rightarrow> 'e \<Rightarrow> 'e"
  sys_have_monotonic :: bool
  sys_getpid :: "'e \<Rightarrow> nat"
  sys_evpipe :: "'e \<Rightarrow> (int \<times> int) \<times> 'e"
  sys_dup2 :: "int \<Rightarrow> int \<Rightarrow> 'e \<Rightarrow> 'e"
  sys_pipe_read :: "int \<Rightarrow> 'e \<Rightarrow> 'e"
  sys_pipe_write :: "int \<Rightarrow> 'e \<Rightarrow> 'e"

definition EPOLLIN :: mask32 where "EPOLLIN = 0x001"
definition EPOLLOUT :: mask32 where "EPOLLOUT = 0x004"
definition EPOLLERR :: mask32 where "EPOLLERR = 0x008"
definition EPOLLHUP :: mask32 where "EPOLLHUP = 0x010"
definition EPOLLET :: mask32 where "EPOLLET = 0x80000000"

definition EV_EMASK_EPERM :: mask8 where "EV_EMASK_EPERM = 0x80"

subsection \<open>Event masks\<close>

definition to_epoll :: "mask32 \<Rightarrow> mask32" where
  "to_epoll nev =
     (if nev AND EV_READ \<noteq> 0 then EPOLLIN else 0)
     OR (if nev AND EV_WRITE \<noteq> 0 then EPOLLOUT else 0)
     OR (if nev AND EV_ET \<noteq> 0 then EPOLLET else 0)"

definition from_epoll :: "mask32 \<Rightarrow> mask32" where
  "from_epoll e =
     (if e AND (EPOLLOUT OR EPOLLERR OR EPOLLHUP) \<noteq> 0 then EV_WRITE else 0)
     OR (if e AND (EPOLLIN OR EPOLLERR OR EPOLLHUP) \<noteq> 0 then EV_READ else 0)
     OR (if e AND EPOLLET \<noteq> 0 then EV_ET else 0)"

text \<open>The generation counter in the upper half of the user data, the descriptor in the lower.\<close>

definition epoll_data :: "nat \<Rightarrow> mask32 \<Rightarrow> 64 word" where
  "epoll_data fd egen = word_of_nat fd AND 0xFFFFFFFF OR push_bit 32 (ucast egen)"

definition data_fd :: "64 word \<Rightarrow> nat" where
  "data_fd d = unat (d AND 0xFFFFFFFF)"

definition data_egen :: "64 word \<Rightarrow> mask32" where
  "data_egen d = ucast (drop_bit 32 d)"

subsection \<open>Changing the registration\<close>

definition do_epoll_ctl ::
  "'e sys \<Rightarrow> ctl_op \<Rightarrow> nat \<Rightarrow> epoll_event \<Rightarrow> 'e ev_loop \<Rightarrow> errno option \<times> 'e ev_loop" where
  "do_epoll_ctl sys opr fd ev l =
     (let (r, e) = sys_epoll_ctl sys opr fd ev (env l) in (r, l\<lparr>env := e\<rparr>))"

definition dec_egen :: "nat \<Rightarrow> 'e ev_loop \<Rightarrow> 'e ev_loop" where
  "dec_egen fd l = set_anfd fd (\<lambda>a. a\<lparr>anfd_egen := anfd_egen a - 1\<rparr>) l"

definition epoll_modify :: "'e sys \<Rightarrow> 'e backend_modify" where
  "epoll_modify sys fd oev nev l =
     (if nev = 0 then Some l
      else if length (anfds l) \<le> fd then None
      else
        (let oldmask = anfd_emask (anfds l ! fd);
             l1 = set_anfd fd (\<lambda>a. a\<lparr>anfd_emask := ucast nev, anfd_egen := anfd_egen a + 1\<rparr>) l;
             ev = \<lparr>ee_events = to_epoll nev, ee_data = epoll_data fd (anfd_egen (anfds l1 ! fd))\<rparr>;
             opr = (if oev \<noteq> 0 \<and> ucast oldmask \<noteq> nev then EPOLL_CTL_MOD else EPOLL_CTL_ADD);
             (r, l2) = do_epoll_ctl sys opr fd ev l1
         in case r of
              None \<Rightarrow> Some l2
            | Some ENOENT \<Rightarrow>
                (let (r2, l3) = do_epoll_ctl sys EPOLL_CTL_ADD fd ev l2 in
                 if r2 = None then Some l3 else map_option (dec_egen fd) (fd_kill fd l3))
            | Some EEXIST \<Rightarrow>
                (if ucast oldmask = nev then Some (dec_egen fd l2)
                 else
                   (let (r2, l3) = do_epoll_ctl sys EPOLL_CTL_MOD fd ev l2 in
                    if r2 = None then Some l3 else map_option (dec_egen fd) (fd_kill fd l3)))
            | Some EPERM \<Rightarrow>
                (let l3 = set_anfd fd (\<lambda>a. a\<lparr>anfd_emask := EV_EMASK_EPERM\<rparr>) l2 in
                 Some (if oldmask AND EV_EMASK_EPERM = 0
                       then l3\<lparr>epoll_eperms := epoll_eperms l3 @ [fd]\<rparr> else l3))
            | Some _ \<Rightarrow> map_option (dec_egen fd) (fd_kill fd l2)))"

subsection \<open>Waiting for events\<close>

text \<open>One event the kernel returned.\<close>

definition epoll_event1 :: "'e sys \<Rightarrow> epoll_event \<Rightarrow> 'e ev_loop \<Rightarrow> 'e ev_loop option" where
  "epoll_event1 sys ev l =
     (let fd = data_fd (ee_data ev) in
      if length (anfds l) \<le> fd then None
      else
        (let want = ucast (anfd_events (anfds l ! fd)) :: mask32;
             got = from_epoll (ee_events ev)
         in if anfd_egen (anfds l ! fd) \<noteq> data_egen (ee_data ev) then
              Some (l\<lparr>postfork := postfork l OR 2\<rparr>)
            else if got AND NOT want \<noteq> 0 then
              (let l1 = set_anfd fd (\<lambda>a. a\<lparr>anfd_emask := ucast want\<rparr>) l;
                   (r, l2) = do_epoll_ctl sys (if want \<noteq> 0 then EPOLL_CTL_MOD else EPOLL_CTL_DEL) fd
                     (ev\<lparr>ee_events := to_epoll want\<rparr>) l1
               in if r \<noteq> None then Some (l2\<lparr>postfork := postfork l2 OR 2\<rparr>)
                  else fd_event fd got l2)
            else fd_event fd got l))"

fun epoll_events_loop :: "'e sys \<Rightarrow> epoll_event list \<Rightarrow> 'e ev_loop \<Rightarrow> 'e ev_loop option" where
  "epoll_events_loop sys [] l = Some l"
| "epoll_events_loop sys (ev # evs) l = Option.bind (epoll_event1 sys ev l) (epoll_events_loop sys evs)"

text \<open>The descriptors epoll cannot watch are always ready; the walk is from the last to the first.\<close>

fun eperm_loop :: "nat \<Rightarrow> 'e ev_loop \<Rightarrow> 'e ev_loop option" where
  "eperm_loop 0 l = Some l"
| "eperm_loop (Suc i) l =
     (if length (epoll_eperms l) \<le> i \<or> length (anfds l) \<le> epoll_eperms l ! i then None
      else
        (let fd = epoll_eperms l ! i;
             events = anfd_events (anfds l ! fd) AND ucast (EV_READ OR EV_WRITE OR EV_ET)
         in if anfd_emask (anfds l ! fd) AND EV_EMASK_EPERM \<noteq> 0 \<and> events \<noteq> 0 then
              Option.bind (fd_event fd (ucast events) l) (eperm_loop i)
            else
              eperm_loop i (set_anfd fd (\<lambda>a. a\<lparr>anfd_emask := 0\<rparr>)
                (l\<lparr>epoll_eperms := butlast ((epoll_eperms l)[i := last (epoll_eperms l)])\<rparr>))))"

definition SIZEOF_EPOLL_EVENT :: nat where "SIZEOF_EPOLL_EVENT = 12"

text \<open>An error of \<open>epoll_wait\<close> other than an interruption aborts (\<open>ev_syserr\<close>).\<close>

definition epoll_poll :: "'e sys \<Rightarrow> real \<Rightarrow> 'e ev_loop \<Rightarrow> 'e ev_loop option" where
  "epoll_poll sys timeout l =
     (let timeout = (if epoll_eperms l \<noteq> [] then 0 else timeout);
          (r, e) = sys_epoll_wait sys (epoll_eventmax l) timeout (env l);
          l0 = l\<lparr>env := e\<rparr>
      in case r of
           Inl err \<Rightarrow> (if err = EINTR then Some l0 else None)
         | Inr evs \<Rightarrow> do {
             l1 \<leftarrow> epoll_events_loop sys evs l0;
             let l2 = (if length evs = epoll_eventmax l1
                 then l1\<lparr>epoll_eventmax := array_nextsize SIZEOF_EPOLL_EVENT (epoll_eventmax l1) (epoll_eventmax l1 + 1)\<rparr>
                 else l1);
             eperm_loop (length (epoll_eperms l2)) l2 })"

text \<open>The part of \<open>epoll_init\<close> that sets the loop up.\<close>

definition epoll_init :: "'e ev_loop \<Rightarrow> 'e ev_loop" where
  "epoll_init l = l\<lparr>backend_mintime := 1 / 1000, epoll_eventmax := 64\<rparr>"

definition epoll_destroy :: "'e ev_loop \<Rightarrow> 'e ev_loop" where
  "epoll_destroy l = l\<lparr>epoll_eperms := []\<rparr>"

subsection \<open>Recovery\<close>

fun fd_ebadf_from :: "'e sys \<Rightarrow> nat list \<Rightarrow> 'e ev_loop \<Rightarrow> 'e ev_loop option" where
  "fd_ebadf_from sys [] l = Some l"
| "fd_ebadf_from sys (fd # fds) l =
     (if anfd_events (anfds l ! fd) \<noteq> 0 \<and> sys_fd_valid sys fd (env l) = Some EBADF
      then Option.bind (fd_kill fd l) (fd_ebadf_from sys fds)
      else fd_ebadf_from sys fds l)"

definition fd_ebadf :: "'e sys \<Rightarrow> 'e ev_loop \<Rightarrow> 'e ev_loop option" where
  "fd_ebadf sys l = fd_ebadf_from sys [0..<length (anfds l)] l"

definition fd_enomem :: "'e ev_loop \<Rightarrow> 'e ev_loop option" where
  "fd_enomem l =
     (case filter (\<lambda>fd. anfd_events (anfds l ! fd) \<noteq> 0) (rev [0..<length (anfds l)]) of
        [] \<Rightarrow> Some l
      | fd # _ \<Rightarrow> fd_kill fd l)"

fun fd_rearm_from :: "nat list \<Rightarrow> 'e ev_loop \<Rightarrow> 'e ev_loop option" where
  "fd_rearm_from [] l = Some l"
| "fd_rearm_from (fd # fds) l =
     (if anfd_events (anfds l ! fd) \<noteq> 0 then
        Option.bind
          (fd_change fd (ucast EV__IOFDSET OR EV_ANFD_REIFY)
             (set_anfd fd (\<lambda>a. a\<lparr>anfd_events := 0, anfd_emask := 0\<rparr>) l))
          (fd_rearm_from fds)
      else fd_rearm_from fds l)"

definition fd_rearm_all :: "'e ev_loop \<Rightarrow> 'e ev_loop option" where
  "fd_rearm_all l = fd_rearm_from [0..<length (anfds l)] l"

text \<open>\<open>epoll_fork\<close> opens a new epoll descriptor (in the rest of the process) and registers anew.\<close>

definition epoll_fork :: "'e ev_loop \<Rightarrow> 'e ev_loop option" where
  "epoll_fork l = fd_rearm_all l"

subsection \<open>The backend keeps its contract\<close>

text \<open>Changes to the fields of a descriptor that no invariant reads, and to the rest of the process.\<close>

definition quiet :: "'e ev_loop \<Rightarrow> 'e ev_loop \<Rightarrow> bool" where
  "quiet l l' \<longleftrightarrow> (\<exists>A e p. l' = l\<lparr>anfds := A, env := e, epoll_eperms := p\<rparr> \<and> length A = length (anfds l)
     \<and> (\<forall>f < length A. anfd_head (A ! f) = anfd_head (anfds l ! f) \<and> anfd_events (A ! f) = anfd_events (anfds l ! f)
          \<and> anfd_reify (A ! f) = anfd_reify (anfds l ! f)))"

lemma quiet_refl: "quiet l l"
  unfolding quiet_def
  by (rule exI[of _ "anfds l"], rule exI[of _ "env l"], rule exI[of _ "epoll_eperms l"]) simp

lemma quiet_trans:
  assumes "quiet a b" "quiet b c"
  shows "quiet a c"
proof -
  obtain A e p where 1: "b = a\<lparr>anfds := A, env := e, epoll_eperms := p\<rparr>" "length A = length (anfds a)"
    "\<forall>f < length A. anfd_head (A ! f) = anfd_head (anfds a ! f) \<and> anfd_events (A ! f) = anfd_events (anfds a ! f)
          \<and> anfd_reify (A ! f) = anfd_reify (anfds a ! f)"
    using assms(1) unfolding quiet_def by blast
  obtain A' e' p' where 2: "c = b\<lparr>anfds := A', env := e', epoll_eperms := p'\<rparr>" "length A' = length (anfds b)"
    "\<forall>f < length A'. anfd_head (A' ! f) = anfd_head (anfds b ! f) \<and> anfd_events (A' ! f) = anfd_events (anfds b ! f)
          \<and> anfd_reify (A' ! f) = anfd_reify (anfds b ! f)"
    using assms(2) unfolding quiet_def by blast
  have "c = a\<lparr>anfds := A', env := e', epoll_eperms := p'\<rparr>" by (simp add: 1(1) 2(1))
  moreover have "length A' = length (anfds a)" using 1 2(2) by simp
  moreover have "anfd_head (A' ! f) = anfd_head (anfds a ! f) \<and> anfd_events (A' ! f) = anfd_events (anfds a ! f)
          \<and> anfd_reify (A' ! f) = anfd_reify (anfds a ! f)" if "f < length A'" for f
    using 1 2(2,3) that by simp
  ultimately show ?thesis unfolding quiet_def by blast
qed

lemma quiet_set_anfd:
  assumes "\<And>a. anfd_head (g a) = anfd_head a \<and> anfd_events (g a) = anfd_events a \<and> anfd_reify (g a) = anfd_reify a"
  shows "quiet l (set_anfd fd g l)"
proof -
  have "set_anfd fd g l = l\<lparr>anfds := (anfds l)[fd := g (anfds l ! fd)], env := env l, epoll_eperms := epoll_eperms l\<rparr>"
    by (simp add: set_anfd_def)
  moreover have "\<forall>f < length (anfds l). anfd_head ((anfds l)[fd := g (anfds l ! fd)] ! f) = anfd_head (anfds l ! f)
      \<and> anfd_events ((anfds l)[fd := g (anfds l ! fd)] ! f) = anfd_events (anfds l ! f)
      \<and> anfd_reify ((anfds l)[fd := g (anfds l ! fd)] ! f) = anfd_reify (anfds l ! f)"
    using assms by (cases "fd < length (anfds l)") (auto simp: nth_list_update)
  ultimately show ?thesis unfolding quiet_def by (metis length_list_update)
qed

lemma quiet_env: "quiet l (l\<lparr>env := e\<rparr>)"
  unfolding quiet_def
  by (rule exI[of _ "anfds l"], rule exI[of _ e], rule exI[of _ "epoll_eperms l"]) simp

lemma quiet_eperms: "quiet l (l\<lparr>epoll_eperms := p\<rparr>)"
  unfolding quiet_def
  by (rule exI[of _ "anfds l"], rule exI[of _ "env l"], rule exI[of _ p]) simp

lemma quiet_keeps:
  assumes "quiet l l'"
  shows "fd_inv j l \<Longrightarrow> fd_inv j l'" and "io_frame l l'" and "length (anfds l') = length (anfds l)"
    and "reify_work l' = reify_work l" and "pending_events l' x = pending_events l x"
    and "fdchanges l' = fdchanges l"
proof -
  obtain A e p where l': "l' = l\<lparr>anfds := A, env := e, epoll_eperms := p\<rparr>" and len: "length A = length (anfds l)"
    and A: "\<forall>f < length A. anfd_head (A ! f) = anfd_head (anfds l ! f) \<and> anfd_events (A ! f) = anfd_events (anfds l ! f)
          \<and> anfd_reify (A ! f) = anfd_reify (anfds l ! f)"
    using assms unfolding quiet_def by blast
  have W: "wanted_events l' ws = wanted_events l ws" for ws by (simp add: wanted_events_def l')
  have ok: "anfd_ok l' C f (A ! f) = anfd_ok l C f (anfds l ! f)" if "f < length A" for C f
    using A that by (simp add: anfd_ok_def W) (simp add: l')
  have act: "io_active_ok l' w = io_active_ok l w" for w
    using A len by (auto simp: io_active_ok_def l' prio_ok_def ABSPRI_def)
  have k: "w_kind l' = w_kind l" "fdchanges l' = fdchanges l" "anfds l' = A" "w_active l' = w_active l"
    by (simp_all add: l')
  show "length (anfds l') = length (anfds l)" "fdchanges l' = fdchanges l" by (simp_all add: l' len)
  show "io_frame l l'" by (simp add: io_frame_def l')
  have "listed l' = listed l" using A len by (intro listed_heads) (simp_all add: l')
  then show "reify_work l' = reify_work l" by (simp add: reify_work_def l')
  have pe: "w_pending l' = w_pending l" "pendings l' = pendings l" "\<And>x. ABSPRI l' x = ABSPRI l x"
    by (simp_all add: l' ABSPRI_def)
  show "pending_events l' x = pending_events l x" by (simp add: pending_events_def pe)
  show "fd_inv j l'" if "fd_inv j l"
  proof -
    have io: "io_from j l" and pend: "pend_ok l" using that by (auto simp: fd_inv_def)
    have "io_from j l'" using io ok act len by (simp add: io_from_def k)
    moreover have "pend_ok l'" by (rule pend_ok_cong(1)[OF pend pe(1,2,3)])
    ultimately show ?thesis by (simp add: fd_inv_def)
  qed
qed

lemma do_epoll_ctl_quiet: "do_epoll_ctl sys opr fd ev l = (r, l') \<Longrightarrow> quiet l l'"
  using quiet_env by (auto simp: do_epoll_ctl_def Let_def split: prod.splits)

lemma dec_egen_quiet: "quiet l (dec_egen fd l)"
  unfolding dec_egen_def by (rule quiet_set_anfd) simp

text \<open>What the backend contract asks, of one call.\<close>

definition io_step :: "nat \<Rightarrow> 'e ev_loop \<Rightarrow> 'e ev_loop \<Rightarrow> bool" where
  "io_step j l l' \<longleftrightarrow> fd_inv j l' \<and> io_frame l l' \<and> length (anfds l') = length (anfds l)
     \<and> reify_work l' \<le> reify_work l"

lemma quiet_step:
  assumes "quiet l l'" "fd_inv j l"
  shows "io_step j l l'"
  using quiet_keeps(1-4)[OF assms(1)] assms(2) by (simp add: io_step_def)

lemma io_step_trans: "io_step j a b \<Longrightarrow> io_step j b c \<Longrightarrow> io_step j a c"
  using io_frame_trans by (auto simp: io_step_def)

lemma fd_kill_step:
  assumes "quiet l l1" "fd_inv j l" "fd < length (anfds l)"
  shows "\<exists>l'. map_option (dec_egen fd) (fd_kill fd l1) = Some l' \<and> io_step j l l'"
proof -
  have st: "io_step j l l1" by (rule quiet_step[OF assms(1,2)])
  then obtain l2 where l2: "fd_kill fd l1 = Some l2" "io_step j l1 l2"
    using fd_kill_correct[of j l1 fd] assms(3) by (auto simp: io_step_def)
  have "io_step j l2 (dec_egen fd l2)"
    using l2(2) by (intro quiet_step dec_egen_quiet) (simp add: io_step_def)
  with l2 st show ?thesis by (auto intro: io_step_trans)
qed

lemma epoll_modify_step:
  assumes inv: "fd_inv j l" and fd: "fd < length (anfds l)"
  shows "\<exists>l'. epoll_modify sys fd oev nev l = Some l' \<and> io_step j l l'"
proof (cases "nev = 0")
  case True
  then show ?thesis using quiet_step[OF quiet_refl inv] by (simp add: epoll_modify_def)
next
  case False
  let ?old = "anfd_emask (anfds l ! fd)"
  define l1 where "l1 = set_anfd fd (\<lambda>a. a\<lparr>anfd_emask := ucast nev, anfd_egen := anfd_egen a + 1\<rparr>) l"
  have q1: "quiet l l1" unfolding l1_def by (rule quiet_set_anfd) simp
  define ev where "ev = \<lparr>ee_events = to_epoll nev, ee_data = epoll_data fd (anfd_egen (anfds l1 ! fd))\<rparr>"
  define opr where "opr = (if oev \<noteq> 0 \<and> ucast ?old \<noteq> nev then EPOLL_CTL_MOD else EPOLL_CTL_ADD)"
  obtain r l2 where c: "do_epoll_ctl sys opr fd ev l1 = (r, l2)" by (metis surj_pair)
  have q2: "quiet l l2" using quiet_trans[OF q1 do_epoll_ctl_quiet[OF c]] .
  have q3: "quiet l l3" if "do_epoll_ctl sys opr' fd ev l2 = (r', l3)" for opr' r' l3
    using quiet_trans[OF q2 do_epoll_ctl_quiet[OF that]] .
  note kill = fd_kill_step[OF _ inv fd] and st = quiet_step[OF _ inv]
  have e: "epoll_modify sys fd oev nev l = (case r of
              None \<Rightarrow> Some l2
            | Some ENOENT \<Rightarrow>
                (let (r2, l3) = do_epoll_ctl sys EPOLL_CTL_ADD fd ev l2 in
                 if r2 = None then Some l3 else map_option (dec_egen fd) (fd_kill fd l3))
            | Some EEXIST \<Rightarrow>
                (if ucast ?old = nev then Some (dec_egen fd l2)
                 else
                   (let (r2, l3) = do_epoll_ctl sys EPOLL_CTL_MOD fd ev l2 in
                    if r2 = None then Some l3 else map_option (dec_egen fd) (fd_kill fd l3)))
            | Some EPERM \<Rightarrow>
                (let l3 = set_anfd fd (\<lambda>a. a\<lparr>anfd_emask := EV_EMASK_EPERM\<rparr>) l2 in
                 Some (if ?old AND EV_EMASK_EPERM = 0
                       then l3\<lparr>epoll_eperms := epoll_eperms l3 @ [fd]\<rparr> else l3))
            | Some _ \<Rightarrow> map_option (dec_egen fd) (fd_kill fd l2))"
    unfolding epoll_modify_def if_not_P[OF False] Let_def l1_def[symmetric] ev_def[symmetric] opr_def[symmetric] c
    using fd by simp
  consider "r = None" | "r = Some ENOENT" | "r = Some EEXIST" | "r = Some EPERM"
    | "r \<noteq> None" "r \<noteq> Some ENOENT" "r \<noteq> Some EEXIST" "r \<noteq> Some EPERM" by blast
  then show ?thesis
  proof cases
    case 1
    then show ?thesis using e st[OF q2] by simp
  next
    case 2
    obtain r2 l3 where c2: "do_epoll_ctl sys EPOLL_CTL_ADD fd ev l2 = (r2, l3)" by (metis surj_pair)
    show ?thesis
    proof (cases "r2 = None")
      case True
      with 2 e c2 st[OF q3[OF c2]] show ?thesis by simp
    next
      case False
      with 2 e c2 have "epoll_modify sys fd oev nev l = map_option (dec_egen fd) (fd_kill fd l3)" by simp
      with kill[OF q3[OF c2]] show ?thesis by simp
    qed
  next
    case 3
    obtain r2 l3 where c2: "do_epoll_ctl sys EPOLL_CTL_MOD fd ev l2 = (r2, l3)" by (metis surj_pair)
    consider "ucast ?old = nev" | "ucast ?old \<noteq> nev" "r2 = None" | "ucast ?old \<noteq> nev" "r2 \<noteq> None" by blast
    then show ?thesis
    proof cases
      case a: 1
      with 3 e st[OF quiet_trans[OF q2 dec_egen_quiet]] show ?thesis by simp
    next
      case a: 2
      with 3 e c2 st[OF q3[OF c2]] show ?thesis by simp
    next
      case a: 3
      with 3 e c2 have "epoll_modify sys fd oev nev l = map_option (dec_egen fd) (fd_kill fd l3)" by simp
      with kill[OF q3[OF c2]] show ?thesis by simp
    qed
  next
    case 4
    have "quiet l2 (set_anfd fd (\<lambda>a. a\<lparr>anfd_emask := EV_EMASK_EPERM\<rparr>) l2)" by (rule quiet_set_anfd) simp
    note q4 = quiet_trans[OF q2 this]
    show ?thesis using 4 e st[OF q4] st[OF quiet_trans[OF q4 quiet_eperms]] by (simp add: Let_def)
  next
    case 5
    then have "epoll_modify sys fd oev nev l = map_option (dec_egen fd) (fd_kill fd l2)"
      using e by (cases r) (auto split: errno.splits)
    with kill[OF q2] show ?thesis by simp
  qed
qed

interpretation epoll: io_backend "epoll_modify sys" for sys :: "'e sys"
proof unfold_locales
  fix j fd oev nev and l :: "'e ev_loop"
  assume "fd_inv j l" "fd < length (anfds l)"
  then show "\<exists>l'. epoll_modify sys fd oev nev l = Some l' \<and> fd_inv j l' \<and> io_frame l l'
      \<and> length (anfds l') = length (anfds l) \<and> reify_work l' \<le> reify_work l"
    using epoll_modify_step by (simp add: io_step_def)
qed

subsection \<open>Delivering events\<close>

definition add_events :: "mask32 option \<Rightarrow> mask32 \<Rightarrow> mask32 option" where
  "add_events old ev = Some (case old of None \<Rightarrow> ev | Some e \<Rightarrow> e OR ev)"

lemma fd_feed_correct:
  assumes "pend_ok l" "distinct ws" "\<forall>w \<in> set ws. prio_ok l w \<and> w \<noteq> pending_w"
  shows "\<exists>l'. fd_feed ws revents l = Some l' \<and> pend_ok l' \<and> same_but_pending l l'
    \<and> (\<forall>x. pending_events l' x =
        (if x \<in> set ws \<and> w_events l x AND revents \<noteq> 0
         then add_events (pending_events l x) (w_events l x AND revents) else pending_events l x))"
  using assms
proof (induction ws arbitrary: l)
  case Nil
  then show ?case by simp
next
  case (Cons w ws)
  show ?case
  proof (cases "w_events l w AND revents = 0")
    case True
    with Cons.IH[OF Cons.prems(1)] Cons.prems(2,3) show ?thesis by fastforce
  next
    case False
    obtain l1 where l1: "ev_feed_event w (w_events l w AND revents) l = Some l1" "pend_ok l1"
      "same_but_pending l l1"
      "pending_events l1 w = add_events (pending_events l w) (w_events l w AND revents)"
      "\<forall>x. x \<noteq> w \<longrightarrow> pending_events l1 x = pending_events l x"
      using ev_feed_event_correct[OF Cons.prems(1), of w "w_events l w AND revents"] Cons.prems(3)
      by (auto simp: add_events_def)
    note s1 = same_but_pendingD[OF l1(3)]
    have "\<forall>w \<in> set ws. prio_ok l1 w \<and> w \<noteq> pending_w"
      using Cons.prems(3) by (simp add: prio_ok_def s1)
    then obtain l' where l': "fd_feed ws revents l1 = Some l'" "pend_ok l'" "same_but_pending l1 l'"
      "\<forall>x. pending_events l' x =
        (if x \<in> set ws \<and> w_events l1 x AND revents \<noteq> 0
         then add_events (pending_events l1 x) (w_events l1 x AND revents) else pending_events l1 x)"
      using Cons.IH[OF l1(2)] Cons.prems(2) by auto
    have "fd_feed (w # ws) revents l = Some l'" using False l1(1) l'(1) by simp
    moreover have "pending_events l' x =
        (if x \<in> set (w # ws) \<and> w_events l x AND revents \<noteq> 0
         then add_events (pending_events l x) (w_events l x AND revents) else pending_events l x)" for x
      using l'(4) l1(4,5) s1 False Cons.prems(2) by (cases "x = w") auto
    ultimately show ?thesis using l'(2) same_but_pending_trans[OF l1(3) l'(3)] by blast
  qed
qed

text \<open>An event of a descriptor reaches exactly the watchers on its list that want it.\<close>

lemma fd_event_correct:
  assumes inv: "fd_inv j l" and fd: "fd < length (anfds l)"
  shows "\<exists>l'. fd_event fd revents l = Some l' \<and> fd_inv j l' \<and> same_but_pending l l'
    \<and> (\<forall>x. pending_events l' x =
        (if anfd_reify (anfds l ! fd) = 0 \<and> x \<in> set (anfd_head (anfds l ! fd)) \<and> w_events l x AND revents \<noteq> 0
         then add_events (pending_events l x) (w_events l x AND revents) else pending_events l x))"
proof (cases "anfd_reify (anfds l ! fd) = 0")
  case False
  then show ?thesis using inv fd by (simp add: fd_event_def)
next
  case True
  have io: "io_from j l" and pend: "pend_ok l" using inv by (auto simp: fd_inv_def)
  have "distinct (anfd_head (anfds l ! fd))" using io_from_anfd[OF io fd] by (simp add: anfd_ok_def)
  moreover have "\<forall>w \<in> set (anfd_head (anfds l ! fd)). prio_ok l w \<and> w \<noteq> pending_w"
    using io_from_listed(4,5)[OF io fd] by blast
  ultimately obtain l' where "fd_feed (anfd_head (anfds l ! fd)) revents l = Some l'" "pend_ok l'" "same_but_pending l l'"
    "\<forall>x. pending_events l' x =
        (if x \<in> set (anfd_head (anfds l ! fd)) \<and> w_events l x AND revents \<noteq> 0
         then add_events (pending_events l x) (w_events l x AND revents) else pending_events l x)"
    using fd_feed_correct[OF pend] by blast
  then show ?thesis using True fd io_from_same[OF io]
    by (auto simp: fd_event_def fd_event_nocheck_def fd_inv_def)
qed

lemma io_step_refl: "fd_inv j l \<Longrightarrow> io_step j l l"
  by (simp add: io_step_def)

lemma same_step: "same_but_pending l l' \<Longrightarrow> fd_inv j l' \<Longrightarrow> io_step j l l'"
  by (simp add: io_step_def io_frame_same listed_same same_but_pendingD)

text \<open>\<open>postfork\<close> and the size of the event array are read by no invariant.\<close>

lemma other_fields_step:
  assumes "fd_inv j l"
  shows "io_step j l (l\<lparr>postfork := p\<rparr>)" and "io_step j l (l\<lparr>epoll_eventmax := q\<rparr>)"
proof -
  have io: "io_from j l" and pend: "pend_ok l" using assms by (auto simp: fd_inv_def)
  have "io_from j (l\<lparr>postfork := p\<rparr>)" "io_from j (l\<lparr>epoll_eventmax := q\<rparr>)"
    by (rule io_from_cong[OF io]; simp)+
  moreover have "pend_ok (l\<lparr>postfork := p\<rparr>)" "pend_ok (l\<lparr>epoll_eventmax := q\<rparr>)"
    by (rule pend_ok_cong(1)[OF pend]; simp add: ABSPRI_def)+
  ultimately show "io_step j l (l\<lparr>postfork := p\<rparr>)" "io_step j l (l\<lparr>epoll_eventmax := q\<rparr>)"
    by (simp_all add: io_step_def fd_inv_def io_frame_def reify_work_def listed_def)
qed

definition eperms_ok :: "'e ev_loop \<Rightarrow> bool" where
  "eperms_ok l \<longleftrightarrow> (\<forall>fd \<in> set (epoll_eperms l). fd < length (anfds l))"

lemma quiet_eperms_same: "do_epoll_ctl sys opr fd ev l = (r, l') \<Longrightarrow> epoll_eperms l' = epoll_eperms l"
  by (auto simp: do_epoll_ctl_def Let_def split: prod.splits)

lemma epoll_event1_step:
  assumes inv: "fd_inv j l" and fd: "data_fd (ee_data ev) < length (anfds l)"
  shows "\<exists>l'. epoll_event1 sys ev l = Some l' \<and> io_step j l l' \<and> epoll_eperms l' = epoll_eperms l"
proof -
  define fd where "fd = data_fd (ee_data ev)"
  have fd: "fd < length (anfds l)" using assms(2) by (simp add: fd_def)
  define want where "want = (ucast (anfd_events (anfds l ! fd)) :: mask32)"
  define got where "got = from_epoll (ee_events ev)"
  define l1 where "l1 = set_anfd fd (\<lambda>a. a\<lparr>anfd_emask := ucast want\<rparr>) l"
  have q1: "quiet l l1" unfolding l1_def by (rule quiet_set_anfd) simp
  obtain r l2 where c: "do_epoll_ctl sys (if want \<noteq> 0 then EPOLL_CTL_MOD else EPOLL_CTL_DEL) fd
       (ev\<lparr>ee_events := to_epoll want\<rparr>) l1 = (r, l2)" by (metis surj_pair)
  have st2: "io_step j l l2" using quiet_step[OF quiet_trans[OF q1 do_epoll_ctl_quiet[OF c]] inv] .
  have ep2: "epoll_eperms l2 = epoll_eperms l" using quiet_eperms_same[OF c] by (simp add: l1_def set_anfd_def)
  have dl: "\<exists>l'. fd_event fd got k = Some l' \<and> io_step j l l' \<and> epoll_eperms l' = epoll_eperms l"
    if "io_step j l k" "epoll_eperms k = epoll_eperms l" for k
  proof -
    have "fd_inv j k" "fd < length (anfds k)" using that(1) fd by (simp_all add: io_step_def)
    then obtain l' where l': "fd_event fd got k = Some l'" "fd_inv j l'" "same_but_pending k l'"
      using fd_event_correct by blast
    have "io_step j l l'" using io_step_trans[OF that(1) same_step[OF l'(3,2)]] .
    with l' that(2) show ?thesis by (simp add: same_but_pendingD2)
  qed
  have e: "epoll_event1 sys ev l =
      (if anfd_egen (anfds l ! fd) \<noteq> data_egen (ee_data ev) then Some (l\<lparr>postfork := postfork l OR 2\<rparr>)
       else if got AND NOT want \<noteq> 0 then
         (if r \<noteq> None then Some (l2\<lparr>postfork := postfork l2 OR 2\<rparr>) else fd_event fd got l2)
       else fd_event fd got l)"
    using fd unfolding epoll_event1_def Let_def fd_def[symmetric] want_def[symmetric] got_def[symmetric]
      l1_def[symmetric] c by simp
  show ?thesis
  proof (cases "anfd_egen (anfds l ! fd) \<noteq> data_egen (ee_data ev)")
    case True
    then show ?thesis using e other_fields_step(1)[OF inv] by simp
  next
    case False
    have pf: "io_step j l (l2\<lparr>postfork := postfork l2 OR 2\<rparr>)"
      using io_step_trans[OF st2 other_fields_step(1)] st2 by (simp add: io_step_def)
    show ?thesis using e False pf ep2 dl[OF st2 ep2] dl[OF io_step_refl[OF inv] refl] by simp
  qed
qed

lemma epoll_events_loop_step:
  assumes "fd_inv j l" "\<forall>ev \<in> set evs. data_fd (ee_data ev) < length (anfds l)"
  shows "\<exists>l'. epoll_events_loop sys evs l = Some l' \<and> io_step j l l' \<and> epoll_eperms l' = epoll_eperms l"
  using assms
proof (induction evs arbitrary: l)
  case Nil
  then show ?case using io_step_refl by simp
next
  case (Cons ev evs)
  obtain l1 where l1: "epoll_event1 sys ev l = Some l1" "io_step j l l1" "epoll_eperms l1 = epoll_eperms l"
    using epoll_event1_step[where sys = sys and ev = ev, OF Cons.prems(1)] Cons.prems(2) by auto
  then obtain l' where "epoll_events_loop sys evs l1 = Some l'" "io_step j l1 l'" "epoll_eperms l' = epoll_eperms l1"
    using Cons.IH[of l1] Cons.prems(2) by (auto simp: io_step_def)
  with l1 show ?case by (auto intro: io_step_trans)
qed

lemma eperm_loop_step:
  assumes "fd_inv j l" "i \<le> length (epoll_eperms l)" "eperms_ok l"
  shows "\<exists>l'. eperm_loop i l = Some l' \<and> io_step j l l'"
  using assms
proof (induction i arbitrary: l)
  case 0
  then show ?case using io_step_refl by simp
next
  case (Suc i)
  define fd where "fd = epoll_eperms l ! i"
  have i: "i < length (epoll_eperms l)" using Suc.prems(2) by simp
  then have fd: "fd < length (anfds l)" using Suc.prems(3) by (simp add: eperms_ok_def fd_def)
  define events where "events = anfd_events (anfds l ! fd) AND ucast (EV_READ OR EV_WRITE OR EV_ET)"
  show ?case
  proof (cases "anfd_emask (anfds l ! fd) AND EV_EMASK_EPERM \<noteq> 0 \<and> events \<noteq> 0")
    case True
    obtain l1 where l1: "fd_event fd (ucast events) l = Some l1" "fd_inv j l1" "same_but_pending l l1"
      using fd_event_correct[OF Suc.prems(1) fd] by blast
    have "eperms_ok l1" using Suc.prems(3) l1(3) by (simp add: eperms_ok_def same_but_pendingD same_but_pendingD2)
    then obtain l' where "eperm_loop i l1 = Some l'" "io_step j l1 l'"
      using Suc.IH[of l1] l1 i by (auto simp: same_but_pendingD2)
    with l1 True i fd io_step_trans[OF same_step[OF l1(3,2)]] show ?thesis
      by (auto simp: Let_def fd_def[symmetric] events_def[symmetric])
  next
    case False
    define ps where "ps = butlast ((epoll_eperms l)[i := last (epoll_eperms l)])"
    define l1 where "l1 = set_anfd fd (\<lambda>a. a\<lparr>anfd_emask := 0\<rparr>) (l\<lparr>epoll_eperms := ps\<rparr>)"
    have "quiet (l\<lparr>epoll_eperms := ps\<rparr>) l1" unfolding l1_def by (rule quiet_set_anfd) simp
    then have st: "io_step j l l1" using quiet_step[OF quiet_trans[OF quiet_eperms] Suc.prems(1)] by blast
    have "set ps \<subseteq> set (epoll_eperms l)"
    proof -
      have "set ps \<subseteq> insert (last (epoll_eperms l)) (set (epoll_eperms l))"
        using set_update_subset_insert[of "epoll_eperms l" i] in_set_butlastD unfolding ps_def by fastforce
      moreover have "last (epoll_eperms l) \<in> set (epoll_eperms l)" using i by (intro last_in_set) auto
      ultimately show ?thesis by auto
    qed
    then have "eperms_ok l1" using Suc.prems(3) by (auto simp: eperms_ok_def l1_def set_anfd_def)
    moreover have "i \<le> length (epoll_eperms l1)" using i by (simp add: l1_def set_anfd_def ps_def)
    ultimately obtain l' where "eperm_loop i l1 = Some l'" "io_step j l1 l'"
      using Suc.IH[of l1] st by (auto simp: io_step_def)
    with False i fd io_step_trans[OF st] show ?thesis
      by (auto simp: Let_def fd_def[symmetric] events_def[symmetric] l1_def ps_def)
  qed
qed

text \<open>
  \<open>epoll_wait\<close> as far as the code relies on it: events come with descriptors of the array, as
  the user data is what \<open>epoll_modify\<close> stored and the array never shrinks; the only error is an
  interruption.
\<close>

definition epoll_wait_ok :: "'e sys \<Rightarrow> 'e ev_loop \<Rightarrow> bool" where
  "epoll_wait_ok sys l \<longleftrightarrow>
     (\<forall>t. case fst (sys_epoll_wait sys (epoll_eventmax l) t (env l)) of
        Inl err \<Rightarrow> err = EINTR
      | Inr evs \<Rightarrow> \<forall>ev \<in> set evs. data_fd (ee_data ev) < length (anfds l))"

lemma epoll_poll_step:
  assumes inv: "fd_inv j l" and ep: "eperms_ok l" and wt: "epoll_wait_ok sys l"
  shows "\<exists>l'. epoll_poll sys timeout l = Some l' \<and> io_step j l l'"
proof -
  define t where "t = (if epoll_eperms l \<noteq> [] then 0 else timeout)"
  obtain r e where w: "sys_epoll_wait sys (epoll_eventmax l) t (env l) = (r, e)" by (metis surj_pair)
  define l0 where "l0 = l\<lparr>env := e\<rparr>"
  have st0: "io_step j l l0" unfolding l0_def by (rule quiet_step[OF quiet_env inv])
  have e: "epoll_poll sys timeout l = (case r of
       Inl err \<Rightarrow> (if err = EINTR then Some l0 else None)
     | Inr evs \<Rightarrow> do {
         l1 \<leftarrow> epoll_events_loop sys evs l0;
         let l2 = (if length evs = epoll_eventmax l1
             then l1\<lparr>epoll_eventmax := array_nextsize SIZEOF_EPOLL_EVENT (epoll_eventmax l1) (epoll_eventmax l1 + 1)\<rparr>
             else l1);
         eperm_loop (length (epoll_eperms l2)) l2 })"
    unfolding epoll_poll_def Let_def t_def[symmetric] w l0_def by simp
  show ?thesis
  proof (cases r)
    case (Inl err)
    then have "err = EINTR" using wt[unfolded epoll_wait_ok_def, THEN spec, of t] w by simp
    with Inl e st0 show ?thesis by simp
  next
    case (Inr evs)
    have "\<forall>ev \<in> set evs. data_fd (ee_data ev) < length (anfds l0)"
      using wt[unfolded epoll_wait_ok_def, THEN spec, of t] w Inr by (simp add: l0_def)
    then obtain l1 where l1: "epoll_events_loop sys evs l0 = Some l1" "io_step j l0 l1" "epoll_eperms l1 = epoll_eperms l0"
      using epoll_events_loop_step[of j l0 evs] st0 by (auto simp: io_step_def)
    define l2 where "l2 = (if length evs = epoll_eventmax l1
             then l1\<lparr>epoll_eventmax := array_nextsize SIZEOF_EPOLL_EVENT (epoll_eventmax l1) (epoll_eventmax l1 + 1)\<rparr>
             else l1)"
    have st2: "io_step j l l2"
      using io_step_trans[OF st0 l1(2)] io_step_trans[OF _ other_fields_step(2)] by (auto simp: l2_def io_step_def)
    have "eperms_ok l2"
      using ep l1(3) st2 by (auto simp: eperms_ok_def l2_def l0_def io_step_def)
    then obtain l' where "eperm_loop (length (epoll_eperms l2)) l2 = Some l'" "io_step j l2 l'"
      using eperm_loop_step[of j l2] st2 by (auto simp: io_step_def)
    with Inr e l1(1) io_step_trans[OF st2] show ?thesis by (auto simp: l2_def)
  qed
qed

subsection \<open>A new loop\<close>

text \<open>\<open>ev_init\<close> on a watcher.\<close>

definition ev_init :: "wid \<Rightarrow> 'e ev_loop \<Rightarrow> 'e ev_loop" where
  "ev_init w l = l\<lparr>w_active := (w_active l)(w := 0), w_pending := (w_pending l)(w := 0),
                   w_priority := (w_priority l)(w := 0)\<rparr>"

text \<open>The memory of a loop set to 0 (\<open>memset\<close> in \<open>ev_loop_new\<close>); the watchers of the user and the
  rest of the process stay.\<close>

definition loop_zero :: "'e ev_loop \<Rightarrow> 'e ev_loop" where
  "loop_zero mem = mem\<lparr>ev_rt_now := 0, mn_now := 0, now_floor := 0, rtmn_diff := 0, io_blocktime := 0,
     timeout_blocktime := 0, backend_mintime := 0, pendings := replicate NUMPRI [], pendingpri := 0,
     rfeeds := [], anfds := [], fdchanges := [], timercnt := 0, periodiccnt := 0,
     idles := replicate NUMPRI [], idleall := 0, prepares := [], checks := [], forks := [],
     cleanups := [], asyncs := [], async_pending := False, pipe_write_wanted := False,
     pipe_write_skipped := False, evpipe0 := 0, evpipe1 := 0, curpid := 0, activecnt := 0, loop_count := 0, loop_depth := 0, loop_done := 0,
     postfork := 0, epoll_eperms := [], epoll_eventmax := 0\<rparr>"

definition loop_init :: "'e sys \<Rightarrow> 'e ev_loop \<Rightarrow> 'e ev_loop" where
  "loop_init sys l =
     (let (rt, e1) = sys_time sys (env l); (mn, e2) = sys_get_clock sys e1;
          l1 = l\<lparr>ev_rt_now := rt, mn_now := mn, now_floor := mn, rtmn_diff := rt - mn,
                 io_blocktime := 0, timeout_blocktime := 0, pipe_write_skipped := False,
                 pipe_write_wanted := False, async_pending := False, evpipe0 := -1, evpipe1 := -1, env := e2\<rparr>;
          l2 = ev_init pipe_w (ev_init pending_w (epoll_init l1))
      in l2\<lparr>w_priority := (w_priority l2)(pipe_w := EV_MAXPRI)\<rparr>)"

definition ev_loop_new :: "'e sys \<Rightarrow> 'e ev_loop \<Rightarrow> 'e ev_loop" where
  "ev_loop_new sys mem = loop_init sys (loop_zero mem)"

lemma ev_loop_new_fields:
  "pendings (ev_loop_new sys mem) = replicate NUMPRI []" "anfds (ev_loop_new sys mem) = []"
  "fdchanges (ev_loop_new sys mem) = []" "w_kind (ev_loop_new sys mem) = w_kind mem"
  "w_active (ev_loop_new sys mem) = (w_active mem)(pending_w := 0, pipe_w := 0)"
  "w_pending (ev_loop_new sys mem) = (w_pending mem)(pending_w := 0, pipe_w := 0)"
  "timercnt (ev_loop_new sys mem) = 0" "w_fd (ev_loop_new sys mem) = w_fd mem"
  "w_events (ev_loop_new sys mem) = w_events mem" "epoll_eperms (ev_loop_new sys mem) = []"
  "periodiccnt (ev_loop_new sys mem) = 0" "w_at (ev_loop_new sys mem) = w_at mem"
  "w_repeat (ev_loop_new sys mem) = w_repeat mem" "rfeeds (ev_loop_new sys mem) = []"
  "prepares (ev_loop_new sys mem) = []" "idles (ev_loop_new sys mem) = replicate NUMPRI []"
  by (simp_all add: ev_loop_new_def loop_init_def loop_zero_def epoll_init_def ev_init_def Let_def
      split: prod.splits)

text \<open>A new loop whose watchers have all been initialised satisfies the invariants.\<close>

lemma ev_loop_new_inv:
  assumes "w_kind mem pending_w = Ev_Prepare" "\<And>w. w_active mem w = 0" "\<And>w. w_pending mem w = 0"
  shows "fd_inv 0 (ev_loop_new sys mem)"
  using assms
  by (simp add: fd_inv_def io_from_def pend_ok_def ev_loop_new_fields)

subsection \<open>Properties\<close>

text \<open>For the witnesses: system calls that always succeed, a memory of initialised io watchers
  for descriptor 5 (read) and a loop in which watcher 7 has been started.\<close>

definition calm_sys :: "unit sys" where
  "calm_sys = \<lparr>sys_epoll_ctl = (\<lambda>opr fd ev e. (None, e)), sys_epoll_wait = (\<lambda>n t e. (Inr [], e)),
     sys_fd_valid = (\<lambda>fd e. None), sys_get_clock = (\<lambda>e. (0, e)), sys_time = (\<lambda>e. (0, e)),
     sys_sleep = (\<lambda>t e. e), sys_have_monotonic = True, sys_getpid = (\<lambda>e. 1),
     sys_evpipe = (\<lambda>e. ((-1, 3), e)), sys_dup2 = (\<lambda>f g e. e), sys_pipe_read = (\<lambda>f e. e), sys_pipe_write = (\<lambda>f e. e)\<rparr>"

definition init_memory :: "(wid \<Rightarrow> watcher_kind) \<Rightarrow> unit ev_loop" where
  "init_memory kind = \<lparr>w_kind = kind, w_active = (\<lambda>_. 0), w_pending = (\<lambda>_. 0), w_priority = (\<lambda>_. 0),
     w_fd = (\<lambda>_. 5), w_events = (\<lambda>_. EV_READ OR EV__IOFDSET), w_at = real, w_repeat = (\<lambda>_. 0),
     w_offset = (\<lambda>_. 0), w_interval = (\<lambda>_. 0), w_resched = (\<lambda>_. None), w_sent = (\<lambda>_. False),
     ev_rt_now = 0, mn_now = 0, now_floor = 0, rtmn_diff = 0, io_blocktime = 0, timeout_blocktime = 0,
     backend_mintime = 0, pendings = [], pendingpri = 0, rfeeds = [], anfds = [], fdchanges = [],
     timers = (\<lambda>_. \<lparr>anhe_at = 0, anhe_w = 0\<rparr>), timercnt = 0,
     periodics = (\<lambda>_. \<lparr>anhe_at = 0, anhe_w = 0\<rparr>), periodiccnt = 0, idles = [], idleall = 0,
     prepares = [], checks = [], forks = [], cleanups = [], asyncs = [], async_pending = False,
     pipe_write_wanted = False, pipe_write_skipped = False, evpipe0 = 0, evpipe1 = 0, curpid = 0, activecnt = 0, loop_count = 0,
     loop_depth = 0, loop_done = 0, postfork = 0, epoll_eperms = [], epoll_eventmax = 0, env = ()\<rparr>"

definition new_loop :: "(wid \<Rightarrow> watcher_kind) \<Rightarrow> unit ev_loop" where
  "new_loop kind = ev_loop_new calm_sys (init_memory kind)"

definition io_kinds :: "wid \<Rightarrow> watcher_kind" where
  "io_kinds w = (if w = pending_w then Ev_Prepare else Ev_Io)"

lemma new_loop_fields:
  "w_kind (new_loop kind) = kind" "w_active (new_loop kind) w = 0" "w_fd (new_loop kind) w = 5"
  "w_events (new_loop kind) w = EV_READ OR EV__IOFDSET" "w_pending (new_loop kind) w = 0"
  "w_at (new_loop kind) w = real w" "w_repeat (new_loop kind) w = 0" "timercnt (new_loop kind) = 0"
  by (simp_all add: new_loop_def ev_loop_new_fields init_memory_def)

lemma new_loop_inv: "kind pending_w = Ev_Prepare \<Longrightarrow> fd_inv 0 (new_loop kind)"
  unfolding new_loop_def by (rule ev_loop_new_inv) (simp_all add: init_memory_def)

lemma new_loop_prio: "w \<noteq> pipe_w \<Longrightarrow> prio_ok (new_loop kind) w"
  by (simp add: new_loop_def ev_loop_new_def loop_init_def loop_zero_def epoll_init_def ev_init_def Let_def
      calm_sys_def init_memory_def prio_ok_def ABSPRI_def EV_MINPRI_def EV_MAXPRI_def NUMPRI_def)

lemma ev_io_start_eperms: "ev_io_start w l = Some l' \<Longrightarrow> epoll_eperms l' = epoll_eperms l"
  by (auto simp: ev_io_start_def Let_def fd_change_def set_anfd_def ev_start_def ev_ref_def set_active_def
      pri_adjust_def split: if_splits option.splits)

definition started_loop :: "unit ev_loop" where
  "started_loop = the (ev_io_start 7 (new_loop io_kinds))"

lemma started_loop:
  "ev_io_start 7 (new_loop io_kinds) = Some started_loop" "fd_inv 0 started_loop"
  "w_active started_loop 7 = 1" "w_kind started_loop = io_kinds"
  "w_fd started_loop = (\<lambda>_. 5)"
proof -
  have "\<exists>l'. ev_io_start 7 (new_loop io_kinds) = Some l' \<and> fd_inv 0 l' \<and> io_frame (new_loop io_kinds) l'
      \<and> w_active l' 7 = 1 \<and> nat (w_fd (new_loop io_kinds) 7) \<in> set (drop 0 (fdchanges l'))
      \<and> w_fd l' = w_fd (new_loop io_kinds) \<and> (\<forall>x. pending_events l' x = pending_events (new_loop io_kinds) x)"
    by (rule ev_io_start_correct[OF new_loop_inv])
       (simp_all add: new_loop_fields io_kinds_def pending_w_def legal_events_def EV_READ_def EV_WRITE_def
          EV__IOFDSET_def EV_ET_def)
  then show "ev_io_start 7 (new_loop io_kinds) = Some started_loop" "fd_inv 0 started_loop"
    "w_active started_loop 7 = 1" "w_kind started_loop = io_kinds" "w_fd started_loop = (\<lambda>_. 5)"
    by (auto simp: started_loop_def io_frame_def new_loop_fields)
qed

text \<open>Feeding an event to a watcher queues it once at its priority: the events of a watcher that
  is already pending are merged into its entry, no other watcher's pending events change, and the
  queues and the \<open>pending\<close> fields stay consistent.\<close>

theorem ev_feed_event_merges:
  assumes "pend_ok l" and "prio_ok l w" and "w \<noteq> pending_w"
  shows "\<exists>l'. ev_feed_event w revents l = Some l' \<and> pend_ok l'
    \<and> pending_events l' w = add_events (pending_events l w) revents
    \<and> (\<forall>x. x \<noteq> w \<longrightarrow> pending_events l' x = pending_events l x)"
  using ev_feed_event_correct[OF assms, of revents] unfolding add_events_def by blast

theorem ev_feed_event_merges_witness:
  "\<exists>l'. ev_feed_event 7 EV_READ (new_loop io_kinds) = Some l' \<and> pend_ok l'
    \<and> pending_events l' 7 = add_events (pending_events (new_loop io_kinds) 7) EV_READ
    \<and> (\<forall>x. x \<noteq> 7 \<longrightarrow> pending_events l' x = pending_events (new_loop io_kinds) x)"
  by (rule ev_feed_event_merges)
     (use new_loop_inv[of io_kinds] in \<open>simp_all add: fd_inv_def new_loop_prio pipe_w_def pending_w_def io_kinds_def\<close>)



text \<open>Starting an inactive io watcher with a descriptor and a legal event mask passes all the
  assertions, puts it on the list of its descriptor, marks the descriptor as changed and keeps the
  invariants.\<close>

theorem ev_io_start_keeps:
  assumes "fd_inv 0 l" and "w_kind l w = Ev_Io" and "w_active l w = 0"
    and "0 \<le> w_fd l w" and "legal_events (w_events l w)"
  shows "\<exists>l'. ev_io_start w l = Some l' \<and> fd_inv 0 l' \<and> w_active l' w = 1
    \<and> w \<in> set (anfd_head (anfds l' ! nat (w_fd l w))) \<and> nat (w_fd l w) \<in> set (fdchanges l')"
proof -
  obtain l' where l': "ev_io_start w l = Some l'" "fd_inv 0 l'" "io_frame l l'" "w_active l' w = 1"
    "nat (w_fd l w) \<in> set (fdchanges l')" "w_fd l' = w_fd l"
    using ev_io_start_correct[OF assms] by auto
  then have "io_active_ok l' w"
    using assms(2) by (simp add: fd_inv_def io_from_def io_frame_def)
  with l' show ?thesis by (simp add: io_active_ok_def)
qed

theorem ev_io_start_keeps_witness:
  "\<exists>l'. ev_io_start 7 (new_loop io_kinds) = Some l' \<and> fd_inv 0 l' \<and> w_active l' 7 = 1
    \<and> 7 \<in> set (anfd_head (anfds l' ! nat (w_fd (new_loop io_kinds) 7)))
    \<and> nat (w_fd (new_loop io_kinds) 7) \<in> set (fdchanges l')"
  by (rule ev_io_start_keeps[OF new_loop_inv])
     (simp_all add: new_loop_fields io_kinds_def pending_w_def legal_events_def EV_READ_def EV_WRITE_def
        EV__IOFDSET_def EV_ET_def)

text \<open>C23: a stopped io watcher is gone: it is not pending, on no descriptor's list and inactive, so
  neither the queue nor a later event of any descriptor invokes it; other pending events stay.\<close>

theorem ev_io_stop_silences:
  assumes "fd_inv 0 l" and "w_kind l w = Ev_Io"
  shows "\<exists>l'. ev_io_stop w l = Some l' \<and> fd_inv 0 l' \<and> w_active l' w = 0 \<and> pending_events l' w = None
    \<and> (\<forall>fd < length (anfds l'). w \<notin> set (anfd_head (anfds l' ! fd)))
    \<and> (\<forall>x. x \<noteq> w \<longrightarrow> pending_events l' x = pending_events l x)"
proof -
  obtain l' where l': "ev_io_stop w l = Some l'" "fd_inv 0 l'" "w_active l' w = 0" "w_pending l' w = 0"
    "\<forall>x. x \<noteq> w \<longrightarrow> pending_events l' x = pending_events l x"
  proof (cases "w_active l w = 0")
    case True
    then show ?thesis
      using ev_io_stop_inactive[OF assms(1) True] that by (auto simp: same_but_pendingD)
  next
    case False
    then show ?thesis using ev_io_stop_active[OF assms False] that by auto
  qed
  moreover have "w \<notin> set (anfd_head (anfds l' ! fd))" if "fd < length (anfds l')" for fd
    using io_from_listed(2)[of 0 l' fd w] l'(2,3) that by (auto simp: fd_inv_def)
  ultimately show ?thesis by (auto simp: pending_events_def)
qed

theorem ev_io_stop_silences_witness:
  "\<exists>l'. ev_io_stop 7 started_loop = Some l' \<and> fd_inv 0 l' \<and> w_active l' 7 = 0 \<and> pending_events l' 7 = None
    \<and> (\<forall>fd < length (anfds l'). 7 \<notin> set (anfd_head (anfds l' ! fd)))
    \<and> (\<forall>x. x \<noteq> 7 \<longrightarrow> pending_events l' x = pending_events started_loop x)"
  by (rule ev_io_stop_silences[OF started_loop(2)])
     (simp add: started_loop io_kinds_def pending_w_def)



text \<open>C37: an event of an old registration of a descriptor (its generation does not match) reaches no
  watcher; any other reaches only watchers on the list of its descriptor, with the part of the
  events they want.\<close>

theorem epoll_event_delivery:
  assumes "fd_inv j l" and "data_fd (ee_data ev) < length (anfds l)"
  defines "a \<equiv> anfds l ! data_fd (ee_data ev)" and "got \<equiv> from_epoll (ee_events ev)"
  shows "\<exists>l'. epoll_event1 sys ev l = Some l' \<and> fd_inv j l'
    \<and> (anfd_egen a \<noteq> data_egen (ee_data ev) \<longrightarrow> (\<forall>x. pending_events l' x = pending_events l x))
    \<and> (\<forall>x. pending_events l' x \<noteq> pending_events l x \<longrightarrow>
          x \<in> set (anfd_head a) \<and> w_events l x AND got \<noteq> 0
          \<and> pending_events l' x = add_events (pending_events l x) (w_events l x AND got))"
proof -
  let ?fd = "data_fd (ee_data ev)"
  define want where "want = (ucast (anfd_events a) :: mask32)"
  define l1 where "l1 = set_anfd ?fd (\<lambda>a. a\<lparr>anfd_emask := ucast want\<rparr>) l"
  have q1: "quiet l l1" unfolding l1_def by (rule quiet_set_anfd) simp
  obtain r l2 where c: "do_epoll_ctl sys (if want \<noteq> 0 then EPOLL_CTL_MOD else EPOLL_CTL_DEL) ?fd
       (ev\<lparr>ee_events := to_epoll want\<rparr>) l1 = (r, l2)" by (metis surj_pair)
  have q2: "quiet l l2" by (rule quiet_trans[OF q1 do_epoll_ctl_quiet[OF c]])
  have dl: "\<exists>l'. fd_event ?fd got k = Some l' \<and> fd_inv j l'
      \<and> (\<forall>x. pending_events l' x \<noteq> pending_events l x \<longrightarrow>
          x \<in> set (anfd_head a) \<and> w_events l x AND got \<noteq> 0
          \<and> pending_events l' x = add_events (pending_events l x) (w_events l x AND got))"
    if q: "quiet l k" for k
  proof -
    have k: "anfd_head (anfds k ! ?fd) = anfd_head a" "w_events k = w_events l" "?fd < length (anfds k)"
      using q assms(2) unfolding quiet_def a_def by auto
    obtain l' where "fd_event ?fd got k = Some l'" "fd_inv j l'"
      "\<forall>x. pending_events l' x =
        (if anfd_reify (anfds k ! ?fd) = 0 \<and> x \<in> set (anfd_head (anfds k ! ?fd)) \<and> w_events k x AND got \<noteq> 0
         then add_events (pending_events k x) (w_events k x AND got) else pending_events k x)"
      using fd_event_correct[OF quiet_keeps(1)[OF q assms(1)] k(3), of got] by blast
    then show ?thesis using k quiet_keeps(5)[OF q] by auto
  qed
  have pf: "fd_inv j (k\<lparr>postfork := p\<rparr>) \<and> pending_events (k\<lparr>postfork := p\<rparr>) x = pending_events l x"
    if "quiet l k" for k p x
  proof -
    have "pending_events (k\<lparr>postfork := p\<rparr>) x = pending_events k x" by (simp add: pending_events_def ABSPRI_def)
    then show ?thesis
      using other_fields_step(1)[OF quiet_keeps(1)[OF that assms(1)]] quiet_keeps(5)[OF that]
      by (simp add: io_step_def)
  qed
  have e: "epoll_event1 sys ev l =
      (if anfd_egen a \<noteq> data_egen (ee_data ev) then Some (l\<lparr>postfork := postfork l OR 2\<rparr>)
       else if got AND NOT want \<noteq> 0 then
         (if r \<noteq> None then Some (l2\<lparr>postfork := postfork l2 OR 2\<rparr>) else fd_event ?fd got l2)
       else fd_event ?fd got l)"
    using assms(2) unfolding epoll_event1_def Let_def want_def[symmetric] got_def[symmetric]
      l1_def[symmetric] a_def[symmetric] c by simp
  show ?thesis
  proof (cases "anfd_egen a \<noteq> data_egen (ee_data ev)")
    case True
    then show ?thesis using e pf[OF quiet_refl] by simp
  next
    case False
    then show ?thesis using e pf[OF q2] dl[OF q2] dl[OF quiet_refl] by simp
  qed
qed

theorem epoll_event_delivery_witness:
  "\<exists>l'. epoll_event1 calm_sys \<lparr>ee_events = EPOLLIN, ee_data = epoll_data 5 3\<rparr> started_loop = Some l' \<and> fd_inv 0 l'"
proof -
  have "5 < length (anfds started_loop)"
    using started_loop by (auto simp: fd_inv_def io_from_def io_active_ok_def io_kinds_def pending_w_def dest: spec[of _ 7])
  moreover have "data_fd (epoll_data 5 3) = 5" by (simp add: data_fd_def epoll_data_def)
  ultimately show ?thesis
    using epoll_event_delivery[OF started_loop(2), of "\<lparr>ee_events = EPOLLIN, ee_data = epoll_data 5 3\<rparr>" calm_sys] by auto
qed

text \<open>\<open>EV_ET\<close> never reaches the kernel: the events of a descriptor are kept in 8 bits, so what
  \<open>fd_reify\<close> passes to the backend never asks for edge triggering, whatever the watchers ask.\<close>

theorem epoll_never_edge_triggered:
  "to_epoll (ucast (wanted_events l ws)) AND EPOLLET = 0"
proof -
  have "ucast e AND EV_ET = 0" for e :: mask8
  proof -
    have "\<not> bit e 20" using bit_imp_le_length[of e 20] by auto
    then have "\<not> bit (ucast e :: mask32) 20" by (simp add: bit_ucast_iff)
    then have "(ucast e :: mask32) AND 2 ^ 20 = 0" by (rule iffD2[OF and_exp_eq_0_iff_not_bit])
    then show ?thesis by (simp add: EV_ET_def)
  qed
  then show ?thesis
    by (simp add: to_epoll_def EPOLLIN_def EPOLLOUT_def EPOLLET_def)
qed

end
