(* ===== verification/Ev_Timers.thy ===== *)
theory Ev_Timers
  imports Ev_Watchers
begin

text \<open>
  Timers and periodics of \<open>open_source/ev.c\<close>: starting, stopping and repeating them on the 4-heap,
  and making those that are due pending.
\<close>

subsection \<open>Timers\<close>

text \<open>A routine of the heap on the timers, and on the periodics.\<close>

definition with_timers :: "(real heap_mem \<Rightarrow> real heap_mem) \<Rightarrow> 'e ev_loop \<Rightarrow> 'e ev_loop" where
  "with_timers f l = (let m = f (timers l, w_active l) in l\<lparr>timers := fst m, w_active := snd m\<rparr>)"

definition with_periodics :: "(real heap_mem \<Rightarrow> real heap_mem) \<Rightarrow> 'e ev_loop \<Rightarrow> 'e ev_loop" where
  "with_periodics f l = (let m = f (periodics l, w_active l) in l\<lparr>periodics := fst m, w_active := snd m\<rparr>)"

definition ev_timer_set :: "wid \<Rightarrow> real \<Rightarrow> real \<Rightarrow> 'e ev_loop \<Rightarrow> 'e ev_loop" where
  "ev_timer_set w after repeat l =
     l\<lparr>w_at := (w_at l)(w := after), w_repeat := (w_repeat l)(w := repeat)\<rparr>"

definition ev_timer_start :: "wid \<Rightarrow> 'e ev_loop \<Rightarrow> 'e ev_loop option" where
  "ev_timer_start w l =
     (if w_active l w \<noteq> 0 then Some l
      else
        (let l1 = set_at w (w_at l w + mn_now l) l in
         if w_repeat l1 w < 0 then None
         else
           (let l2 = ev_start w (timercnt l1 + 1 + HEAP0 - 1) (l1\<lparr>timercnt := timercnt l1 + 1\<rparr>);
                k = w_active l2 w;
                l3 = l2\<lparr>timers := (timers l2)(k := \<lparr>anhe_at = w_at l2 w, anhe_w = w\<rparr>)\<rparr>
            in Some (with_timers (\<lambda>m. upheap m k) l3))))"

definition ev_timer_stop :: "wid \<Rightarrow> 'e ev_loop \<Rightarrow> 'e ev_loop option" where
  "ev_timer_stop w l = do {
     l1 \<leftarrow> clear_pending w l;
     if w_active l1 w = 0 then Some l1
     else
       (let active = w_active l1 w in
        if anhe_w (timers l1 active) \<noteq> w then None
        else
          (let l2 = l1\<lparr>timercnt := timercnt l1 - 1\<rparr>;
               l3 = with_timers (\<lambda>m. heap_remove m (timercnt l2) active) l2;
               l4 = set_at w (w_at l3 w - mn_now l3) l3
           in Some (ev_stop w l4))) }"

definition ev_timer_again :: "wid \<Rightarrow> 'e ev_loop \<Rightarrow> 'e ev_loop option" where
  "ev_timer_again w l = do {
     l1 \<leftarrow> clear_pending w l;
     if w_active l1 w \<noteq> 0 then
       (if w_repeat l1 w \<noteq> 0 then
          (let l2 = set_at w (mn_now l1 + w_repeat l1 w) l1;
               k = w_active l2 w;
               l3 = l2\<lparr>timers := (timers l2)(k := (timers l2 k)\<lparr>anhe_at := w_at l2 w\<rparr>)\<rparr>
           in Some (with_timers (\<lambda>m. adjustheap m (timercnt l3) k) l3))
        else ev_timer_stop w l1)
     else if w_repeat l1 w \<noteq> 0 then ev_timer_start w (set_at w (w_repeat l1 w) l1)
     else Some l1 }"

definition ev_timer_remaining :: "wid \<Rightarrow> 'e ev_loop \<Rightarrow> real" where
  "ev_timer_remaining w l = w_at l w - (if w_active l w \<noteq> 0 then mn_now l else 0)"

text \<open>
  The body of the loop of \<open>timers_reify\<close>: the root is rescheduled when it repeats and stopped
  otherwise.
\<close>

definition timer_due :: "'e ev_loop \<Rightarrow> bool" where
  "timer_due l \<longleftrightarrow> timercnt l \<noteq> 0 \<and> anhe_at (timers l HEAP0) < mn_now l"

definition timers_reify_step :: "'e ev_loop \<Rightarrow> 'e ev_loop option" where
  "timers_reify_step l =
     (let w = anhe_w (timers l HEAP0) in do {
        l1 \<leftarrow>
          (if w_repeat l w \<noteq> 0 then
             (let at1 = w_at l w + w_repeat l w;
                  at2 = (if at1 < mn_now l then mn_now l else at1);
                  l1 = set_at w at2 l
              in if \<not> w_repeat l w > 0 then None
                 else
                   (let l2 = l1\<lparr>timers := (timers l1)(HEAP0 := (timers l1 HEAP0)\<lparr>anhe_at := at2\<rparr>)\<rparr>
                    in Some (with_timers (\<lambda>m. downheap m (timercnt l2) HEAP0) l2)))
           else ev_timer_stop w l);
        Some (feed_reverse w l1) })"

partial_function (option) timers_reify_loop :: "'e ev_loop \<Rightarrow> 'e ev_loop option" where
  "timers_reify_loop l = do {
     l1 \<leftarrow> timers_reify_step l;
     if timer_due l1 then timers_reify_loop l1 else Some l1 }"

definition timers_reify :: "'e ev_loop \<Rightarrow> 'e ev_loop option" where
  "timers_reify l =
     (if timer_due l then do {
        l1 \<leftarrow> timers_reify_loop l;
        feed_reverse_done EV_TIMER l1 }
      else Some l)"

text \<open>\<open>timers_reschedule\<close> shifts all timers.\<close>

definition shift_timer :: "real \<Rightarrow> nat \<Rightarrow> 'e ev_loop \<Rightarrow> 'e ev_loop" where
  "shift_timer adjust i l =
     (let k = i + HEAP0; w = anhe_w (timers l k); l1 = set_at w (w_at l w + adjust) l
      in l1\<lparr>timers := (timers l1)(k := (timers l1 k)\<lparr>anhe_at := w_at l1 w\<rparr>)\<rparr>)"

definition timers_reschedule :: "real \<Rightarrow> 'e ev_loop \<Rightarrow> 'e ev_loop" where
  "timers_reschedule adjust l = fold (shift_timer adjust) [0..<timercnt l] l"

subsection \<open>Periodics\<close>

definition MIN_INTERVAL :: real where "MIN_INTERVAL = 1 / 8192"

text \<open>The search for the next time after now, by steps of the interval.\<close>

partial_function (option) recalc_loop :: "real \<Rightarrow> real \<Rightarrow> real \<Rightarrow> real option" where
  "recalc_loop t interval rt_now =
     (if t \<le> rt_now then
        (if t + interval = t then Some rt_now else recalc_loop (t + interval) interval rt_now)
      else Some t)"

definition periodic_recalc :: "wid \<Rightarrow> 'e ev_loop \<Rightarrow> 'e ev_loop option" where
  "periodic_recalc w l =
     (let interval = (if w_interval l w > MIN_INTERVAL then w_interval l w else MIN_INTERVAL);
          t = w_offset l w + interval * of_int \<lfloor>(ev_rt_now l - w_offset l w) / interval\<rfloor>
      in map_option (\<lambda>t'. set_at w t' l) (recalc_loop t (w_interval l w) (ev_rt_now l)))"

definition ev_periodic_start :: "wid \<Rightarrow> 'e ev_loop \<Rightarrow> 'e ev_loop option" where
  "ev_periodic_start w l =
     (if w_active l w \<noteq> 0 then Some l
      else do {
        l1 \<leftarrow>
          (case w_resched l w of
             Some cb \<Rightarrow> Some (set_at w (cb (ev_rt_now l)) l)
           | None \<Rightarrow>
               (if w_interval l w \<noteq> 0 then
                  (if w_interval l w \<ge> 0 then periodic_recalc w l else None)
                else Some (set_at w (w_offset l w) l)));
        let l2 = ev_start w (periodiccnt l1 + 1 + HEAP0 - 1) (l1\<lparr>periodiccnt := periodiccnt l1 + 1\<rparr>);
        let k = w_active l2 w;
        let l3 = l2\<lparr>periodics := (periodics l2)(k := \<lparr>anhe_at = w_at l2 w, anhe_w = w\<rparr>)\<rparr>;
        Some (with_periodics (\<lambda>m. upheap m k) l3) })"

definition ev_periodic_stop :: "wid \<Rightarrow> 'e ev_loop \<Rightarrow> 'e ev_loop option" where
  "ev_periodic_stop w l = do {
     l1 \<leftarrow> clear_pending w l;
     if w_active l1 w = 0 then Some l1
     else
       (let active = w_active l1 w in
        if anhe_w (periodics l1 active) \<noteq> w then None
        else
          (let l2 = l1\<lparr>periodiccnt := periodiccnt l1 - 1\<rparr>;
               l3 = with_periodics (\<lambda>m. heap_remove m (periodiccnt l2) active) l2
           in Some (ev_stop w l3))) }"

definition ev_periodic_again :: "wid \<Rightarrow> 'e ev_loop \<Rightarrow> 'e ev_loop option" where
  "ev_periodic_again w l = Option.bind (ev_periodic_stop w l) (ev_periodic_start w)"

definition periodic_due :: "'e ev_loop \<Rightarrow> bool" where
  "periodic_due l \<longleftrightarrow> periodiccnt l \<noteq> 0 \<and> anhe_at (periodics l HEAP0) < ev_rt_now l"

definition periodic_sink :: "wid \<Rightarrow> 'e ev_loop \<Rightarrow> 'e ev_loop" where
  "periodic_sink w l =
     (let l1 = l\<lparr>periodics := (periodics l)(HEAP0 := (periodics l HEAP0)\<lparr>anhe_at := w_at l w\<rparr>)\<rparr>
      in with_periodics (\<lambda>m. downheap m (periodiccnt l1) HEAP0) l1)"

definition periodics_reify_step :: "'e ev_loop \<Rightarrow> 'e ev_loop option" where
  "periodics_reify_step l =
     (let w = anhe_w (periodics l HEAP0) in do {
        l1 \<leftarrow>
          (case w_resched l w of
             Some cb \<Rightarrow>
               (if cb (ev_rt_now l) \<ge> ev_rt_now l
                then Some (periodic_sink w (set_at w (cb (ev_rt_now l)) l)) else None)
           | None \<Rightarrow>
               (if w_interval l w \<noteq> 0 then map_option (periodic_sink w) (periodic_recalc w l)
                else ev_periodic_stop w l));
        Some (feed_reverse w l1) })"

partial_function (option) periodics_reify_loop :: "'e ev_loop \<Rightarrow> 'e ev_loop option" where
  "periodics_reify_loop l = do {
     l1 \<leftarrow> periodics_reify_step l;
     if periodic_due l1 then periodics_reify_loop l1 else Some l1 }"

text \<open>The outer loop of the code runs again as long as a periodic is due, which it cannot be when
  the inner one has ended; it is kept.\<close>

partial_function (option) periodics_reify :: "'e ev_loop \<Rightarrow> 'e ev_loop option" where
  "periodics_reify l =
     (if periodic_due l then do {
        l1 \<leftarrow> periodics_reify_loop l;
        l2 \<leftarrow> feed_reverse_done EV_PERIODIC l1;
        periodics_reify l2 }
      else Some l)"

fun reschedule_from :: "nat list \<Rightarrow> 'e ev_loop \<Rightarrow> 'e ev_loop option" where
  "reschedule_from [] l = Some l"
| "reschedule_from (i # is) l =
     (let w = anhe_w (periodics l i) in do {
        l1 \<leftarrow>
          (case w_resched l w of
             Some cb \<Rightarrow> Some (set_at w (cb (ev_rt_now l)) l)
           | None \<Rightarrow> (if w_interval l w \<noteq> 0 then periodic_recalc w l else Some l));
        reschedule_from is
          (l1\<lparr>periodics := (periodics l1)(i := (periodics l1 i)\<lparr>anhe_at := w_at l1 w\<rparr>)\<rparr>) })"

definition periodics_reschedule :: "'e ev_loop \<Rightarrow> 'e ev_loop option" where
  "periodics_reschedule l =
     map_option (\<lambda>l1. with_periodics (\<lambda>m. reheap m (periodiccnt l1)) l1)
       (reschedule_from [HEAP0..<periodiccnt l + HEAP0] l)"

subsection \<open>The invariant of a heap of watchers\<close>

text \<open>
  The heap \<open>h\<close> holds exactly the active watchers of kind \<open>K\<close>, each at the index in its \<open>active\<close>
  field, with its time cached.
\<close>

definition heap_inv :: "watcher_kind \<Rightarrow> (nat \<Rightarrow> real anhe) \<Rightarrow> nat \<Rightarrow> 'e ev_loop \<Rightarrow> bool" where
  "heap_inv K h n l \<longleftrightarrow> heap_ok (h, w_active l) n
   \<and> (\<forall>e \<in> set (heap_entries h n). w_kind l (anhe_w e) = K \<and> anhe_at e = w_at l (anhe_w e)
        \<and> prio_ok l (anhe_w e))
   \<and> (\<forall>w. w_kind l w = K \<and> w_active l w \<noteq> 0 \<longrightarrow> w \<in> anhe_w ` set (heap_entries h n))"

lemma heap_entry: "HEAP0 \<le> k \<Longrightarrow> k < n + HEAP0 \<Longrightarrow> h k \<in> set (heap_entries h n)"
  by (auto simp: heap_entries_def)

lemma heap_inv_index:
  "heap_inv K h n l \<Longrightarrow> HEAP0 \<le> k \<Longrightarrow> k < n + HEAP0 \<Longrightarrow> w_active l (anhe_w (h k)) = k"
  by (simp add: heap_inv_def heap_ok_def heap_indexed_def)

lemma heap_inv_ok: "heap_inv K h n l \<Longrightarrow> heap_ok (h, w_active l) n"
  by (simp add: heap_inv_def)

lemma heap_inv_conv:
  "heap_inv K h n l \<Longrightarrow> w_kind l w = K \<Longrightarrow> w_active l w \<noteq> 0 \<Longrightarrow> w \<in> anhe_w ` set (heap_entries h n)"
  by (simp add: heap_inv_def)

lemma heap_ok_act:
  assumes "heap_ok (h, act) n" and "\<And>e. e \<in> set (heap_entries h n) \<Longrightarrow> act' (anhe_w e) = act (anhe_w e)"
  shows "heap_ok (h, act') n"
  using assms heap_entry[of _ n h] by (auto simp: heap_ok_def heap_indexed_def)

lemma heap_inv_active:
  assumes "heap_inv K h n l" "w_kind l w = K" "w_active l w \<noteq> 0"
  shows "HEAP0 \<le> w_active l w" "w_active l w < n + HEAP0" "h (w_active l w) = \<lparr>anhe_at = w_at l w, anhe_w = w\<rparr>"
    "0 < n"
proof -
  obtain e where e: "e \<in> set (heap_entries h n)" "anhe_w e = w"
    using assms by (auto simp: heap_inv_def)
  then obtain k where k: "HEAP0 \<le> k" "k < n + HEAP0" "h k = e" by (auto simp: heap_entries_def)
  then have "w_active l w = k" using heap_inv_index[OF assms(1) k(1,2)] e(2) by simp
  moreover have "e = \<lparr>anhe_at = w_at l w, anhe_w = w\<rparr>" using assms(1) e by (cases e) (auto simp: heap_inv_def)
  ultimately show "HEAP0 \<le> w_active l w" "w_active l w < n + HEAP0"
    "h (w_active l w) = \<lparr>anhe_at = w_at l w, anhe_w = w\<rparr>" "0 < n" using k by auto
qed

lemma heap_inv_listed:
  assumes "heap_inv K h n l" "e \<in> set (heap_entries h n)"
  shows "w_active l (anhe_w e) \<noteq> 0" "w_kind l (anhe_w e) = K" "anhe_at e = w_at l (anhe_w e)" "prio_ok l (anhe_w e)"
proof -
  obtain k where "HEAP0 \<le> k" "k < n + HEAP0" "h k = e" using assms(2) by (auto simp: heap_entries_def)
  then show "w_active l (anhe_w e) \<noteq> 0"
    using assms(1) by (auto simp: heap_inv_def heap_ok_def heap_indexed_def HEAP0_def DHEAP_def)
qed (use assms in \<open>simp_all add: heap_inv_def\<close>)

lemma heap_inv_cong:
  assumes "heap_inv K h n l" "w_kind l' = w_kind l"
    and "\<And>w. w_kind l w = K \<Longrightarrow> w_active l' w = w_active l w"
    and "\<And>w. w_kind l w = K \<Longrightarrow> w_active l w \<noteq> 0 \<Longrightarrow> w_at l' w = w_at l w \<and> ABSPRI l' w = ABSPRI l w"
  shows "heap_inv K h n l'"
proof -
  note lst = heap_inv_listed[OF assms(1)]
  have "heap_ok (h, w_active l') n"
    by (rule heap_ok_act[OF heap_inv_ok[OF assms(1)] assms(3)[OF lst(2)]])
  moreover have "w_kind l' (anhe_w e) = K \<and> anhe_at e = w_at l' (anhe_w e) \<and> prio_ok l' (anhe_w e)"
    if "e \<in> set (heap_entries h n)" for e
    using lst[OF that] assms(2,4) by (simp add: prio_ok_def)
  moreover have "w \<in> anhe_w ` set (heap_entries h n)" if "w_kind l' w = K" "w_active l' w \<noteq> 0" for w
    using that assms(1,2,3) by (simp add: heap_inv_def)
  ultimately show ?thesis by (simp add: heap_inv_def)
qed

lemma heap_inv_distinct:
  assumes "heap_inv K h n l"
  shows "distinct (map anhe_w (heap_entries h n))"
  unfolding distinct_conv_nth
proof (intro allI impI)
  fix i j assume ij: "i < length (map anhe_w (heap_entries h n))" "j < length (map anhe_w (heap_entries h n))" "i \<noteq> j"
  have "w_active l (anhe_w (h (i + HEAP0))) = i + HEAP0" "w_active l (anhe_w (h (j + HEAP0))) = j + HEAP0"
    using heap_inv_index[OF assms] ij by auto
  then have "anhe_w (h (i + HEAP0)) \<noteq> anhe_w (h (j + HEAP0))" using ij(3) by auto
  then show "map anhe_w (heap_entries h n) ! i \<noteq> map anhe_w (heap_entries h n) ! j"
    using ij by (simp add: heap_entries_nth)
qed

lemma heap_inv_insert:
  assumes inv: "heap_inv K h n l" and w: "w_kind l w = K" "w_active l w = 0"
    and l3: "w_kind l3 = w_kind l" "w_at l3 = (w_at l)(w := t)" "w_active l3 = (w_active l)(w := n + HEAP0)"
      "prio_ok l3 w" "\<And>x. x \<noteq> w \<Longrightarrow> ABSPRI l3 x = ABSPRI l x"
  defines "m \<equiv> upheap (h(n + HEAP0 := \<lparr>anhe_at = t, anhe_w = w\<rparr>), w_active l3) (n + HEAP0)"
  shows "heap_inv K (fst m) (Suc n) (l3\<lparr>w_active := snd m\<rparr>)"
    and "mset (heap_entries (fst m) (Suc n)) = add_mset \<lparr>anhe_at = t, anhe_w = w\<rparr> (mset (heap_entries h n))"
    and "\<And>x. w_kind l x \<noteq> K \<Longrightarrow> snd m x = w_active l x"
proof -
  let ?he = "\<lparr>anhe_at = t, anhe_w = w\<rparr>"
  let ?h1 = "h(n + HEAP0 := ?he)"
  note lst = heap_inv_listed[OF inv]
  have nw: "anhe_w e \<noteq> w" if "e \<in> set (heap_entries h n)" for e
    using lst(1)[OF that] w(2) by auto
  have ok3: "heap_ok (h, w_active l3) n"
  proof (rule heap_ok_act[OF heap_inv_ok[OF inv]])
    show "w_active l3 (anhe_w e) = w_active l (anhe_w e)" if "e \<in> set (heap_entries h n)" for e
      using nw[OF that] by (simp add: l3)
  qed
  have ws: "anhe_w (h j) \<noteq> anhe_w ?he" if "HEAP0 \<le> j" "j < n + HEAP0" for j
    using nw[OF heap_entry[OF that]] by simp
  have res: "heap_result (?h1, w_active l3) m (Suc n)"
    using heap_insert_correct[OF ok3, of ?he] ws by (simp add: m_def)
  have "map ?h1 [HEAP0..<n + HEAP0] = map h [HEAP0..<n + HEAP0]" by (intro map_cong) auto
  then have ent: "heap_entries ?h1 (Suc n) = heap_entries h n @ [?he]"
    by (simp add: heap_entries_def)
  show ms: "mset (heap_entries (fst m) (Suc n)) = add_mset ?he (mset (heap_entries h n))"
    using res ent by (simp add: heap_result_def)
  then have st: "set (heap_entries (fst m) (Suc n)) = insert ?he (set (heap_entries h n))"
    using mset_eq_setD[of "heap_entries (fst m) (Suc n)" "?he # heap_entries h n"] by simp
  have act: "snd m x = w_active l3 x" if "x \<notin> insert w (anhe_w ` set (heap_entries h n))" for x
    using res ent that by (simp add: heap_result_def)
  show oth: "snd m x = w_active l x" if "w_kind l x \<noteq> K" for x
  proof -
    have "x \<notin> insert w (anhe_w ` set (heap_entries h n))" using that w(1) lst(2) by blast
    then show ?thesis using act[of x] l3(3) by simp
  qed
  have "heap_ok (fst m, snd m) (Suc n)" using res by (simp add: heap_result_def)
  moreover have "w_kind l (anhe_w e) = K \<and> anhe_at e = ((w_at l)(w := t)) (anhe_w e) \<and> prio_ok l3 (anhe_w e)"
    if "e \<in> insert ?he (set (heap_entries h n))" for e
    using that
  proof
    assume "e = ?he"
    then show ?thesis using w l3(4) by simp
  next
    assume e: "e \<in> set (heap_entries h n)"
    then show ?thesis using lst(2,3,4)[OF e] nw[OF e] l3(5) by (simp add: prio_ok_def)
  qed
  moreover have "x \<in> insert w (anhe_w ` set (heap_entries h n))" if "w_kind l x = K" "snd m x \<noteq> 0" for x
  proof (rule ccontr)
    assume n: "x \<notin> insert w (anhe_w ` set (heap_entries h n))"
    then have "w_active l x \<noteq> 0" using act[OF n] that(2) l3(3) by (auto split: if_splits)
    with n heap_inv_conv[OF inv that(1)] show False by blast
  qed
  moreover have "prio_ok (l3\<lparr>w_active := a\<rparr>) x = prio_ok l3 x" for a x by (simp add: prio_ok_def ABSPRI_def)
  ultimately show "heap_inv K (fst m) (Suc n) (l3\<lparr>w_active := snd m\<rparr>)"
    by (simp add: heap_inv_def st l3)
qed

lemma heap_inv_remove:
  assumes inv: "heap_inv K h (Suc n) l" and w: "w_kind l w = K" "w_active l w \<noteq> 0"
    and l3: "w_kind l3 = w_kind l" "\<And>x. x \<noteq> w \<Longrightarrow> w_at l3 x = w_at l x" "\<And>x. ABSPRI l3 x = ABSPRI l x"
      "w_active l3 = (snd m)(w := 0)"
    and m: "m = heap_remove (h, w_active l) n (w_active l w)"
  shows "heap_inv K (fst m) n l3"
    and "add_mset \<lparr>anhe_at = w_at l w, anhe_w = w\<rparr> (mset (heap_entries (fst m) n)) = mset (heap_entries h (Suc n))"
    and "\<And>x. w_kind l x \<noteq> K \<Longrightarrow> w_active l3 x = w_active l x"
proof -
  let ?he = "\<lparr>anhe_at = w_at l w, anhe_w = w\<rparr>"
  note k = heap_inv_active[OF inv w]
  note lst = heap_inv_listed[OF inv]
  have ok: "heap_ok (h, w_active l) (Suc n)" using inv by (simp add: heap_inv_def)
  note r = heap_remove_correct[OF ok k(1), folded m]
  show ms: "add_mset ?he (mset (heap_entries (fst m) n)) = mset (heap_entries h (Suc n))"
    using r(2) k(2,3) by simp
  have st: "set (heap_entries h (Suc n)) = insert ?he (set (heap_entries (fst m) n))"
    using ms by (metis set_mset_add_mset_insert set_mset_mset)
  have dist: "distinct (map anhe_w (?he # heap_entries (fst m) n))"
  proof -
    have "mset (map anhe_w (?he # heap_entries (fst m) n)) = mset (map anhe_w (heap_entries h (Suc n)))"
      unfolding mset_map ms[symmetric] by simp
    then show ?thesis using heap_inv_distinct[OF inv] mset_eq_imp_distinct_iff by blast
  qed
  then have nw: "anhe_w e \<noteq> w" if "e \<in> set (heap_entries (fst m) n)" for e using that by auto
  have act: "snd m x = w_active l x" if "x \<notin> anhe_w ` set (heap_entries h (Suc n))" for x
    using r(3)[of x] k(2) that by simp
  show oth: "w_active l3 x = w_active l x" if "w_kind l x \<noteq> K" for x
  proof -
    have "x \<notin> anhe_w ` set (heap_entries h (Suc n))" "x \<noteq> w" using that w(1) lst(2) by blast+
    then show ?thesis using act[of x] l3(4) by simp
  qed
  have "heap_ok (fst m, w_active l3) n"
  proof (rule heap_ok_act)
    show "heap_ok (fst m, snd m) n" using r(1) k(2) by simp
    show "w_active l3 (anhe_w e) = snd m (anhe_w e)" if "e \<in> set (heap_entries (fst m) n)" for e
      using nw[OF that] by (simp add: l3)
  qed
  moreover have "w_kind l3 (anhe_w e) = K \<and> anhe_at e = w_at l3 (anhe_w e) \<and> prio_ok l3 (anhe_w e)"
    if "e \<in> set (heap_entries (fst m) n)" for e
  proof -
    have "e \<in> set (heap_entries h (Suc n))" using that st by simp
    then show ?thesis using lst(2,3,4) nw[OF that] l3(1,2,3) by (simp add: prio_ok_def)
  qed
  moreover have "x \<in> anhe_w ` set (heap_entries (fst m) n)" if x: "w_kind l3 x = K" "w_active l3 x \<noteq> 0" for x
  proof (rule ccontr)
    assume n: "x \<notin> anhe_w ` set (heap_entries (fst m) n)"
    have "x \<noteq> w" using x l3(4) by auto
    with n have ni: "x \<notin> anhe_w ` set (heap_entries h (Suc n))" by (auto simp: st)
    then have "w_active l x \<noteq> 0" using act x(2) \<open>x \<noteq> w\<close> l3(4) by auto
    with ni heap_inv_conv[OF inv, of x] x(1) show False by (simp add: l3(1))
  qed
  ultimately show "heap_inv K (fst m) n l3" by (simp add: heap_inv_def)
qed

lemma heap_inv_update:
  assumes inv: "heap_inv K h n l" and w: "w_kind l w = K" "w_active l w \<noteq> 0"
    and res: "heap_result (h(w_active l w := \<lparr>anhe_at = t, anhe_w = w\<rparr>), w_active l) m n"
    and l3: "w_kind l3 = w_kind l" "w_at l3 = (w_at l)(w := t)" "\<And>x. ABSPRI l3 x = ABSPRI l x"
      "w_active l3 = snd m"
  shows "heap_inv K (fst m) n l3"
    and "add_mset \<lparr>anhe_at = w_at l w, anhe_w = w\<rparr> (mset (heap_entries (fst m) n))
        = add_mset \<lparr>anhe_at = t, anhe_w = w\<rparr> (mset (heap_entries h n))"
    and "\<And>x. w_kind l x \<noteq> K \<Longrightarrow> w_active l3 x = w_active l x"
    and "\<And>x. w_active l3 x = 0 \<longleftrightarrow> w_active l x = 0"
proof -
  let ?k = "w_active l w" and ?he = "\<lparr>anhe_at = t, anhe_w = w\<rparr>" and ?old = "\<lparr>anhe_at = w_at l w, anhe_w = w\<rparr>"
  note k = heap_inv_active[OF inv w]
  note lst = heap_inv_listed[OF inv]
  have ent: "heap_entries (h(?k := ?he)) n = (heap_entries h n)[?k - HEAP0 := ?he]"
    by (rule heap_entries_upd[OF k(1,2)])
  have nth: "heap_entries h n ! (?k - HEAP0) = ?old" "?k - HEAP0 < n"
    using k by (auto simp: heap_entries_nth)
  have ws: "map anhe_w (heap_entries (h(?k := ?he)) n) = map anhe_w (heap_entries h n)"
  proof -
    have "map anhe_w ((heap_entries h n)[?k - HEAP0 := ?he]) = (map anhe_w (heap_entries h n))[?k - HEAP0 := w]"
      by (simp add: map_update)
    also have "\<dots> = map anhe_w (heap_entries h n)"
      using nth by (intro list_update_same_conv[THEN iffD2]) auto
    finally show ?thesis by (simp only: ent)
  qed
  have m1: "mset (heap_entries (fst m) n) = mset (heap_entries (h(?k := ?he)) n)"
    using res by (simp add: heap_result_def)
  have "?old \<in># mset (heap_entries h n)" using nth nth_mem[of "?k - HEAP0" "heap_entries h n"] by simp
  then show ms: "add_mset ?old (mset (heap_entries (fst m) n)) = add_mset ?he (mset (heap_entries h n))"
    unfolding m1 ent using nth by (simp add: mset_update)
  have st: "set (heap_entries (fst m) n) = set (heap_entries (h(?k := ?he)) n)" by (rule mset_eq_setD[OF m1])
  have wset: "anhe_w ` set (heap_entries (fst m) n) = anhe_w ` set (heap_entries h n)"
    unfolding st set_map[symmetric] ws ..
  have act: "snd m x = w_active l x" if "x \<notin> anhe_w ` set (heap_entries h n)" for x
  proof -
    have "x \<notin> anhe_w ` set (heap_entries (h(?k := ?he)) n)"
      using that unfolding set_map[symmetric] ws .
    then show ?thesis using res unfolding heap_result_def fst_conv snd_conv by blast
  qed
  show oth: "w_active l3 x = w_active l x" if "w_kind l x \<noteq> K" for x
  proof -
    have "x \<notin> anhe_w ` set (heap_entries h n)" using that lst(2) by blast
    then show ?thesis using act[of x] l3(4) by simp
  qed
  have okm: "heap_ok (fst m, w_active l3) n" using res by (simp add: heap_result_def l3)
  have el: "w_kind l3 (anhe_w e) = K \<and> anhe_at e = w_at l3 (anhe_w e) \<and> prio_ok l3 (anhe_w e)"
    if "e \<in> set (heap_entries (fst m) n)" for e
  proof -
    have "e \<in> set (heap_entries (h(?k := ?he)) n)" using that unfolding st .
    then obtain j where j: "HEAP0 \<le> j" "j < n + HEAP0" "(h(?k := ?he)) j = e"
      unfolding heap_entries_def set_map set_upt image_iff
      by (metis atLeastLessThan_iff)
    show ?thesis
    proof (cases "j = ?k")
      case True
      then have "e = ?he" using j by simp
      moreover have "prio_ok l w" using lst(4)[OF heap_entry[OF k(1,2)]] k(3) by simp
      ultimately show ?thesis using w l3 by (simp add: prio_ok_def)
    next
      case False
      then have e: "h j = e" using j by simp
      have "anhe_w e \<noteq> w"
      proof
        assume "anhe_w e = w"
        then have "?k = j" using heap_inv_index[OF inv j(1,2)] e by simp
        with False show False by simp
      qed
      with lst(2,3,4)[OF heap_entry[OF j(1,2)]] e l3 show ?thesis by (simp add: prio_ok_def)
    qed
  qed
  have conv: "x \<in> anhe_w ` set (heap_entries (fst m) n)" if "w_kind l3 x = K" "w_active l3 x \<noteq> 0" for x
  proof (rule ccontr)
    assume "x \<notin> anhe_w ` set (heap_entries (fst m) n)"
    then have "x \<notin> anhe_w ` set (heap_entries h n)" by (simp add: wset)
    then have "w_active l x = 0" using heap_inv_conv[OF inv, of x] that(1) l3(1) by auto
    then show False using act[of x] \<open>x \<notin> anhe_w ` set (heap_entries h n)\<close> that(2) l3(4) by simp
  qed
  show inv3: "heap_inv K (fst m) n l3" using okm el conv by (simp add: heap_inv_def)
  show "w_active l3 x = 0 \<longleftrightarrow> w_active l x = 0" for x
  proof (cases "x \<in> anhe_w ` set (heap_entries h n)")
    case True
    then have "x \<in> anhe_w ` set (heap_entries (fst m) n)" by (simp only: wset)
    then have "w_active l3 x \<noteq> 0" using heap_inv_listed(1)[OF inv3] by blast
    moreover have "w_active l x \<noteq> 0" using True lst(1) by blast
    ultimately show ?thesis by simp
  next
    case False
    then show ?thesis using act l3(4) by simp
  qed
qed

subsection \<open>Starting and stopping timers\<close>

definition timers_ok :: "'e ev_loop \<Rightarrow> bool" where
  "timers_ok l \<longleftrightarrow> heap_inv Ev_Timer (timers l) (timercnt l) l"

definition timer_entries :: "'e ev_loop \<Rightarrow> real anhe multiset" where
  "timer_entries l = mset (heap_entries (timers l) (timercnt l))"

text \<open>What the operations on timers leave alone.\<close>

definition timer_frame :: "'e ev_loop \<Rightarrow> 'e ev_loop \<Rightarrow> bool" where
  "timer_frame l l' \<longleftrightarrow> w_kind l' = w_kind l \<and> w_repeat l' = w_repeat l \<and> mn_now l' = mn_now l
   \<and> w_fd l' = w_fd l \<and> w_events l' = w_events l \<and> anfds l' = anfds l \<and> fdchanges l' = fdchanges l
   \<and> periodics l' = periodics l \<and> periodiccnt l' = periodiccnt l
   \<and> (\<forall>x. w_kind l x \<noteq> Ev_Timer \<longrightarrow>
        w_active l' x = w_active l x \<and> w_priority l' x = w_priority l x \<and> w_at l' x = w_at l x)"

lemma timer_frame_refl [simp]: "timer_frame l l"
  by (simp add: timer_frame_def)

lemma timer_frame_trans: "timer_frame a b \<Longrightarrow> timer_frame b c \<Longrightarrow> timer_frame a c"
  by (simp add: timer_frame_def)

lemma timer_frame_same: "same_but_pending l l' \<Longrightarrow> timer_frame l l'"
  by (simp add: timer_frame_def same_but_pendingD)

lemma timers_ok_same: "timers_ok l \<Longrightarrow> same_but_pending l l' \<Longrightarrow> timers_ok l'"
  unfolding timers_ok_def by (simp add: same_but_pendingD) (rule heap_inv_cong, simp_all add: same_but_pendingD)

lemma timer_frame_io:
  assumes "timer_frame l l'" "io_from j l"
  shows "io_from j l'"
proof -
  have k: "w_kind l' = w_kind l" "fdchanges l' = fdchanges l" "anfds l' = anfds l" "w_fd l' = w_fd l"
    "w_events l' = w_events l"
    using assms(1) by (simp_all add: timer_frame_def)
  have a: "w_active l' x = w_active l x" "w_priority l' x = w_priority l x" if "w_kind l x = Ev_Io" for x
    using assms(1) that by (simp_all add: timer_frame_def)
  have "anfd_ok l' C fd b = anfd_ok l C fd b" for C fd b
    using k a by (auto simp: anfd_ok_def wanted_events_def)
  moreover have "io_active_ok l' x" if "w_kind l x = Ev_Io" "w_active l x \<noteq> 0" for x
    using assms(2) that k a(2)[OF that(1)] by (simp add: io_from_def io_active_ok_def prio_ok_def ABSPRI_def)
  ultimately have "\<forall>x. w_kind l' x = Ev_Io \<and> w_active l' x \<noteq> 0 \<longrightarrow> io_active_ok l' x"
    and "anfd_ok l' C fd b = anfd_ok l C fd b" for C fd b
    using k(1) a(1) by auto
  then show ?thesis using assms(2) k(1,2,3) by (simp add: io_from_def)
qed

lemma ev_timer_start_correct:
  assumes ok: "timers_ok l" and pend: "pend_ok l" and w: "w_kind l w = Ev_Timer" "w_active l w = 0"
    and rep: "0 \<le> w_repeat l w"
  shows "\<exists>l'. ev_timer_start w l = Some l' \<and> timers_ok l' \<and> pend_ok l' \<and> timer_frame l l'
    \<and> timer_entries l' = add_mset \<lparr>anhe_at = w_at l w + mn_now l, anhe_w = w\<rparr> (timer_entries l)
    \<and> w_active l' w \<noteq> 0 \<and> w_at l' = (w_at l)(w := w_at l w + mn_now l)
    \<and> (\<forall>x. pending_events l' x = pending_events l x) \<and> rfeeds l' = rfeeds l"
proof -
  let ?t = "w_at l w + mn_now l" and ?n = "timercnt l"
  define l1 where "l1 = set_at w ?t l"
  define l1' where "l1' = l1\<lparr>timercnt := ?n + 1\<rparr>"
  define l2 where "l2 = ev_start w (?n + 1 + HEAP0 - 1) l1'"
  have p1: "pend_ok l1'" "pending_events l1' x = pending_events l x" for x
    by (rule pend_ok_cong[OF pend]; simp add: l1'_def l1_def set_at_def ABSPRI_def)+
  note st = ev_start_correct[OF p1(1), where w = w and n = "?n + 1 + HEAP0 - 1", folded l2_def]
  have L2: "w_kind l2 = w_kind l" "w_at l2 = (w_at l)(w := ?t)" "w_active l2 = (w_active l)(w := ?n + HEAP0)"
    "timers l2 = timers l" "timercnt l2 = Suc ?n" "w_repeat l2 = w_repeat l" "mn_now l2 = mn_now l"
    "w_fd l2 = w_fd l" "w_events l2 = w_events l" "anfds l2 = anfds l" "fdchanges l2 = fdchanges l"
    "periodics l2 = periodics l" "periodiccnt l2 = periodiccnt l" "rfeeds l2 = rfeeds l"
    by (simp_all add: l2_def ev_start_def ev_ref_def set_active_def pri_adjust_def Let_def l1'_def l1_def set_at_def)
  have A2: "ABSPRI l2 x = ABSPRI l x" if "x \<noteq> w" for x
    using st(3)[OF that] by (simp add: ABSPRI_def l1'_def l1_def set_at_def)
  define m where "m = upheap ((timers l)(?n + HEAP0 := \<lparr>anhe_at = ?t, anhe_w = w\<rparr>), w_active l2) (?n + HEAP0)"
  note ins = heap_inv_insert[OF ok[unfolded timers_ok_def] w L2(1,2,3) st(2) A2, folded m_def]
  define l' where "l' = l2\<lparr>timers := fst m, w_active := snd m\<rparr>"
  have "ev_timer_start w l = Some l'"
    using w(2) rep L2
    by (simp add: ev_timer_start_def Let_def l1_def[symmetric] l'_def with_timers_def m_def l2_def l1'_def)
       (simp add: l1_def set_at_def)
  moreover have ti: "timers l' = fst m" "timercnt l' = Suc ?n" "w_active l' = snd m" "w_at l' = (w_at l)(w := ?t)"
    "w_kind l' = w_kind l" "rfeeds l' = rfeeds l" "w_priority l' = w_priority l2"
    by (simp_all add: l'_def L2)
  moreover have tok: "timers_ok l'"
    unfolding timers_ok_def ti(1,2)
    by (rule heap_inv_cong[OF ins(1)]) (simp_all add: l'_def ABSPRI_def)
  moreover have "pend_ok l'" "pending_events l' x = pending_events l2 x" for x
    by (rule pend_ok_cong[OF st(1)]; simp add: l'_def ABSPRI_def)+
  moreover have "timer_entries l' = add_mset \<lparr>anhe_at = ?t, anhe_w = w\<rparr> (timer_entries l)"
    using ins(2) by (simp add: timer_entries_def ti)
  moreover have "timer_frame l l'"
  proof -
    have "w_priority l2 x = w_priority l x" if "w_kind l x \<noteq> Ev_Timer" for x
      using A2[of x] that w(1) by (auto simp: ABSPRI_def)
    moreover have "w_at l' x = w_at l x" if "w_kind l x \<noteq> Ev_Timer" for x
      using that w(1) by (auto simp: l'_def L2)
    ultimately show ?thesis using ins(3) by (simp add: timer_frame_def l'_def L2)
  qed
  moreover have "w_active l' w \<noteq> 0"
  proof -
    have "\<lparr>anhe_at = ?t, anhe_w = w\<rparr> \<in> set (heap_entries (timers l') (timercnt l'))"
      using ins(2) mset_eq_setD[of "heap_entries (fst m) (Suc ?n)" "\<lparr>anhe_at = ?t, anhe_w = w\<rparr> # heap_entries (timers l) ?n"]
      by (simp add: ti)
    then show ?thesis using heap_inv_listed(1) tok unfolding timers_ok_def by fastforce
  qed
  ultimately show ?thesis using st(4) p1(2) by simp
qed

lemma ev_timer_stop_active:
  assumes ok: "timers_ok l" and pend: "pend_ok l" and w: "w_kind l w = Ev_Timer" "w_active l w \<noteq> 0"
  shows "\<exists>l'. ev_timer_stop w l = Some l' \<and> timers_ok l' \<and> pend_ok l' \<and> timer_frame l l'
    \<and> add_mset \<lparr>anhe_at = w_at l w, anhe_w = w\<rparr> (timer_entries l') = timer_entries l
    \<and> w_active l' w = 0 \<and> w_at l' = (w_at l)(w := w_at l w - mn_now l) \<and> w_priority l' = w_priority l
    \<and> pending_events l' w = None \<and> (\<forall>x. x \<noteq> w \<longrightarrow> pending_events l' x = pending_events l x)
    \<and> rfeeds l' = rfeeds l"
proof -
  obtain l1 where l1: "clear_pending w l = Some l1" "pend_ok l1" "same_but_pending l l1" "w_pending l1 w = 0"
    "\<forall>x. x \<noteq> w \<longrightarrow> pending_events l1 x = pending_events l x"
    using clear_pending_correct[OF pend] by blast
  note s1 = same_but_pendingD[OF l1(3)]
  note inv = ok[unfolded timers_ok_def]
  note act = heap_inv_active[OF inv w]
  obtain n where n: "timercnt l = Suc n" using act(4) by (cases "timercnt l") auto
  define k where "k = w_active l w"
  define m where "m = heap_remove (timers l, w_active l) n k"
  define l3 where "l3 = with_timers (\<lambda>m. heap_remove m n k) (l1\<lparr>timercnt := n\<rparr>)"
  define l' where "l' = ev_stop w (set_at w (w_at l3 w - mn_now l3) l3)"
  have L3: "timers l3 = fst m" "w_active l3 = snd m" "timercnt l3 = n" "w_at l3 = w_at l" "mn_now l3 = mn_now l"
    "w_kind l3 = w_kind l" "w_priority l3 = w_priority l" "w_pending l3 = w_pending l1" "pendings l3 = pendings l1"
    "rfeeds l3 = rfeeds l" "w_repeat l3 = w_repeat l" "w_fd l3 = w_fd l" "w_events l3 = w_events l"
    "anfds l3 = anfds l" "fdchanges l3 = fdchanges l" "periodics l3 = periodics l" "periodiccnt l3 = periodiccnt l"
    by (simp_all add: l3_def with_timers_def Let_def m_def s1)
  have ti: "timers l' = fst m" "w_active l' = (snd m)(w := 0)" "timercnt l' = n"
    "w_at l' = (w_at l)(w := w_at l w - mn_now l)" "w_kind l' = w_kind l" "w_priority l' = w_priority l"
    "w_pending l' = w_pending l1" "pendings l' = pendings l1" "rfeeds l' = rfeeds l" "ABSPRI l' x = ABSPRI l x"
    "mn_now l' = mn_now l" "w_repeat l' = w_repeat l" "w_fd l' = w_fd l" "w_events l' = w_events l"
    "anfds l' = anfds l" "fdchanges l' = fdchanges l" "periodics l' = periodics l" "periodiccnt l' = periodiccnt l" for x
    by (simp_all add: l'_def ev_stop_def ev_unref_def set_active_def set_at_def L3 ABSPRI_def)
  have "ev_timer_stop w l = Some l'"
    using w(2) act(3) n
    by (simp add: ev_timer_stop_def l1(1) s1 Let_def l'_def l3_def k_def)
  moreover have "w_at l' x = w_at l x" if "x \<noteq> w" for x using that by (simp add: ti)
  note rem = heap_inv_remove[OF inv[unfolded n] w ti(5) this ti(10) ti(2) m_def[unfolded k_def]]
  moreover have "timers_ok l'" using rem(1) by (simp add: timers_ok_def ti)
  moreover have "add_mset \<lparr>anhe_at = w_at l w, anhe_w = w\<rparr> (timer_entries l') = timer_entries l"
    using rem(2) by (simp add: timer_entries_def ti n)
  moreover have po: "pend_ok l'" "pending_events l' x = pending_events l1 x" for x
    by (rule pend_ok_cong[OF l1(2)]; simp add: ti s1)+
  moreover have "timer_frame l l'"
    using rem(3) w(1) by (auto simp: timer_frame_def ti)
  moreover have "pending_events l' w = None" using po(2) l1(4) by (simp add: pending_events_def)
  ultimately show ?thesis using l1(5) by (simp add: ti)
qed
subsection \<open>Timers that are due\<close>

text \<open>Which timers \<open>timers_reify\<close> has to report.\<close>

definition due_timer :: "'e ev_loop \<Rightarrow> wid \<Rightarrow> bool" where
  "due_timer l w \<longleftrightarrow> w_kind l w = Ev_Timer \<and> w_active l w \<noteq> 0 \<and> w_at l w < mn_now l"

definition timer_entry :: "'e ev_loop \<Rightarrow> wid \<Rightarrow> real anhe" where
  "timer_entry l w = \<lparr>anhe_at = w_at l w, anhe_w = w\<rparr>"

lemma timer_entries_iff:
  assumes "timers_ok l"
  shows "e \<in># timer_entries l \<longleftrightarrow> w_kind l (anhe_w e) = Ev_Timer \<and> w_active l (anhe_w e) \<noteq> 0 \<and> e = timer_entry l (anhe_w e)"
proof
  assume "e \<in># timer_entries l"
  then have "e \<in> set (heap_entries (timers l) (timercnt l))" by (simp add: timer_entries_def)
  from heap_inv_listed[OF assms[unfolded timers_ok_def] this]
  show "w_kind l (anhe_w e) = Ev_Timer \<and> w_active l (anhe_w e) \<noteq> 0 \<and> e = timer_entry l (anhe_w e)"
    by (simp add: timer_entry_def)
next
  assume a: "w_kind l (anhe_w e) = Ev_Timer \<and> w_active l (anhe_w e) \<noteq> 0 \<and> e = timer_entry l (anhe_w e)"
  note act = heap_inv_active[OF assms[unfolded timers_ok_def], of "anhe_w e"]
  have "timers l (w_active l (anhe_w e)) = e" using act(3) a by (simp add: timer_entry_def)
  then show "e \<in># timer_entries l"
    using heap_entry[of "w_active l (anhe_w e)" "timercnt l" "timers l"] act(1,2) a
    by (simp add: timer_entries_def)
qed

lemma timer_root:
  assumes ok: "timers_ok l" and n: "timercnt l \<noteq> 0"
  defines "w \<equiv> anhe_w (timers l HEAP0)"
  shows "w_kind l w = Ev_Timer" "w_active l w = HEAP0" "timers l HEAP0 = timer_entry l w"
    "\<And>x. w_kind l x = Ev_Timer \<Longrightarrow> w_active l x \<noteq> 0 \<Longrightarrow> w_at l w \<le> w_at l x"
    "anhe_at (timers l HEAP0) = w_at l w"
proof -
  note inv = ok[unfolded timers_ok_def]
  have root: "timers l HEAP0 \<in> set (heap_entries (timers l) (timercnt l))"
    using n by (intro heap_entry) auto
  note lst = heap_inv_listed[OF inv root]
  show "w_kind l w = Ev_Timer" "anhe_at (timers l HEAP0) = w_at l w"
    using lst(2,3) by (simp_all add: w_def)
  show "w_active l w = HEAP0" unfolding w_def using n by (intro heap_inv_index[OF inv]) auto
  show e: "timers l HEAP0 = timer_entry l w" using lst(3) by (simp add: timer_entry_def w_def)
  show "w_at l w \<le> w_at l x" if "w_kind l x = Ev_Timer" "w_active l x \<noteq> 0" for x
  proof -
    have "timer_entry l x \<in># timer_entries l"
      using timer_entries_iff[OF ok, of "timer_entry l x"] that by (simp add: timer_entry_def)
    then have "anhe_at (fst (timers l, w_active l) HEAP0) \<le> anhe_at (timer_entry l x)"
      by (intro heap_ok_root[OF heap_inv_ok[OF inv]]) (simp add: timer_entries_def)
    then show ?thesis using e by (simp add: timer_entry_def)
  qed
qed

lemma due_iff: "timers_ok l \<Longrightarrow> timer_due l \<longleftrightarrow> (\<exists>w. due_timer l w)"
proof
  assume ok: "timers_ok l" and "timer_due l"
  then have "timercnt l \<noteq> 0" "anhe_at (timers l HEAP0) < mn_now l" by (auto simp: timer_due_def)
  with timer_root(1,2,5)[OF ok] have "due_timer l (anhe_w (timers l HEAP0))"
    unfolding due_timer_def by (simp add: HEAP0_def DHEAP_def)
  then show "\<exists>w. due_timer l w" by blast
next
  assume ok: "timers_ok l" and "\<exists>w. due_timer l w"
  then obtain w where w: "w_kind l w = Ev_Timer" "w_active l w \<noteq> 0" "w_at l w < mn_now l" by (auto simp: due_timer_def)
  have n: "timercnt l \<noteq> 0" using heap_inv_active(4)[OF ok[unfolded timers_ok_def] w(1,2)] by simp
  have "anhe_at (timers l HEAP0) \<le> w_at l w"
    using timer_root(4)[OF ok n w(1,2)] by (simp only: timer_root(5)[OF ok n])
  with w(3) n show "timer_due l" by (simp add: timer_due_def)
qed

text \<open>One round: the first due timer is reported and is due no more, the other timers stay.\<close>

lemma timers_reify_step_correct:
  assumes ok: "timers_ok l" and pend: "pend_ok l" and due: "timer_due l"
    and rep: "\<forall>w. due_timer l w \<longrightarrow> 0 \<le> w_repeat l w"
  defines "w \<equiv> anhe_w (timers l HEAP0)"
  shows "\<exists>l'. timers_reify_step l = Some l' \<and> timers_ok l' \<and> pend_ok l' \<and> timer_frame l l'
    \<and> rfeeds l' = rfeeds l @ [w] \<and> due_timer l w \<and> \<not> due_timer l' w
    \<and> (\<forall>x. x \<noteq> w \<longrightarrow> (w_active l' x = 0 \<longleftrightarrow> w_active l x = 0) \<and> w_at l' x = w_at l x)
    \<and> (w_active l' w = 0 \<longleftrightarrow> w_repeat l w = 0) \<and> w_priority l' = w_priority l
    \<and> (\<forall>x. pending_events l' x = (if x = w \<and> w_repeat l w = 0 then None else pending_events l x))"
proof -
  have n: "timercnt l \<noteq> 0" and lt: "anhe_at (timers l HEAP0) < mn_now l" using due by (auto simp: timer_due_def)
  note root = timer_root[OF ok n, folded w_def]
  have act: "w_active l w \<noteq> 0" using root(2) by (simp add: HEAP0_def DHEAP_def)
  have dw: "due_timer l w" using root(1,5) act lt by (simp add: due_timer_def)
  note inv = ok[unfolded timers_ok_def]
  show ?thesis
  proof (cases "w_repeat l w = 0")
    case True
    obtain l1 where l1: "ev_timer_stop w l = Some l1" "timers_ok l1" "pend_ok l1" "timer_frame l l1"
      "add_mset \<lparr>anhe_at = w_at l w, anhe_w = w\<rparr> (timer_entries l1) = timer_entries l"
      "w_active l1 w = 0" "w_at l1 = (w_at l)(w := w_at l w - mn_now l)" "w_priority l1 = w_priority l"
      "pending_events l1 w = None" "\<forall>x. x \<noteq> w \<longrightarrow> pending_events l1 x = pending_events l x" "rfeeds l1 = rfeeds l"
      using ev_timer_stop_active[OF ok pend root(1) act] by blast
    define l' where "l' = feed_reverse w l1"
    have L: "timers l' = timers l1" "timercnt l' = timercnt l1" "w_active l' = w_active l1" "w_at l' = w_at l1"
      "w_kind l' = w_kind l1" "ABSPRI l' x = ABSPRI l1 x" "w_priority l' = w_priority l1" "rfeeds l' = rfeeds l1 @ [w]"
      "w_pending l' = w_pending l1" "pendings l' = pendings l1" for x
      by (simp_all add: l'_def feed_reverse_def ABSPRI_def)
    have "timers_reify_step l = Some l'"
      using True l1(1) by (simp add: timers_reify_step_def Let_def w_def[symmetric] l'_def)
    moreover have "timers_ok l'"
      unfolding timers_ok_def L(1,2)
      by (rule heap_inv_cong[OF l1(2)[unfolded timers_ok_def]]) (simp_all add: L)
    moreover have "pend_ok l'" "pending_events l' x = pending_events l1 x" for x
      by (rule pend_ok_cong[OF l1(3)]; simp add: L)+
    moreover have "timer_frame l l'" using l1(4) by (simp add: timer_frame_def l'_def feed_reverse_def)
    moreover have "(w_active l' x = 0) = (w_active l x = 0)" if "x \<noteq> w" for x
    proof (cases "w_kind l x = Ev_Timer")
      case False
      then show ?thesis using l1(4) L(3) by (simp add: timer_frame_def)
    next
      case K: True
      have k1: "w_kind l1 = w_kind l" using l1(4) by (simp add: timer_frame_def)
      have iff: "timer_entry l x \<in># timer_entries l \<longleftrightarrow> timer_entry l1 x \<in># timer_entries l1"
        using that l1(7) by (simp flip: l1(5) add: timer_entry_def)
      show ?thesis
        using timer_entries_iff[OF ok, of "timer_entry l x"] timer_entries_iff[OF l1(2), of "timer_entry l1 x"] iff K k1
        by (auto simp: timer_entry_def L(3))
    qed
    ultimately show ?thesis
      using True dw l1(6,7,8,9,10,11) by (simp add: L due_timer_def)
  next
    case False
    then have pos: "0 < w_repeat l w" using rep dw by fastforce
    define at2 where "at2 = (if w_at l w + w_repeat l w < mn_now l then mn_now l else w_at l w + w_repeat l w)"
    define h1 where "h1 = (timers l)(HEAP0 := \<lparr>anhe_at = at2, anhe_w = w\<rparr>)"
    define m where "m = downheap (h1, w_active l) (timercnt l) HEAP0"
    define l' where "l' = feed_reverse w ((set_at w at2 l)\<lparr>timers := fst m, w_active := snd m\<rparr>)"
    have h1: "(timers l)(HEAP0 := (timers l HEAP0)\<lparr>anhe_at := at2\<rparr>) = h1"
      unfolding h1_def by (subst root(3)) (simp add: timer_entry_def)
    have L: "timers l' = fst m" "timercnt l' = timercnt l" "w_active l' = snd m" "w_at l' = (w_at l)(w := at2)"
      "w_kind l' = w_kind l" "ABSPRI l' x = ABSPRI l x" "w_priority l' = w_priority l" "rfeeds l' = rfeeds l @ [w]"
      "w_pending l' = w_pending l" "pendings l' = pendings l" "mn_now l' = mn_now l" for x
      by (simp_all add: l'_def feed_reverse_def ABSPRI_def set_at_def)
    have near: "near_heap (h1, w_active l) (timercnt l) HEAP0"
      unfolding h1_def
    proof (rule heap_ok_change[OF heap_inv_ok[OF inv], unfolded fst_conv snd_conv])
      show "HEAP0 < timercnt l + HEAP0" using n by simp
      fix j assume j: "HEAP0 \<le> j" "j < timercnt l + HEAP0" "j \<noteq> HEAP0"
      show "anhe_w (timers l j) \<noteq> anhe_w \<lparr>anhe_at = at2, anhe_w = w\<rparr>"
        using heap_inv_index[OF inv j(1,2)] root(2) j(3) by auto
    qed simp
    have res: "heap_result (h1, w_active l) m (timercnt l)"
      unfolding m_def using n near by (intro downheap_correct) auto
    note upd = heap_inv_update[OF inv root(1) act res[unfolded h1_def root(2)[symmetric]] L(5,4,6,3)]
    have "timers_reify_step l = Some l'"
      using False pos
      by (simp add: timers_reify_step_def Let_def w_def[symmetric] with_timers_def set_at_def l'_def m_def
          at2_def[symmetric] h1)
    moreover have "timers_ok l'" using upd(1) by (simp add: timers_ok_def L)
    moreover have "pend_ok l'" "pending_events l' x = pending_events l x" for x
      by (rule pend_ok_cong[OF pend]; simp add: L)+
    moreover have "timer_frame l l'"
      using upd(3) root(1) by (auto simp: timer_frame_def L) (simp_all add: l'_def feed_reverse_def set_at_def)
    moreover have "\<not> due_timer l' w" by (simp add: due_timer_def L at2_def)
    moreover have "snd m w \<noteq> 0" using upd(4)[of w] act L(3) by simp
    ultimately show ?thesis
      using False dw upd(4) act by (simp add: L)
  qed
qed
lemma finite_due: "timers_ok l \<Longrightarrow> finite {w. due_timer l w}"
proof -
  assume ok: "timers_ok l"
  have "{w. due_timer l w} \<subseteq> anhe_w ` set_mset (timer_entries l)"
  proof
    fix w assume "w \<in> {w. due_timer l w}"
    then have "timer_entry l w \<in># timer_entries l"
      using timer_entries_iff[OF ok, of "timer_entry l w"] by (simp add: due_timer_def timer_entry_def)
    then have "anhe_w (timer_entry l w) \<in> anhe_w ` set_mset (timer_entries l)" by (rule imageI)
    then show "w \<in> anhe_w ` set_mset (timer_entries l)" by (simp add: timer_entry_def)
  qed
  then show ?thesis by (rule finite_subset) simp
qed

text \<open>The whole loop: it ends, and reports every due timer once, in the order of their times.\<close>

lemma timers_reify_loop_correct:
  assumes "timers_ok l" and "pend_ok l" and "timer_due l"
    and "\<forall>w. due_timer l w \<longrightarrow> 0 \<le> w_repeat l w"
  shows "\<exists>l' ws. timers_reify_loop l = Some l' \<and> timers_ok l' \<and> pend_ok l' \<and> timer_frame l l'
    \<and> rfeeds l' = rfeeds l @ ws \<and> distinct ws \<and> set ws = {w. due_timer l w} \<and> sorted (map (w_at l) ws)
    \<and> \<not> timer_due l' \<and> w_priority l' = w_priority l
    \<and> (\<forall>x. \<not> due_timer l x \<longrightarrow> (w_active l' x = 0 \<longleftrightarrow> w_active l x = 0) \<and> w_at l' x = w_at l x)
    \<and> (\<forall>x. due_timer l x \<longrightarrow> (w_active l' x = 0 \<longleftrightarrow> w_repeat l x = 0))
    \<and> (\<forall>x. pending_events l' x = (if due_timer l x \<and> w_repeat l x = 0 then None else pending_events l x))"
  using assms
proof (induction "card {w. due_timer l w}" arbitrary: l rule: less_induct)
  case less
  note ok = less.prems(1)
  define w where "w = anhe_w (timers l HEAP0)"
  obtain l1 where l1: "timers_reify_step l = Some l1" "timers_ok l1" "pend_ok l1" "timer_frame l l1"
    "rfeeds l1 = rfeeds l @ [w]" "due_timer l w" "\<not> due_timer l1 w"
    "\<forall>x. x \<noteq> w \<longrightarrow> (w_active l1 x = 0 \<longleftrightarrow> w_active l x = 0) \<and> w_at l1 x = w_at l x"
    "w_active l1 w = 0 \<longleftrightarrow> w_repeat l w = 0" "w_priority l1 = w_priority l"
    "\<forall>x. pending_events l1 x = (if x = w \<and> w_repeat l w = 0 then None else pending_events l x)"
    using timers_reify_step_correct[OF less.prems, folded w_def] by (elim exE conjE) (rule that; assumption)
  have k1: "w_kind l1 = w_kind l" "mn_now l1 = mn_now l" "w_repeat l1 = w_repeat l"
    using l1(4) by (simp_all add: timer_frame_def)
  have due1: "due_timer l1 x \<longleftrightarrow> due_timer l x \<and> x \<noteq> w" for x
    using l1(7,8) k1 by (cases "x = w") (auto simp: due_timer_def)
  have first: "w_at l w \<le> w_at l x" if "due_timer l x" for x
  proof -
    have "timercnt l \<noteq> 0" using less.prems(3) by (simp add: timer_due_def)
    from timer_root(4)[OF ok this] that show ?thesis by (simp add: due_timer_def w_def)
  qed
  show ?case
  proof (cases "timer_due l1")
    case False
    then have none: "\<not> due_timer l1 x" for x using due_iff[OF l1(2)] by blast
    then have only: "due_timer l x \<longleftrightarrow> x = w" for x using due1[of x] l1(6) by auto
    have "timers_reify_loop l = Some l1" using l1(1) False by (subst timers_reify_loop.simps) simp
    with l1 only False show ?thesis by (intro exI[of _ l1] exI[of _ "[w]"]) auto
  next
    case True
    have D: "{x. due_timer l1 x} = {x. due_timer l x} - {w}" using due1 by auto
    have card: "card {x. due_timer l1 x} < card {x. due_timer l x}"
      unfolding D using finite_due[OF ok] l1(6) by (intro card_Diff1_less) auto
    have "\<forall>x. due_timer l1 x \<longrightarrow> 0 \<le> w_repeat l1 x" using less.prems(4) due1 k1 by auto
    then obtain l' ws where l': "timers_reify_loop l1 = Some l'" "timers_ok l'" "pend_ok l'" "timer_frame l1 l'"
      "rfeeds l' = rfeeds l1 @ ws" "distinct ws" "set ws = {w. due_timer l1 w}" "sorted (map (w_at l1) ws)"
      "\<not> timer_due l'" "w_priority l' = w_priority l1"
      "\<forall>x. \<not> due_timer l1 x \<longrightarrow> (w_active l' x = 0 \<longleftrightarrow> w_active l1 x = 0) \<and> w_at l' x = w_at l1 x"
      "\<forall>x. due_timer l1 x \<longrightarrow> (w_active l' x = 0 \<longleftrightarrow> w_repeat l1 x = 0)"
      "\<forall>x. pending_events l' x = (if due_timer l1 x \<and> w_repeat l1 x = 0 then None else pending_events l1 x)"
      using less.hyps[OF card l1(2,3) True] by blast
    have "timers_reify_loop l = Some l'" using l1(1) True l'(1) by (subst timers_reify_loop.simps) simp
    moreover have "rfeeds l' = rfeeds l @ w # ws" using l'(5) l1(5) by simp
    moreover have "distinct (w # ws)" "set (w # ws) = {x. due_timer l x}"
      using l'(6,7) D l1(6) by auto
    moreover have "sorted (map (w_at l) (w # ws))"
    proof -
      have e: "map (w_at l1) ws = map (w_at l) ws" using l'(7) D l1(8) by (intro map_cong) auto
      have "sorted (map (w_at l) ws)" using l'(8) by (simp only: e)
      then show ?thesis using l'(7) D first by auto
    qed
    moreover have "timer_frame l l'" by (rule timer_frame_trans[OF l1(4) l'(4)])
    moreover have "(w_active l' x = 0 \<longleftrightarrow> w_active l x = 0) \<and> w_at l' x = w_at l x" if "\<not> due_timer l x" for x
      using l'(11) l1(6,8) due1 that by (cases "x = w") auto
    moreover have "w_active l' x = 0 \<longleftrightarrow> w_repeat l x = 0" if "due_timer l x" for x
      using l'(11,12) l1(9) due1 that k1 by (cases "x = w") auto
    moreover have "pending_events l' x = (if due_timer l x \<and> w_repeat l x = 0 then None else pending_events l x)" for x
      using l'(13) l1(6,11) due1 k1 by (cases "x = w") auto
    ultimately show ?thesis using l'(2,3,9,10) l1(10) by (intro exI[of _ l'] exI[of _ "w # ws"]) simp
  qed
qed

lemma timers_reify_correct:
  assumes ok: "timers_ok l" and pend: "pend_ok l" and rf: "rfeeds l = []"
    and rep: "\<forall>w. due_timer l w \<longrightarrow> 0 \<le> w_repeat l w" and pw: "w_kind l pending_w = Ev_Prepare"
  shows "\<exists>l'. timers_reify l = Some l' \<and> timers_ok l' \<and> pend_ok l' \<and> timer_frame l l' \<and> rfeeds l' = []
    \<and> (\<forall>w. \<not> due_timer l' w)
    \<and> (\<forall>x. due_timer l x \<longrightarrow> (w_active l' x = 0 \<longleftrightarrow> w_repeat l x = 0))
    \<and> (\<forall>x. pending_events l' x =
        (if due_timer l x then Some (case pending_events l x of None \<Rightarrow> EV_TIMER
            | Some e \<Rightarrow> if w_repeat l x = 0 then EV_TIMER else e OR EV_TIMER)
         else pending_events l x))"
proof (cases "timer_due l")
  case False
  then have "\<not> due_timer l w" for w using due_iff[OF ok] by blast
  with False ok pend rf show ?thesis by (simp add: timers_reify_def)
next
  case True
  obtain l1 ws where l1: "timers_reify_loop l = Some l1" "timers_ok l1" "pend_ok l1" "timer_frame l l1"
    "rfeeds l1 = rfeeds l @ ws" "distinct ws" "set ws = {w. due_timer l w}" "\<not> timer_due l1"
    "w_priority l1 = w_priority l"
    "\<forall>x. due_timer l x \<longrightarrow> (w_active l1 x = 0 \<longleftrightarrow> w_repeat l x = 0)"
    "\<forall>x. pending_events l1 x = (if due_timer l x \<and> w_repeat l x = 0 then None else pending_events l x)"
    using timers_reify_loop_correct[OF ok pend True rep] by blast
  define l2 where "l2 = l1\<lparr>rfeeds := []\<rparr>"
  have L2: "timers l2 = timers l1" "timercnt l2 = timercnt l1" "ABSPRI l2 x = ABSPRI l x" "w_priority l2 = w_priority l1"
    "w_pending l2 = w_pending l1" "pendings l2 = pendings l1" "rfeeds l2 = []" "w_active l2 = w_active l1"
    "w_kind l2 = w_kind l1" "w_at l2 = w_at l1" "mn_now l2 = mn_now l1" for x
    by (simp_all add: l2_def ABSPRI_def l1)
  have p2: "pend_ok l2" "pending_events l2 x = pending_events l1 x" for x
    by (rule pend_ok_cong[OF l1(3)]; simp add: L2; simp add: ABSPRI_def l1)+
  have ok2: "timers_ok l2"
    unfolding timers_ok_def L2(1,2)
    by (rule heap_inv_cong[OF l1(2)[unfolded timers_ok_def]]) (simp_all add: L2, simp add: ABSPRI_def l1)
  have ws: "ws \<noteq> []" using l1(7) due_iff[OF ok] True by auto
  have "\<forall>w \<in> set (rev ws). prio_ok l2 w \<and> w \<noteq> pending_w"
  proof
    fix w assume "w \<in> set (rev ws)"
    then have d: "due_timer l w" using l1(7) by simp
    then have "timer_entry l w \<in> set (heap_entries (timers l) (timercnt l))"
      using timer_entries_iff[OF ok, of "timer_entry l w"] by (simp add: due_timer_def timer_entry_def timer_entries_def)
    from heap_inv_listed(4)[OF ok[unfolded timers_ok_def] this] have "prio_ok l w" by (simp add: timer_entry_def)
    moreover have "w \<noteq> pending_w" using d pw by (auto simp: due_timer_def)
    ultimately show "prio_ok l2 w \<and> w \<noteq> pending_w" by (simp add: prio_ok_def L2)
  qed
  then obtain l' where l': "feed_all (rev ws) EV_TIMER l2 = Some l'" "pend_ok l'" "same_but_pending l2 l'"
    "\<forall>x. pending_events l' x =
        (if x \<in> set (rev ws) then Some (case pending_events l2 x of None \<Rightarrow> EV_TIMER | Some e \<Rightarrow> e OR EV_TIMER)
         else pending_events l2 x)"
    using feed_all_correct[OF p2(1), of "rev ws" EV_TIMER] l1(6) by auto
  note s = same_but_pendingD[OF l'(3)]
  have "timers_reify l = Some l'"
    using True l1(1,5) rf ws l'(1) by (simp add: timers_reify_def feed_reverse_done_def l2_def)
  moreover have "timers_ok l'" by (rule timers_ok_same[OF ok2 l'(3)])
  moreover have "timer_frame l l2" using l1(4) by (simp add: timer_frame_def l2_def)
  then have "timer_frame l l'" by (rule timer_frame_trans[OF _ timer_frame_same[OF l'(3)]])
  moreover have "\<not> due_timer l' w" for w
    using due_iff[OF l1(2)] l1(8) by (simp add: due_timer_def s L2)
  moreover have "w_active l' x = 0 \<longleftrightarrow> w_repeat l x = 0" if "due_timer l x" for x
    using l1(10) that by (simp add: s L2)
  moreover have "pending_events l' x =
        (if due_timer l x then Some (case pending_events l x of None \<Rightarrow> EV_TIMER
            | Some e \<Rightarrow> if w_repeat l x = 0 then EV_TIMER else e OR EV_TIMER)
         else pending_events l x)" for x
    using l'(4) l1(7,11) p2(2) by (auto split: option.splits)
  ultimately show ?thesis using l'(2) by (simp add: s L2)
qed

end
