(* ===== verification/Ev_Arrays.thy ===== *)
theory Ev_Arrays
  imports Ev_Epoll
begin

text \<open>
  The watchers of \<open>open_source/ev.c\<close> that are kept in an array by their index: prepare, check, fork,
  cleanup and async watchers, and the idle watchers with one array for every priority. Also the
  wake-up pipe and \<open>ev_async_send\<close>.
\<close>

subsection \<open>Arrays of watchers\<close>

text \<open>
  The code has the same lines for every array: a started watcher goes to the end, and the last one
  takes the place of a stopped one. \<open>arr\<close> reads the array and \<open>upd\<close> writes it.
\<close>

definition array_start ::
  "('e ev_loop \<Rightarrow> wid list) \<Rightarrow> (wid list \<Rightarrow> 'e ev_loop \<Rightarrow> 'e ev_loop) \<Rightarrow> wid \<Rightarrow> 'e ev_loop \<Rightarrow> 'e ev_loop"
  where
  "array_start arr upd w l =
     (let l1 = ev_start w (length (arr l) + 1) l in upd (arr l1 @ [w]) l1)"

definition array_unlink ::
  "('e ev_loop \<Rightarrow> wid list) \<Rightarrow> (wid list \<Rightarrow> 'e ev_loop \<Rightarrow> 'e ev_loop) \<Rightarrow> wid \<Rightarrow> 'e ev_loop \<Rightarrow> 'e ev_loop option"
  where
  "array_unlink arr upd w l =
     (let active = w_active l w; ws = arr l in
      if active = 0 \<or> length ws < active then None
      else
        (let x = ws ! (length ws - 1)
         in Some (set_active x active (upd (butlast (ws[active - 1 := x])) l))))"

definition array_stop ::
  "('e ev_loop \<Rightarrow> wid list) \<Rightarrow> (wid list \<Rightarrow> 'e ev_loop \<Rightarrow> 'e ev_loop) \<Rightarrow> wid \<Rightarrow> 'e ev_loop \<Rightarrow> 'e ev_loop option"
  where
  "array_stop arr upd w l = map_option (ev_stop w) (array_unlink arr upd w l)"

definition ev_prepare_start :: "wid \<Rightarrow> 'e ev_loop \<Rightarrow> 'e ev_loop" where
  "ev_prepare_start w l =
     (if w_active l w \<noteq> 0 then l else array_start prepares (\<lambda>ws. prepares_update (\<lambda>_. ws)) w l)"

definition ev_prepare_stop :: "wid \<Rightarrow> 'e ev_loop \<Rightarrow> 'e ev_loop option" where
  "ev_prepare_stop w l = do {
     l1 \<leftarrow> clear_pending w l;
     if w_active l1 w = 0 then Some l1 else array_stop prepares (\<lambda>ws. prepares_update (\<lambda>_. ws)) w l1 }"

definition ev_check_start :: "wid \<Rightarrow> 'e ev_loop \<Rightarrow> 'e ev_loop" where
  "ev_check_start w l =
     (if w_active l w \<noteq> 0 then l else array_start checks (\<lambda>ws. checks_update (\<lambda>_. ws)) w l)"

definition ev_check_stop :: "wid \<Rightarrow> 'e ev_loop \<Rightarrow> 'e ev_loop option" where
  "ev_check_stop w l = do {
     l1 \<leftarrow> clear_pending w l;
     if w_active l1 w = 0 then Some l1 else array_stop checks (\<lambda>ws. checks_update (\<lambda>_. ws)) w l1 }"

definition ev_fork_start :: "wid \<Rightarrow> 'e ev_loop \<Rightarrow> 'e ev_loop" where
  "ev_fork_start w l =
     (if w_active l w \<noteq> 0 then l else array_start forks (\<lambda>ws. forks_update (\<lambda>_. ws)) w l)"

definition ev_fork_stop :: "wid \<Rightarrow> 'e ev_loop \<Rightarrow> 'e ev_loop option" where
  "ev_fork_stop w l = do {
     l1 \<leftarrow> clear_pending w l;
     if w_active l1 w = 0 then Some l1 else array_stop forks (\<lambda>ws. forks_update (\<lambda>_. ws)) w l1 }"

text \<open>A cleanup watcher holds no reference on the loop.\<close>

definition ev_cleanup_start :: "wid \<Rightarrow> 'e ev_loop \<Rightarrow> 'e ev_loop" where
  "ev_cleanup_start w l =
     (if w_active l w \<noteq> 0 then l else ev_unref (array_start cleanups (\<lambda>ws. cleanups_update (\<lambda>_. ws)) w l))"

definition ev_cleanup_stop :: "wid \<Rightarrow> 'e ev_loop \<Rightarrow> 'e ev_loop option" where
  "ev_cleanup_stop w l = do {
     l1 \<leftarrow> clear_pending w l;
     if w_active l1 w = 0 then Some l1
     else array_stop cleanups (\<lambda>ws. cleanups_update (\<lambda>_. ws)) w (ev_ref l1) }"

subsection \<open>The wake-up pipe and async watchers\<close>

text \<open>
  \<open>sys_evpipe\<close> makes the descriptors (an \<open>eventfd\<close> or a pipe) and sets their flags; on a later
  call the write end keeps its number.
\<close>

definition evpipe_init :: "'e sys \<Rightarrow> 'e ev_loop \<Rightarrow> 'e ev_loop option" where
  "evpipe_init sys l =
     (if w_active l pipe_w \<noteq> 0 then Some l
      else
        (let ((fd0, fd1), e1) = sys_evpipe sys (env l);
             l1 = l\<lparr>env := e1, evpipe0 := fd0\<rparr>;
             l2 = (if evpipe1 l1 < 0 then l1\<lparr>evpipe1 := fd1\<rparr>
                   else l1\<lparr>env := sys_dup2 sys fd1 (evpipe1 l1) (env l1)\<rparr>);
             l3 = ev_io_set pipe_w (if evpipe0 l2 < 0 then evpipe1 l2 else evpipe0 l2) EV_READ l2
         in map_option ev_unref (ev_io_start pipe_w l3)))"

definition evpipe_write :: "'e sys \<Rightarrow> 'e ev_loop \<Rightarrow> 'e ev_loop" where
  "evpipe_write sys l =
     (if async_pending l then l
      else
        (let l1 = l\<lparr>async_pending := True, pipe_write_skipped := True\<rparr> in
         if pipe_write_wanted l1
         then l1\<lparr>pipe_write_skipped := False, env := sys_pipe_write sys (evpipe1 l1) (env l1)\<rparr>
         else l1))"

text \<open>The sweep over the async watchers goes from the last to the first.\<close>

fun async_sweep :: "wid list \<Rightarrow> 'e ev_loop \<Rightarrow> 'e ev_loop option" where
  "async_sweep [] l = Some l"
| "async_sweep (w # ws) l =
     (if w_sent l w
      then Option.bind (ev_feed_event w EV_ASYNC (l\<lparr>w_sent := (w_sent l)(w := False)\<rparr>)) (async_sweep ws)
      else async_sweep ws l)"

definition pipecb :: "'e sys \<Rightarrow> mask32 \<Rightarrow> 'e ev_loop \<Rightarrow> 'e ev_loop option" where
  "pipecb sys revents l =
     (let l1 = (if revents AND EV_READ \<noteq> 0
                then l\<lparr>env := sys_pipe_read sys (if evpipe0 l < 0 then evpipe1 l else evpipe0 l) (env l)\<rparr>
                else l);
          l2 = l1\<lparr>pipe_write_skipped := False\<rparr>
      in if async_pending l2 then async_sweep (rev (asyncs l2)) (l2\<lparr>async_pending := False\<rparr>) else Some l2)"

definition ev_async_start :: "'e sys \<Rightarrow> wid \<Rightarrow> 'e ev_loop \<Rightarrow> 'e ev_loop option" where
  "ev_async_start sys w l =
     (if w_active l w \<noteq> 0 then Some l
      else map_option (array_start asyncs (\<lambda>ws. asyncs_update (\<lambda>_. ws)) w)
        (evpipe_init sys (l\<lparr>w_sent := (w_sent l)(w := False)\<rparr>)))"

definition ev_async_stop :: "wid \<Rightarrow> 'e ev_loop \<Rightarrow> 'e ev_loop option" where
  "ev_async_stop w l = do {
     l1 \<leftarrow> clear_pending w l;
     if w_active l1 w = 0 then Some l1 else array_stop asyncs (\<lambda>ws. asyncs_update (\<lambda>_. ws)) w l1 }"

definition ev_async_send :: "'e sys \<Rightarrow> wid \<Rightarrow> 'e ev_loop \<Rightarrow> 'e ev_loop" where
  "ev_async_send sys w l = evpipe_write sys (l\<lparr>w_sent := (w_sent l)(w := True)\<rparr>)"

subsection \<open>Idle watchers\<close>

text \<open>The array of the watcher's priority, which \<open>pri_adjust\<close> brings into range first.\<close>

definition idle_row :: "nat \<Rightarrow> 'e ev_loop \<Rightarrow> wid list" where
  "idle_row pri l = idles l ! pri"

definition set_idle_row :: "nat \<Rightarrow> wid list \<Rightarrow> 'e ev_loop \<Rightarrow> 'e ev_loop" where
  "set_idle_row pri ws l = l\<lparr>idles := (idles l)[pri := ws]\<rparr>"

definition ev_idle_start :: "wid \<Rightarrow> 'e ev_loop \<Rightarrow> 'e ev_loop" where
  "ev_idle_start w l =
     (if w_active l w \<noteq> 0 then l
      else
        (let l1 = pri_adjust w l; pri = nat (ABSPRI l1 w)
         in array_start (idle_row pri) (set_idle_row pri) w (l1\<lparr>idleall := idleall l1 + 1\<rparr>)))"

definition ev_idle_stop :: "wid \<Rightarrow> 'e ev_loop \<Rightarrow> 'e ev_loop option" where
  "ev_idle_stop w l = do {
     l1 \<leftarrow> clear_pending w l;
     if w_active l1 w = 0 then Some l1
     else
       (let pri = nat (ABSPRI l1 w) in
        if ABSPRI l1 w < 0 \<or> length (idles l1) \<le> pri then None
        else map_option (\<lambda>l2. l2\<lparr>idleall := idleall l2 - 1\<rparr>)
               (array_stop (idle_row pri) (set_idle_row pri) w l1)) }"

fun idle_scan :: "nat \<Rightarrow> 'e ev_loop \<Rightarrow> 'e ev_loop option" where
  "idle_scan 0 l = Some l"
| "idle_scan (Suc pri) l =
     (if pendings l ! pri \<noteq> [] then Some l
      else if idles l ! pri \<noteq> [] then queue_events (idles l ! pri) EV_IDLE l
      else idle_scan pri l)"

definition idle_reify :: "'e ev_loop \<Rightarrow> 'e ev_loop option" where
  "idle_reify l = (if idleall l \<noteq> 0 then idle_scan NUMPRI l else Some l)"

subsection \<open>What an array of watchers promises\<close>

text \<open>
  \<open>owns l w\<close> says that the watcher belongs to the array when it is active. The invariant: the array
  holds exactly the active watchers it owns, each at the index its \<open>active\<close> field says.
\<close>

definition array_ok ::
  "('e ev_loop \<Rightarrow> wid \<Rightarrow> bool) \<Rightarrow> ('e ev_loop \<Rightarrow> wid list) \<Rightarrow> 'e ev_loop \<Rightarrow> bool" where
  "array_ok owns arr l \<longleftrightarrow>
     (\<forall>i < length (arr l). w_active l (arr l ! i) = i + 1 \<and> owns l (arr l ! i) \<and> prio_ok l (arr l ! i))
   \<and> (\<forall>w. owns l w \<and> w_active l w \<noteq> 0 \<longrightarrow> w \<in> set (arr l))"

lemma array_ok_distinct: "array_ok owns arr l \<Longrightarrow> distinct (arr l)"
  unfolding array_ok_def distinct_conv_nth by (metis add_right_imp_eq)

lemma array_ok_listed:
  "array_ok owns arr l \<Longrightarrow> w \<in> set (arr l) \<Longrightarrow> owns l w \<and> prio_ok l w \<and> w_active l w \<noteq> 0"
  unfolding array_ok_def in_set_conv_nth by auto

lemma array_ok_index:
  assumes "array_ok owns arr l" "owns l w" "w_active l w \<noteq> 0"
  shows "w_active l w \<le> length (arr l)" "arr l ! (w_active l w - 1) = w"
proof -
  obtain i where i: "i < length (arr l)" "arr l ! i = w"
    using assms unfolding array_ok_def in_set_conv_nth by blast
  then have "w_active l w = i + 1" using assms(1) by (auto simp: array_ok_def)
  with i show "w_active l w \<le> length (arr l)" "arr l ! (w_active l w - 1) = w" by auto
qed

text \<open>What the operations on an array leave alone, beside the pending queues.\<close>

definition core_frame :: "'e ev_loop \<Rightarrow> 'e ev_loop \<Rightarrow> bool" where
  "core_frame l l' \<longleftrightarrow> w_kind l' = w_kind l \<and> w_fd l' = w_fd l \<and> w_events l' = w_events l
   \<and> w_at l' = w_at l \<and> w_repeat l' = w_repeat l \<and> anfds l' = anfds l \<and> fdchanges l' = fdchanges l
   \<and> timers l' = timers l \<and> timercnt l' = timercnt l \<and> periodics l' = periodics l
   \<and> periodiccnt l' = periodiccnt l \<and> rfeeds l' = rfeeds l \<and> mn_now l' = mn_now l"

lemma core_frame_refl [simp]: "core_frame l l"
  by (simp add: core_frame_def)

lemma core_frame_trans: "core_frame a b \<Longrightarrow> core_frame b c \<Longrightarrow> core_frame a c"
  by (simp add: core_frame_def)

lemma core_frame_same: "same_but_pending l l' \<Longrightarrow> core_frame l l'"
  by (simp add: core_frame_def same_but_pendingD)

locale watcher_array =
  fixes owns :: "'e ev_loop \<Rightarrow> wid \<Rightarrow> bool"
    and arr :: "'e ev_loop \<Rightarrow> wid list"
    and upd :: "wid list \<Rightarrow> 'e ev_loop \<Rightarrow> 'e ev_loop"
    and sound :: "'e ev_loop \<Rightarrow> bool"
  assumes get_put: "sound l \<Longrightarrow> arr (upd ws l) = ws"
    and put_frame: "core_frame l (upd ws l)"
    and put_same: "w_active (upd ws l) = w_active l" "w_priority (upd ws l) = w_priority l"
      "w_pending (upd ws l) = w_pending l" "pendings (upd ws l) = pendings l"
    and owns_cong: "w_kind l' w = w_kind l w \<Longrightarrow> w_priority l' w = w_priority l w \<Longrightarrow> owns l' w = owns l w"
    and arr_cong: "arr (l\<lparr>w_active := A, w_priority := P, activecnt := n\<rparr>) = arr l"
    and sound_cong: "sound (l\<lparr>w_active := A, w_priority := P, activecnt := n\<rparr>) = sound l"
    and pending_cong: "same_but_pending l l' \<Longrightarrow> arr l' = arr l \<and> sound l' = sound l"
begin

lemma start_keeps:
  assumes ok: "array_ok owns arr l" and pend: "pend_ok l" and s: "sound l"
    and w: "w_active l w = 0" "owns (pri_adjust w l) w"
  defines "l' \<equiv> array_start arr upd w l"
  shows "array_ok owns arr l'" "pend_ok l'" "core_frame l l'" "arr l' = arr l @ [w]"
    "w_active l' = (w_active l)(w := length (arr l) + 1)"
    "\<And>x. pending_events l' x = pending_events l x" "\<And>x. x \<noteq> w \<Longrightarrow> w_priority l' x = w_priority l x"
proof -
  define l1 where "l1 = ev_start w (length (arr l) + 1) l"
  have e1: "l1 = l\<lparr>w_active := (w_active l)(w := length (arr l) + 1), w_priority := w_priority (pri_adjust w l),
      activecnt := activecnt l + 1\<rparr>"
    by (simp add: l1_def ev_start_def ev_ref_def set_active_def pri_adjust_def Let_def)
  have a1: "arr l1 = arr l" "sound l1" unfolding e1 using arr_cong sound_cong s by simp_all
  have l': "l' = upd (arr l @ [w]) l1" unfolding l'_def array_start_def Let_def l1_def[symmetric] a1 ..
  note st = ev_start_correct[OF pend, where w = w and n = "length (arr l) + 1", folded l1_def]
  show cf: "core_frame l l'"
    unfolding l' by (rule core_frame_trans[OF _ put_frame]) (simp add: core_frame_def e1)
  show ar: "arr l' = arr l @ [w]" unfolding l' by (rule get_put[OF a1(2)])
  show ac: "w_active l' = (w_active l)(w := length (arr l) + 1)" by (simp add: l' put_same e1)
  have pr: "w_priority l' = w_priority l1" by (simp add: l' put_same)
  show pr2: "w_priority l' x = w_priority l x" if "x \<noteq> w" for x
    using st(3)[OF that] by (simp add: pr ABSPRI_def)
  show "pend_ok l'" "pending_events l' x = pending_events l x" for x
    using pend_ok_cong[OF st(1), of l'] st(4) by (simp_all add: l' put_same ABSPRI_def)
  have k: "w_kind l' = w_kind l" using cf by (simp add: core_frame_def)
  have ow: "owns l' x = owns l x" if "x \<noteq> w" for x by (rule owns_cong) (simp_all add: k pr2[OF that])
  have oww: "owns l' w"
  proof -
    have "owns l' w = owns (pri_adjust w l) w"
      by (rule owns_cong) (simp_all add: k pr e1 pri_adjust_def Let_def)
    then show ?thesis using w(2) by simp
  qed
  have nw: "x \<noteq> w" if "x \<in> set (arr l)" for x
    using that ok w(1) unfolding array_ok_def in_set_conv_nth by force
  have po: "prio_ok l' x = prio_ok l1 x" for x by (simp add: prio_ok_def ABSPRI_def pr)
  have po1: "prio_ok l' x = prio_ok l x" if "x \<noteq> w" for x using pr2[OF that] by (simp add: prio_ok_def ABSPRI_def)
  have "w_active l' ((arr l @ [w]) ! i) = i + 1 \<and> owns l' ((arr l @ [w]) ! i) \<and> prio_ok l' ((arr l @ [w]) ! i)"
    if i: "i < length (arr l @ [w])" for i
  proof (cases "i < length (arr l)")
    case True
    then have "arr l ! i \<noteq> w" by (intro nw) simp
    with True ok show ?thesis by (simp add: nth_append ac ow po1 array_ok_def)
  next
    case False
    with i have "i = length (arr l)" by simp
    then show ?thesis using oww st(2) by (simp add: ac po)
  qed
  moreover have "x \<in> set (arr l @ [w])" if "owns l' x" "w_active l' x \<noteq> 0" for x
    using that ok ow ac by (cases "x = w") (auto simp: array_ok_def)
  ultimately show "array_ok owns arr l'" by (simp add: array_ok_def ar)
qed

lemma stop_keeps:
  assumes ok: "array_ok owns arr l" and pend: "pend_ok l" and s: "sound l"
    and w: "w_active l w \<noteq> 0" "owns l w"
  shows "\<exists>l'. array_stop arr upd w l = Some l' \<and> array_ok owns arr l' \<and> pend_ok l' \<and> core_frame l l'
    \<and> set (arr l') = set (arr l) - {w} \<and> w_active l' w = 0 \<and> w_priority l' = w_priority l
    \<and> (\<forall>x. x \<noteq> w \<longrightarrow> (w_active l' x = 0 \<longleftrightarrow> w_active l x = 0))
    \<and> (\<forall>x. \<not> owns l x \<longrightarrow> w_active l' x = w_active l x)
    \<and> (\<forall>x. pending_events l' x = pending_events l x)"
proof -
  define ws where "ws = arr l"
  define a where "a = w_active l w - 1"
  define n where "n = length ws - 1"
  note ix = array_ok_index[OF ok w(2,1), folded ws_def]
  have a: "a < length ws" "w_active l w = Suc a" "ws ! a = w" using ix w(1) by (auto simp: a_def)
  have n: "length ws = Suc n" "n < length ws" using a(1) by (auto simp: n_def)
  define x where "x = ws ! n"
  define ws' where "ws' = butlast (ws[a := x])"
  define l1 where "l1 = upd ws' l"
  define l' where "l' = ev_stop w (set_active x (w_active l w) l1)"
  have l': "l' = l1\<lparr>w_active := (w_active l1)(x := w_active l w, w := 0), w_priority := w_priority l1, activecnt := activecnt l1 - 1\<rparr>"
    by (simp add: l'_def ev_stop_def ev_unref_def set_active_def)
  have "array_stop arr upd w l = Some l'"
    using ix w(1)
    unfolding array_stop_def array_unlink_def Let_def ws_def[symmetric] n_def[symmetric] x_def[symmetric]
      a_def[symmetric] ws'_def[symmetric] l1_def[symmetric] l'_def by simp
  moreover have ar: "arr l' = ws'" unfolding l' arr_cong l1_def by (rule get_put[OF s])
  moreover have ac: "w_active l' = (w_active l)(x := Suc a, w := 0)" by (simp add: l' l1_def put_same a(2))
  moreover have pr: "w_priority l' = w_priority l" by (simp add: l' l1_def put_same)
  moreover have cf: "core_frame l l'"
    by (rule core_frame_trans[OF put_frame[of l ws']]) (simp add: core_frame_def l' l1_def)
  moreover have "pend_ok l'" "pending_events l' x = pending_events l x" for x
    using pend_ok_cong[OF pend, of l'] by (simp_all add: l' l1_def put_same ABSPRI_def)
  moreover have len: "length ws' = n" using n by (simp add: ws'_def)
  have nth: "ws' ! i = (if i = a then x else ws ! i)" if "i < n" for i
    using that n by (auto simp: ws'_def nth_butlast nth_list_update)
  have dist: "distinct ws" using array_ok_distinct[OF ok] by (simp add: ws_def)
  have st: "set ws' = set ws - {w}"
  proof (rule set_eqI)
    fix y
    have "y \<in> set ws' \<longleftrightarrow> (\<exists>i<n. (if i = a then x else ws ! i) = y)"
      unfolding in_set_conv_nth len using nth by auto
    also have "\<dots> \<longleftrightarrow> (\<exists>i<length ws. i \<noteq> a \<and> ws ! i = y)"
    proof
      assume "\<exists>i<n. (if i = a then x else ws ! i) = y"
      then obtain i where i: "i < n" "(if i = a then x else ws ! i) = y" by blast
      show "\<exists>i<length ws. i \<noteq> a \<and> ws ! i = y"
      proof (cases "i = a")
        case True
        then show ?thesis using i n(2) by (intro exI[of _ n]) (auto simp: x_def)
      next
        case False
        then show ?thesis using i n by (intro exI[of _ i]) auto
      qed
    next
      assume "\<exists>i<length ws. i \<noteq> a \<and> ws ! i = y"
      then obtain i where i: "i < length ws" "i \<noteq> a" "ws ! i = y" by blast
      show "\<exists>i<n. (if i = a then x else ws ! i) = y"
      proof (cases "i = n")
        case True
        then have "a < n" using a(1) n i(2) by simp
        then show ?thesis using i True by (intro exI[of _ a]) (simp add: x_def)
      next
        case False
        then show ?thesis using i n by (intro exI[of _ i]) auto
      qed
    qed
    also have "\<dots> \<longleftrightarrow> y \<in> set ws - {w}"
      using a dist unfolding in_set_conv_nth distinct_conv_nth Diff_iff singleton_iff by metis
    finally show "y \<in> set ws' \<longleftrightarrow> y \<in> set ws - {w}" .
  qed
  have xs: "owns l x" "w_active l x \<noteq> 0" "x \<in> set ws"
    using ok n by (auto simp: array_ok_def ws_def[symmetric] x_def)
  have k: "w_kind l' = w_kind l" using cf by (simp add: core_frame_def)
  have ow: "owns l' y = owns l y" for y by (rule owns_cong) (simp_all add: k pr)
  moreover have "array_ok owns arr l'"
    unfolding array_ok_def ar len
  proof (intro conjI allI impI)
    fix i assume i: "i < n"
    have m: "ws' ! i \<in> set ws - {w}" using i len st nth_mem by fastforce
    then have po: "owns l (ws' ! i)" "prio_ok l (ws' ! i)"
      using ok unfolding array_ok_def ws_def[symmetric] by (metis DiffE in_set_conv_nth)+
    then show "owns l' (ws' ! i)" "prio_ok l' (ws' ! i)" by (simp_all add: ow prio_ok_def ABSPRI_def pr)
    show "w_active l' (ws' ! i) = i + 1"
    proof (cases "i = a")
      case True
      then have "ws' ! i = x" using nth i by simp
      then show ?thesis using True m by (simp add: ac)
    next
      case False
      then have e: "ws' ! i = ws ! i" using nth i by simp
      moreover have "ws ! i \<noteq> x" using dist i n unfolding x_def by (simp add: nth_eq_iff_index_eq)
      ultimately show ?thesis using ok m i n by (simp add: ac array_ok_def ws_def[symmetric])
    qed
  next
    fix y assume "owns l' y \<and> w_active l' y \<noteq> 0"
    then have "owns l y" "w_active l y \<noteq> 0" "y \<noteq> w" using ow ac xs by (auto split: if_splits)
    then show "y \<in> set ws'" using ok st by (auto simp: array_ok_def ws_def)
  qed
  moreover have "w_active l' y = 0 \<longleftrightarrow> w_active l y = 0" if "y \<noteq> w" for y
    using that xs(2) by (auto simp: ac)
  moreover have "w_active l' y = w_active l y" if "\<not> owns l y" for y
    using that xs(1) w(2) by (auto simp: ac)
  ultimately show ?thesis using st by (simp add: ws_def)
qed

lemma array_ok_same: "array_ok owns arr l \<Longrightarrow> same_but_pending l l' \<Longrightarrow> array_ok owns arr l'"
proof -
  assume ok: "array_ok owns arr l" and sm: "same_but_pending l l'"
  have "owns l' x = owns l x" "prio_ok l' x = prio_ok l x" for x
    by (rule owns_cong; simp add: same_but_pendingD[OF sm]) (simp add: prio_ok_def same_but_pendingD[OF sm])
  then show ?thesis using ok pending_cong[OF sm] by (simp add: array_ok_def same_but_pendingD[OF sm])
qed

text \<open>The stop operation: pending events are cleared first.\<close>

lemma stop_op:
  assumes ok: "array_ok owns arr l" and pend: "pend_ok l" and s: "sound l" and w: "owns l w"
  shows "\<exists>l'. Option.bind (clear_pending w l) (\<lambda>l1. if w_active l1 w = 0 then Some l1 else array_stop arr upd w l1) = Some l'
    \<and> array_ok owns arr l' \<and> pend_ok l' \<and> core_frame l l' \<and> set (arr l') = set (arr l) - {w}
    \<and> w_active l' w = 0 \<and> (\<forall>x. x \<noteq> w \<longrightarrow> (w_active l' x = 0 \<longleftrightarrow> w_active l x = 0))
    \<and> pending_events l' w = None \<and> (\<forall>x. x \<noteq> w \<longrightarrow> pending_events l' x = pending_events l x)"
proof -
  obtain l1 where l1: "clear_pending w l = Some l1" "pend_ok l1" "same_but_pending l l1" "w_pending l1 w = 0"
    "\<forall>x. x \<noteq> w \<longrightarrow> pending_events l1 x = pending_events l x"
    using clear_pending_correct[OF pend] by blast
  note sm = same_but_pendingD[OF l1(3)]
  have ok1: "array_ok owns arr l1" by (rule array_ok_same[OF ok l1(3)])
  have a1: "arr l1 = arr l" "sound l1" using pending_cong[OF l1(3)] s by auto
  have p1: "pending_events l1 w = None" using l1(4) by (simp add: pending_events_def)
  show ?thesis
  proof (cases "w_active l1 w = 0")
    case True
    moreover have "w \<notin> set (arr l)"
      using ok True sm unfolding array_ok_def in_set_conv_nth by force
    ultimately show ?thesis using l1 ok1 a1 p1 core_frame_same[OF l1(3)] by (simp add: sm)
  next
    case False
    have "owns l1 w" using w owns_cong[of l1 w l] by (simp add: sm)
    from stop_keeps[OF ok1 l1(2) a1(2) False this] obtain l' where l':
      "array_stop arr upd w l1 = Some l'" "array_ok owns arr l'" "pend_ok l'" "core_frame l1 l'"
      "set (arr l') = set (arr l1) - {w}" "w_active l' w = 0"
      "\<forall>x. x \<noteq> w \<longrightarrow> (w_active l' x = 0 \<longleftrightarrow> w_active l1 x = 0)"
      "\<forall>x. pending_events l' x = pending_events l1 x"
      by blast
    then show ?thesis
      using False l1 a1 p1 core_frame_trans[OF core_frame_same[OF l1(3)] l'(4)] by (simp add: sm)
  qed
qed

end

subsection \<open>The arrays keep it\<close>

abbreviation owned :: "watcher_kind \<Rightarrow> 'e ev_loop \<Rightarrow> wid \<Rightarrow> bool" where
  "owned K l w \<equiv> w_kind l w = K"

interpretation prepare_array: watcher_array "owned Ev_Prepare" prepares "\<lambda>ws. prepares_update (\<lambda>_. ws)" "\<lambda>_. True"
  by unfold_locales (simp_all add: core_frame_def same_but_pendingD2)

interpretation check_array: watcher_array "owned Ev_Check" checks "\<lambda>ws. checks_update (\<lambda>_. ws)" "\<lambda>_. True"
  by unfold_locales (simp_all add: core_frame_def same_but_pendingD2)

interpretation fork_array: watcher_array "owned Ev_Fork" forks "\<lambda>ws. forks_update (\<lambda>_. ws)" "\<lambda>_. True"
  by unfold_locales (simp_all add: core_frame_def same_but_pendingD2)

interpretation cleanup_array: watcher_array "owned Ev_Cleanup" cleanups "\<lambda>ws. cleanups_update (\<lambda>_. ws)" "\<lambda>_. True"
  by unfold_locales (simp_all add: core_frame_def same_but_pendingD2)

interpretation async_array: watcher_array "owned Ev_Async" asyncs "\<lambda>ws. asyncs_update (\<lambda>_. ws)" "\<lambda>_. True"
  by unfold_locales (simp_all add: core_frame_def same_but_pendingD2)

text \<open>An idle watcher belongs to the row of its priority.\<close>

definition idle_at :: "nat \<Rightarrow> 'e ev_loop \<Rightarrow> wid \<Rightarrow> bool" where
  "idle_at pri l w \<longleftrightarrow> w_kind l w = Ev_Idle \<and> ABSPRI l w = int pri"

interpretation idle_array: watcher_array "idle_at pri" "idle_row pri" "set_idle_row pri" "\<lambda>l. pri < length (idles l)"
  for pri
  by unfold_locales
    (simp_all add: core_frame_def same_but_pendingD2 idle_at_def idle_row_def set_idle_row_def ABSPRI_def)

subsection \<open>Delivery of async events\<close>

lemma async_sweep_correct:
  assumes "pend_ok l" "distinct ws" "\<forall>w \<in> set ws. prio_ok l w \<and> w \<noteq> pending_w"
  shows "\<exists>l'. async_sweep ws l = Some l' \<and> pend_ok l' \<and> core_frame l l' \<and> w_active l' = w_active l
    \<and> w_priority l' = w_priority l \<and> asyncs l' = asyncs l \<and> async_pending l' = async_pending l
    \<and> pipe_write_skipped l' = pipe_write_skipped l
    \<and> (\<forall>w. w_sent l' w \<longleftrightarrow> w_sent l w \<and> w \<notin> set ws)
    \<and> (\<forall>w. pending_events l' w =
         (if w \<in> set ws \<and> w_sent l w then add_events (pending_events l w) EV_ASYNC else pending_events l w))"
  using assms
proof (induction ws arbitrary: l)
  case Nil
  then show ?case by simp
next
  case (Cons w ws)
  show ?case
  proof (cases "w_sent l w")
    case False
    then show ?thesis using Cons.IH[of l] Cons.prems by (auto simp del: fun_upd_apply)
  next
    case True
    define l1 where "l1 = l\<lparr>w_sent := (w_sent l)(w := False)\<rparr>"
    have p1: "pend_ok l1" "pending_events l1 x = pending_events l x" for x
      by (rule pend_ok_cong[OF Cons.prems(1)]; simp add: l1_def ABSPRI_def)+
    have "prio_ok l1 w" "w \<noteq> pending_w" using Cons.prems(3) by (simp_all add: l1_def prio_ok_def ABSPRI_def)
    then obtain l2 where l2: "ev_feed_event w EV_ASYNC l1 = Some l2" "pend_ok l2" "same_but_pending l1 l2"
      "pending_events l2 w = add_events (pending_events l1 w) EV_ASYNC"
      "\<forall>x. x \<noteq> w \<longrightarrow> pending_events l2 x = pending_events l1 x"
      using ev_feed_event_correct[OF p1(1), of w EV_ASYNC] unfolding add_events_def by auto
    have s2: "w_sent l2 = (w_sent l)(w := False)" "async_pending l2 = async_pending l"
      "pipe_write_skipped l2 = pipe_write_skipped l" "asyncs l2 = asyncs l" "w_active l2 = w_active l"
      "w_priority l2 = w_priority l"
      using l2(3) by (auto simp: same_but_pending_def l1_def)
    have cf: "core_frame l l2"
      by (rule core_frame_trans[OF _ core_frame_same[OF l2(3)]]) (simp add: core_frame_def l1_def)
    have "\<forall>w \<in> set ws. prio_ok l2 w \<and> w \<noteq> pending_w"
      using Cons.prems(3) by (simp add: prio_ok_def ABSPRI_def s2)
    then obtain l' where l': "async_sweep ws l2 = Some l'" "pend_ok l'" "core_frame l2 l'" "w_active l' = w_active l2"
      "w_priority l' = w_priority l2" "asyncs l' = asyncs l2" "async_pending l' = async_pending l2"
      "pipe_write_skipped l' = pipe_write_skipped l2"
      "\<forall>w. w_sent l' w \<longleftrightarrow> w_sent l2 w \<and> w \<notin> set ws"
      "\<forall>w. pending_events l' w =
         (if w \<in> set ws \<and> w_sent l2 w then add_events (pending_events l2 w) EV_ASYNC else pending_events l2 w)"
      using Cons.IH[OF l2(2)] Cons.prems(2) by auto
    have "async_sweep (w # ws) l = Some l'" using True l2(1) l'(1) by (simp add: l1_def)
    moreover have "pending_events l' x =
         (if x \<in> set (w # ws) \<and> w_sent l x then add_events (pending_events l x) EV_ASYNC else pending_events l x)" for x
      using l'(10) l2(4,5) p1(2) s2(1) True Cons.prems(2) by (cases "x = w") auto
    moreover have "w_sent l' x \<longleftrightarrow> w_sent l x \<and> x \<notin> set (w # ws)" for x using l'(9) s2(1) by auto
    ultimately show ?thesis using l'(2,4-8) s2 core_frame_trans[OF cf l'(3)] by simp
  qed
qed

lemma async_sends:
  "w_sent (fold (ev_async_send sys) ws l) w \<longleftrightarrow> w_sent l w \<or> w \<in> set ws"
  "async_pending (fold (ev_async_send sys) ws l) \<longleftrightarrow> async_pending l \<or> ws \<noteq> []"
  "core_frame l (fold (ev_async_send sys) ws l)"
  "w_active (fold (ev_async_send sys) ws l) = w_active l" "w_priority (fold (ev_async_send sys) ws l) = w_priority l"
  "asyncs (fold (ev_async_send sys) ws l) = asyncs l" "w_pending (fold (ev_async_send sys) ws l) = w_pending l"
  "pendings (fold (ev_async_send sys) ws l) = pendings l"
  by (induction ws arbitrary: l) (auto simp: ev_async_send_def evpipe_write_def Let_def core_frame_def)

subsection \<open>Properties\<close>

text \<open>Stopping a prepare watcher (active or not) leaves it inactive, not pending and out of the
  array, in which every other watcher stays active, at the index it records.\<close>

theorem ev_prepare_stop_keeps:
  assumes "array_ok (owned Ev_Prepare) prepares l" and "pend_ok l" and "w_kind l w = Ev_Prepare"
  shows "\<exists>l'. ev_prepare_stop w l = Some l' \<and> array_ok (owned Ev_Prepare) prepares l' \<and> pend_ok l'
    \<and> core_frame l l' \<and> set (prepares l') = set (prepares l) - {w} \<and> w_active l' w = 0
    \<and> pending_events l' w = None \<and> (\<forall>x. x \<noteq> w \<longrightarrow> (w_active l' x = 0 \<longleftrightarrow> w_active l x = 0))
    \<and> (\<forall>x. x \<noteq> w \<longrightarrow> pending_events l' x = pending_events l x)"
  using prepare_array.stop_op[OF assms(1,2) _ assms(3)] unfolding ev_prepare_stop_def by blast

definition array_kinds :: "wid \<Rightarrow> watcher_kind" where
  "array_kinds w = (if w = pending_w then Ev_Prepare else if w = pipe_w then Ev_Io
     else if even w then Ev_Prepare else Ev_Async)"

definition two_prepares :: "unit ev_loop" where
  "two_prepares = ev_prepare_start 4 (ev_prepare_start 2 (new_loop array_kinds))"

lemma new_loop_arrays:
  "prepares (new_loop kind) = []" "asyncs (new_loop kind) = []" "pend_ok (new_loop kind)"
  "w_priority (new_loop kind) = (\<lambda>_. 0)(pipe_w := EV_MAXPRI)" "w_sent (new_loop kind) w = False"
  by (simp_all add: new_loop_def ev_loop_new_def loop_init_def loop_zero_def epoll_init_def ev_init_def Let_def
      calm_sys_def init_memory_def pend_ok_def fun_eq_iff)

lemma two_prepares:
  "array_ok (owned Ev_Prepare) prepares two_prepares" "pend_ok two_prepares" "w_kind two_prepares = array_kinds"
  "prepares two_prepares = [2, 4]"
proof -
  let ?l = "new_loop array_kinds"
  have ok: "array_ok (owned Ev_Prepare) prepares ?l" by (simp add: array_ok_def new_loop_arrays new_loop_fields)
  have k: "w_kind (pri_adjust w l) = w_kind l" for w and l :: "unit ev_loop" by (simp add: pri_adjust_def Let_def)
  define l1 where "l1 = array_start prepares (\<lambda>ws. prepares_update (\<lambda>_. ws)) 2 ?l"
  have e1: "ev_prepare_start 2 ?l = l1" by (simp add: ev_prepare_start_def new_loop_fields l1_def)
  note s1 = prepare_array.start_keeps[OF ok new_loop_arrays(3) TrueI new_loop_fields(2), of 2, folded l1_def]
  have o2: "w_kind (pri_adjust 2 ?l) 2 = Ev_Prepare"
    by (simp add: k new_loop_fields array_kinds_def pending_w_def pipe_w_def)
  have k1: "w_kind l1 = array_kinds" using s1(3)[OF o2] by (simp add: core_frame_def new_loop_fields)
  have a1: "w_active l1 4 = 0" using s1(5)[OF o2] by (simp add: new_loop_fields)
  have e2: "two_prepares = array_start prepares (\<lambda>ws. prepares_update (\<lambda>_. ws)) 4 l1"
    unfolding two_prepares_def e1 by (simp add: ev_prepare_start_def a1)
  note s2 = prepare_array.start_keeps[OF s1(1,2)[OF o2] TrueI a1, folded e2]
  have o4: "w_kind (pri_adjust 4 l1) 4 = Ev_Prepare" by (simp add: k k1 array_kinds_def pending_w_def pipe_w_def)
  show "array_ok (owned Ev_Prepare) prepares two_prepares" "pend_ok two_prepares" by (rule s2(1,2)[OF o4])+
  show "w_kind two_prepares = array_kinds" using s2(3)[OF o4] k1 by (simp add: core_frame_def)
  show "prepares two_prepares = [2, 4]"
    using s2(4)[OF o4] s1(4)[OF o2] by (simp add: new_loop_arrays)
qed

theorem ev_prepare_stop_keeps_witness:
  "\<exists>l'. ev_prepare_stop 2 two_prepares = Some l' \<and> array_ok (owned Ev_Prepare) prepares l' \<and> pend_ok l'
    \<and> core_frame two_prepares l' \<and> set (prepares l') = set (prepares two_prepares) - {2} \<and> w_active l' 2 = 0
    \<and> pending_events l' 2 = None \<and> (\<forall>x. x \<noteq> 2 \<longrightarrow> (w_active l' x = 0 \<longleftrightarrow> w_active two_prepares x = 0))
    \<and> (\<forall>x. x \<noteq> 2 \<longrightarrow> pending_events l' x = pending_events two_prepares x)"
  by (rule ev_prepare_stop_keeps[OF two_prepares(1,2)])
     (simp add: two_prepares array_kinds_def pending_w_def pipe_w_def)

text \<open>C20: sends to async watchers are never lost and coalesce: however many are sent, to whichever
  watchers, the next run of the pipe callback queues \<open>EV_ASYNC\<close> once for every started watcher that
  has been sent since the last one, for no other, and resets the flags so that the next send wakes the loop
  again.\<close>

theorem ev_async_send_delivered:
  assumes "array_ok (owned Ev_Async) asyncs l" and "pend_ok l" and "w_kind l pending_w = Ev_Prepare"
    and "ws \<noteq> []"
  shows "\<exists>l'. pipecb sys revents (fold (ev_async_send sys) ws l) = Some l' \<and> pend_ok l'
    \<and> \<not> async_pending l' \<and> \<not> pipe_write_skipped l'
    \<and> (\<forall>w \<in> set (asyncs l). \<not> w_sent l' w)
    \<and> (\<forall>w. pending_events l' w =
        (if w \<in> set (asyncs l) \<and> (w_sent l w \<or> w \<in> set ws) then add_events (pending_events l w) EV_ASYNC
         else pending_events l w))"
proof -
  define l1 where "l1 = fold (ev_async_send sys) ws l"
  define l2 where "l2 = (if revents AND EV_READ \<noteq> 0
     then l1\<lparr>env := sys_pipe_read sys (if evpipe0 l1 < 0 then evpipe1 l1 else evpipe0 l1) (env l1)\<rparr>
     else l1)\<lparr>pipe_write_skipped := False, async_pending := False\<rparr>"
  note sends = async_sends[where sys = sys and ws = ws and l = l, folded l1_def]
  have f2: "w_pending l2 = w_pending l" "pendings l2 = pendings l" "w_priority l2 = w_priority l"
    "asyncs l2 = asyncs l" "w_sent l2 = w_sent l1" "async_pending l2 = False" "pipe_write_skipped l2 = False"
    by (simp_all add: l2_def sends)
  have run: "pipecb sys revents l1 = async_sweep (rev (asyncs l2)) l2"
    using assms(4) sends by (simp add: pipecb_def Let_def l2_def)
  have p2: "pend_ok l2" "pending_events l2 x = pending_events l x" for x
    by (rule pend_ok_cong[OF assms(2)]; simp add: f2 ABSPRI_def)+
  have "\<forall>w \<in> set (rev (asyncs l2)). prio_ok l2 w \<and> w \<noteq> pending_w"
    using array_ok_listed[OF assms(1)] assms(3) by (auto simp: f2 prio_ok_def ABSPRI_def)
  moreover have "distinct (rev (asyncs l2))" using array_ok_distinct[OF assms(1)] by (simp add: f2)
  ultimately obtain l' where "async_sweep (rev (asyncs l2)) l2 = Some l'" "pend_ok l'"
      "async_pending l' = async_pending l2" "pipe_write_skipped l' = pipe_write_skipped l2"
      "\<forall>w. w_sent l' w \<longleftrightarrow> w_sent l2 w \<and> w \<notin> set (rev (asyncs l2))"
      "\<forall>w. pending_events l' w = (if w \<in> set (rev (asyncs l2)) \<and> w_sent l2 w
         then add_events (pending_events l2 w) EV_ASYNC else pending_events l2 w)"
    using async_sweep_correct[OF p2(1)] by blast
  then show ?thesis unfolding l1_def[symmetric] run by (auto simp: f2 p2 sends)
qed

definition two_asyncs :: "unit ev_loop" where
  "two_asyncs = (new_loop array_kinds)\<lparr>asyncs := [3, 5],
     w_active := (w_active (new_loop array_kinds))(3 := 1, 5 := 2)\<rparr>"

lemma two_asyncs:
  "array_ok (owned Ev_Async) asyncs two_asyncs \<longleftrightarrow> array_kinds 3 = Ev_Async \<and> array_kinds 5 = Ev_Async"
  "pend_ok two_asyncs" "w_kind two_asyncs = array_kinds"
proof -
  have P: "prio_ok two_asyncs 3" "prio_ok two_asyncs 5"
    by (simp_all add: two_asyncs_def prio_ok_def ABSPRI_def new_loop_arrays EV_MINPRI_def EV_MAXPRI_def NUMPRI_def pipe_w_def)
  have A: "w_active two_asyncs = (\<lambda>_. 0)(3 := 1, 5 := 2)" "w_kind two_asyncs = array_kinds"
    "asyncs two_asyncs = [3, 5]"
    by (simp_all add: two_asyncs_def new_loop_fields fun_eq_iff)
  show "array_ok (owned Ev_Async) asyncs two_asyncs \<longleftrightarrow> array_kinds 3 = Ev_Async \<and> array_kinds 5 = Ev_Async"
    using P by (auto simp: array_ok_def A less_Suc_eq nth_Cons' split: if_splits)
  show "pend_ok two_asyncs"
    by (rule pend_ok_cong(1)[OF new_loop_arrays(3)[of array_kinds]]) (simp_all add: two_asyncs_def ABSPRI_def)
  show "w_kind two_asyncs = array_kinds" by (rule A(2))
qed

theorem ev_async_send_delivered_witness:
  "\<exists>l'. pipecb calm_sys EV_READ (fold (ev_async_send calm_sys) [3, 3] two_asyncs) = Some l' \<and> pend_ok l'
    \<and> \<not> async_pending l' \<and> pending_events l' 3 = Some EV_ASYNC \<and> pending_events l' 5 = None"
proof -
  have s: "asyncs two_asyncs = [3, 5]" "\<not> w_sent two_asyncs w" "pending_events two_asyncs w = None" for w
    by (simp_all add: two_asyncs_def new_loop_arrays new_loop_fields pending_events_def)
  have "array_kinds 3 = Ev_Async" "array_kinds 5 = Ev_Async" "array_kinds pending_w = Ev_Prepare"
    by (simp_all add: array_kinds_def pending_w_def pipe_w_def)
  then show ?thesis
    using ev_async_send_delivered[of two_asyncs "[3, 3]" calm_sys EV_READ] two_asyncs
    by (auto simp: s add_events_def)
qed

text \<open>The idle watchers whose turn it is among the priorities below \<open>n\<close>.\<close>

definition idle_turn :: "nat \<Rightarrow> 'e ev_loop \<Rightarrow> wid \<Rightarrow> bool" where
  "idle_turn n l w \<longleftrightarrow> (\<exists>pri < n. w \<in> set (idle_row pri l)
     \<and> (\<forall>p < n. pri \<le> p \<longrightarrow> pendings l ! p = [] \<and> (pri < p \<longrightarrow> idle_row p l = [])))"

lemma idle_turn_0 [simp]: "\<not> idle_turn 0 l w"
  by (simp add: idle_turn_def)

lemma idle_scan_correct:
  assumes "pend_ok l" "\<forall>pri < n. array_ok (idle_at pri) (idle_row pri) l" "w_kind l pending_w = Ev_Prepare"
  shows "\<exists>l'. idle_scan n l = Some l' \<and> pend_ok l' \<and> same_but_pending l l'
    \<and> (\<forall>w. pending_events l' w =
        (if idle_turn n l w then add_events (pending_events l w) EV_IDLE else pending_events l w))"
  using assms(2)
proof (induction n)
  case 0
  then show ?case using assms(1) by simp
next
  case (Suc n)
  have ok: "array_ok (idle_at n) (idle_row n) l" using Suc.prems by simp
  consider (busy) "pendings l ! n \<noteq> []" | (idle) "pendings l ! n = []" "idle_row n l \<noteq> []"
    | (down) "pendings l ! n = []" "idle_row n l = []" by blast
  then show ?case
  proof cases
    case busy
    then have "\<not> idle_turn (Suc n) l w" for w
      by (auto simp: idle_turn_def less_Suc_eq_le)
    then show ?thesis using busy assms(1) by simp
  next
    case idle
    have "\<forall>w \<in> set (idle_row n l). prio_ok l w \<and> w \<noteq> pending_w"
      using array_ok_listed[OF ok] assms(3) by (auto simp: idle_at_def)
    then obtain l' where l': "feed_all (idle_row n l) EV_IDLE l = Some l'" "pend_ok l'" "same_but_pending l l'"
      "\<forall>x. pending_events l' x = (if x \<in> set (idle_row n l)
         then Some (case pending_events l x of None \<Rightarrow> EV_IDLE | Some e \<Rightarrow> e OR EV_IDLE) else pending_events l x)"
      using feed_all_correct[OF assms(1) array_ok_distinct[OF ok]] by blast
    have "idle_turn (Suc n) l w \<longleftrightarrow> w \<in> set (idle_row n l)" for w
      unfolding idle_turn_def
    proof
      assume "\<exists>pri < Suc n. w \<in> set (idle_row pri l)
            \<and> (\<forall>p < Suc n. pri \<le> p \<longrightarrow> pendings l ! p = [] \<and> (pri < p \<longrightarrow> idle_row p l = []))"
      then obtain pri where "pri < Suc n" "w \<in> set (idle_row pri l)" "pri < n \<longrightarrow> idle_row n l = []"
        by (auto simp: less_Suc_eq_le)
      then show "w \<in> set (idle_row n l)" using idle(2) by (cases "pri = n") auto
    next
      assume "w \<in> set (idle_row n l)"
      then show "\<exists>pri < Suc n. w \<in> set (idle_row pri l)
            \<and> (\<forall>p < Suc n. pri \<le> p \<longrightarrow> pendings l ! p = [] \<and> (pri < p \<longrightarrow> idle_row p l = []))"
        using idle(1) by (intro exI[of _ n]) (auto simp: less_Suc_eq_le dest: order_antisym)
    qed
    then show ?thesis using idle l' by (simp add: idle_row_def queue_events_def add_events_def)
  next
    case down
    have "idle_turn (Suc n) l w \<longleftrightarrow> idle_turn n l w" for w
      unfolding idle_turn_def using down by (auto simp: less_Suc_eq)
    then show ?thesis using Suc down by (simp add: idle_row_def)
  qed
qed

text \<open>Idle watchers are queued only when nothing of their priority or above is pending, and then
  exactly those of the highest priority that has any.\<close>

theorem ev_idle_reify_lowest:
  assumes "pend_ok l" and "\<forall>pri < NUMPRI. array_ok (idle_at pri) (idle_row pri) l"
    and "w_kind l pending_w = Ev_Prepare"
    and "idleall l = 0 \<longleftrightarrow> (\<forall>pri < NUMPRI. idle_row pri l = [])"
  shows "\<exists>l'. idle_reify l = Some l' \<and> pend_ok l' \<and> same_but_pending l l'
    \<and> (\<forall>w. pending_events l' w =
        (if idle_turn NUMPRI l w then add_events (pending_events l w) EV_IDLE else pending_events l w))"
proof (cases "idleall l = 0")
  case True
  with assms have "\<not> idle_turn NUMPRI l w" for w by (auto simp: idle_turn_def)
  with True assms(1) show ?thesis by (simp add: idle_reify_def)
next
  case False
  with idle_scan_correct[OF assms(1-3)] show ?thesis by (simp add: idle_reify_def)
qed

definition one_idle :: "unit ev_loop" where
  "one_idle = (new_loop (\<lambda>w. if w = pending_w then Ev_Prepare else Ev_Idle))
     \<lparr>idles := [[], [], [6], [], []], idleall := 1, w_active := (\<lambda>_. 0)(6 := 1)\<rparr>"

lemma one_idle:
  "pend_ok one_idle" "\<forall>pri < NUMPRI. array_ok (idle_at pri) (idle_row pri) one_idle"
  "w_kind one_idle pending_w = Ev_Prepare" "idleall one_idle = 1" "idles one_idle = [[], [], [6], [], []]"
  "pendings one_idle = replicate NUMPRI []"
proof -
  let ?k = "\<lambda>w. if w = pending_w then Ev_Prepare else Ev_Idle"
  show "pend_ok one_idle"
    by (rule pend_ok_cong(1)[OF new_loop_arrays(3)[of ?k]]) (simp_all add: one_idle_def ABSPRI_def)
  have A: "ABSPRI one_idle 6 = 2" "w_active one_idle = (\<lambda>_. 0)(6 := 1)" "w_kind one_idle = ?k"
    by (simp_all add: one_idle_def ABSPRI_def new_loop_arrays pipe_w_def EV_MINPRI_def new_loop_fields)
  have five: "NUMPRI = 5" by (simp add: NUMPRI_def EV_MAXPRI_def EV_MINPRI_def)
  show i: "idles one_idle = [[], [], [6], [], []]" by (simp add: one_idle_def)
  show "w_kind one_idle pending_w = Ev_Prepare" "idleall one_idle = 1" by (simp_all add: one_idle_def new_loop_fields)
  show "pendings one_idle = replicate NUMPRI []"
    by (simp add: one_idle_def new_loop_def ev_loop_new_fields)
  have "array_ok (idle_at pri) (idle_row pri) one_idle" if "pri < 5" for pri
  proof -
    have "pri = 0 \<or> pri = 1 \<or> pri = 2 \<or> pri = 3 \<or> pri = 4" using that by arith
    then show ?thesis
      using A by (elim disjE)
        (auto simp: array_ok_def idle_at_def idle_row_def i prio_ok_def five pending_w_def split: if_splits)
  qed
  then show "\<forall>pri < NUMPRI. array_ok (idle_at pri) (idle_row pri) one_idle" by (simp add: five)
qed

theorem ev_idle_reify_lowest_witness:
  "\<exists>l'. idle_reify one_idle = Some l' \<and> pend_ok l' \<and> pending_events l' 7 = pending_events one_idle 7"
proof -
  have five: "NUMPRI = 5" by (simp add: NUMPRI_def EV_MAXPRI_def EV_MINPRI_def)
  have "idleall one_idle = 0 \<longleftrightarrow> (\<forall>pri < NUMPRI. idle_row pri one_idle = [])"
    by (auto simp: one_idle idle_row_def five intro!: exI[of _ 2])
  from ev_idle_reify_lowest[OF one_idle(1-3) this] show ?thesis
    by (auto simp: idle_turn_def idle_row_def one_idle five less_Suc_eq numeral_eq_Suc)
qed

end
