(* ===== verification/Ev_Loop.thy ===== *)
theory Ev_Loop
  imports Ev_Arrays Ev_Timers
begin

text \<open>
  The loop of \<open>open_source/ev.c\<close>: invoking pending watchers, following the clocks, \<open>ev_run\<close>, leaving
  and destroying a loop, and \<open>ev_once\<close>.

  The callbacks of the user's watchers are a parameter \<open>cb\<close>, which gets the watcher and the events
  and returns the new state (\<^const>\<open>None\<close> when the callback fails an assertion of the library).
\<close>

subsection \<open>Invoking pending watchers\<close>

type_synonym 'e callbacks = "wid \<Rightarrow> mask32 \<Rightarrow> 'e ev_loop \<Rightarrow> 'e ev_loop option"

text \<open>\<open>EV_CB_INVOKE\<close>: the dummy's callback does nothing, the pipe's is \<open>pipecb\<close>.\<close>

definition invoke_cb :: "'e sys \<Rightarrow> 'e callbacks \<Rightarrow> 'e callbacks" where
  "invoke_cb sys cb w revents l =
     (if w = pending_w then Some l else if w = pipe_w then pipecb sys revents l else cb w revents l)"

text \<open>
  The two nested loops of \<open>ev_invoke_pending\<close> as one: the inner one takes the last entry of the
  queue of \<open>pendingpri\<close>, which the callback may change.
\<close>

partial_function (option) invoke_loop :: "'e callbacks \<Rightarrow> 'e ev_loop \<Rightarrow> 'e ev_loop option" where
  "invoke_loop cb l =
     (let pri = pendingpri l in
      if length (pendings l) \<le> pri then None
      else if pendings l ! pri \<noteq> [] then
        (let p = last (pendings l ! pri);
             l1 = l\<lparr>pendings := (pendings l)[pri := butlast (pendings l ! pri)]\<rparr>
         in do {
           l2 \<leftarrow> cb (anp_w p) (anp_events p) (set_pending (anp_w p) 0 l1);
           invoke_loop cb l2 })
      else if pri \<noteq> 0 then invoke_loop cb (l\<lparr>pendingpri := pri - 1\<rparr>)
      else Some l)"

definition ev_invoke_pending :: "'e sys \<Rightarrow> 'e callbacks \<Rightarrow> 'e ev_loop \<Rightarrow> 'e ev_loop option" where
  "ev_invoke_pending sys cb l = invoke_loop (invoke_cb sys cb) (l\<lparr>pendingpri := NUMPRI - 1\<rparr>)"

subsection \<open>Time\<close>

definition MIN_TIMEJUMP :: real where "MIN_TIMEJUMP = 1"
definition MAX_BLOCKTIME :: real where "MAX_BLOCKTIME = 59743 / 1000"

text \<open>The tries of \<open>time_update\<close> to find the clocks in step; when all fail, there was a time jump.\<close>

fun check_timejump :: "'e sys \<Rightarrow> real \<Rightarrow> nat \<Rightarrow> 'e ev_loop \<Rightarrow> 'e ev_loop option" where
  "check_timejump sys odiff 0 l = periodics_reschedule l"
| "check_timejump sys odiff (Suc n) l =
     (let l1 = l\<lparr>rtmn_diff := ev_rt_now l - mn_now l\<rparr>;
          diff = odiff - rtmn_diff l1
      in if (if diff < 0 then - diff else diff) < MIN_TIMEJUMP then Some l1
         else
           (let (rt, e1) = sys_time sys (env l1); (mn, e2) = sys_get_clock sys e1
            in check_timejump sys odiff n
                 (l1\<lparr>ev_rt_now := rt, mn_now := mn, now_floor := mn, env := e2\<rparr>)))"

definition time_update :: "'e sys \<Rightarrow> real \<Rightarrow> 'e ev_loop \<Rightarrow> 'e ev_loop option" where
  "time_update sys max_block l =
     (if sys_have_monotonic sys then
        (let odiff = rtmn_diff l;
             (mn, e1) = sys_get_clock sys (env l);
             l1 = l\<lparr>mn_now := mn, env := e1\<rparr>
         in if mn_now l1 - now_floor l1 < MIN_TIMEJUMP * (1 / 2)
            then Some (l1\<lparr>ev_rt_now := rtmn_diff l1 + mn_now l1\<rparr>)
            else
              (let (rt, e2) = sys_time sys (env l1)
               in check_timejump sys odiff 3 (l1\<lparr>now_floor := mn_now l1, ev_rt_now := rt, env := e2\<rparr>)))
      else
        (let (rt, e1) = sys_time sys (env l);
             l1 = l\<lparr>ev_rt_now := rt, env := e1\<rparr>
         in map_option (\<lambda>l2. l2\<lparr>mn_now := ev_rt_now l2\<rparr>)
              (if mn_now l1 > ev_rt_now l1 \<or> ev_rt_now l1 > mn_now l1 + max_block + MIN_TIMEJUMP
               then periodics_reschedule (timers_reschedule (ev_rt_now l1 - mn_now l1) l1)
               else Some l1)))"

definition FOREVER :: real where "FOREVER = 10 ^ 100"

definition ev_now_update :: "'e sys \<Rightarrow> 'e ev_loop \<Rightarrow> 'e ev_loop option" where
  "ev_now_update sys l = time_update sys FOREVER l"

definition ev_suspend :: "'e sys \<Rightarrow> 'e ev_loop \<Rightarrow> 'e ev_loop option" where
  "ev_suspend sys l = ev_now_update sys l"

definition ev_resume :: "'e sys \<Rightarrow> 'e ev_loop \<Rightarrow> 'e ev_loop option" where
  "ev_resume sys l = do {
     l1 \<leftarrow> ev_now_update sys l;
     periodics_reschedule (timers_reschedule (mn_now l1 - mn_now l) l1) }"

subsection \<open>Running\<close>

definition EVRUN_NOWAIT :: mask32 where "EVRUN_NOWAIT = 1"
definition EVRUN_ONCE :: mask32 where "EVRUN_ONCE = 2"
definition EVBREAK_CANCEL :: nat where "EVBREAK_CANCEL = 0"
definition EVBREAK_ONE :: nat where "EVBREAK_ONE = 1"
definition EVBREAK_ALL :: nat where "EVBREAK_ALL = 2"
definition EVBREAK_RECURSE :: nat where "EVBREAK_RECURSE = 0x80"

definition ev_break :: "nat \<Rightarrow> 'e ev_loop \<Rightarrow> 'e ev_loop" where
  "ev_break how l = l\<lparr>loop_done := how\<rparr>"

text \<open>The blocking time: how long to wait in the backend and how long to sleep before.\<close>

definition run_may_block :: "mask32 \<Rightarrow> 'e ev_loop \<Rightarrow> bool" where
  "run_may_block flags l \<longleftrightarrow>
     \<not> (flags AND EVRUN_NOWAIT \<noteq> 0 \<or> idleall l \<noteq> 0 \<or> activecnt l = 0 \<or> pipe_write_skipped l)"

definition run_waittime :: "'e ev_loop \<Rightarrow> real" where
  "run_waittime l =
     (let w0 = MAX_BLOCKTIME;
          w1 = (if timercnt l \<noteq> 0
                then (let to = anhe_at (timers l HEAP0) - mn_now l in if w0 > to then to else w0) else w0);
          w2 = (if periodiccnt l \<noteq> 0
                then (let to = anhe_at (periodics l HEAP0) - ev_rt_now l in if w1 > to then to else w1) else w1);
          w3 = (if w2 < timeout_blocktime l then timeout_blocktime l else w2)
      in if w3 < backend_mintime l then backend_mintime l else w3)"

definition run_sleeptime :: "real \<Rightarrow> real \<Rightarrow> 'e ev_loop \<Rightarrow> real" where
  "run_sleeptime prev_mn_now waittime l =
     (if io_blocktime l \<noteq> 0 then
        (let s = io_blocktime l - (mn_now l - prev_mn_now)
         in if s > waittime - backend_mintime l then waittime - backend_mintime l else s)
      else 0)"

text \<open>The sleep itself: the wait gets shorter by it.\<close>

definition run_block ::
  "'e sys \<Rightarrow> mask32 \<Rightarrow> real \<Rightarrow> 'e ev_loop \<Rightarrow> real \<times> real \<times> 'e ev_loop" where
  "run_block sys flags prev_mn_now l =
     (if run_may_block flags l then
        (let waittime = run_waittime l; sleeptime = run_sleeptime prev_mn_now waittime l in
         if sleeptime > 0 then (waittime - sleeptime, sleeptime, l\<lparr>env := sys_sleep sys sleeptime (env l)\<rparr>)
         else (waittime, sleeptime, l))
      else (0, 0, l))"

definition loop_fork :: "'e sys \<Rightarrow> 'e ev_loop \<Rightarrow> 'e ev_loop option" where
  "loop_fork sys l = do {
     l1 \<leftarrow> epoll_fork l;
     l2 \<leftarrow>
       (if w_active l1 pipe_w \<noteq> 0 \<and> postfork l1 \<noteq> 2 then do {
          k1 \<leftarrow> ev_io_stop pipe_w (ev_ref l1);
          k2 \<leftarrow> evpipe_init sys k1;
          ev_feed_event pipe_w EV_CUSTOM k2 }
        else Some l1);
     Some (l2\<lparr>postfork := 0\<rparr>) }"

text \<open>The first part of an iteration: fork and prepare watchers.\<close>

definition check_fork :: "'e sys \<Rightarrow> 'e ev_loop \<Rightarrow> 'e ev_loop" where
  "check_fork sys l =
     (if curpid l \<noteq> 0 \<and> sys_getpid sys (env l) \<noteq> curpid l
      then l\<lparr>curpid := sys_getpid sys (env l), postfork := 1\<rparr> else l)"

definition run_prepare :: "'e sys \<Rightarrow> 'e callbacks \<Rightarrow> 'e ev_loop \<Rightarrow> 'e ev_loop option" where
  "run_prepare sys cb l = do {
     let l1 = check_fork sys l;
     l2 \<leftarrow>
       (if postfork l1 \<noteq> 0 \<and> forks l1 \<noteq> []
        then Option.bind (queue_events (forks l1) EV_FORK l1) (ev_invoke_pending sys cb) else Some l1);
     if prepares l2 \<noteq> []
     then Option.bind (queue_events (prepares l2) EV_PREPARE l2) (ev_invoke_pending sys cb) else Some l2 }"

text \<open>The second part: blocking in the backend. \<open>loop_done\<close> is set around it, for the callbacks of
  \<open>ev_set_loop_release_cb\<close>.\<close>

definition run_poll :: "'e sys \<Rightarrow> mask32 \<Rightarrow> 'e ev_loop \<Rightarrow> 'e ev_loop option" where
  "run_poll sys flags l = do {
     l1 \<leftarrow> (if postfork l \<noteq> 0 then loop_fork sys l else Some l);
     l2 \<leftarrow> fd_reify (epoll_modify sys) l1;
     let prev_mn_now = mn_now l2;
     l3 \<leftarrow> time_update sys FOREVER l2;
     let l4 = l3\<lparr>pipe_write_wanted := True\<rparr>;
     let (waittime, sleeptime, l5) = run_block sys flags prev_mn_now l4;
     let l6 = l5\<lparr>loop_count := loop_count l5 + 1, loop_done := EVBREAK_RECURSE\<rparr>;
     l7 \<leftarrow> epoll_poll sys waittime l6;
     let l8 = l7\<lparr>loop_done := EVBREAK_CANCEL, pipe_write_wanted := False\<rparr>;
     l9 \<leftarrow>
       (if pipe_write_skipped l8 then
          (if w_active l8 pipe_w \<noteq> 0 then ev_feed_event pipe_w EV_CUSTOM l8 else None)
        else Some l8);
     time_update sys (waittime + sleeptime) l9 }"

text \<open>The third part: what is due becomes pending, and all that is pending is invoked.\<close>

definition run_events :: "'e sys \<Rightarrow> 'e callbacks \<Rightarrow> 'e ev_loop \<Rightarrow> 'e ev_loop option" where
  "run_events sys cb l = do {
     l1 \<leftarrow> timers_reify l;
     l2 \<leftarrow> periodics_reify l1;
     l3 \<leftarrow> idle_reify l2;
     l4 \<leftarrow> (if checks l3 \<noteq> [] then queue_events (checks l3) EV_CHECK l3 else Some l3);
     ev_invoke_pending sys cb l4 }"

partial_function (option) run_loop ::
  "'e sys \<Rightarrow> 'e callbacks \<Rightarrow> mask32 \<Rightarrow> 'e ev_loop \<Rightarrow> 'e ev_loop option" where
  "run_loop sys cb flags l = do {
     l1 \<leftarrow> run_prepare sys cb l;
     if loop_done l1 \<noteq> 0 then Some l1
     else do {
       l2 \<leftarrow> run_poll sys flags l1;
       l3 \<leftarrow> run_events sys cb l2;
       if activecnt l3 \<noteq> 0 \<and> loop_done l3 = 0 \<and> flags AND (EVRUN_ONCE OR EVRUN_NOWAIT) = 0
       then run_loop sys cb flags l3
       else Some l3 } }"

definition ev_run :: "'e sys \<Rightarrow> 'e callbacks \<Rightarrow> mask32 \<Rightarrow> 'e ev_loop \<Rightarrow> (int \<times> 'e ev_loop) option" where
  "ev_run sys cb flags l = do {
     let l1 = l\<lparr>loop_depth := loop_depth l + 1\<rparr>;
     l2 \<leftarrow> (if loop_done l1 \<noteq> EVBREAK_RECURSE then Some (l1\<lparr>loop_done := EVBREAK_CANCEL\<rparr>) else None);
     l3 \<leftarrow> ev_invoke_pending sys cb l2;
     l4 \<leftarrow> run_loop sys cb flags l3;
     let l5 = (if loop_done l4 = EVBREAK_ONE then l4\<lparr>loop_done := EVBREAK_CANCEL\<rparr> else l4);
     let l6 = l5\<lparr>loop_depth := loop_depth l5 - 1\<rparr>;
     Some (activecnt l6, l6) }"

subsection \<open>The end of a loop, and one-shot watchers\<close>

text \<open>\<open>ev_loop_destroy\<close>: the cleanup watchers run; then the descriptors and the arrays are given
  back (descriptors are in the rest of the process).\<close>

definition ev_loop_destroy :: "'e sys \<Rightarrow> 'e callbacks \<Rightarrow> 'e ev_loop \<Rightarrow> 'e ev_loop option" where
  "ev_loop_destroy sys cb l = do {
     l1 \<leftarrow>
       (if cleanups l \<noteq> []
        then Option.bind (queue_events (cleanups l) EV_CLEANUP l) (ev_invoke_pending sys cb) else Some l);
     let l2 = epoll_destroy l1;
     Some (l2\<lparr>pendings := replicate NUMPRI [], idles := replicate NUMPRI [], anfds := [], rfeeds := [],
        fdchanges := [], timercnt := 0, periodiccnt := 0, forks := [], cleanups := [], prepares := [],
        checks := [], asyncs := []\<rparr>) }"

text \<open>
  \<open>ev_once\<close>: \<open>io\<close> and \<open>to\<close> are the two watchers inside the allocated struct, absent when the
  allocation fails; \<open>user\<close> is the callback with its argument.
\<close>

definition ev_once ::
  "(wid \<times> wid) option \<Rightarrow> (mask32 \<Rightarrow> 'e ev_loop \<Rightarrow> 'e ev_loop option) \<Rightarrow> int \<Rightarrow> mask32 \<Rightarrow> real
     \<Rightarrow> 'e ev_loop \<Rightarrow> 'e ev_loop option" where
  "ev_once once user fd events timeout l =
     (case once of
        None \<Rightarrow> user (EV_ERROR OR EV_READ OR EV_WRITE OR EV_TIMER) l
      | Some (io, to) \<Rightarrow> do {
          let l1 = ev_init io l;
          l2 \<leftarrow> (if fd \<ge> 0 then ev_io_start io (ev_io_set io fd events l1) else Some l1);
          let l3 = ev_init to l2;
          if timeout \<ge> 0 then ev_timer_start to (ev_timer_set to timeout 0 l3) else Some l3 })"

definition once_cb ::
  "wid \<times> wid \<Rightarrow> (mask32 \<Rightarrow> 'e ev_loop \<Rightarrow> 'e ev_loop option) \<Rightarrow> mask32 \<Rightarrow> 'e ev_loop \<Rightarrow> 'e ev_loop option"
  where
  "once_cb once user revents l = do {
     l1 \<leftarrow> ev_io_stop (fst once) l;
     l2 \<leftarrow> ev_timer_stop (snd once) l1;
     user revents l2 }"

definition once_cb_io ::
  "wid \<times> wid \<Rightarrow> (mask32 \<Rightarrow> 'e ev_loop \<Rightarrow> 'e ev_loop option) \<Rightarrow> mask32 \<Rightarrow> 'e ev_loop \<Rightarrow> 'e ev_loop option"
  where
  "once_cb_io once user revents l = do {
     (l1, e) \<leftarrow> ev_clear_pending (snd once) l;
     once_cb once user (revents OR e) l1 }"

definition once_cb_to ::
  "wid \<times> wid \<Rightarrow> (mask32 \<Rightarrow> 'e ev_loop \<Rightarrow> 'e ev_loop option) \<Rightarrow> mask32 \<Rightarrow> 'e ev_loop \<Rightarrow> 'e ev_loop option"
  where
  "once_cb_to once user revents l = do {
     (l1, e) \<leftarrow> ev_clear_pending (fst once) l;
     once_cb once user (revents OR e) l1 }"

subsection \<open>The library's own checks\<close>

definition verify_watcher :: "'e ev_loop \<Rightarrow> wid \<Rightarrow> bool" where
  "verify_watcher l w \<longleftrightarrow> ABSPRI l w \<ge> 0 \<and> ABSPRI l w < int NUMPRI
     \<and> (w_pending l w \<noteq> 0 \<longrightarrow>
          nat (ABSPRI l w) < length (pendings l) \<and> w_pending l w - 1 < length (pend_queue l w)
          \<and> anp_w (pend_queue l w ! (w_pending l w - 1)) = w)"

definition verify_heap :: "'e ev_loop \<Rightarrow> (nat \<Rightarrow> real anhe) \<Rightarrow> nat \<Rightarrow> bool" where
  "verify_heap l heap N \<longleftrightarrow> (\<forall>i \<in> set [HEAP0..<N + HEAP0].
     w_active l (anhe_w (heap i)) = i
     \<and> (i = HEAP0 \<or> anhe_at (heap (HPARENT i)) \<le> anhe_at (heap i))
     \<and> anhe_at (heap i) = w_at l (anhe_w (heap i))
     \<and> verify_watcher l (anhe_w (heap i)))"

definition array_verify :: "'e ev_loop \<Rightarrow> wid list \<Rightarrow> bool" where
  "array_verify l ws \<longleftrightarrow>
     (\<forall>i \<in> set [0..<length ws]. w_active l (ws ! i) = i + 1 \<and> verify_watcher l (ws ! i))"

text \<open>The list of a descriptor; a list that contains a loop is not a list here.\<close>

definition verify_anfd :: "'e ev_loop \<Rightarrow> nat \<Rightarrow> bool" where
  "verify_anfd l fd \<longleftrightarrow> (\<forall>w \<in> set (anfd_head (anfds l ! fd)).
     verify_watcher l w \<and> w_active l w = 1 \<and> w_fd l w = int fd)"

definition ev_verify :: "'e ev_loop \<Rightarrow> bool" where
  "ev_verify l \<longleftrightarrow> activecnt l \<ge> -1
     \<and> (\<forall>fd \<in> set [0..<length (anfds l)]. verify_anfd l fd)
     \<and> verify_heap l (timers l) (timercnt l)
     \<and> verify_heap l (periodics l) (periodiccnt l)
     \<and> (\<forall>row \<in> set (idles l). array_verify l row)
     \<and> array_verify l (forks l) \<and> array_verify l (cleanups l) \<and> array_verify l (asyncs l)
     \<and> array_verify l (prepares l) \<and> array_verify l (checks l)"

subsection \<open>Taking an entry from a queue\<close>

definition pop_pending :: "'e ev_loop \<Rightarrow> 'e ev_loop" where
  "pop_pending l =
     (let pri = pendingpri l in
      set_pending (anp_w (last (pendings l ! pri))) 0
        (l\<lparr>pendings := (pendings l)[pri := butlast (pendings l ! pri)]\<rparr>))"

text \<open>No queue above the current one has an entry.\<close>

definition top_ok :: "'e ev_loop \<Rightarrow> bool" where
  "top_ok l \<longleftrightarrow> pendingpri l < NUMPRI \<and> (\<forall>pri < NUMPRI. pendingpri l < pri \<longrightarrow> pendings l ! pri = [])"

lemma pop_fields:
  "pendings (pop_pending l) = (pendings l)[pendingpri l := butlast (pendings l ! pendingpri l)]"
  "w_pending (pop_pending l) = (w_pending l)(anp_w (last (pendings l ! pendingpri l)) := 0)"
  "pendingpri (pop_pending l) = pendingpri l" "w_priority (pop_pending l) = w_priority l"
  "same_but_pending l (pop_pending l)"
proof -
  let ?p = "last (pendings l ! pendingpri l)"
  have e: "pop_pending l = l\<lparr>w_pending := (w_pending l)(anp_w ?p := 0),
      pendings := (pendings l)[pendingpri l := butlast (pendings l ! pendingpri l)], pendingpri := pendingpri l\<rparr>"
    by (simp add: pop_pending_def set_pending_def Let_def)
  show "pendings (pop_pending l) = (pendings l)[pendingpri l := butlast (pendings l ! pendingpri l)]"
    "w_pending (pop_pending l) = (w_pending l)(anp_w ?p := 0)"
    "pendingpri (pop_pending l) = pendingpri l" "w_priority (pop_pending l) = w_priority l"
    by (simp_all add: e)
  show "same_but_pending l (pop_pending l)" unfolding same_but_pending_def e by blast
qed

lemma pop_pending_correct:
  assumes ok: "pend_ok l" and pri: "pendingpri l < NUMPRI" and ne: "pendings l ! pendingpri l \<noteq> []"
  defines "p \<equiv> last (pendings l ! pendingpri l)"
  shows "pend_ok (pop_pending l)"
    and "anp_w p \<noteq> pending_w \<Longrightarrow> ABSPRI l (anp_w p) = int (pendingpri l)"
    and "anp_w p \<noteq> pending_w \<Longrightarrow> pending_events l (anp_w p) = Some (anp_events p)"
    and "ev_pending_count l = Suc (ev_pending_count (pop_pending l))"
    and "x \<noteq> anp_w p \<Longrightarrow> pending_events (pop_pending l) x = pending_events l x"
proof -
  let ?pri = "pendingpri l"
  let ?q = "pendings l ! ?pri"
  have len: "length (pendings l) = NUMPRI" and dummy: "w_pending l pending_w = 0"
    using ok by (simp_all add: pend_ok_def)
  have own: "w_pending l w \<noteq> 0 \<Longrightarrow> prio_ok l w \<and> w_pending l w \<le> length (pend_queue l w)
        \<and> anp_w (pend_queue l w ! (w_pending l w - 1)) = w" for w
    using ok by (simp add: pend_ok_def)
  have ent: "pri < NUMPRI \<Longrightarrow> i < length (pendings l ! pri) \<Longrightarrow> anp_w (pendings l ! pri ! i) \<noteq> pending_w \<Longrightarrow>
        w_pending l (anp_w (pendings l ! pri ! i)) = Suc i \<and> ABSPRI l (anp_w (pendings l ! pri ! i)) = int pri" for pri i
    using ok by (simp add: pend_ok_def)
  have p: "p = ?q ! (length ?q - 1)" using ne by (simp add: p_def last_conv_nth)
  have L: "length ?q - 1 < length ?q" using ne by simp
  show ap: "ABSPRI l (anp_w p) = int ?pri" and ev: "pending_events l (anp_w p) = Some (anp_events p)"
    if d: "anp_w p \<noteq> pending_w"
  proof -
    have "w_pending l (anp_w p) = length ?q \<and> ABSPRI l (anp_w p) = int ?pri"
      using ent[OF pri L] d ne unfolding p by (simp add: Suc_diff_1)
    then show "ABSPRI l (anp_w p) = int ?pri" "pending_events l (anp_w p) = Some (anp_events p)"
      using ne by (simp_all add: pending_events_def p)
  qed
  have A: "ABSPRI (pop_pending l) x = ABSPRI l x" for x by (simp add: ABSPRI_def pop_fields)
  have Q: "pendings (pop_pending l) ! r = (if r = ?pri then butlast ?q else pendings l ! r)" if "r < NUMPRI" for r
    using that by (simp add: pop_fields len)
  have inq: "w_pending l x < length ?q \<or> nat (ABSPRI l x) \<noteq> ?pri"
    if "w_pending l x \<noteq> 0" "x \<noteq> anp_w p" for x
  proof (rule ccontr)
    assume "\<not> ?thesis"
    then have "nat (ABSPRI l x) = ?pri" "w_pending l x = length ?q" using own[OF that(1)] by auto
    then have "anp_w p = x" using own[OF that(1)] by (simp add: p)
    with that(2) show False by simp
  qed
  have nt: "butlast ?q ! i = ?q ! i" if "i < length ?q - 1" for i using that by (simp add: nth_butlast)
  have W: "w_pending (pop_pending l) x = (if x = anp_w p then 0 else w_pending l x)" for x
    by (simp add: pop_fields p_def)
  have keep: "prio_ok (pop_pending l) x \<and> w_pending l x \<le> length (pend_queue (pop_pending l) x)
      \<and> pend_queue (pop_pending l) x ! (w_pending l x - 1) = pend_queue l x ! (w_pending l x - 1)"
    if "w_pending l x \<noteq> 0" "x \<noteq> anp_w p" for x
  proof -
    have r: "nat (ABSPRI l x) < NUMPRI" using own[OF that(1)] by (simp add: prio_ok_def)
    show ?thesis
    proof (cases "nat (ABSPRI l x) = ?pri")
      case True
      then have "w_pending l x < length ?q" using inq[OF that] by simp
      then show ?thesis using own[OF that(1)] that(1) r True
        by (simp add: prio_ok_def A Q nt)
    next
      case False
      then show ?thesis using own[OF that(1)] r by (simp add: prio_ok_def A Q)
    qed
  qed
  have ent': "w_pending (pop_pending l) (anp_w (pendings (pop_pending l) ! r ! i)) = Suc i
      \<and> ABSPRI (pop_pending l) (anp_w (pendings (pop_pending l) ! r ! i)) = int r"
    if r: "r < NUMPRI" and i: "i < length (pendings (pop_pending l) ! r)"
      and d: "anp_w (pendings (pop_pending l) ! r ! i) \<noteq> pending_w" for r i
  proof -
    have il: "i < length (pendings l ! r)" "pendings (pop_pending l) ! r ! i = pendings l ! r ! i"
      using i by (auto simp: Q[OF r] nt split: if_splits)
    note e = ent[OF r il(1)]
    have "anp_w (pendings l ! r ! i) \<noteq> anp_w p"
    proof
      assume eq: "anp_w (pendings l ! r ! i) = anp_w p"
      then have "anp_w p \<noteq> pending_w" using d il(2) by simp
      have "int r = int ?pri" using e d il(2) ap[OF \<open>anp_w p \<noteq> pending_w\<close>] eq by simp
      then have rp: "r = ?pri" by simp
      have a: "w_pending l (anp_w (?q ! (length ?q - 1))) = Suc (length ?q - 1)"
        using ent[OF pri L] \<open>anp_w p \<noteq> pending_w\<close>[unfolded p] by blast
      have b: "w_pending l (anp_w (pendings l ! r ! i)) = Suc i" using e d il(2) by simp
      have "Suc i = Suc (length ?q - 1)" using a unfolding p[symmetric] eq[symmetric] b .
      moreover have "i < length (butlast ?q)" using i Q[OF r] rp by simp
      ultimately show False by simp
    qed
    then show ?thesis using e d il(2) by (simp add: W A)
  qed
  show "pend_ok (pop_pending l)"
    unfolding pend_ok_def
  proof (intro conjI allI impI)
    show "length (pendings (pop_pending l)) = NUMPRI" by (simp add: pop_fields len)
    show "w_pending (pop_pending l) pending_w = 0" by (simp add: W dummy)
  next
    fix w assume "w_pending (pop_pending l) w \<noteq> 0"
    then have "w \<noteq> anp_w p" "w_pending l w \<noteq> 0" by (auto simp: W split: if_splits)
    then have "w_pending (pop_pending l) w = w_pending l w" "w_pending l w \<noteq> 0" "w \<noteq> anp_w p" by (simp_all add: W)
    with keep[of w] own[of w]
    show "prio_ok (pop_pending l) w" "w_pending (pop_pending l) w \<le> length (pend_queue (pop_pending l) w)"
      "anp_w (pend_queue (pop_pending l) w ! (w_pending (pop_pending l) w - 1)) = w"
      by simp_all
  next
    fix r i assume "r < NUMPRI" "i < length (pendings (pop_pending l) ! r)"
      "anp_w (pendings (pop_pending l) ! r ! i) \<noteq> pending_w"
    then show "w_pending (pop_pending l) (anp_w (pendings (pop_pending l) ! r ! i)) = Suc i"
      "ABSPRI (pop_pending l) (anp_w (pendings (pop_pending l) ! r ! i)) = int r" using ent' by blast+
  qed
  show "pending_events (pop_pending l) x = pending_events l x" if "x \<noteq> anp_w p"
    using keep[of x] that by (simp add: pending_events_def W A)
  have "sum_list (map length ((pendings l)[?pri := butlast ?q])) + length ?q
      = sum_list (map length (pendings l)) + (length ?q - 1)"
    using pri len member_le_sum_list[of "length ?q" "map length (pendings l)"]
    by (simp add: map_update sum_list_update)
  then show "ev_pending_count l = Suc (ev_pending_count (pop_pending l))"
    using L by (simp add: ev_pending_count_def pop_fields)
qed

lemma invoke_loop_unfold:
  assumes "pend_ok l" "pendingpri l < NUMPRI"
  shows "invoke_loop cb l =
     (if pendings l ! pendingpri l \<noteq> [] then
        (let p = last (pendings l ! pendingpri l)
         in Option.bind (cb (anp_w p) (anp_events p) (pop_pending l)) (invoke_loop cb))
      else if pendingpri l \<noteq> 0 then invoke_loop cb (l\<lparr>pendingpri := pendingpri l - 1\<rparr>) else Some l)"
  using assms by (subst invoke_loop.simps) (simp add: pend_ok_def pop_pending_def Let_def)

subsection \<open>Callbacks and what they keep\<close>

lemma ev_feed_event_top:
  assumes "ev_feed_event w revents l = Some l'" "length (pendings l) = NUMPRI"
  shows "top_ok l'" "ev_pending_count l' \<le> Suc (ev_pending_count l)" "length (pendings l') = NUMPRI"
proof -
  have len: "sum_list (map length (xs[k := q])) + length (xs ! k) = sum_list (map length xs) + length q"
    if "k < length xs" for xs :: "anpending list list" and k q
    using that member_le_sum_list[of "length (xs ! k)" "map length xs"] by (simp add: map_update sum_list_update)
  have pos: "NUMPRI = 5" by (simp add: NUMPRI_def EV_MAXPRI_def EV_MINPRI_def)
  define k where "k = nat (ABSPRI l w)"
  have k: "k < length (pendings l)" using assms(1) by (auto simp: ev_feed_event_def Let_def k_def split: if_splits)
  obtain q where q: "pendings l' = (pendings l)[k := q]" "pendingpri l' = NUMPRI - 1" "length q \<le> Suc (length (pendings l ! k))"
    using assms(1) by (auto simp: ev_feed_event_def Let_def k_def set_pending_def split: if_splits)
  show "top_ok l'" "length (pendings l') = NUMPRI" using assms(2) q by (simp_all add: top_ok_def pos)
  show "ev_pending_count l' \<le> Suc (ev_pending_count l)"
    using len[OF k, of q] q(3) by (simp add: ev_pending_count_def q(1))
qed

lemma async_sweep_top:
  "async_sweep ws l = Some l' \<Longrightarrow> length (pendings l) = NUMPRI \<Longrightarrow> top_ok l \<Longrightarrow>
   top_ok l' \<and> ev_pending_count l' \<le> length (filter (w_sent l) ws) + ev_pending_count l"
proof (induction ws arbitrary: l)
  case Nil
  then show ?case by simp
next
  case (Cons w ws)
  show ?case
  proof (cases "w_sent l w")
    case False
    then show ?thesis using Cons.IH[of l] Cons.prems by simp
  next
    case True
    let ?l1 = "l\<lparr>w_sent := (w_sent l)(w := False)\<rparr>"
    obtain l2 where l2: "ev_feed_event w EV_ASYNC ?l1 = Some l2" "async_sweep ws l2 = Some l'"
      using Cons.prems(1) True by (auto split: bind_splits)
    have top: "top_ok l2" "ev_pending_count l2 \<le> Suc (ev_pending_count ?l1)" "length (pendings l2) = NUMPRI"
      using ev_feed_event_top[OF l2(1)] Cons.prems(2) by simp_all
    have s: "w_sent l2 = (w_sent l)(w := False)"
      using l2(1) by (auto simp: ev_feed_event_def Let_def set_pending_def split: if_splits)
    have le: "length (filter (w_sent l2) ws) \<le> length (filter (w_sent l) ws)"
      unfolding s by (induction ws) auto
    have "ev_pending_count l' \<le> length (filter (w_sent l2) ws) + ev_pending_count l2"
      using Cons.IH[OF l2(2) top(3,1)] by simp
    also have "\<dots> \<le> length (filter (w_sent l) ws) + Suc (ev_pending_count ?l1)" using le top(2) by simp
    finally show ?thesis using Cons.IH[OF l2(2) top(3,1)] True by (simp add: ev_pending_count_def)
  qed
qed

text \<open>
  What \<open>ev_invoke_pending\<close> needs of the callbacks: they keep an invariant that implies that the
  queues are consistent, they are only called for a watcher with nothing of a higher priority
  pending, they leave no entry above \<open>pendingpri\<close>, and what they make pending is paid for
  by \<open>work\<close>.
\<close>

locale callback_contract =
  fixes cb :: "'e callbacks" and inv :: "'e ev_loop \<Rightarrow> bool" and work :: "'e ev_loop \<Rightarrow> nat"
  assumes inv_pend: "inv l \<Longrightarrow> pend_ok l"
    and inv_same: "inv l \<Longrightarrow> same_but_pending l l' \<Longrightarrow> pend_ok l' \<Longrightarrow> inv l'"
    and work_same: "same_but_pending l l' \<Longrightarrow> work l' = work l"
    and call: "inv l \<Longrightarrow> top_ok l \<Longrightarrow> w_pending l w = 0 \<Longrightarrow>
        (w \<noteq> pending_w \<Longrightarrow> ABSPRI l w = int (pendingpri l)) \<Longrightarrow>
        \<exists>l'. cb w revents l = Some l' \<and> inv l' \<and> top_ok l'
          \<and> work l' + ev_pending_count l' \<le> work l + ev_pending_count l"
begin

lemma invoke_loop_returns:
  assumes "inv l" "top_ok l"
  shows "\<exists>l'. invoke_loop cb l = Some l' \<and> inv l' \<and> (\<forall>pri < NUMPRI. pendings l' ! pri = [])"
  using assms
proof (induction "(work l + ev_pending_count l, pendingpri l)" arbitrary: l rule: wf_induct[OF wf_lex_prod[OF wf_less wf_less]])
  case 1
  then have IH: "\<exists>l'. invoke_loop cb k = Some l' \<and> inv l' \<and> (\<forall>pri < NUMPRI. pendings l' ! pri = [])"
    if "work k + ev_pending_count k < work l + ev_pending_count l \<or>
        work k + ev_pending_count k = work l + ev_pending_count l \<and> pendingpri k < pendingpri l"
      "inv k" "top_ok k" for k
    using that by auto
  note ok = inv_pend[OF 1(2)]
  have pri: "pendingpri l < NUMPRI" using 1(3) by (simp add: top_ok_def)
  show ?case
  proof (cases "pendings l ! pendingpri l = []")
    case False
    define p where "p = last (pendings l ! pendingpri l)"
    define k where "k = pop_pending l"
    note pop = pop_pending_correct[OF ok pri False, folded p_def k_def]
    note pf = pop_fields[of l, folded p_def k_def]
    have k: "inv k" "work k = work l" by (rule inv_same[OF 1(2) pf(5) pop(1)], rule work_same[OF pf(5)])
    have "pendings k ! r = []" if "r < NUMPRI" "pendingpri l < r" for r
      using that 1(3) by (simp add: pf top_ok_def)
    then have tk: "top_ok k" using pri by (simp add: top_ok_def pf(3))
    have "w_pending k (anp_w p) = 0" by (simp add: pf)
    moreover have "ABSPRI k (anp_w p) = int (pendingpri k)" if "anp_w p \<noteq> pending_w"
      using pop(2)[OF that] by (simp add: ABSPRI_def pf)
    ultimately obtain l2 where l2: "cb (anp_w p) (anp_events p) k = Some l2" "inv l2" "top_ok l2"
      "work l2 + ev_pending_count l2 \<le> work k + ev_pending_count k"
      using call[OF k(1) tk] by blast
    have "work l2 + ev_pending_count l2 < work l + ev_pending_count l" using l2(4) k(2) pop(4) by simp
    then obtain l' where "invoke_loop cb l2 = Some l'" "inv l'" "\<forall>pri < NUMPRI. pendings l' ! pri = []"
      using IH[OF _ l2(2,3)] by blast
    then show ?thesis
      using False l2(1) by (subst invoke_loop_unfold[OF ok pri]) (simp add: Let_def p_def[symmetric] k_def[symmetric])
  next
    case True
    show ?thesis
    proof (cases "pendingpri l = 0")
      case True
      have "pendings l ! r = []" if "r < NUMPRI" for r
        using that 1(3) True \<open>pendings l ! pendingpri l = []\<close> by (cases r) (auto simp: top_ok_def)
      then show ?thesis using True 1(2) \<open>pendings l ! pendingpri l = []\<close>
        by (subst invoke_loop_unfold[OF ok pri]) simp
    next
      case False
      define k where "k = l\<lparr>pendingpri := pendingpri l - 1\<rparr>"
      have sm: "same_but_pending l k"
        unfolding same_but_pending_def
        by (intro exI[of _ "w_pending l"] exI[of _ "pendings l"] exI[of _ "pendingpri l - 1"]) (simp add: k_def)
      have "pend_ok k" by (rule pend_ok_cong(1)[OF ok]) (simp_all add: k_def ABSPRI_def)
      then have k: "inv k" "work k = work l" using inv_same[OF 1(2) sm] work_same[OF sm] by simp_all
      have "pendings k ! r = []" if "r < NUMPRI" "pendingpri k < r" for r
      proof -
        have "r = pendingpri l \<or> pendingpri l < r" using that False by (auto simp: k_def)
        then show ?thesis using 1(3) True that(1) by (auto simp: top_ok_def k_def)
      qed
      then have "top_ok k" using pri by (simp add: top_ok_def k_def)
      moreover have "ev_pending_count k = ev_pending_count l" "pendingpri k < pendingpri l"
        using False by (simp_all add: k_def ev_pending_count_def)
      ultimately obtain l' where "invoke_loop cb k = Some l'" "inv l'" "\<forall>pri < NUMPRI. pendings l' ! pri = []"
        using IH[of k] k by auto
      then show ?thesis
        using True False by (subst invoke_loop_unfold[OF ok pri]) (simp add: k_def)
    qed
  qed
qed

lemma invoke_loop_drains:
  assumes "inv l"
  shows "\<exists>l'. invoke_loop cb (l\<lparr>pendingpri := NUMPRI - 1\<rparr>) = Some l' \<and> inv l' \<and> ev_pending_count l' = 0
    \<and> (\<forall>w. pending_events l' w = None)"
proof -
  let ?k = "l\<lparr>pendingpri := NUMPRI - 1\<rparr>"
  have five: "NUMPRI = 5" by (simp add: NUMPRI_def EV_MAXPRI_def EV_MINPRI_def)
  have sm: "same_but_pending l ?k"
    unfolding same_but_pending_def
    by (intro exI[of _ "w_pending l"] exI[of _ "pendings l"] exI[of _ "NUMPRI - 1"]) simp
  have "pend_ok ?k" by (rule pend_ok_cong(1)[OF inv_pend[OF assms]]) (simp_all add: ABSPRI_def)
  then have "inv ?k" by (rule inv_same[OF assms sm])
  moreover have "top_ok ?k" by (simp add: top_ok_def five)
  ultimately obtain l' where l': "invoke_loop cb ?k = Some l'" "inv l'" "\<forall>pri < NUMPRI. pendings l' ! pri = []"
    using invoke_loop_returns by blast
  have len: "length (pendings l') = NUMPRI" using inv_pend[OF l'(2)] by (simp add: pend_ok_def)
  have "map length (pendings l') = replicate NUMPRI 0"
    by (rule nth_equalityI) (use l'(3) len in simp_all)
  then have "ev_pending_count l' = 0" by (simp add: ev_pending_count_def)
  moreover have "pending_events l' w = None" for w
    using pend_okD(1,2)[OF inv_pend[OF l'(2)], of w] l'(3)
    by (cases "w_pending l' w = 0") (auto simp: pending_events_def prio_ok_def)
  ultimately show ?thesis using l' by blast
qed

end

subsection \<open>Callbacks that only change the rest of the process\<close>

definition env_callbacks :: "(wid \<Rightarrow> mask32 \<Rightarrow> 'e \<Rightarrow> 'e) \<Rightarrow> 'e callbacks" where
  "env_callbacks g w revents l = Some (l\<lparr>env := g w revents (env l)\<rparr>)"

definition async_ready :: "'e ev_loop \<Rightarrow> bool" where
  "async_ready l \<longleftrightarrow> pend_ok l \<and> array_ok (owned Ev_Async) asyncs l \<and> w_kind l pending_w = Ev_Prepare"

definition sent_count :: "'e ev_loop \<Rightarrow> nat" where
  "sent_count l = length (filter (w_sent l) (asyncs l))"

lemma pipecb_ready:
  assumes "async_ready l" "top_ok l"
  shows "\<exists>l'. pipecb sys revents l = Some l' \<and> async_ready l' \<and> top_ok l'
    \<and> sent_count l' + ev_pending_count l' \<le> sent_count l + ev_pending_count l"
proof -
  define l2 where "l2 = (if revents AND EV_READ \<noteq> 0
     then l\<lparr>env := sys_pipe_read sys (if evpipe0 l < 0 then evpipe1 l else evpipe0 l) (env l)\<rparr>
     else l)\<lparr>pipe_write_skipped := False\<rparr>"
  define l3 where "l3 = l2\<lparr>async_pending := False\<rparr>"
  have run: "pipecb sys revents l = (if async_pending l2 then async_sweep (rev (asyncs l2)) l3 else Some l2)"
    by (simp add: pipecb_def Let_def l2_def l3_def)
  have f: "w_pending k = w_pending l" "pendings k = pendings l" "w_priority k = w_priority l" "asyncs k = asyncs l"
    "w_sent k = w_sent l" "w_kind k = w_kind l" "w_active k = w_active l" "pendingpri k = pendingpri l"
    if "k = l2 \<or> k = l3" for k
    using that by (auto simp: l2_def l3_def)
  have ready: "async_ready k \<and> top_ok k \<and> sent_count k = sent_count l \<and> ev_pending_count k = ev_pending_count l"
    if "k = l2 \<or> k = l3" for k
    using assms pend_ok_cong(1)[of l k] f[OF that]
    by (simp add: async_ready_def array_ok_def prio_ok_def ABSPRI_def top_ok_def sent_count_def ev_pending_count_def)
  show ?thesis
  proof (cases "async_pending l2")
    case False
    then show ?thesis using run ready[of l2] by simp
  next
    case True
    have r3: "async_ready l3" "top_ok l3" using ready[of l3] by simp_all
    have ok3: "pend_ok l3" "array_ok (owned Ev_Async) asyncs l3" "w_kind l3 pending_w = Ev_Prepare"
      using r3(1) by (simp_all add: async_ready_def)
    have as3: "asyncs l2 = asyncs l3" by (simp add: l3_def)
    have "distinct (rev (asyncs l3))" "\<forall>w \<in> set (rev (asyncs l3)). prio_ok l3 w \<and> w \<noteq> pending_w"
      using array_ok_distinct[OF ok3(2)] array_ok_listed[OF ok3(2)] ok3(3) by auto
    then obtain l' where l': "async_sweep (rev (asyncs l3)) l3 = Some l'" "pend_ok l'" "core_frame l3 l'"
      "w_active l' = w_active l3" "w_priority l' = w_priority l3" "asyncs l' = asyncs l3"
      "\<forall>w. w_sent l' w \<longleftrightarrow> w_sent l3 w \<and> w \<notin> set (rev (asyncs l3))"
      using async_sweep_correct[OF ok3(1)] by blast
    have k: "w_kind l' = w_kind l3" using l'(3) by (simp add: core_frame_def)
    have "length (pendings l3) = NUMPRI" using ok3(1) by (simp add: pend_ok_def)
    note top = async_sweep_top[OF l'(1) this r3(2)]
    have "filter (w_sent l') (asyncs l') = []" using l'(6,7) by (simp add: filter_empty_conv)
    then have "sent_count l' = 0" by (simp add: sent_count_def)
    moreover have "length (filter (w_sent l3) (rev (asyncs l3))) = sent_count l3"
      by (simp add: sent_count_def rev_filter[symmetric])
    moreover have "async_ready l'"
      using ok3 l'(2,4,5,6) k by (simp add: async_ready_def array_ok_def prio_ok_def ABSPRI_def)
    ultimately show ?thesis using run True l'(1) top ready[of l3] as3 by simp
  qed
qed

interpretation env_callbacks: callback_contract "invoke_cb sys (env_callbacks g)" async_ready sent_count
  for sys g
proof unfold_locales
  fix l l' :: "'a ev_loop" and w revents
  show "async_ready l \<Longrightarrow> pend_ok l" by (simp add: async_ready_def)
  show "sent_count l' = sent_count l" if "same_but_pending l l'"
    using that by (simp add: sent_count_def same_but_pendingD2)
  show "async_ready l'" if "async_ready l" "same_but_pending l l'" "pend_ok l'"
    using that async_array.array_ok_same[of l l'] by (simp add: async_ready_def same_but_pendingD)
  show "\<exists>l'. invoke_cb sys (env_callbacks g) w revents l = Some l' \<and> async_ready l' \<and> top_ok l'
      \<and> sent_count l' + ev_pending_count l' \<le> sent_count l + ev_pending_count l"
    if "async_ready l" "top_ok l"
  proof -
    have "pend_ok (l\<lparr>env := e\<rparr>)" for e
      by (rule pend_ok_cong(1)[of l]) (use that in \<open>simp_all add: ABSPRI_def async_ready_def\<close>)
    then have "async_ready (l\<lparr>env := e\<rparr>) \<and> top_ok (l\<lparr>env := e\<rparr>) \<and> sent_count (l\<lparr>env := e\<rparr>) = sent_count l
        \<and> ev_pending_count (l\<lparr>env := e\<rparr>) = ev_pending_count l" for e
      using that by (simp add: async_ready_def array_ok_def prio_ok_def ABSPRI_def top_ok_def sent_count_def
          ev_pending_count_def)
    then show ?thesis using that pipecb_ready[OF that] by (simp add: invoke_cb_def env_callbacks_def)
  qed
qed

subsection \<open>The order of invocations\<close>

definition pending_below :: "nat \<Rightarrow> 'e ev_loop \<Rightarrow> anpending list" where
  "pending_below n l = concat (map (\<lambda>pri. rev (pendings l ! pri)) (rev [0..<n]))"

text \<open>What \<open>ev_invoke_pending\<close> has to invoke: the highest priority first, in each the newest first;
  cleared entries are not invoked.\<close>

definition invocations :: "'e ev_loop \<Rightarrow> anpending list" where
  "invocations l = filter (\<lambda>p. anp_w p \<noteq> pending_w) (pending_below NUMPRI l)"

lemma pending_below_Suc [simp]: "pending_below (Suc n) l = rev (pendings l ! n) @ pending_below n l"
  by (simp add: pending_below_def)

lemma pending_below_0 [simp]: "pending_below 0 l = []"
  by (simp add: pending_below_def)

lemma pending_below_cong: "(\<And>r. r < n \<Longrightarrow> pendings l' ! r = pendings l ! r) \<Longrightarrow> pending_below n l' = pending_below n l"
  by (induction n) auto

lemma pending_below_top:
  assumes "pendingpri l < n" "\<And>r. pendingpri l < r \<Longrightarrow> r < n \<Longrightarrow> pendings l ! r = []"
  shows "pending_below n l = pending_below (Suc (pendingpri l)) l"
  using assms
proof (induction n)
  case (Suc n)
  then show ?case by (cases "n = pendingpri l") auto
qed simp

lemma invoke_loop_log:
  assumes "pend_ok l" "top_ok l" "w_pending l pipe_w = 0"
  shows "\<exists>l'. invoke_loop (invoke_cb sys (env_callbacks g)) l = Some l'
    \<and> env l' = fold (\<lambda>p. g (anp_w p) (anp_events p)) (invocations l) (env l)"
  using assms
proof (induction "(ev_pending_count l, pendingpri l)" arbitrary: l rule: wf_induct[OF wf_lex_prod[OF wf_less wf_less]])
  case 1
  note ok = 1(2) and top = 1(3) and pipe = 1(4)
  let ?cb = "invoke_cb sys (env_callbacks g)"
  have IH: "\<exists>l'. invoke_loop ?cb k = Some l' \<and> env l' = fold (\<lambda>p. g (anp_w p) (anp_events p)) (invocations k) (env k)"
    if "ev_pending_count k < ev_pending_count l \<or> ev_pending_count k = ev_pending_count l \<and> pendingpri k < pendingpri l"
      "pend_ok k" "top_ok k" "w_pending k pipe_w = 0" for k
    using 1(1) that by auto
  have pri: "pendingpri l < NUMPRI" using top by (simp add: top_ok_def)
  have below: "pending_below NUMPRI l = pending_below (Suc (pendingpri l)) l"
    using top by (intro pending_below_top) (auto simp: top_ok_def)
  show ?case
  proof (cases "pendings l ! pendingpri l = []")
    case False
    define p where "p = last (pendings l ! pendingpri l)"
    define k where "k = pop_pending l"
    note pop = pop_pending_correct[OF ok pri False, folded p_def k_def]
    note pf = pop_fields[of l, folded p_def k_def]
    define k2 where "k2 = (if anp_w p = pending_w then k else k\<lparr>env := g (anp_w p) (anp_events p) (env k)\<rparr>)"
    have np: "anp_w p \<noteq> pipe_w"
      using pop(3) pipe by (auto simp: pending_events_def pipe_w_def pending_w_def split: if_splits)
    have call: "?cb (anp_w p) (anp_events p) k = Some k2"
      using np by (simp add: invoke_cb_def env_callbacks_def k2_def)
    have k2: "pendings k2 = pendings k" "pendingpri k2 = pendingpri l" "w_pending k2 = w_pending k"
      "w_priority k2 = w_priority k" by (simp_all add: k2_def pf)
    have ok2: "pend_ok k2" by (rule pend_ok_cong(1)[OF pop(1)]) (simp_all add: k2 ABSPRI_def)
    have len: "length (pendings l) = NUMPRI" using ok by (simp add: pend_ok_def)
    have top2: "top_ok k2" using top by (simp add: top_ok_def k2 pf)
    have "ev_pending_count k2 < ev_pending_count l" using pop(4) by (simp add: ev_pending_count_def k2)
    moreover have "w_pending k2 pipe_w = 0" using pipe by (simp add: k2 pf)
    ultimately obtain l' where l': "invoke_loop ?cb k2 = Some l'"
      "env l' = fold (\<lambda>p. g (anp_w p) (anp_events p)) (invocations k2) (env k2)"
      using IH[of k2] ok2 top2 by blast
    have "pending_below NUMPRI k2 = pending_below (Suc (pendingpri k2)) k2"
      using top2 by (intro pending_below_top) (auto simp: top_ok_def)
    also have "\<dots> = rev (butlast (pendings l ! pendingpri l)) @ pending_below (pendingpri l) l"
      using pri len by (simp add: k2 pf) (intro pending_below_cong, simp add: k2 pf)
    finally have "pending_below NUMPRI l = p # pending_below NUMPRI k2"
      using below False by (simp add: p_def)
    then have "invocations l = (if anp_w p = pending_w then [] else [p]) @ invocations k2"
      by (simp add: invocations_def)
    moreover have "env k = env l" by (simp add: k_def pop_pending_def set_pending_def Let_def)
    ultimately have "env l' = fold (\<lambda>p. g (anp_w p) (anp_events p)) (invocations l) (env l)"
      using l'(2) by (simp add: k2_def)
    then show ?thesis
      using False call l'(1) by (subst invoke_loop_unfold[OF ok pri]) (simp add: Let_def p_def[symmetric] k_def[symmetric])
  next
    case True
    show ?thesis
    proof (cases "pendingpri l = 0")
      case True
      then have "invocations l = []" using below \<open>pendings l ! pendingpri l = []\<close> by (simp add: invocations_def)
      then show ?thesis using True \<open>pendings l ! pendingpri l = []\<close>
        by (subst invoke_loop_unfold[OF ok pri]) simp
    next
      case False
      define k where "k = l\<lparr>pendingpri := pendingpri l - 1\<rparr>"
      have "pend_ok k" by (rule pend_ok_cong(1)[OF ok]) (simp_all add: k_def ABSPRI_def)
      moreover have "top_ok k"
      proof -
        have "pendings k ! r = []" if "r < NUMPRI" "pendingpri k < r" for r
        proof -
          have "r = pendingpri l \<or> pendingpri l < r" using that False by (auto simp: k_def)
          then show ?thesis using top True that(1) by (auto simp: top_ok_def k_def)
        qed
        then show ?thesis using pri by (simp add: top_ok_def k_def)
      qed
      moreover have "ev_pending_count k = ev_pending_count l" "pendingpri k < pendingpri l" "w_pending k pipe_w = 0"
        using False pipe by (simp_all add: k_def ev_pending_count_def)
      ultimately obtain l' where "invoke_loop ?cb k = Some l'"
        "env l' = fold (\<lambda>p. g (anp_w p) (anp_events p)) (invocations k) (env k)"
        using IH[of k] by auto
      moreover have "invocations k = invocations l" "env k = env l"
        using pending_below_cong[of NUMPRI k l] by (simp_all add: invocations_def k_def)
      ultimately show ?thesis
        using True False by (subst invoke_loop_unfold[OF ok pri]) (simp add: k_def)
    qed
  qed
qed

text \<open>Every pending watcher is invoked once, with its events, in the order of the priorities.\<close>

definition live :: "anpending list \<Rightarrow> anpending list" where
  "live ps = filter (\<lambda>p. anp_w p \<noteq> pending_w) ps"

lemma sorted_wrt_all: "(\<And>p q. p \<in> set xs \<Longrightarrow> q \<in> set xs \<Longrightarrow> P p q) \<Longrightarrow> sorted_wrt P xs"
  by (induction xs) auto

lemma queue_once:
  assumes ok: "pend_ok l" and n: "n < NUMPRI"
  shows "distinct (map anp_w (live (pendings l ! n)))"
    "\<forall>p \<in> set (live (pendings l ! n)). ABSPRI l (anp_w p) = int n \<and> pending_events l (anp_w p) = Some (anp_events p)"
proof -
  let ?q = "pendings l ! n"
  have ent: "w_pending l (anp_w (?q ! i)) = Suc i \<and> ABSPRI l (anp_w (?q ! i)) = int n"
    if "i < length ?q" "anp_w (?q ! i) \<noteq> pending_w" for i
    using ok n that by (simp add: pend_ok_def)
  show "\<forall>p \<in> set (live ?q). ABSPRI l (anp_w p) = int n \<and> pending_events l (anp_w p) = Some (anp_events p)"
  proof
    fix p assume "p \<in> set (live ?q)"
    then obtain i where "i < length ?q" "?q ! i = p" "anp_w p \<noteq> pending_w" by (auto simp: live_def in_set_conv_nth)
    then show "ABSPRI l (anp_w p) = int n \<and> pending_events l (anp_w p) = Some (anp_events p)"
      using ent[of i] by (simp add: pending_events_def)
  qed
  have "distinct (map anp_w (live (take k ?q)))" if "k \<le> length ?q" for k
    using that
  proof (induction k)
    case (Suc k)
    have "anp_w (?q ! k) \<notin> anp_w ` set (live (take k ?q))" if "anp_w (?q ! k) \<noteq> pending_w"
    proof
      assume "anp_w (?q ! k) \<in> anp_w ` set (live (take k ?q))"
      then obtain i where "i < k" "anp_w (?q ! i) = anp_w (?q ! k)"
        using Suc.prems by (auto simp: live_def in_set_conv_nth)
      then show False using ent[of i] ent[of k] that Suc.prems by simp
    qed
    then show ?case using Suc by (simp add: take_Suc_conv_app_nth live_def)
  qed (simp add: live_def)
  from this[of "length ?q"] show "distinct (map anp_w (live ?q))" by simp
qed

lemma pending_below_once:
  assumes ok: "pend_ok l" and "n \<le> NUMPRI"
  shows "distinct (map anp_w (live (pending_below n l)))
    \<and> sorted_wrt (\<lambda>p q. ABSPRI l (anp_w q) \<le> ABSPRI l (anp_w p)) (live (pending_below n l))
    \<and> (\<forall>p \<in> set (live (pending_below n l)).
        ABSPRI l (anp_w p) < int n \<and> pending_events l (anp_w p) = Some (anp_events p))"
  using assms(2)
proof (induction n)
  case 0
  then show ?case by (simp add: live_def)
next
  case (Suc n)
  define q where "q = live (pendings l ! n)"
  define r where "r = live (pending_below n l)"
  have e: "live (pending_below (Suc n) l) = rev q @ r" by (simp add: live_def q_def r_def rev_filter)
  note qo = queue_once[OF ok, of n, folded q_def]
  have q: "distinct (map anp_w q)" "\<And>p. p \<in> set q \<Longrightarrow> ABSPRI l (anp_w p) = int n \<and> pending_events l (anp_w p) = Some (anp_events p)"
    using qo Suc.prems by auto
  have r: "distinct (map anp_w r)" "sorted_wrt (\<lambda>p q. ABSPRI l (anp_w q) \<le> ABSPRI l (anp_w p)) r"
    "\<And>p. p \<in> set r \<Longrightarrow> ABSPRI l (anp_w p) < int n \<and> pending_events l (anp_w p) = Some (anp_events p)"
    using Suc by (auto simp: r_def)
  let ?R = "\<lambda>p q. ABSPRI l (anp_w q) \<le> ABSPRI l (anp_w p)"
  have dj: "anp_w ` set q \<inter> anp_w ` set r = {}" using q(2) r(3) by fastforce
  have "sorted_wrt ?R (rev q)" by (rule sorted_wrt_all) (simp add: q(2))
  moreover have "?R x y" if "x \<in> set (rev q)" "y \<in> set r" for x y
    using q(2)[of x] r(3)[of y] that by simp
  ultimately have "sorted_wrt ?R (rev q @ r)" using r(2) by (simp add: sorted_wrt_append)
  moreover have "distinct (map anp_w (rev q @ r))"
    using q(1) r(1) dj by (simp add: rev_map[symmetric])
  moreover have "ABSPRI l (anp_w x) < int (Suc n) \<and> pending_events l (anp_w x) = Some (anp_events x)"
    if "x \<in> set (rev q @ r)" for x
    using that q(2)[of x] r(3)[of x] by auto
  ultimately show ?case unfolding e by blast
qed

lemma invocations_all:
  assumes ok: "pend_ok l"
  shows "pending_events l w = Some e \<longleftrightarrow> \<lparr>anp_w = w, anp_events = e\<rparr> \<in> set (invocations l)"
proof
  assume "pending_events l w = Some e"
  then have p: "w_pending l w \<noteq> 0" and e: "anp_events (pend_queue l w ! (w_pending l w - 1)) = e"
    by (auto simp: pending_events_def split: if_splits)
  note D = pend_okD[OF ok p]
  let ?x = "pend_queue l w ! (w_pending l w - 1)"
  have x: "?x = \<lparr>anp_w = w, anp_events = e\<rparr>" using D(3) e by (cases ?x) simp
  have "?x \<in> set (pending_below n l)" if "nat (ABSPRI l w) < n" for n
    using that
  proof (induction n)
    case (Suc n)
    then show ?case using D(2) by (cases "nat (ABSPRI l w) = n") auto
  qed simp
  then have "?x \<in> set (pending_below NUMPRI l)" using D(1) by (simp add: prio_ok_def)
  then show "\<lparr>anp_w = w, anp_events = e\<rparr> \<in> set (invocations l)"
    using D(6) unfolding x by (simp add: invocations_def)
next
  assume "\<lparr>anp_w = w, anp_events = e\<rparr> \<in> set (invocations l)"
  then show "pending_events l w = Some e"
    using pending_below_once[OF ok order.refl] by (fastforce simp: invocations_def live_def)
qed

subsection \<open>Properties\<close>

text \<open>For the witnesses: a loop with a timer for time 7, started at time 0, and the same loop at
  time 8.\<close>

definition timer_kinds :: "wid \<Rightarrow> watcher_kind" where
  "timer_kinds w = (if w = pending_w then Ev_Prepare else Ev_Timer)"

definition timer_loop :: "unit ev_loop" where
  "timer_loop = the (ev_timer_start 7 (new_loop timer_kinds))"

definition late_loop :: "unit ev_loop" where
  "late_loop = timer_loop\<lparr>mn_now := 8\<rparr>"

lemma new_loop_timers: "timers_ok (new_loop kind)" "mn_now (new_loop kind) = 0" "rfeeds (new_loop kind) = []"
  by (simp_all add: timers_ok_def heap_inv_def heap_ok_def heap_ordered_def heap_indexed_def heap_entries_def
      new_loop_fields)
     (simp_all add: new_loop_def ev_loop_new_def loop_init_def loop_zero_def epoll_init_def ev_init_def calm_sys_def)

lemma timer_loop:
  "timers_ok timer_loop" "pend_ok timer_loop" "rfeeds timer_loop = []" "w_kind timer_loop = timer_kinds"
  "w_active timer_loop 7 \<noteq> 0" "w_at timer_loop 7 = 7" "w_repeat timer_loop w = 0" "mn_now timer_loop = 0"
proof -
  let ?l = "new_loop timer_kinds"
  have k: "w_kind ?l 7 = Ev_Timer" by (simp add: new_loop_fields timer_kinds_def pending_w_def)
  obtain l' where l': "ev_timer_start 7 ?l = Some l'" "timers_ok l'" "pend_ok l'" "timer_frame ?l l'"
    "w_active l' 7 \<noteq> 0" "w_at l' = (w_at ?l)(7 := w_at ?l 7 + mn_now ?l)" "rfeeds l' = rfeeds ?l"
    using ev_timer_start_correct[OF new_loop_timers(1) new_loop_arrays(3) k new_loop_fields(2)]
    by (auto simp: new_loop_fields)
  then have "timer_loop = l'" by (simp add: timer_loop_def)
  with l' show "timers_ok timer_loop" "pend_ok timer_loop" "rfeeds timer_loop = []" "w_kind timer_loop = timer_kinds"
    "w_active timer_loop 7 \<noteq> 0" "w_at timer_loop 7 = 7" "w_repeat timer_loop w = 0" "mn_now timer_loop = 0"
    by (auto simp: timer_frame_def new_loop_fields new_loop_timers)
qed

lemma late_loop:
  "timers_ok late_loop" "pend_ok late_loop" "rfeeds late_loop = []" "w_kind late_loop = timer_kinds"
  "due_timer late_loop 7" "w_repeat late_loop w = 0"
proof -
  show "timers_ok late_loop"
    unfolding timers_ok_def late_loop_def
    using heap_inv_cong[OF timer_loop(1)[unfolded timers_ok_def], of late_loop]
    by (simp add: late_loop_def ABSPRI_def)
  show "pend_ok late_loop" by (rule pend_ok_cong(1)[OF timer_loop(2)]) (simp_all add: late_loop_def ABSPRI_def)
  show "rfeeds late_loop = []" "w_kind late_loop = timer_kinds" "w_repeat late_loop w = 0"
    by (simp_all add: late_loop_def timer_loop)
  show "due_timer late_loop 7"
    using timer_loop by (simp add: due_timer_def late_loop_def timer_kinds_def pending_w_def)
qed

text \<open>C14: \<open>timers_reify\<close> returns and makes exactly the timers whose time has passed pending with
  \<open>EV_TIMER\<close>; afterwards none is due, those that do not repeat are stopped, the others keep running,
  and the heap and the queues are consistent.\<close>

theorem ev_timers_reify_due:
  assumes "timers_ok l" and "pend_ok l" and "rfeeds l = []" and "w_kind l pending_w = Ev_Prepare"
    and "\<forall>w. due_timer l w \<longrightarrow> 0 \<le> w_repeat l w"
  shows "\<exists>l'. timers_reify l = Some l' \<and> timers_ok l' \<and> pend_ok l' \<and> (\<forall>w. \<not> due_timer l' w)
    \<and> (\<forall>w. due_timer l w \<longrightarrow> (w_active l' w = 0 \<longleftrightarrow> w_repeat l w = 0))
    \<and> (\<forall>w. due_timer l w \<longrightarrow> (\<exists>e. pending_events l' w = Some e \<and> e AND EV_TIMER \<noteq> 0))
    \<and> (\<forall>w. \<not> due_timer l w \<longrightarrow> pending_events l' w = pending_events l w)"
proof -
  obtain l' where l': "timers_reify l = Some l'" "timers_ok l'" "pend_ok l'" "\<forall>w. \<not> due_timer l' w"
    "\<forall>x. due_timer l x \<longrightarrow> (w_active l' x = 0 \<longleftrightarrow> w_repeat l x = 0)"
    "\<forall>x. pending_events l' x =
        (if due_timer l x then Some (case pending_events l x of None \<Rightarrow> EV_TIMER
            | Some e \<Rightarrow> if w_repeat l x = 0 then EV_TIMER else e OR EV_TIMER)
         else pending_events l x)"
    using timers_reify_correct[OF assms(1,2,3,5,4)] by blast
  have "bit EV_TIMER 8" by (simp add: EV_TIMER_def)
  then have "bit ((e OR EV_TIMER) AND EV_TIMER) 8" "bit (EV_TIMER AND EV_TIMER) 8" for e by (simp_all add: bit_simps)
  then have "(e OR EV_TIMER) AND EV_TIMER \<noteq> 0" "EV_TIMER AND EV_TIMER \<noteq> 0" for e by (metis bit_0_eq bot_apply bot_bool_def)+
  then have "\<exists>e. pending_events l' w = Some e \<and> e AND EV_TIMER \<noteq> 0" if "due_timer l w" for w
    using l'(6) that by (auto split: option.splits)
  then show ?thesis using l' by auto
qed

theorem ev_timers_reify_due_witness:
  "\<exists>l'. timers_reify late_loop = Some l' \<and> pend_ok l' \<and> w_active l' 7 = 0
    \<and> (\<exists>e. pending_events l' 7 = Some e \<and> e AND EV_TIMER \<noteq> 0)"
  using ev_timers_reify_due[of late_loop] late_loop by (auto simp: timer_kinds_def)


definition fed_loop :: "unit ev_loop" where
  "fed_loop = the (feed_all [7, 8] EV_READ (new_loop io_kinds))"

lemma fed_loop:
  "pend_ok fed_loop" "w_pending fed_loop pipe_w = 0" "pending_events fed_loop 7 = Some EV_READ"
proof -
  let ?l = "new_loop io_kinds"
  have n: "pending_events ?l x = None" for x by (simp add: pending_events_def new_loop_fields)
  have "\<forall>w \<in> set [7, 8]. prio_ok ?l w \<and> w \<noteq> pending_w" by (simp add: new_loop_prio pipe_w_def pending_w_def)
  then obtain l' where l': "feed_all [7, 8] EV_READ ?l = Some l'" "pend_ok l'"
    "\<forall>x. pending_events l' x = (if x \<in> set [7, 8] then
        Some (case pending_events ?l x of None \<Rightarrow> EV_READ | Some e \<Rightarrow> e OR EV_READ) else pending_events ?l x)"
    using feed_all_correct[OF new_loop_arrays(3), of "[7, 8]" io_kinds EV_READ] by auto
  then have e: "fed_loop = l'" by (simp add: fed_loop_def)
  show "pend_ok fed_loop" using l' e by simp
  show "pending_events fed_loop 7 = Some EV_READ" using l'(3) n e by simp
  have "pending_events fed_loop pipe_w = None" using l'(3) n e by (simp add: pipe_w_def)
  then show "w_pending fed_loop pipe_w = 0" by (simp add: pending_events_def split: if_splits)
qed




text \<open>C4: how long \<open>ev_run\<close> blocks: not at all when it must not; otherwise at least the minimum of
  the backend in the backend, and in all (with the sleep) never past the time of an active timer,
  unless by the minimum block times.\<close>

lemma run_waittime_bounds:
  "backend_mintime l \<le> run_waittime l"
  "run_waittime l \<le> max MAX_BLOCKTIME (max (timeout_blocktime l) (backend_mintime l))"
  "timercnt l \<noteq> 0 \<Longrightarrow> run_waittime l \<le> max (anhe_at (timers l HEAP0) - mn_now l) (max (timeout_blocktime l) (backend_mintime l))"
  by (auto simp: run_waittime_def Let_def)

theorem ev_run_block_bounds:
  assumes "timers_ok l" and "run_block sys flags prev l = (waittime, sleeptime, l')"
  shows "(\<not> run_may_block flags l \<longrightarrow> waittime = 0 \<and> sleeptime = 0 \<and> l' = l)
    \<and> (run_may_block flags l \<longrightarrow> backend_mintime l \<le> waittime
        \<and> waittime + max 0 sleeptime \<le> max MAX_BLOCKTIME (max (timeout_blocktime l) (backend_mintime l))
        \<and> (\<forall>w. w_kind l w = Ev_Timer \<and> w_active l w \<noteq> 0 \<longrightarrow>
             waittime + max 0 sleeptime \<le> max (w_at l w - mn_now l) (max (timeout_blocktime l) (backend_mintime l))))"
proof (cases "run_may_block flags l")
  case False
  then show ?thesis using assms(2) by (auto simp: run_block_def)
next
  case True
  note b = run_waittime_bounds[of l]
  have s: "run_sleeptime prev (run_waittime l) l \<le> run_waittime l - backend_mintime l"
    if "run_sleeptime prev (run_waittime l) l > 0"
    using that b(1) by (auto simp: run_sleeptime_def Let_def)
  have w: "backend_mintime l \<le> waittime" and t: "waittime + max 0 sleeptime = run_waittime l"
    using assms(2) True s b(1) by (auto simp: run_block_def Let_def split: if_splits)
  have "run_waittime l \<le> max (w_at l x - mn_now l) (max (timeout_blocktime l) (backend_mintime l))"
    if x: "w_kind l x = Ev_Timer" "w_active l x \<noteq> 0" for x
  proof -
    have n: "timercnt l \<noteq> 0" using heap_inv_active(4)[OF assms(1)[unfolded timers_ok_def] x] by simp
    have "anhe_at (timers l HEAP0) \<le> w_at l x"
      using timer_root(4)[OF assms(1) n x] by (simp only: timer_root(5)[OF assms(1) n])
    then show ?thesis using b(3)[OF n] by (auto simp: max_def split: if_splits)
  qed
  with True w t b(2) show ?thesis by simp
qed

lemma ev_timer_start_rest:
  "ev_timer_start w l = Some l' \<Longrightarrow> w_active l w = 0 \<Longrightarrow>
     activecnt l' = activecnt l + 1 \<and> idleall l' = idleall l \<and> pipe_write_skipped l' = pipe_write_skipped l"
  by (auto simp: ev_timer_start_def Let_def with_timers_def ev_start_def ev_ref_def set_active_def pri_adjust_def
      set_at_def split: if_splits)

lemma timer_loop_blocks: "run_may_block 0 timer_loop"
proof -
  have s: "ev_timer_start 7 (new_loop timer_kinds) = Some timer_loop"
  proof -
    have "w_kind (new_loop timer_kinds) 7 = Ev_Timer" by (simp add: new_loop_fields timer_kinds_def pending_w_def)
    then show ?thesis
      using ev_timer_start_correct[OF new_loop_timers(1) new_loop_arrays(3) _ new_loop_fields(2), of timer_kinds 7]
      by (auto simp: new_loop_fields timer_loop_def)
  qed
  show ?thesis
    using ev_timer_start_rest[OF s new_loop_fields(2)]
    by (simp add: run_may_block_def new_loop_def ev_loop_new_def loop_init_def loop_zero_def epoll_init_def
        ev_init_def calm_sys_def Let_def)
qed

theorem ev_run_block_bounds_witness:
  "fst (run_block calm_sys 0 0 timer_loop)
     \<le> max 7 (max (timeout_blocktime timer_loop) (backend_mintime timer_loop))"
proof -
  obtain waittime sleeptime l' where b: "run_block calm_sys 0 0 timer_loop = (waittime, sleeptime, l')"
    by (metis surj_pair)
  have "w_kind timer_loop 7 = Ev_Timer" by (simp add: timer_loop timer_kinds_def pending_w_def)
  with ev_run_block_bounds[OF timer_loop(1) b] timer_loop_blocks timer_loop(5,6,8)
  have "waittime + max 0 sleeptime \<le> max 7 (max (timeout_blocktime timer_loop) (backend_mintime timer_loop))"
    by fastforce
  then show ?thesis by (simp add: b)
qed

text \<open>C5: a loop that keeps the invariants passes all the assertions of \<open>ev_verify\<close>.\<close>

definition loop_ok :: "'e ev_loop \<Rightarrow> bool" where
  "loop_ok l \<longleftrightarrow> fd_inv 0 l \<and> timers_ok l \<and> heap_inv Ev_Periodic (periodics l) (periodiccnt l) l
   \<and> array_ok (owned Ev_Prepare) prepares l \<and> array_ok (owned Ev_Check) checks l
   \<and> array_ok (owned Ev_Fork) forks l \<and> array_ok (owned Ev_Cleanup) cleanups l
   \<and> array_ok (owned Ev_Async) asyncs l
   \<and> length (idles l) = NUMPRI \<and> (\<forall>pri < NUMPRI. array_ok (idle_at pri) (idle_row pri) l)"

lemma prio_ok_verify: "pend_ok l \<Longrightarrow> prio_ok l w \<Longrightarrow> verify_watcher l w"
  using pend_okD[of l w] by (auto simp: verify_watcher_def prio_ok_def)

lemma heap_inv_verify: "heap_inv K h n l \<Longrightarrow> pend_ok l \<Longrightarrow> verify_heap l h n"
proof -
  assume inv: "heap_inv K h n l" and pend: "pend_ok l"
  have ok: "heap_ok (h, w_active l) n" using inv by (simp add: heap_inv_def)
  show ?thesis
    unfolding verify_heap_def
  proof (intro ballI conjI)
    fix i assume "i \<in> set [HEAP0..<n + HEAP0]"
    then have i: "HEAP0 \<le> i" "i < n + HEAP0" by simp_all
    note l = heap_inv_listed[OF inv heap_entry[OF i]]
    show "w_active l (anhe_w (h i)) = i" by (rule heap_inv_index[OF inv i])
    show "i = HEAP0 \<or> anhe_at (h (HPARENT i)) \<le> anhe_at (h i)"
    proof (cases "HEAP0 < i")
      case True
      then show ?thesis using ok i by (simp add: heap_ok_def heap_ordered_def)
    qed (use i in simp)
    show "anhe_at (h i) = w_at l (anhe_w (h i))" by (rule l(3))
    show "verify_watcher l (anhe_w (h i))" by (rule prio_ok_verify[OF pend l(4)])
  qed
qed

lemma array_ok_verify: "array_ok owns arr l \<Longrightarrow> pend_ok l \<Longrightarrow> array_verify l (arr l)"
  by (auto simp: array_ok_def array_verify_def intro: prio_ok_verify)


lemma heap_inv_none: "\<forall>w. w_kind l w = K \<longrightarrow> w_active l w = 0 \<Longrightarrow> heap_inv K h 0 l"
  by (simp add: heap_inv_def heap_ok_def heap_ordered_def heap_indexed_def heap_entries_def)

lemma ev_io_start_rest:
  "ev_io_start w l = Some l' \<Longrightarrow> w_active l w = 0 \<Longrightarrow>
     activecnt l' = activecnt l + 1 \<and> prepares l' = prepares l \<and> checks l' = checks l \<and> forks l' = forks l
   \<and> cleanups l' = cleanups l \<and> asyncs l' = asyncs l \<and> idles l' = idles l"
  by (auto simp: ev_io_start_def Let_def fd_change_def set_anfd_def ev_start_def ev_ref_def set_active_def
      pri_adjust_def split: if_splits option.splits)

lemma array_ok_none: "arr l = [] \<Longrightarrow> \<forall>w. owns l w \<longrightarrow> w_active l w = 0 \<Longrightarrow> array_ok owns arr l"
  by (simp add: array_ok_def)

lemma started_loop_ok: "loop_ok started_loop" "activecnt started_loop = 1"
proof -
  let ?l = "new_loop io_kinds"
  have new: "prepares ?l = []" "checks ?l = []" "forks ?l = []" "cleanups ?l = []" "asyncs ?l = []"
    "idles ?l = replicate NUMPRI []" "activecnt ?l = 0"
    by (simp_all add: new_loop_def ev_loop_new_def loop_init_def loop_zero_def epoll_init_def
        ev_init_def calm_sys_def Let_def)
  note rest = ev_io_start_rest[OF started_loop(1) new_loop_fields(2), unfolded new]
  have fr: "io_frame ?l started_loop"
    using ev_io_start_correct[OF new_loop_inv[of io_kinds], of 7] started_loop(1)
    by (auto simp: new_loop_fields io_kinds_def pending_w_def legal_events_def EV_READ_def EV_WRITE_def
        EV__IOFDSET_def EV_ET_def)
  have k: "w_kind started_loop = io_kinds" "timercnt started_loop = 0" "periodiccnt started_loop = 0"
    using fr by (simp_all add: io_frame_def new_loop_fields) (simp add: new_loop_def ev_loop_new_fields)
  have a: "w_active started_loop w = 0" if "io_kinds w \<noteq> Ev_Io" for w
    using fr that by (simp add: io_frame_def new_loop_fields)
  have h: "heap_inv K hh 0 started_loop" if "K \<noteq> Ev_Io" for K hh
    by (rule heap_inv_none) (use a k that in auto)
  have "array_ok (idle_at pri) (idle_row pri) started_loop" if "pri < NUMPRI" for pri
    using a k rest that by (intro array_ok_none) (auto simp: idle_at_def idle_row_def)
  moreover have "array_ok (owned K) arr started_loop" if "K \<noteq> Ev_Io" "arr started_loop = []" for K arr
    using a k that by (intro array_ok_none) auto
  ultimately show "loop_ok started_loop"
    using started_loop(2) h rest by (simp add: loop_ok_def timers_ok_def k)
  show "activecnt started_loop = 1" using rest by simp
qed


end
