(* ===== verification/Http_Url.thy ===== *)
theory Http_Url
  imports Smart_Prelude "HOL-Library.Char_ord"
begin

text \<open>
  Characters, states and the URL parser of \<open>http/http_parser.cpp\<close>.

  A \<open>char\<close> of the code is a \<^typ>\<open>char\<close>, its value read as \<open>unsigned char\<close>; where the code compares
  signed values the outcome is the same. A pointer into a buffer is an offset. The code is compiled
  with \<open>HTTP_PARSER_STRICT\<close> set, its default.
\<close>

subsection \<open>Characters\<close>

definition CR :: char where "CR = CHR 0x0D"
definition LF :: char where "LF = CHR 0x0A"
definition HT :: char where "HT = CHR 0x09"
definition FF :: char where "FF = CHR 0x0C"
definition NUL :: char where "NUL = CHR 0x00"

abbreviation ord :: "char \<Rightarrow> nat" where "ord \<equiv> of_char"

text \<open>\<open>c | 0x20\<close>\<close>

fun LOWER :: "char \<Rightarrow> char" where
  "LOWER (Char b0 b1 b2 b3 b4 b5 b6 b7) = Char b0 b1 b2 b3 b4 True b6 b7"

definition IS_ALPHA :: "char \<Rightarrow> bool" where
  "IS_ALPHA c \<longleftrightarrow> ord (LOWER c) \<ge> 97 \<and> ord (LOWER c) \<le> 122"

definition IS_NUM :: "char \<Rightarrow> bool" where
  "IS_NUM c \<longleftrightarrow> ord c \<ge> 48 \<and> ord c \<le> 57"

definition IS_ALPHANUM :: "char \<Rightarrow> bool" where
  "IS_ALPHANUM c \<longleftrightarrow> IS_ALPHA c \<or> IS_NUM c"

definition IS_HEX :: "char \<Rightarrow> bool" where
  "IS_HEX c \<longleftrightarrow> IS_NUM c \<or> (ord (LOWER c) \<ge> 97 \<and> ord (LOWER c) \<le> 102)"

definition IS_MARK :: "char \<Rightarrow> bool" where
  "IS_MARK c \<longleftrightarrow> c \<in> set (CHR 0x27 # ''-_.!~*()'')"

definition IS_USERINFO_CHAR :: "char \<Rightarrow> bool" where
  "IS_USERINFO_CHAR c \<longleftrightarrow> IS_ALPHANUM c \<or> IS_MARK c \<or> c \<in> set ''%;:&=+$,''"

definition IS_HOST_CHAR :: "char \<Rightarrow> bool" where
  "IS_HOST_CHAR c \<longleftrightarrow> IS_ALPHANUM c \<or> c = CHR ''.'' \<or> c = CHR ''-''"

definition IS_HEADER_CHAR :: "char \<Rightarrow> bool" where
  "IS_HEADER_CHAR c \<longleftrightarrow> c = CR \<or> c = LF \<or> ord c = 9 \<or> (ord c > 31 \<and> ord c \<noteq> 127)"

text \<open>The value of a digit.\<close>

definition digit_val :: "char \<Rightarrow> nat" where
  "digit_val c = ord c - 48"

text \<open>
  The table \<open>tokens\<close>: the characters of a token, letters in lower case, and 0 for the rest.
\<close>

definition TOKEN :: "char \<Rightarrow> char" where
  "TOKEN c =
     (if 65 \<le> ord c \<and> ord c \<le> 90 then LOWER c
      else if (97 \<le> ord c \<and> ord c \<le> 122) \<or> (48 \<le> ord c \<and> ord c \<le> 57)
              \<or> c \<in> set (CHR 0x27 # CHR 0x60 # ''!#$%&*+-.^_|~'') then c
      else NUL)"

text \<open>
  The table \<open>unhex\<close> has 256 entries of which the first 128 are written out; the others are 0, not -1.
\<close>

definition unhex :: "char \<Rightarrow> int" where
  "unhex c =
     (let n = ord c in
      if 48 \<le> n \<and> n \<le> 57 then int n - 48
      else if 65 \<le> n \<and> n \<le> 70 then int n - 55
      else if 97 \<le> n \<and> n \<le> 102 then int n - 87
      else if n < 128 then -1
      else 0)"

text \<open>The bitmap \<open>normal_url_char\<close>, 8 characters in a byte.\<close>

definition normal_url_char :: "nat list" where
  "normal_url_char = replicate 4 0 @ [246, 255, 255, 127] @ replicate 7 255 @ [127] @ replicate 16 0"

definition BIT_AT :: "nat list \<Rightarrow> nat \<Rightarrow> bool" where
  "BIT_AT a i \<longleftrightarrow> (a ! (i div 8)) div 2 ^ (i mod 8) mod 2 = 1"

definition IS_URL_CHAR :: "char \<Rightarrow> bool" where
  "IS_URL_CHAR c \<longleftrightarrow> BIT_AT normal_url_char (ord c)"

subsection \<open>States\<close>

datatype (plugins only: code) pstate =
    s_dead
  | s_start_req_or_res | s_res_or_resp_H | s_start_res | s_res_H | s_res_HT | s_res_HTT | s_res_HTTP
  | s_res_first_http_major | s_res_http_major | s_res_first_http_minor | s_res_http_minor
  | s_res_first_status_code | s_res_status_code | s_res_status_start | s_res_status | s_res_line_almost_done
  | s_start_req | s_req_method | s_req_spaces_before_url | s_req_schema | s_req_schema_slash
  | s_req_schema_slash_slash | s_req_server_start | s_req_server | s_req_server_with_at | s_req_path
  | s_req_query_string_start | s_req_query_string | s_req_fragment_start | s_req_fragment
  | s_req_http_start | s_req_http_H | s_req_http_HT | s_req_http_HTT | s_req_http_HTTP
  | s_req_first_http_major | s_req_http_major | s_req_first_http_minor | s_req_http_minor
  | s_req_line_almost_done
  | s_header_field_start | s_header_field | s_header_value_discard_ws | s_header_value_discard_ws_almost_done
  | s_header_value_discard_lws | s_header_value_start | s_header_value | s_header_value_lws
  | s_header_almost_done
  | s_chunk_size_start | s_chunk_size | s_chunk_parameters | s_chunk_size_almost_done
  | s_headers_almost_done | s_headers_done
  | s_chunk_data | s_chunk_data_almost_done | s_chunk_data_done
  | s_body_identity | s_body_identity_eof
  | s_message_done

text \<open>\<open>PARSING_HEADER\<close>: the states up to \<open>s_headers_done\<close>.\<close>

definition PARSING_HEADER :: "pstate \<Rightarrow> bool" where
  "PARSING_HEADER s \<longleftrightarrow>
     s \<notin> {s_chunk_data, s_chunk_data_almost_done, s_chunk_data_done, s_body_identity, s_body_identity_eof,
        s_message_done}"

subsection \<open>One character of a URL\<close>

definition url_server_char :: "char \<Rightarrow> pstate" where
  "url_server_char ch =
     (if ch = CHR ''/'' then s_req_path
      else if ch = CHR ''?'' then s_req_query_string_start
      else if ch = CHR ''@'' then s_req_server_with_at
      else if IS_USERINFO_CHAR ch \<or> ch = CHR ''['' \<or> ch = CHR '']'' then s_req_server
      else s_dead)"

definition url_query_char :: "char \<Rightarrow> pstate" where
  "url_query_char ch =
     (if IS_URL_CHAR ch then s_req_query_string
      else if ch = CHR ''?'' then s_req_query_string
      else if ch = CHR ''#'' then s_req_fragment_start
      else s_dead)"

definition parse_url_char :: "pstate \<Rightarrow> char \<Rightarrow> pstate" where
  "parse_url_char s ch =
     (if ch = CHR '' '' \<or> ch = CR \<or> ch = LF then s_dead
      else if ch = HT \<or> ch = FF then s_dead
      else case s of
        s_req_spaces_before_url \<Rightarrow>
          (if ch = CHR ''/'' \<or> ch = CHR ''*'' then s_req_path
           else if IS_ALPHA ch then s_req_schema else s_dead)
      | s_req_schema \<Rightarrow>
          (if IS_ALPHA ch then s else if ch = CHR '':'' then s_req_schema_slash else s_dead)
      | s_req_schema_slash \<Rightarrow> (if ch = CHR ''/'' then s_req_schema_slash_slash else s_dead)
      | s_req_schema_slash_slash \<Rightarrow> (if ch = CHR ''/'' then s_req_server_start else s_dead)
      | s_req_server_with_at \<Rightarrow> (if ch = CHR ''@'' then s_dead else url_server_char ch)
      | s_req_server_start \<Rightarrow> url_server_char ch
      | s_req_server \<Rightarrow> url_server_char ch
      | s_req_path \<Rightarrow>
          (if IS_URL_CHAR ch then s
           else if ch = CHR ''?'' then s_req_query_string_start
           else if ch = CHR ''#'' then s_req_fragment_start else s_dead)
      | s_req_query_string_start \<Rightarrow> url_query_char ch
      | s_req_query_string \<Rightarrow> url_query_char ch
      | s_req_fragment_start \<Rightarrow>
          (if IS_URL_CHAR ch then s_req_fragment
           else if ch = CHR ''?'' then s_req_fragment
           else if ch = CHR ''#'' then s else s_dead)
      | s_req_fragment \<Rightarrow>
          (if IS_URL_CHAR ch then s else if ch = CHR ''?'' \<or> ch = CHR ''#'' then s else s_dead)
      | _ \<Rightarrow> s_dead)"

subsection \<open>Hosts\<close>

datatype http_host_state =
    s_http_host_dead | s_http_userinfo_start | s_http_userinfo | s_http_host_start | s_http_host_v6_start
  | s_http_host | s_http_host_v6 | s_http_host_v6_end | s_http_host_v6_zone_start | s_http_host_v6_zone
  | s_http_host_port_start | s_http_host_port

definition host_v6_char :: "http_host_state \<Rightarrow> char \<Rightarrow> http_host_state" where
  "host_v6_char s ch =
     (if IS_HEX ch \<or> ch = CHR '':'' \<or> ch = CHR ''.'' then s_http_host_v6
      else if s = s_http_host_v6 \<and> ch = CHR ''%'' then s_http_host_v6_zone_start
      else s_http_host_dead)"

definition host_zone_char :: "char \<Rightarrow> http_host_state" where
  "host_zone_char ch =
     (if IS_ALPHANUM ch \<or> ch \<in> set ''%.-_~'' then s_http_host_v6_zone else s_http_host_dead)"

definition http_parse_host_char :: "http_host_state \<Rightarrow> char \<Rightarrow> http_host_state" where
  "http_parse_host_char s ch =
     (if s = s_http_userinfo \<or> s = s_http_userinfo_start then
        (if ch = CHR ''@'' then s_http_host_start
         else if IS_USERINFO_CHAR ch then s_http_userinfo else s_http_host_dead)
      else if s = s_http_host_start then
        (if ch = CHR ''['' then s_http_host_v6_start
         else if IS_HOST_CHAR ch then s_http_host else s_http_host_dead)
      else if s = s_http_host then
        (if IS_HOST_CHAR ch then s_http_host
         else if ch = CHR '':'' then s_http_host_port_start else s_http_host_dead)
      else if s = s_http_host_v6_end then
        (if ch = CHR '':'' then s_http_host_port_start else s_http_host_dead)
      else if s = s_http_host_v6 then
        (if ch = CHR '']'' then s_http_host_v6_end else host_v6_char s ch)
      else if s = s_http_host_v6_start then host_v6_char s ch
      else if s = s_http_host_v6_zone then
        (if ch = CHR '']'' then s_http_host_v6_end else host_zone_char ch)
      else if s = s_http_host_v6_zone_start then host_zone_char ch
      else if s = s_http_host_port \<or> s = s_http_host_port_start then
        (if IS_NUM ch then s_http_host_port else s_http_host_dead)
      else s_http_host_dead)"

subsection \<open>Whole URLs\<close>

datatype url_field = UF_SCHEMA | UF_HOST | UF_PORT | UF_PATH | UF_QUERY | UF_FRAGMENT | UF_USERINFO

text \<open>
  The result: the bits of \<open>field_set\<close> as a set, and for every field its offset and length, which the
  code keeps in 16 bits.
\<close>

record url =
  field_set :: "url_field set"
  url_port :: "16 word"
  u_off :: "url_field \<Rightarrow> 16 word"
  u_len :: "url_field \<Rightarrow> 16 word"

definition http_parser_url_init :: url where
  "http_parser_url_init = \<lparr>field_set = {}, url_port = 0, u_off = (\<lambda>_. 0), u_len = (\<lambda>_. 0)\<rparr>"

definition set_field :: "url_field \<Rightarrow> nat \<Rightarrow> 16 word \<Rightarrow> url \<Rightarrow> url" where
  "set_field f off len u =
     u\<lparr>field_set := insert f (field_set u), u_off := (u_off u)(f := of_nat off), u_len := (u_len u)(f := len)\<rparr>"

definition grow_field :: "url_field \<Rightarrow> url \<Rightarrow> url" where
  "grow_field f u = u\<lparr>u_len := (u_len u)(f := u_len u f + 1)\<rparr>"

text \<open>One character of the host, at offset \<open>i\<close>: \<open>s\<close> is the state before it and \<open>t\<close> the new one.\<close>

definition host_update :: "http_host_state \<Rightarrow> http_host_state \<Rightarrow> nat \<Rightarrow> url \<Rightarrow> url" where
  "host_update s t i u =
     (if t = s_http_host \<or> t = s_http_host_v6 then
        grow_field UF_HOST (if s \<noteq> t then u\<lparr>u_off := (u_off u)(UF_HOST := of_nat i)\<rparr> else u)
      else if t = s_http_host_v6_zone_start \<or> t = s_http_host_v6_zone then grow_field UF_HOST u
      else if t = s_http_host_port then
        grow_field UF_PORT (if s \<noteq> t then set_field UF_PORT i 0 u else u)
      else if t = s_http_userinfo then
        grow_field UF_USERINFO (if s \<noteq> t then set_field UF_USERINFO i 0 u else u)
      else u)"

fun host_loop :: "char list \<Rightarrow> nat \<Rightarrow> http_host_state \<Rightarrow> url \<Rightarrow> (http_host_state \<times> url) option" where
  "host_loop [] i s u = Some (s, u)"
| "host_loop (ch # cs) i s u =
     (let t = http_parse_host_char s ch in
      if t = s_http_host_dead then None else host_loop cs (i + 1) t (host_update s t i u))"

definition host_final :: "http_host_state \<Rightarrow> bool" where
  "host_final s \<longleftrightarrow>
     s \<notin> {s_http_host_start, s_http_host_v6_start, s_http_host_v6, s_http_host_v6_zone_start,
        s_http_host_v6_zone, s_http_host_port_start, s_http_userinfo, s_http_userinfo_start}"

definition http_parse_host :: "char list \<Rightarrow> bool \<Rightarrow> url \<Rightarrow> url option" where
  "http_parse_host buf found_at u =
     (let off = unat (u_off u UF_HOST); len = unat (u_len u UF_HOST);
          u1 = u\<lparr>u_len := (u_len u)(UF_HOST := 0)\<rparr>;
          s = (if found_at then s_http_userinfo_start else s_http_host_start)
      in case host_loop (take len (drop off buf)) off s u1 of
           None \<Rightarrow> None
         | Some (t, u2) \<Rightarrow> if host_final t then Some u2 else None)"

text \<open>The loop of \<open>http_parser_parse_url\<close>: the field of a state, when it has one.\<close>

datatype url_step = Url_Dead | Url_Skip | Url_Field url_field

definition url_state_field :: "pstate \<Rightarrow> url_step" where
  "url_state_field s =
     (if s = s_dead then Url_Dead
      else if s \<in> {s_req_schema_slash, s_req_schema_slash_slash, s_req_server_start,
                   s_req_query_string_start, s_req_fragment_start} then Url_Skip
      else if s = s_req_schema then Url_Field UF_SCHEMA
      else if s = s_req_server_with_at \<or> s = s_req_server then Url_Field UF_HOST
      else if s = s_req_path then Url_Field UF_PATH
      else if s = s_req_query_string then Url_Field UF_QUERY
      else if s = s_req_fragment then Url_Field UF_FRAGMENT
      else Url_Dead)"

fun url_loop ::
  "char list \<Rightarrow> nat \<Rightarrow> pstate \<Rightarrow> url_field option \<Rightarrow> bool \<Rightarrow> url \<Rightarrow> (bool \<times> url) option" where
  "url_loop [] i s old found_at u = Some (found_at, u)"
| "url_loop (ch # cs) i s old found_at u =
     (let t = parse_url_char s ch in
      case url_state_field t of
        Url_Dead \<Rightarrow> None
      | Url_Skip \<Rightarrow> url_loop cs (i + 1) t old found_at u
      | Url_Field f \<Rightarrow>
          (let at = found_at \<or> t = s_req_server_with_at in
           if old = Some f then url_loop cs (i + 1) t old at (grow_field f u)
           else url_loop cs (i + 1) t (Some f) at (set_field f i 1 u)))"

text \<open>\<open>strtoul\<close> in base 10: the digits at the start of the text, saturated at \<open>ULONG_MAX\<close>.\<close>

definition strtoul10 :: "char list \<Rightarrow> int" where
  "strtoul10 cs = min (2 ^ 64 - 1) (foldl (\<lambda>v c. 10 * v + int (digit_val c)) 0 (takeWhile IS_NUM cs))"

text \<open>
  \<open>http_parser_parse_url\<close>: \<^const>\<open>None\<close> is the result 1. \<open>rest\<close> is the memory behind the buffer,
  which \<open>strtoul\<close> may read.
\<close>

definition http_parser_parse_url :: "char list \<Rightarrow> char list \<Rightarrow> bool \<Rightarrow> url \<Rightarrow> url option" where
  "http_parser_parse_url buf rest is_connect u =
     (let u0 = u\<lparr>url_port := 0, field_set := {}\<rparr>;
          s = (if is_connect then s_req_server_start else s_req_spaces_before_url)
      in case url_loop buf 0 s None False u0 of
           None \<Rightarrow> None
         | Some (found_at, u1) \<Rightarrow>
             if UF_SCHEMA \<in> field_set u1 \<and> UF_HOST \<notin> field_set u1 then None
             else
               (case (if UF_HOST \<in> field_set u1 then http_parse_host buf found_at u1 else Some u1) of
                  None \<Rightarrow> None
                | Some u2 \<Rightarrow>
                    if is_connect \<and> field_set u2 \<noteq> {UF_HOST, UF_PORT} then None
                    else if UF_PORT \<in> field_set u2 then
                      (let v = strtoul10 (drop (unat (u_off u2 UF_PORT)) (buf @ rest))
                       in if v > 0xffff then None else Some (u2\<lparr>url_port := word_of_int v\<rparr>))
                    else Some u2))"

end
