(* ===== verification/Http_Parser.thy ===== *)
theory Http_Parser
  imports Http_Url "HOL-Library.Word"
begin

text \<open>
  The HTTP parser of \<open>http/http_parser.cpp\<close>: \<open>http_parser_execute\<close> with one definition for every
  state or group of states of its switch.

  The bit fields of the struct keep their widths; the enums are datatypes. The buffer is the list
  \<open>data\<close>, a pointer into it an offset. The local variables of \<open>http_parser_execute\<close> are the record
  \<open>run\<close>. Callbacks are functions of the parser, whose \<open>hp_data\<close> is the user's data of type \<open>'e\<close>;
  they return their result and the parser. \<^const>\<open>None\<close> (or \<open>Failed\<close> inside) is a failed assertion
  or an access outside the buffer.
\<close>

unbundle bit_operations_syntax

subsection \<open>The parser\<close>

datatype (plugins only: code) http_method =
    HTTP_DELETE | HTTP_GET | HTTP_HEAD | HTTP_POST | HTTP_PUT | HTTP_CONNECT | HTTP_OPTIONS | HTTP_TRACE
  | HTTP_COPY | HTTP_LOCK | HTTP_MKCOL | HTTP_MOVE | HTTP_PROPFIND | HTTP_PROPPATCH | HTTP_SEARCH | HTTP_UNLOCK
  | HTTP_BIND | HTTP_REBIND | HTTP_UNBIND | HTTP_ACL | HTTP_REPORT | HTTP_MKACTIVITY | HTTP_CHECKOUT
  | HTTP_MERGE | HTTP_MSEARCH | HTTP_NOTIFY | HTTP_SUBSCRIBE | HTTP_UNSUBSCRIBE | HTTP_PATCH | HTTP_PURGE
  | HTTP_MKCALENDAR | HTTP_LINK | HTTP_UNLINK

fun method_strings :: "http_method \<Rightarrow> string" where
  "method_strings HTTP_DELETE = ''DELETE''"
| "method_strings HTTP_GET = ''GET''"
| "method_strings HTTP_HEAD = ''HEAD''"
| "method_strings HTTP_POST = ''POST''"
| "method_strings HTTP_PUT = ''PUT''"
| "method_strings HTTP_CONNECT = ''CONNECT''"
| "method_strings HTTP_OPTIONS = ''OPTIONS''"
| "method_strings HTTP_TRACE = ''TRACE''"
| "method_strings HTTP_COPY = ''COPY''"
| "method_strings HTTP_LOCK = ''LOCK''"
| "method_strings HTTP_MKCOL = ''MKCOL''"
| "method_strings HTTP_MOVE = ''MOVE''"
| "method_strings HTTP_PROPFIND = ''PROPFIND''"
| "method_strings HTTP_PROPPATCH = ''PROPPATCH''"
| "method_strings HTTP_SEARCH = ''SEARCH''"
| "method_strings HTTP_UNLOCK = ''UNLOCK''"
| "method_strings HTTP_BIND = ''BIND''"
| "method_strings HTTP_REBIND = ''REBIND''"
| "method_strings HTTP_UNBIND = ''UNBIND''"
| "method_strings HTTP_ACL = ''ACL''"
| "method_strings HTTP_REPORT = ''REPORT''"
| "method_strings HTTP_MKACTIVITY = ''MKACTIVITY''"
| "method_strings HTTP_CHECKOUT = ''CHECKOUT''"
| "method_strings HTTP_MERGE = ''MERGE''"
| "method_strings HTTP_MSEARCH = ''M-SEARCH''"
| "method_strings HTTP_NOTIFY = ''NOTIFY''"
| "method_strings HTTP_SUBSCRIBE = ''SUBSCRIBE''"
| "method_strings HTTP_UNSUBSCRIBE = ''UNSUBSCRIBE''"
| "method_strings HTTP_PATCH = ''PATCH''"
| "method_strings HTTP_PURGE = ''PURGE''"
| "method_strings HTTP_MKCALENDAR = ''MKCALENDAR''"
| "method_strings HTTP_LINK = ''LINK''"
| "method_strings HTTP_UNLINK = ''UNLINK''"

datatype http_parser_type = HTTP_REQUEST | HTTP_RESPONSE | HTTP_BOTH

definition F_CHUNKED :: "8 word" where "F_CHUNKED = 1"
definition F_CONNECTION_KEEP_ALIVE :: "8 word" where "F_CONNECTION_KEEP_ALIVE = 2"
definition F_CONNECTION_CLOSE :: "8 word" where "F_CONNECTION_CLOSE = 4"
definition F_CONNECTION_UPGRADE :: "8 word" where "F_CONNECTION_UPGRADE = 8"
definition F_TRAILING :: "8 word" where "F_TRAILING = 16"
definition F_UPGRADE :: "8 word" where "F_UPGRADE = 32"
definition F_SKIPBODY :: "8 word" where "F_SKIPBODY = 64"
definition F_CONTENTLENGTH :: "8 word" where "F_CONTENTLENGTH = 128"

datatype (plugins only: code) http_errno =
    HPE_OK
  | HPE_CB_message_begin | HPE_CB_url | HPE_CB_header_field | HPE_CB_header_value | HPE_CB_headers_complete
  | HPE_CB_body | HPE_CB_message_complete | HPE_CB_status | HPE_CB_chunk_header | HPE_CB_chunk_complete
  | HPE_INVALID_EOF_STATE | HPE_HEADER_OVERFLOW | HPE_CLOSED_CONNECTION | HPE_INVALID_VERSION
  | HPE_INVALID_STATUS | HPE_INVALID_METHOD | HPE_INVALID_URL | HPE_INVALID_HOST | HPE_INVALID_PORT
  | HPE_INVALID_PATH | HPE_INVALID_QUERY_STRING | HPE_INVALID_FRAGMENT | HPE_LF_EXPECTED
  | HPE_INVALID_HEADER_TOKEN | HPE_INVALID_CONTENT_LENGTH | HPE_UNEXPECTED_CONTENT_LENGTH
  | HPE_INVALID_CHUNK_SIZE | HPE_INVALID_CONSTANT | HPE_INVALID_INTERNAL_STATE | HPE_STRICT | HPE_PAUSED
  | HPE_UNKNOWN

datatype (plugins only: code) hstate =
    h_general | h_C | h_CO | h_CON
  | h_matching_connection | h_matching_proxy_connection | h_matching_content_length
  | h_matching_transfer_encoding | h_matching_upgrade
  | h_connection | h_content_length | h_transfer_encoding | h_upgrade
  | h_matching_transfer_encoding_chunked | h_matching_connection_token_start
  | h_matching_connection_keep_alive | h_matching_connection_close | h_matching_connection_upgrade
  | h_matching_connection_token
  | h_transfer_encoding_chunked | h_connection_keep_alive | h_connection_close | h_connection_upgrade

record 'e http_parser =
  hp_type :: http_parser_type
  hp_flags :: "8 word"
  hp_state :: pstate
  header_state :: hstate
  hp_index :: nat
  lenient_http_headers :: bool
  nread :: "32 word"
  content_length :: "64 word"
  http_major :: "16 word"
  http_minor :: "16 word"
  status_code :: "16 word"
  hp_method :: http_method
  hp_errno :: http_errno
  hp_upgrade :: bool
  hp_data :: 'e

type_synonym 'e http_cb = "'e http_parser \<Rightarrow> int \<times> 'e http_parser"
type_synonym 'e http_data_cb = "char list \<Rightarrow> 'e http_parser \<Rightarrow> int \<times> 'e http_parser"

record 'e http_settings =
  on_message_begin :: "'e http_cb option"
  on_url :: "'e http_data_cb option"
  on_status :: "'e http_data_cb option"
  on_header_field :: "'e http_data_cb option"
  on_header_value :: "'e http_data_cb option"
  on_headers_complete :: "'e http_cb option"
  on_body :: "'e http_data_cb option"
  on_message_complete :: "'e http_cb option"
  on_chunk_header :: "'e http_cb option"
  on_chunk_complete :: "'e http_cb option"

definition ULLONG_MAX :: "64 word" where "ULLONG_MAX = 0xFFFFFFFFFFFFFFFF"
definition HTTP_MAX_HEADER_SIZE :: int where "HTTP_MAX_HEADER_SIZE = 81920"

text \<open>\<open>parser->flags & f\<close> and \<open>parser->flags |= f\<close>; the index is a field of 7 bits.\<close>

definition has_flag :: "8 word \<Rightarrow> 'e http_parser \<Rightarrow> bool" where
  "has_flag f pr \<longleftrightarrow> hp_flags pr AND f \<noteq> 0"

definition add_flag :: "8 word \<Rightarrow> 'e http_parser \<Rightarrow> 'e http_parser" where
  "add_flag f pr = pr\<lparr>hp_flags := hp_flags pr OR f\<rparr>"

definition next_index :: "'e http_parser \<Rightarrow> 'e http_parser" where
  "next_index pr = pr\<lparr>hp_index := (hp_index pr + 1) mod 128\<rparr>"

subsection \<open>Keep-alive\<close>

definition http_message_needs_eof :: "'e http_parser \<Rightarrow> bool" where
  "http_message_needs_eof pr =
     (if hp_type pr = HTTP_REQUEST then False
      else if status_code pr div 100 = 1 \<or> status_code pr = 204 \<or> status_code pr = 304
              \<or> has_flag F_SKIPBODY pr then False
      else if has_flag F_CHUNKED pr \<or> content_length pr \<noteq> ULLONG_MAX then False
      else True)"

definition http_should_keep_alive :: "'e http_parser \<Rightarrow> bool" where
  "http_should_keep_alive pr =
     (if http_major pr > 0 \<and> http_minor pr > 0
      then \<not> has_flag F_CONNECTION_CLOSE pr \<and> \<not> http_message_needs_eof pr
      else has_flag F_CONNECTION_KEEP_ALIVE pr \<and> \<not> http_message_needs_eof pr)"

definition start_state :: "'e http_parser \<Rightarrow> pstate" where
  "start_state pr = (if hp_type pr = HTTP_REQUEST then s_start_req else s_start_res)"

definition NEW_MESSAGE :: "'e http_parser \<Rightarrow> pstate" where
  "NEW_MESSAGE pr = (if http_should_keep_alive pr then start_state pr else s_dead)"

definition http_parser_init :: "http_parser_type \<Rightarrow> 'e \<Rightarrow> 'e http_parser" where
  "http_parser_init t data =
     \<lparr>hp_type = t, hp_flags = 0,
      hp_state = (if t = HTTP_REQUEST then s_start_req else if t = HTTP_RESPONSE then s_start_res
                  else s_start_req_or_res),
      header_state = h_general, hp_index = 0, lenient_http_headers = False, nread = 0,
      content_length = 0, http_major = 0, http_minor = 0, status_code = 0, hp_method = HTTP_DELETE,
      hp_errno = HPE_OK, hp_upgrade = False, hp_data = data\<rparr>"

definition http_parser_settings_init :: "'e http_settings" where
  "http_parser_settings_init =
     \<lparr>on_message_begin = None, on_url = None, on_status = None, on_header_field = None,
      on_header_value = None, on_headers_complete = None, on_body = None, on_message_complete = None,
      on_chunk_header = None, on_chunk_complete = None\<rparr>"

definition http_parser_pause :: "bool \<Rightarrow> 'e http_parser \<Rightarrow> 'e http_parser option" where
  "http_parser_pause paused pr =
     (if hp_errno pr = HPE_OK \<or> hp_errno pr = HPE_PAUSED
      then Some (pr\<lparr>hp_errno := (if paused then HPE_PAUSED else HPE_OK)\<rparr>) else None)"

definition http_body_is_final :: "'e http_parser \<Rightarrow> bool" where
  "http_body_is_final pr \<longleftrightarrow> hp_state pr = s_message_done"

subsection \<open>The local variables of a call\<close>

record 'e run =
  prs :: "'e http_parser"
  p_state :: pstate
  cur :: nat
  cur_ch :: char
  field_mark :: "nat option"
  value_mark :: "nat option"
  url_mark :: "nat option"
  body_mark :: "nat option"
  status_mark :: "nat option"

text \<open>How the code of a state ends: \<open>break\<close>, \<open>goto reexecute\<close>, or leaving the function.\<close>

datatype 'e outcome = Break "'e run" | Reexec "'e run" | Return "'e run" nat | Failed

type_synonym 'e flow = "'e outcome + 'e run"

definition and_then :: "'e flow \<Rightarrow> ('e run \<Rightarrow> 'e outcome) \<Rightarrow> 'e outcome" where
  "and_then x k = (case x of Inl out \<Rightarrow> out | Inr r \<Rightarrow> k r)"

definition UPDATE_STATE :: "pstate \<Rightarrow> 'e run \<Rightarrow> 'e run" where
  "UPDATE_STATE s r = r\<lparr>p_state := s\<rparr>"

definition upd :: "('e http_parser \<Rightarrow> 'e http_parser) \<Rightarrow> 'e run \<Rightarrow> 'e run" where
  "upd f r = r\<lparr>prs := f (prs r)\<rparr>"

text \<open>\<open>RETURN\<close>, and the label \<open>error\<close> after \<open>SET_ERRNO\<close>.\<close>

definition RETURN :: "nat \<Rightarrow> 'e run \<Rightarrow> 'e outcome" where
  "RETURN n r = Return (upd (\<lambda>pr. pr\<lparr>hp_state := p_state r\<rparr>) r) n"

definition error_exit :: "'e run \<Rightarrow> 'e outcome" where
  "error_exit r =
     RETURN (cur r) (upd (\<lambda>pr. if hp_errno pr = HPE_OK then pr\<lparr>hp_errno := HPE_UNKNOWN\<rparr> else pr) r)"

definition fail_with :: "http_errno \<Rightarrow> 'e run \<Rightarrow> 'e outcome" where
  "fail_with e r = error_exit (upd (\<lambda>pr. pr\<lparr>hp_errno := e\<rparr>) r)"

definition COUNT_HEADER_SIZE :: "nat \<Rightarrow> 'e run \<Rightarrow> 'e flow" where
  "COUNT_HEADER_SIZE v r =
     (let r1 = upd (\<lambda>pr. pr\<lparr>nread := nread pr + of_nat v\<rparr>) r in
      if uint (nread (prs r1)) > HTTP_MAX_HEADER_SIZE then Inl (fail_with HPE_HEADER_OVERFLOW r1)
      else Inr r1)"

text \<open>\<open>CALLBACK_NOTIFY_\<close>: \<open>er\<close> is what the function returns when the callback fails or pauses.\<close>

definition callback_notify :: "http_errno \<Rightarrow> 'e http_cb option \<Rightarrow> nat \<Rightarrow> 'e run \<Rightarrow> 'e flow" where
  "callback_notify e cb er r =
     (if hp_errno (prs r) \<noteq> HPE_OK then Inl Failed
      else case cb of
        None \<Rightarrow> Inr r
      | Some f \<Rightarrow>
          (let (rc, pr1) = f ((prs r)\<lparr>hp_state := p_state r\<rparr>);
               pr2 = (if rc \<noteq> 0 then pr1\<lparr>hp_errno := e\<rparr> else pr1);
               r1 = r\<lparr>prs := pr2, p_state := hp_state pr2\<rparr>
           in if hp_errno pr2 \<noteq> HPE_OK then Inl (Return r1 er) else Inr r1))"

datatype mark = M_header_field | M_header_value | M_url | M_body | M_status

fun get_mark :: "mark \<Rightarrow> 'e run \<Rightarrow> nat option" where
  "get_mark M_header_field r = field_mark r"
| "get_mark M_header_value r = value_mark r"
| "get_mark M_url r = url_mark r"
| "get_mark M_body r = body_mark r"
| "get_mark M_status r = status_mark r"

fun put_mark :: "mark \<Rightarrow> nat option \<Rightarrow> 'e run \<Rightarrow> 'e run" where
  "put_mark M_header_field v r = r\<lparr>field_mark := v\<rparr>"
| "put_mark M_header_value v r = r\<lparr>value_mark := v\<rparr>"
| "put_mark M_url v r = r\<lparr>url_mark := v\<rparr>"
| "put_mark M_body v r = r\<lparr>body_mark := v\<rparr>"
| "put_mark M_status v r = r\<lparr>status_mark := v\<rparr>"

fun data_cb :: "mark \<Rightarrow> 'e http_settings \<Rightarrow> 'e http_data_cb option" where
  "data_cb M_header_field st = on_header_field st"
| "data_cb M_header_value st = on_header_value st"
| "data_cb M_url st = on_url st"
| "data_cb M_body st = on_body st"
| "data_cb M_status st = on_status st"

fun data_cb_errno :: "mark \<Rightarrow> http_errno" where
  "data_cb_errno M_header_field = HPE_CB_header_field"
| "data_cb_errno M_header_value = HPE_CB_header_value"
| "data_cb_errno M_url = HPE_CB_url"
| "data_cb_errno M_body = HPE_CB_body"
| "data_cb_errno M_status = HPE_CB_status"

definition MARK :: "mark \<Rightarrow> 'e run \<Rightarrow> 'e run" where
  "MARK m r = (if get_mark m r = None then put_mark m (Some (cur r)) r else r)"

text \<open>\<open>CALLBACK_DATA_\<close>: the data from the mark up to the offset \<open>stop\<close>.\<close>

definition callback_data ::
  "'e http_settings \<Rightarrow> char list \<Rightarrow> mark \<Rightarrow> nat \<Rightarrow> nat \<Rightarrow> 'e run \<Rightarrow> 'e flow" where
  "callback_data st data m stop er r =
     (if hp_errno (prs r) \<noteq> HPE_OK then Inl Failed
      else case get_mark m r of
        None \<Rightarrow> Inr r
      | Some mk \<Rightarrow>
          (case data_cb m st of
             None \<Rightarrow> Inr (put_mark m None r)
           | Some f \<Rightarrow>
               if stop < mk \<or> length data < stop then Inl Failed
               else
                 (let (rc, pr1) = f (take (stop - mk) (drop mk data)) ((prs r)\<lparr>hp_state := p_state r\<rparr>);
                      pr2 = (if rc \<noteq> 0 then pr1\<lparr>hp_errno := data_cb_errno m\<rparr> else pr1);
                      r1 = r\<lparr>prs := pr2, p_state := hp_state pr2\<rparr>
                  in if hp_errno pr2 \<noteq> HPE_OK then Inl (Return r1 er) else Inr (put_mark m None r1))))"

abbreviation CALLBACK_DATA :: "'e http_settings \<Rightarrow> char list \<Rightarrow> mark \<Rightarrow> 'e run \<Rightarrow> 'e flow" where
  "CALLBACK_DATA st data m r \<equiv> callback_data st data m (cur r) (cur r + 1) r"

abbreviation CALLBACK_DATA_NOADVANCE :: "'e http_settings \<Rightarrow> char list \<Rightarrow> mark \<Rightarrow> 'e run \<Rightarrow> 'e flow" where
  "CALLBACK_DATA_NOADVANCE st data m r \<equiv> callback_data st data m (cur r) (cur r) r"

subsection \<open>The start of a message\<close>

definition start_message :: "'e http_parser \<Rightarrow> 'e http_parser" where
  "start_message pr = pr\<lparr>hp_flags := 0, content_length := ULLONG_MAX\<rparr>"

definition do_dead :: "'e run \<Rightarrow> 'e outcome" where
  "do_dead r = (if cur_ch r = CR \<or> cur_ch r = LF then Break r else fail_with HPE_CLOSED_CONNECTION r)"

definition do_start_req_or_res :: "'e http_settings \<Rightarrow> 'e run \<Rightarrow> 'e outcome" where
  "do_start_req_or_res st r =
     (if cur_ch r = CR \<or> cur_ch r = LF then Break r
      else
        (let r1 = upd start_message r in
         if cur_ch r = CHR ''H'' then
           and_then (callback_notify HPE_CB_message_begin (on_message_begin st) (cur r + 1)
                       (UPDATE_STATE s_res_or_resp_H r1)) Break
         else Reexec (UPDATE_STATE s_start_req (upd (\<lambda>pr. pr\<lparr>hp_type := HTTP_REQUEST\<rparr>) r1))))"

definition do_res_or_resp_H :: "'e run \<Rightarrow> 'e outcome" where
  "do_res_or_resp_H r =
     (if cur_ch r = CHR ''T'' then Break (UPDATE_STATE s_res_HT (upd (\<lambda>pr. pr\<lparr>hp_type := HTTP_RESPONSE\<rparr>) r))
      else if cur_ch r \<noteq> CHR ''E'' then fail_with HPE_INVALID_CONSTANT r
      else Break (UPDATE_STATE s_req_method
             (upd (\<lambda>pr. pr\<lparr>hp_type := HTTP_REQUEST, hp_method := HTTP_HEAD, hp_index := 2\<rparr>) r)))"

definition do_start_res :: "'e http_settings \<Rightarrow> 'e run \<Rightarrow> 'e outcome" where
  "do_start_res st r =
     (let r1 = upd start_message r in
      if cur_ch r = CHR ''H'' \<or> cur_ch r = CR \<or> cur_ch r = LF then
        and_then (callback_notify HPE_CB_message_begin (on_message_begin st) (cur r + 1)
                    (if cur_ch r = CHR ''H'' then UPDATE_STATE s_res_H r1 else r1)) Break
      else fail_with HPE_INVALID_CONSTANT r1)"

text \<open>The states that expect one character: \<open>STRICT_CHECK (ch != c)\<close>.\<close>

definition expect :: "char \<Rightarrow> pstate \<Rightarrow> 'e run \<Rightarrow> 'e outcome" where
  "expect c s r = (if cur_ch r \<noteq> c then fail_with HPE_STRICT r else Break (UPDATE_STATE s r))"

subsection \<open>Versions\<close>

definition digit16 :: "char \<Rightarrow> 16 word" where
  "digit16 c = of_nat (digit_val c)"

text \<open>The first digit of the major version, from \<open>lo\<close> ('0' in a response, '1' in a request).\<close>

definition do_first_http_major :: "nat \<Rightarrow> pstate \<Rightarrow> 'e run \<Rightarrow> 'e outcome" where
  "do_first_http_major lo next r =
     (if ord (cur_ch r) < lo \<or> ord (cur_ch r) > 57 then fail_with HPE_INVALID_VERSION r
      else Break (UPDATE_STATE next (upd (\<lambda>pr. pr\<lparr>http_major := digit16 (cur_ch r)\<rparr>) r)))"

definition do_http_major :: "pstate \<Rightarrow> 'e run \<Rightarrow> 'e outcome" where
  "do_http_major next r =
     (if cur_ch r = CHR ''.'' then Break (UPDATE_STATE next r)
      else if \<not> IS_NUM (cur_ch r) then fail_with HPE_INVALID_VERSION r
      else
        (let r1 = upd (\<lambda>pr. pr\<lparr>http_major := http_major pr * 10 + digit16 (cur_ch r)\<rparr>) r in
         if http_major (prs r1) > 999 then fail_with HPE_INVALID_VERSION r1 else Break r1))"

definition do_first_http_minor :: "pstate \<Rightarrow> 'e run \<Rightarrow> 'e outcome" where
  "do_first_http_minor next r =
     (if \<not> IS_NUM (cur_ch r) then fail_with HPE_INVALID_VERSION r
      else Break (UPDATE_STATE next (upd (\<lambda>pr. pr\<lparr>http_minor := digit16 (cur_ch r)\<rparr>) r)))"

text \<open>A digit of the minor version, when the character does not end it.\<close>

definition http_minor_digit :: "'e run \<Rightarrow> 'e outcome" where
  "http_minor_digit r =
     (if \<not> IS_NUM (cur_ch r) then fail_with HPE_INVALID_VERSION r
      else
        (let r1 = upd (\<lambda>pr. pr\<lparr>http_minor := http_minor pr * 10 + digit16 (cur_ch r)\<rparr>) r in
         if http_minor (prs r1) > 999 then fail_with HPE_INVALID_VERSION r1 else Break r1))"

subsection \<open>The status line\<close>

definition do_res_http_minor :: "'e run \<Rightarrow> 'e outcome" where
  "do_res_http_minor r =
     (if cur_ch r = CHR '' '' then Break (UPDATE_STATE s_res_first_status_code r) else http_minor_digit r)"

definition do_res_first_status_code :: "'e run \<Rightarrow> 'e outcome" where
  "do_res_first_status_code r =
     (if \<not> IS_NUM (cur_ch r) then
        (if cur_ch r = CHR '' '' then Break r else fail_with HPE_INVALID_STATUS r)
      else Break (UPDATE_STATE s_res_status_code (upd (\<lambda>pr. pr\<lparr>status_code := digit16 (cur_ch r)\<rparr>) r)))"

definition do_res_status_code :: "'e run \<Rightarrow> 'e outcome" where
  "do_res_status_code r =
     (if \<not> IS_NUM (cur_ch r) then
        (if cur_ch r = CHR '' '' then Break (UPDATE_STATE s_res_status_start r)
         else if cur_ch r = CR then Break (UPDATE_STATE s_res_line_almost_done r)
         else if cur_ch r = LF then Break (UPDATE_STATE s_header_field_start r)
         else fail_with HPE_INVALID_STATUS r)
      else
        (let r1 = upd (\<lambda>pr. pr\<lparr>status_code := status_code pr * 10 + digit16 (cur_ch r)\<rparr>) r in
         if status_code (prs r1) > 999 then fail_with HPE_INVALID_STATUS r1 else Break r1))"

definition do_res_status_start :: "'e run \<Rightarrow> 'e outcome" where
  "do_res_status_start r =
     (if cur_ch r = CR then Break (UPDATE_STATE s_res_line_almost_done r)
      else if cur_ch r = LF then Break (UPDATE_STATE s_header_field_start r)
      else Break (upd (\<lambda>pr. pr\<lparr>hp_index := 0\<rparr>) (UPDATE_STATE s_res_status (MARK M_status r))))"

definition do_res_status :: "'e http_settings \<Rightarrow> char list \<Rightarrow> 'e run \<Rightarrow> 'e outcome" where
  "do_res_status st data r =
     (if cur_ch r = CR then and_then (CALLBACK_DATA st data M_status (UPDATE_STATE s_res_line_almost_done r)) Break
      else if cur_ch r = LF then and_then (CALLBACK_DATA st data M_status (UPDATE_STATE s_header_field_start r)) Break
      else Break r)"

subsection \<open>The method\<close>

definition first_method :: "char \<Rightarrow> http_method option" where
  "first_method c =
     map_of [(CHR ''A'', HTTP_ACL), (CHR ''B'', HTTP_BIND), (CHR ''C'', HTTP_CONNECT), (CHR ''D'', HTTP_DELETE),
       (CHR ''G'', HTTP_GET), (CHR ''H'', HTTP_HEAD), (CHR ''L'', HTTP_LOCK), (CHR ''M'', HTTP_MKCOL),
       (CHR ''N'', HTTP_NOTIFY), (CHR ''O'', HTTP_OPTIONS), (CHR ''P'', HTTP_POST), (CHR ''R'', HTTP_REPORT),
       (CHR ''S'', HTTP_SUBSCRIBE), (CHR ''T'', HTTP_TRACE), (CHR ''U'', HTTP_UNLOCK)] c"

definition do_start_req :: "'e http_settings \<Rightarrow> 'e run \<Rightarrow> 'e outcome" where
  "do_start_req st r =
     (if cur_ch r = CR \<or> cur_ch r = LF then Break r
      else
        (let r1 = upd start_message r in
         if \<not> IS_ALPHA (cur_ch r) then fail_with HPE_INVALID_METHOD r1
         else
           (let r2 = upd (\<lambda>pr. pr\<lparr>hp_method := HTTP_DELETE, hp_index := 1\<rparr>) r1 in
            case first_method (cur_ch r) of
              None \<Rightarrow> fail_with HPE_INVALID_METHOD r2
            | Some m \<Rightarrow>
                and_then (callback_notify HPE_CB_message_begin (on_message_begin st) (cur r + 1)
                  (UPDATE_STATE s_req_method (upd (\<lambda>pr. pr\<lparr>hp_method := m\<rparr>) r2))) Break)))"

text \<open>The changes of the method while it is read: method, index and character.\<close>

definition method_changes :: "((http_method \<times> nat \<times> char) \<times> http_method) list" where
  "method_changes =
     [((HTTP_POST, 1, CHR ''U''), HTTP_PUT), ((HTTP_POST, 1, CHR ''A''), HTTP_PATCH),
      ((HTTP_CONNECT, 1, CHR ''H''), HTTP_CHECKOUT), ((HTTP_CONNECT, 2, CHR ''P''), HTTP_COPY),
      ((HTTP_MKCOL, 1, CHR ''O''), HTTP_MOVE), ((HTTP_MKCOL, 1, CHR ''E''), HTTP_MERGE),
      ((HTTP_MKCOL, 2, CHR ''A''), HTTP_MKACTIVITY), ((HTTP_MKCOL, 3, CHR ''A''), HTTP_MKCALENDAR),
      ((HTTP_SUBSCRIBE, 1, CHR ''E''), HTTP_SEARCH), ((HTTP_REPORT, 2, CHR ''B''), HTTP_REBIND),
      ((HTTP_POST, 1, CHR ''R''), HTTP_PROPFIND), ((HTTP_PROPFIND, 4, CHR ''P''), HTTP_PROPPATCH),
      ((HTTP_PUT, 2, CHR ''R''), HTTP_PURGE), ((HTTP_LOCK, 1, CHR ''I''), HTTP_LINK),
      ((HTTP_UNLOCK, 2, CHR ''S''), HTTP_UNSUBSCRIBE), ((HTTP_UNLOCK, 2, CHR ''B''), HTTP_UNBIND),
      ((HTTP_UNLOCK, 3, CHR ''I''), HTTP_UNLINK)]"

definition do_req_method :: "'e run \<Rightarrow> 'e outcome" where
  "do_req_method r =
     (let ch = cur_ch r; pr = prs r; i = hp_index pr; matcher = method_strings (hp_method pr) @ [NUL] in
      if ch = NUL then fail_with HPE_INVALID_METHOD r
      else if length matcher \<le> i then Failed
      else if ch = CHR '' '' \<and> matcher ! i = NUL then Break (upd next_index (UPDATE_STATE s_req_spaces_before_url r))
      else if ch = matcher ! i then Break (upd next_index r)
      else if IS_ALPHA ch then
        (case map_of method_changes (hp_method pr, i, ch) of
           Some m \<Rightarrow> Break (upd next_index (upd (\<lambda>pr. pr\<lparr>hp_method := m\<rparr>) r))
         | None \<Rightarrow> fail_with HPE_INVALID_METHOD r)
      else if ch = CHR ''-'' \<and> i = 1 \<and> hp_method pr = HTTP_MKCOL then
        Break (upd next_index (upd (\<lambda>pr. pr\<lparr>hp_method := HTTP_MSEARCH\<rparr>) r))
      else fail_with HPE_INVALID_METHOD r)"

subsection \<open>The URL and the end of the request line\<close>

text \<open>\<open>UPDATE_STATE (parse_url_char (...))\<close> with its check.\<close>

definition url_char :: "'e run \<Rightarrow> 'e outcome" where
  "url_char r =
     (let r1 = UPDATE_STATE (parse_url_char (p_state r) (cur_ch r)) r in
      if p_state r1 = s_dead then fail_with HPE_INVALID_URL r1 else Break r1)"

definition do_req_spaces_before_url :: "'e run \<Rightarrow> 'e outcome" where
  "do_req_spaces_before_url r =
     (if cur_ch r = CHR '' '' then Break r
      else
        (let r1 = MARK M_url r in
         url_char (if hp_method (prs r1) = HTTP_CONNECT then UPDATE_STATE s_req_server_start r1 else r1)))"

definition do_req_url_start :: "'e run \<Rightarrow> 'e outcome" where
  "do_req_url_start r =
     (if cur_ch r = CHR '' '' \<or> cur_ch r = CR \<or> cur_ch r = LF then fail_with HPE_INVALID_URL r
      else url_char r)"

definition do_req_url :: "'e http_settings \<Rightarrow> char list \<Rightarrow> 'e run \<Rightarrow> 'e outcome" where
  "do_req_url st data r =
     (if cur_ch r = CHR '' '' then and_then (CALLBACK_DATA st data M_url (UPDATE_STATE s_req_http_start r)) Break
      else if cur_ch r = CR \<or> cur_ch r = LF then
        and_then (CALLBACK_DATA st data M_url
          (UPDATE_STATE (if cur_ch r = CR then s_req_line_almost_done else s_header_field_start)
             (upd (\<lambda>pr. pr\<lparr>http_major := 0, http_minor := 9\<rparr>) r))) Break
      else url_char r)"

definition do_req_http_start :: "'e run \<Rightarrow> 'e outcome" where
  "do_req_http_start r =
     (if cur_ch r = CHR ''H'' then Break (UPDATE_STATE s_req_http_H r)
      else if cur_ch r = CHR '' '' then Break r
      else fail_with HPE_INVALID_CONSTANT r)"

definition do_req_http_minor :: "'e run \<Rightarrow> 'e outcome" where
  "do_req_http_minor r =
     (if cur_ch r = CR then Break (UPDATE_STATE s_req_line_almost_done r)
      else if cur_ch r = LF then Break (UPDATE_STATE s_header_field_start r)
      else http_minor_digit r)"

definition do_req_line_almost_done :: "'e run \<Rightarrow> 'e outcome" where
  "do_req_line_almost_done r =
     (if cur_ch r \<noteq> LF then fail_with HPE_LF_EXPECTED r else Break (UPDATE_STATE s_header_field_start r))"

subsection \<open>Header fields\<close>

definition header_field_state :: "char \<Rightarrow> hstate" where
  "header_field_state c =
     (if c = CHR ''c'' then h_C
      else if c = CHR ''p'' then h_matching_proxy_connection
      else if c = CHR ''t'' then h_matching_transfer_encoding
      else if c = CHR ''u'' then h_matching_upgrade
      else h_general)"

definition do_header_field_start :: "'e run \<Rightarrow> 'e outcome" where
  "do_header_field_start r =
     (if cur_ch r = CR then Break (UPDATE_STATE s_headers_almost_done r)
      else if cur_ch r = LF then Reexec (UPDATE_STATE s_headers_almost_done r)
      else
        (let c = TOKEN (cur_ch r) in
         if c = NUL then fail_with HPE_INVALID_HEADER_TOKEN r
         else Break (upd (\<lambda>pr. pr\<lparr>hp_index := 0, header_state := header_field_state c\<rparr>)
                (UPDATE_STATE s_header_field (MARK M_header_field r)))))"

text \<open>
  The comparison with a known word that all the matching states make after they have advanced the
  index: no match, the last character of the word, or a match so far.
\<close>

datatype matched = No_Match | Last_Match | Match

definition match_word :: "string \<Rightarrow> char \<Rightarrow> nat \<Rightarrow> matched" where
  "match_word w c i =
     (if i > length w \<or> c \<noteq> (w @ [NUL]) ! i then No_Match
      else if i + 1 = length w then Last_Match else Match)"

text \<open>How a character of a header changes the parser: it may fail, or run into an assertion.\<close>

datatype 'a step_result = Step 'a | Err http_errno 'a | Assert

definition match_field :: "string \<Rightarrow> hstate \<Rightarrow> char \<Rightarrow> 'e http_parser \<Rightarrow> 'e http_parser" where
  "match_field w found c pr =
     (let pr1 = next_index pr in
      case match_word w c (hp_index pr1) of
        No_Match \<Rightarrow> pr1\<lparr>header_state := h_general\<rparr>
      | Last_Match \<Rightarrow> pr1\<lparr>header_state := found\<rparr>
      | Match \<Rightarrow> pr1)"

text \<open>The switch on \<open>header_state\<close> in \<open>s_header_field\<close>: \<open>c\<close> is the token of the character \<open>ch\<close>.\<close>

definition header_field_char :: "char \<Rightarrow> char \<Rightarrow> 'e http_parser \<Rightarrow> 'e http_parser step_result" where
  "header_field_char c ch pr =
     (case header_state pr of
        h_general \<Rightarrow> Step pr
      | h_C \<Rightarrow> Step ((next_index pr)\<lparr>header_state := (if c = CHR ''o'' then h_CO else h_general)\<rparr>)
      | h_CO \<Rightarrow> Step ((next_index pr)\<lparr>header_state := (if c = CHR ''n'' then h_CON else h_general)\<rparr>)
      | h_CON \<Rightarrow> Step ((next_index pr)\<lparr>header_state :=
            (if c = CHR ''n'' then h_matching_connection
             else if c = CHR ''t'' then h_matching_content_length else h_general)\<rparr>)
      | h_matching_connection \<Rightarrow> Step (match_field ''connection'' h_connection c pr)
      | h_matching_proxy_connection \<Rightarrow> Step (match_field ''proxy-connection'' h_connection c pr)
      | h_matching_content_length \<Rightarrow>
          (let pr1 = next_index pr in
           case match_word ''content-length'' c (hp_index pr1) of
             No_Match \<Rightarrow> Step (pr1\<lparr>header_state := h_general\<rparr>)
           | Last_Match \<Rightarrow>
               (if has_flag F_CONTENTLENGTH pr1 then Err HPE_UNEXPECTED_CONTENT_LENGTH pr1
                else Step (add_flag F_CONTENTLENGTH (pr1\<lparr>header_state := h_content_length\<rparr>)))
           | Match \<Rightarrow> Step pr1)
      | h_matching_transfer_encoding \<Rightarrow> Step (match_field ''transfer-encoding'' h_transfer_encoding c pr)
      | h_matching_upgrade \<Rightarrow> Step (match_field ''upgrade'' h_upgrade c pr)
      | h_connection \<Rightarrow> Step (if ch \<noteq> CHR '' '' then pr\<lparr>header_state := h_general\<rparr> else pr)
      | h_content_length \<Rightarrow> Step (if ch \<noteq> CHR '' '' then pr\<lparr>header_state := h_general\<rparr> else pr)
      | h_transfer_encoding \<Rightarrow> Step (if ch \<noteq> CHR '' '' then pr\<lparr>header_state := h_general\<rparr> else pr)
      | h_upgrade \<Rightarrow> Step (if ch \<noteq> CHR '' '' then pr\<lparr>header_state := h_general\<rparr> else pr)
      | _ \<Rightarrow> Assert)"

fun header_field_loop :: "char list \<Rightarrow> 'e run \<Rightarrow> 'e flow" where
  "header_field_loop [] r = Inr r"
| "header_field_loop (ch # rest) r =
     (let r1 = r\<lparr>cur_ch := ch\<rparr>; c = TOKEN ch in
      if c = NUL then Inr r1
      else case header_field_char c ch (prs r1) of
        Step pr \<Rightarrow> header_field_loop rest (r1\<lparr>prs := pr, cur := cur r1 + 1\<rparr>)
      | Err e pr \<Rightarrow> Inl (fail_with e (r1\<lparr>prs := pr\<rparr>))
      | Assert \<Rightarrow> Inl Failed)"

definition do_header_field :: "'e http_settings \<Rightarrow> char list \<Rightarrow> 'e run \<Rightarrow> 'e outcome" where
  "do_header_field st data r =
     and_then (header_field_loop (drop (cur r) data) r) (\<lambda>r1.
     and_then (COUNT_HEADER_SIZE (cur r1 - cur r) r1) (\<lambda>r2.
       if cur r2 = length data then Break (r2\<lparr>cur := cur r2 - 1\<rparr>)
       else if cur_ch r2 = CHR '':'' then
         and_then (CALLBACK_DATA st data M_header_field (UPDATE_STATE s_header_value_discard_ws r2)) Break
       else fail_with HPE_INVALID_HEADER_TOKEN r2))"

subsection \<open>Header values\<close>

definition header_value_first :: "char \<Rightarrow> 'e http_parser \<Rightarrow> 'e http_parser step_result" where
  "header_value_first ch pr =
     (let c = LOWER ch in
      case header_state pr of
        h_upgrade \<Rightarrow> Step ((add_flag F_UPGRADE pr)\<lparr>header_state := h_general\<rparr>)
      | h_transfer_encoding \<Rightarrow>
          Step (pr\<lparr>header_state := (if c = CHR ''c'' then h_matching_transfer_encoding_chunked else h_general)\<rparr>)
      | h_content_length \<Rightarrow>
          (if \<not> IS_NUM ch then Err HPE_INVALID_CONTENT_LENGTH pr
           else Step (pr\<lparr>content_length := of_nat (digit_val ch)\<rparr>))
      | h_connection \<Rightarrow> Step (pr\<lparr>header_state :=
            (if c = CHR ''k'' then h_matching_connection_keep_alive
             else if c = CHR ''c'' then h_matching_connection_close
             else if c = CHR ''u'' then h_matching_connection_upgrade
             else h_matching_connection_token)\<rparr>)
      | h_matching_connection_token_start \<Rightarrow> Step pr
      | _ \<Rightarrow> Step (pr\<lparr>header_state := h_general\<rparr>))"

definition do_header_value_start :: "'e run \<Rightarrow> 'e outcome" where
  "do_header_value_start r =
     (let r1 = upd (\<lambda>pr. pr\<lparr>hp_index := 0\<rparr>) (UPDATE_STATE s_header_value (MARK M_header_value r)) in
      case header_value_first (cur_ch r) (prs r1) of
        Step pr \<Rightarrow> Break (r1\<lparr>prs := pr\<rparr>)
      | Err e pr \<Rightarrow> fail_with e (r1\<lparr>prs := pr\<rparr>)
      | Assert \<Rightarrow> Failed)"

definition do_header_value_discard_ws :: "'e run \<Rightarrow> 'e outcome" where
  "do_header_value_discard_ws r =
     (if cur_ch r = CHR '' '' \<or> cur_ch r = HT then Break r
      else if cur_ch r = CR then Break (UPDATE_STATE s_header_value_discard_ws_almost_done r)
      else if cur_ch r = LF then Break (UPDATE_STATE s_header_value_discard_lws r)
      else do_header_value_start r)"

text \<open>
  The switch on \<open>h_state\<close> in \<open>s_header_value\<close>, but for \<open>h_general\<close>, which skips to the end of the
  line.
\<close>

definition match_value :: "string \<Rightarrow> hstate \<Rightarrow> hstate \<Rightarrow> hstate \<Rightarrow> char \<Rightarrow> 'e http_parser
    \<Rightarrow> (hstate \<times> 'e http_parser) step_result" where
  "match_value w stay found lost c pr =
     (let pr1 = next_index pr in
      case match_word w c (hp_index pr1) of
        No_Match \<Rightarrow> Step (lost, pr1)
      | Last_Match \<Rightarrow> Step (found, pr1)
      | Match \<Rightarrow> Step (stay, pr1))"

definition connection_token_start :: "char \<Rightarrow> hstate" where
  "connection_token_start c =
     (if c = CHR ''k'' then h_matching_connection_keep_alive
      else if c = CHR ''c'' then h_matching_connection_close
      else if c = CHR ''u'' then h_matching_connection_upgrade
      else if TOKEN c \<noteq> NUL then h_matching_connection_token
      else if c = CHR '' '' \<or> c = HT then h_matching_connection_token_start
      else h_general)"

definition content_length_digit :: "char \<Rightarrow> 'e http_parser \<Rightarrow> (hstate \<times> 'e http_parser) step_result" where
  "content_length_digit ch pr =
     (if ch = CHR '' '' then Step (h_content_length, pr)
      else if \<not> IS_NUM ch then Err HPE_INVALID_CONTENT_LENGTH (h_content_length, pr)
      else if (ULLONG_MAX - 10) div 10 < content_length pr
      then Err HPE_INVALID_CONTENT_LENGTH (h_content_length, pr)
      else Step (h_content_length, pr\<lparr>content_length := content_length pr * 10 + of_nat (digit_val ch)\<rparr>))"

definition connection_token_end :: "8 word \<Rightarrow> hstate \<Rightarrow> char \<Rightarrow> 'e http_parser
    \<Rightarrow> (hstate \<times> 'e http_parser) step_result" where
  "connection_token_end flag h ch pr =
     (if ch = CHR '','' then Step (h_matching_connection_token_start, (add_flag flag pr)\<lparr>hp_index := 0\<rparr>)
      else if ch \<noteq> CHR '' '' then Step (h_matching_connection_token, pr)
      else Step (h, pr))"

definition header_value_char :: "char \<Rightarrow> hstate \<Rightarrow> 'e http_parser \<Rightarrow> (hstate \<times> 'e http_parser) step_result"
  where
  "header_value_char ch h pr =
     (let c = LOWER ch in
      case h of
        h_connection \<Rightarrow> Assert
      | h_transfer_encoding \<Rightarrow> Assert
      | h_content_length \<Rightarrow> content_length_digit ch pr
      | h_matching_transfer_encoding_chunked \<Rightarrow>
          match_value ''chunked'' h h_transfer_encoding_chunked h_general c pr
      | h_matching_connection_token_start \<Rightarrow> Step (connection_token_start c, pr)
      | h_matching_connection_keep_alive \<Rightarrow>
          match_value ''keep-alive'' h h_connection_keep_alive h_matching_connection_token c pr
      | h_matching_connection_close \<Rightarrow>
          match_value ''close'' h h_connection_close h_matching_connection_token c pr
      | h_matching_connection_upgrade \<Rightarrow>
          match_value ''upgrade'' h h_connection_upgrade h_matching_connection_token c pr
      | h_matching_connection_token \<Rightarrow>
          (if ch = CHR '','' then Step (h_matching_connection_token_start, pr\<lparr>hp_index := 0\<rparr>)
           else Step (h, pr))
      | h_transfer_encoding_chunked \<Rightarrow> Step (if ch \<noteq> CHR '' '' then h_general else h, pr)
      | h_connection_keep_alive \<Rightarrow> connection_token_end F_CONNECTION_KEEP_ALIVE h ch pr
      | h_connection_close \<Rightarrow> connection_token_end F_CONNECTION_CLOSE h ch pr
      | h_connection_upgrade \<Rightarrow> connection_token_end F_CONNECTION_UPGRADE h ch pr
      | _ \<Rightarrow> Step (h_general, pr))"

text \<open>
  \<open>h_general\<close> looks for the end of the line with \<open>memchr\<close>, in at most \<open>HTTP_MAX_HEADER_SIZE\<close> bytes,
  and goes to the end of the buffer when it is not there.
\<close>

definition not_eol :: "char \<Rightarrow> bool" where
  "not_eol c \<longleftrightarrow> c \<noteq> CR \<and> c \<noteq> LF"

definition skip_general :: "char list \<Rightarrow> nat" where
  "skip_general rest =
     (let n = length (takeWhile not_eol rest)
      in if n < length rest \<and> int n < HTTP_MAX_HEADER_SIZE then n else length rest)"

lemma skip_general_pos: "not_eol c \<Longrightarrow> 0 < skip_general (c # cs)"
  by (simp add: skip_general_def Let_def)

text \<open>\<open>start\<close> is where the call has entered the state.\<close>

definition value_cr :: "'e http_settings \<Rightarrow> char list \<Rightarrow> hstate \<Rightarrow> 'e run \<Rightarrow> 'e flow" where
  "value_cr st data h r =
     CALLBACK_DATA st data M_header_value (upd (\<lambda>pr. pr\<lparr>header_state := h\<rparr>) (UPDATE_STATE s_header_almost_done r))"

definition value_lf :: "'e http_settings \<Rightarrow> char list \<Rightarrow> nat \<Rightarrow> hstate \<Rightarrow> 'e run \<Rightarrow> 'e outcome" where
  "value_lf st data start h r =
     and_then (COUNT_HEADER_SIZE (cur r - start) (UPDATE_STATE s_header_almost_done r)) (\<lambda>r1.
     and_then (CALLBACK_DATA_NOADVANCE st data M_header_value (upd (\<lambda>pr. pr\<lparr>header_state := h\<rparr>) r1)) Reexec)"

function header_value_loop ::
  "'e http_settings \<Rightarrow> char list \<Rightarrow> nat \<Rightarrow> char list \<Rightarrow> hstate \<Rightarrow> 'e run \<Rightarrow> 'e outcome + (hstate \<times> 'e run)" where
  "header_value_loop st data start [] h r = Inr (h, r)"
| "header_value_loop st data start (ch # rest) h r =
     (let r1 = r\<lparr>cur_ch := ch\<rparr> in
      if ch = CR then (case value_cr st data h r1 of Inl out \<Rightarrow> Inl out | Inr r2 \<Rightarrow> Inr (h, r2))
      else if ch = LF then Inl (value_lf st data start h r1)
      else if \<not> lenient_http_headers (prs r1) \<and> \<not> IS_HEADER_CHAR ch
      then Inl (fail_with HPE_INVALID_HEADER_TOKEN r1)
      else if h = h_general then
        (let n = skip_general (ch # rest)
         in header_value_loop st data start (drop n (ch # rest)) h (r1\<lparr>cur := cur r1 + n\<rparr>))
      else
        (case header_value_char ch h (prs r1) of
           Step (h', pr) \<Rightarrow> header_value_loop st data start rest h' (r1\<lparr>prs := pr, cur := cur r1 + 1\<rparr>)
         | Err e (h', pr) \<Rightarrow> Inl (fail_with e (r1\<lparr>prs := pr\<lparr>header_state := h'\<rparr>\<rparr>))
         | Assert \<Rightarrow> Inl Failed))"
  by pat_completeness auto
termination
proof (relation "measure (\<lambda>(st, data, start, rest, h, r). length rest)")
  show "wf (measure (\<lambda>(st, data, start, rest, h, r). length rest))" by simp
next
  fix ch :: char and rest :: "char list"
  assume "\<not> ch = CR" "\<not> ch = LF"
  then have "0 < skip_general (ch # rest)" by (simp add: skip_general_pos not_eol_def)
  then show "((st, data, start, drop x (ch # rest), h, r'), st, data, start, ch # rest, h, r)
      \<in> measure (\<lambda>(st, data, start, rest, h, r). length rest)" if "x = skip_general (ch # rest)"
    for st data start x h r r' using that by simp
qed auto

definition do_header_value :: "'e http_settings \<Rightarrow> char list \<Rightarrow> 'e run \<Rightarrow> 'e outcome" where
  "do_header_value st data r =
     (case header_value_loop st data (cur r) (drop (cur r) data) (header_state (prs r)) r of
        Inl out \<Rightarrow> out
      | Inr (h, r1) \<Rightarrow>
          and_then (COUNT_HEADER_SIZE (cur r1 - cur r) (upd (\<lambda>pr. pr\<lparr>header_state := h\<rparr>) r1)) (\<lambda>r2.
            Break (if cur r2 = length data then r2\<lparr>cur := cur r2 - 1\<rparr> else r2)))"

definition do_header_almost_done :: "'e run \<Rightarrow> 'e outcome" where
  "do_header_almost_done r =
     (if cur_ch r \<noteq> LF then fail_with HPE_LF_EXPECTED r else Break (UPDATE_STATE s_header_value_lws r))"

text \<open>The flags that a finished header sets.\<close>

definition header_done :: "'e http_parser \<Rightarrow> 'e http_parser" where
  "header_done pr =
     (case header_state pr of
        h_connection_keep_alive \<Rightarrow> add_flag F_CONNECTION_KEEP_ALIVE pr
      | h_connection_close \<Rightarrow> add_flag F_CONNECTION_CLOSE pr
      | h_transfer_encoding_chunked \<Rightarrow> add_flag F_CHUNKED pr
      | h_connection_upgrade \<Rightarrow> add_flag F_CONNECTION_UPGRADE pr
      | _ \<Rightarrow> pr)"

definition do_header_value_lws :: "'e run \<Rightarrow> 'e outcome" where
  "do_header_value_lws r =
     (if cur_ch r = CHR '' '' \<or> cur_ch r = HT then Reexec (UPDATE_STATE s_header_value_start r)
      else Reexec (UPDATE_STATE s_header_field_start (upd header_done r)))"

definition do_header_value_discard_lws :: "'e http_settings \<Rightarrow> char list \<Rightarrow> 'e run \<Rightarrow> 'e outcome" where
  "do_header_value_discard_lws st data r =
     (if cur_ch r = CHR '' '' \<or> cur_ch r = HT then Break (UPDATE_STATE s_header_value_discard_ws r)
      else
        and_then (CALLBACK_DATA_NOADVANCE st data M_header_value
          (UPDATE_STATE s_header_field_start (MARK M_header_value (upd header_done r)))) Reexec)"

subsection \<open>The end of the headers\<close>

definition wants_upgrade :: "'e http_parser \<Rightarrow> bool" where
  "wants_upgrade pr \<longleftrightarrow>
     hp_flags pr AND (F_UPGRADE OR F_CONNECTION_UPGRADE) = F_UPGRADE OR F_CONNECTION_UPGRADE
     \<or> hp_method pr = HTTP_CONNECT"

definition do_headers_almost_done :: "'e http_settings \<Rightarrow> 'e run \<Rightarrow> 'e outcome" where
  "do_headers_almost_done st r =
     (if cur_ch r \<noteq> LF then fail_with HPE_STRICT r
      else if has_flag F_TRAILING (prs r) then
        and_then (callback_notify HPE_CB_chunk_complete (on_chunk_complete st) (cur r)
                    (UPDATE_STATE s_message_done r)) Reexec
      else if has_flag F_CHUNKED (prs r) \<and> has_flag F_CONTENTLENGTH (prs r)
      then fail_with HPE_UNEXPECTED_CONTENT_LENGTH r
      else
        (let r1 = upd (\<lambda>pr. pr\<lparr>hp_upgrade := wants_upgrade pr\<rparr>) (UPDATE_STATE s_headers_done r);
             (rc, pr1) = (case on_headers_complete st of None \<Rightarrow> (0, prs r1) | Some f \<Rightarrow> f (prs r1))
         in if rc \<noteq> 0 \<and> rc \<noteq> 1
            then RETURN (cur r1) (r1\<lparr>prs := pr1\<lparr>hp_errno := HPE_CB_headers_complete\<rparr>\<rparr>)
            else
              (let pr2 = (if rc = 1 then add_flag F_SKIPBODY pr1 else pr1); r2 = r1\<lparr>prs := pr2\<rparr>
               in if hp_errno pr2 \<noteq> HPE_OK then RETURN (cur r2) r2 else Reexec r2)))"

text \<open>\<open>UPDATE_STATE (NEW_MESSAGE ())\<close> and the callback.\<close>

definition message_complete :: "'e http_settings \<Rightarrow> 'e run \<Rightarrow> 'e flow" where
  "message_complete st r =
     callback_notify HPE_CB_message_complete (on_message_complete st) (cur r + 1)
       (UPDATE_STATE (NEW_MESSAGE (prs r)) r)"

definition do_headers_done :: "'e http_settings \<Rightarrow> 'e run \<Rightarrow> 'e outcome" where
  "do_headers_done st r =
     (if cur_ch r \<noteq> LF then fail_with HPE_STRICT r
      else
        (let r1 = upd (\<lambda>pr. pr\<lparr>nread := 0\<rparr>) r; pr = prs r1;
             hasBody = (has_flag F_CHUNKED pr \<or> (content_length pr > 0 \<and> content_length pr \<noteq> ULLONG_MAX))
         in
         if hp_upgrade pr \<and> (hp_method pr = HTTP_CONNECT \<or> has_flag F_SKIPBODY pr \<or> \<not> hasBody)
         then and_then (message_complete st r1) (\<lambda>r2. RETURN (cur r2 + 1) r2)
         else if has_flag F_SKIPBODY pr then and_then (message_complete st r1) Break
         else if has_flag F_CHUNKED pr then Break (UPDATE_STATE s_chunk_size_start r1)
         else if content_length pr = 0 then and_then (message_complete st r1) Break
         else if content_length pr \<noteq> ULLONG_MAX then Break (UPDATE_STATE s_body_identity r1)
         else if \<not> http_message_needs_eof pr then and_then (message_complete st r1) Break
         else Break (UPDATE_STATE s_body_identity_eof r1)))"

subsection \<open>Bodies\<close>

text \<open>\<open>to_read\<close>, and the advance of the buffer by it.\<close>

definition body_chunk :: "nat \<Rightarrow> 'e run \<Rightarrow> nat" where
  "body_chunk len r = min (unat (content_length (prs r))) (len - cur r)"

definition take_body :: "nat \<Rightarrow> 'e run \<Rightarrow> 'e run" where
  "take_body len r =
     (let n = body_chunk len r
      in (upd (\<lambda>pr. pr\<lparr>content_length := content_length pr - of_nat n\<rparr>) (MARK M_body r))\<lparr>cur := cur r + n - 1\<rparr>)"

definition do_body_identity :: "'e http_settings \<Rightarrow> char list \<Rightarrow> 'e run \<Rightarrow> 'e outcome" where
  "do_body_identity st data r =
     (if content_length (prs r) = 0 \<or> content_length (prs r) = ULLONG_MAX then Failed
      else
        (let r1 = take_body (length data) r in
         if content_length (prs r1) = 0 then
           and_then (callback_data st data M_body (cur r1 + 1) (cur r1) (UPDATE_STATE s_message_done r1)) Reexec
         else Break r1))"

definition do_body_identity_eof :: "char list \<Rightarrow> 'e run \<Rightarrow> 'e outcome" where
  "do_body_identity_eof data r = Break ((MARK M_body r)\<lparr>cur := length data - 1\<rparr>)"

definition do_message_done :: "'e http_settings \<Rightarrow> 'e run \<Rightarrow> 'e outcome" where
  "do_message_done st r =
     and_then (message_complete st r) (\<lambda>r1. if hp_upgrade (prs r1) then RETURN (cur r1 + 1) r1 else Break r1)"

subsection \<open>Chunks\<close>

definition do_chunk_size_start :: "'e run \<Rightarrow> 'e outcome" where
  "do_chunk_size_start r =
     (if nread (prs r) \<noteq> 1 \<or> \<not> has_flag F_CHUNKED (prs r) then Failed
      else if unhex (cur_ch r) = -1 then fail_with HPE_INVALID_CHUNK_SIZE r
      else Break (UPDATE_STATE s_chunk_size (upd (\<lambda>pr. pr\<lparr>content_length := word_of_int (unhex (cur_ch r))\<rparr>) r)))"

definition do_chunk_size :: "'e run \<Rightarrow> 'e outcome" where
  "do_chunk_size r =
     (if \<not> has_flag F_CHUNKED (prs r) then Failed
      else if cur_ch r = CR then Break (UPDATE_STATE s_chunk_size_almost_done r)
      else if unhex (cur_ch r) = -1 then
        (if cur_ch r = CHR '';'' \<or> cur_ch r = CHR '' '' then Break (UPDATE_STATE s_chunk_parameters r)
         else fail_with HPE_INVALID_CHUNK_SIZE r)
      else if (ULLONG_MAX - 16) div 16 < content_length (prs r) then fail_with HPE_INVALID_CONTENT_LENGTH r
      else Break (upd (\<lambda>pr. pr\<lparr>content_length :=
             content_length pr * 16 + word_of_int (unhex (cur_ch r))\<rparr>) r))"

definition do_chunk_parameters :: "'e run \<Rightarrow> 'e outcome" where
  "do_chunk_parameters r =
     (if \<not> has_flag F_CHUNKED (prs r) then Failed
      else if cur_ch r = CR then Break (UPDATE_STATE s_chunk_size_almost_done r)
      else Break r)"

definition do_chunk_size_almost_done :: "'e http_settings \<Rightarrow> 'e run \<Rightarrow> 'e outcome" where
  "do_chunk_size_almost_done st r =
     (if \<not> has_flag F_CHUNKED (prs r) then Failed
      else if cur_ch r \<noteq> LF then fail_with HPE_STRICT r
      else
        (let r1 = upd (\<lambda>pr. pr\<lparr>nread := 0\<rparr>) r;
             r2 = (if content_length (prs r1) = 0
                   then UPDATE_STATE s_header_field_start (upd (add_flag F_TRAILING) r1)
                   else UPDATE_STATE s_chunk_data r1)
         in and_then (callback_notify HPE_CB_chunk_header (on_chunk_header st) (cur r2 + 1) r2) Break))"

definition do_chunk_data :: "char list \<Rightarrow> 'e run \<Rightarrow> 'e outcome" where
  "do_chunk_data data r =
     (if \<not> has_flag F_CHUNKED (prs r) \<or> content_length (prs r) = 0 \<or> content_length (prs r) = ULLONG_MAX
      then Failed
      else
        (let r1 = take_body (length data) r
         in Break (if content_length (prs r1) = 0 then UPDATE_STATE s_chunk_data_almost_done r1 else r1)))"

definition do_chunk_data_almost_done :: "'e http_settings \<Rightarrow> char list \<Rightarrow> 'e run \<Rightarrow> 'e outcome" where
  "do_chunk_data_almost_done st data r =
     (if \<not> has_flag F_CHUNKED (prs r) \<or> content_length (prs r) \<noteq> 0 then Failed
      else if cur_ch r \<noteq> CR then fail_with HPE_STRICT r
      else and_then (CALLBACK_DATA st data M_body (UPDATE_STATE s_chunk_data_done r)) Break)"

definition do_chunk_data_done :: "'e http_settings \<Rightarrow> 'e run \<Rightarrow> 'e outcome" where
  "do_chunk_data_done st r =
     (if \<not> has_flag F_CHUNKED (prs r) then Failed
      else if cur_ch r \<noteq> LF then fail_with HPE_STRICT r
      else and_then (callback_notify HPE_CB_chunk_complete (on_chunk_complete st) (cur r + 1)
             (UPDATE_STATE s_chunk_size_start (upd (\<lambda>pr. pr\<lparr>nread := 0\<rparr>) r))) Break)"

subsection \<open>The switch\<close>

definition http_step :: "'e http_settings \<Rightarrow> char list \<Rightarrow> 'e run \<Rightarrow> 'e outcome" where
  "http_step st data r =
     (case p_state r of
        s_dead \<Rightarrow> do_dead r
      | s_start_req_or_res \<Rightarrow> do_start_req_or_res st r
      | s_res_or_resp_H \<Rightarrow> do_res_or_resp_H r
      | s_start_res \<Rightarrow> do_start_res st r
      | s_res_H \<Rightarrow> expect CHR ''T'' s_res_HT r
      | s_res_HT \<Rightarrow> expect CHR ''T'' s_res_HTT r
      | s_res_HTT \<Rightarrow> expect CHR ''P'' s_res_HTTP r
      | s_res_HTTP \<Rightarrow> expect CHR ''/'' s_res_first_http_major r
      | s_res_first_http_major \<Rightarrow> do_first_http_major 48 s_res_http_major r
      | s_res_http_major \<Rightarrow> do_http_major s_res_first_http_minor r
      | s_res_first_http_minor \<Rightarrow> do_first_http_minor s_res_http_minor r
      | s_res_http_minor \<Rightarrow> do_res_http_minor r
      | s_res_first_status_code \<Rightarrow> do_res_first_status_code r
      | s_res_status_code \<Rightarrow> do_res_status_code r
      | s_res_status_start \<Rightarrow> do_res_status_start r
      | s_res_status \<Rightarrow> do_res_status st data r
      | s_res_line_almost_done \<Rightarrow> expect LF s_header_field_start r
      | s_start_req \<Rightarrow> do_start_req st r
      | s_req_method \<Rightarrow> do_req_method r
      | s_req_spaces_before_url \<Rightarrow> do_req_spaces_before_url r
      | s_req_schema \<Rightarrow> do_req_url_start r
      | s_req_schema_slash \<Rightarrow> do_req_url_start r
      | s_req_schema_slash_slash \<Rightarrow> do_req_url_start r
      | s_req_server_start \<Rightarrow> do_req_url_start r
      | s_req_server \<Rightarrow> do_req_url st data r
      | s_req_server_with_at \<Rightarrow> do_req_url st data r
      | s_req_path \<Rightarrow> do_req_url st data r
      | s_req_query_string_start \<Rightarrow> do_req_url st data r
      | s_req_query_string \<Rightarrow> do_req_url st data r
      | s_req_fragment_start \<Rightarrow> do_req_url st data r
      | s_req_fragment \<Rightarrow> do_req_url st data r
      | s_req_http_start \<Rightarrow> do_req_http_start r
      | s_req_http_H \<Rightarrow> expect CHR ''T'' s_req_http_HT r
      | s_req_http_HT \<Rightarrow> expect CHR ''T'' s_req_http_HTT r
      | s_req_http_HTT \<Rightarrow> expect CHR ''P'' s_req_http_HTTP r
      | s_req_http_HTTP \<Rightarrow> expect CHR ''/'' s_req_first_http_major r
      | s_req_first_http_major \<Rightarrow> do_first_http_major 49 s_req_http_major r
      | s_req_http_major \<Rightarrow> do_http_major s_req_first_http_minor r
      | s_req_first_http_minor \<Rightarrow> do_first_http_minor s_req_http_minor r
      | s_req_http_minor \<Rightarrow> do_req_http_minor r
      | s_req_line_almost_done \<Rightarrow> do_req_line_almost_done r
      | s_header_field_start \<Rightarrow> do_header_field_start r
      | s_header_field \<Rightarrow> do_header_field st data r
      | s_header_value_discard_ws \<Rightarrow> do_header_value_discard_ws r
      | s_header_value_discard_ws_almost_done \<Rightarrow> expect LF s_header_value_discard_lws r
      | s_header_value_discard_lws \<Rightarrow> do_header_value_discard_lws st data r
      | s_header_value_start \<Rightarrow> do_header_value_start r
      | s_header_value \<Rightarrow> do_header_value st data r
      | s_header_value_lws \<Rightarrow> do_header_value_lws r
      | s_header_almost_done \<Rightarrow> do_header_almost_done r
      | s_chunk_size_start \<Rightarrow> do_chunk_size_start r
      | s_chunk_size \<Rightarrow> do_chunk_size r
      | s_chunk_parameters \<Rightarrow> do_chunk_parameters r
      | s_chunk_size_almost_done \<Rightarrow> do_chunk_size_almost_done st r
      | s_headers_almost_done \<Rightarrow> do_headers_almost_done st r
      | s_headers_done \<Rightarrow> do_headers_done st r
      | s_chunk_data \<Rightarrow> do_chunk_data data r
      | s_chunk_data_almost_done \<Rightarrow> do_chunk_data_almost_done st data r
      | s_chunk_data_done \<Rightarrow> do_chunk_data_done st r
      | s_body_identity \<Rightarrow> do_body_identity st data r
      | s_body_identity_eof \<Rightarrow> do_body_identity_eof data r
      | s_message_done \<Rightarrow> do_message_done st r)"

subsection \<open>The loop and the call\<close>

fun leave :: "'e outcome \<Rightarrow> (nat \<times> 'e http_parser) option" where
  "leave (Return r n) = Some (n, prs r)"
| "leave _ = None"

text \<open>After the last byte: at most one mark may be left, and its callback gets what there is.\<close>

definition marks_set :: "'e run \<Rightarrow> nat" where
  "marks_set r = length (filter (\<lambda>m. get_mark m r \<noteq> None) [M_header_field, M_header_value, M_url, M_body, M_status])"

fun leftover :: "'e http_settings \<Rightarrow> char list \<Rightarrow> mark list \<Rightarrow> 'e run \<Rightarrow> 'e outcome" where
  "leftover st data [] r = RETURN (length data) r"
| "leftover st data (m # ms) r = and_then (CALLBACK_DATA_NOADVANCE st data m r) (leftover st data ms)"

definition finish_call :: "'e http_settings \<Rightarrow> char list \<Rightarrow> 'e run \<Rightarrow> 'e outcome" where
  "finish_call st data r =
     (if marks_set r > 1 then Failed
      else leftover st data [M_header_field, M_header_value, M_url, M_body, M_status] r)"

text \<open>\<open>again\<close> is a \<open>goto reexecute\<close>; otherwise the loop takes the next byte.\<close>

partial_function (option) http_loop ::
  "'e http_settings \<Rightarrow> char list \<Rightarrow> bool \<Rightarrow> 'e run \<Rightarrow> (nat \<times> 'e http_parser) option" where
  "http_loop st data again r =
     (if again then
        (case http_step st data r of
           Break r1 \<Rightarrow> http_loop st data False (r1\<lparr>cur := cur r1 + 1\<rparr>)
         | Reexec r1 \<Rightarrow> http_loop st data True r1
         | Return r1 n \<Rightarrow> Some (n, prs r1)
         | Failed \<Rightarrow> None)
      else if cur r = length data then leave (finish_call st data r)
      else if cur r > length data then None
      else
        (let r1 = r\<lparr>cur_ch := data ! cur r\<rparr> in
         if PARSING_HEADER (p_state r1) then
           (case COUNT_HEADER_SIZE 1 r1 of
              Inl out \<Rightarrow> leave out
            | Inr r2 \<Rightarrow> http_loop st data True r2)
         else http_loop st data True r1))"

definition url_states :: "pstate set" where
  "url_states = {s_req_path, s_req_schema, s_req_schema_slash, s_req_schema_slash_slash, s_req_server_start,
     s_req_server, s_req_server_with_at, s_req_query_string_start, s_req_query_string,
     s_req_fragment_start, s_req_fragment}"

definition start_run :: "'e http_parser \<Rightarrow> 'e run" where
  "start_run pr =
     (let s = hp_state pr in
      \<lparr>prs = pr, p_state = s, cur = 0, cur_ch = NUL,
       field_mark = (if s = s_header_field then Some 0 else None),
       value_mark = (if s = s_header_value then Some 0 else None),
       url_mark = (if s \<in> url_states then Some 0 else None),
       body_mark = None,
       status_mark = (if s = s_res_status then Some 0 else None)\<rparr>)"

text \<open>A call with no data announces the end of the stream.\<close>

definition http_eof :: "'e http_settings \<Rightarrow> 'e http_parser \<Rightarrow> (nat \<times> 'e http_parser) option" where
  "http_eof st pr =
     (let s = hp_state pr in
      if s = s_body_identity_eof then
        (case callback_notify HPE_CB_message_complete (on_message_complete st) 0 (start_run pr) of
           Inl out \<Rightarrow> leave out
         | Inr r \<Rightarrow> Some (0, prs r))
      else if s = s_dead \<or> s = s_start_req_or_res \<or> s = s_start_res \<or> s = s_start_req then Some (0, pr)
      else Some (1, pr\<lparr>hp_errno := HPE_INVALID_EOF_STATE\<rparr>))"

definition http_parser_execute ::
  "'e http_settings \<Rightarrow> char list \<Rightarrow> 'e http_parser \<Rightarrow> (nat \<times> 'e http_parser) option" where
  "http_parser_execute st data pr =
     (if hp_errno pr \<noteq> HPE_OK then Some (0, pr)
      else if data = [] then http_eof st pr
      else http_loop st data False (start_run pr))"

declare http_loop.simps [code]

subsection \<open>The invariant of the parser\<close>

definition chunk_states :: "pstate set" where
  "chunk_states = {s_chunk_size_start, s_chunk_size, s_chunk_parameters, s_chunk_size_almost_done,
     s_chunk_data, s_chunk_data_almost_done, s_chunk_data_done}"

definition field_hstates :: "hstate set" where
  "field_hstates = {h_general, h_C, h_CO, h_CON, h_matching_connection, h_matching_proxy_connection,
     h_matching_content_length, h_matching_transfer_encoding, h_matching_upgrade, h_connection,
     h_content_length, h_transfer_encoding, h_upgrade}"

text \<open>
  What holds of the parser in the state \<open>s\<close>: all that the assertions of the code ask. \<open>counted\<close>
  says that the byte at hand has been counted in \<open>nread\<close>.
\<close>

definition parser_ok :: "bool \<Rightarrow> pstate \<Rightarrow> 'e http_parser \<Rightarrow> bool" where
  "parser_ok counted s pr \<longleftrightarrow>
     uint (nread pr) \<le> HTTP_MAX_HEADER_SIZE
   \<and> (s = s_req_method \<longrightarrow> hp_index pr \<le> length (method_strings (hp_method pr)))
   \<and> (s = s_header_field \<longrightarrow> header_state pr \<in> field_hstates)
   \<and> (s = s_header_value \<longrightarrow> header_state pr \<noteq> h_connection \<and> header_state pr \<noteq> h_transfer_encoding)
   \<and> (s \<in> chunk_states \<longrightarrow> has_flag F_CHUNKED pr)
   \<and> (s = s_chunk_size_start \<longrightarrow> nread pr = (if counted then 1 else 0))
   \<and> (s \<in> {s_chunk_data, s_body_identity} \<longrightarrow> content_length pr \<noteq> 0 \<and> content_length pr \<noteq> ULLONG_MAX)
   \<and> (s \<in> {s_chunk_size, s_chunk_parameters, s_chunk_size_almost_done} \<longrightarrow> content_length pr \<noteq> ULLONG_MAX)
   \<and> (s = s_chunk_data_almost_done \<longrightarrow> content_length pr = 0)"

text \<open>Between calls: a parser without an error, paused or not, can go on.\<close>

definition parser_inv :: "'e http_parser \<Rightarrow> bool" where
  "parser_inv pr \<longleftrightarrow> (hp_errno pr = HPE_OK \<or> hp_errno pr = HPE_PAUSED \<longrightarrow> parser_ok False (hp_state pr) pr)"

text \<open>The mark that may be set in a state.\<close>

definition state_mark :: "pstate \<Rightarrow> mark option" where
  "state_mark s =
     (if s = s_header_field then Some M_header_field
      else if s = s_header_value then Some M_header_value
      else if s \<in> url_states then Some M_url
      else if s \<in> {s_body_identity, s_body_identity_eof, s_chunk_data, s_chunk_data_almost_done} then Some M_body
      else if s = s_res_status then Some M_status
      else None)"

definition marks_ok :: "'e run \<Rightarrow> bool" where
  "marks_ok r \<longleftrightarrow> (\<forall>m k. get_mark m r = Some k \<longrightarrow> state_mark (p_state r) = Some m \<and> k \<le> cur r)"

definition run_ok :: "bool \<Rightarrow> 'e run \<Rightarrow> bool" where
  "run_ok counted r \<longleftrightarrow> hp_errno (prs r) = HPE_OK \<and> parser_ok counted (p_state r) (prs r) \<and> marks_ok r"

text \<open>Every \<open>goto reexecute\<close> goes to a state of a lower rank.\<close>

definition reexec_rank :: "pstate \<Rightarrow> nat" where
  "reexec_rank s =
     (if s = s_header_value_lws \<or> s = s_header_value_discard_lws then 4
      else if s = s_header_field_start then 3
      else if s = s_headers_almost_done then 2
      else if s \<in> {s_start_req_or_res, s_header_value, s_body_identity, s_headers_done} then 1
      else 0)"

text \<open>
  What the code of a state may do, from \<open>r0\<close> with \<open>n\<close> bytes of data: it leaves the function early
  only with an error, or for a change of the protocol.
\<close>

fun outcome_ok :: "nat \<Rightarrow> 'e run \<Rightarrow> 'e outcome \<Rightarrow> bool" where
  "outcome_ok n r0 (Break r) \<longleftrightarrow> run_ok False r \<and> cur r0 \<le> cur r \<and> cur r < n"
| "outcome_ok n r0 (Reexec r) \<longleftrightarrow> run_ok True r \<and> cur r0 \<le> cur r \<and> cur r < n
     \<and> reexec_rank (p_state r) < reexec_rank (p_state r0)"
| "outcome_ok n r0 (Return r k) \<longleftrightarrow> k \<le> n \<and> parser_inv (prs r) \<and> (hp_errno (prs r) = HPE_OK \<longrightarrow> hp_upgrade (prs r))"
| "outcome_ok n r0 Failed \<longleftrightarrow> False"

text \<open>Parsers that differ in what a callback may change at most.\<close>

definition alike :: "'e http_parser \<Rightarrow> 'e http_parser \<Rightarrow> bool" where
  "alike pr pr' \<longleftrightarrow> hp_type pr' = hp_type pr \<and> hp_flags pr' = hp_flags pr \<and> header_state pr' = header_state pr
   \<and> hp_index pr' = hp_index pr \<and> lenient_http_headers pr' = lenient_http_headers pr \<and> nread pr' = nread pr
   \<and> content_length pr' = content_length pr \<and> http_major pr' = http_major pr \<and> http_minor pr' = http_minor pr
   \<and> status_code pr' = status_code pr \<and> hp_method pr' = hp_method pr \<and> hp_upgrade pr' = hp_upgrade pr"

lemma alike_refl [simp]: "alike pr pr"
  by (simp add: alike_def)

lemma alike_trans: "alike a b \<Longrightarrow> alike b c \<Longrightarrow> alike a c"
  by (simp add: alike_def)

lemma alike_set [simp]:
  "alike pr (pr'\<lparr>hp_state := s\<rparr>) = alike pr pr'" "alike pr (pr'\<lparr>hp_errno := e\<rparr>) = alike pr pr'"
  "alike (pr\<lparr>hp_state := s\<rparr>) pr' = alike pr pr'" "alike (pr\<lparr>hp_errno := e\<rparr>) pr' = alike pr pr'"
  by (simp_all add: alike_def)

lemma alike_ok: "alike pr pr' \<Longrightarrow> parser_ok b s pr' = parser_ok b s pr"
  by (simp add: alike_def parser_ok_def has_flag_def)

text \<open>What the parser expects of the callbacks: they change the user's data and may pause the parser.\<close>

definition polite :: "'e http_parser \<Rightarrow> 'e http_parser \<Rightarrow> bool" where
  "polite pr pr' \<longleftrightarrow> alike pr pr' \<and> hp_state pr' = hp_state pr \<and> (hp_errno pr' = HPE_OK \<or> hp_errno pr' = HPE_PAUSED)"

lemma get_mark_update [simp]:
  "get_mark m (r\<lparr>prs := q\<rparr>) = get_mark m r" "get_mark m (r\<lparr>p_state := s\<rparr>) = get_mark m r"
  "get_mark m (r\<lparr>cur := n\<rparr>) = get_mark m r" "get_mark m (r\<lparr>cur_ch := c\<rparr>) = get_mark m r"
  "get_mark m (UPDATE_STATE s r) = get_mark m r" "get_mark m (upd f r) = get_mark m r"
  by (cases m; simp add: UPDATE_STATE_def upd_def)+

lemma run_fields [simp]:
  "prs (UPDATE_STATE s r) = prs r" "p_state (UPDATE_STATE s r) = s" "cur (UPDATE_STATE s r) = cur r"
  "cur_ch (UPDATE_STATE s r) = cur_ch r"
  "prs (upd f r) = f (prs r)" "p_state (upd f r) = p_state r" "cur (upd f r) = cur r" "cur_ch (upd f r) = cur_ch r"
  by (simp_all add: UPDATE_STATE_def upd_def)

locale http_client =
  fixes st :: "'e http_settings"
  assumes notify_polite: "cb \<in> {on_message_begin st, on_headers_complete st, on_message_complete st,
        on_chunk_header st, on_chunk_complete st} \<Longrightarrow> cb = Some f \<Longrightarrow> hp_errno pr = HPE_OK \<Longrightarrow>
        polite pr (snd (f pr))"
    and data_polite: "data_cb m st = Some g \<Longrightarrow> hp_errno pr = HPE_OK \<Longrightarrow> polite pr (snd (g xs pr))"
begin

text \<open>A callback that goes on leaves the run as it was, but for the user's data; one that does not
  leaves a parser that can go on after a pause.\<close>

definition same_run :: "'e run \<Rightarrow> 'e run \<Rightarrow> bool" where
  "same_run r r' \<longleftrightarrow> alike (prs r) (prs r') \<and> hp_errno (prs r') = HPE_OK \<and> p_state r' = p_state r
     \<and> cur r' = cur r \<and> cur_ch r' = cur_ch r"

lemma notify_cases:
  assumes cb: "cb \<in> {on_message_begin st, on_headers_complete st, on_message_complete st,
        on_chunk_header st, on_chunk_complete st}"
    and ok: "hp_errno (prs r) = HPE_OK" "parser_ok False (p_state r) (prs r)"
    and e: "e \<noteq> HPE_OK" "e \<noteq> HPE_PAUSED"
  shows "case callback_notify e cb er r of
      Inl out \<Rightarrow> \<exists>r'. out = Return r' er \<and> parser_inv (prs r') \<and> hp_errno (prs r') \<noteq> HPE_OK
    | Inr r' \<Rightarrow> same_run r r' \<and> (\<forall>m. get_mark m r' = get_mark m r)"
proof (cases cb)
  case None
  then show ?thesis using ok by (simp add: callback_notify_def same_run_def)
next
  case (Some f)
  define pr0 where "pr0 = (prs r)\<lparr>hp_state := p_state r\<rparr>"
  obtain rc pr1 where f: "f pr0 = (rc, pr1)" by (metis surj_pair)
  define pr2 where "pr2 = (if rc \<noteq> 0 then pr1\<lparr>hp_errno := e\<rparr> else pr1)"
  have "polite pr0 pr1" using notify_polite[OF cb Some, of pr0] ok f by (simp add: pr0_def)
  then have p: "alike (prs r) pr2" "hp_state pr2 = p_state r" "rc = 0 \<Longrightarrow> hp_errno pr2 = HPE_OK \<or> hp_errno pr2 = HPE_PAUSED"
    "rc \<noteq> 0 \<Longrightarrow> hp_errno pr2 = e"
    by (auto simp: polite_def pr0_def pr2_def)
  have run: "callback_notify e cb er r =
      (if hp_errno pr2 \<noteq> HPE_OK then Inl (Return (r\<lparr>prs := pr2, p_state := hp_state pr2\<rparr>) er)
       else Inr (r\<lparr>prs := pr2, p_state := hp_state pr2\<rparr>))"
    using ok(1) Some f by (simp add: callback_notify_def pr0_def[symmetric] pr2_def[symmetric] Let_def)
  have "parser_inv pr2" using alike_ok[OF p(1)] ok(2) p(2) by (simp add: parser_inv_def)
  then show ?thesis using p run by (simp add: same_run_def)
qed

lemma data_cases:
  assumes ok: "hp_errno (prs r) = HPE_OK" "parser_ok False (p_state r) (prs r)"
    and mk: "\<And>k. get_mark m r = Some k \<Longrightarrow> k \<le> stop \<and> stop \<le> length data"
  shows "case callback_data st data m stop er r of
      Inl out \<Rightarrow> \<exists>r'. out = Return r' er \<and> parser_inv (prs r') \<and> hp_errno (prs r') \<noteq> HPE_OK
    | Inr r' \<Rightarrow> same_run r r' \<and> (\<forall>m'. get_mark m' r' = (if m' = m then None else get_mark m' r))"
proof (cases "get_mark m r")
  case None
  then show ?thesis using ok by (simp add: callback_data_def same_run_def)
next
  case (Some k)
  have put: "get_mark m' (put_mark m None r') = (if m' = m then None else get_mark m' r')" for m' and r' :: "'e run"
    by (cases m; cases m') simp_all
  have put2: "prs (put_mark m None r') = prs r' \<and> p_state (put_mark m None r') = p_state r'
      \<and> cur (put_mark m None r') = cur r' \<and> cur_ch (put_mark m None r') = cur_ch r'" for r' :: "'e run"
    by (cases m) simp_all
  show ?thesis
  proof (cases "data_cb m st")
    case None
    then show ?thesis using ok Some put put2 by (simp add: callback_data_def same_run_def)
  next
    case (Some f)
    define pr0 where "pr0 = (prs r)\<lparr>hp_state := p_state r\<rparr>"
    obtain rc pr1 where f: "f (take (stop - k) (drop k data)) pr0 = (rc, pr1)" by (metis surj_pair)
    define pr2 where "pr2 = (if rc \<noteq> 0 then pr1\<lparr>hp_errno := data_cb_errno m\<rparr> else pr1)"
    define r1 where "r1 = r\<lparr>prs := pr2, p_state := hp_state pr2\<rparr>"
    have "polite pr0 pr1" using data_polite[OF Some, of pr0 "take (stop - k) (drop k data)"] ok f by (simp add: pr0_def)
    then have p: "alike (prs r) pr2" "hp_state pr2 = p_state r"
      by (auto simp: polite_def pr0_def pr2_def)
    have run: "callback_data st data m stop er r =
        (if hp_errno pr2 \<noteq> HPE_OK then Inl (Return r1 er) else Inr (put_mark m None r1))"
      using ok(1) Some f mk[OF \<open>get_mark m r = Some k\<close>] \<open>get_mark m r = Some k\<close>
      by (simp add: callback_data_def pr0_def[symmetric] pr2_def[symmetric] r1_def[symmetric] Let_def)
    have "parser_inv pr2" using alike_ok[OF p(1)] ok(2) p(2) by (simp add: parser_inv_def)
    then show ?thesis using p run put put2 by (simp add: same_run_def) (simp add: r1_def)
  qed
qed

end

subsection \<open>Facts the states share\<close>

lemma fail_with_ok: "cur r \<le> n \<Longrightarrow> e \<noteq> HPE_OK \<Longrightarrow> e \<noteq> HPE_PAUSED \<Longrightarrow> outcome_ok n r0 (fail_with e r)"
  by (simp add: fail_with_def error_exit_def RETURN_def parser_inv_def)

lemma parser_ok_counted: "parser_ok True s pr \<Longrightarrow> s \<noteq> s_chunk_size_start \<Longrightarrow> parser_ok False s pr"
  by (simp add: parser_ok_def)

lemma COUNT_ok:
  assumes "hp_errno (prs r) = HPE_OK" "cur r \<le> n"
  shows "case COUNT_HEADER_SIZE v r of
      Inl out \<Rightarrow> outcome_ok n r0 out \<and> (\<exists>r' k. out = Return r' k)
    | Inr r' \<Rightarrow> r' = upd (\<lambda>pr. pr\<lparr>nread := nread pr + of_nat v\<rparr>) r
        \<and> uint (nread (prs r')) \<le> HTTP_MAX_HEADER_SIZE"
  using assms fail_with_ok[of "upd (\<lambda>pr. pr\<lparr>nread := nread pr + of_nat v\<rparr>) r" n HPE_HEADER_OVERFLOW r0]
  by (auto simp: COUNT_HEADER_SIZE_def Let_def fail_with_def error_exit_def RETURN_def)

text \<open>States that only look at the character and change a few fields.\<close>

lemmas state_defs = do_dead_def do_res_or_resp_H_def expect_def do_first_http_major_def do_http_major_def
  do_first_http_minor_def http_minor_digit_def do_res_http_minor_def do_res_first_status_code_def
  do_res_status_code_def do_res_status_start_def do_req_http_start_def do_req_http_minor_def
  do_req_line_almost_done_def do_header_field_start_def do_header_almost_done_def do_header_value_lws_def
  do_chunk_size_start_def do_chunk_parameters_def

lemma marks_none:
  "marks_ok r \<Longrightarrow> state_mark (p_state r) = None \<Longrightarrow> get_mark m r = None"
  by (cases "get_mark m r") (auto simp: marks_ok_def)

end
