(* ===== verification/Http_Safety.thy ===== *)
theory Http_Safety
  imports Http_Parser
begin

text \<open>
  The safety of the HTTP parser: no assertion of the code fails, no byte outside of the data is read
  and every call returns, whatever the data are. Each state of the switch keeps the invariant
  \<open>parser_ok\<close> of the parser and the marks (\<open>outcome_ok\<close>); a \<open>goto reexecute\<close> goes to a state of a
  lower rank, so that the loop ends.
\<close>

subsection \<open>Every state keeps the invariant\<close>

text \<open>From a state without a mark.\<close>

declare outcome_ok.simps [simp del]

lemma no_marks_ok: "run_ok b r \<Longrightarrow> state_mark (p_state r) = None \<Longrightarrow>
    (\<And>m. get_mark m r' = get_mark m r) \<Longrightarrow> marks_ok r'"
  by (simp add: marks_ok_def marks_none run_ok_def)

lemma plain_break:
  assumes "run_ok b r" "cur r < n" "state_mark (p_state r) = None"
    and "\<And>m. get_mark m r' = get_mark m r" "cur r' = cur r"
    and "hp_errno (prs r') = HPE_OK" "parser_ok False (p_state r') (prs r')"
  shows "outcome_ok n r (Break r')"
  using assms no_marks_ok[OF assms(1,3,4)] by (simp add: run_ok_def outcome_ok.simps)

lemma plain_reexec:
  assumes "run_ok b r" "cur r < n" "state_mark (p_state r) = None"
    and "\<And>m. get_mark m r' = get_mark m r" "cur r' = cur r"
    and "hp_errno (prs r') = HPE_OK" "parser_ok True (p_state r') (prs r')"
    and "reexec_rank (p_state r') < reexec_rank (p_state r)"
  shows "outcome_ok n r (Reexec r')"
  using assms no_marks_ok[OF assms(1,3,4)] by (simp add: run_ok_def outcome_ok.simps)

lemma run_okD: "run_ok b r \<Longrightarrow> hp_errno (prs r) = HPE_OK" "run_ok b r \<Longrightarrow> parser_ok b (p_state r) (prs r)"
    "run_ok b r \<Longrightarrow> marks_ok r"
  by (simp_all add: run_ok_def)

lemmas parser_simps = parser_ok_def chunk_states_def has_flag_def
lemmas mark_simps = state_mark_def url_states_def

named_theorems state_ok

text \<open>The states that say nothing of the parser but the bound of the headers.\<close>

definition easy :: "pstate \<Rightarrow> bool" where
  "easy s \<longleftrightarrow> state_mark s = None \<and> s \<noteq> s_req_method \<and> s \<notin> chunk_states"

lemma easy_mark: "easy s \<Longrightarrow> state_mark s = None"
  by (simp add: easy_def)

lemma easy_ok: "easy s \<Longrightarrow> parser_ok b s pr \<longleftrightarrow> uint (nread pr) \<le> HTTP_MAX_HEADER_SIZE"
  by (auto simp: easy_def parser_ok_def chunk_states_def state_mark_def split: if_splits)

lemma easy_states [simp]:
  "easy s_dead" "easy s_start_req_or_res" "easy s_res_or_resp_H" "easy s_start_res" "easy s_res_H" "easy s_res_HT"
  "easy s_res_HTT" "easy s_res_HTTP" "easy s_res_first_http_major" "easy s_res_http_major"
  "easy s_res_first_http_minor" "easy s_res_http_minor" "easy s_res_first_status_code" "easy s_res_status_code"
  "easy s_res_status_start" "easy s_res_line_almost_done" "easy s_start_req" "easy s_req_spaces_before_url"
  "easy s_req_http_start" "easy s_req_http_H" "easy s_req_http_HT" "easy s_req_http_HTT" "easy s_req_http_HTTP"
  "easy s_req_first_http_major" "easy s_req_http_major" "easy s_req_first_http_minor" "easy s_req_http_minor"
  "easy s_req_line_almost_done" "easy s_header_field_start" "easy s_header_value_discard_ws"
  "easy s_header_value_discard_ws_almost_done" "easy s_header_value_discard_lws" "easy s_header_value_start"
  "easy s_header_value_lws" "easy s_header_almost_done" "easy s_headers_almost_done" "easy s_headers_done"
  "easy s_message_done"
  by (simp_all add: easy_def state_mark_def url_states_def chunk_states_def)

lemma marked_states [simp]:
  "state_mark s_header_field = Some M_header_field" "state_mark s_header_value = Some M_header_value"
  "state_mark s_body_identity = Some M_body" "state_mark s_body_identity_eof = Some M_body"
  "state_mark s_chunk_data = Some M_body" "state_mark s_chunk_data_almost_done = Some M_body"
  "state_mark s_res_status = Some M_status" "state_mark s_req_method = None" "state_mark s_chunk_size_start = None"
  "state_mark s_chunk_size = None" "state_mark s_chunk_parameters = None" "state_mark s_chunk_size_almost_done = None"
  "state_mark s_chunk_data_done = None"
  by (simp_all add: state_mark_def url_states_def)

lemma run_counted: "run_ok b r \<Longrightarrow> uint (nread (prs r)) \<le> HTTP_MAX_HEADER_SIZE"
  by (simp add: run_ok_def parser_ok_def)

lemma easy_break:
  assumes "run_ok b r" "cur r < n" "easy (p_state r)" "easy (p_state r')"
    and "\<And>m. get_mark m r' = get_mark m r" "cur r' = cur r"
    and "hp_errno (prs r') = hp_errno (prs r)" "nread (prs r') = nread (prs r)"
  shows "outcome_ok n r (Break r')"
  using assms plain_break[OF assms(1,2) easy_mark[OF assms(3)] assms(5,6)]
  by (simp add: easy_ok run_okD run_counted)

lemma expect_ok [state_ok]: "run_ok True r \<Longrightarrow> cur r < n \<Longrightarrow> easy (p_state r) \<Longrightarrow> easy s \<Longrightarrow>
    outcome_ok n r (expect c s r)"
  by (auto simp: expect_def intro!: easy_break fail_with_ok)

lemma version_ok [state_ok]:
  assumes "run_ok True r" "cur r < n" "easy (p_state r)" 
  shows "easy s \<Longrightarrow> outcome_ok n r (do_first_http_major lo s r)"
    "easy s \<Longrightarrow> outcome_ok n r (do_http_major s r)"
    "easy s \<Longrightarrow> outcome_ok n r (do_first_http_minor s r)"
    "outcome_ok n r (http_minor_digit r)"
  using assms
  by (auto simp: do_first_http_major_def do_http_major_def do_first_http_minor_def http_minor_digit_def
    Let_def intro!: easy_break[OF assms(1)] fail_with_ok)

lemma easy_ok2 [state_ok]:
  assumes "run_ok True r" "cur r < n" "easy (p_state r)" 
  shows "outcome_ok n r (do_dead r)" "outcome_ok n r (do_res_http_minor r)" "outcome_ok n r (do_res_first_status_code r)"
    "outcome_ok n r (do_res_status_code r)" "outcome_ok n r (do_req_http_start r)"
    "outcome_ok n r (do_req_http_minor r)" "outcome_ok n r (do_req_line_almost_done r)"
  "outcome_ok n r (do_header_almost_done r)"
  using assms
  apply (auto simp: state_defs Let_def intro!: easy_break[OF assms(1)] fail_with_ok)
  done


lemma res_or_resp_H_ok [state_ok]:
  "run_ok True r \<Longrightarrow> cur r < n \<Longrightarrow> p_state r = s_res_or_resp_H \<Longrightarrow> outcome_ok n r (do_res_or_resp_H r)"
  using run_okD[of True r] run_counted[of True r]
  by (auto simp: do_res_or_resp_H_def mark_simps parser_simps intro!: plain_break fail_with_ok)

text \<open>States that set a mark.\<close>

lemma get_MARK: "get_mark m' (MARK m r) = (if m' = m \<and> get_mark m r = None then Some (cur r) else get_mark m' r)"
  by (cases m; cases m') (simp_all add: MARK_def)

lemma MARK_fields [simp]:
  "prs (MARK m r) = prs r" "p_state (MARK m r) = p_state r" "cur (MARK m r) = cur r" "cur_ch (MARK m r) = cur_ch r"
  by (cases m; simp add: MARK_def)+

lemma mark_break:
  assumes "run_ok b r" "cur r < n"
    and "\<And>m. get_mark m r' = get_mark m (MARK mk r)"
    and "state_mark (p_state r) = None \<or> state_mark (p_state r) = Some mk"
    and "state_mark (p_state r') = Some mk" "cur r \<le> cur r'" "cur r' < n"
    and "hp_errno (prs r') = HPE_OK" "parser_ok False (p_state r') (prs r')"
  shows "outcome_ok n r (Break r')"
proof -
  have "marks_ok r'"
    using assms(1,3-6) unfolding run_ok_def marks_ok_def
    by (auto simp: get_MARK split: if_splits intro: order_trans)
  then show ?thesis using assms by (simp add: run_ok_def outcome_ok.simps)
qed

lemma res_status_start_ok [state_ok]:
  assumes "run_ok True r" "cur r < n" "p_state r = s_res_status_start"
  shows "outcome_ok n r (do_res_status_start r)"
proof -
  have "outcome_ok n r (Break (upd (\<lambda>pr. pr\<lparr>hp_index := 0\<rparr>) (UPDATE_STATE s_res_status (MARK M_status r))))"
    using assms run_okD[of True r] run_counted[of True r]
    by (intro mark_break[where b = True and mk = M_status]) (simp_all add: mark_simps parser_simps)
  then show ?thesis using assms
    by (auto simp: do_res_status_start_def intro!: easy_break)
qed

lemma method_keeps_index:
  "map_of method_changes (m, i, c) = Some m' \<Longrightarrow> i < length (method_strings m')"
  by (auto simp: method_changes_def split: if_splits)

lemma req_method_ok [state_ok]:
  assumes "run_ok True r" "cur r < n" "p_state r = s_req_method"
  shows "outcome_ok n r (do_req_method r)"
proof -
  let ?i = "hp_index (prs r)"
  have i: "?i \<le> length (method_strings (hp_method (prs r)))" and e: "hp_errno (prs r) = HPE_OK"
    and c: "uint (nread (prs r)) \<le> HTTP_MAX_HEADER_SIZE"
    using assms by (auto simp: run_ok_def parser_ok_def)
  have step: "outcome_ok n r (Break (upd next_index (upd (\<lambda>pr. pr\<lparr>hp_method := m\<rparr>) r)))"
    if "?i < length (method_strings m)" for m
    using assms e c that mod_less_eq_dividend[of "?i + 1" 128] less_le_trans
    by (intro plain_break) (auto simp: mark_simps parser_simps next_index_def)
  have same: "outcome_ok n r (Break (upd next_index r))" if "?i < length (method_strings (hp_method (prs r)))"
    using step[OF that] by (simp add: upd_def)
  have last: "outcome_ok n r (Break (upd next_index (UPDATE_STATE s_req_spaces_before_url r)))"
    using assms e c by (intro plain_break) (auto simp: mark_simps parser_simps next_index_def)
  have nth: "?i < length (method_strings (hp_method (prs r)))"
    if "(method_strings (hp_method (prs r)) @ [NUL]) ! ?i \<noteq> NUL"
    using that i by (cases "?i = length (method_strings (hp_method (prs r)))") auto
  show ?thesis
    using i assms(2) unfolding do_req_method_def Let_def
    by (auto intro!: last same step nth fail_with_ok dest: method_keeps_index split: option.split)
qed

lemma server_char_url: "url_server_char c = s_dead \<or> url_server_char c \<in> url_states"
  and query_char_url: "url_query_char c = s_dead \<or> url_query_char c \<in> url_states"
  by (auto simp: url_server_char_def url_query_char_def url_states_def)

lemma dead_or_url: "parse_url_char s c = s_dead \<or> parse_url_char s c \<in> url_states"
  using server_char_url[of c] query_char_url[of c]
  by (cases s) (auto simp: parse_url_char_def, auto simp: url_states_def)

lemma url_ok: "s \<in> url_states \<Longrightarrow> parser_ok b s pr \<longleftrightarrow> uint (nread pr) \<le> HTTP_MAX_HEADER_SIZE"
  by (auto simp: parser_ok_def chunk_states_def url_states_def)

lemma url_mark: "s \<in> url_states \<Longrightarrow> state_mark s = Some M_url"
  by (auto simp: url_states_def state_mark_def)

lemma mark_char_ok:
  assumes "run_ok True r" "cur r < n" "state_mark (p_state r) = None \<or> state_mark (p_state r) = Some M_url"
  shows "outcome_ok n r (url_char (UPDATE_STATE s (MARK M_url r)))"
  using assms dead_or_url[of s "cur_ch r"] run_counted[OF assms(1)] run_okD[OF assms(1)]
  by (auto simp: url_char_def Let_def url_mark url_ok intro!: fail_with_ok mark_break[OF assms(1), where mk = M_url])

lemma url_char_ok:
  assumes "run_ok True r" "cur r < n" "p_state r \<in> url_states"
  shows "outcome_ok n r (url_char r)"
proof -
  have "outcome_ok n r (Break (UPDATE_STATE s r))" if "s \<in> url_states" for s
    using assms that run_counted[OF assms(1)] run_okD[OF assms(1)] url_mark[OF assms(3)] url_mark[OF that]
    by (auto simp: run_ok_def outcome_ok.simps marks_ok_def url_ok)
  then show ?thesis
    using assms(2) dead_or_url[of "p_state r" "cur_ch r"]
    by (auto simp: url_char_def Let_def intro!: fail_with_ok)
qed

lemma spaces_before_url_ok [state_ok]:
  assumes "run_ok True r" "cur r < n" "p_state r = s_req_spaces_before_url"
  shows "outcome_ok n r (do_req_spaces_before_url r)"
proof -
  have id: "MARK M_url r = UPDATE_STATE s_req_spaces_before_url (MARK M_url r)"
    using assms(3) by (simp add: UPDATE_STATE_def MARK_def)
  have "outcome_ok n r (url_char (UPDATE_STATE s (MARK M_url r)))" for s
    using assms by (intro mark_char_ok) (simp_all add: mark_simps)
  then have "outcome_ok n r (url_char (UPDATE_STATE s_req_server_start (MARK M_url r)))"
    "outcome_ok n r (url_char (MARK M_url r))" using id by metis+
  then show ?thesis
    using assms by (auto simp: do_req_spaces_before_url_def Let_def intro!: easy_break)
qed

lemma url_start_ok [state_ok]:
  assumes "run_ok True r" "cur r < n" "p_state r \<in> url_states"
  shows "outcome_ok n r (do_req_url_start r)"
  using assms url_char_ok by (auto simp: do_req_url_start_def intro!: fail_with_ok)

lemma header_field_start_ok [state_ok]:
  assumes "run_ok True r" "cur r < n" "p_state r = s_header_field_start"
  shows "outcome_ok n r (do_header_field_start r)"
proof -
  have "outcome_ok n r (Break (upd (\<lambda>pr. pr\<lparr>hp_index := 0, header_state := header_field_state c\<rparr>)
                (UPDATE_STATE s_header_field (MARK M_header_field r))))" for c
    using assms run_okD[of True r] run_counted[of True r]
    by (intro mark_break[where b = True and mk = M_header_field])
      (simp_all add: mark_simps parser_simps header_field_state_def field_hstates_def)
  moreover have "outcome_ok n r (Reexec (UPDATE_STATE s_headers_almost_done r))"
    using assms run_okD[of True r] run_counted[of True r]
    by (intro plain_reexec) (simp_all add: easy_mark easy_ok reexec_rank_def)
  ultimately show ?thesis using assms
    by (auto simp: do_header_field_start_def Let_def intro!: easy_break fail_with_ok)
qed

definition first_ok :: "'e http_parser \<Rightarrow> 'e http_parser step_result \<Rightarrow> bool" where
  "first_ok pr out = (case out of Step pr' \<Rightarrow> nread pr' = nread pr \<and> hp_errno pr' = hp_errno pr
            \<and> header_state pr' \<noteq> h_connection \<and> header_state pr' \<noteq> h_transfer_encoding
    | Err e pr' \<Rightarrow> e \<noteq> HPE_OK \<and> e \<noteq> HPE_PAUSED | Assert \<Rightarrow> False)"

lemma first_okI:
  "nread pr' = nread pr \<Longrightarrow> hp_errno pr' = hp_errno pr \<Longrightarrow> header_state pr' \<noteq> h_connection \<Longrightarrow>
     header_state pr' \<noteq> h_transfer_encoding \<Longrightarrow> first_ok pr (Step pr')"
  "e \<noteq> HPE_OK \<Longrightarrow> e \<noteq> HPE_PAUSED \<Longrightarrow> first_ok pr (Err e pr')"
  by (simp_all add: first_ok_def)

lemma header_value_first_ok: "first_ok pr (header_value_first c pr)"
  unfolding header_value_first_def Let_def
  by (cases "header_state pr"; simp only: hstate.case;
      auto simp: add_flag_def simp del: LOWER.simps intro!: first_okI)

lemma header_value_start_ok [state_ok]:
  assumes "run_ok True r" "cur r < n" "easy (p_state r)"
  shows "outcome_ok n r (do_header_value_start r)"
proof -
  let ?r1 = "upd (\<lambda>pr. pr\<lparr>hp_index := 0\<rparr>) (UPDATE_STATE s_header_value (MARK M_header_value r))"
  have out: "first_ok (prs ?r1) (header_value_first (cur_ch r) (prs ?r1))" by (rule header_value_first_ok)
  show ?thesis
  proof (cases "header_value_first (cur_ch r) (prs ?r1)")
    case (Step pr)
    have "parser_ok False s_header_value pr"
      using out Step run_counted[OF assms(1)] by (simp add: first_ok_def parser_ok_def chunk_states_def)
    then have "outcome_ok n r (Break (?r1\<lparr>prs := pr\<rparr>))"
      using assms out Step run_okD(1)[OF assms(1)]
      by (intro mark_break[OF assms(1,2), where mk = M_header_value])
        (simp_all add: easy_mark first_ok_def)
    then show ?thesis using Step by (simp add: do_header_value_start_def Let_def)
  next
    case (Err e pr)
    then show ?thesis using assms out
      by (auto simp: do_header_value_start_def Let_def first_ok_def intro!: fail_with_ok)
  qed (use out in \<open>auto simp: first_ok_def\<close>)
qed

lemma discard_ws_ok [state_ok]:
  assumes "run_ok True r" "cur r < n" "easy (p_state r)"
  shows "outcome_ok n r (do_header_value_discard_ws r)"
  using assms by (auto simp: do_header_value_discard_ws_def intro!: easy_break header_value_start_ok)
subsection \<open>States that run callbacks\<close>

context http_client begin

lemma same_run_out:
  assumes "same_run r1 r'" "\<And>m. get_mark m r' = get_mark m r1"
  shows "outcome_ok n r (Break r1) \<Longrightarrow> outcome_ok n r (Break r')"
    "outcome_ok n r (Reexec r1) \<Longrightarrow> outcome_ok n r (Reexec r')"
  using assms by (auto simp: same_run_def outcome_ok.simps run_ok_def marks_ok_def alike_ok)

lemma notify_then:
  assumes cb: "cb \<in> {on_message_begin st, on_headers_complete st, on_message_complete st,
        on_chunk_header st, on_chunk_complete st}"
    and ok: "hp_errno (prs r1) = HPE_OK" "parser_ok False (p_state r1) (prs r1)"
    and e: "e \<noteq> HPE_OK" "e \<noteq> HPE_PAUSED" "er \<le> n"
    and k: "\<And>r'. same_run r1 r' \<Longrightarrow> (\<And>m. get_mark m r' = get_mark m r1) \<Longrightarrow> outcome_ok n r (k r')"
  shows "outcome_ok n r (and_then (callback_notify e cb er r1) k)"
proof (cases "callback_notify e cb er r1")
  case (Inl out)
  then show ?thesis using notify_cases[OF cb ok e(1,2), of er] e(3) by (auto simp: and_then_def outcome_ok.simps)
next
  case (Inr r')
  then show ?thesis using notify_cases[OF cb ok e(1,2), of er] k by (simp add: and_then_def)
qed

lemma notify_break:
  assumes "cb \<in> {on_message_begin st, on_headers_complete st, on_message_complete st,
        on_chunk_header st, on_chunk_complete st}"
    and "outcome_ok n r (Break r1)"
    and "e \<noteq> HPE_OK" "e \<noteq> HPE_PAUSED" "er \<le> n"
  shows "outcome_ok n r (and_then (callback_notify e cb er r1) Break)"
proof (rule notify_then[OF assms(1) _ _ assms(3-5)])
  show "outcome_ok n r (Break r')" if "same_run r1 r'" "\<And>m. get_mark m r' = get_mark m r1" for r'
    using that assms(2) by (rule same_run_out(1))
qed (use assms(2) in \<open>simp_all add: outcome_ok.simps run_ok_def\<close>)

lemma data_then:
  assumes ok: "hp_errno (prs r1) = HPE_OK" "parser_ok False (p_state r1) (prs r1)"
    and mk: "\<And>j. get_mark m r1 = Some j \<Longrightarrow> j \<le> stop \<and> stop \<le> length data"
    and er: "er \<le> n"
    and k: "\<And>r'. same_run r1 r' \<Longrightarrow> (\<And>m'. get_mark m' r' = (if m' = m then None else get_mark m' r1)) \<Longrightarrow>
        outcome_ok n r (k r')"
  shows "outcome_ok n r (and_then (callback_data st data m stop er r1) k)"
proof (cases "callback_data st data m stop er r1")
  case (Inl out)
  then show ?thesis using data_cases[where er = er and m = m, OF ok mk] er by (auto simp: and_then_def outcome_ok.simps)
next
  case (Inr r')
  then show ?thesis using data_cases[where er = er and m = m, OF ok mk] k by (simp add: and_then_def)
qed

text \<open>The callback of the only mark, with the next state set.\<close>

lemma data_after:
  assumes r1: "\<And>m' j. get_mark m' r1 = Some j \<Longrightarrow> m' = m \<and> j \<le> cur r1" "hp_errno (prs r1) = HPE_OK"
      "parser_ok False (p_state r1) (prs r1)" "er \<le> length data" "cur r1 \<le> stop" "stop \<le> length data"
    and k: "\<And>r'. same_run r1 r' \<Longrightarrow> marks_ok r' \<Longrightarrow> outcome_ok (length data) r (k r')"
  shows "outcome_ok (length data) r (and_then (callback_data st data m stop er r1) k)"
proof (rule data_then[OF r1(2,3) _ r1(4)])
  fix r' assume s: "same_run r1 r'" and m: "\<And>m'. get_mark m' r' = (if m' = m then None else get_mark m' r1)"
  have "get_mark m' r' = None" for m'
    using m[of m'] r1(1)[of m'] by (cases "get_mark m' r1") auto
  then show "outcome_ok (length data) r (k r')" by (intro k s) (simp add: marks_ok_def)
next
  show "j \<le> stop \<and> stop \<le> length data" if "get_mark m r1 = Some j" for j
    using r1(1)[OF that] r1(5,6) by simp
qed

lemma data_break:
  assumes "\<And>m' j. get_mark m' r1 = Some j \<Longrightarrow> m' = m \<and> j \<le> cur r1" "hp_errno (prs r1) = HPE_OK"
      "parser_ok False (p_state r1) (prs r1)" "er \<le> length data" "cur r1 \<le> stop" "stop \<le> length data"
      "cur r \<le> cur r1" "cur r1 < length data"
  shows "outcome_ok (length data) r (and_then (callback_data st data m stop er r1) Break)"
  using assms(7,8)
  by (intro data_after[OF assms(1-6)]) (auto simp: same_run_def outcome_ok.simps run_ok_def alike_ok assms(3))

lemma data_reexec:
  assumes "\<And>m' j. get_mark m' r1 = Some j \<Longrightarrow> m' = m \<and> j \<le> cur r1" "hp_errno (prs r1) = HPE_OK"
      "parser_ok True (p_state r1) (prs r1)" "p_state r1 \<noteq> s_chunk_size_start" "er \<le> length data" "cur r1 \<le> stop"
      "stop \<le> length data" "cur r \<le> cur r1" "cur r1 < length data" "reexec_rank (p_state r1) < reexec_rank (p_state r)"
  shows "outcome_ok (length data) r (and_then (callback_data st data m stop er r1) Reexec)"
  using assms(8-10)
  by (intro data_after[OF assms(1,2) parser_ok_counted[OF assms(3,4)] assms(5-7)])
    (auto simp: same_run_def outcome_ok.simps run_ok_def alike_ok assms(3))

end

lemma only_mark:
  assumes "run_ok b r" "state_mark (p_state r) = Some m"
    and "\<And>m'. get_mark m' r1 = get_mark m' r" "cur r \<le> cur r1"
  shows "get_mark m' r1 = Some j \<Longrightarrow> m' = m \<and> j \<le> cur r1"
proof -
  assume "get_mark m' r1 = Some j"
  then have "m' = m \<and> j \<le> cur r" using assms(1,2) assms(3)[of m'] by (simp add: run_ok_def marks_ok_def)
  then show ?thesis using assms(4) by simp
qed

lemma RETURN_ok: "hp_errno (prs r) = HPE_OK \<Longrightarrow> parser_ok False (p_state r) (prs r) \<Longrightarrow> k \<le> n \<Longrightarrow>
    hp_upgrade (prs r) \<Longrightarrow> outcome_ok n r0 (RETURN k r)"
  using alike_ok[of "prs r" "(prs r)\<lparr>hp_state := p_state r\<rparr>" False "p_state r"]
  by (simp add: RETURN_def outcome_ok.simps parser_inv_def)

context http_client begin

lemma start_req_ok [state_ok]:
  assumes "run_ok True r" "cur r < n" "p_state r = s_start_req"
  shows "outcome_ok n r (do_start_req st r)"
proof -
  have "outcome_ok n r (and_then (callback_notify HPE_CB_message_begin (on_message_begin st) (cur r + 1)
      (UPDATE_STATE s_req_method (upd (\<lambda>pr. pr\<lparr>hp_method := m\<rparr>) (upd (\<lambda>pr. pr\<lparr>hp_method := HTTP_DELETE, hp_index := 1\<rparr>)
         (upd start_message r))))) Break)" for m
  proof (rule notify_break)
    have "1 \<le> length (method_strings m)" by (cases m) simp_all
    then show "outcome_ok n r (Break (UPDATE_STATE s_req_method (upd (\<lambda>pr. pr\<lparr>hp_method := m\<rparr>)
        (upd (\<lambda>pr. pr\<lparr>hp_method := HTTP_DELETE, hp_index := 1\<rparr>) (upd start_message r)))))"
      using assms run_counted[OF assms(1)] run_okD(1)[OF assms(1)]
      by (intro plain_break[OF assms(1)]) (auto simp: start_message_def easy_mark parser_ok_def chunk_states_def)
  qed (use assms(2) in auto)
  then show ?thesis using assms
    by (auto simp: do_start_req_def Let_def intro!: easy_break fail_with_ok split: option.split)
qed

lemma start_res_ok [state_ok]:
  assumes "run_ok True r" "cur r < n" "p_state r = s_start_res"
  shows "outcome_ok n r (do_start_res st r)"
proof -
  have "outcome_ok n r (and_then (callback_notify HPE_CB_message_begin (on_message_begin st) (cur r + 1) r1) Break)"
    if "r1 = (if b then UPDATE_STATE s_res_H (upd start_message r) else upd start_message r)" for b r1
    using assms that by (intro notify_break easy_break[OF assms(1)]) (auto simp: start_message_def)
  then show ?thesis using assms
    by (auto simp: do_start_res_def Let_def intro!: fail_with_ok)
qed

lemma start_req_or_res_ok [state_ok]:
  assumes "run_ok True r" "cur r < n" "p_state r = s_start_req_or_res"
  shows "outcome_ok n r (do_start_req_or_res st r)"
proof -
  have "outcome_ok n r (and_then (callback_notify HPE_CB_message_begin (on_message_begin st) (cur r + 1)
      (UPDATE_STATE s_res_or_resp_H (upd start_message r))) Break)"
    using assms by (intro notify_break easy_break[OF assms(1)]) (auto simp: start_message_def)
  moreover have "outcome_ok n r (Reexec (UPDATE_STATE s_start_req (upd (\<lambda>pr. pr\<lparr>hp_type := HTTP_REQUEST\<rparr>)
      (upd start_message r))))"
    using assms run_counted[OF assms(1)] run_okD(1)[OF assms(1)]
    by (intro plain_reexec[OF assms(1)]) (auto simp: start_message_def easy_ok easy_mark reexec_rank_def)
  ultimately show ?thesis using assms
    by (auto simp: do_start_req_or_res_def Let_def intro!: easy_break)
qed

lemma res_status_ok [state_ok]:
  assumes "run_ok True r" "cur r < length data" "p_state r = s_res_status"
  shows "outcome_ok (length data) r (do_res_status st data r)"
proof -
  have "outcome_ok (length data) r (and_then (CALLBACK_DATA st data M_status (UPDATE_STATE s r)) Break)" if "easy s" for s
    using assms that run_counted[OF assms(1)] run_okD(1)[OF assms(1)] only_mark[OF assms(1), of M_status "UPDATE_STATE s r"]
    by (intro data_break) (auto simp: easy_ok)
  moreover have "outcome_ok (length data) r (Break r)"
    using assms parser_ok_counted[OF run_okD(2)[OF assms(1)]] by (simp add: outcome_ok.simps run_ok_def)
  ultimately show ?thesis using assms by (simp add: do_res_status_def)
qed

lemma req_url_ok [state_ok]:
  assumes "run_ok True r" "cur r < length data" "p_state r \<in> url_states"
  shows "outcome_ok (length data) r (do_req_url st data r)"
proof -
  have cb: "outcome_ok (length data) r (and_then (callback_data st data M_url (cur r) (cur r + 1) (UPDATE_STATE s r1)) Break)"
    if "easy s" "r1 = r \<or> r1 = upd (\<lambda>pr. pr\<lparr>http_major := 0, http_minor := 9\<rparr>) r" for s r1
    using assms that run_counted[OF assms(1)] run_okD(1)[OF assms(1)] only_mark[OF assms(1), of M_url "UPDATE_STATE s r1"]
    by (intro data_break) (auto simp: easy_ok url_mark)
  show ?thesis using cb url_char_ok[OF assms] by (auto simp: do_req_url_def)
qed

end

subsection \<open>Header names and values\<close>

text \<open>What a character of a header may do to the parser: \<open>H\<close> are the header states that may follow.\<close>

definition char_ok :: "hstate set \<Rightarrow> 'e http_parser \<Rightarrow> 'e http_parser step_result \<Rightarrow> bool" where
  "char_ok H pr out = (case out of
      Step pr' \<Rightarrow> nread pr' = nread pr \<and> hp_errno pr' = hp_errno pr \<and> header_state pr' \<in> H
    | Err e pr' \<Rightarrow> e \<noteq> HPE_OK \<and> e \<noteq> HPE_PAUSED | Assert \<Rightarrow> False)"

lemma char_okI:
  "nread pr' = nread pr \<Longrightarrow> hp_errno pr' = hp_errno pr \<Longrightarrow> header_state pr' \<in> H \<Longrightarrow> char_ok H pr (Step pr')"
  "e \<noteq> HPE_OK \<Longrightarrow> e \<noteq> HPE_PAUSED \<Longrightarrow> char_ok H pr (Err e pr')"
  by (simp_all add: char_ok_def)

lemma next_index_fields [simp]:
  "nread (next_index pr) = nread pr" "hp_errno (next_index pr) = hp_errno pr"
  "header_state (next_index pr) = header_state pr"
  "nread (add_flag f pr) = nread pr" "hp_errno (add_flag f pr) = hp_errno pr"
  "header_state (add_flag f pr) = header_state pr"
  by (simp_all add: next_index_def add_flag_def)

lemma field_hstates [simp]:
  "h_general \<in> field_hstates" "h_C \<in> field_hstates" "h_CO \<in> field_hstates" "h_CON \<in> field_hstates"
  "h_matching_connection \<in> field_hstates" "h_matching_proxy_connection \<in> field_hstates"
  "h_matching_content_length \<in> field_hstates" "h_matching_transfer_encoding \<in> field_hstates"
  "h_matching_upgrade \<in> field_hstates" "h_connection \<in> field_hstates" "h_content_length \<in> field_hstates"
  "h_transfer_encoding \<in> field_hstates" "h_upgrade \<in> field_hstates"
  by (simp_all add: field_hstates_def)

lemma other_hstates [simp]:
  "h_matching_transfer_encoding_chunked \<notin> field_hstates" "h_matching_connection_token_start \<notin> field_hstates"
  "h_matching_connection_keep_alive \<notin> field_hstates" "h_matching_connection_close \<notin> field_hstates"
  "h_matching_connection_upgrade \<notin> field_hstates" "h_matching_connection_token \<notin> field_hstates"
  "h_transfer_encoding_chunked \<notin> field_hstates" "h_connection_keep_alive \<notin> field_hstates"
  "h_connection_close \<notin> field_hstates" "h_connection_upgrade \<notin> field_hstates"
  by (simp_all add: field_hstates_def)

lemma match_field_fields [simp]:
  "nread (match_field w found c pr) = nread pr" "hp_errno (match_field w found c pr) = hp_errno pr"
  "header_state pr \<in> field_hstates \<Longrightarrow> found \<in> field_hstates \<Longrightarrow> header_state (match_field w found c pr) \<in> field_hstates"
  by (cases "match_word w c (hp_index (next_index pr))"; simp add: match_field_def Let_def)+

lemma match_content_length_ok:
  assumes "header_state pr = h_matching_content_length"
  shows "char_ok field_hstates pr (header_field_char c ch pr)"
proof -
  have "header_field_char c ch pr = (let pr1 = next_index pr in
           case match_word ''content-length'' c (hp_index pr1) of
             No_Match \<Rightarrow> Step (pr1\<lparr>header_state := h_general\<rparr>)
           | Last_Match \<Rightarrow>
               (if has_flag F_CONTENTLENGTH pr1 then Err HPE_UNEXPECTED_CONTENT_LENGTH pr1
                else Step (add_flag F_CONTENTLENGTH (pr1\<lparr>header_state := h_content_length\<rparr>)))
           | Match \<Rightarrow> Step pr1)"
    unfolding header_field_char_def assms by (simp only: hstate.case)
  then show ?thesis
    using assms by (cases "match_word ''content-length'' c (hp_index (next_index pr))")
      (auto simp: Let_def intro!: char_okI)
qed

lemma header_field_char_ok:
  assumes "header_state pr \<in> field_hstates"
  shows "char_ok field_hstates pr (header_field_char c ch pr)"
proof (cases "header_state pr = h_matching_content_length")
  case False
  then show ?thesis
    using assms unfolding header_field_char_def
    by (cases "header_state pr"; simp only: hstate.case; auto intro!: char_okI)
qed (rule match_content_length_ok)

lemma header_field_loop_ok:
  assumes "hp_errno (prs r) = HPE_OK" "header_state (prs r) \<in> field_hstates" "rest = drop (cur r) data"
    "cur r \<le> length data"
  shows "case header_field_loop rest r of
      Inl out \<Rightarrow> outcome_ok (length data) r0 out
    | Inr r' \<Rightarrow> hp_errno (prs r') = HPE_OK \<and> p_state r' = p_state r \<and> (\<forall>m. get_mark m r' = get_mark m r)
        \<and> header_state (prs r') \<in> field_hstates \<and> nread (prs r') = nread (prs r) \<and> cur r \<le> cur r'
        \<and> cur r' \<le> length data"
  using assms
proof (induction rest r rule: header_field_loop.induct)
  case (2 ch rest r)
  define r1 where "r1 = r\<lparr>cur_ch := ch\<rparr>"
  have lt: "cur r < length data" using 2(4,5) by (metis drop_eq_Nil2 list.distinct(1) not_le)
  have ok: "char_ok field_hstates (prs r1) (header_field_char (TOKEN ch) ch (prs r1))"
    using 2(3) by (intro header_field_char_ok) (simp add: r1_def)
  show ?case
  proof (cases "TOKEN ch = NUL")
    case True
    then show ?thesis using 2(2,3) lt by simp
  next
    case False
    show ?thesis
    proof (cases "header_field_char (TOKEN ch) ch (prs r1)")
      case (Step pr)
      let ?r2 = "r1\<lparr>prs := pr, cur := cur r1 + 1\<rparr>"
      have rest: "rest = drop (cur ?r2) data"
        using 2(4) by (simp add: r1_def) (metis drop_Suc list.sel(3) tl_drop)
      have "case header_field_loop rest ?r2 of
          Inl out \<Rightarrow> outcome_ok (length data) r0 out
        | Inr r' \<Rightarrow> hp_errno (prs r') = HPE_OK \<and> p_state r' = p_state ?r2 \<and> (\<forall>m. get_mark m r' = get_mark m ?r2)
            \<and> header_state (prs r') \<in> field_hstates \<and> nread (prs r') = nread (prs ?r2) \<and> cur ?r2 \<le> cur r'
            \<and> cur r' \<le> length data"
        using 2(1)[OF r1_def refl False, of pr] Step ok 2(2) lt rest by (simp add: char_ok_def r1_def)
      then show ?thesis using Step ok False
        by (simp add: Let_def char_ok_def r1_def split: sum.splits)
    next
      case (Err e pr)
      then show ?thesis using ok False lt
        by (auto simp: Let_def char_ok_def r1_def intro!: fail_with_ok)
    qed (use ok in \<open>simp add: char_ok_def\<close>)
  qed
qed simp


lemma count_and_then:
  assumes "hp_errno (prs r1) = HPE_OK" "cur r1 \<le> n"
    and "\<And>r'. r' = upd (\<lambda>pr. pr\<lparr>nread := nread pr + of_nat v\<rparr>) r1 \<Longrightarrow> uint (nread (prs r')) \<le> HTTP_MAX_HEADER_SIZE \<Longrightarrow>
      outcome_ok n r0 (k r')"
  shows "outcome_ok n r0 (and_then (COUNT_HEADER_SIZE v r1) k)"
proof (cases "COUNT_HEADER_SIZE v r1")
  case (Inl out)
  then show ?thesis using COUNT_ok[OF assms(1,2), of r0 v] by (simp add: and_then_def)
next
  case (Inr r')
  have c: "r' = upd (\<lambda>pr. pr\<lparr>nread := nread pr + of_nat v\<rparr>) r1 \<and> uint (nread (prs r')) \<le> HTTP_MAX_HEADER_SIZE"
    using COUNT_ok[OF assms(1,2), of r0 v] unfolding Inr sum.case by assumption
  show ?thesis using assms(3)[OF conjunct1[OF c] conjunct2[OF c]] Inr by (simp add: and_then_def)
qed

definition value_hstate :: "hstate \<Rightarrow> bool" where
  "value_hstate h \<longleftrightarrow> h \<noteq> h_connection \<and> h \<noteq> h_transfer_encoding"

text \<open>What a character of a value may do.\<close>

definition value_ok :: "'e http_parser \<Rightarrow> (hstate \<times> 'e http_parser) step_result \<Rightarrow> bool" where
  "value_ok pr out = (case out of
      Step (h, pr') \<Rightarrow> nread pr' = nread pr \<and> hp_errno pr' = hp_errno pr \<and> value_hstate h
    | Err e (h, pr') \<Rightarrow> e \<noteq> HPE_OK \<and> e \<noteq> HPE_PAUSED | Assert \<Rightarrow> False)"

lemma value_okI:
  "nread pr' = nread pr \<Longrightarrow> hp_errno pr' = hp_errno pr \<Longrightarrow> value_hstate h \<Longrightarrow> value_ok pr (Step (h, pr'))"
  "e \<noteq> HPE_OK \<Longrightarrow> e \<noteq> HPE_PAUSED \<Longrightarrow> value_ok pr (Err e (h, pr'))"
  by (simp_all add: value_ok_def)

lemma value_hstates [simp]:
  "value_hstate h_general" "value_hstate h_content_length" "value_hstate h_matching_transfer_encoding_chunked"
  "value_hstate h_transfer_encoding_chunked" "value_hstate h_matching_connection_token_start"
  "value_hstate h_matching_connection_token" "value_hstate h_matching_connection_keep_alive"
  "value_hstate h_matching_connection_close" "value_hstate h_matching_connection_upgrade"
  "value_hstate h_connection_keep_alive" "value_hstate h_connection_close" "value_hstate h_connection_upgrade"
  "\<not> value_hstate h_connection" "\<not> value_hstate h_transfer_encoding"
  by (simp_all add: value_hstate_def)

lemma match_value_ok [simp]:
  "value_hstate h1 \<Longrightarrow> value_hstate h2 \<Longrightarrow> value_hstate h3 \<Longrightarrow> value_ok pr (match_value w h1 h2 h3 c pr)"
  by (cases "match_word w c (hp_index (next_index pr))") (auto simp: match_value_def Let_def intro!: value_okI)

lemma token_ok [simp]:
  "value_hstate h \<Longrightarrow> value_ok pr (connection_token_end f h ch pr)"
  "value_ok pr (content_length_digit ch pr)"
  "value_hstate (connection_token_start c)"
  by (auto simp: connection_token_end_def content_length_digit_def connection_token_start_def intro!: value_okI)

lemma header_value_char_ok:
  assumes "value_hstate h"
  shows "value_ok pr (header_value_char ch h pr)"
  using assms unfolding header_value_char_def Let_def
  by (cases h; simp only: hstate.case; auto simp del: LOWER.simps intro!: value_okI)

context http_client begin

lemma header_field_ok [state_ok]:
  assumes "run_ok True r" "cur r < length data" "p_state r = s_header_field"
  shows "outcome_ok (length data) r (do_header_field st data r)"
proof (cases "header_field_loop (drop (cur r) data) r")
  case (Inl out)
  then show ?thesis
    using assms header_field_loop_ok[of r "drop (cur r) data" data r]
    by (simp add: do_header_field_def and_then_def run_ok_def parser_ok_def)
next
  case (Inr r1)
  have loop: "hp_errno (prs r1) = HPE_OK" "p_state r1 = s_header_field" "\<And>m. get_mark m r1 = get_mark m r"
    "header_state (prs r1) \<in> field_hstates" "cur r \<le> cur r1" "cur r1 \<le> length data"
    using assms header_field_loop_ok[of r "drop (cur r) data" data r] Inr
    by (simp_all add: run_ok_def parser_ok_def)
  have "outcome_ok (length data) r (and_then (COUNT_HEADER_SIZE (cur r1 - cur r) r1) (\<lambda>r2.
       if cur r2 = length data then Break (r2\<lparr>cur := cur r2 - 1\<rparr>)
       else if cur_ch r2 = CHR '':'' then
         and_then (CALLBACK_DATA st data M_header_field (UPDATE_STATE s_header_value_discard_ws r2)) Break
       else fail_with HPE_INVALID_HEADER_TOKEN r2))" (is "outcome_ok _ _ (and_then _ ?k)")
  proof (rule count_and_then[OF loop(1,6)])
    fix r2 assume r2: "r2 = upd (\<lambda>pr. pr\<lparr>nread := nread pr + of_nat (cur r1 - cur r)\<rparr>) r1"
      "uint (nread (prs r2)) \<le> HTTP_MAX_HEADER_SIZE"
    have m: "get_mark m r2 = get_mark m r" for m using r2(1) loop(3) by simp
    have f: "cur r2 = cur r1" "p_state r2 = s_header_field" "hp_errno (prs r2) = HPE_OK"
      "header_state (prs r2) \<in> field_hstates" using r2(1) loop by simp_all
    have "marks_ok (r2\<lparr>cur := cur r2 - 1\<rparr>)" if "cur r2 = length data"
      using assms loop(5) f(1,2) m that by (fastforce simp: marks_ok_def run_ok_def)
    then have "outcome_ok (length data) r (Break (r2\<lparr>cur := cur r2 - 1\<rparr>))" if "cur r2 = length data"
      using assms(2) loop(5) f r2(2) that by (simp add: outcome_ok.simps run_ok_def parser_ok_def chunk_states_def)
    moreover have "outcome_ok (length data) r
        (and_then (CALLBACK_DATA st data M_header_field (UPDATE_STATE s_header_value_discard_ws r2)) Break)"
      if "cur r2 < length data"
      using that loop(5) f r2(2) m assms by (intro data_break only_mark[OF assms(1)]) (auto simp: easy_ok)
    moreover have "outcome_ok (length data) r (fail_with HPE_INVALID_HEADER_TOKEN r2)"
      using loop(6) f(1) by (intro fail_with_ok) simp_all
    ultimately show "outcome_ok (length data) r (?k r2)" using loop(6) f(1) by (cases "cur r2 = length data") auto
  qed
  then show ?thesis using Inr by (simp add: do_header_field_def and_then_def[of "Inr r1"])
qed


text \<open>What the loop over a value leaves, from \<open>r\<close>, when it ends with the header state \<open>h\<close>.\<close>

definition value_left :: "nat \<Rightarrow> 'e run \<Rightarrow> hstate \<Rightarrow> 'e run \<Rightarrow> bool" where
  "value_left n r h r' \<longleftrightarrow> hp_errno (prs r') = HPE_OK \<and> nread (prs r') = nread (prs r) \<and> cur r \<le> cur r' \<and> cur r' \<le> n
     \<and> (p_state r' = s_header_value \<and> (\<forall>m. get_mark m r' = get_mark m r) \<and> value_hstate h
        \<or> p_state r' = s_header_almost_done \<and> marks_ok r' \<and> cur r' < n)"

lemma value_left_trans:
  "value_left n r1 h r' \<Longrightarrow> nread (prs r1) = nread (prs r) \<Longrightarrow> cur r \<le> cur r1 \<Longrightarrow>
     (\<And>m. get_mark m r1 = get_mark m r) \<Longrightarrow> value_left n r h r'"
  by (auto simp: value_left_def)

lemma value_cr_ok:
  assumes "run_ok b r0" "p_state r0 = s_header_value" "\<And>m. get_mark m r = get_mark m r0" "cur r0 \<le> cur r"
    and "hp_errno (prs r) = HPE_OK" "nread (prs r) = nread (prs r0)" "cur r < length data"
  shows "case value_cr st data h r of
      Inl out \<Rightarrow> outcome_ok (length data) r0 out
    | Inr r' \<Rightarrow> value_left (length data) r h r'"
proof -
  let ?r1 = "upd (\<lambda>pr. pr\<lparr>header_state := h\<rparr>) (UPDATE_STATE s_header_almost_done r)"
  have mk: "get_mark m ?r1 = Some j \<Longrightarrow> m = M_header_value \<and> j \<le> cur ?r1" for m j
    using assms by (intro only_mark[OF assms(1)]) auto
  have ok: "hp_errno (prs ?r1) = HPE_OK" "parser_ok False (p_state ?r1) (prs ?r1)"
    using assms run_counted[OF assms(1)] by (auto simp: easy_ok)
  have cb: "case callback_data st data M_header_value (cur ?r1) (cur ?r1 + 1) ?r1 of
      Inl out \<Rightarrow> \<exists>r'. out = Return r' (cur ?r1 + 1) \<and> parser_inv (prs r') \<and> hp_errno (prs r') \<noteq> HPE_OK
    | Inr r' \<Rightarrow> same_run ?r1 r' \<and> (\<forall>m'. get_mark m' r' = (if m' = M_header_value then None else get_mark m' ?r1))"
    using mk[of M_header_value] assms(7) by (intro data_cases[OF ok]) auto
  have none: "get_mark m' ?r1 = None" if "m' \<noteq> M_header_value" for m'
    using mk that by (cases "get_mark m' ?r1") auto
  show ?thesis
  proof (cases "value_cr st data h r")
    case (Inl out)
    then show ?thesis using cb assms(7) by (auto simp: value_cr_def outcome_ok.simps)
  next
    case (Inr r')
    then have s: "same_run ?r1 r'" and m: "\<And>m'. get_mark m' r' = None"
      using cb none by (auto simp: value_cr_def)
    then show ?thesis using Inr assms(5,7)
      by (simp add: value_left_def same_run_def alike_def marks_ok_def)
  qed
qed

lemma value_lf_ok:
  assumes "run_ok b r0" "p_state r0 = s_header_value" "\<And>m. get_mark m r = get_mark m r0" "cur r0 \<le> cur r"
    and "hp_errno (prs r) = HPE_OK" "cur r < length data"
  shows "outcome_ok (length data) r0 (value_lf st data start h r)"
  unfolding value_lf_def
proof (rule count_and_then)
  fix r1 assume r1: "r1 = upd (\<lambda>pr. pr\<lparr>nread := nread pr + of_nat (cur r - start)\<rparr>) (UPDATE_STATE s_header_almost_done r)"
    "uint (nread (prs r1)) \<le> HTTP_MAX_HEADER_SIZE"
  let ?r2 = "upd (\<lambda>pr. pr\<lparr>header_state := h\<rparr>) r1"
  have f: "cur ?r2 = cur r" "p_state ?r2 = s_header_almost_done" "hp_errno (prs ?r2) = HPE_OK"
    "\<And>m. get_mark m ?r2 = get_mark m r0" "uint (nread (prs ?r2)) \<le> HTTP_MAX_HEADER_SIZE" using r1 assms by simp_all
  have mk: "get_mark m ?r2 = Some j \<Longrightarrow> m = M_header_value \<and> j \<le> cur ?r2" for m j
    by (rule only_mark[OF assms(1) _ f(4)]) (use assms(2,4) f(1) in simp_all)
  show "outcome_ok (length data) r0 (and_then (CALLBACK_DATA_NOADVANCE st data M_header_value ?r2) Reexec)"
    by (rule data_reexec[OF mk]) (use f assms(2,4,6) in \<open>simp_all add: easy_ok reexec_rank_def\<close>)
qed (use assms in simp_all)


lemma header_value_loop_ok:
  assumes "run_ok b r0" "p_state r0 = s_header_value"
    and "\<And>m. get_mark m r = get_mark m r0" "cur r0 \<le> cur r" "hp_errno (prs r) = HPE_OK" "nread (prs r) = nread (prs r0)"
    and "p_state r = s_header_value" "value_hstate h" "rest = drop (cur r) data" "cur r \<le> length data"
  shows "case header_value_loop st data start rest h r of
      Inl out \<Rightarrow> outcome_ok (length data) r0 out
    | Inr (h', r') \<Rightarrow> value_left (length data) r h' r'"
  using assms(3-)
proof (induction "length rest" arbitrary: rest h r rule: less_induct)
  case less
  note r = less.prems
  show ?case
  proof (cases rest)
    case Nil
    then show ?thesis using r by (simp add: value_left_def)
  next
    case (Cons ch rest')
    define r1 where "r1 = r\<lparr>cur_ch := ch\<rparr>"
    have lt: "cur r < length data" using r(7) Cons by (metis drop_eq_Nil2 list.distinct(1) not_le)
    have f: "\<And>m. get_mark m r1 = get_mark m r0" "cur r1 = cur r" "prs r1 = prs r" "p_state r1 = s_header_value"
      using r(1,5) by (simp_all add: r1_def)
    have drop: "drop n rest = drop (cur r + n) data" for n using r(7) by (simp add: add.commute)
    have len: "length rest = length data - cur r" using r(7) by simp
    have IH: "case header_value_loop st data start (drop n rest) h' (r1\<lparr>prs := pr, cur := cur r1 + n\<rparr>) of
        Inl out \<Rightarrow> outcome_ok (length data) r0 out
      | Inr (h', r') \<Rightarrow> value_left (length data) r h' r'"
      if n: "0 < n" "n \<le> length rest" and pr: "nread pr = nread (prs r)" "hp_errno pr = HPE_OK" "value_hstate h'" for n h' pr
    proof -
      let ?r = "r1\<lparr>prs := pr, cur := cur r1 + n\<rparr>"
      have "case header_value_loop st data start (drop n rest) h' ?r of
          Inl out \<Rightarrow> outcome_ok (length data) r0 out
        | Inr (h', r') \<Rightarrow> value_left (length data) ?r h' r'"
        by (rule less.hyps) (use n pr r(1-6) lt f len in \<open>auto simp: drop\<close>)
      moreover have "value_left (length data) r h'' r'" if "value_left (length data) ?r h'' r'" for h'' r'
        by (rule value_left_trans[OF that]) (use pr f r(1) in auto)
      ultimately show ?thesis by (auto split: sum.splits)
    qed
    show ?thesis
    proof (cases "ch = CR \<or> ch = LF \<or> \<not> lenient_http_headers (prs r1) \<and> \<not> IS_HEADER_CHAR ch")
      case True
      have eq: "value_left (length data) r1 h x = value_left (length data) r h x" for x
        using f(1-3) r(1) by (simp add: value_left_def)
      have "case value_cr st data h r1 of Inl out \<Rightarrow> outcome_ok (length data) r0 out
          | Inr r' \<Rightarrow> value_left (length data) r h r'"
        using value_cr_ok[OF assms(1,2) f(1), of data h] r(2-4) lt f(2,3) by (simp add: eq split: sum.splits)
      moreover have "outcome_ok (length data) r0 (value_lf st data start h r1)"
        using r(2,3) lt f by (intro value_lf_ok[OF assms(1,2) f(1)]) simp_all
      moreover have "outcome_ok (length data) r0 (fail_with HPE_INVALID_HEADER_TOKEN r1)"
        using lt f by (intro fail_with_ok) simp_all
      moreover have "header_value_loop st data start rest h r =
          (if ch = CR then (case value_cr st data h r1 of Inl out \<Rightarrow> Inl out | Inr r2 \<Rightarrow> Inr (h, r2))
           else if ch = LF then Inl (value_lf st data start h r1) else Inl (fail_with HPE_INVALID_HEADER_TOKEN r1))"
        using True unfolding Cons header_value_loop.simps r1_def[symmetric] Let_def
        by (cases "ch = CR"; cases "ch = LF"; simp)
      ultimately show ?thesis by (simp split: sum.splits)
    next
      case False
      then have ne: "ch \<noteq> CR" "ch \<noteq> LF" "lenient_http_headers (prs r1) \<or> IS_HEADER_CHAR ch" by auto
      show ?thesis
      proof (cases "h = h_general")
        case True
        have "0 < skip_general rest" "skip_general rest \<le> length rest"
          using ne Cons skip_general_pos[of ch rest'] by (auto simp: not_eol_def skip_general_def Let_def length_takeWhile_le)
        then have "case header_value_loop st data start (drop (skip_general rest) rest) h
              (r1\<lparr>prs := prs r1, cur := cur r1 + skip_general rest\<rparr>) of
            Inl out \<Rightarrow> outcome_ok (length data) r0 out | Inr (h', r') \<Rightarrow> value_left (length data) r h' r'"
          using r(3,6) f(3) by (intro IH) simp_all
        moreover have "header_value_loop st data start rest h r =
            header_value_loop st data start (drop (skip_general rest) rest) h
              (r1\<lparr>prs := prs r1, cur := cur r1 + skip_general rest\<rparr>)"
          using ne True unfolding Cons header_value_loop.simps r1_def[symmetric] Let_def by auto
        ultimately show ?thesis by (simp only:)
      next
        case False
        have ok: "value_ok (prs r1) (header_value_char ch h (prs r1))" by (rule header_value_char_ok[OF r(6)])
        show ?thesis
        proof (cases "header_value_char ch h (prs r1)")
          case (Step x)
          then obtain h' pr where x: "header_value_char ch h (prs r1) = Step (h', pr)" by (cases x) auto
          have "case header_value_loop st data start (drop 1 rest) h' (r1\<lparr>prs := pr, cur := cur r1 + 1\<rparr>) of
              Inl out \<Rightarrow> outcome_ok (length data) r0 out | Inr (h', r') \<Rightarrow> value_left (length data) r h' r'"
            using ok x r(3) f(3) Cons by (intro IH) (simp_all add: value_ok_def)
          moreover have "header_value_loop st data start rest h r =
              header_value_loop st data start (drop 1 rest) h' (r1\<lparr>prs := pr, cur := cur r1 + 1\<rparr>)"
            using ne False x unfolding Cons header_value_loop.simps r1_def[symmetric] Let_def by auto
          ultimately show ?thesis by (simp only:)
        next
          case (Err e x)
          then obtain h' pr where x: "header_value_char ch h (prs r1) = Err e (h', pr)" by (cases x) auto
          have "header_value_loop st data start rest h r = Inl (fail_with e (r1\<lparr>prs := pr\<lparr>header_state := h'\<rparr>\<rparr>))"
            using ne False x unfolding Cons header_value_loop.simps r1_def[symmetric] Let_def by auto
          then show ?thesis using ok x f lt by (auto simp: value_ok_def intro!: fail_with_ok)
        qed (use ok in \<open>simp add: value_ok_def\<close>)
      qed
    qed
  qed
qed


lemma header_value_ok [state_ok]:
  assumes "run_ok True r" "cur r < length data" "p_state r = s_header_value"
  shows "outcome_ok (length data) r (do_header_value st data r)"
proof -
  note ok = run_okD[OF assms(1)]
  have h: "value_hstate (header_state (prs r))" using ok(2) assms(3) by (simp add: parser_ok_def value_hstate_def)
  have loop: "case header_value_loop st data (cur r) (drop (cur r) data) (header_state (prs r)) r of
      Inl out \<Rightarrow> outcome_ok (length data) r out
    | Inr (h', r') \<Rightarrow> value_left (length data) r h' r'"
    using assms ok h by (intro header_value_loop_ok[OF assms(1,3)]) auto
  show ?thesis
  proof (cases "header_value_loop st data (cur r) (drop (cur r) data) (header_state (prs r)) r")
    case (Inl out)
    then show ?thesis using loop by (simp add: do_header_value_def)
  next
    case (Inr x)
    then obtain h r1 where x: "header_value_loop st data (cur r) (drop (cur r) data) (header_state (prs r)) r = Inr (h, r1)"
      by (cases x) auto
    then have left: "value_left (length data) r h r1" using loop by simp
    let ?r = "upd (\<lambda>pr. pr\<lparr>header_state := h\<rparr>) r1"
    have "outcome_ok (length data) r (and_then (COUNT_HEADER_SIZE (cur r1 - cur r) ?r)
        (\<lambda>r2. Break (if cur r2 = length data then r2\<lparr>cur := cur r2 - 1\<rparr> else r2)))"
    proof (rule count_and_then)
      fix r2 assume "r2 = upd (\<lambda>pr. pr\<lparr>nread := nread pr + of_nat (cur r1 - cur r)\<rparr>) ?r"
        and n: "uint (nread (prs r2)) \<le> HTTP_MAX_HEADER_SIZE"
      then have f: "cur r2 = cur r1" "p_state r2 = p_state r1" "hp_errno (prs r2) = HPE_OK" "header_state (prs r2) = h"
        "\<And>m. get_mark m r2 = get_mark m r1" using left by (simp_all add: value_left_def)
      let ?r3 = "if cur r2 = length data then r2\<lparr>cur := cur r2 - 1\<rparr> else r2"
      have c: "cur r \<le> cur ?r3" "cur ?r3 < length data" using f(1) left assms(2) by (auto simp: value_left_def)
      have "marks_ok ?r3"
      proof (cases "p_state r1 = s_header_value")
        case True
        then show ?thesis using ok(3) left f c assms(3) by (fastforce simp: marks_ok_def value_left_def)
      next
        case False
        then have "cur r1 < length data" "marks_ok r1" using left by (auto simp: value_left_def)
        then show ?thesis using f by (simp add: marks_ok_def)
      qed
      moreover have "parser_ok False (p_state ?r3) (prs ?r3)"
        using left n f by (auto simp: value_left_def parser_ok_def chunk_states_def value_hstate_def)
      ultimately show "outcome_ok (length data) r (Break ?r3)"
        using c f(3) by (simp add: outcome_ok.simps run_ok_def)
    qed (use left in \<open>simp_all add: value_left_def\<close>)
    then show ?thesis using x by (simp add: do_header_value_def)
  qed
qed

lemma header_done_fields [simp]: "nread (header_done pr) = nread pr" "hp_errno (header_done pr) = hp_errno pr"
  by (cases "header_state pr"; simp only: header_done_def hstate.case next_index_fields)+

lemma value_lws_ok [state_ok]:
  assumes "run_ok True r" "cur r < n" "p_state r = s_header_value_lws"
  shows "outcome_ok n r (do_header_value_lws r)"
  using assms run_counted[OF assms(1)] run_okD(1)[OF assms(1)]
  by (auto simp: do_header_value_lws_def easy_mark easy_ok reexec_rank_def intro!: plain_reexec[OF assms(1)])

lemma discard_lws_ok [state_ok]:
  assumes "run_ok True r" "cur r < length data" "p_state r = s_header_value_discard_lws"
  shows "outcome_ok (length data) r (do_header_value_discard_lws st data r)"
proof -
  let ?r1 = "UPDATE_STATE s_header_field_start (MARK M_header_value (upd header_done r))"
  have n: "get_mark m' r = None" for m'
    using assms(3) by (intro marks_none[OF run_okD(3)[OF assms(1)]]) (simp add: easy_mark)
  have "outcome_ok (length data) r (and_then (CALLBACK_DATA_NOADVANCE st data M_header_value ?r1) Reexec)"
    using n assms(2,3) run_counted[OF assms(1)] run_okD(1)[OF assms(1)]
    by (intro data_reexec) (auto simp: get_MARK easy_ok reexec_rank_def split: if_splits)
  then show ?thesis using assms by (auto simp: do_header_value_discard_lws_def intro!: easy_break)
qed

end

subsection \<open>The end of the headers, bodies and chunks\<close>

lemma new_message_easy [simp]: "easy (NEW_MESSAGE pr)"
  by (simp add: NEW_MESSAGE_def start_state_def)

lemma easy_run_break:
  assumes "easy (p_state r1)" "hp_errno (prs r1) = HPE_OK" "uint (nread (prs r1)) \<le> HTTP_MAX_HEADER_SIZE" "marks_ok r1"
    "cur r \<le> cur r1" "cur r1 < n"
  shows "outcome_ok n r (Break r1)"
  using assms by (simp add: outcome_ok.simps run_ok_def easy_ok)

context http_client begin

lemma message_complete_then:
  assumes "hp_errno (prs r1) = HPE_OK" "uint (nread (prs r1)) \<le> HTTP_MAX_HEADER_SIZE" "cur r1 < n"
    and k: "\<And>r'. hp_errno (prs r') = HPE_OK \<Longrightarrow> uint (nread (prs r')) \<le> HTTP_MAX_HEADER_SIZE \<Longrightarrow> easy (p_state r') \<Longrightarrow>
      cur r' = cur r1 \<Longrightarrow> hp_upgrade (prs r') = hp_upgrade (prs r1) \<Longrightarrow> (\<And>m. get_mark m r' = get_mark m r1) \<Longrightarrow>
      outcome_ok n r (k r')"
  shows "outcome_ok n r (and_then (message_complete st r1) k)"
  unfolding message_complete_def
proof (rule notify_then)
  fix r' assume s: "same_run (UPDATE_STATE (NEW_MESSAGE (prs r1)) r1) r'"
    and m: "\<And>m. get_mark m r' = get_mark m (UPDATE_STATE (NEW_MESSAGE (prs r1)) r1)"
  show "outcome_ok n r (k r')"
    using s m assms(2) by (intro k) (simp_all add: same_run_def alike_def)
qed (use assms in \<open>simp_all add: easy_ok\<close>)

text \<open>A message that ends in a state without a mark.\<close>

lemma message_complete_break:
  assumes "run_ok True r" "state_mark (p_state r) = None" "hp_errno (prs r1) = HPE_OK"
    "uint (nread (prs r1)) \<le> HTTP_MAX_HEADER_SIZE" "cur r1 = cur r" "cur r < n" "\<And>m. get_mark m r1 = get_mark m r"
  shows "outcome_ok n r (and_then (message_complete st r1) Break)"
    "hp_upgrade (prs r1) \<Longrightarrow> outcome_ok n r (and_then (message_complete st r1) (\<lambda>r2. RETURN (cur r2 + 1) r2))"
    "outcome_ok n r (and_then (message_complete st r1)
       (\<lambda>r2. if hp_upgrade (prs r2) then RETURN (cur r2 + 1) r2 else Break r2))"
proof -
  have brk: "outcome_ok n r (Break r')"
    if "hp_errno (prs r') = HPE_OK" "uint (nread (prs r')) \<le> HTTP_MAX_HEADER_SIZE" "easy (p_state r')"
      "cur r' = cur r1" "\<And>m. get_mark m r' = get_mark m r1" for r'
    using that assms no_marks_ok[OF assms(1,2), of r'] by (intro easy_run_break) auto
  have ret: "outcome_ok n r (RETURN (cur r' + 1) r')"
    if "hp_errno (prs r') = HPE_OK" "uint (nread (prs r')) \<le> HTTP_MAX_HEADER_SIZE" "easy (p_state r')"
      "cur r' = cur r1" "hp_upgrade (prs r')" for r'
    using that assms(5,6) by (intro RETURN_ok) (simp_all add: easy_ok)
  show "outcome_ok n r (and_then (message_complete st r1) Break)"
    "hp_upgrade (prs r1) \<Longrightarrow> outcome_ok n r (and_then (message_complete st r1) (\<lambda>r2. RETURN (cur r2 + 1) r2))"
    "outcome_ok n r (and_then (message_complete st r1)
       (\<lambda>r2. if hp_upgrade (prs r2) then RETURN (cur r2 + 1) r2 else Break r2))"
    using assms(3-6) brk ret by (intro message_complete_then; auto)+
qed

lemma message_done_ok [state_ok]:
  assumes "run_ok True r" "cur r < n" "p_state r = s_message_done"
  shows "outcome_ok n r (do_message_done st r)"
  unfolding do_message_done_def
  using assms run_counted[OF assms(1)] run_okD(1)[OF assms(1)]
  by (intro message_complete_break(3)[OF assms(1)]) (simp_all add: easy_mark)

lemma headers_done_ok [state_ok]:
  assumes "run_ok True r" "cur r < n" "p_state r = s_headers_done"
  shows "outcome_ok n r (do_headers_done st r)"
proof -
  let ?r1 = "upd (\<lambda>pr. pr\<lparr>nread := 0\<rparr>) r"
  have e: "hp_errno (prs r) = HPE_OK" "state_mark (p_state r) = None" using run_okD(1)[OF assms(1)] assms(3) by (simp_all add: easy_mark)
  have max: "(0 :: int) \<le> HTTP_MAX_HEADER_SIZE" by (simp add: HTTP_MAX_HEADER_SIZE_def)
  have m: "outcome_ok n r (and_then (message_complete st ?r1) Break)"
    "hp_upgrade (prs ?r1) \<Longrightarrow> outcome_ok n r (and_then (message_complete st ?r1) (\<lambda>r2. RETURN (cur r2 + 1) r2))"
    using e assms(2) max by (intro message_complete_break[OF assms(1)]; simp)+
  have b: "outcome_ok n r (Break (UPDATE_STATE s ?r1))"
    if "parser_ok False s ((prs r)\<lparr>nread := 0\<rparr>)" for s
    using e assms(2) that by (intro plain_break[OF assms(1)]) simp_all
  have chunk: "outcome_ok n r (Break (UPDATE_STATE s_chunk_size_start ?r1))" if "has_flag F_CHUNKED (prs ?r1)"
    using that max by (intro b) (simp add: parser_ok_def has_flag_def)
  have body: "outcome_ok n r (Break (UPDATE_STATE s_body_identity ?r1))"
    if "content_length (prs ?r1) \<noteq> 0" "content_length (prs ?r1) \<noteq> ULLONG_MAX"
    using that max by (intro b) (simp add: parser_ok_def chunk_states_def)
  have eof: "outcome_ok n r (Break (UPDATE_STATE s_body_identity_eof ?r1))"
    using max by (intro b) (simp add: parser_ok_def chunk_states_def)
  have fail: "outcome_ok n r (fail_with HPE_STRICT r)" using assms(2) by (intro fail_with_ok) simp_all
  show ?thesis
    unfolding do_headers_done_def Let_def using m chunk body eof fail by (auto simp only: if_split)
qed

lemma headers_almost_done_ok [state_ok]:
  assumes "run_ok True r" "cur r < n" "p_state r = s_headers_almost_done"
  shows "outcome_ok n r (do_headers_almost_done st r)"
proof -
  have e: "hp_errno (prs r) = HPE_OK" "state_mark (p_state r) = None" and c: "uint (nread (prs r)) \<le> HTTP_MAX_HEADER_SIZE"
    using run_okD(1)[OF assms(1)] assms(3) run_counted[OF assms(1)] by (simp_all add: easy_mark)
  have rank: "reexec_rank s_message_done < reexec_rank (p_state r)" "reexec_rank s_headers_done < reexec_rank (p_state r)"
    using assms(3) by (simp_all add: reexec_rank_def)
  have trailing: "outcome_ok n r (and_then (callback_notify HPE_CB_chunk_complete (on_chunk_complete st) (cur r)
                    (UPDATE_STATE s_message_done r)) Reexec)"
  proof (rule notify_then)
    fix r' assume s: "same_run (UPDATE_STATE s_message_done r) r'"
      and m: "\<And>m. get_mark m r' = get_mark m (UPDATE_STATE s_message_done r)"
    show "outcome_ok n r (Reexec r')"
      using s m rank(1) by (intro plain_reexec[OF assms(1,2) e(2)]) (simp_all add: same_run_def easy_ok alike_def c)
  qed (use e c assms(2) in \<open>simp_all add: easy_ok\<close>)
  define r1 where "r1 = upd (\<lambda>pr. pr\<lparr>hp_upgrade := wants_upgrade pr\<rparr>) (UPDATE_STATE s_headers_done r)"
  define x where "x = (case on_headers_complete st of None \<Rightarrow> (0, prs r1) | Some f \<Rightarrow> f (prs r1))"
  have f: "hp_errno (prs r1) = HPE_OK" "uint (nread (prs r1)) \<le> HTTP_MAX_HEADER_SIZE" "cur r1 = cur r"
    "p_state r1 = s_headers_done" "\<And>m. get_mark m r1 = get_mark m r" using e c by (simp_all add: r1_def)
  have x: "nread (snd x) = nread (prs r1)" "hp_errno (snd x) = HPE_OK \<or> hp_errno (snd x) = HPE_PAUSED"
  proof -
    have "polite (prs r1) (snd (g (prs r1)))" if "on_headers_complete st = Some g" for g
      using that f(1) by (intro notify_polite[of "on_headers_complete st"]) simp_all
    then show "nread (snd x) = nread (prs r1)" "hp_errno (snd x) = HPE_OK \<or> hp_errno (snd x) = HPE_PAUSED"
      using f(1) by (auto simp: x_def polite_def alike_def split: option.split)
  qed
  have err: "outcome_ok n r (RETURN (cur r1) (r1\<lparr>prs := (snd x)\<lparr>hp_errno := HPE_CB_headers_complete\<rparr>\<rparr>))"
    using f(3) assms(2) by (simp add: RETURN_def outcome_ok.simps parser_inv_def)
  have go: "outcome_ok n r (if hp_errno pr \<noteq> HPE_OK then RETURN (cur (r1\<lparr>prs := pr\<rparr>)) (r1\<lparr>prs := pr\<rparr>) else Reexec (r1\<lparr>prs := pr\<rparr>))"
    if "pr = snd x \<or> pr = add_flag F_SKIPBODY (snd x)" for pr
  proof (cases "hp_errno pr = HPE_OK")
    case True
    then show ?thesis
      using that f x(1) rank(2) by (auto intro!: plain_reexec[OF assms(1,2) e(2)] simp: easy_ok)
  next
    case False
    then have "hp_errno pr = HPE_PAUSED" using that x(2) by auto
    then show ?thesis using that f x(1) assms(2) by (auto simp: RETURN_def outcome_ok.simps parser_inv_def easy_ok)
  qed
  have call: "outcome_ok n r (case x of (rc, pr1) \<Rightarrow>
      if rc \<noteq> 0 \<and> rc \<noteq> 1 then RETURN (cur r1) (r1\<lparr>prs := pr1\<lparr>hp_errno := HPE_CB_headers_complete\<rparr>\<rparr>)
      else (let pr2 = (if rc = 1 then add_flag F_SKIPBODY pr1 else pr1); r2 = r1\<lparr>prs := pr2\<rparr>
            in if hp_errno pr2 \<noteq> HPE_OK then RETURN (cur r2) r2 else Reexec r2))"
    using err go unfolding case_prod_unfold Let_def by (simp only: if_split) auto
  have fail: "outcome_ok n r (fail_with e r)" if "e \<noteq> HPE_OK" "e \<noteq> HPE_PAUSED" for e
    using assms(2) that by (intro fail_with_ok) simp_all
  show ?thesis
    using trailing fail call
    unfolding do_headers_almost_done_def r1_def[symmetric] x_def[symmetric] Let_def by simp
qed

end

text \<open>The part of a body in the buffer.\<close>

lemma take_body_facts:
  fixes r :: "'e run"
  assumes "content_length (prs r) \<noteq> 0" "content_length (prs r) \<noteq> ULLONG_MAX" "cur r < n"
  shows "p_state (take_body n r) = p_state r" "cur r \<le> cur (take_body n r)" "cur (take_body n r) < n"
    "hp_errno (prs (take_body n r)) = hp_errno (prs r)" "nread (prs (take_body n r)) = nread (prs r)"
    "hp_flags (prs (take_body n r)) = hp_flags (prs r)"
    "content_length (prs (take_body n r)) \<noteq> ULLONG_MAX"
    "get_mark m (take_body n r) = get_mark m (MARK M_body r)"
proof -
  let ?c = "content_length (prs r)"
  have n: "0 < body_chunk n r" "body_chunk n r \<le> n - cur r" "body_chunk n r \<le> unat ?c"
    using assms(1,3) by (auto simp: body_chunk_def unat_gt_0)
  show "p_state (take_body n r) = p_state r" "cur r \<le> cur (take_body n r)" "cur (take_body n r) < n"
    "hp_errno (prs (take_body n r)) = hp_errno (prs r)" "nread (prs (take_body n r)) = nread (prs r)"
    "hp_flags (prs (take_body n r)) = hp_flags (prs r)" "get_mark m (take_body n r) = get_mark m (MARK M_body r)"
    using n assms(3) by (simp_all add: take_body_def Let_def)
  have max: "ULLONG_MAX = - 1" by (simp add: ULLONG_MAX_def)
  have le: "of_nat (body_chunk n r) \<le> ?c"
    using order_trans[OF mod_less_eq_dividend n(3)] by (simp add: word_le_nat_alt unat_of_nat)
  then have "?c - of_nat (body_chunk n r) \<le> ?c" by (rule word_sub_le)
  then have "?c - of_nat (body_chunk n r) \<noteq> ULLONG_MAX"
    using assms(2) max by (metis word_order.extremum_uniqueI)
  then show "content_length (prs (take_body n r)) \<noteq> ULLONG_MAX"
    by (simp add: take_body_def Let_def)
qed


lemma chunk_data_ok [state_ok]:
  assumes "run_ok True r" "cur r < length data" "p_state r = s_chunk_data"
  shows "outcome_ok (length data) r (do_chunk_data data r)"
proof -
  have ok: "has_flag F_CHUNKED (prs r)" "content_length (prs r) \<noteq> 0" "content_length (prs r) \<noteq> ULLONG_MAX"
    "hp_errno (prs r) = HPE_OK"
    using run_okD(1,2)[OF assms(1)] assms(3) by (simp_all add: parser_ok_def chunk_states_def)
  let ?r = "take_body (length data) r"
  note f = take_body_facts[OF ok(2,3) assms(2)]
  have "outcome_ok (length data) r (Break (if content_length (prs ?r) = 0 then UPDATE_STATE s_chunk_data_almost_done ?r else ?r))"
    using f ok(1,4) assms run_counted[OF assms(1)]
    by (intro mark_break[OF assms(1,2), where mk = M_body]) (auto simp: parser_ok_def has_flag_def)
  then show ?thesis using ok by (simp add: do_chunk_data_def Let_def)
qed

lemma unhex_range: "unhex c = - 1 \<or> 0 \<le> unhex c \<and> unhex c \<le> 15"
  by (auto simp: unhex_def Let_def)

lemma ULLONG_MAX_uint: "uint ULLONG_MAX = 18446744073709551615"
  by (simp add: ULLONG_MAX_def)

lemma hex_digit_uint: "unhex c \<noteq> - 1 \<Longrightarrow> uint (word_of_int (unhex c) :: 64 word) = unhex c"
  using unhex_range[of c] by (simp add: uint_word_of_int)

lemma hex_digit: "unhex c \<noteq> - 1 \<Longrightarrow> word_of_int (unhex c) \<noteq> ULLONG_MAX"
  using unhex_range[of c] hex_digit_uint[of c] ULLONG_MAX_uint by auto

text \<open>One more hexadecimal digit does not wrap, and is not the mark of a missing length.\<close>

lemma hex_shift:
  fixes c :: "64 word"
  assumes "c \<le> (ULLONG_MAX - 16) div 16" "unhex ch \<noteq> - 1"
  shows "uint (c * 16 + word_of_int (unhex ch)) = uint c * 16 + unhex ch" "c * 16 + word_of_int (unhex ch) \<noteq> ULLONG_MAX"
proof -
  have "uint c \<le> uint ((ULLONG_MAX - 16) div 16)" using assms(1) by (simp add: word_le_def)
  also have "\<dots> = 1152921504606846974" by (simp add: ULLONG_MAX_def uint_div)
  finally have c: "0 \<le> uint c" "uint c \<le> 1152921504606846974" by simp_all
  have d: "0 \<le> unhex ch" "unhex ch \<le> 15" using unhex_range[of ch] assms(2) by auto
  show u: "uint (c * 16 + word_of_int (unhex ch)) = uint c * 16 + unhex ch"
    using c d hex_digit_uint[OF assms(2)] by (simp add: uint_word_ariths)
  show "c * 16 + word_of_int (unhex ch) \<noteq> ULLONG_MAX"
    using u c d ULLONG_MAX_uint by auto
qed

lemma chunk_size_start_ok [state_ok]:
  assumes "run_ok True r" "cur r < n" "p_state r = s_chunk_size_start"
  shows "outcome_ok n r (do_chunk_size_start r)"
proof -
  let ?s = "UPDATE_STATE s_chunk_size (upd (\<lambda>pr. pr\<lparr>content_length := word_of_int (unhex (cur_ch r))\<rparr>) r)"
  have ok: "has_flag F_CHUNKED (prs r)" "nread (prs r) = 1" "hp_errno (prs r) = HPE_OK"
    using run_okD(1,2)[OF assms(1)] assms(3) by (simp_all add: parser_ok_def chunk_states_def)
  have "outcome_ok n r (Break ?s)" if "unhex (cur_ch r) \<noteq> -1"
    using ok assms hex_digit[OF that] run_counted[OF assms(1)]
    by (intro plain_break[OF assms(1)]) (simp_all add: parser_ok_def chunk_states_def has_flag_def)
  then show ?thesis using ok assms(2) by (auto simp: do_chunk_size_start_def intro!: fail_with_ok)
qed

lemma chunk_size_ok [state_ok]:
  assumes "run_ok True r" "cur r < n" "p_state r = s_chunk_size"
  shows "outcome_ok n r (do_chunk_size r)"
proof -
  have ok: "parser_ok True s_chunk_size (prs r)" "hp_errno (prs r) = HPE_OK" and ch: "has_flag F_CHUNKED (prs r)"
    using run_okD(1,2)[OF assms(1)] assms(3) by (simp_all add: parser_ok_def chunk_states_def)
  have nx: "outcome_ok n r (Break (UPDATE_STATE s r))" if "s \<in> {s_chunk_size_almost_done, s_chunk_parameters}" for s
    using ok that assms by (intro plain_break[OF assms(1)]) (auto simp: parser_ok_def chunk_states_def)
  have "outcome_ok n r (Break (upd (\<lambda>pr. pr\<lparr>content_length := content_length pr * 16 + word_of_int (unhex (cur_ch r))\<rparr>) r))"
    if "\<not> (ULLONG_MAX - 16) div 16 < content_length (prs r)" "unhex (cur_ch r) \<noteq> - 1"
    using ok hex_shift(2)[OF leI[OF that(1)] that(2)] assms
    by (intro plain_break[OF assms(1)]) (simp_all add: parser_ok_def chunk_states_def has_flag_def)
  then show ?thesis using ch assms(2) nx by (auto simp: do_chunk_size_def intro!: fail_with_ok)
qed

lemma chunk_parameters_ok [state_ok]:
  assumes "run_ok True r" "cur r < n" "p_state r = s_chunk_parameters"
  shows "outcome_ok n r (do_chunk_parameters r)"
  using run_okD(1,2)[OF assms(1)] assms
  by (auto simp: do_chunk_parameters_def parser_ok_def chunk_states_def has_flag_def intro!: plain_break[OF assms(1)])

lemma body_eof_ok [state_ok]:
  assumes "run_ok True r" "cur r < length data" "p_state r = s_body_identity_eof"
  shows "outcome_ok (length data) r (do_body_identity_eof data r)"
  using run_okD(1)[OF assms(1)] run_counted[OF assms(1)] assms unfolding do_body_identity_eof_def
  by (intro mark_break[OF assms(1,2), where mk = M_body]) (auto simp: parser_ok_def chunk_states_def)

context http_client begin

lemma body_identity_ok [state_ok]:
  assumes "run_ok True r" "cur r < length data" "p_state r = s_body_identity"
  shows "outcome_ok (length data) r (do_body_identity st data r)"
proof -
  have ok: "content_length (prs r) \<noteq> 0" "content_length (prs r) \<noteq> ULLONG_MAX" "hp_errno (prs r) = HPE_OK"
    using run_okD(1,2)[OF assms(1)] assms(3) by (simp_all add: parser_ok_def)
  let ?r = "take_body (length data) r"
  note f = take_body_facts[OF ok(1,2) assms(2)]
  have mk: "get_mark m' (UPDATE_STATE s_message_done ?r) = Some j \<Longrightarrow> m' = M_body \<and> j \<le> cur (UPDATE_STATE s_message_done ?r)" for m' j
    using f(2) f(8)[of m'] run_okD(3)[OF assms(1)] assms(3) by (auto simp: get_MARK marks_ok_def split: if_splits intro: order_trans)
  have "outcome_ok (length data) r (and_then (callback_data st data M_body (cur ?r + 1) (cur ?r) (UPDATE_STATE s_message_done ?r)) Reexec)"
    using f ok(3) run_counted[OF assms(1)] assms(3) by (intro data_reexec[OF mk]) (simp_all add: easy_ok reexec_rank_def)
  moreover have "outcome_ok (length data) r (Break ?r)" if "content_length (prs ?r) \<noteq> 0"
    using f ok that assms run_counted[OF assms(1)]
    by (intro mark_break[OF assms(1,2), where mk = M_body]) (simp_all add: parser_ok_def chunk_states_def)
  ultimately show ?thesis using ok by (simp add: do_body_identity_def Let_def)
qed

lemma chunk_size_almost_done_ok [state_ok]:
  assumes "run_ok True r" "cur r < n" "p_state r = s_chunk_size_almost_done"
  shows "outcome_ok n r (do_chunk_size_almost_done st r)"
proof -
  have ok: "content_length (prs r) \<noteq> ULLONG_MAX" "has_flag F_CHUNKED (prs r)" "hp_errno (prs r) = HPE_OK"
    using run_okD(1,2)[OF assms(1)] assms(3) by (simp_all add: parser_ok_def chunk_states_def)
  let ?r1 = "upd (\<lambda>pr. pr\<lparr>nread := 0\<rparr>) r"
  have max: "(0 :: int) \<le> HTTP_MAX_HEADER_SIZE" by (simp add: HTTP_MAX_HEADER_SIZE_def)
  have "outcome_ok n r (Break (UPDATE_STATE s_header_field_start (upd (add_flag F_TRAILING) ?r1)))"
    using ok(3) max assms by (intro plain_break[OF assms(1,2)]) (simp_all add: easy_ok)
  moreover have "outcome_ok n r (Break (UPDATE_STATE s_chunk_data ?r1))" if "content_length (prs r) \<noteq> 0"
    using ok that max assms by (intro plain_break[OF assms(1,2)]) (simp_all add: parser_ok_def has_flag_def)
  ultimately have "outcome_ok n r (Break (if content_length (prs ?r1) = 0
      then UPDATE_STATE s_header_field_start (upd (add_flag F_TRAILING) ?r1) else UPDATE_STATE s_chunk_data ?r1))"
    by simp
  then have "outcome_ok n r (and_then (callback_notify HPE_CB_chunk_header (on_chunk_header st) (cur r + 1)
      (if content_length (prs ?r1) = 0
      then UPDATE_STATE s_header_field_start (upd (add_flag F_TRAILING) ?r1) else UPDATE_STATE s_chunk_data ?r1)) Break)"
    using assms(2) by (intro notify_break) simp_all
  then show ?thesis using ok assms(2)
    by (auto simp: do_chunk_size_almost_done_def Let_def intro!: fail_with_ok)
qed

lemma chunk_data_almost_done_ok [state_ok]:
  assumes "run_ok True r" "cur r < length data" "p_state r = s_chunk_data_almost_done"
  shows "outcome_ok (length data) r (do_chunk_data_almost_done st data r)"
proof -
  have ok: "content_length (prs r) = 0" "has_flag F_CHUNKED (prs r)" "hp_errno (prs r) = HPE_OK"
    using run_okD(1,2)[OF assms(1)] assms(3) by (simp_all add: parser_ok_def chunk_states_def)
  have "outcome_ok (length data) r (and_then (CALLBACK_DATA st data M_body (UPDATE_STATE s_chunk_data_done r)) Break)"
    using ok assms run_counted[OF assms(1)]
    by (intro data_break only_mark[OF assms(1)]) (auto simp: parser_ok_def has_flag_def)
  then show ?thesis using ok assms(2) by (auto simp: do_chunk_data_almost_done_def intro!: fail_with_ok)
qed

lemma chunk_data_done_ok [state_ok]:
  assumes "run_ok True r" "cur r < n" "p_state r = s_chunk_data_done"
  shows "outcome_ok n r (do_chunk_data_done st r)"
proof -
  have ok: "has_flag F_CHUNKED (prs r)" "hp_errno (prs r) = HPE_OK"
    using run_okD(1,2)[OF assms(1)] assms(3) by (simp_all add: parser_ok_def chunk_states_def)
  have max: "(0 :: int) \<le> HTTP_MAX_HEADER_SIZE" by (simp add: HTTP_MAX_HEADER_SIZE_def)
  have "outcome_ok n r (Break (UPDATE_STATE s_chunk_size_start (upd (\<lambda>pr. pr\<lparr>nread := 0\<rparr>) r)))"
    using ok max assms by (intro plain_break[OF assms(1,2)]) (simp_all add: parser_ok_def has_flag_def)
  then have "outcome_ok n r (and_then (callback_notify HPE_CB_chunk_complete (on_chunk_complete st) (cur r + 1)
      (UPDATE_STATE s_chunk_size_start (upd (\<lambda>pr. pr\<lparr>nread := 0\<rparr>) r))) Break)"
    using assms(2) by (intro notify_break) simp_all
  then show ?thesis using ok assms(2) by (auto simp: do_chunk_data_done_def intro!: fail_with_ok)
qed

end

subsection \<open>The loop\<close>

text \<open>
  What a call with \<open>n\<close> bytes of data returns: it has consumed all of them, unless there is an error or
  the rest is in another protocol.
\<close>

definition call_ok :: "nat \<Rightarrow> nat \<Rightarrow> 'e http_parser \<Rightarrow> bool" where
  "call_ok n k pr \<longleftrightarrow> k \<le> n \<and> parser_inv pr \<and> (hp_errno pr = HPE_OK \<longrightarrow> k = n \<or> hp_upgrade pr)"

context http_client begin

lemma http_step_ok:
  assumes "run_ok True r" "cur r < length data"
  shows "outcome_ok (length data) r (http_step st data r)"
  unfolding http_step_def
  by (cases "p_state r"; simp only: pstate.case; rule state_ok[OF assms]; simp add: url_states_def)

lemma leftover_ok:
  assumes "hp_errno (prs r) = HPE_OK" "parser_ok False (p_state r) (prs r)" "cur r = length data"
    "\<And>m k. get_mark m r = Some k \<Longrightarrow> k \<le> cur r"
  shows "\<exists>r' k. leftover st data ms r = Return r' k \<and> call_ok (length data) k (prs r')"
  using assms
proof (induction ms arbitrary: r)
  case Nil
  then show ?case
    using alike_ok[of "prs r" "(prs r)\<lparr>hp_state := p_state r\<rparr>" False "p_state r"]
    by (simp add: RETURN_def call_ok_def parser_inv_def)
next
  case (Cons m ms)
  have cb: "case CALLBACK_DATA_NOADVANCE st data m r of
      Inl out \<Rightarrow> \<exists>r'. out = Return r' (cur r) \<and> parser_inv (prs r') \<and> hp_errno (prs r') \<noteq> HPE_OK
    | Inr r' \<Rightarrow> same_run r r' \<and> (\<forall>m'. get_mark m' r' = (if m' = m then None else get_mark m' r))"
    using Cons.prems by (intro data_cases) auto
  show ?case
  proof (cases "CALLBACK_DATA_NOADVANCE st data m r")
    case (Inl out)
    then show ?thesis using cb Cons.prems(3) by (auto simp: and_then_def call_ok_def)
  next
    case (Inr r1)
    then have "same_run r r1" and g: "\<And>m'. get_mark m' r1 = (if m' = m then None else get_mark m' r)" using cb by auto
    then have "\<exists>r' k. leftover st data ms r1 = Return r' k \<and> call_ok (length data) k (prs r')"
      using Cons.prems by (intro Cons.IH) (auto simp: same_run_def alike_ok split: if_splits)
    then show ?thesis using Inr by (simp add: and_then_def)
  qed
qed

lemma finish_call_ok:
  assumes "run_ok False r" "cur r = length data"
  shows "\<exists>r' k. finish_call st data r = Return r' k \<and> call_ok (length data) k (prs r')"
proof -
  have "marks_set r \<le> 1"
  proof (cases "state_mark (p_state r)")
    case None
    then show ?thesis using marks_none[OF run_okD(3)[OF assms(1)]] by (simp add: marks_set_def)
  next
    case (Some m)
    have none: "get_mark m' r = None" if "m' \<noteq> m" for m'
      using that Some run_okD(3)[OF assms(1)] by (cases "get_mark m' r") (auto simp: marks_ok_def)
    define b where "b \<longleftrightarrow> get_mark m r \<noteq> None"
    have eq: "get_mark m' r \<noteq> None \<longleftrightarrow> m' = m \<and> b" for m'
      using none[of m'] by (cases "m' = m") (auto simp: b_def)
    show ?thesis unfolding marks_set_def eq by (cases m) simp_all
  qed
  moreover have "\<exists>r' k. leftover st data ms r = Return r' k \<and> call_ok (length data) k (prs r')" for ms
    using assms by (intro leftover_ok) (auto simp: run_ok_def marks_ok_def)
  ultimately show ?thesis by (simp add: finish_call_def del: leftover.simps)
qed

text \<open>A byte of the headers is counted.\<close>

lemma count_byte:
  assumes "run_ok False r" "cur r < length data"
  shows "case COUNT_HEADER_SIZE 1 r of
      Inl out \<Rightarrow> \<exists>r' k. out = Return r' k \<and> call_ok (length data) k (prs r')
    | Inr r' \<Rightarrow> run_ok True r' \<and> cur r' = cur r"
proof (cases "COUNT_HEADER_SIZE 1 r")
  case (Inl out)
  then show ?thesis
    using COUNT_ok[of r "length data" r 1] run_okD(1)[OF assms(1)] assms(2) by (auto simp: outcome_ok.simps call_ok_def)
next
  case (Inr r')
  have r': "r' = upd (\<lambda>pr. pr\<lparr>nread := nread pr + of_nat 1\<rparr>) r \<and> uint (nread (prs r')) \<le> HTTP_MAX_HEADER_SIZE"
    using COUNT_ok[OF run_okD(1)[OF assms(1)] less_imp_le[OF assms(2)], of r 1] unfolding Inr sum.case by assumption
  note e = conjunct1[OF r'] and n = conjunct2[OF r', unfolded conjunct1[OF r']]
  have "parser_ok True (p_state r) (prs r')"
    using run_okD(2)[OF assms(1)] n unfolding e
    by (cases "p_state r = s_chunk_size_start") (simp_all add: parser_ok_def has_flag_def)
  then have "run_ok True r' \<and> cur r' = cur r"
    using assms(1) r' by (simp add: run_ok_def marks_ok_def)
  then show ?thesis using Inr by simp
qed

lemma uncounted:
  "run_ok False r \<Longrightarrow> \<not> PARSING_HEADER (p_state r) \<Longrightarrow> run_ok True r"
  by (cases "p_state r = s_chunk_size_start") (simp_all add: run_ok_def parser_ok_def PARSING_HEADER_def)

definition loop_measure :: "nat \<Rightarrow> bool \<Rightarrow> 'e run \<Rightarrow> nat" where
  "loop_measure n again r = (n - cur r) * 16 + (if again then reexec_rank (p_state r) else 8)"

lemma rank_bound: "reexec_rank s \<le> 4"
  by (simp add: reexec_rank_def)

lemma http_loop_returns:
  assumes "if again then run_ok True r \<and> cur r < length data else run_ok False r \<and> cur r \<le> length data"
  shows "\<exists>k pr'. http_loop st data again r = Some (k, pr') \<and> call_ok (length data) k pr'"
  using assms
proof (induction "loop_measure (length data) again r" arbitrary: again r rule: less_induct)
  case (less again r)
  let ?n = "length data"
  show ?case
  proof (cases again)
    case True
    then have r: "run_ok True r" "cur r < ?n" using less.prems by simp_all
    have out: "outcome_ok ?n r (http_step st data r)" by (rule http_step_ok[OF r])
    show ?thesis
    proof (cases "http_step st data r")
      case (Break r1)
      let ?r2 = "r1\<lparr>cur := cur r1 + 1\<rparr>"
      have r1: "run_ok False r1" "cur r \<le> cur r1" "cur r1 < ?n" using out Break by (simp_all add: outcome_ok.simps)
      have "\<exists>k pr'. http_loop st data False ?r2 = Some (k, pr') \<and> call_ok ?n k pr'"
        using True r1 r(2) by (intro less.hyps) (auto simp: loop_measure_def run_ok_def marks_ok_def le_SucI)
      then show ?thesis using True Break by (subst http_loop.simps) simp
    next
      case (Reexec r1)
      have r1: "run_ok True r1" "cur r \<le> cur r1" "cur r1 < ?n" "reexec_rank (p_state r1) < reexec_rank (p_state r)"
        using out Reexec by (simp_all add: outcome_ok.simps)
      have "\<exists>k pr'. http_loop st data True r1 = Some (k, pr') \<and> call_ok ?n k pr'"
        using True r1 r(2) by (intro less.hyps) (auto simp: loop_measure_def)
      then show ?thesis using True Reexec by (subst http_loop.simps) simp
    next
      case (Return r1 k)
      then show ?thesis using True out by (subst http_loop.simps) (simp add: outcome_ok.simps call_ok_def)
    next
      case Failed
      then show ?thesis using out by (simp add: outcome_ok.simps)
    qed
  next
    case False
    then have r: "run_ok False r" "cur r \<le> ?n" using less.prems by simp_all
    show ?thesis
    proof (cases "cur r = ?n")
      case True
      then show ?thesis using False finish_call_ok[OF r(1) True] by (subst http_loop.simps) auto
    next
      case ne: False
      let ?r1 = "r\<lparr>cur_ch := data ! cur r\<rparr>"
      have r1: "run_ok False ?r1" "cur ?r1 < ?n" using r ne by (simp_all add: run_ok_def marks_ok_def)
      have again: "\<exists>k pr'. http_loop st data True r2 = Some (k, pr') \<and> call_ok ?n k pr'"
        if "run_ok True r2" "cur r2 = cur r" for r2
        using that r1(2) False rank_bound[of "p_state r2"] by (intro less.hyps) (auto simp: loop_measure_def)
      show ?thesis
      proof (cases "PARSING_HEADER (p_state ?r1)")
        case True
        then show ?thesis
          using False ne r(2) count_byte[OF r1] again
          by (subst http_loop.simps) (fastforce split: sum.splits)
      next
        case np: False
        then show ?thesis
          using False ne r(2) again[of ?r1] uncounted[OF r1(1)] by (subst http_loop.simps) simp
      qed
    qed
  qed
qed

end

subsection \<open>The call\<close>

text \<open>Callbacks that leave the parser's own fields alone, but may pause it.\<close>

definition polite_settings :: "'e http_settings \<Rightarrow> bool" where
  "polite_settings st \<longleftrightarrow>
     (\<forall>cb \<in> {on_message_begin st, on_headers_complete st, on_message_complete st, on_chunk_header st,
        on_chunk_complete st}. \<forall>f pr. cb = Some f \<longrightarrow> hp_errno pr = HPE_OK \<longrightarrow> polite pr (snd (f pr)))
   \<and> (\<forall>m g xs pr. data_cb m st = Some g \<longrightarrow> hp_errno pr = HPE_OK \<longrightarrow> polite pr (snd (g xs pr)))"

lemma polite_client: "polite_settings st \<Longrightarrow> http_client st"
  unfolding polite_settings_def by unfold_locales blast+

interpretation silent: http_client http_parser_settings_init
proof
  fix m and g :: "'a http_data_cb"
  show "data_cb m http_parser_settings_init = Some g \<Longrightarrow> polite pr (snd (g xs pr))" for xs pr
    by (cases m) (simp_all add: http_parser_settings_init_def)
qed (simp add: http_parser_settings_init_def)

lemma start_run_ok:
  "hp_errno pr = HPE_OK \<Longrightarrow> parser_inv pr \<Longrightarrow> run_ok False (start_run pr)"
proof -
  assume a: "hp_errno pr = HPE_OK" "parser_inv pr"
  have "marks_ok (start_run pr)"
    unfolding marks_ok_def
  proof (intro allI impI)
    fix m k assume "get_mark m (start_run pr) = Some k"
    then show "state_mark (p_state (start_run pr)) = Some m \<and> k \<le> cur (start_run pr)"
      by (cases m) (auto simp: start_run_def Let_def url_mark split: if_splits)
  qed
  then show ?thesis using a by (simp add: run_ok_def start_run_def Let_def parser_inv_def)
qed

context http_client begin

lemma http_eof_ok:
  assumes "hp_errno pr = HPE_OK" "parser_inv pr"
  shows "\<exists>k pr'. http_eof st pr = Some (k, pr') \<and> parser_inv pr' \<and> (k = 0 \<or> k = 1 \<and> hp_errno pr' = HPE_INVALID_EOF_STATE)"
proof (cases "hp_state pr = s_body_identity_eof \<and> on_message_complete st \<noteq> None")
  case False
  then show ?thesis
    using assms by (auto simp: http_eof_def Let_def callback_notify_def start_run_def parser_inv_def)
next
  case True
  then obtain f where f: "on_message_complete st = Some f" and s: "hp_state pr = s_body_identity_eof" by auto
  have id: "pr\<lparr>hp_state := s_body_identity_eof\<rparr> = pr" using s by simp
  obtain rc pr1 where x: "f pr = (rc, pr1)" by (metis surj_pair)
  have p: "polite pr pr1"
    using notify_polite[of "on_message_complete st" f pr] f x assms(1) by simp
  have ok: "parser_ok False s_body_identity_eof pr" using assms s by (simp add: parser_inv_def)
  then have ok1: "parser_ok False s_body_identity_eof pr1" using p alike_ok[of pr pr1] by (simp add: polite_def)
  then have ok2: "parser_inv (pr1\<lparr>hp_errno := e\<rparr>)" for e
    using p s alike_ok[of pr1 "pr1\<lparr>hp_errno := e\<rparr>"] by (simp add: parser_inv_def polite_def)
  have "parser_inv pr1" using ok1 p s by (simp add: parser_inv_def polite_def)
  then show ?thesis
    using f s x ok2 assms(1) by (simp add: http_eof_def Let_def callback_notify_def start_run_def id)
qed

end

lemma start_cur: "cur (start_run pr) = 0"
  by (simp add: start_run_def Let_def)

lemma init_errno: "hp_errno (http_parser_init t d) = HPE_OK"
  by (simp add: http_parser_init_def)

lemma execute_returns:
  assumes "polite_settings st" "parser_inv pr"
  shows "\<exists>k pr'. http_parser_execute st data pr = Some (k, pr') \<and> parser_inv pr' \<and>
    (if hp_errno pr \<noteq> HPE_OK then k = 0 \<and> pr' = pr
     else if data = [] then k = 0 \<or> k = 1 \<and> hp_errno pr' = HPE_INVALID_EOF_STATE
     else k \<le> length data \<and> (hp_errno pr' = HPE_OK \<longrightarrow> k = length data \<or> hp_upgrade pr'))"
proof -
  note client = polite_client[OF assms(1)]
  show ?thesis
    using http_client.http_eof_ok[OF client _ assms(2)] assms(2)
      http_client.http_loop_returns[OF client, of False "start_run pr" data] start_run_ok[OF _ assms(2)]
    by (cases "hp_errno pr = HPE_OK"; cases "data = []")
      (auto simp: http_parser_execute_def call_ok_def start_cur)
qed

text \<open>C6: For any data and any callbacks that leave the parser's fields alone, a call of
  \<open>http_parser_execute\<close> on a parser that keeps the invariant returns: no assertion fails, no byte outside
  of the data is read, and the loop with its \<open>goto reexecute\<close> ends. The parser keeps the invariant, and
  all the bytes are consumed unless an error (or a pause) is recorded or the connection changes its
  protocol; only the end of the stream in the middle of a message answers 1 for no data.\<close>

theorem http_parser_execute_safe:
  assumes "polite_settings st" "parser_inv pr"
  shows "\<exists>k pr'. http_parser_execute st data pr = Some (k, pr') \<and> parser_inv pr' \<and>
    (if hp_errno pr \<noteq> HPE_OK then k = 0 \<and> pr' = pr
     else if data = [] then k = 0 \<or> k = 1 \<and> hp_errno pr' = HPE_INVALID_EOF_STATE
     else k \<le> length data \<and> (hp_errno pr' = HPE_OK \<longrightarrow> k = length data \<or> hp_upgrade pr'))"
  using assms by (rule execute_returns)

theorem http_parser_execute_safe_witness:
  "\<exists>k pr'. http_parser_execute (http_parser_settings_init\<lparr>
        on_url := Some (\<lambda>xs pr. (0, pr\<lparr>hp_data := hp_data pr @ xs\<rparr>)),
        on_message_complete := Some (\<lambda>pr. (0, pr\<lparr>hp_errno := HPE_PAUSED\<rparr>))\<rparr>)
      ''GET /a HTTP/1.1'' (http_parser_init HTTP_REQUEST []) = Some (k, pr') \<and> parser_inv pr'
    \<and> k \<le> 15 \<and> (hp_errno pr' = HPE_OK \<longrightarrow> k = 15 \<or> hp_upgrade pr')"
proof -
  let ?st = "http_parser_settings_init\<lparr>on_url := Some (\<lambda>xs pr. (0, pr\<lparr>hp_data := hp_data pr @ xs\<rparr>)),
        on_message_complete := Some (\<lambda>pr. (0, pr\<lparr>hp_errno := HPE_PAUSED\<rparr>))\<rparr> :: string http_settings"
  have st: "polite_settings ?st"
    unfolding polite_settings_def
  proof (intro conjI ballI allI impI)
    fix cb f and pr :: "string http_parser"
    assume "cb \<in> {on_message_begin ?st, on_headers_complete ?st, on_message_complete ?st, on_chunk_header ?st,
        on_chunk_complete ?st}" "cb = Some f" "hp_errno pr = HPE_OK"
    then show "polite pr (snd (f pr))"
      by (auto simp: http_parser_settings_init_def polite_def alike_def)
  next
    fix m g xs and pr :: "string http_parser"
    assume "data_cb m ?st = Some g" "hp_errno pr = HPE_OK"
    then show "polite pr (snd (g xs pr))"
      by (cases m) (auto simp: http_parser_settings_init_def polite_def alike_def)
  qed
  have "parser_inv (http_parser_init HTTP_REQUEST ([] :: string))"
    by (simp add: parser_inv_def http_parser_init_def easy_ok HTTP_MAX_HEADER_SIZE_def)
  then show ?thesis
    using http_parser_execute_safe[OF st, of "http_parser_init HTTP_REQUEST []" "''GET /a HTTP/1.1''"]
    by (auto simp: init_errno)
qed

end
