(* ===== verification/Http_Headers.thy ===== *)
theory Http_Headers
  imports Http_Safety "HOL-Library.Sublist"
begin

text \<open>
  The names of headers: the matching states of \<open>s_header_field\<close>, which follow the characters of a name
  with an index into the word that it may become, recognise exactly the known names
  (\<open>name_state\<close> is what is known after each prefix).
\<close>

section \<open>Header names\<close>

text \<open>The names the parser knows, with the header state it keeps for each.\<close>

definition known_names :: "(string \<times> hstate) list" where
  "known_names = [(''connection'', h_connection), (''proxy-connection'', h_connection),
     (''content-length'', h_content_length), (''transfer-encoding'', h_transfer_encoding), (''upgrade'', h_upgrade)]"

text \<open>The parser after the characters of a name: \<open>None\<close> is the error of the second Content-Length.\<close>

fun name_chars :: "string \<Rightarrow> 'e http_parser \<Rightarrow> 'e http_parser option" where
  "name_chars [] pr = Some pr"
| "name_chars (ch # cs) pr =
     (case header_field_char (TOKEN ch) ch pr of Step pr' \<Rightarrow> name_chars cs pr' | _ \<Rightarrow> None)"

definition matching_names :: "(string \<times> hstate \<times> hstate) list" where
  "matching_names = [(''connection'', h_matching_connection, h_connection),
     (''proxy-connection'', h_matching_proxy_connection, h_connection),
     (''content-length'', h_matching_content_length, h_content_length),
     (''transfer-encoding'', h_matching_transfer_encoding, h_transfer_encoding),
     (''upgrade'', h_matching_upgrade, h_upgrade)]"

text \<open>What is known of the parser after the tokens \<open>p\<close> of a name.\<close>

definition no_name :: "string \<Rightarrow> bool" where
  "no_name p \<longleftrightarrow> p \<noteq> [] \<and> (\<forall>w \<in> fst ` set matching_names. \<not> prefix p w)"

definition name_state :: "string \<Rightarrow> 'e http_parser \<Rightarrow> bool" where
  "name_state p pr \<longleftrightarrow>
     (p = ''c'' \<and> header_state pr = h_C \<and> hp_index pr = 0)
   \<or> (p = ''co'' \<and> header_state pr = h_CO \<and> hp_index pr = 1)
   \<or> (p = ''con'' \<and> header_state pr = h_CON \<and> hp_index pr = 2)
   \<or> (\<exists>w m f. (w, m, f) \<in> set matching_names \<and> strict_prefix p w \<and> p \<noteq> [] \<and> (p ! 0 = CHR ''c'' \<longrightarrow> 3 < length p)
        \<and> header_state pr = m \<and> hp_index pr = length p - 1)
   \<or> (\<exists>w m f. (w, m, f) \<in> set matching_names \<and> p = w \<and> header_state pr = f)
   \<or> (no_name p \<and> header_state pr = h_general)"

lemma name_state_matching:
  "(w, m, f) \<in> set matching_names \<Longrightarrow> strict_prefix p w \<Longrightarrow> p \<noteq> [] \<Longrightarrow> (p ! 0 = CHR ''c'' \<longrightarrow> 3 < length p) \<Longrightarrow>
     header_state pr = m \<Longrightarrow> hp_index pr = length p - 1 \<Longrightarrow> name_state p pr"
  unfolding name_state_def by blast

lemma name_state_first:
  assumes "c \<noteq> NUL"
  shows "name_state [c] (pr\<lparr>hp_index := 0, header_state := header_field_state c\<rparr>)"
  by (auto simp: name_state_def matching_names_def header_field_state_def strict_prefix_def no_name_def)

lemma name_cases:
  assumes "(w, m, f) \<in> set matching_names"
  obtains "w = ''connection''" "m = h_matching_connection" "f = h_connection"
    | "w = ''proxy-connection''" "m = h_matching_proxy_connection" "f = h_connection"
    | "w = ''content-length''" "m = h_matching_content_length" "f = h_content_length"
    | "w = ''transfer-encoding''" "m = h_matching_transfer_encoding" "f = h_transfer_encoding"
    | "w = ''upgrade''" "m = h_matching_upgrade" "f = h_upgrade"
  using assms unfolding matching_names_def list.set insert_iff empty_iff prod.inject
  by (elim disjE conjE FalseE) (rule that; assumption)+

text \<open>A prefix of a name is a prefix of one name only, once the name is told apart.\<close>

lemma names_apart:
  assumes "(w, m, f) \<in> set matching_names" "(w', m', f') \<in> set matching_names" "prefix p w" "prefix p w'"
    "p \<noteq> []" "p ! 0 = CHR ''c'' \<longrightarrow> 3 < length p"
  shows "w' = w \<and> m' = m \<and> f' = f"
proof -
  have nth: "w ! i = w' ! i" if "i < length p" for i
    using assms(3,4) that by (auto simp: prefix_def nth_append)
  have "w ! 0 = w' ! 0" "w ! 0 = CHR ''c'' \<longrightarrow> w ! 3 = w' ! 3"
    using nth[of 0] nth[of 3] assms(3,5,6) by (auto simp: prefix_def nth_append)
  then show ?thesis by (cases rule: name_cases[OF assms(1)]; cases rule: name_cases[OF assms(2)]; simp)
qed

definition match_result :: "string \<Rightarrow> hstate \<Rightarrow> char \<Rightarrow> 'e http_parser \<Rightarrow> 'e http_parser \<Rightarrow> bool" where
  "match_result w f c pr pr' \<longleftrightarrow>
     (case match_word w c (hp_index (next_index pr)) of
        No_Match \<Rightarrow> header_state pr' = h_general
      | Last_Match \<Rightarrow> header_state pr' = f
      | Match \<Rightarrow> header_state pr' = header_state pr \<and> hp_index pr' = hp_index (next_index pr))"

lemma match_field_result: "match_result w f c pr (match_field w f c pr)"
  by (cases "match_word w c (hp_index (next_index pr))") (simp_all add: match_result_def match_field_def Let_def)

lemma matching_chars:
  "header_state pr = h_matching_connection \<Longrightarrow> header_field_char c ch pr = Step (match_field ''connection'' h_connection c pr)"
  "header_state pr = h_matching_proxy_connection \<Longrightarrow>
     header_field_char c ch pr = Step (match_field ''proxy-connection'' h_connection c pr)"
  "header_state pr = h_matching_transfer_encoding \<Longrightarrow>
     header_field_char c ch pr = Step (match_field ''transfer-encoding'' h_transfer_encoding c pr)"
  "header_state pr = h_matching_upgrade \<Longrightarrow> header_field_char c ch pr = Step (match_field ''upgrade'' h_upgrade c pr)"
  by (simp_all only: header_field_char_def hstate.case)

lemma matching_length_char:
  assumes "header_state pr = h_matching_content_length" "header_field_char c ch pr = Step pr'"
  shows "match_result ''content-length'' h_content_length c pr pr'"
  using assms(2) unfolding header_field_char_def assms(1) hstate.case Let_def match_result_def
  by (cases "match_word ''content-length'' c (hp_index (next_index pr))") (auto simp: assms(1) split: if_splits)

lemma matching_char:
  assumes "(w, m, f) \<in> set matching_names" "header_state pr = m" "header_field_char c ch pr = Step pr'"
  shows "match_result w f c pr pr'"
proof -
  note simps = assms(2,3) matching_chars[of pr c ch] matching_length_char[of pr c ch pr'] match_field_result[of w f c pr]
  show ?thesis using simps by (cases rule: name_cases[OF assms(1)]; simp)
qed

lemma name_short: "(w, m, f) \<in> set matching_names \<Longrightarrow> length w \<le> 17"
  by (auto simp: matching_names_def)

lemma name_matching_step:
  assumes "(w, m, f) \<in> set matching_names" "strict_prefix p w" "p \<noteq> []" "p ! 0 = CHR ''c'' \<longrightarrow> 3 < length p"
    "header_state pr = m" "hp_index pr = length p - 1" "header_field_char c ch pr = Step pr'" "c \<noteq> NUL"
  shows "name_state (p @ [c]) pr'"
proof -
  have len: "length p < length w" using assms(2) by (metis prefix_length_less)
  then have i: "hp_index (next_index pr) = length p"
    using assms(3,6) name_short[OF assms(1)] by (cases p) (auto simp: next_index_def)
  note step = matching_char[OF assms(1,5,7), unfolded match_result_def i assms(5)]
  show ?thesis
  proof (cases "c = w ! length p")
    case True
    then have w: "p @ [c] = take (length p + 1) w"
      using assms(2) len by (metis Suc_eq_plus1 append_eq_conv_conj prefix_def strict_prefix_def take_Suc_conv_app_nth)
    show ?thesis
    proof (cases "length p + 1 = length w")
      case True
      then show ?thesis using w step \<open>c = w ! length p\<close> len assms(1)
        by (auto simp: match_word_def nth_append name_state_def)
    next
      case False
      then have s: "header_state pr' = m" "hp_index pr' = length p" using step True len
        by (auto simp: match_word_def nth_append i)
      have "strict_prefix (p @ [c]) w" unfolding w using False len by (simp add: take_is_prefix strict_prefix_def)
      then show ?thesis using s assms(1,3,4) unfolding name_state_def
        by (intro disjI2[THEN disjI2, THEN disjI2] disjI1 exI[of _ w] exI[of _ m] exI[of _ f]) (auto simp: nth_append)
    qed
  next
    case False
    have "\<not> prefix (p @ [c]) w'" if "w' \<in> fst ` set matching_names" for w'
    proof
      assume pre: "prefix (p @ [c]) w'"
      from that obtain x where "x \<in> set matching_names" "w' = fst x" by blast
      then have w': "(w', fst (snd x), snd (snd x)) \<in> set matching_names" by simp
      have "prefix p w'" "prefix p w" using pre assms(2) by (auto simp: prefix_def strict_prefix_def)
      then have "w' = w" using names_apart[OF assms(1) w'] assms(3,4) by simp
      then show False using pre False by (auto simp: prefix_def nth_append)
    qed
    moreover have "header_state pr' = h_general"
      using step False len by (simp add: match_word_def nth_append)
    ultimately show ?thesis by (auto simp: name_state_def no_name_def)
  qed
qed

text \<open>A known name is no prefix of another one.\<close>

lemma name_complete:
  assumes "(w, m, f) \<in> set matching_names" "(w', m', f') \<in> set matching_names"
  shows "\<not> prefix (w @ [c]) w'"
  using assms by (auto simp: matching_names_def)

lemma token_space: "TOKEN ch \<noteq> NUL \<Longrightarrow> ch \<noteq> CHR '' ''"
  by (auto simp: TOKEN_def NUL_def)

lemma name_con_step:
  assumes "header_field_char c ch pr = Step pr'"
  shows "p = ''c'' \<and> header_state pr = h_C \<and> hp_index pr = 0 \<Longrightarrow> name_state (p @ [c]) pr'"
    "p = ''co'' \<and> header_state pr = h_CO \<and> hp_index pr = 1 \<Longrightarrow> name_state (p @ [c]) pr'"
    "p = ''con'' \<and> header_state pr = h_CON \<and> hp_index pr = 2 \<Longrightarrow> name_state (p @ [c]) pr'"
proof -
  show "name_state (p @ [c]) pr'" if "p = ''c'' \<and> header_state pr = h_C \<and> hp_index pr = 0"
    using that assms by (cases "c = CHR ''o''")
      (auto simp: header_field_char_def name_state_def next_index_def no_name_def matching_names_def)
  show "name_state (p @ [c]) pr'" if "p = ''co'' \<and> header_state pr = h_CO \<and> hp_index pr = 1"
    using that assms by (cases "c = CHR ''n''")
      (auto simp: header_field_char_def name_state_def next_index_def no_name_def matching_names_def)
  show "name_state (p @ [c]) pr'" if "p = ''con'' \<and> header_state pr = h_CON \<and> hp_index pr = 2"
  proof -
    have eq: "pr' = (next_index pr)\<lparr>header_state := (if c = CHR ''n'' then h_matching_connection
        else if c = CHR ''t'' then h_matching_content_length else h_general)\<rparr>"
      using that assms by (simp add: header_field_char_def)
    have i: "hp_index pr' = 3" using that by (simp add: eq next_index_def)
    have n: "(''connection'', h_matching_connection, h_connection) \<in> set matching_names"
      "(''content-length'', h_matching_content_length, h_content_length) \<in> set matching_names"
      by (simp_all add: matching_names_def)
    consider "c = CHR ''n''" | "c = CHR ''t''" | "c \<noteq> CHR ''n''" "c \<noteq> CHR ''t''" by blast
    then show ?thesis
    proof cases
      case 1
      then have "strict_prefix (p @ [c]) ''connection''" "header_state pr' = h_matching_connection"
        using that by (simp_all add: strict_prefix_def eq)
      then show ?thesis using i that by (intro name_state_matching[OF n(1)]) auto
    next
      case 2
      then have "strict_prefix (p @ [c]) ''content-length''" "header_state pr' = h_matching_content_length"
        using that by (simp_all add: strict_prefix_def eq)
      then show ?thesis using i that by (intro name_state_matching[OF n(2)]) auto
    next
      case 3
      then have "no_name (p @ [c])" using that by (auto simp: no_name_def matching_names_def)
      then show ?thesis using 3 by (simp add: name_state_def eq)
    qed
  qed
qed

lemma name_state_step:
  assumes "name_state p pr" "header_field_char (TOKEN ch) ch pr = Step pr'" "TOKEN ch \<noteq> NUL"
  shows "name_state (p @ [TOKEN ch]) pr'"
proof -
  let ?c = "TOKEN ch"
  consider (c) "p = ''c''" "header_state pr = h_C" "hp_index pr = 0"
    | (co) "p = ''co''" "header_state pr = h_CO" "hp_index pr = 1"
    | (con) "p = ''con''" "header_state pr = h_CON" "hp_index pr = 2"
    | (some) w m f where "(w, m, f) \<in> set matching_names" "strict_prefix p w" "p \<noteq> []" "p ! 0 = CHR ''c'' \<longrightarrow> 3 < length p"
        "header_state pr = m" "hp_index pr = length p - 1"
    | (found) w m f where "(w, m, f) \<in> set matching_names" "p = w" "header_state pr = f"
    | (none) "no_name p" "header_state pr = h_general"
    using assms(1) unfolding name_state_def by (elim disjE exE conjE) (rule that; assumption)+
  then show ?thesis
  proof cases
    case some
    show ?thesis by (rule name_matching_step[OF some assms(2,3)])
  next
    case none
    then have "no_name (p @ [?c])" by (auto simp: no_name_def prefix_def)
    moreover have "pr' = pr" using none(2) assms(2) by (simp add: header_field_char_def)
    ultimately show ?thesis using none(2) by (simp add: name_state_def)
  next
    case found
    have "no_name (p @ [?c])" using name_complete[OF found(1)] found(2) by (auto simp: no_name_def)
    moreover have "header_state pr' = h_general"
      using found(3) assms(2) token_space[OF assms(3)] by (cases rule: name_cases[OF found(1)]) (auto simp: header_field_char_def)
    ultimately show ?thesis by (simp add: name_state_def)
  qed (use name_con_step[OF assms(2)] in auto)
qed


text \<open>The flag of Content-Length.\<close>

lemma match_field_flags [simp]: "hp_flags (match_field w f c pr) = hp_flags pr"
  by (cases "match_word w c (hp_index (next_index pr))") (simp_all add: match_field_def Let_def next_index_def)

lemma other_flags:
  assumes "header_state pr \<in> field_hstates" "header_state pr \<noteq> h_matching_content_length"
  shows "\<exists>pr'. header_field_char c ch pr = Step pr' \<and> hp_flags pr' = hp_flags pr"
  using assms unfolding header_field_char_def
  by (cases "header_state pr"; simp only: hstate.case; simp add: next_index_def)

lemma length_flags:
  assumes "header_state pr = h_matching_content_length" "hp_index pr = length p - 1" "p \<noteq> []"
    "strict_prefix p ''content-length''"
  shows "case header_field_char c ch pr of
      Step pr' \<Rightarrow> hp_flags pr' = (if p @ [c] = ''content-length'' then hp_flags pr OR F_CONTENTLENGTH else hp_flags pr)
    | Err e pr' \<Rightarrow> p @ [c] = ''content-length'' \<and> has_flag F_CONTENTLENGTH pr
    | Assert \<Rightarrow> False"
proof -
  have len: "length p < length ''content-length''" using assms(4) by (rule prefix_length_less)
  have i: "hp_index (next_index pr) = length p" using assms(2,3) len by (cases p) (auto simp: next_index_def)
  have p: "p = take (length p) ''content-length''"
    using assms(4) by (metis append_eq_conv_conj prefix_def strict_prefix_def)
  have eq: "match_word ''content-length'' c (length p) = Last_Match \<longleftrightarrow> p @ [c] = ''content-length''"
  proof
    assume "match_word ''content-length'' c (length p) = Last_Match"
    then have "length p = 13" "c = CHR ''h''" by (auto simp: match_word_def split: if_splits)
    then show "p @ [c] = ''content-length''" using p by simp
  next
    assume a: "p @ [c] = ''content-length''"
    then have "length p = 13" using arg_cong[OF a, of length] by simp
    moreover have "c = CHR ''h''" using arg_cong[OF a, of last] by simp
    ultimately show "match_word ''content-length'' c (length p) = Last_Match" by (simp add: match_word_def)
  qed
  show ?thesis
    using eq unfolding header_field_char_def assms(1) hstate.case Let_def i
    by (cases "match_word ''content-length'' c (length p)") (auto simp: next_index_def add_flag_def has_flag_def)
qed

lemma name_state_fields: "name_state p pr \<Longrightarrow> header_state pr \<in> field_hstates \<and> p \<noteq> []"
  unfolding name_state_def by (elim disjE exE conjE) (auto elim!: name_cases simp: no_name_def)

lemma name_flags_step:
  assumes "name_state p pr" "TOKEN ch \<noteq> NUL"
  shows "case header_field_char (TOKEN ch) ch pr of
      Step pr' \<Rightarrow> hp_flags pr' = (if p @ [TOKEN ch] = ''content-length'' then hp_flags pr OR F_CONTENTLENGTH else hp_flags pr)
    | Err e pr' \<Rightarrow> p @ [TOKEN ch] = ''content-length'' \<and> has_flag F_CONTENTLENGTH pr
    | Assert \<Rightarrow> False"
proof (cases "header_state pr = h_matching_content_length")
  case True
  then have "strict_prefix p ''content-length''" "hp_index pr = length p - 1"
    using assms(1) unfolding name_state_def
    by (elim disjE exE conjE; auto elim!: name_cases)+
  then show ?thesis using True name_state_fields[OF assms(1)] by (intro length_flags) auto
next
  case False
  have "p @ [TOKEN ch] \<noteq> ''content-length''"
  proof
    assume a: "p @ [TOKEN ch] = ''content-length''"
    have n: "(''content-length'', h_matching_content_length, h_content_length) \<in> set matching_names"
      by (simp add: matching_names_def)
    have len: "length p = 13" using arg_cong[OF a, of length] by simp
    have p: "strict_prefix p ''content-length''" unfolding a[symmetric] by (simp add: strict_prefix_def)
    have "p = ''content-lengt''" using arg_cong[OF a, of butlast] by simp
    then have "header_state pr = h_matching_content_length"
      using assms(1) unfolding name_state_def
      by (elim disjE exE conjE) (auto elim!: name_cases simp: no_name_def matching_names_def strict_prefix_def)
    then show False using False by blast
  qed
  then show ?thesis using other_flags[OF _ False, of "TOKEN ch" ch] name_state_fields[OF assms(1)] by auto
qed

lemma name_chars_ok:
  assumes "name_state p pr" "\<forall>ch \<in> set cs. TOKEN ch \<noteq> NUL"
  shows "case name_chars cs pr of
      Some pr' \<Rightarrow> name_state (p @ map TOKEN cs) pr' \<and>
        hp_flags pr' = (if prefix ''content-length'' (p @ map TOKEN cs) \<and> \<not> prefix ''content-length'' p
                        then hp_flags pr OR F_CONTENTLENGTH else hp_flags pr)
    | None \<Rightarrow> has_flag F_CONTENTLENGTH pr \<and> prefix ''content-length'' (p @ map TOKEN cs) \<and> \<not> prefix ''content-length'' p"
  using assms
proof (induction cs arbitrary: p pr)
  case Nil
  then show ?case by simp
next
  case (Cons ch cs)
  note flags = name_flags_step[OF Cons.prems(1), of ch]
  show ?case
  proof (cases "header_field_char (TOKEN ch) ch pr")
    case (Step pr1)
    have s1: "name_state (p @ [TOKEN ch]) pr1" using Cons.prems Step by (intro name_state_step) auto
    have f1: "hp_flags pr1 = (if p @ [TOKEN ch] = ''content-length'' then hp_flags pr OR F_CONTENTLENGTH else hp_flags pr)"
      using flags Cons.prems(2) Step by simp
    show ?thesis
    proof (cases "p @ [TOKEN ch] = ''content-length''")
      case True
      have pre: "prefix ''content-length'' (p @ [TOKEN ch])" "\<not> prefix ''content-length'' p"
        using True arg_cong[OF True, of length] prefix_length_le[of "''content-length''" p] by (simp, auto)
      then have "prefix ''content-length'' ((p @ [TOKEN ch]) @ map TOKEN cs)" by (rule_tac prefix_prefix)
      then show ?thesis using Cons.IH[OF s1] Cons.prems(2) f1 Step True pre
        by (simp split: option.splits)
    next
      case False
      then have pre: "prefix ''content-length'' (p @ [TOKEN ch]) = prefix ''content-length'' p"
        unfolding prefix_snoc by auto
      have f: "hp_flags pr1 = hp_flags pr" using f1 False by simp
      show ?thesis using Cons.IH[OF s1] Cons.prems(2) Step False
        by (auto simp: pre f has_flag_def split: option.splits)
    qed
  next
    case (Err e pr1)
    then have a: "p @ [TOKEN ch] = ''content-length''" and f: "has_flag F_CONTENTLENGTH pr"
      using flags Cons.prems(2) by auto
    have "\<not> prefix ''content-length'' p" using arg_cong[OF a, of length] prefix_length_le[of "''content-length''" p] by auto
    moreover have "prefix ''content-length'' ((p @ [TOKEN ch]) @ map TOKEN cs)" unfolding a by (rule prefixI) (rule refl)
    ultimately show ?thesis using f Err by simp
  next
    case Assert
    then show ?thesis using flags Cons.prems(2) by auto
  qed
qed

lemma name_state_known:
  assumes "name_state p pr" "h \<in> {h_connection, h_content_length, h_transfer_encoding, h_upgrade}"
  shows "header_state pr = h \<longleftrightarrow> (p, h) \<in> set known_names"
proof -
  have out: "(p, h) \<notin> set known_names" if "no_name p" using that by (auto simp: no_name_def known_names_def matching_names_def)
  show ?thesis
    using assms(1) unfolding name_state_def
  proof (elim disjE exE conjE)
    fix w m f assume "(w, m, f) \<in> set matching_names" "strict_prefix p w" "header_state pr = m"
    then show ?thesis using assms(2)
      by (cases rule: name_cases) (auto simp: known_names_def)
  next
    fix w m f assume "(w, m, f) \<in> set matching_names" "p = w" "header_state pr = f"
    then show ?thesis using assms(2)
      by (cases rule: name_cases) (auto simp: known_names_def)
  qed (use assms(2) out in \<open>auto simp: known_names_def\<close>)
qed


lemma header_field_loop_name:
  assumes "\<forall>ch \<in> set cs. TOKEN ch \<noteq> NUL" "TOKEN d = NUL"
  shows "name_chars cs (prs r) = Some pr' \<Longrightarrow>
      header_field_loop (cs @ d # post) r = Inr (r\<lparr>prs := pr', cur := cur r + length cs, cur_ch := d\<rparr>)"
    and "name_chars cs (prs r) = None \<Longrightarrow> \<exists>out. header_field_loop (cs @ d # post) r = Inl out"
  using assms
proof (induction cs arbitrary: r)
  case Nil
  { case 1
    then show ?case by simp
  next
    case 2
    then show ?case by simp }
next
  case (Cons ch cs)
  define r1 where "r1 = r\<lparr>cur_ch := ch\<rparr>"
  { case 1
    then show ?case using Cons.IH(1)
      by (auto simp: Let_def split: step_result.splits)
  next
    case 2
    then show ?case using Cons.IH(2)
      by (auto simp: Let_def split: step_result.splits) }
qed

lemma colon: "TOKEN CHR '':'' = NUL"
  by (simp add: TOKEN_def)

text \<open>C25: Reading the name of a header, the parser recognises exactly the names it knows, in any case of
  their letters: after the last character its header state is the one of connection (and
  proxy-connection), content-length, transfer-encoding or upgrade if and only if the lower-case name
  is that name. The flag of Content-Length, though, is set by every name that starts with
  \<open>content-length\<close>.\<close>

theorem http_header_names:
  assumes "\<forall>ch \<in> set (c # cs). TOKEN ch \<noteq> NUL"
    and "prs r = pr\<lparr>hp_index := 0, header_state := header_field_state (TOKEN c)\<rparr>"
    and "header_field_loop (cs @ CHR '':'' # post) r = Inr r'"
  shows "cur r' = cur r + length cs \<and> cur_ch r' = CHR '':''
    \<and> (\<forall>h \<in> {h_connection, h_content_length, h_transfer_encoding, h_upgrade}.
         header_state (prs r') = h \<longleftrightarrow> (map TOKEN (c # cs), h) \<in> set known_names)
    \<and> hp_flags (prs r') = (if prefix ''content-length'' (map TOKEN (c # cs)) then hp_flags pr OR F_CONTENTLENGTH else hp_flags pr)"
proof -
  note loop = header_field_loop_name[where r = r and cs = cs and post = post, OF _ colon]
  obtain pr' where pr': "name_chars cs (prs r) = Some pr'"
    using loop(2) assms(1,3) by (cases "name_chars cs (prs r)") auto
  have s: "name_state [TOKEN c] (prs r)" unfolding assms(2) using assms(1) by (intro name_state_first) simp
  have r': "r' = r\<lparr>prs := pr', cur := cur r + length cs, cur_ch := CHR '':''\<rparr>"
    using loop(1)[OF _ pr'] assms(1,3) by simp
  have "name_state (map TOKEN (c # cs)) pr'"
    "hp_flags pr' = (if prefix ''content-length'' (map TOKEN (c # cs)) then hp_flags pr OR F_CONTENTLENGTH else hp_flags pr)"
    using name_chars_ok[OF s, of cs] assms(1,2) pr' by auto
  then show ?thesis using name_state_known[of "map TOKEN (c # cs)" pr'] r' by simp
qed

theorem http_header_names_witness:
  "\<exists>r'. header_field_loop (''ontent-LENGTH'' @ CHR '':'' # ''12'') ((start_run (http_parser_init HTTP_REQUEST (0 :: nat)))
        \<lparr>prs := (http_parser_init HTTP_REQUEST 0)\<lparr>hp_index := 0, header_state := h_C\<rparr>\<rparr>) = Inr r'
     \<and> header_state (prs r') = h_content_length \<and> has_flag F_CONTENTLENGTH (prs r')"
proof -
  let ?pr = "(http_parser_init HTTP_REQUEST (0 :: nat))"
  let ?r = "(start_run ?pr)\<lparr>prs := ?pr\<lparr>hp_index := 0, header_state := header_field_state (TOKEN CHR ''C'')\<rparr>\<rparr>"
  have tok: "\<forall>ch \<in> set (CHR ''C'' # ''ontent-LENGTH''). TOKEN ch \<noteq> NUL" by (simp add: TOKEN_def NUL_def)
  have name: "map TOKEN (CHR ''C'' # ''ontent-LENGTH'') = ''content-length''" by (simp add: TOKEN_def)
  have tok2: "\<forall>ch \<in> set ''ontent-LENGTH''. TOKEN ch \<noteq> NUL" by (simp add: TOKEN_def NUL_def)
  have first: "header_field_state (TOKEN CHR ''C'') = h_C" by (simp add: TOKEN_def header_field_state_def)
  have s: "name_state [TOKEN CHR ''C''] (prs ?r)" using tok by (simp add: name_state_first)
  obtain pr' where "name_chars ''ontent-LENGTH'' (prs ?r) = Some pr'"
    using name_chars_ok[OF s, of "''ontent-LENGTH''"] tok
    by (cases "name_chars ''ontent-LENGTH'' (prs ?r)") (auto simp: has_flag_def http_parser_init_def)
  then have "\<exists>r'. header_field_loop (''ontent-LENGTH'' @ CHR '':'' # ''12'') ?r = Inr r'"
    using header_field_loop_name(1)[OF tok2 colon, of ?r pr' "''12''"] by (intro exI) assumption
  then obtain r' where r': "header_field_loop (''ontent-LENGTH'' @ CHR '':'' # ''12'') ?r = Inr r'"
    by (elim exE)
  have eq: "prs ?r = ?pr\<lparr>hp_index := 0, header_state := header_field_state (TOKEN CHR ''C'')\<rparr>" by simp
  note res = http_header_names[OF tok eq r', unfolded name]
  have "header_state (prs r') = h_content_length \<longleftrightarrow> (''content-length'', h_content_length) \<in> set known_names"
    using res by (simp only: ball_simps)
  moreover have "hp_flags (prs r') = hp_flags ?pr OR F_CONTENTLENGTH" using res by (simp only: prefix_order.refl if_True)
  ultimately have "header_state (prs r') = h_content_length \<and> has_flag F_CONTENTLENGTH (prs r')"
    by (simp add: known_names_def has_flag_def F_CONTENTLENGTH_def http_parser_init_def)
  then show ?thesis using r' unfolding first by blast
qed

end
