(* ===== verification/Http_Message.thy ===== *)
theory Http_Message
  imports Http_Headers Ring_Queue "HOL-Library.List_Lexorder" "HOL-Library.Char_ord"
begin

section \<open>HTTP messages\<close>

text \<open>
  \<open>http/http_message.cpp\<close>: the message a connection collects while the parser runs over the input
  buffer. The parser's \<open>data\<close> points to the message, so the pair is a parser whose data is the rest
  of the message. \<open>std::map\<close> is a list of pairs in the order of the keys.
\<close>

datatype http_status =
    S_CONTINUE | S_OK | S_ACCEPTED | S_BAD_REQUEST | S_FORBIDDEN | S_NOT_FOUND | S_TIMEOUT
  | S_LENGTH_REQUIRED | S_INTERNAL_SERVER_ERROR | S_BAD_GATEWAY | S_GATEWAY_TIMEOUT | S_VERSION_NOT_SUPPORTED

fun status_number :: "http_status \<Rightarrow> nat" where
  "status_number S_CONTINUE = 100"
| "status_number S_OK = 200"
| "status_number S_ACCEPTED = 202"
| "status_number S_BAD_REQUEST = 400"
| "status_number S_FORBIDDEN = 403"
| "status_number S_NOT_FOUND = 404"
| "status_number S_TIMEOUT = 408"
| "status_number S_LENGTH_REQUIRED = 411"
| "status_number S_INTERNAL_SERVER_ERROR = 500"
| "status_number S_BAD_GATEWAY = 502"
| "status_number S_GATEWAY_TIMEOUT = 504"
| "status_number S_VERSION_NOT_SUPPORTED = 505"

fun http_reason :: "http_status \<Rightarrow> string" where
  "http_reason S_CONTINUE = ''Continue''"
| "http_reason S_OK = ''OK''"
| "http_reason S_ACCEPTED = ''Accepted''"
| "http_reason S_BAD_REQUEST = ''Bad Reqeust''"
| "http_reason S_FORBIDDEN = ''Forbidden''"
| "http_reason S_NOT_FOUND = ''Not Found''"
| "http_reason S_TIMEOUT = ''Request Timeout''"
| "http_reason S_LENGTH_REQUIRED = ''Length Required''"
| "http_reason S_INTERNAL_SERVER_ERROR = ''Internal Server Error''"
| "http_reason S_BAD_GATEWAY = ''Bad Gateway''"
| "http_reason S_GATEWAY_TIMEOUT = ''Gateway Timeout''"
| "http_reason S_VERSION_NOT_SUPPORTED = ''HTTP Version Not Supported''"

datatype parser_stage =
    HTTP_ON_MESSAGE_BEGIN | HTTP_ON_URL | HTTP_ON_STATUS | HTTP_ON_HEADER_FIELD | HTTP_ON_HEADER_VALUE
  | HTTP_ON_HEADERS_COMPLETE | HTTP_ON_BODY | HTTP_ON_MESSAGE_COMPLETE

record http_message =
  msg_parsed_length :: nat
  msg_stage :: parser_stage
  msg_url :: string
  msg_service_name :: string
  msg_method_name :: string
  msg_status :: string
  msg_cur_header :: string
  msg_header_map :: "(string \<times> string) list"
  msg_content :: string

definition http_message_new :: "http_message http_parser" where
  "http_message_new = http_parser_init HTTP_BOTH
     \<lparr>msg_parsed_length = 0, msg_stage = HTTP_ON_MESSAGE_BEGIN, msg_url = [], msg_service_name = [], msg_method_name = [],
      msg_status = [], msg_cur_header = [], msg_header_map = [], msg_content = []\<rparr>"

definition http_message_clear :: "http_message http_parser \<Rightarrow> http_message http_parser" where
  "http_message_clear m =
     http_parser_init HTTP_BOTH ((hp_data m)\<lparr>msg_stage := HTTP_ON_MESSAGE_BEGIN, msg_parsed_length := 0\<rparr>)"

definition http_message_completed :: "http_message http_parser \<Rightarrow> bool" where
  "http_message_completed m \<longleftrightarrow> msg_stage (hp_data m) = HTTP_ON_MESSAGE_COMPLETE"

subsection \<open>The header map\<close>

fun map_emplace :: "'k :: linorder \<Rightarrow> 'v \<Rightarrow> ('k \<times> 'v) list \<Rightarrow> ('k \<times> 'v) list" where
  "map_emplace k v [] = [(k, v)]"
| "map_emplace k v ((k', v') # xs) =
     (if k < k' then (k, v) # (k', v') # xs
      else if k = k' then (k', v') # xs
      else (k', v') # map_emplace k v xs)"

fun map_append :: "'k \<Rightarrow> string \<Rightarrow> ('k \<times> string) list \<Rightarrow> ('k \<times> string) list" where
  "map_append k v [] = []"
| "map_append k v ((k', v') # xs) = (if k = k' then (k', v' @ v) # xs else (k', v') # map_append k v xs)"

text \<open>\<open>tolower\<close> in the C locale.\<close>

definition tolower :: "char \<Rightarrow> char" where
  "tolower c = (if 65 \<le> ord c \<and> ord c \<le> 90 then char_of (ord c + 32) else c)"

subsection \<open>The callbacks\<close>

type_synonym message_cb = "http_message http_parser \<Rightarrow> int \<times> http_message http_parser"

definition set_message :: "(http_message \<Rightarrow> http_message) \<Rightarrow> http_message http_parser \<Rightarrow> http_message http_parser" where
  "set_message f pr = pr\<lparr>hp_data := f (hp_data pr)\<rparr>"

definition on_message_begin_cb :: message_cb where
  "on_message_begin_cb pr = (0, set_message (msg_stage_update (\<lambda>_. HTTP_ON_MESSAGE_BEGIN)) pr)"

text \<open>\<open>rfind ('/')\<close>.\<close>

definition rfind_slash :: "string \<Rightarrow> nat option" where
  "rfind_slash s =
     (let n = length (takeWhile (\<lambda>c. c \<noteq> CHR ''/'') (rev s)) in if n = length s then None else Some (length s - n - 1))"

definition split_path :: "string \<Rightarrow> http_message \<Rightarrow> http_message" where
  "split_path path m =
     (case rfind_slash path of
        None \<Rightarrow> m
      | Some found \<Rightarrow>
          (let m1 = (if found + 1 < length path then m\<lparr>msg_method_name := drop (found + 1) path\<rparr> else m)
           in if found > 0 then m1\<lparr>msg_service_name := take (found - 1) (drop 1 path)\<rparr> else m1))"

text \<open>\<open>junk\<close> is what the local \<open>struct http_parser_url\<close> holds before the call.\<close>

definition on_url_cb :: "url \<Rightarrow> string \<Rightarrow> message_cb" where
  "on_url_cb junk xs = (\<lambda>pr.
     (0, set_message (\<lambda>m.
        (let m1 = m\<lparr>msg_stage := HTTP_ON_URL, msg_url := msg_url m @ xs\<rparr> in
         case http_parser_parse_url (msg_url m1) [NUL] False junk of
           None \<Rightarrow> m1
         | Some u \<Rightarrow>
             if UF_PATH \<in> field_set u
             then split_path (take (unat (u_len u UF_PATH)) (drop (unat (u_off u UF_PATH)) (msg_url m1))) m1
             else m1)) pr))"

definition on_status_cb :: "string \<Rightarrow> message_cb" where
  "on_status_cb xs pr = (0, set_message (\<lambda>m. m\<lparr>msg_stage := HTTP_ON_STATUS, msg_status := msg_status m @ xs\<rparr>) pr)"

definition on_header_field_cb :: "string \<Rightarrow> message_cb" where
  "on_header_field_cb xs pr =
     (0, set_message (\<lambda>m.
        (let m1 = (if msg_stage m \<noteq> HTTP_ON_HEADER_FIELD
                   then m\<lparr>msg_cur_header := [], msg_stage := HTTP_ON_HEADER_FIELD\<rparr> else m)
         in m1\<lparr>msg_cur_header := map tolower (msg_cur_header m1 @ xs)\<rparr>)) pr)"

definition on_header_value_cb :: "string \<Rightarrow> message_cb" where
  "on_header_value_cb xs pr =
     (let m = hp_data pr; h = msg_cur_header m in
      if h = [] then (-1, pr)
      else if msg_stage m = HTTP_ON_HEADER_FIELD then
        (0, set_message (\<lambda>m. m\<lparr>msg_stage := HTTP_ON_HEADER_VALUE,
              msg_header_map := map_emplace h xs (msg_header_map m)\<rparr>) pr)
      else if msg_stage m = HTTP_ON_HEADER_VALUE then
        (if map_of (msg_header_map m) h \<noteq> None
         then (0, set_message (\<lambda>m. m\<lparr>msg_header_map := map_append h xs (msg_header_map m)\<rparr>) pr)
         else (-1, pr))
      else (-1, pr))"

definition on_headers_complete_cb :: message_cb where
  "on_headers_complete_cb pr = (0, set_message (msg_stage_update (\<lambda>_. HTTP_ON_HEADERS_COMPLETE)) pr)"

definition on_body_cb :: "string \<Rightarrow> message_cb" where
  "on_body_cb xs pr = (0, set_message (\<lambda>m. m\<lparr>msg_stage := HTTP_ON_BODY, msg_content := msg_content m @ xs\<rparr>) pr)"

definition on_message_complete_cb :: message_cb where
  "on_message_complete_cb pr =
     (0, set_message (\<lambda>m. m\<lparr>msg_stage := HTTP_ON_MESSAGE_COMPLETE, msg_cur_header := []\<rparr>) pr)"

definition parser_settings :: "url \<Rightarrow> http_message http_settings" where
  "parser_settings junk =
     \<lparr>on_message_begin = Some on_message_begin_cb, on_url = Some (on_url_cb junk), on_status = Some on_status_cb,
      on_header_field = Some on_header_field_cb, on_header_value = Some on_header_value_cb,
      on_headers_complete = Some on_headers_complete_cb, on_body = Some on_body_cb,
      on_message_complete = Some on_message_complete_cb, on_chunk_header = None, on_chunk_complete = None\<rparr>"

subsection \<open>Parsing a buffer\<close>

text \<open>\<open>parse\<close>: the two views of the buffer one after the other, until the message is complete.\<close>

fun parse_slices ::
  "url \<Rightarrow> bytes list \<Rightarrow> nat \<Rightarrow> http_message http_parser \<Rightarrow> (int \<times> http_message http_parser) option" where
  "parse_slices junk [] n m =
     Some (int n, set_message (\<lambda>x. x\<lparr>msg_parsed_length := msg_parsed_length x + n\<rparr>) m)"
| "parse_slices junk (d # ds) n m =
     (if d = [] then parse_slices junk ds n m
      else do {
        (k, m1) \<leftarrow> http_parser_execute (parser_settings junk) d m;
        if hp_errno m1 \<noteq> HPE_OK then Some (-1, m1)
        else if http_message_completed m1 then parse_slices junk [] (n + k) m1
        else parse_slices junk ds (n + k) m1 })"

definition http_message_parse :: "url \<Rightarrow> buffer \<Rightarrow> http_message http_parser \<Rightarrow> (int \<times> http_message http_parser) option" where
  "http_message_parse junk b m = do {
     ds \<leftarrow> gather (buf_ring b) (strs b);
     parse_slices junk ds 0 m }"

subsection \<open>The response\<close>

fun dec :: "nat \<Rightarrow> string" where
  "dec n = (if n < 10 then [char_of (48 + n)] else dec (n div 10) @ [char_of (48 + n mod 10)])"

definition crlf :: string where "crlf = [CR, LF]"

fun append_strings :: "string list \<Rightarrow> buffer \<Rightarrow> buffer option" where
  "append_strings [] b = Some b"
| "append_strings (s # ss) b = do { (b', n) \<leftarrow> append_string b s; append_strings ss b' }"

definition response_headers :: "(string \<times> string) list \<Rightarrow> string list" where
  "response_headers hs =
     concat (map (\<lambda>(k, v). [k, '': '', v, crlf]) (filter (\<lambda>(k, v). k \<noteq> ''content-length'' \<and> k \<noteq> ''content-type'') hs))"

definition response_parts :: "http_message http_parser \<Rightarrow> http_status \<Rightarrow> string \<Rightarrow> string list" where
  "response_parts m status content =
     [''HTTP/'' @ dec (unat (http_major m)) @ ''.'' @ dec (unat (http_minor m)) @ '' '' @ dec (status_number status) @ '' '',
      http_reason status, crlf,
      ''content-length: '' @ dec (length content) @ crlf,
      ''content-type: application/json'' @ crlf]
     @ response_headers (msg_header_map (hp_data m)) @ [crlf, content]"

text \<open>The results of \<open>append\<close> are not looked at.\<close>

definition set_response :: "http_message http_parser \<Rightarrow> buffer \<Rightarrow> http_status \<Rightarrow> string \<Rightarrow> (buffer \<times> bool) option" where
  "set_response m b status content = do {
     b' \<leftarrow> append_strings (response_parts m status content) b;
     Some (b', True) }"

subsection \<open>Safety\<close>

lemma set_message_polite: "hp_errno pr = HPE_OK \<Longrightarrow> polite pr (set_message f pr)"
  by (simp add: polite_def alike_def set_message_def)

lemma parser_settings_polite: "polite_settings (parser_settings junk)"
  unfolding polite_settings_def
proof (intro conjI ballI allI impI)
  fix cb f and pr :: "http_message http_parser"
  assume "cb \<in> {on_message_begin (parser_settings junk), on_headers_complete (parser_settings junk),
      on_message_complete (parser_settings junk), on_chunk_header (parser_settings junk),
      on_chunk_complete (parser_settings junk)}" "cb = Some f" "hp_errno pr = HPE_OK"
  then show "polite pr (snd (f pr))"
    by (auto simp: parser_settings_def on_message_begin_cb_def on_headers_complete_cb_def on_message_complete_cb_def
      set_message_polite)
next
  fix m g xs and pr :: "http_message http_parser"
  assume a: "data_cb m (parser_settings junk) = Some g" and e: "hp_errno pr = HPE_OK"
  have "polite pr pr" using e by (simp add: polite_def)
  then show "polite pr (snd (g xs pr))"
    using a e by (cases m) (auto simp: parser_settings_def on_url_cb_def on_status_cb_def on_header_field_cb_def
      on_header_value_cb_def on_body_cb_def set_message_polite Let_def)
qed

interpretation message: http_client "parser_settings junk"
  by (rule polite_client[OF parser_settings_polite])

text \<open>What parsing promises: the result and the parser it leaves.\<close>

definition parse_result_ok :: "int \<Rightarrow> int \<times> http_message http_parser \<Rightarrow> bool" where
  "parse_result_ok n res \<longleftrightarrow> parser_inv (snd res) \<and> (fst res = - 1 \<longleftrightarrow> hp_errno (snd res) \<noteq> HPE_OK)
     \<and> (fst res = - 1 \<or> 0 \<le> fst res \<and> fst res \<le> n)"

lemma set_message_fields [simp]:
  "parser_inv (set_message f m) = parser_inv m" "hp_errno (set_message f m) = hp_errno m"
  by (simp_all add: set_message_def parser_inv_def parser_ok_def has_flag_def)

lemma parse_slices_ok:
  assumes "parser_inv m" "hp_errno m = HPE_OK"
  shows "\<exists>res. parse_slices junk ds n m = Some res \<and> parse_result_ok (int (n + length (concat ds))) res"
  using assms
proof (induction junk ds n m rule: parse_slices.induct)
  case (1 junk n m)
  then show ?case by (simp add: parse_result_ok_def)
next
  case (2 junk d ds n m)
  show ?case
  proof (cases "d = []")
    case True
    then show ?thesis using 2 by simp
  next
    case False
    obtain k m1 where run: "http_parser_execute (parser_settings junk) d m = Some (k, m1)" and inv: "parser_inv m1"
      and k: "k \<le> length d"
      using execute_returns[OF parser_settings_polite 2(4), of junk d] 2(5) False by auto
    have mono: "parse_result_ok (int (n + length (concat (d # ds)))) res"
      if "parse_result_ok (int (n + k + length (concat xs))) res" "length (concat xs) \<le> length (concat ds)" for res xs
      using that k by (auto simp: parse_result_ok_def)
    note step = parse_slices.simps(2)[of junk d ds n m, unfolded if_not_P[OF False] run, simplified]
    show ?thesis
    proof (cases "hp_errno m1 = HPE_OK")
      case err: False
      then show ?thesis using inv by (simp add: step parse_result_ok_def)
    next
      case ok: True
      show ?thesis
      proof (cases "http_message_completed m1")
        case True
        have "parse_result_ok (int (n + k + length (concat []))) (int (n + k), set_message (\<lambda>x. x\<lparr>msg_parsed_length := msg_parsed_length x + (n + k)\<rparr>) m1)"
          using inv ok by (simp add: parse_result_ok_def)
        from mono[OF this] show ?thesis using ok True by (simp add: step)
      next
        case more: False
        obtain res where "parse_slices junk ds (n + k) m1 = Some res"
          "parse_result_ok (int (n + k + length (concat ds))) res"
          using 2(3)[OF False run refl _ more inv ok] ok by auto
        then show ?thesis using mono[of ds res] ok more by (simp add: step)
      qed
    qed
  qed
qed

lemma gather_views: "map (view_bytes p) vs = map Some ds \<Longrightarrow> gather p vs = Some ds"
  by (induction vs arbitrary: ds) (auto simp: Cons_eq_map_conv)

lemma http_message_new_inv: "parser_inv http_message_new"
  by (simp add: http_message_new_def parser_inv_def http_parser_init_def easy_ok HTTP_MAX_HEADER_SIZE_def)

text \<open>C27: Parsing the input buffer of a connection always returns, whatever the bytes are: it reads only the
  content of the buffer, gives -1 exactly when the parser has recorded an error, and otherwise the number
  of bytes to cut, at most the content; the message can go on with the next bytes.\<close>

theorem http_message_parse_safe:
  assumes "buf_ok k b" "parser_inv m" "hp_errno m = HPE_OK"
  shows "\<exists>ret m'. http_message_parse junk b m = Some (ret, m') \<and> parser_inv m'
    \<and> (ret = - 1 \<longleftrightarrow> hp_errno m' \<noteq> HPE_OK) \<and> (ret = - 1 \<or> 0 \<le> ret \<and> ret \<le> int (length (contents b)))"
proof -
  obtain ds where ds: "gather (buf_ring b) (strs b) = Some ds" "concat ds = contents b"
    using strs_views[OF assms(1)] gather_views by metis
  show ?thesis
    using parse_slices_ok[OF assms(2,3), of junk ds 0] ds
    by (auto simp: http_message_parse_def parse_result_ok_def)
qed

theorem http_message_parse_safe_witness:
  "\<exists>ret m'. http_message_parse http_parser_url_init buffer8_wrapped http_message_new = Some (ret, m') \<and> parser_inv m'"
  using http_message_parse_safe[OF buffer8_wrapped_ok http_message_new_inv, of http_parser_url_init]
  by (auto simp: http_message_new_def init_errno)

end
