(* ===== verification/Http_Request.thy ===== *)
theory Http_Request
  imports Http_Message
begin

text \<open>
  What the parser and the message do with a whole request, from its first byte to the last.
\<close>

section \<open>A request, from its bytes to the message\<close>

text \<open>
  \<open>moves\<close> describes what the loop does with a part of the data: from the state \<open>s\<close> at offset \<open>i\<close> to the
  state \<open>s'\<close> at offset \<open>j\<close>. Of the parser only \<open>core\<close> is followed, the fields that outlive a header line.
  All bytes so far belong to the headers, so \<open>nread\<close> is the offset.
\<close>

definition core :: "'e http_parser \<Rightarrow> 'e http_parser" where
  "core pr = pr\<lparr>hp_index := 0, header_state := h_general, hp_state := s_dead, nread := 0\<rparr>"

definition at_state :: "pstate \<Rightarrow> nat \<Rightarrow> 'e http_parser \<Rightarrow> 'e run \<Rightarrow> bool" where
  "at_state s i c r \<longleftrightarrow> p_state r = s \<and> cur r = i \<and> (\<forall>m. get_mark m r = None) \<and> hp_errno (prs r) = HPE_OK
     \<and> nread (prs r) = of_nat i \<and> core (prs r) = c"

definition moves :: "'e http_settings \<Rightarrow> char list \<Rightarrow> pstate \<times> nat \<times> 'e http_parser \<Rightarrow> pstate \<times> nat \<times> 'e http_parser \<Rightarrow> bool"
  where
  "moves st data x y \<longleftrightarrow> (\<forall>r. at_state (fst x) (fst (snd x)) (snd (snd x)) r \<longrightarrow>
     (\<exists>r'. http_loop st data False r = http_loop st data False r' \<and> at_state (fst y) (fst (snd y)) (snd (snd y)) r'))"

lemma moves_trans [trans]: "moves st data x y \<Longrightarrow> moves st data y z \<Longrightarrow> moves st data x z"
  unfolding moves_def by metis

lemma movesI:
  "(\<And>r. at_state s i c r \<Longrightarrow> \<exists>r'. http_loop st data False r = http_loop st data False r' \<and> at_state s' j c' r') \<Longrightarrow>
     moves st data (s, i, c) (s', j, c')"
  by (simp add: moves_def)

lemma drop_Cons_facts:
  assumes "drop i data = ch # rest"
  shows "i < length data" "data ! i = ch" "drop (Suc i) data = rest"
proof -
  show "i < length data" using assms by (metis drop_eq_Nil2 list.distinct(1) not_le)
  then show "data ! i = ch" "drop (Suc i) data = rest" using assms by (simp_all add: Cons_nth_drop_Suc[symmetric])
qed

text \<open>The next byte of the headers.\<close>

definition byte :: "char \<Rightarrow> 'e run \<Rightarrow> 'e run" where
  "byte ch r = r\<lparr>cur_ch := ch, prs := (prs r)\<lparr>nread := nread (prs r) + 1\<rparr>\<rparr>"

lemma loop_byte:
  assumes "p_state r = s" "cur r = i" "nread (prs r) = of_nat i" "drop i data = ch # rest" "PARSING_HEADER s" "i < 81920"
  shows "http_loop st data False r = http_loop st data True (byte ch r)"
proof -
  note d = drop_Cons_facts[OF assms(4)]
  have "uint (word_of_nat (Suc i) :: 32 word) = int (Suc i)"
    using assms(6) by (simp only: uint_nat unat_of_nat) simp
  then have n: "uint (word_of_nat i + 1 :: 32 word) = int i + 1" by (simp add: add.commute)
  have "COUNT_HEADER_SIZE 1 (r\<lparr>cur_ch := ch\<rparr>) = Inr (byte ch r)"
    using assms(6) n assms(3) by (simp add: COUNT_HEADER_SIZE_def upd_def byte_def HTTP_MAX_HEADER_SIZE_def)
  then show ?thesis using d assms(1,2,5) by (subst http_loop.simps) simp
qed

lemma loop_break':
  assumes "p_state r = s" "cur r = i" "nread (prs r) = of_nat i" "drop i data = ch # rest" "PARSING_HEADER s" "i < 81920"
    and "http_step st data (byte ch r) = Break r1"
  shows "http_loop st data False r = http_loop st data False (r1\<lparr>cur := cur r1 + 1\<rparr>)"
  unfolding loop_byte[OF assms(1-6)] using assms(7) by (subst http_loop.simps) simp

lemma loop_break:
  assumes "at_state s i c r" "drop i data = ch # rest" "PARSING_HEADER s" "i < 81920"
    and "http_step st data (byte ch r) = Break r1"
  shows "http_loop st data False r = http_loop st data False (r1\<lparr>cur := cur r1 + 1\<rparr>)"
  using assms by (intro loop_break') (auto simp: at_state_def)

lemma byte_fields [simp]:
  "p_state (byte ch r) = p_state r" "cur (byte ch r) = cur r" "cur_ch (byte ch r) = ch"
  "prs (byte ch r) = (prs r)\<lparr>nread := nread (prs r) + 1\<rparr>" "get_mark m (byte ch r) = get_mark m r"
  by (simp_all add: byte_def)

lemma core_fields [simp]:
  "core (pr\<lparr>nread := n\<rparr>) = core pr" "core (pr\<lparr>hp_index := k\<rparr>) = core pr" "core (pr\<lparr>header_state := h\<rparr>) = core pr"
  "core (pr\<lparr>hp_state := s\<rparr>) = core pr" "core (core pr) = core pr"
  "core (pr\<lparr>http_major := a\<rparr>) = (core pr)\<lparr>http_major := a\<rparr>" "core (pr\<lparr>http_minor := a\<rparr>) = (core pr)\<lparr>http_minor := a\<rparr>"
  "core (pr\<lparr>hp_method := m\<rparr>) = (core pr)\<lparr>hp_method := m\<rparr>" "core (pr\<lparr>hp_data := d\<rparr>) = (core pr)\<lparr>hp_data := d\<rparr>"
  "core (pr\<lparr>hp_flags := f\<rparr>) = (core pr)\<lparr>hp_flags := f\<rparr>" "core (pr\<lparr>hp_type := t\<rparr>) = (core pr)\<lparr>hp_type := t\<rparr>"
  "core (pr\<lparr>content_length := l\<rparr>) = (core pr)\<lparr>content_length := l\<rparr>"
  "core (pr\<lparr>hp_upgrade := u\<rparr>) = (core pr)\<lparr>hp_upgrade := u\<rparr>"
  by (simp_all add: core_def)

lemma core_proj [simp]:
  "http_major (core pr) = http_major pr" "http_minor (core pr) = http_minor pr" "hp_method (core pr) = hp_method pr"
  "hp_data (core pr) = hp_data pr" "hp_flags (core pr) = hp_flags pr" "hp_type (core pr) = hp_type pr"
  "content_length (core pr) = content_length pr" "hp_upgrade (core pr) = hp_upgrade pr"
  "lenient_http_headers (core pr) = lenient_http_headers pr" "hp_errno (core pr) = hp_errno pr"
  "status_code (core pr) = status_code pr"
  by (simp_all add: core_def)

text \<open>A byte that only changes the state and the core.\<close>

lemma plain_move:
  assumes "drop i data = ch # rest" "PARSING_HEADER s" "i < 81920"
    and "\<And>r. at_state s i c r \<Longrightarrow> http_step st data (byte ch r) = Break (UPDATE_STATE s' (upd f (byte ch r)))"
    and "\<And>pr. nread (f pr) = nread pr \<and> hp_errno (f pr) = hp_errno pr"
    and "\<And>r. at_state s i c r \<Longrightarrow> core (f ((prs r)\<lparr>nread := nread (prs r) + 1\<rparr>)) = c'"
  shows "moves st data (s, i, c) (s', Suc i, c')"
proof (rule movesI)
  fix r assume r: "at_state s i c r"
  let ?r1 = "UPDATE_STATE s' (upd f (byte ch r))"
  have "http_loop st data False r = http_loop st data False (?r1\<lparr>cur := cur ?r1 + 1\<rparr>)"
    by (rule loop_break[OF r assms(1-3) assms(4)[OF r]])
  moreover have "at_state s' (Suc i) c' (?r1\<lparr>cur := cur ?r1 + 1\<rparr>)"
    using r assms(5) assms(6)[OF r] by (simp add: at_state_def)
  ultimately show "\<exists>r'. http_loop st data False r = http_loop st data False r' \<and> at_state s' (Suc i) c' r'" by blast
qed

lemma upd_id: "upd (\<lambda>pr. pr) r = r"
  by (simp add: upd_def)

lemma at_p_state: "at_state s i c r \<Longrightarrow> p_state r = s" "at_state s i c r \<Longrightarrow> core (prs r) = c"
  by (simp_all add: at_state_def)

text \<open>The version and the end of the request line.\<close>

lemma simple_move:
  assumes "drop i data = ch # rest" "PARSING_HEADER s" "i < 81920"
    and "\<And>r. p_state r = s \<Longrightarrow> core (prs r) = c \<Longrightarrow> http_step st data (byte ch r) = Break (UPDATE_STATE s' (byte ch r))"
  shows "moves st data (s, i, c) (s', Suc i, c)"
  using assms by (intro plain_move[where f = "\<lambda>pr. pr"]) (auto simp: upd_id at_p_state)

lemma expect_move:
  assumes "drop i data = ch # rest" "i < 81920" "j = Suc i"
    and "(s, ch, s') \<in> {(s_req_http_start, CHR ''H'', s_req_http_H), (s_req_http_H, CHR ''T'', s_req_http_HT),
      (s_req_http_HT, CHR ''T'', s_req_http_HTT), (s_req_http_HTT, CHR ''P'', s_req_http_HTTP),
      (s_req_http_HTTP, CHR ''/'', s_req_first_http_major), (s_req_http_major, CHR ''.'', s_req_first_http_minor),
      (s_req_http_minor, CR, s_req_line_almost_done), (s_req_line_almost_done, LF, s_header_field_start),
      (s_header_almost_done, LF, s_header_value_lws), (s_header_field_start, CR, s_headers_almost_done)}"
  shows "moves st data (s, i, c) (s', j, c)"
  using assms(4) unfolding assms(3)
  by (intro simple_move[OF assms(1) _ assms(2)])
    (auto simp: http_step_def expect_def do_req_http_start_def do_http_major_def do_req_http_minor_def
      do_req_line_almost_done_def do_header_almost_done_def do_header_field_start_def PARSING_HEADER_def)

lemma digit_one: "digit16 CHR ''1'' = 1" "IS_NUM CHR ''1''"
  by (simp_all add: digit16_def digit_val_def IS_NUM_def)

lemma digit_moves:
  assumes "drop i data = CHR ''1'' # rest" "i < 81920"
  shows "j = Suc i \<Longrightarrow> moves st data (s_req_first_http_major, i, c) (s_req_http_major, j, c\<lparr>http_major := 1\<rparr>)"
    "j = Suc i \<Longrightarrow> moves st data (s_req_first_http_minor, i, c) (s_req_http_minor, j, c\<lparr>http_minor := 1\<rparr>)"
proof -
  note handlers = do_first_http_major_def do_first_http_minor_def digit_one
  note switch = http_step_def at_p_state PARSING_HEADER_def
  show "moves st data (s_req_first_http_major, i, c) (s_req_http_major, j, c\<lparr>http_major := 1\<rparr>)" if "j = Suc i"
    unfolding that using assms by (intro plain_move[where f = "\<lambda>pr. pr\<lparr>http_major := 1\<rparr>"]) (simp_all add: switch, simp_all add: handlers)
  show "moves st data (s_req_first_http_minor, i, c) (s_req_http_minor, j, c\<lparr>http_minor := 1\<rparr>)" if "j = Suc i"
    unfolding that using assms by (intro plain_move[where f = "\<lambda>pr. pr\<lparr>http_minor := 1\<rparr>"]) (simp_all add: switch, simp_all add: handlers)
qed

lemma drop_append_facts: "drop i data = xs @ ys \<Longrightarrow> drop (i + length xs) data = ys"
  by (metis add.commute append_eq_conv_conj drop_drop)

lemma version_moves:
  assumes "drop i data = ''HTTP/1.1'' @ crlf @ rest" "i + 10 < 81920"
  shows "moves st data (s_req_http_start, i, c) (s_header_field_start, i + 10, c\<lparr>http_major := 1, http_minor := 1\<rparr>)"
proof -
  have d: "drop (i + k) data = drop k ''HTTP/1.1'' @ crlf @ rest" if "k \<le> 8" for k
    using drop_append_facts[of i data "take k ''HTTP/1.1''" "drop k ''HTTP/1.1'' @ crlf @ rest"] assms(1) that
    by (simp only: append_assoc[symmetric] append_take_drop_id) simp
  have "drop i data = CHR ''H'' # drop 1 ''HTTP/1.1'' @ crlf @ rest" "drop (i + 1) data = CHR ''T'' # drop 2 ''HTTP/1.1'' @ crlf @ rest"
    "drop (i + 2) data = CHR ''T'' # drop 3 ''HTTP/1.1'' @ crlf @ rest" "drop (i + 3) data = CHR ''P'' # drop 4 ''HTTP/1.1'' @ crlf @ rest"
    "drop (i + 4) data = CHR ''/'' # drop 5 ''HTTP/1.1'' @ crlf @ rest" "drop (i + 5) data = CHR ''1'' # drop 6 ''HTTP/1.1'' @ crlf @ rest"
    "drop (i + 6) data = CHR ''.'' # drop 7 ''HTTP/1.1'' @ crlf @ rest" "drop (i + 7) data = CHR ''1'' # crlf @ rest"
    "drop (i + 8) data = CR # LF # rest"
    using d[of 0] d[of 1] d[of 2] d[of 3] d[of 4] d[of 5] d[of 6] d[of 7] d[of 8] by (simp_all add: crlf_def)
  note e = this
  have "moves st data (s_req_http_start, i, c) (s_req_http_H, i + 1, c)" by (rule expect_move[OF e(1)]) (use assms(2) in simp_all)
  also have "moves st data \<dots> (s_req_http_HT, i + 2, c)" by (rule expect_move[OF e(2)]) (use assms(2) in simp_all)
  also have "moves st data \<dots> (s_req_http_HTT, i + 3, c)" by (rule expect_move[OF e(3)]) (use assms(2) in simp_all)
  also have "moves st data \<dots> (s_req_http_HTTP, i + 4, c)" by (rule expect_move[OF e(4)]) (use assms(2) in simp_all)
  also have "moves st data \<dots> (s_req_first_http_major, i + 5, c)" by (rule expect_move[OF e(5)]) (use assms(2) in simp_all)
  also have "moves st data \<dots> (s_req_http_major, i + 6, c\<lparr>http_major := 1\<rparr>)" by (rule digit_moves(1)[OF e(6)]) (use assms(2) in simp_all)
  also have "moves st data \<dots> (s_req_first_http_minor, i + 7, c\<lparr>http_major := 1\<rparr>)" by (rule expect_move[OF e(7)]) (use assms(2) in simp_all)
  also have "moves st data \<dots> (s_req_http_minor, i + 8, c\<lparr>http_major := 1, http_minor := 1\<rparr>)"
    by (rule digit_moves(2)[OF e(8)]) (use assms(2) in simp_all)
  also have "moves st data \<dots> (s_req_line_almost_done, i + 9, c\<lparr>http_major := 1, http_minor := 1\<rparr>)"
    by (rule expect_move[OF e(9)]) (use assms(2) in simp_all)
  also have "moves st data \<dots> (s_header_field_start, i + 10, c\<lparr>http_major := 1, http_minor := 1\<rparr>)"
    by (rule expect_move[where rest = rest]) (use assms(2) drop_Cons_facts(3)[OF e(9)] in \<open>simp_all add: add.commute\<close>)
  finally show ?thesis .
qed


subsection \<open>The callbacks of a message\<close>

definition url_effect :: "url \<Rightarrow> string \<Rightarrow> http_message \<Rightarrow> http_message" where
  "url_effect junk xs m =
     (let m1 = m\<lparr>msg_stage := HTTP_ON_URL, msg_url := msg_url m @ xs\<rparr> in
      case http_parser_parse_url (msg_url m1) [NUL] False junk of
        None \<Rightarrow> m1
      | Some u \<Rightarrow>
          if UF_PATH \<in> field_set u
          then split_path (take (unat (u_len u UF_PATH)) (drop (unat (u_off u UF_PATH)) (msg_url m1))) m1
          else m1)"

definition field_effect :: "string \<Rightarrow> http_message \<Rightarrow> http_message" where
  "field_effect xs m =
     (let m1 = (if msg_stage m \<noteq> HTTP_ON_HEADER_FIELD
                then m\<lparr>msg_cur_header := [], msg_stage := HTTP_ON_HEADER_FIELD\<rparr> else m)
      in m1\<lparr>msg_cur_header := map tolower (msg_cur_header m1 @ xs)\<rparr>)"

definition value_effect :: "string \<Rightarrow> http_message \<Rightarrow> http_message" where
  "value_effect xs m = m\<lparr>msg_stage := HTTP_ON_HEADER_VALUE,
     msg_header_map := map_emplace (msg_cur_header m) xs (msg_header_map m)\<rparr>"

definition body_effect :: "string \<Rightarrow> http_message \<Rightarrow> http_message" where
  "body_effect xs m = m\<lparr>msg_stage := HTTP_ON_BODY, msg_content := msg_content m @ xs\<rparr>"

definition complete_effect :: "http_message \<Rightarrow> http_message" where
  "complete_effect m = m\<lparr>msg_stage := HTTP_ON_MESSAGE_COMPLETE, msg_cur_header := []\<rparr>"

lemma callbacks:
  "on_message_begin (parser_settings junk) = Some (\<lambda>pr. (0, set_message (msg_stage_update (\<lambda>_. HTTP_ON_MESSAGE_BEGIN)) pr))"
  "on_headers_complete (parser_settings junk) = Some (\<lambda>pr. (0, set_message (msg_stage_update (\<lambda>_. HTTP_ON_HEADERS_COMPLETE)) pr))"
  "on_message_complete (parser_settings junk) = Some (\<lambda>pr. (0, set_message complete_effect pr))"
  "data_cb M_url (parser_settings junk) = Some (\<lambda>xs pr. (0, set_message (url_effect junk xs) pr))"
  "data_cb M_header_field (parser_settings junk) = Some (\<lambda>xs pr. (0, set_message (field_effect xs) pr))"
  "data_cb M_body (parser_settings junk) = Some (\<lambda>xs pr. (0, set_message (body_effect xs) pr))"
  by (simp_all add: parser_settings_def fun_eq_iff on_message_begin_cb_def on_headers_complete_cb_def
    on_message_complete_cb_def on_url_cb_def on_header_field_cb_def on_body_cb_def url_effect_def field_effect_def
    body_effect_def complete_effect_def set_message_def Let_def)

lemma value_callback:
  "data_cb M_header_value (parser_settings junk) = Some on_header_value_cb"
  "msg_cur_header (hp_data pr) \<noteq> [] \<Longrightarrow> msg_stage (hp_data pr) = HTTP_ON_HEADER_FIELD \<Longrightarrow>
     on_header_value_cb xs pr = (0, set_message (value_effect xs) pr)"
  by (simp_all add: parser_settings_def on_header_value_cb_def value_effect_def set_message_def Let_def)

lemma set_message_run [simp]:
  "core (set_message g pr) = set_message g (core pr)" "hp_errno (set_message g pr) = hp_errno pr"
  "nread (set_message g pr) = nread pr" "header_state (set_message g pr) = header_state pr"
  "hp_state (set_message g pr) = hp_state pr" "content_length (set_message g pr) = content_length pr"
  "hp_flags (set_message g pr) = hp_flags pr" "hp_type (set_message g pr) = hp_type pr"
  "hp_method (set_message g pr) = hp_method pr" "hp_index (set_message g pr) = hp_index pr"
  "http_major (set_message g pr) = http_major pr" "http_minor (set_message g pr) = http_minor pr"
  "status_code (set_message g pr) = status_code pr" "hp_upgrade (set_message g pr) = hp_upgrade pr"
  "hp_data (set_message g pr) = g (hp_data pr)" "lenient_http_headers (set_message g pr) = lenient_http_headers pr"
  by (simp_all add: set_message_def core_def)

lemma notify_calm:
  "hp_errno (prs r) = HPE_OK \<Longrightarrow>
     callback_notify e (Some (\<lambda>pr. (0, set_message g pr))) er r = Inr (r\<lparr>prs := set_message g ((prs r)\<lparr>hp_state := p_state r\<rparr>)\<rparr>)"
  by (simp add: callback_notify_def Let_def)

lemma data_calm:
  assumes "hp_errno (prs r) = HPE_OK" "get_mark m r = Some k" "k \<le> stop" "stop \<le> length data"
    and "data_cb m st = Some f" "f (take (stop - k) (drop k data)) ((prs r)\<lparr>hp_state := p_state r\<rparr>) =
      (0, set_message g ((prs r)\<lparr>hp_state := p_state r\<rparr>))"
  shows "callback_data st data m stop er r =
      Inr (put_mark m None (r\<lparr>prs := set_message g ((prs r)\<lparr>hp_state := p_state r\<rparr>)\<rparr>))"
  using assms by (simp add: callback_data_def Let_def)

lemma put_mark_fields [simp]:
  "prs (put_mark m v r) = prs r" "p_state (put_mark m v r) = p_state r" "cur (put_mark m v r) = cur r"
  "cur_ch (put_mark m v r) = cur_ch r" "get_mark m' (put_mark m v r) = (if m' = m then v else get_mark m' r)"
  by (cases m; cases m'; simp)+


subsection \<open>The request line\<close>

text \<open>One character of the method: the method and the index after it.\<close>

definition method_next :: "http_method \<times> nat \<Rightarrow> char \<Rightarrow> (http_method \<times> nat) option" where
  "method_next x ch =
     (let m = fst x; i = snd x in
      if ch = NUL \<or> length (method_strings m) < i then None
      else if ch = (method_strings m @ [NUL]) ! i then Some (m, i + 1)
      else if IS_ALPHA ch then map_option (\<lambda>m'. (m', i + 1)) (map_of method_changes (m, i, ch))
      else if ch = CHR ''-'' \<and> i = 1 \<and> m = HTTP_MKCOL then Some (HTTP_MSEARCH, i + 1) else None)"

fun method_run :: "http_method \<times> nat \<Rightarrow> string \<Rightarrow> (http_method \<times> nat) option" where
  "method_run x [] = Some x"
| "method_run x (ch # cs) = (case method_next x ch of None \<Rightarrow> None | Some y \<Rightarrow> method_run y cs)"

lemma method_read:
  "m \<noteq> HTTP_HEAD \<Longrightarrow> \<exists>m0. first_method (hd (method_strings m)) = Some m0 \<and>
     method_run (m0, 1) (tl (method_strings m)) = Some (m, length (method_strings m))"
  by (cases m; simp add: first_method_def method_next_def method_changes_def IS_ALPHA_def NUL_def)

lemma method_chars:
  "\<forall>ch \<in> set (method_strings m). ch \<noteq> NUL \<and> ch \<noteq> CHR '' ''"
  "length (method_strings m) < 128" "method_strings m \<noteq> []"
  "IS_ALPHA (hd (method_strings m)) \<and> hd (method_strings m) \<noteq> CR \<and> hd (method_strings m) \<noteq> LF"
  "m \<noteq> HTTP_HEAD \<Longrightarrow> hd (method_strings m) \<noteq> CHR ''H''"
  by (cases m; simp add: NUL_def CR_def LF_def IS_ALPHA_def)+

text \<open>The state while the method is read: the index counts too.\<close>

definition at_method :: "http_method \<Rightarrow> nat \<Rightarrow> nat \<Rightarrow> 'e http_parser \<Rightarrow> 'e run \<Rightarrow> bool" where
  "at_method m k i c r \<longleftrightarrow> at_state s_req_method i (c\<lparr>hp_method := m\<rparr>) r \<and> hp_index (prs r) = k"


lemma method_next_step:
  assumes "at_method m k i c r" "drop i data = ch # rest" "i < 81920" "method_next (m, k) ch = Some (m', k')"
    "ch \<noteq> CHR '' ''" "k < 127"
  shows "\<exists>r'. http_loop st data False r = http_loop st data False r' \<and> at_method m' k' (Suc i) c r'"
proof -
  have at: "at_state s_req_method i (c\<lparr>hp_method := m\<rparr>) r" and k: "hp_index (prs r) = k" using assms(1) by (auto simp: at_method_def)
  have m: "hp_method (prs r) = m" using at_p_state(2)[OF at] 
    using core_proj(3)[of "prs r"] by simp
  let ?r1 = "upd next_index (upd (\<lambda>pr. pr\<lparr>hp_method := m'\<rparr>) (byte ch r))"
  have k': "k' = k + 1" using assms(4) by (auto simp: method_next_def Let_def split: if_splits)
  have id: "(prs r)\<lparr>nread := n, hp_method := m\<rparr> = (prs r)\<lparr>nread := n\<rparr>" for n
    using m by simp
  have "do_req_method (byte ch r) = Break ?r1"
    using assms(4,5) m k id
    unfolding do_req_method_def Let_def method_next_def fst_conv snd_conv
    by (auto simp: upd_def split: if_splits option.splits)
  then have "http_step st data (byte ch r) = Break ?r1"
    using at_p_state(1)[OF at] by (simp add: http_step_def)
  note loop = loop_break[OF at assms(2) _ assms(3) this]
  have "at_method m' k' (Suc i) c (?r1\<lparr>cur := cur ?r1 + 1\<rparr>)"
    using at k k' assms(6) by (simp add: at_method_def at_state_def next_index_def)
  then show ?thesis using loop by (auto simp: PARSING_HEADER_def)
qed

lemma method_moves:
  assumes "method_run (m, k) cs = Some (m', k')" "at_method m k i c r" "drop i data = cs @ rest" "i + length cs \<le> 81920"
    "\<forall>ch \<in> set cs. ch \<noteq> CHR '' ''" "k + length cs < 128"
  shows "\<exists>r'. http_loop st data False r = http_loop st data False r' \<and> at_method m' k' (i + length cs) c r'"
  using assms
proof (induction cs arbitrary: m k i r)
  case Nil
  then show ?case by auto
next
  case (Cons ch cs)
  obtain m1 k1 where x: "method_next (m, k) ch = Some (m1, k1)" using Cons.prems(1) by (auto split: option.splits)
  have k1: "k1 = k + 1" using x by (auto simp: method_next_def Let_def split: if_splits)
  have d: "drop i data = ch # (cs @ rest)" using Cons.prems(3) by simp
  obtain r1 where r1: "http_loop st data False r = http_loop st data False r1" "at_method m1 k1 (Suc i) c r1"
    using method_next_step[OF Cons.prems(2) d _ x] Cons.prems(4-6) by auto
  have "method_run (m1, k1) cs = Some (m', k')" using Cons.prems(1) x by simp
  from Cons.IH[OF this r1(2) drop_Cons_facts(3)[OF d]] show ?case
    using Cons.prems(4-6) k1 r1(1) by auto
qed


text \<open>The start of a message of a parser that takes both kinds.\<close>

definition begin_core :: "http_method \<Rightarrow> http_message http_parser \<Rightarrow> http_message http_parser" where
  "begin_core m c = set_message (msg_stage_update (\<lambda>_. HTTP_ON_MESSAGE_BEGIN))
     (c\<lparr>hp_flags := 0, content_length := ULLONG_MAX, hp_type := HTTP_REQUEST, hp_method := m\<rparr>)"

lemma begin_moves:
  assumes "at_state s_start_req_or_res i c r" "drop i data = ch # rest" "i < 81920" "first_method ch = Some m"
    "IS_ALPHA ch" "ch \<noteq> CR" "ch \<noteq> LF" "ch \<noteq> CHR ''H''"
  shows "\<exists>r'. http_loop (parser_settings junk) data False r = http_loop (parser_settings junk) data False r'
    \<and> at_method m 1 (Suc i) (begin_core m c) r'"
proof -
  let ?st = "parser_settings junk" and ?r = "byte ch r"
  let ?r1 = "UPDATE_STATE s_start_req (upd (\<lambda>pr. pr\<lparr>hp_type := HTTP_REQUEST\<rparr>) (upd start_message ?r))"
  let ?r2 = "UPDATE_STATE s_req_method (upd (\<lambda>pr. pr\<lparr>hp_method := m\<rparr>)
    (upd (\<lambda>pr. pr\<lparr>hp_method := HTTP_DELETE, hp_index := 1\<rparr>) (upd start_message ?r1)))"
  let ?r3 = "?r2\<lparr>prs := set_message (msg_stage_update (\<lambda>_. HTTP_ON_MESSAGE_BEGIN)) ((prs ?r2)\<lparr>hp_state := p_state ?r2\<rparr>)\<rparr>"
  have at: "p_state r = s_start_req_or_res" "cur r = i" "nread (prs r) = of_nat i" "hp_errno (prs r) = HPE_OK"
    using assms(1) by (simp_all add: at_state_def)
  have "http_step ?st data ?r = do_start_req_or_res ?st ?r" using at by (simp add: http_step_def)
  also have "\<dots> = Reexec ?r1" using assms(6-8) by (simp add: do_start_req_or_res_def Let_def)
  finally have s1: "http_step ?st data ?r = Reexec ?r1" .
  have "http_step ?st data ?r1 = do_start_req ?st ?r1" by (simp add: http_step_def)
  also have "\<dots> = and_then (callback_notify HPE_CB_message_begin (on_message_begin ?st) (cur ?r1 + 1) ?r2) Break"
    using assms(4-7) by (simp add: do_start_req_def Let_def)
  also have "\<dots> = Break ?r3"
    unfolding callbacks using at by (subst notify_calm) (simp_all add: start_message_def and_then_def)
  finally have s2: "http_step ?st data ?r1 = Break ?r3" .
  have "http_loop ?st data False r = http_loop ?st data True ?r"
    by (rule loop_byte[OF at(1-3) assms(2) _ assms(3)]) (simp add: PARSING_HEADER_def)
  also have "\<dots> = http_loop ?st data True ?r1" using s1 by (subst http_loop.simps) simp
  also have "\<dots> = http_loop ?st data False (?r3\<lparr>cur := cur ?r3 + 1\<rparr>)" using s2 by (subst http_loop.simps) simp
  finally have loop: "http_loop ?st data False r = http_loop ?st data False (?r3\<lparr>cur := cur ?r3 + 1\<rparr>)" .
  have "at_method m 1 (Suc i) (begin_core m c) (?r3\<lparr>cur := cur ?r3 + 1\<rparr>)"
    using assms(1) by (auto simp: at_method_def at_state_def start_message_def begin_core_def set_message_def)
  then show ?thesis using loop by blast
qed

lemma method_end_moves:
  assumes "at_method m (length (method_strings m)) i c r" "drop i data = CHR '' '' # rest" "i < 81920"
  shows "\<exists>r'. http_loop st data False r = http_loop st data False r' \<and> at_state s_req_spaces_before_url (Suc i) (c\<lparr>hp_method := m\<rparr>) r'"
proof -
  have at: "at_state s_req_method i (c\<lparr>hp_method := m\<rparr>) r" and k: "hp_index (prs r) = length (method_strings m)"
    using assms(1) by (auto simp: at_method_def)
  have m: "hp_method (prs r) = m" using at_p_state(2)[OF at] core_proj(3)[of "prs r"] by simp
  let ?r1 = "upd next_index (UPDATE_STATE s_req_spaces_before_url (byte CHR '' '' r))"
  have "http_step st data (byte CHR '' '' r) = do_req_method (byte CHR '' '' r)"
    using at_p_state(1)[OF at] by (simp add: http_step_def)
  also have "\<dots> = Break ?r1" using k m by (simp add: do_req_method_def Let_def NUL_def)
  finally have step: "http_step st data (byte CHR '' '' r) = Break ?r1" .
  have "http_loop st data False r = http_loop st data False (?r1\<lparr>cur := cur ?r1 + 1\<rparr>)"
    by (rule loop_break[OF at assms(2) _ assms(3) step]) (simp add: PARSING_HEADER_def)
  moreover have "at_state s_req_spaces_before_url (Suc i) (c\<lparr>hp_method := m\<rparr>) (?r1\<lparr>cur := cur ?r1 + 1\<rparr>)"
    using at by (simp add: at_state_def next_index_def)
  ultimately show ?thesis by blast
qed

text \<open>Within the URL, a name or a value: its mark is set.\<close>

definition at_mark :: "mark \<Rightarrow> nat \<Rightarrow> pstate \<Rightarrow> nat \<Rightarrow> 'e http_parser \<Rightarrow> 'e run \<Rightarrow> bool" where
  "at_mark mk k s i c r \<longleftrightarrow> p_state r = s \<and> cur r = i \<and> (\<forall>m. get_mark m r = (if m = mk then Some k else None))
     \<and> hp_errno (prs r) = HPE_OK \<and> nread (prs r) = of_nat i \<and> core (prs r) = c"

lemma marked_break:
  assumes "at_mark mk k s i c r" "drop i data = ch # rest" "PARSING_HEADER s" "i < 81920"
    and "http_step st data (byte ch r) = Break r1"
  shows "http_loop st data False r = http_loop st data False (r1\<lparr>cur := cur r1 + 1\<rparr>)"
  using assms by (intro loop_break') (auto simp: at_mark_def)

lemma url_first:
  assumes "at_state s_req_spaces_before_url i c r" "drop i data = ch # rest" "i < 81920"
    and "hp_method c \<noteq> HTTP_CONNECT" "ch \<noteq> CHR '' ''" "parse_url_char s_req_spaces_before_url ch \<noteq> s_dead"
  shows "\<exists>r'. http_loop st data False r = http_loop st data False r'
    \<and> at_mark M_url i (parse_url_char s_req_spaces_before_url ch) (Suc i) c r'"
proof -
  have m: "hp_method (prs r) = hp_method c" using at_p_state(2)[OF assms(1)] core_proj(3)[of "prs r"] by simp
  let ?r1 = "UPDATE_STATE (parse_url_char s_req_spaces_before_url ch) (put_mark M_url (Some i) (byte ch r))"
  have "http_step st data (byte ch r) = do_req_spaces_before_url (byte ch r)"
    using at_p_state(1)[OF assms(1)] by (simp add: http_step_def)
  also have "\<dots> = Break ?r1" using assms(1,4-6) m by (simp add: do_req_spaces_before_url_def url_char_def MARK_def Let_def at_state_def)
  finally have step: "http_step st data (byte ch r) = Break ?r1" .
  have "http_loop st data False r = http_loop st data False (?r1\<lparr>cur := cur ?r1 + 1\<rparr>)"
    by (rule loop_break[OF assms(1,2) _ assms(3) step]) (simp add: PARSING_HEADER_def)
  moreover have "at_mark M_url i (parse_url_char s_req_spaces_before_url ch) (Suc i) c (?r1\<lparr>cur := cur ?r1 + 1\<rparr>)"
    using assms(1) by (simp add: at_mark_def at_state_def del: put_mark.simps)
  ultimately show ?thesis by blast
qed

definition url_end_states :: "pstate set" where
  "url_end_states = {s_req_server, s_req_server_with_at, s_req_path, s_req_query_string_start, s_req_query_string,
     s_req_fragment_start, s_req_fragment}"

lemma url_char_sets: "url_server_char ch \<in> insert s_dead url_states" "url_query_char ch \<in> insert s_dead url_states"
  by (simp_all add: url_server_char_def url_query_char_def url_states_def)

lemma parse_url_char_states:
  "parse_url_char s_dead ch = s_dead"
  "parse_url_char s ch \<noteq> s_dead \<Longrightarrow> ch \<noteq> CHR '' '' \<and> ch \<noteq> CR \<and> ch \<noteq> LF"
  "parse_url_char s ch \<noteq> s_dead \<Longrightarrow> parse_url_char s ch \<in> url_states"
proof -
  show "parse_url_char s_dead ch = s_dead" by (simp add: parse_url_char_def)
  assume a: "parse_url_char s ch \<noteq> s_dead"
  then show c: "ch \<noteq> CHR '' '' \<and> ch \<noteq> CR \<and> ch \<noteq> LF" by (auto simp only: parse_url_char_def simp_thms if_True)
  have "parse_url_char s ch \<in> insert s_dead url_states"
    using url_char_sets[of ch] c unfolding parse_url_char_def
    by (cases s; simp only: pstate.case if_False simp_thms; auto simp: url_states_def split: if_splits)
  then show "parse_url_char s ch \<in> url_states" using a by simp
qed

lemma url_next:
  assumes "at_mark M_url k s i c r" "drop i data = ch # rest" "i < 81920" "s \<in> url_states" "parse_url_char s ch \<noteq> s_dead"
  shows "\<exists>r'. http_loop st data False r = http_loop st data False r' \<and> at_mark M_url k (parse_url_char s ch) (Suc i) c r'"
proof -
  let ?r1 = "UPDATE_STATE (parse_url_char s ch) (byte ch r)"
  have p: "p_state r = s" using assms(1) by (simp add: at_mark_def)
  have "http_step st data (byte ch r) \<in> {do_req_url_start (byte ch r), do_req_url st data (byte ch r)}"
    using assms(4) p by (auto simp: http_step_def url_states_def)
  then have step: "http_step st data (byte ch r) = Break ?r1"
    using parse_url_char_states(2)[OF assms(5)] p assms(5)
    by (auto simp: do_req_url_start_def do_req_url_def url_char_def Let_def)
  have "http_loop st data False r = http_loop st data False (?r1\<lparr>cur := cur ?r1 + 1\<rparr>)"
    by (rule marked_break[OF assms(1,2) _ assms(3) step]) (use assms(4) in \<open>auto simp: PARSING_HEADER_def url_states_def\<close>)
  moreover have "at_mark M_url k (parse_url_char s ch) (Suc i) c (?r1\<lparr>cur := cur ?r1 + 1\<rparr>)"
    using assms(1) by (simp add: at_mark_def)
  ultimately show ?thesis by blast
qed

lemma url_dead: "foldl parse_url_char s_dead us = s_dead"
  by (induction us) (simp_all add: parse_url_char_states(1))

lemma url_moves:
  assumes "at_mark M_url k s i c r" "drop i data = us @ rest" "i + length us \<le> 81920" "s \<in> url_states"
    "foldl parse_url_char s us \<noteq> s_dead"
  shows "\<exists>r'. http_loop st data False r = http_loop st data False r'
    \<and> at_mark M_url k (foldl parse_url_char s us) (i + length us) c r'"
  using assms
proof (induction us arbitrary: s i r)
  case Nil
  then show ?case by auto
next
  case (Cons u us)
  have d: "drop i data = u # (us @ rest)" using Cons.prems(2) by simp
  have live: "parse_url_char s u \<noteq> s_dead" using Cons.prems(5) url_dead by (metis foldl_Cons)
  obtain r1 where r1: "http_loop st data False r = http_loop st data False r1"
      "at_mark M_url k (parse_url_char s u) (Suc i) c r1"
    using url_next[OF Cons.prems(1) d _ Cons.prems(4) live] Cons.prems(3) by auto
  show ?case
    using Cons.IH[OF r1(2) drop_Cons_facts(3)[OF d] _ parse_url_char_states(3)[OF live]] Cons.prems(3,5) r1(1) by auto
qed

lemma url_end_moves:
  assumes "at_mark M_url k s i c r" "drop i data = CHR '' '' # rest" "i < 81920" "s \<in> url_end_states"
    and "k \<le> i" "take (i - k) (drop k data) = url"
  shows "\<exists>r'. http_loop (parser_settings junk) data False r = http_loop (parser_settings junk) data False r'
    \<and> at_state s_req_http_start (Suc i) (set_message (url_effect junk url) c) r'"
proof -
  let ?st = "parser_settings junk" and ?r = "UPDATE_STATE s_req_http_start (byte CHR '' '' r)"
  have p: "p_state r = s" "cur r = i" "hp_errno (prs r) = HPE_OK" using assms(1) by (simp_all add: at_mark_def)
  have "i < length data" using drop_Cons_facts[OF assms(2)] by simp
  then have cb: "CALLBACK_DATA ?st data M_url ?r =
      Inr (put_mark M_url None (?r\<lparr>prs := set_message (url_effect junk url) ((prs ?r)\<lparr>hp_state := p_state ?r\<rparr>)\<rparr>))"
    using assms(1,5,6) p by (intro data_calm[where k = k]) (auto simp: callbacks(4) at_mark_def simp del: data_cb.simps)
  let ?r1 = "put_mark M_url None (?r\<lparr>prs := set_message (url_effect junk url) ((prs ?r)\<lparr>hp_state := p_state ?r\<rparr>)\<rparr>)"
  have "http_step ?st data (byte CHR '' '' r) = do_req_url ?st data (byte CHR '' '' r)"
    using assms(4) p by (auto simp: http_step_def url_end_states_def)
  also have "\<dots> = Break ?r1" unfolding do_req_url_def cb byte_fields if_P[OF refl] and_then_def by simp
  finally have step: "http_step ?st data (byte CHR '' '' r) = Break ?r1" .
  have "http_loop ?st data False r = http_loop ?st data False (?r1\<lparr>cur := cur ?r1 + 1\<rparr>)"
    by (rule marked_break[OF assms(1,2) _ assms(3) step]) (use assms(4) in \<open>auto simp: PARSING_HEADER_def url_end_states_def\<close>)
  moreover have "at_state s_req_http_start (Suc i) (set_message (url_effect junk url) c) (?r1\<lparr>cur := cur ?r1 + 1\<rparr>)"
    using assms(1) by (simp add: at_mark_def at_state_def del: put_mark.simps)
  ultimately show ?thesis by blast
qed


subsection \<open>Header lines\<close>

definition at_line :: "nat \<Rightarrow> 'e http_parser \<Rightarrow> 'e run \<Rightarrow> bool" where
  "at_line i c r \<longleftrightarrow> at_state s_header_field_start i c r
     \<or> at_state s_header_value_lws i c r \<and> header_state (prs r) \<in> {h_general, h_content_length}"

lemma token_not:
  assumes "TOKEN ch \<noteq> NUL"
  shows "ch \<noteq> CR" "ch \<noteq> LF" "ch \<noteq> CHR '' ''" "ch \<noteq> HT"
proof -
  have "TOKEN CR = NUL" "TOKEN LF = NUL" "TOKEN CHR '' '' = NUL" "TOKEN HT = NUL"
    by (simp_all add: TOKEN_def CR_def LF_def HT_def)
  then show "ch \<noteq> CR" "ch \<noteq> LF" "ch \<noteq> CHR '' ''" "ch \<noteq> HT" using assms by (metis, metis, metis, metis)
qed

lemma line_reexec:
  assumes "at_line i c r" "drop i data = ch # rest" "i < 81920" "ch \<noteq> CHR '' ''" "ch \<noteq> HT"
  shows "\<exists>r0. http_loop st data False r = http_loop st data True (byte ch r0) \<and> at_state s_header_field_start i c r0"
  using assms(1) unfolding at_line_def
proof (elim disjE conjE)
  assume a: "at_state s_header_field_start i c r"
  have "http_loop st data False r = http_loop st data True (byte ch r)"
    using a assms(2,3) by (intro loop_byte) (auto simp: at_state_def PARSING_HEADER_def)
  then show ?thesis using a by blast
next
  assume a: "at_state s_header_value_lws i c r" and h: "header_state (prs r) \<in> {h_general, h_content_length}"
  have "http_loop st data False r = http_loop st data True (byte ch r)"
    using a assms(2,3) by (intro loop_byte) (auto simp: at_state_def PARSING_HEADER_def)
  also have "header_done (prs (byte ch r)) = prs (byte ch r)" using h by (auto simp: header_done_def)
  then have "http_step st data (byte ch r) = Reexec (byte ch (r\<lparr>p_state := s_header_field_start\<rparr>))"
    using assms(4,5) at_p_state(1)[OF a]
    by (simp add: http_step_def do_header_value_lws_def UPDATE_STATE_def upd_def byte_def)
  then have "http_loop st data True (byte ch r) = http_loop st data True (byte ch (r\<lparr>p_state := s_header_field_start\<rparr>))"
    by (subst http_loop.simps) simp
  finally show ?thesis using a by (intro exI[of _ "r\<lparr>p_state := s_header_field_start\<rparr>"]) (simp add: at_state_def)
qed

lemma line_first:
  assumes "at_line i c r" "drop i data = ch # rest" "i < 81920" "TOKEN ch \<noteq> NUL"
  shows "\<exists>r'. http_loop st data False r = http_loop st data False r' \<and> at_mark M_header_field i s_header_field (Suc i) c r'
    \<and> header_state (prs r') = header_field_state (TOKEN ch) \<and> hp_index (prs r') = 0"
proof -
  note t = token_not[OF assms(4)]
  obtain r0 where r0: "http_loop st data False r = http_loop st data True (byte ch r0)" and a: "at_state s_header_field_start i c r0"
    using line_reexec[OF assms(1-3) t(3,4)] by blast
  let ?r1 = "upd (\<lambda>pr. pr\<lparr>hp_index := 0, header_state := header_field_state (TOKEN ch)\<rparr>)
    (UPDATE_STATE s_header_field (put_mark M_header_field (Some i) (byte ch r0)))"
  have "http_step st data (byte ch r0) = do_header_field_start (byte ch r0)"
    using at_p_state(1)[OF a] by (simp add: http_step_def)
  also have "\<dots> = Break ?r1"
    using a t assms(4) by (simp add: do_header_field_start_def Let_def MARK_def at_state_def)
  finally have "http_loop st data True (byte ch r0) = http_loop st data False (?r1\<lparr>cur := cur ?r1 + 1\<rparr>)"
    by (subst http_loop.simps) simp
  moreover have "at_mark M_header_field i s_header_field (Suc i) c (?r1\<lparr>cur := cur ?r1 + 1\<rparr>)"
    using a by (simp add: at_mark_def at_state_def del: put_mark.simps)
  ultimately show ?thesis using r0 by (intro exI[of _ "?r1\<lparr>cur := cur ?r1 + 1\<rparr>"]) simp
qed

lemma COUNT_calm:
  assumes "nread (prs r) = of_nat a" "a + v \<le> 81920"
  shows "COUNT_HEADER_SIZE v r = Inr (upd (\<lambda>pr. pr\<lparr>nread := of_nat (a + v)\<rparr>) r)"
proof -
  have "uint (word_of_nat (a + v) :: 32 word) = int (a + v)"
    using assms(2) by (simp only: uint_nat unat_of_nat) simp
  then have "uint (word_of_nat a + word_of_nat v :: 32 word) = int (a + v)" by (simp only: of_nat_add)
  then show ?thesis using assms
    by (simp add: COUNT_HEADER_SIZE_def upd_def HTTP_MAX_HEADER_SIZE_def Let_def)
qed

definition same_core :: "'e http_parser \<Rightarrow> 'e http_parser \<Rightarrow> bool" where
  "same_core pr pr' \<longleftrightarrow> (core pr')\<lparr>hp_flags := 0\<rparr> = (core pr)\<lparr>hp_flags := 0\<rparr> \<and> hp_errno pr' = hp_errno pr \<and> nread pr' = nread pr"

lemma same_core_simps [simp]:
  "same_core pr pr" "same_core pr (p\<lparr>header_state := h\<rparr>) = same_core pr p" "same_core pr (next_index p) = same_core pr p"
  "same_core pr (add_flag f p) = same_core pr p"
  by (auto simp: same_core_def core_def next_index_def add_flag_def)

lemma same_core_match: "same_core pr (match_field w found c pr)"
  by (simp add: match_field_def Let_def split: matched.split)

lemma field_char_core: "header_field_char t ch pr = Step pr' \<Longrightarrow> same_core pr pr'"
  using same_core_match[of pr]
  by (cases "header_state pr"; simp only: header_field_char_def hstate.case Let_def;
      auto split: if_splits matched.splits)

lemma same_core_trans: "same_core p q \<Longrightarrow> same_core q r \<Longrightarrow> same_core p r"
  by (simp add: same_core_def)

lemma same_coreD:
  assumes "same_core pr pr'"
  shows "core pr' = (core pr)\<lparr>hp_flags := hp_flags pr'\<rparr>" "hp_errno pr' = hp_errno pr" "nread pr' = nread pr"
proof -
  have "(core pr')\<lparr>hp_flags := hp_flags pr'\<rparr> = (core pr)\<lparr>hp_flags := hp_flags pr'\<rparr>"
    using arg_cong[OF conjunct1[OF assms[unfolded same_core_def]], of "\<lambda>p. p\<lparr>hp_flags := hp_flags pr'\<rparr>"] by simp
  moreover have "(core pr')\<lparr>hp_flags := hp_flags pr'\<rparr> = core pr'" by (cases pr') (simp add: core_def)
  ultimately show "core pr' = (core pr)\<lparr>hp_flags := hp_flags pr'\<rparr>" by simp
qed (use assms in \<open>simp_all add: same_core_def\<close>)

lemma name_chars_core: "name_chars cs pr = Some pr' \<Longrightarrow> same_core pr pr'"
proof (induction cs arbitrary: pr)
  case Nil
  then show ?case by simp
next
  case (Cons ch cs)
  then obtain p where p: "header_field_char (TOKEN ch) ch pr = Step p" "name_chars cs p = Some pr'"
    by (cases "header_field_char (TOKEN ch) ch pr") simp_all
  show ?case by (rule same_core_trans[OF field_char_core[OF p(1)] Cons.IH[OF p(2)]])
qed

lemma name_moves:
  assumes "at_mark M_header_field k s_header_field i c r" "drop i data = cs @ CHR '':'' # rest"
    "i + length cs < 81920" "\<forall>ch \<in> set cs. TOKEN ch \<noteq> NUL"
    "name_chars cs ((prs r)\<lparr>nread := nread (prs r) + 1\<rparr>) = Some pr'"
    "k \<le> i" "take (i + length cs - k) (drop k data) = nm"
  shows "\<exists>r'. http_loop (parser_settings junk) data False r = http_loop (parser_settings junk) data False r'
    \<and> at_state s_header_value_discard_ws (Suc (i + length cs)) (set_message (field_effect nm) (c\<lparr>hp_flags := hp_flags pr'\<rparr>)) r'
    \<and> header_state (prs r') = header_state pr'"
proof -
  let ?st = "parser_settings junk" and ?j = "i + length cs"
  define ch where "ch = hd (cs @ [CHR '':''])"
  obtain rest' where d: "drop i data = ch # rest'" using assms(2) by (cases cs) (auto simp: ch_def)
  have at: "p_state r = s_header_field" "cur r = i" "hp_errno (prs r) = HPE_OK" "nread (prs r) = of_nat i" "core (prs r) = c"
    "\<And>m. get_mark m r = (if m = M_header_field then Some k else None)"
    using assms(1) by (simp_all add: at_mark_def)
  have "drop ?j data = CHR '':'' # rest" by (rule drop_append_facts[OF assms(2)])
  then have len: "?j < length data" by (rule drop_Cons_facts)
  define r1 where "r1 = (byte ch r)\<lparr>prs := pr', cur := ?j, cur_ch := CHR '':''\<rparr>"
  have "header_field_loop (drop (cur (byte ch r)) data) (byte ch r) = Inr r1"
    unfolding byte_fields at(2) assms(2) using header_field_loop_name(1)[OF assms(4) colon, of "byte ch r" pr' rest] assms(5) at(2)
    by (simp add: r1_def)
  note loop = this
  note pr' = same_coreD[OF name_chars_core[OF assms(5)]]
  have n1: "nread (prs r1) = of_nat (Suc i)" using pr' at(4) by (simp add: r1_def)
  define r2 where "r2 = upd (\<lambda>pr. pr\<lparr>nread := of_nat (Suc i + length cs)\<rparr>) r1"
  have count: "COUNT_HEADER_SIZE (cur r1 - cur (byte ch r)) r1 = Inr r2"
    unfolding r2_def by (rule COUNT_calm[OF n1, THEN trans]) (use assms(3) at(2) in \<open>simp_all add: r1_def\<close>)
  let ?r = "UPDATE_STATE s_header_value_discard_ws r2"
  let ?r3 = "put_mark M_header_field None (?r\<lparr>prs := set_message (field_effect nm) ((prs ?r)\<lparr>hp_state := p_state ?r\<rparr>)\<rparr>)"
  have cb: "CALLBACK_DATA ?st data M_header_field ?r = Inr ?r3"
  proof (rule data_calm[OF _ _ _ _ callbacks(5)])
    show "hp_errno (prs ?r) = HPE_OK" using pr'(2) at(3) by (simp add: r2_def r1_def)
    show "get_mark M_header_field ?r = Some k" using at(6) by (simp add: r2_def r1_def)
    show "k \<le> cur ?r" using assms(6) by (simp add: r2_def r1_def)
    show "cur ?r \<le> length data" using len by (simp add: r2_def r1_def)
    show "(0, set_message (field_effect (take (cur ?r - k) (drop k data))) ((prs ?r)\<lparr>hp_state := p_state ?r\<rparr>)) =
      (0, set_message (field_effect nm) ((prs ?r)\<lparr>hp_state := p_state ?r\<rparr>))"
      using assms(7) by (simp add: r2_def r1_def)
  qed
  have "http_step ?st data (byte ch r) = do_header_field ?st data (byte ch r)"
    using at(1) by (simp add: http_step_def)
  also have "\<dots> = Break ?r3"
  proof -
    have c: "cur r2 \<noteq> length data" "cur_ch r2 = CHR '':''" using len by (simp_all add: r2_def r1_def)
    show ?thesis unfolding do_header_field_def loop and_then_def sum.case count if_not_P[OF c(1)] if_P[OF c(2)] cb by (rule refl)
  qed
  finally have step: "http_step ?st data (byte ch r) = Break ?r3" .
  have "http_loop ?st data False r = http_loop ?st data False (?r3\<lparr>cur := cur ?r3 + 1\<rparr>)"
    by (rule marked_break[OF assms(1) d _ _ step]) (use assms(3) in \<open>simp_all add: PARSING_HEADER_def\<close>)
  moreover have "core pr' = c\<lparr>hp_flags := hp_flags pr'\<rparr>" using pr' at(5) by simp
  then have "at_state s_header_value_discard_ws (Suc ?j) (set_message (field_effect nm) (c\<lparr>hp_flags := hp_flags pr'\<rparr>)) (?r3\<lparr>cur := cur ?r3 + 1\<rparr>)"
    using at(6) pr'(2) at(3) by (simp add: at_state_def r2_def r1_def del: put_mark.simps)
  moreover have "header_state (prs (?r3\<lparr>cur := cur ?r3 + 1\<rparr>)) = header_state pr'" by (simp add: r2_def r1_def del: put_mark.simps)
  ultimately show ?thesis by blast
qed

definition value_reads :: "string \<Rightarrow> hstate \<Rightarrow> 'e http_parser \<Rightarrow> 'e http_parser \<Rightarrow> bool" where
  "value_reads vs h pr pr' \<longleftrightarrow> (\<forall>st data start rest r. prs r = pr \<longrightarrow>
     header_value_loop st data start (vs @ CR # rest) h r =
       (case value_cr st data h (r\<lparr>prs := pr', cur := cur r + length vs, cur_ch := CR\<rparr>) of
          Inl out \<Rightarrow> Inl out | Inr r2 \<Rightarrow> Inr (h, r2)))"

definition value_char :: "char \<Rightarrow> bool" where
  "value_char ch \<longleftrightarrow> IS_HEADER_CHAR ch \<and> not_eol ch"

lemma general_value_reads:
  assumes "\<forall>ch \<in> set vs. value_char ch" "length vs < 81920"
  shows "value_reads vs h_general pr pr"
  unfolding value_reads_def
proof (intro allI impI)
  fix st data start rest and r :: "'a run" assume r: "prs r = pr"
  show "header_value_loop st data start (vs @ CR # rest) h_general r =
       (case value_cr st data h_general (r\<lparr>prs := pr, cur := cur r + length vs, cur_ch := CR\<rparr>) of
          Inl out \<Rightarrow> Inl out | Inr r2 \<Rightarrow> Inr (h_general, r2))"
  proof (cases vs)
    case Nil
    have "r\<lparr>prs := pr, cur := cur r, cur_ch := CR\<rparr> = r\<lparr>cur_ch := CR\<rparr>" using r by (cases r) simp
    then show ?thesis using Nil by simp
  next
    case (Cons v us)
    have v: "IS_HEADER_CHAR v" "v \<noteq> CR" "v \<noteq> LF" using assms(1) Cons by (auto simp: value_char_def not_eol_def)
    have "takeWhile not_eol (vs @ CR # rest) = vs"
      using assms(1) by (subst takeWhile_append2) (auto simp: value_char_def not_eol_def)
    then have n: "skip_general (v # us @ CR # rest) = length vs"
      using assms(2) Cons by (simp add: skip_general_def HTTP_MAX_HEADER_SIZE_def Let_def)
    have d: "drop (length vs) (v # us @ CR # rest) = CR # rest" using Cons by simp
    have rr: "r\<lparr>cur_ch := v, cur := cur r + length vs, cur_ch := CR\<rparr> = r\<lparr>prs := pr, cur := cur r + length vs, cur_ch := CR\<rparr>"
      using r by (cases r) simp
    show ?thesis
      unfolding Cons append_Cons header_value_loop.simps(2) Let_def
      using v n d rr by (simp add: Cons)
  qed
qed

lemma digit_value_reads:
  assumes "\<forall>ch \<in> set ds. IS_NUM ch \<and> IS_HEADER_CHAR ch" "content_length pr = of_nat a"
    "foldl (\<lambda>x d. x * 10 + digit_val d) a ds < 18446744073709551605"
  shows "value_reads ds h_content_length pr (pr\<lparr>content_length := of_nat (foldl (\<lambda>x d. x * 10 + digit_val d) a ds)\<rparr>)"
  using assms
proof (induction ds arbitrary: a pr)
  case Nil
  then show ?case unfolding value_reads_def
    apply (intro allI impI)
    subgoal for st data start rest r
    proof -
      assume "prs r = pr" "content_length pr = of_nat a"
      then have "r\<lparr>prs := pr\<lparr>content_length := of_nat a\<rparr>, cur := cur r, cur_ch := CR\<rparr> = r\<lparr>cur_ch := CR\<rparr>" by (cases r) simp
      then show ?thesis by simp
    qed
    done
next
  case (Cons d ds)
  let ?a = "a * 10 + digit_val d"
  have mono: "x \<le> foldl (\<lambda>x d. x * 10 + digit_val d) x ds" for x
  proof (induction ds arbitrary: x)
    case (Cons e es)
    have "x \<le> x * 10 + digit_val e" by simp
    also have "\<dots> \<le> foldl (\<lambda>x d. x * 10 + digit_val d) (x * 10 + digit_val e) es" by (rule Cons)
    finally show ?case by simp
  qed simp
  have le: "?a < 18446744073709551605" using mono[of ?a] Cons.prems(3) by simp
  define pr1 where "pr1 = pr\<lparr>content_length := of_nat ?a\<rparr>"
  have IH: "value_reads ds h_content_length pr1 (pr1\<lparr>content_length := of_nat (foldl (\<lambda>x d. x * 10 + digit_val d) ?a ds)\<rparr>)"
    using Cons.prems by (intro Cons.IH) (simp_all add: pr1_def)
  have nd: "IS_NUM d" "IS_HEADER_CHAR d" "d \<noteq> CR" "d \<noteq> LF" "d \<noteq> CHR '' ''" using Cons.prems(1) by (auto simp: IS_NUM_def CR_def LF_def)
  have "uint (word_of_nat a :: 64 word) = int a" using le by (simp only: uint_nat unat_of_nat) simp
  then have fit: "\<not> (ULLONG_MAX - 10) div 10 < (word_of_nat a :: 64 word)"
    using le by (simp add: ULLONG_MAX_def word_less_def uint_div)
  have step: "content_length_digit d pr = Step (h_content_length, pr1)"
    using nd fit Cons.prems(2) by (simp add: content_length_digit_def pr1_def)
  show ?case unfolding value_reads_def
  proof (intro allI impI)
    fix st data start rest and r :: "'a run" assume r: "prs r = pr"
    have "header_value_loop st data start ((d # ds) @ CR # rest) h_content_length r =
      header_value_loop st data start (ds @ CR # rest) h_content_length (r\<lparr>cur_ch := d, prs := pr1, cur := cur r + 1\<rparr>)"
      using nd step r by (simp add: header_value_char_def Let_def)
    also have "\<dots> = (case value_cr st data h_content_length ((r\<lparr>cur_ch := d, prs := pr1, cur := cur r + 1\<rparr>)
        \<lparr>prs := pr1\<lparr>content_length := of_nat (foldl (\<lambda>x d. x * 10 + digit_val d) ?a ds)\<rparr>, cur := cur r + 1 + length ds, cur_ch := CR\<rparr>) of
          Inl out \<Rightarrow> Inl out | Inr r2 \<Rightarrow> Inr (h_content_length, r2))"
      using IH unfolding value_reads_def by simp
    also have "(r\<lparr>cur_ch := d, prs := pr1, cur := cur r + 1\<rparr>)
        \<lparr>prs := pr1\<lparr>content_length := of_nat (foldl (\<lambda>x d. x * 10 + digit_val d) ?a ds)\<rparr>, cur := cur r + 1 + length ds, cur_ch := CR\<rparr>
      = r\<lparr>prs := pr\<lparr>content_length := of_nat (foldl (\<lambda>x d. x * 10 + digit_val d) a (d # ds))\<rparr>, cur := cur r + length (d # ds), cur_ch := CR\<rparr>"
      by (simp add: pr1_def)
    finally show "header_value_loop st data start ((d # ds) @ CR # rest) h_content_length r =
       (case value_cr st data h_content_length (r\<lparr>prs := pr\<lparr>content_length := of_nat (foldl (\<lambda>x d. x * 10 + digit_val d) a (d # ds))\<rparr>, cur := cur r + length (d # ds), cur_ch := CR\<rparr>) of
          Inl out \<Rightarrow> Inl out | Inr r2 \<Rightarrow> Inr (h_content_length, r2))" .
  qed
qed

lemma blank_moves:
  assumes "at_state s_header_value_discard_ws i c r" "drop i data = CHR '' '' # rest" "i < 81920"
  shows "\<exists>r'. http_loop st data False r = http_loop st data False r' \<and> at_state s_header_value_discard_ws (Suc i) c r'
    \<and> header_state (prs r') = header_state (prs r)"
proof -
  let ?r1 = "byte CHR '' '' r"
  have step: "http_step st data ?r1 = Break ?r1"
    using at_p_state(1)[OF assms(1)] by (simp add: http_step_def do_header_value_discard_ws_def)
  have "http_loop st data False r = http_loop st data False (?r1\<lparr>cur := cur ?r1 + 1\<rparr>)"
    by (rule loop_break[OF assms(1,2) _ assms(3) step]) (simp add: PARSING_HEADER_def)
  moreover have "at_state s_header_value_discard_ws (Suc i) c (?r1\<lparr>cur := cur ?r1 + 1\<rparr>)"
    using assms(1) by (simp add: at_state_def)
  ultimately show ?thesis by (intro exI[of _ "?r1\<lparr>cur := cur ?r1 + 1\<rparr>"]) simp
qed

lemma value_first_moves:
  assumes "at_state s_header_value_discard_ws i c r" "drop i data = ch # rest" "i < 81920"
    "ch \<noteq> CHR '' ''" "ch \<noteq> HT" "ch \<noteq> CR" "ch \<noteq> LF"
    "header_value_first ch ((prs r)\<lparr>nread := of_nat (Suc i), hp_index := 0\<rparr>) = Step pr'"
    "hp_errno pr' = HPE_OK" "nread pr' = of_nat (Suc i)"
  shows "\<exists>r'. http_loop st data False r = http_loop st data False r' \<and> at_mark M_header_value i s_header_value (Suc i) (core pr') r'
    \<and> prs r' = pr'"
proof -
  let ?r1 = "(UPDATE_STATE s_header_value (put_mark M_header_value (Some i) (byte ch r)))\<lparr>prs := pr'\<rparr>"
  have "(prs (byte ch r))\<lparr>hp_index := 0\<rparr> = (prs r)\<lparr>nread := of_nat (Suc i), hp_index := 0\<rparr>"
    using assms(1) by (simp add: at_state_def add.commute)
  then have f: "header_value_first (cur_ch (byte ch r)) ((prs (byte ch r))\<lparr>hp_index := 0\<rparr>) = Step pr'" using assms(8) by simp
  have "http_step st data (byte ch r) = do_header_value_start (byte ch r)"
    using at_p_state(1)[OF assms(1)] assms(4-7) by (simp add: http_step_def do_header_value_discard_ws_def)
  also have "\<dots> = Break ?r1"
    using assms(1) f unfolding do_header_value_start_def
    by (simp add: MARK_def at_state_def Let_def upd_def UPDATE_STATE_def)
  finally have step: "http_step st data (byte ch r) = Break ?r1" .
  have "http_loop st data False r = http_loop st data False (?r1\<lparr>cur := cur ?r1 + 1\<rparr>)"
    by (rule loop_break[OF assms(1,2) _ assms(3) step]) (simp add: PARSING_HEADER_def)
  moreover have "at_mark M_header_value i s_header_value (Suc i) (core pr') (?r1\<lparr>cur := cur ?r1 + 1\<rparr>)"
    using assms(1,9,10) by (simp add: at_state_def at_mark_def del: put_mark.simps)
  ultimately show ?thesis by (intro exI[of _ "?r1\<lparr>cur := cur ?r1 + 1\<rparr>"]) (simp del: put_mark.simps)
qed

lemma value_moves:
  assumes "at_mark M_header_value k s_header_value i c r" "drop i data = vs @ CR # LF # rest" "i + length vs + 1 < 81920"
    "value_reads vs h ((prs r)\<lparr>nread := of_nat (Suc i)\<rparr>) pr'" "header_state (prs r) = h" "h \<in> {h_general, h_content_length}"
    "hp_errno pr' = HPE_OK" "nread pr' = of_nat (Suc i)"
    "k \<le> i" "take (i + length vs - k) (drop k data) = v"
    "msg_cur_header (hp_data pr') \<noteq> []" "msg_stage (hp_data pr') = HTTP_ON_HEADER_FIELD"
  shows "\<exists>r'. http_loop (parser_settings junk) data False r = http_loop (parser_settings junk) data False r'
    \<and> at_line (i + length vs + 2) (set_message (value_effect v) (core pr')) r'"
proof -
  let ?st = "parser_settings junk" and ?j = "i + length vs"
  define ch where "ch = hd (vs @ [CR])"
  obtain rest' where d: "drop i data = ch # rest'" using assms(2) by (cases vs) (auto simp: ch_def)
  have at: "p_state r = s_header_value" "cur r = i" "hp_errno (prs r) = HPE_OK" "nread (prs r) = of_nat i"
    "\<And>m. get_mark m r = (if m = M_header_value then Some k else None)"
    using assms(1) by (simp_all add: at_mark_def)
  have dj: "drop ?j data = CR # LF # rest" by (rule drop_append_facts[OF assms(2)])
  have len: "?j < length data" "drop (Suc ?j) data = LF # rest" using drop_Cons_facts[OF dj] by simp_all
  define r1 where "r1 = (byte ch r)\<lparr>prs := pr', cur := ?j, cur_ch := CR\<rparr>"
  define r2 where "r2 = upd (\<lambda>pr. pr\<lparr>header_state := h\<rparr>) (UPDATE_STATE s_header_almost_done r1)"
  define r3 where "r3 = put_mark M_header_value None (r2\<lparr>prs := set_message (value_effect v) ((prs r2)\<lparr>hp_state := p_state r2\<rparr>)\<rparr>)"
  have pb: "prs (byte ch r) = (prs r)\<lparr>nread := of_nat (Suc i)\<rparr>" using at(4) by (simp add: add.commute)
  have "value_cr ?st data h r1 = CALLBACK_DATA ?st data M_header_value r2" by (simp add: value_cr_def r2_def)
  also have "\<dots> = Inr r3" unfolding r3_def
  proof (rule data_calm[OF _ _ _ _ value_callback(1)])
    show "hp_errno (prs r2) = HPE_OK" using assms(7) by (simp add: r2_def r1_def)
    show "get_mark M_header_value r2 = Some k" using at(5) by (simp add: r2_def r1_def)
    show "k \<le> cur r2" using assms(9) by (simp add: r2_def r1_def)
    show "cur r2 \<le> length data" using len by (simp add: r2_def r1_def)
    have t: "take (cur r2 - k) (drop k data) = v" using assms(10) by (simp add: r2_def r1_def)
    show "on_header_value_cb (take (cur r2 - k) (drop k data)) ((prs r2)\<lparr>hp_state := p_state r2\<rparr>) =
      (0, set_message (value_effect v) ((prs r2)\<lparr>hp_state := p_state r2\<rparr>))"
      unfolding t by (rule value_callback(2)) (use assms(11,12) in \<open>simp_all add: r2_def r1_def\<close>)
  qed
  finally have cr: "value_cr ?st data h r1 = Inr r3" .
  have "header_value_loop ?st data (cur (byte ch r)) (drop (cur (byte ch r)) data) (header_state (prs (byte ch r))) (byte ch r) = Inr (h, r3)"
  proof -
    have a: "cur (byte ch r) = i" "header_state (prs (byte ch r)) = h" using at(2) assms(5) by simp_all
    note l = assms(4)[unfolded value_reads_def, rule_format, OF pb, of ?st data i "LF # rest"]
    show ?thesis unfolding a assms(2) using l cr by (simp only: at(2) byte_fields r1_def sum.case)
  qed
  note loop = this
  define r4 where "r4 = upd (\<lambda>pr. pr\<lparr>nread := of_nat (Suc i + length vs)\<rparr>) (upd (\<lambda>pr. pr\<lparr>header_state := h\<rparr>) r3)"
  have n3: "nread (prs (upd (\<lambda>pr. pr\<lparr>header_state := h\<rparr>) r3)) = of_nat (Suc i)"
    using assms(8) by (simp add: r3_def r2_def r1_def del: put_mark.simps)
  have c3: "cur r3 - cur (byte ch r) = length vs" using at(2) by (simp add: r3_def r2_def r1_def del: put_mark.simps)
  have count: "COUNT_HEADER_SIZE (cur r3 - cur (byte ch r)) (upd (\<lambda>pr. pr\<lparr>header_state := h\<rparr>) r3) = Inr r4"
    unfolding r4_def c3 by (rule COUNT_calm[OF n3]) (use assms(3) in simp)
  have c4: "cur r4 \<noteq> length data" using len by (simp add: r4_def r3_def r2_def r1_def del: put_mark.simps)
  have "http_step ?st data (byte ch r) = do_header_value ?st data (byte ch r)"
    using at(1) by (simp add: http_step_def)
  also have "\<dots> = Break r4"
    unfolding do_header_value_def loop sum.case prod.case and_then_def count if_not_P[OF c4] by (rule refl)
  finally have step: "http_step ?st data (byte ch r) = Break r4" .
  have l1: "http_loop ?st data False r = http_loop ?st data False (r4\<lparr>cur := cur r4 + 1\<rparr>)"
    by (rule marked_break[OF assms(1) d _ _ step]) (use assms(3) in \<open>simp_all add: PARSING_HEADER_def\<close>)
  let ?r5 = "r4\<lparr>cur := cur r4 + 1\<rparr>"
  have at5: "at_state s_header_almost_done (Suc ?j) (set_message (value_effect v) (core pr')) ?r5"
    using at(5) assms(7) by (simp add: at_state_def r4_def r3_def r2_def r1_def del: put_mark.simps)
  have step5: "http_step ?st data (byte LF ?r5) = Break (UPDATE_STATE s_header_value_lws (byte LF ?r5))"
    using at_p_state(1)[OF at5] by (simp add: http_step_def do_header_almost_done_def)
  let ?r6 = "UPDATE_STATE s_header_value_lws (byte LF ?r5)"
  have l2: "http_loop ?st data False ?r5 = http_loop ?st data False (?r6\<lparr>cur := cur ?r6 + 1\<rparr>)"
    by (rule loop_break[OF at5 len(2) _ _ step5]) (use assms(3) in \<open>simp_all add: PARSING_HEADER_def\<close>)
  have h6: "header_state (prs (?r6\<lparr>cur := cur ?r6 + 1\<rparr>)) = h"
    by (simp add: r4_def r3_def r2_def r1_def del: put_mark.simps)
  have "at_state s_header_value_lws (Suc (Suc ?j)) (set_message (value_effect v) (core pr')) (?r6\<lparr>cur := cur ?r6 + 1\<rparr>)"
    using at5 by (simp add: at_state_def)
  then show ?thesis using l1 l2 h6 assms(6) by (intro exI[of _ "?r6\<lparr>cur := cur ?r6 + 1\<rparr>"]) (simp add: at_line_def)
qed

lemma line_name_moves:
  assumes "at_line i c r" "drop i data = n @ '': '' @ rest" "i + length n + 2 < 81920" "n \<noteq> []"
    "\<forall>ch \<in> set n. TOKEN ch \<noteq> NUL" "\<not> (has_flag F_CONTENTLENGTH c \<and> prefix ''content-length'' (map TOKEN n))"
  shows "\<exists>r'. http_loop (parser_settings junk) data False r = http_loop (parser_settings junk) data False r'
    \<and> at_state s_header_value_discard_ws (i + length n + 2) (set_message (field_effect n)
        (c\<lparr>hp_flags := (if prefix ''content-length'' (map TOKEN n) then hp_flags c OR F_CONTENTLENGTH else hp_flags c)\<rparr>)) r'
    \<and> header_state (prs r') \<in> field_hstates
    \<and> (\<forall>h \<in> {h_connection, h_content_length, h_transfer_encoding, h_upgrade}.
         header_state (prs r') = h \<longleftrightarrow> (map TOKEN n, h) \<in> set known_names)"
proof -
  let ?st = "parser_settings junk"
  obtain a cs where n: "n = a # cs" using assms(4) by (cases n) auto
  have d: "drop i data = a # cs @ CHR '':'' # CHR '' '' # rest" using assms(2) n by simp
  have tok: "TOKEN a \<noteq> NUL" "\<forall>ch \<in> set cs. TOKEN ch \<noteq> NUL" using assms(5) n by simp_all
  obtain r1 where r1: "http_loop ?st data False r = http_loop ?st data False r1" "at_mark M_header_field i s_header_field (Suc i) c r1"
    "header_state (prs r1) = header_field_state (TOKEN a)" "hp_index (prs r1) = 0"
    using line_first[OF assms(1) d _ tok(1)] assms(3) by auto
  define pr0 where "pr0 = (prs r1)\<lparr>nread := nread (prs r1) + 1\<rparr>"
  have c: "core (prs r1) = c" using r1(2) by (simp add: at_mark_def)
  have f0: "hp_flags pr0 = hp_flags c" unfolding c[symmetric] by (simp add: pr0_def)
  have s0: "name_state [TOKEN a] pr0"
  proof -
    have "pr0 = pr0\<lparr>hp_index := 0, header_state := header_field_state (TOKEN a)\<rparr>" using r1(3,4) by (simp add: pr0_def)
    then show ?thesis using name_state_first[OF tok(1)] by metis
  qed
  have np: "\<not> prefix ''content-length'' [TOKEN a]" using prefix_length_le[of "''content-length''" "[TOKEN a]"] by auto
  have mt: "[TOKEN a] @ map TOKEN cs = map TOKEN n" using n by simp
  have "has_flag F_CONTENTLENGTH pr0 = has_flag F_CONTENTLENGTH c" using f0 by (simp add: has_flag_def)
  then have "name_chars cs pr0 \<noteq> None"
    using name_chars_ok[OF s0 tok(2)] assms(6) unfolding mt by (cases "name_chars cs pr0") simp_all
  then obtain pr' where pr': "name_chars cs pr0 = Some pr'" by blast
  have s: "name_state (map TOKEN n) pr'"
    and f: "hp_flags pr' = (if prefix ''content-length'' (map TOKEN n) then hp_flags c OR F_CONTENTLENGTH else hp_flags c)"
    using name_chars_ok[OF s0 tok(2)] np f0 unfolding pr' mt option.case by simp_all
  have d1: "drop (Suc i) data = cs @ CHR '':'' # CHR '' '' # rest" using drop_Cons_facts[OF d] by simp
  have t: "take (Suc i + length cs - i) (drop i data) = n" using d n by simp
  obtain r2 where r2: "http_loop ?st data False r1 = http_loop ?st data False r2"
    "at_state s_header_value_discard_ws (Suc (Suc i + length cs)) (set_message (field_effect n) (c\<lparr>hp_flags := hp_flags pr'\<rparr>)) r2"
    "header_state (prs r2) = header_state pr'"
    using name_moves[OF r1(2) d1 _ tok(2) pr'[unfolded pr0_def] _ t, of junk] assms(3) n by auto
  have d2: "drop (Suc (Suc i + length cs)) data = CHR '' '' # rest"
    using drop_append_facts[of i data "n @ '':''" "CHR '' '' # rest"] assms(2) n by simp
  obtain r3 where r3: "http_loop ?st data False r2 = http_loop ?st data False r3"
    "at_state s_header_value_discard_ws (Suc (Suc (Suc i + length cs))) (set_message (field_effect n) (c\<lparr>hp_flags := hp_flags pr'\<rparr>)) r3"
    "header_state (prs r3) = header_state (prs r2)"
    using blank_moves[OF r2(2) d2, of ?st] assms(3) n by auto
  have e: "Suc (Suc (Suc i + length cs)) = i + length n + 2" using n by simp
  have h: "header_state (prs r3) = header_state pr'" using r3(3) r2(3) by simp
  show ?thesis
  proof (intro exI[of _ r3] conjI ballI)
    show "http_loop ?st data False r = http_loop ?st data False r3" using r1(1) r2(1) r3(1) by simp
    show "header_state (prs r3) \<in> field_hstates" using name_state_fields[OF s] h by simp
    show "header_state (prs r3) = x \<longleftrightarrow> (map TOKEN n, x) \<in> set known_names"
      if "x \<in> {h_connection, h_content_length, h_transfer_encoding, h_upgrade}" for x
      using name_state_known[OF s that] h by simp
  qed (use r3(2)[unfolded e f] in assumption)
qed

definition header_line :: "string \<times> string \<Rightarrow> string" where
  "header_line = (\<lambda>(n, v). n @ '': '' @ v @ crlf)"

definition header_effect :: "string \<times> string \<Rightarrow> http_message \<Rightarrow> http_message" where
  "header_effect = (\<lambda>(n, v). value_effect v \<circ> field_effect n)"

text \<open>A header the parser only passes on.\<close>

definition general_header :: "string \<times> string \<Rightarrow> bool" where
  "general_header = (\<lambda>(n, v). n \<noteq> [] \<and> (\<forall>ch \<in> set n. TOKEN ch \<noteq> NUL) \<and> map TOKEN n \<notin> fst ` set known_names
     \<and> \<not> prefix ''content-length'' (map TOKEN n)
     \<and> v \<noteq> [] \<and> hd v \<noteq> CHR '' '' \<and> hd v \<noteq> HT \<and> (\<forall>ch \<in> set v. value_char ch))"

lemma set_message_twice [simp]: "set_message g (set_message f pr) = set_message (g \<circ> f) pr"
  by (simp add: set_message_def)

lemma field_effect_facts: "n \<noteq> [] \<Longrightarrow> msg_cur_header (field_effect n m) \<noteq> [] \<and> msg_stage (field_effect n m) = HTTP_ON_HEADER_FIELD"
  by (simp add: field_effect_def Let_def)

lemma header_value_general:
  assumes "header_state pr \<in> field_hstates" "header_state pr \<notin> {h_connection, h_content_length, h_transfer_encoding, h_upgrade}"
  shows "header_value_first ch pr = Step (pr\<lparr>header_state := h_general\<rparr>)"
  using assms unfolding field_hstates_def header_value_first_def Let_def
  by (elim insertE emptyE; simp)

lemma value_chars: "value_char ch \<Longrightarrow> ch \<noteq> CR \<and> ch \<noteq> LF"
  by (simp add: value_char_def not_eol_def)

lemma general_line_moves:
  assumes "at_line i c r" "drop i data = header_line (n, v) @ rest" "i + length (header_line (n, v)) < 81920" "general_header (n, v)"
  shows "\<exists>r'. http_loop (parser_settings junk) data False r = http_loop (parser_settings junk) data False r'
    \<and> at_line (i + length (header_line (n, v))) (set_message (header_effect (n, v)) c) r'"
proof -
  let ?st = "parser_settings junk"
  have g: "n \<noteq> []" "\<forall>ch \<in> set n. TOKEN ch \<noteq> NUL" "map TOKEN n \<notin> fst ` set known_names" "\<not> prefix ''content-length'' (map TOKEN n)"
    "\<forall>ch \<in> set v. value_char ch"
    using assms(4) by (simp_all add: general_header_def)
  obtain a vs where v: "v = a # vs" "a \<noteq> CHR '' ''" "a \<noteq> HT" using assms(4) by (cases v) (auto simp: general_header_def)
  have l: "length (header_line (n, v)) = length n + length vs + 5" using v by (simp add: header_line_def crlf_def)
  have d: "drop i data = n @ '': '' @ v @ crlf @ rest" using assms(2) by (simp add: header_line_def)
  define c1 where "c1 = set_message (field_effect n) c"
  let ?j = "i + length n + 2"
  have c: "c\<lparr>hp_flags := (if prefix ''content-length'' (map TOKEN n) then hp_flags c OR F_CONTENTLENGTH else hp_flags c)\<rparr> = c"
    using g(4) by simp
  have unknown: "(map TOKEN n, h) \<notin> set known_names" for h using g(3) by (metis fst_conv image_eqI)
  have lt: "?j < 81920" and nl: "\<not> (has_flag F_CONTENTLENGTH c \<and> prefix ''content-length'' (map TOKEN n))"
    using assms(3) l g(4) by simp_all
  obtain r1 where r1: "http_loop ?st data False r = http_loop ?st data False r1" "at_state s_header_value_discard_ws ?j c1 r1"
    "header_state (prs r1) \<in> field_hstates" "header_state (prs r1) \<notin> {h_connection, h_content_length, h_transfer_encoding, h_upgrade}"
    using line_name_moves[OF assms(1) d lt g(1,2) nl, of junk] unfolding c c1_def by (auto simp only: unknown)
  have dj: "drop ?j data = a # vs @ CR # LF # rest"
    using drop_append_facts[of i data "n @ '': ''" "v @ crlf @ rest"] d v by (simp add: crlf_def)
  define pr' where "pr' = (prs r1)\<lparr>nread := of_nat (Suc ?j), hp_index := 0, header_state := h_general\<rparr>"
  have first: "header_value_first a ((prs r1)\<lparr>nread := of_nat (Suc ?j), hp_index := 0\<rparr>) = Step pr'"
    unfolding pr'_def by (subst header_value_general) (use r1(3,4) in simp_all)
  have pe: "hp_errno pr' = HPE_OK" "nread pr' = of_nat (Suc ?j)" "core pr' = c1" "header_state pr' = h_general" "hp_data pr' = hp_data c1"
    using r1(2) by (auto simp: pr'_def at_state_def)
  have eol: "a \<noteq> CR" "a \<noteq> LF" using value_chars g(5) v(1) by auto
  obtain r2 where r2: "http_loop ?st data False r1 = http_loop ?st data False r2"
    "at_mark M_header_value ?j s_header_value (Suc ?j) c1 r2" "prs r2 = pr'"
    using value_first_moves[OF r1(2) dj _ v(2,3) eol first pe(1,2), of ?st] assms(3) l unfolding pe(3) by auto
  let ?p2 = "pr'\<lparr>nread := of_nat (Suc (Suc ?j))\<rparr>"
  have reads: "value_reads vs h_general ((prs r2)\<lparr>nread := of_nat (Suc (Suc ?j))\<rparr>) ?p2"
    unfolding r2(3) using g(5) v(1) assms(3) l by (intro general_value_reads) auto
  have dk: "drop (Suc ?j) data = vs @ CR # LF # rest" using drop_Cons_facts[OF dj] by simp
  have t: "take (Suc ?j + length vs - ?j) (drop ?j data) = v" using dj v(1) by simp
  have f: "msg_cur_header (hp_data ?p2) \<noteq> []" "msg_stage (hp_data ?p2) = HTTP_ON_HEADER_FIELD"
    using field_effect_facts[OF g(1)] pe(5) by (simp_all add: c1_def)
  have "\<exists>r'. http_loop ?st data False r2 = http_loop ?st data False r'
      \<and> at_line (Suc ?j + length vs + 2) (set_message (value_effect v) (core ?p2)) r'"
    by (rule value_moves[OF r2(2) dk _ reads _ _ _ _ _ t f]) (use pe assms(3) l r2(3) in simp_all)
  then obtain r3 where r3: "http_loop ?st data False r2 = http_loop ?st data False r3"
    "at_line (Suc ?j + length vs + 2) (set_message (value_effect v) (core ?p2)) r3" by blast
  have "core ?p2 = c1" using pe(3) by simp
  then have "set_message (value_effect v) (core ?p2) = set_message (header_effect (n, v)) c"
    by (simp add: c1_def header_effect_def)
  moreover have "Suc ?j + length vs + 2 = i + length (header_line (n, v))" using l by simp
  ultimately have "at_line (i + length (header_line (n, v))) (set_message (header_effect (n, v)) c) r3" using r3(2) by metis
  then show ?thesis using r1(1) r2(1) r3(1) by (intro exI[of _ r3]) simp
qed

text \<open>The header that announces the length of the body.\<close>

definition length_header :: "nat \<Rightarrow> string \<times> string \<Rightarrow> bool" where
  "length_header k = (\<lambda>(n, v). map TOKEN n = ''content-length'' \<and> v = dec k)"

declare dec.simps [simp del]

lemma dec_digits:
  "\<forall>ch \<in> set (dec n). IS_NUM ch \<and> value_char ch" "dec n \<noteq> []"
  "foldl (\<lambda>x d. x * 10 + digit_val d) 0 (dec n) = n"
proof -
  have num: "IS_NUM (char_of (48 + k)) \<and> value_char (char_of (48 + k) :: char)" "digit_val (char_of (48 + k)) = k" if "k < 10" for k :: nat
  proof -
    define ch :: char where "ch = char_of (48 + k)"
    have o: "ord ch = 48 + k" using that by (simp add: ch_def)
    then have "ch \<noteq> CR" "ch \<noteq> LF" by (auto simp: CR_def LF_def)
    then show "IS_NUM (char_of (48 + k)) \<and> value_char (char_of (48 + k) :: char)" "digit_val (char_of (48 + k)) = k"
      unfolding ch_def[symmetric] using that o by (simp_all add: IS_NUM_def value_char_def IS_HEADER_CHAR_def not_eol_def digit_val_def)
  qed
  show "\<forall>ch \<in> set (dec n). IS_NUM ch \<and> value_char ch"
    by (induction n rule: dec.induct) (subst dec.simps, auto simp: num)
  show "dec n \<noteq> []" by (subst dec.simps) simp
  show "foldl (\<lambda>x d. x * 10 + digit_val d) 0 (dec n) = n"
    by (induction n rule: dec.induct) (subst dec.simps, auto simp: num)
qed

lemma header_value_length:
  assumes "header_state pr = h_content_length" "IS_NUM ch"
  shows "header_value_first ch pr = Step (pr\<lparr>content_length := of_nat (digit_val ch)\<rparr>)"
  using assms by (simp add: header_value_first_def Let_def)

lemma length_line_moves:
  assumes "at_line i c r" "drop i data = header_line (n, v) @ rest" "i + length (header_line (n, v)) < 81920" "length_header k (n, v)"
    "k < 18446744073709551605" "\<not> has_flag F_CONTENTLENGTH c"
  shows "\<exists>r'. http_loop (parser_settings junk) data False r = http_loop (parser_settings junk) data False r'
    \<and> at_line (i + length (header_line (n, v))) (set_message (header_effect (n, v))
        (c\<lparr>hp_flags := hp_flags c OR F_CONTENTLENGTH, content_length := of_nat k\<rparr>)) r'"
proof -
  let ?st = "parser_settings junk"
  have g: "map TOKEN n = ''content-length''" "v = dec k" using assms(4) by (simp_all add: length_header_def)
  have "\<forall>x \<in> set (map TOKEN n). x \<noteq> NUL" unfolding g by (simp add: NUL_def)
  then have tok: "\<forall>ch \<in> set n. TOKEN ch \<noteq> NUL" by simp
  have ne: "n \<noteq> []" using g(1) by auto
  obtain a vs where v: "v = a # vs" using dec_digits(2)[of k] g(2) by (cases "dec k") auto
  have digits: "\<forall>ch \<in> set (a # vs). IS_NUM ch \<and> value_char ch" and val: "foldl (\<lambda>x d. x * 10 + digit_val d) (digit_val a) vs = k"
    using dec_digits(1,3)[of k] unfolding g(2)[symmetric] v by simp_all
  then have a: "IS_NUM a" "a \<noteq> CR" "a \<noteq> LF" "a \<noteq> CHR '' ''" "a \<noteq> HT"
    using value_chars[of a] by (auto simp: IS_NUM_def HT_def)
  have l: "length (header_line (n, v)) = length n + length vs + 5" using v by (simp add: header_line_def crlf_def)
  have d: "drop i data = n @ '': '' @ v @ crlf @ rest" using assms(2) by (simp add: header_line_def)
  let ?j = "i + length n + 2"
  define c1 where "c1 = set_message (field_effect n) (c\<lparr>hp_flags := hp_flags c OR F_CONTENTLENGTH\<rparr>)"
  have c: "c\<lparr>hp_flags := (if prefix ''content-length'' (map TOKEN n) then hp_flags c OR F_CONTENTLENGTH else hp_flags c)\<rparr>
      = c\<lparr>hp_flags := hp_flags c OR F_CONTENTLENGTH\<rparr>" unfolding g by simp
  have lt: "?j < 81920" and nl: "\<not> (has_flag F_CONTENTLENGTH c \<and> prefix ''content-length'' (map TOKEN n))"
    using assms(3,6) l by simp_all
  have known: "(map TOKEN n, h_content_length) \<in> set known_names" unfolding g by (simp add: known_names_def)
  obtain r1 where r1: "http_loop ?st data False r = http_loop ?st data False r1" "at_state s_header_value_discard_ws ?j c1 r1"
    "header_state (prs r1) = h_content_length"
    using line_name_moves[OF assms(1) d lt ne tok nl, of junk] known unfolding c c1_def by blast
  have dj: "drop ?j data = a # vs @ CR # LF # rest"
    using drop_append_facts[of i data "n @ '': ''" "v @ crlf @ rest"] d v by (simp add: crlf_def)
  define pr' where "pr' = (prs r1)\<lparr>nread := of_nat (Suc ?j), hp_index := 0, content_length := of_nat (digit_val a)\<rparr>"
  have first: "header_value_first a ((prs r1)\<lparr>nread := of_nat (Suc ?j), hp_index := 0\<rparr>) = Step pr'"
    unfolding pr'_def by (subst header_value_length) (use r1(3) a(1) in simp_all)
  have pe: "hp_errno pr' = HPE_OK" "nread pr' = of_nat (Suc ?j)" "core pr' = c1\<lparr>content_length := of_nat (digit_val a)\<rparr>"
    "header_state pr' = h_content_length" "hp_data pr' = hp_data c1"
    using r1(2,3) by (auto simp: pr'_def at_state_def)
  obtain r2 where r2: "http_loop ?st data False r1 = http_loop ?st data False r2"
    "at_mark M_header_value ?j s_header_value (Suc ?j) (core pr') r2" "prs r2 = pr'"
    using value_first_moves[OF r1(2) dj _ a(4,5,2,3) first pe(1,2), of ?st] assms(3) l by auto
  let ?p2 = "pr'\<lparr>nread := of_nat (Suc (Suc ?j)), content_length := of_nat k\<rparr>"
  have reads: "value_reads vs h_content_length ((prs r2)\<lparr>nread := of_nat (Suc (Suc ?j))\<rparr>) ?p2"
    unfolding r2(3)
    using digit_value_reads[of vs "pr'\<lparr>nread := of_nat (Suc (Suc ?j))\<rparr>" "digit_val a", unfolded val] digits assms(5)
    by (simp add: value_char_def pr'_def)
  have dk: "drop (Suc ?j) data = vs @ CR # LF # rest" using drop_Cons_facts[OF dj] by simp
  have t: "take (Suc ?j + length vs - ?j) (drop ?j data) = v" using dj v(1) by simp
  have f: "msg_cur_header (hp_data ?p2) \<noteq> []" "msg_stage (hp_data ?p2) = HTTP_ON_HEADER_FIELD"
    using field_effect_facts[OF ne] pe(5) by (simp_all add: c1_def)
  have "\<exists>r'. http_loop ?st data False r2 = http_loop ?st data False r'
      \<and> at_line (Suc ?j + length vs + 2) (set_message (value_effect v) (core ?p2)) r'"
    by (rule value_moves[OF r2(2) dk _ reads _ _ _ _ _ t f]) (use pe assms(3) l r2(3) in simp_all)
  then obtain r3 where r3: "http_loop ?st data False r2 = http_loop ?st data False r3"
    "at_line (Suc ?j + length vs + 2) (set_message (value_effect v) (core ?p2)) r3" by blast
  have "core ?p2 = c1\<lparr>content_length := of_nat k\<rparr>" using pe(3) by simp
  then have "set_message (value_effect v) (core ?p2) = set_message (header_effect (n, v))
        (c\<lparr>hp_flags := hp_flags c OR F_CONTENTLENGTH, content_length := of_nat k\<rparr>)"
    by (simp add: c1_def header_effect_def set_message_def)
  moreover have "Suc ?j + length vs + 2 = i + length (header_line (n, v))" using l by simp
  ultimately have "at_line (i + length (header_line (n, v))) (set_message (header_effect (n, v))
        (c\<lparr>hp_flags := hp_flags c OR F_CONTENTLENGTH, content_length := of_nat k\<rparr>)) r3" using r3(2) by metis
  then show ?thesis using r1(1) r2(1) r3(1) by (intro exI[of _ r3]) simp
qed

text \<open>All the header lines.\<close>

definition framed :: "nat \<Rightarrow> (string \<times> string) list \<Rightarrow> 'e http_parser \<Rightarrow> 'e http_parser" where
  "framed k hs c = (if \<exists>h \<in> set hs. length_header k h
     then c\<lparr>hp_flags := hp_flags c OR F_CONTENTLENGTH, content_length := of_nat k\<rparr> else c)"

fun headers_ok :: "nat \<Rightarrow> (string \<times> string) list \<Rightarrow> bool" where
  "headers_ok k [] \<longleftrightarrow> True"
| "headers_ok k (h # hs) \<longleftrightarrow> headers_ok k hs \<and>
     (general_header h \<or> length_header k h \<and> (\<forall>h' \<in> set hs. \<not> length_header k h'))"

lemma length_not_general: "length_header k h \<Longrightarrow> \<not> general_header h"
  by (cases h) (auto simp: length_header_def general_header_def known_names_def)

lemma headers_moves:
  assumes "at_line i c r" "drop i data = concat (map header_line hs) @ rest" "i + length (concat (map header_line hs)) < 81920"
    "headers_ok k hs" "k < 18446744073709551605" "has_flag F_CONTENTLENGTH c \<longrightarrow> (\<forall>h \<in> set hs. \<not> length_header k h)"
  shows "\<exists>r'. http_loop (parser_settings junk) data False r = http_loop (parser_settings junk) data False r'
    \<and> at_line (i + length (concat (map header_line hs))) (set_message (fold header_effect hs) (framed k hs c)) r'"
  using assms
proof (induction hs arbitrary: i c r)
  case Nil
  have "set_message (fold header_effect []) (framed k [] c) = c" by (simp add: set_message_def framed_def)
  then show ?case using Nil by (intro exI[of _ r]) (simp del: fold.simps)
next
  case (Cons h hs)
  obtain n v where h: "h = (n, v)" by (cases h)
  define c1 where "c1 = (if length_header k h then c\<lparr>hp_flags := hp_flags c OR F_CONTENTLENGTH, content_length := of_nat k\<rparr> else c)"
  have d: "drop i data = header_line (n, v) @ (concat (map header_line hs) @ rest)" using Cons.prems(2) h by simp
  have len: "i + length (header_line (n, v)) < 81920" using Cons.prems(3) h by simp
  have "\<exists>r1. http_loop (parser_settings junk) data False r = http_loop (parser_settings junk) data False r1
      \<and> at_line (i + length (header_line h)) (set_message (header_effect h) c1) r1"
  proof (cases "length_header k h")
    case True
    have "\<not> has_flag F_CONTENTLENGTH c" using Cons.prems(6) True by auto
    then show ?thesis using length_line_moves[OF Cons.prems(1) d len _ Cons.prems(5), of junk] True h by (simp add: c1_def)
  next
    case False
    then have "general_header (n, v)" using Cons.prems(4) h by simp
    then show ?thesis using general_line_moves[OF Cons.prems(1) d len, of junk] False h by (simp add: c1_def)
  qed
  then obtain r1 where r1: "http_loop (parser_settings junk) data False r = http_loop (parser_settings junk) data False r1"
    "at_line (i + length (header_line h)) (set_message (header_effect h) c1) r1" by blast
  have flag: "has_flag F_CONTENTLENGTH (set_message (header_effect h) c1) \<longrightarrow> (\<forall>h' \<in> set hs. \<not> length_header k h')"
    using Cons.prems(4,6) length_not_general[of k h] by (auto simp: c1_def has_flag_def)
  have ok: "headers_ok k hs" using Cons.prems(4) by simp
  obtain r2 where r2: "http_loop (parser_settings junk) data False r1 = http_loop (parser_settings junk) data False r2"
    "at_line (i + length (header_line h) + length (concat (map header_line hs)))
       (set_message (fold header_effect hs) (framed k hs (set_message (header_effect h) c1))) r2"
    using Cons.IH[OF r1(2) drop_append_facts[OF d[folded h]] _ ok Cons.prems(5) flag] Cons.prems(3) by auto
  have "framed k hs (set_message (header_effect h) c1) = set_message (header_effect h) (framed k (h # hs) c)"
    using Cons.prems(4) length_not_general[of k h] by (auto simp: framed_def c1_def set_message_def)
  then have "set_message (fold header_effect hs) (framed k hs (set_message (header_effect h) c1)) =
      set_message (fold header_effect (h # hs)) (framed k (h # hs) c)"
    by simp
  moreover have "i + length (header_line h) + length (concat (map header_line hs)) = i + length (concat (map header_line (h # hs)))" by simp
  ultimately have "at_line (i + length (concat (map header_line (h # hs)))) (set_message (fold header_effect (h # hs)) (framed k (h # hs) c)) r2"
    using r2(2) by metis
  then show ?case using r1(1) r2(1) by (intro exI[of _ r2]) (simp add: comp_def)
qed

subsection \<open>The end of the message\<close>

text \<open>The loop is through with the data, and the message with the parser.\<close>

definition finished :: "nat \<Rightarrow> http_message \<Rightarrow> 'e http_parser \<Rightarrow> http_message run \<Rightarrow> bool" where
  "finished n d c r \<longleftrightarrow> cur r = n \<and> (\<forall>m. get_mark m r = None) \<and> hp_errno (prs r) = HPE_OK \<and> hp_data (prs r) = d
     \<and> hp_method (prs r) = hp_method c \<and> http_major (prs r) = http_major c \<and> http_minor (prs r) = http_minor c"

lemma leftover_none:
  assumes "\<forall>m. get_mark m r = None" "hp_errno (prs r) = HPE_OK"
  shows "leftover st data ms r = RETURN (length data) r"
  using assms by (induction ms) (simp_all add: callback_data_def and_then_def)

lemma finished_loop:
  assumes "finished (length data) d c r"
  shows "\<exists>p. http_loop st data False r = Some (length data, p) \<and> hp_errno p = HPE_OK \<and> hp_data p = d
    \<and> hp_method p = hp_method c \<and> http_major p = http_major c \<and> http_minor p = http_minor c"
proof -
  have none: "\<forall>m. get_mark m r = None" and ok: "hp_errno (prs r) = HPE_OK" and n: "cur r = length data"
    using assms by (simp_all add: finished_def)
  have "finish_call st data r = RETURN (length data) r"
    using none leftover_none[OF none ok] by (simp add: finish_call_def marks_set_def del: get_mark.simps leftover.simps)
  then show ?thesis using assms n by (subst http_loop.simps) (simp add: RETURN_def finished_def)
qed

lemma complete_calm:
  assumes "hp_errno (prs r) = HPE_OK"
  shows "\<exists>s. message_complete (parser_settings junk) r =
    Inr ((UPDATE_STATE s r)\<lparr>prs := set_message complete_effect ((prs r)\<lparr>hp_state := s\<rparr>)\<rparr>)"
  unfolding message_complete_def callbacks by (subst notify_calm) (use assms in auto)

definition begun :: "http_message \<Rightarrow> http_message" where
  "begun = msg_stage_update (\<lambda>_. HTTP_ON_HEADERS_COMPLETE)"

text \<open>After the empty line: either the message is complete or its body follows.\<close>

lemma head_end_moves:
  assumes "at_line i c r" "drop i data = CR # LF # rest" "i + 2 < 81920"
    "hp_flags c \<in> {0, F_CONTENTLENGTH}" "hp_method c \<noteq> HTTP_CONNECT" "hp_type c = HTTP_REQUEST"
  shows "if content_length c = 0 \<or> content_length c = ULLONG_MAX
    then \<exists>r'. http_loop (parser_settings junk) data False r = http_loop (parser_settings junk) data False r'
      \<and> finished (i + 2) (complete_effect (begun (hp_data c))) c r'
    else \<exists>r'. http_loop (parser_settings junk) data False r = http_loop (parser_settings junk) data False r'
      \<and> finished (i + 2) (begun (hp_data c)) c r' \<and> p_state r' = s_body_identity \<and> content_length (prs r') = content_length c
      \<and> \<not> hp_upgrade (prs r')"
proof -
  let ?st = "parser_settings junk"
  obtain r0 where r0: "http_loop ?st data False r = http_loop ?st data True (byte CR r0)" "at_state s_header_field_start i c r0"
    using line_reexec[OF assms(1,2)] assms(3) by (auto simp: CR_def HT_def)
  define r1 where "r1 = (UPDATE_STATE s_headers_almost_done (byte CR r0))\<lparr>cur := i + 1\<rparr>"
  have "http_step ?st data (byte CR r0) = Break (UPDATE_STATE s_headers_almost_done (byte CR r0))"
    using at_p_state(1)[OF r0(2)] by (simp add: http_step_def do_header_field_start_def)
  then have l0: "http_loop ?st data True (byte CR r0) = http_loop ?st data False r1"
    using r0(2) by (subst http_loop.simps) (simp add: r1_def at_state_def)
  have at1: "at_state s_headers_almost_done (Suc i) c r1" using r0(2) by (simp add: at_state_def r1_def)
  have d1: "drop (Suc i) data = LF # rest" using drop_Cons_facts[OF assms(2)] by simp
  have l1: "http_loop ?st data False r1 = http_loop ?st data True (byte LF r1)"
    using at1 assms(3) by (intro loop_byte[OF _ _ _ d1]) (auto simp: at_state_def PARSING_HEADER_def)
  define p where "p = prs (byte LF r1)"
  have p: "hp_flags p = hp_flags c" "hp_method p = hp_method c" "hp_type p = HTTP_REQUEST" "content_length p = content_length c"
    "hp_data p = hp_data c" "http_major p = http_major c" "http_minor p = http_minor c" "hp_errno p = HPE_OK"
    using at1 assms(6) core_proj[of p] by (auto simp: at_state_def p_def)
  have nf: "\<not> has_flag F_TRAILING p" "\<not> has_flag F_CHUNKED p" "\<not> has_flag F_SKIPBODY p" "\<not> wants_upgrade p"
    using p(1,2) assms(4,5)
    by (auto simp: has_flag_def wants_upgrade_def F_TRAILING_def F_CHUNKED_def F_SKIPBODY_def F_CONTENTLENGTH_def F_UPGRADE_def F_CONNECTION_UPGRADE_def)
  define r2 where "r2 = (UPDATE_STATE s_headers_done (byte LF r1))\<lparr>prs := set_message begun (p\<lparr>hp_upgrade := False\<rparr>)\<rparr>"
  have "http_step ?st data (byte LF r1) = do_headers_almost_done ?st (byte LF r1)"
    using at_p_state(1)[OF at1] by (simp add: http_step_def)
  also have "\<dots> = Reexec r2"
  proof -
    have "upd (\<lambda>pr. pr\<lparr>hp_upgrade := wants_upgrade pr\<rparr>) (UPDATE_STATE s_headers_done (byte LF r1)) =
        (UPDATE_STATE s_headers_done (byte LF r1))\<lparr>prs := p\<lparr>hp_upgrade := False\<rparr>\<rparr>"
      using nf(4) by (simp add: upd_def p_def)
    then show ?thesis using nf p(8) unfolding do_headers_almost_done_def callbacks Let_def
      by (simp add: p_def[symmetric] r2_def begun_def del: byte_fields(4))
  qed
  finally have "http_loop ?st data True (byte LF r1) = http_loop ?st data True r2" by (subst http_loop.simps) simp
  then have loop2: "http_loop ?st data False r = http_loop ?st data True r2" using r0(1) l0 l1 by simp
  define r3 where "r3 = upd (\<lambda>pr. pr\<lparr>nread := 0\<rparr>) r2"
  have f3: "prs r3 = (set_message begun (p\<lparr>hp_upgrade := False\<rparr>))\<lparr>nread := 0\<rparr>" "cur r3 = i + 1" "\<And>m. get_mark m r3 = None"
    using at1 by (simp_all add: r3_def r2_def at_state_def)
  have e3: "hp_errno (prs r3) = HPE_OK" using p(8) by (simp add: f3)
  obtain s where s: "message_complete ?st r3 = Inr ((UPDATE_STATE s r3)\<lparr>prs := set_message complete_effect ((prs r3)\<lparr>hp_state := s\<rparr>)\<rparr>)"
    using complete_calm[OF e3] by blast
  define r4 where "r4 = ((UPDATE_STATE s r3)\<lparr>prs := set_message complete_effect ((prs r3)\<lparr>hp_state := s\<rparr>)\<rparr>)\<lparr>cur := i + 2\<rparr>"
  define r5 where "r5 = (UPDATE_STATE s_body_identity r3)\<lparr>cur := i + 2\<rparr>"
  have "http_step ?st data r2 = do_headers_done ?st r2" by (simp add: http_step_def r2_def)
  also have "\<dots> = (if content_length c = 0 \<or> content_length c = ULLONG_MAX
      then Break ((UPDATE_STATE s r3)\<lparr>prs := set_message complete_effect ((prs r3)\<lparr>hp_state := s\<rparr>)\<rparr>)
      else Break (UPDATE_STATE s_body_identity r3))"
  proof -
    have "cur_ch r2 = LF" by (simp add: r2_def)
    moreover have "\<not> hp_upgrade (prs r3)" "\<not> has_flag F_SKIPBODY (prs r3)" "\<not> has_flag F_CHUNKED (prs r3)"
      "content_length (prs r3) = content_length c" "\<not> http_message_needs_eof (prs r3)"
      using nf p by (simp_all add: f3 has_flag_def http_message_needs_eof_def)
    ultimately show ?thesis unfolding do_headers_done_def r3_def[symmetric] Let_def using s by (simp add: and_then_def)
  qed
  finally have "http_loop ?st data True r2 =
      (if content_length c = 0 \<or> content_length c = ULLONG_MAX then http_loop ?st data False r4 else http_loop ?st data False r5)"
    using f3(2) by (subst http_loop.simps) (simp add: r4_def r5_def)
  note loop = loop2[unfolded this]
  have fin4: "finished (i + 2) (complete_effect (begun (hp_data c))) c r4" using f3(3) p by (simp add: finished_def r4_def f3)
  have fin5: "finished (i + 2) (begun (hp_data c)) c r5 \<and> p_state r5 = s_body_identity \<and> content_length (prs r5) = content_length c
      \<and> \<not> hp_upgrade (prs r5)"
    using f3(3) p by (simp add: finished_def r5_def f3)
  show ?thesis using loop fin4 fin5 by (cases "content_length c = 0 \<or> content_length c = ULLONG_MAX") auto
qed

text \<open>The body, all of it in the data.\<close>

lemma body_moves:
  assumes "finished i d c r" "p_state r = s_body_identity" "content_length (prs r) = of_nat (length body)" "\<not> hp_upgrade (prs r)"
    "drop i data = body" "body \<noteq> []" "length body < 18446744073709551605"
  shows "\<exists>r'. http_loop (parser_settings junk) data False r = http_loop (parser_settings junk) data False r'
    \<and> finished (length data) (complete_effect (body_effect body d)) c r'"
proof -
  let ?st = "parser_settings junk"
  have f: "cur r = i" "\<And>m. get_mark m r = None" "hp_errno (prs r) = HPE_OK" using assms(1) by (auto simp: finished_def)
  have len: "i + length body = length data" "i < length data" using assms(5,6) by auto
  have u: "unat (of_nat (length body) :: 64 word) = length body" using assms(7) by (simp only: unat_of_nat) simp
  have nz: "(of_nat (length body) :: 64 word) \<noteq> 0" "(of_nat (length body) :: 64 word) \<noteq> ULLONG_MAX"
    using u assms(6,7) by (auto simp: ULLONG_MAX_def)
  define r1 where "r1 = r\<lparr>cur_ch := data ! i\<rparr>"
  have l1: "http_loop ?st data False r = http_loop ?st data True r1"
    using f(1) len assms(2) by (subst http_loop.simps) (simp add: r1_def PARSING_HEADER_def)
  have chunk: "body_chunk (length data) r1 = length body" using u f(1) len assms(3) by (simp add: body_chunk_def r1_def)
  define r2 where "r2 = take_body (length data) r1"
  have r2: "content_length (prs r2) = 0" "cur r2 + 1 = length data" "\<And>m. get_mark m r2 = (if m = M_body then Some i else None)"
    "prs r2 = (prs r)\<lparr>content_length := 0\<rparr>"
    unfolding r2_def take_body_def chunk Let_def
    using f len assms(3,6) by (simp_all add: r1_def MARK_def del: put_mark.simps)
  let ?r = "UPDATE_STATE s_message_done r2"
  define r3 where "r3 = put_mark M_body None (?r\<lparr>prs := set_message (body_effect body) ((prs ?r)\<lparr>hp_state := p_state ?r\<rparr>)\<rparr>)"
  have cb: "callback_data ?st data M_body (cur r2 + 1) (cur r2) ?r = Inr r3" unfolding r3_def
  proof (rule data_calm[OF _ _ _ _ callbacks(6)])
    show "hp_errno (prs ?r) = HPE_OK" using r2(4) f(3) by simp
    show "get_mark M_body ?r = Some i" using r2(3)[of M_body] by (simp del: get_mark.simps)
    show "i \<le> cur r2 + 1" "cur r2 + 1 \<le> length data" using r2(2) len by simp_all
    show "(0, set_message (body_effect (take (cur r2 + 1 - i) (drop i data))) ((prs ?r)\<lparr>hp_state := p_state ?r\<rparr>)) =
      (0, set_message (body_effect body) ((prs ?r)\<lparr>hp_state := p_state ?r\<rparr>))"
      unfolding r2(2) assms(5) using len by simp
  qed
  have "http_step ?st data r1 = do_body_identity ?st data r1" using assms(2) by (simp add: http_step_def r1_def)
  also have "\<dots> = Reexec r3"
    unfolding do_body_identity_def r2_def[symmetric] Let_def using nz assms(3) r2(1) cb
    by (simp add: r1_def and_then_def)
  finally have l2: "http_loop ?st data True r1 = http_loop ?st data True r3" by (subst http_loop.simps) simp
  have r3: "prs r3 = set_message (body_effect body) ((prs r)\<lparr>content_length := 0, hp_state := s_message_done\<rparr>)" "cur r3 + 1 = length data"
    "\<And>m. get_mark m r3 = None" "p_state r3 = s_message_done"
    using r2 by (simp_all add: r3_def del: put_mark.simps get_mark.simps)
  have e3: "hp_errno (prs r3) = HPE_OK" using f(3) r3(1) by simp
  obtain s where s: "message_complete ?st r3 = Inr ((UPDATE_STATE s r3)\<lparr>prs := set_message complete_effect ((prs r3)\<lparr>hp_state := s\<rparr>)\<rparr>)"
    using complete_calm[OF e3] by blast
  define r4 where "r4 = (UPDATE_STATE s r3)\<lparr>prs := set_message complete_effect ((prs r3)\<lparr>hp_state := s\<rparr>)\<rparr>"
  have "http_step ?st data r3 = do_message_done ?st r3" using r3(4) by (simp add: http_step_def)
  also have "\<dots> = Break r4" using s assms(4) r3(1) by (simp add: do_message_done_def and_then_def r4_def)
  finally have l3: "http_loop ?st data True r3 = http_loop ?st data False (r4\<lparr>cur := cur r4 + 1\<rparr>)" by (subst http_loop.simps) simp
  have "finished (length data) (complete_effect (body_effect body d)) c (r4\<lparr>cur := cur r4 + 1\<rparr>)"
    using assms(1) r3 by (simp add: finished_def r4_def)
  then show ?thesis using l1 l2 l3 by (intro exI[of _ "r4\<lparr>cur := cur r4 + 1\<rparr>"]) simp
qed

subsection \<open>The whole request\<close>

definition request_head :: "http_method \<Rightarrow> string \<Rightarrow> (string \<times> string) list \<Rightarrow> string" where
  "request_head m url hs = method_strings m @ '' '' @ url @ '' HTTP/1.1'' @ crlf @ concat (map header_line hs) @ crlf"

definition request_ok :: "http_method \<Rightarrow> string \<Rightarrow> (string \<times> string) list \<Rightarrow> string \<Rightarrow> bool" where
  "request_ok m url hs body \<longleftrightarrow> m \<noteq> HTTP_HEAD \<and> m \<noteq> HTTP_CONNECT
     \<and> url \<noteq> [] \<and> hd url \<noteq> CHR '' '' \<and> foldl parse_url_char s_req_spaces_before_url url \<in> url_end_states
     \<and> headers_ok (length body) hs \<and> (body \<noteq> [] \<longrightarrow> (\<exists>h \<in> set hs. length_header (length body) h))
     \<and> length (request_head m url hs) < 81920 \<and> length body < 18446744073709551605"

definition collected :: "url \<Rightarrow> string \<Rightarrow> (string \<times> string) list \<Rightarrow> string \<Rightarrow> http_message \<Rightarrow> http_message" where
  "collected junk url hs body d = complete_effect ((if body = [] then (\<lambda>m. m) else body_effect body)
     (begun (fold header_effect hs (url_effect junk url (d\<lparr>msg_stage := HTTP_ON_MESSAGE_BEGIN\<rparr>)))))"

lemma request_line_moves:
  assumes "request_ok m url hs body" "at_state s_start_req_or_res 0 c r" "data = request_head m url hs @ body"
  shows "\<exists>r'. http_loop (parser_settings junk) data False r = http_loop (parser_settings junk) data False r'
    \<and> at_line (length (method_strings m) + length url + 12)
      ((set_message (url_effect junk url) ((begin_core m c)))\<lparr>http_major := 1, http_minor := 1\<rparr>) r'"
proof -
  let ?st = "parser_settings junk"
  define post where "post = concat (map header_line hs) @ crlf @ body"
  have ok: "m \<noteq> HTTP_HEAD" "m \<noteq> HTTP_CONNECT" "url \<noteq> []" "hd url \<noteq> CHR '' ''"
    "foldl parse_url_char s_req_spaces_before_url url \<in> url_end_states" "length (request_head m url hs) < 81920"
    using assms(1) by (simp_all add: request_ok_def)
  let ?ms = "method_strings m"
  obtain a as where ms: "?ms = a # as" using method_chars(3)[of m] by (cases ?ms) auto
  obtain u us where url: "url = u # us" using ok(3) by (cases url) auto
  have data: "data = ?ms @ CHR '' '' # url @ CHR '' '' # ''HTTP/1.1'' @ crlf @ post"
    using assms(3) by (simp add: request_head_def post_def)
  have len: "length ?ms + length url + 12 \<le> 81918" using ok(6) by (simp add: request_head_def crlf_def)
  note ch = method_chars(1,2,4,5)[of m]
  obtain m0 where m0: "first_method a = Some m0" "method_run (m0, 1) as = Some (m, length ?ms)"
    using method_read[OF ok(1)] unfolding ms by auto
  have d0: "drop 0 data = a # as @ CHR '' '' # url @ CHR '' '' # ''HTTP/1.1'' @ crlf @ post" using data ms by simp
  obtain r1 where r1: "http_loop ?st data False r = http_loop ?st data False r1" "at_method m0 1 (Suc 0) (begin_core m0 c) r1"
    using begin_moves[OF assms(2) d0 _ m0(1), of junk] ch ok(1) ms by auto
  have d1: "drop (Suc 0) data = as @ CHR '' '' # url @ CHR '' '' # ''HTTP/1.1'' @ crlf @ post" using drop_Cons_facts[OF d0] by simp
  obtain r2 where r2: "http_loop ?st data False r1 = http_loop ?st data False r2"
    "at_method m (length ?ms) (Suc 0 + length as) (begin_core m0 c) r2"
    using method_moves[OF m0(2) r1(2) d1, of ?st] ch len ms by auto
  have d2: "drop (Suc 0 + length as) data = CHR '' '' # url @ CHR '' '' # ''HTTP/1.1'' @ crlf @ post" by (rule drop_append_facts[OF d1])
  have c2: "(begin_core m0 c)\<lparr>hp_method := m\<rparr> = begin_core m c" by (simp add: begin_core_def set_message_def)
  obtain r3 where r3: "http_loop ?st data False r2 = http_loop ?st data False r3"
    "at_state s_req_spaces_before_url (length ?ms + 1) (begin_core m c) r3"
    using method_end_moves[OF r2(2) d2, of ?st] len ms unfolding c2 by auto
  let ?k = "length ?ms + 1"
  have d3: "drop ?k data = url @ CHR '' '' # ''HTTP/1.1'' @ crlf @ post" using drop_Cons_facts(3)[OF d2] ms by simp
  have meth: "hp_method (begin_core m c) \<noteq> HTTP_CONNECT" using ok(2) by (simp add: begin_core_def)
  let ?s = "parse_url_char s_req_spaces_before_url u" and ?e = "foldl parse_url_char s_req_spaces_before_url url"
  have live: "?s \<noteq> s_dead" "foldl parse_url_char ?s us \<noteq> s_dead"
    using ok(5) url_dead[of us] unfolding url by (auto simp: url_end_states_def)
  obtain r4 where r4: "http_loop ?st data False r3 = http_loop ?st data False r4" "at_mark M_url ?k ?s (Suc ?k) (begin_core m c) r4"
    using url_first[OF r3(2) _ _ meth _ live(1), of data "us @ CHR '' '' # ''HTTP/1.1'' @ crlf @ post" ?st] d3 url ok(4) len by auto
  have d4: "drop (Suc ?k) data = us @ CHR '' '' # ''HTTP/1.1'' @ crlf @ post" using drop_Cons_facts(3)[of ?k data u] d3 url by simp
  obtain r5 where r5: "http_loop ?st data False r4 = http_loop ?st data False r5" "at_mark M_url ?k ?e (?k + length url) (begin_core m c) r5"
    using url_moves[OF r4(2) d4 _ parse_url_char_states(3)[OF live(1)] live(2), of ?st] len url by auto
  have d5: "drop (?k + length url) data = CHR '' '' # ''HTTP/1.1'' @ crlf @ post" by (rule drop_append_facts[OF d3])
  have t5: "take (?k + length url - ?k) (drop ?k data) = url" using d3 by simp
  obtain r6 where r6: "http_loop ?st data False r5 = http_loop ?st data False r6"
    "at_state s_req_http_start (Suc (?k + length url)) (set_message (url_effect junk url) (begin_core m c)) r6"
    using url_end_moves[OF r5(2) d5 _ ok(5) _ t5, of junk] len by auto
  have d6: "drop (Suc (?k + length url)) data = ''HTTP/1.1'' @ crlf @ post" using drop_Cons_facts(3)[OF d5] by simp
  have v: "moves ?st data (s_req_http_start, Suc (?k + length url), set_message (url_effect junk url) (begin_core m c))
      (s_header_field_start, Suc (?k + length url) + 10, (set_message (url_effect junk url) (begin_core m c))\<lparr>http_major := 1, http_minor := 1\<rparr>)"
    by (rule version_moves[OF d6]) (use len in simp)
  obtain r7 where r7: "http_loop ?st data False r6 = http_loop ?st data False r7"
    "at_state s_header_field_start (Suc (?k + length url) + 10) ((set_message (url_effect junk url) (begin_core m c))\<lparr>http_major := 1, http_minor := 1\<rparr>) r7"
    using v r6(2) unfolding moves_def by auto
  have "Suc (?k + length url) + 10 = length ?ms + length url + 12" by simp
  then show ?thesis using r1(1) r2(1) r3(1) r4(1) r5(1) r6(1) r7 unfolding at_line_def by (intro exI[of _ r7]) (simp add: ac_simps)
qed

lemma request_executed:
  assumes "request_ok m url hs body" "hp_errno pr = HPE_OK" "hp_state pr = s_start_req_or_res" "nread pr = 0"
  shows "\<exists>p. http_parser_execute (parser_settings junk) (request_head m url hs @ body) pr = Some (length (request_head m url hs @ body), p)
    \<and> hp_errno p = HPE_OK \<and> hp_method p = m \<and> http_major p = 1 \<and> http_minor p = 1
    \<and> hp_data p = collected junk url hs body (hp_data pr)"
proof -
  let ?st = "parser_settings junk"
  define data where "data = request_head m url hs @ body"
  let ?r = "start_run pr" and ?i = "length (method_strings m) + length url + 12"
  have m: "m \<noteq> HTTP_CONNECT" "length (request_head m url hs) < 81920" "length body < 18446744073709551605" "headers_ok (length body) hs"
    "body \<noteq> [] \<longrightarrow> (\<exists>h \<in> set hs. length_header (length body) h)"
    using assms(1) by (simp_all add: request_ok_def)
  have at0: "at_state s_start_req_or_res 0 (core pr) ?r"
  proof -
    have "get_mark x ?r = None" for x using assms(3) by (cases x) (simp_all add: start_run_def Let_def url_states_def)
    then show ?thesis using assms by (simp add: at_state_def start_run_def Let_def del: get_mark.simps)
  qed
  define c4 where "c4 = (set_message (url_effect junk url) (begin_core m (core pr)))\<lparr>http_major := 1, http_minor := 1\<rparr>"
  obtain r1 where r1: "http_loop ?st data False ?r = http_loop ?st data False r1" "at_line ?i c4 r1"
    using request_line_moves[OF assms(1) at0 data_def, of junk] unfolding c4_def by auto
  let ?hs = "concat (map header_line hs)"
  have d1: "drop ?i data = ?hs @ crlf @ body"
  proof -
    let ?pre = "method_strings m @ '' '' @ url @ '' HTTP/1.1'' @ crlf"
    have "data = ?pre @ ?hs @ crlf @ body" "length ?pre = ?i" by (simp_all add: data_def request_head_def crlf_def)
    then show ?thesis by (metis append_eq_conv_conj)
  qed
  have len: "?i + length ?hs + 2 < 81920" using m(2) by (simp add: request_head_def crlf_def)
  have c4: "hp_flags c4 = 0" "content_length c4 = ULLONG_MAX" "hp_type c4 = HTTP_REQUEST" "hp_method c4 = m" "http_major c4 = 1" "http_minor c4 = 1"
    "hp_data c4 = url_effect junk url ((hp_data pr)\<lparr>msg_stage := HTTP_ON_MESSAGE_BEGIN\<rparr>)"
    by (simp_all add: c4_def begin_core_def)
  define c5 where "c5 = set_message (fold header_effect hs) (framed (length body) hs c4)"
  have "has_flag F_CONTENTLENGTH c4 \<longrightarrow> (\<forall>h \<in> set hs. \<not> length_header (length body) h)" using c4 by (simp add: has_flag_def)
  from headers_moves[OF r1(2) d1 _ m(4,3) this, of junk]
  obtain r2 where r2: "http_loop ?st data False r1 = http_loop ?st data False r2" "at_line (?i + length ?hs) c5 r2"
    using len unfolding c5_def by auto
  have d2: "drop (?i + length ?hs) data = CR # LF # body" using drop_append_facts[OF d1] by (simp add: crlf_def)
  have c5: "hp_flags c5 \<in> {0, F_CONTENTLENGTH}" "hp_method c5 = m" "hp_type c5 = HTTP_REQUEST" "http_major c5 = 1" "http_minor c5 = 1"
    "hp_data c5 = fold header_effect hs (hp_data c4)"
    "content_length c5 = (if \<exists>h \<in> set hs. length_header (length body) h then of_nat (length body) else ULLONG_MAX)"
    using c4 by (simp_all add: c5_def framed_def)
  have end_data: "?i + length ?hs + 2 + length body = length data" using d2 len by (simp add: data_def request_head_def crlf_def)
  have m5: "hp_method c5 \<noteq> HTTP_CONNECT" using c5(2) m(1) by simp
  note fin = head_end_moves[OF r2(2) d2 len c5(1) m5 c5(3), of junk]
  have "\<exists>r3. http_loop ?st data False r2 = http_loop ?st data False r3
    \<and> finished (length data) (collected junk url hs body (hp_data pr)) c5 r3"
  proof (cases "body = []")
    case True
    have "content_length c5 = 0 \<or> content_length c5 = ULLONG_MAX" using c5(7) True by simp
    then show ?thesis using fin end_data c4(7) c5(6) True by (simp add: collected_def)
  next
    case False
    have "unat (of_nat (length body) :: 64 word) = length body" using m(3) by (simp only: unat_of_nat) simp
    then have "(of_nat (length body) :: 64 word) \<noteq> 0" "(of_nat (length body) :: 64 word) \<noteq> ULLONG_MAX"
      using m(3) False by (auto simp: ULLONG_MAX_def)
    moreover have cl: "content_length c5 = of_nat (length body)" using c5(7) m(5) False by simp
    ultimately obtain r3 where r3: "http_loop ?st data False r2 = http_loop ?st data False r3"
      "finished (?i + length ?hs + 2) (begun (hp_data c5)) c5 r3" "p_state r3 = s_body_identity"
      "content_length (prs r3) = of_nat (length body)" "\<not> hp_upgrade (prs r3)"
      using fin by (auto split: if_splits)
    have d3: "drop (?i + length ?hs + 2) data = body" using drop_append_facts[of "?i + length ?hs" data "[CR, LF]" body] d2 by simp
    show ?thesis using body_moves[OF r3(2,3,4,5) d3 False m(3), of junk] r3(1) c4(7) c5(6) False by (simp add: collected_def)
  qed
  then obtain r3 where r3: "http_loop ?st data False r2 = http_loop ?st data False r3"
    "finished (length data) (collected junk url hs body (hp_data pr)) c5 r3" by blast
  obtain p where p: "http_loop ?st data False r3 = Some (length data, p)" "hp_errno p = HPE_OK"
    "hp_data p = collected junk url hs body (hp_data pr)" "hp_method p = m" "http_major p = 1" "http_minor p = 1"
    using finished_loop[OF r3(2)] c5 by auto
  have ne: "data \<noteq> []" by (simp add: data_def request_head_def)
  then have "http_parser_execute ?st data pr = Some (length data, p)"
    using r1(1) r2(1) r3(1) p(1) assms(2) by (simp add: http_parser_execute_def)
  then show ?thesis using p unfolding data_def by blast
qed

subsection \<open>What the message has collected\<close>

lemma map_emplace_fst: "fst ` set (map_emplace k v xs) = insert k (fst ` set xs)"
  by (induction k v xs rule: map_emplace.induct) auto

lemma map_emplace_sorted: "sorted_wrt (<) (map fst xs) \<Longrightarrow> sorted_wrt (<) (map fst (map_emplace k v xs))"
proof (induction k v xs rule: map_emplace.induct)
  case (2 k v k' v' xs)
  have "\<forall>x \<in> fst ` set (map_emplace k v xs). k' < x" if "k' < k"
    using that 2(2) unfolding map_emplace_fst by auto
  then show ?case using 2 by auto
qed simp

lemma map_emplace_lookup:
  "sorted_wrt (<) (map fst xs) \<Longrightarrow>
     map_of (map_emplace k v xs) x = (if x = k then Some (case map_of xs k of None \<Rightarrow> v | Some w \<Rightarrow> w) else map_of xs x)"
proof (induction k v xs rule: map_emplace.induct)
  case (2 k v k' v' xs)
  have "map_of xs k = None" if "k < k'"
    using 2(2) that by (auto simp: map_of_eq_None_iff)
  then show ?case using 2 by (auto split: option.splits)
qed simp

text \<open>The header map after the header lines: the first of equal names stays.\<close>

definition lower_headers :: "(string \<times> string) list \<Rightarrow> (string \<times> string) list" where
  "lower_headers = map (\<lambda>(n, v). (map tolower n, v))"

lemma header_effect_fields:
  assumes "msg_stage m \<noteq> HTTP_ON_HEADER_FIELD"
  shows "msg_stage (header_effect h m) \<noteq> HTTP_ON_HEADER_FIELD"
    "msg_header_map (header_effect h m) = map_emplace (map tolower (fst h)) (snd h) (msg_header_map m)"
    "msg_url (header_effect h m) = msg_url m" "msg_content (header_effect h m) = msg_content m"
    "msg_service_name (header_effect h m) = msg_service_name m" "msg_method_name (header_effect h m) = msg_method_name m"
  using assms by (cases h; simp add: header_effect_def value_effect_def field_effect_def)+

lemma headers_collected:
  assumes "msg_stage m \<noteq> HTTP_ON_HEADER_FIELD" "sorted_wrt (<) (map fst (msg_header_map m))"
  shows "map_of (msg_header_map (fold header_effect hs m)) x =
      (case map_of (msg_header_map m) x of Some v \<Rightarrow> Some v | None \<Rightarrow> map_of (lower_headers hs) x)"
    "msg_url (fold header_effect hs m) = msg_url m" "msg_content (fold header_effect hs m) = msg_content m"
    "msg_service_name (fold header_effect hs m) = msg_service_name m" "msg_method_name (fold header_effect hs m) = msg_method_name m"
  using assms
proof (induction hs arbitrary: m)
  case Nil
  { case 1 show ?case by (simp add: lower_headers_def split: option.split) }
  { case 2 show ?case by simp }
  { case 3 show ?case by simp }
  { case 4 show ?case by simp }
  { case 5 show ?case by simp }
next
  case (Cons h hs)
  { case 1
    note e = header_effect_fields[OF 1(1), of h]
    have s: "sorted_wrt (<) (map fst (msg_header_map (header_effect h m)))" unfolding e(2) by (rule map_emplace_sorted[OF 1(2)])
    show ?case using Cons.IH(1)[OF e(1) s] map_emplace_lookup[OF 1(2)] unfolding e(2)
      by (cases h) (auto simp: lower_headers_def split: option.splits) }
  { case 2
    note e = header_effect_fields[OF 2(1), of h]
    have s: "sorted_wrt (<) (map fst (msg_header_map (header_effect h m)))" unfolding e(2) by (rule map_emplace_sorted[OF 2(2)])
    show ?case using Cons.IH(2)[OF e(1) s] e(3) by simp }
  { case 3
    note e = header_effect_fields[OF 3(1), of h]
    have s: "sorted_wrt (<) (map fst (msg_header_map (header_effect h m)))" unfolding e(2) by (rule map_emplace_sorted[OF 3(2)])
    show ?case using Cons.IH(3)[OF e(1) s] e(4) by simp }
  { case 4
    note e = header_effect_fields[OF 4(1), of h]
    have s: "sorted_wrt (<) (map fst (msg_header_map (header_effect h m)))" unfolding e(2) by (rule map_emplace_sorted[OF 4(2)])
    show ?case using Cons.IH(4)[OF e(1) s] e(5) by simp }
  { case 5
    note e = header_effect_fields[OF 5(1), of h]
    have s: "sorted_wrt (<) (map fst (msg_header_map (header_effect h m)))" unfolding e(2) by (rule map_emplace_sorted[OF 5(2)])
    show ?case using Cons.IH(5)[OF e(1) s] e(6) by simp }
qed

lemma split_path_fields [simp]:
  "msg_url (split_path p m) = msg_url m" "msg_header_map (split_path p m) = msg_header_map m"
  "msg_content (split_path p m) = msg_content m" "msg_stage (split_path p m) = msg_stage m"
  by (simp_all add: split_path_def Let_def split: option.split)

lemma url_effect_fields:
  "msg_url (url_effect junk xs m) = msg_url m @ xs" "msg_header_map (url_effect junk xs m) = msg_header_map m"
  "msg_content (url_effect junk xs m) = msg_content m" "msg_stage (url_effect junk xs m) = HTTP_ON_URL"
  by (simp_all add: url_effect_def Let_def split: option.split)

lemma finish_fields:
  "msg_url (complete_effect m) = msg_url m" "msg_header_map (complete_effect m) = msg_header_map m"
  "msg_content (complete_effect m) = msg_content m" "msg_stage (complete_effect m) = HTTP_ON_MESSAGE_COMPLETE"
  "msg_url (body_effect body m) = msg_url m" "msg_header_map (body_effect body m) = msg_header_map m"
  "msg_content (body_effect body m) = msg_content m @ body"
  "msg_url (begun m) = msg_url m" "msg_header_map (begun m) = msg_header_map m" "msg_content (begun m) = msg_content m"
  "msg_service_name (complete_effect m) = msg_service_name m" "msg_method_name (complete_effect m) = msg_method_name m"
  "msg_service_name (body_effect body m) = msg_service_name m" "msg_method_name (body_effect body m) = msg_method_name m"
  "msg_service_name (begun m) = msg_service_name m" "msg_method_name (begun m) = msg_method_name m"
  by (simp_all add: complete_effect_def body_effect_def begun_def)

lemma collected_fields:
  assumes "msg_header_map d = []"
  shows "msg_url (collected junk url hs body d) = msg_url d @ url"
    "msg_content (collected junk url hs body d) = msg_content d @ body"
    "msg_stage (collected junk url hs body d) = HTTP_ON_MESSAGE_COMPLETE"
    "map_of (msg_header_map (collected junk url hs body d)) = map_of (lower_headers hs)"
    "msg_service_name (collected junk url hs body d) = msg_service_name (url_effect junk url (d\<lparr>msg_stage := HTTP_ON_MESSAGE_BEGIN\<rparr>))"
    "msg_method_name (collected junk url hs body d) = msg_method_name (url_effect junk url (d\<lparr>msg_stage := HTTP_ON_MESSAGE_BEGIN\<rparr>))"
proof -
  let ?m = "url_effect junk url (d\<lparr>msg_stage := HTTP_ON_MESSAGE_BEGIN\<rparr>)"
  have h: "msg_stage ?m \<noteq> HTTP_ON_HEADER_FIELD" "sorted_wrt (<) (map fst (msg_header_map ?m))"
    using assms by (simp_all add: url_effect_fields)
  note c = headers_collected[OF h]
  show "msg_url (collected junk url hs body d) = msg_url d @ url"
    "msg_content (collected junk url hs body d) = msg_content d @ body"
    "msg_stage (collected junk url hs body d) = HTTP_ON_MESSAGE_COMPLETE"
    by (simp_all add: collected_def finish_fields c url_effect_fields)
  show "map_of (msg_header_map (collected junk url hs body d)) = map_of (lower_headers hs)"
    using c(1) assms by (auto simp: collected_def finish_fields url_effect_fields fun_eq_iff)
  show "msg_service_name (collected junk url hs body d) = msg_service_name ?m"
    "msg_method_name (collected junk url hs body d) = msg_method_name ?m"
    by (simp_all add: collected_def finish_fields c)
qed

subsection \<open>The service and the method of a URL\<close>

lemma url_char_table:
  "\<not> IS_URL_CHAR CHR '' ''" "\<not> IS_URL_CHAR CR" "\<not> IS_URL_CHAR LF" "\<not> IS_URL_CHAR HT" "\<not> IS_URL_CHAR FF"
  "IS_URL_CHAR CHR ''/''" "\<not> IS_URL_CHAR CHR ''?''"
  by code_simp+

lemma url_char_plain: "IS_URL_CHAR ch \<Longrightarrow> ch \<noteq> CHR '' '' \<and> ch \<noteq> CR \<and> ch \<noteq> LF \<and> ch \<noteq> HT \<and> ch \<noteq> FF"
  using url_char_table by auto

definition longer_path :: "nat \<Rightarrow> url \<Rightarrow> url" where
  "longer_path n u = u\<lparr>u_len := (u_len u)(UF_PATH := u_len u UF_PATH + of_nat n)\<rparr>"

lemma longer_path_more: "longer_path n (grow_field UF_PATH u) = longer_path (Suc n) u"
  by (cases u) (simp add: longer_path_def grow_field_def ac_simps)

lemma path_loop:
  assumes "\<forall>ch \<in> set p. IS_URL_CHAR ch"
  shows "url_loop (p @ q) i s_req_path (Some UF_PATH) at u =
    url_loop q (i + length p) s_req_path (Some UF_PATH) at (longer_path (length p) u)"
  using assms
proof (induction p arbitrary: i u)
  case Nil
  have "longer_path 0 u = u" by (cases u) (simp add: longer_path_def)
  then show ?case by simp
next
  case (Cons ch p)
  have "parse_url_char s_req_path ch = s_req_path" using url_char_plain[of ch] Cons.prems by (simp add: parse_url_char_def)
  then show ?case using Cons by (simp add: url_state_field_def longer_path_more)
qed

text \<open>The query does not touch the path.\<close>

definition path_kept :: "url \<Rightarrow> url \<Rightarrow> bool" where
  "path_kept u u' \<longleftrightarrow> u_off u' UF_PATH = u_off u UF_PATH \<and> u_len u' UF_PATH = u_len u UF_PATH
    \<and> field_set u \<subseteq> field_set u' \<and> field_set u' \<subseteq> insert UF_QUERY (field_set u)"

lemma query_loop:
  assumes "\<forall>ch \<in> set qs. IS_URL_CHAR ch" "s = s_req_query_string \<or> s = s_req_query_string_start" "old = Some UF_PATH \<or> old = Some UF_QUERY"
  shows "\<exists>u'. url_loop qs i s old at u = Some (at, u') \<and> path_kept u u'"
  using assms
proof (induction qs arbitrary: i u s old)
  case Nil
  then show ?case by (auto simp: path_kept_def)
next
  case (Cons ch qs)
  define u1 where "u1 = (if old = Some UF_QUERY then grow_field UF_QUERY u else set_field UF_QUERY i 1 u)"
  have q: "parse_url_char s ch = s_req_query_string"
  proof -
    have "parse_url_char s ch = url_query_char ch"
      using Cons.prems(2) url_char_plain[of ch] Cons.prems(1) by (elim disjE; simp add: parse_url_char_def)
    then show ?thesis using Cons.prems(1) by (simp add: url_query_char_def)
  qed
  have k: "path_kept u u1" by (auto simp: u1_def path_kept_def grow_field_def set_field_def)
  have step: "url_loop (ch # qs) i s old at u = url_loop qs (i + 1) s_req_query_string (Some UF_QUERY) at u1"
    using Cons.prems(3) by (elim disjE; simp add: q u1_def url_state_field_def)
  obtain u' where "url_loop qs (i + 1) s_req_query_string (Some UF_QUERY) at u1 = Some (at, u')" "path_kept u1 u'"
    using Cons.IH[of s_req_query_string "Some UF_QUERY" "i + 1" u1] Cons.prems(1) by auto
  then show ?case using k unfolding step by (intro exI[of _ u']) (auto simp: path_kept_def)
qed

definition url_query :: "string \<Rightarrow> bool" where
  "url_query q \<longleftrightarrow> q = [] \<or> (\<exists>qs. q = CHR ''?'' # qs \<and> (\<forall>ch \<in> set qs. IS_URL_CHAR ch))"

lemma parse_path_url:
  assumes "\<forall>ch \<in> set p. IS_URL_CHAR ch" "url_query q" "length p < 65535"
  shows "\<exists>u. http_parser_parse_url (CHR ''/'' # p @ q) rest False junk = Some u \<and> UF_PATH \<in> field_set u
    \<and> unat (u_off u UF_PATH) = 0 \<and> unat (u_len u UF_PATH) = length p + 1"
proof -
  define u0 where "u0 = junk\<lparr>url_port := 0, field_set := {}\<rparr>"
  define u1 where "u1 = u0\<lparr>field_set := {UF_PATH}, u_off := (u_off u0)(UF_PATH := 0), u_len := (u_len u0)(UF_PATH := 1 + of_nat (length p))\<rparr>"
  have "parse_url_char s_req_spaces_before_url CHR ''/'' = s_req_path" by (simp add: parse_url_char_def CR_def LF_def HT_def FF_def)
  then have "url_loop (CHR ''/'' # p @ q) 0 s_req_spaces_before_url None False u0 =
      url_loop (p @ q) 1 s_req_path (Some UF_PATH) False (set_field UF_PATH 0 1 u0)"
    by (simp add: url_state_field_def)
  also have "\<dots> = url_loop q (1 + length p) s_req_path (Some UF_PATH) False u1"
    
  proof -
    have "longer_path (length p) (set_field UF_PATH 0 1 u0) = u1"
      by (simp add: longer_path_def set_field_def u1_def u0_def)
    then show ?thesis by (simp only: path_loop[OF assms(1)])
  qed
  finally have l: "url_loop (CHR ''/'' # p @ q) 0 s_req_spaces_before_url None False u0 =
      url_loop q (1 + length p) s_req_path (Some UF_PATH) False u1" .
  have "\<exists>u'. url_loop q (1 + length p) s_req_path (Some UF_PATH) False u1 = Some (False, u')
      \<and> path_kept u1 u'"
  proof (cases "q = []")
    case True
    then show ?thesis by (auto simp: path_kept_def)
  next
    case False
    then obtain qs where q: "q = CHR ''?'' # qs" "\<forall>ch \<in> set qs. IS_URL_CHAR ch" using assms(2) by (auto simp: url_query_def)
    have "parse_url_char s_req_path CHR ''?'' = s_req_query_string_start"
      using url_char_table by (simp add: parse_url_char_def CR_def LF_def HT_def FF_def)
    then have "url_loop q (1 + length p) s_req_path (Some UF_PATH) False u1 =
        url_loop qs (2 + length p) s_req_query_string_start (Some UF_PATH) False u1"
      by (simp add: q(1) url_state_field_def)
    then show ?thesis using query_loop[OF q(2)] by simp
  qed
  then obtain u' where loop: "url_loop q (1 + length p) s_req_path (Some UF_PATH) False u1 = Some (False, u')"
    and kept: "path_kept u1 u'" by blast
  have u': "u_off u' UF_PATH = 0" "u_len u' UF_PATH = of_nat (length p + 1)" "UF_PATH \<in> field_set u'" "field_set u' \<subseteq> {UF_QUERY, UF_PATH}"
    using kept unfolding path_kept_def by (simp_all add: u1_def)
  have nf: "UF_SCHEMA \<notin> field_set u'" "UF_HOST \<notin> field_set u'" "UF_PORT \<notin> field_set u'" using u'(4) by auto
  have "http_parser_parse_url (CHR ''/'' # p @ q) rest False junk = Some u'"
    unfolding http_parser_parse_url_def Let_def by (simp only: if_False u0_def[symmetric] l loop option.case prod.case nf simp_thms)
  moreover have "unat (of_nat (length p + 1) :: 16 word) = length p + 1" using assms(3) by (simp only: unat_of_nat) simp
  ultimately show ?thesis using u'(1-3) by (intro exI[of _ u']) (simp only: unat_0 simp_thms)
qed

lemma rfind_last:
  "CHR ''/'' \<notin> set meth \<Longrightarrow> rfind_slash (pre @ CHR ''/'' # meth) = Some (length pre)"
proof -
  assume "CHR ''/'' \<notin> set meth"
  then have "takeWhile (\<lambda>c. c \<noteq> CHR ''/'') (rev meth @ CHR ''/'' # rev pre) = rev meth"
    by (subst takeWhile_append2) auto
  then show ?thesis by (simp add: rfind_slash_def Let_def)
qed

lemma url_routed:
  assumes "\<forall>ch \<in> set (svc @ meth). IS_URL_CHAR ch" "CHR ''/'' \<notin> set meth" "meth \<noteq> []" "url_query q"
    "length svc + length meth < 65534" "msg_url m = []"
  shows "msg_service_name (url_effect junk (CHR ''/'' # svc @ CHR ''/'' # meth @ q) m) = svc"
    "msg_method_name (url_effect junk (CHR ''/'' # svc @ CHR ''/'' # meth @ q) m) = meth"
proof -
  let ?p = "svc @ CHR ''/'' # meth"
  have p: "\<forall>ch \<in> set ?p. IS_URL_CHAR ch" using assms(1) url_char_table(6) by simp
  have len: "length ?p < 65535" using assms(5) by simp
  obtain u where u: "http_parser_parse_url (CHR ''/'' # ?p @ q) [NUL] False junk = Some u" "UF_PATH \<in> field_set u"
    "unat (u_off u UF_PATH) = 0" "unat (u_len u UF_PATH) = length ?p + 1"
    using parse_path_url[OF p assms(4) len] by blast
  have path: "take (length ?p + 1) (CHR ''/'' # ?p @ q) = (CHR ''/'' # svc) @ CHR ''/'' # meth" by simp
  have e: "CHR ''/'' # svc @ CHR ''/'' # meth @ q = CHR ''/'' # ?p @ q" by simp
  have eff: "url_effect junk (CHR ''/'' # ?p @ q) m =
      split_path ((CHR ''/'' # svc) @ CHR ''/'' # meth) (m\<lparr>msg_stage := HTTP_ON_URL, msg_url := CHR ''/'' # ?p @ q\<rparr>)"
    unfolding url_effect_def Let_def assms(6) append_Nil using u path by simp
  show "msg_service_name (url_effect junk (CHR ''/'' # svc @ CHR ''/'' # meth @ q) m) = svc"
    "msg_method_name (url_effect junk (CHR ''/'' # svc @ CHR ''/'' # meth @ q) m) = meth"
    unfolding e eff split_path_def rfind_last[OF assms(2)] using assms(3) by (simp_all add: Let_def)
qed

subsection \<open>A request in the input buffer\<close>

lemma request_parsed:
  assumes "buf_ok k b" "contents b = request_head m url hs @ body" "buf_read_index b \<le> buf_write_index b" "request_ok m url hs body"
  shows "\<exists>p. http_message_parse junk b http_message_new = Some (int (length (contents b)), p) \<and> hp_errno p = HPE_OK
    \<and> hp_method p = m \<and> http_major p = 1 \<and> http_minor p = 1
    \<and> (\<exists>n. hp_data p = (collected junk url hs body (hp_data http_message_new))\<lparr>msg_parsed_length := n\<rparr>)"
proof -
  let ?data = "request_head m url hs @ body"
  obtain ds where ds: "map (view_bytes (buf_ring b)) (strs b) = map Some ds" "concat ds = ?data"
    using strs_views[OF assms(1)] assms(2) by auto
  have "length (strs b) = 1" using assms(3) by (simp add: strs_def)
  then have "length ds = 1" using ds(1) by (metis length_map)
  then have ds1: "ds = [?data]" using ds(2) by (cases ds) auto
  have g: "gather (buf_ring b) (strs b) = Some [?data]" using gather_views[OF ds(1)] unfolding ds1 .
  have new: "hp_errno http_message_new = HPE_OK" "hp_state http_message_new = s_start_req_or_res" "nread http_message_new = 0"
    by (simp_all add: http_message_new_def http_parser_init_def start_state_def)
  obtain p where p: "http_parser_execute (parser_settings junk) ?data http_message_new = Some (length ?data, p)" "hp_errno p = HPE_OK"
    "hp_method p = m" "http_major p = 1" "http_minor p = 1" "hp_data p = collected junk url hs body (hp_data http_message_new)"
    using request_executed[OF assms(4) new] by blast
  have empty: "msg_header_map (hp_data http_message_new) = []" by (simp add: http_message_new_def http_parser_init_def)
  have "http_message_completed p" using collected_fields(3)[OF empty] p(6) by (simp add: http_message_completed_def)
  moreover have "?data \<noteq> []" by (simp add: request_head_def)
  ultimately have "http_message_parse junk b http_message_new =
      Some (int (length ?data), set_message (\<lambda>x. x\<lparr>msg_parsed_length := msg_parsed_length x + length ?data\<rparr>) p)"
    using p(1,2) g by (simp add: http_message_parse_def del: append_is_Nil_conv)
  then show ?thesis using p(2-6) unfolding assms(2)
    by (intro exI[of _ "set_message (\<lambda>x. x\<lparr>msg_parsed_length := msg_parsed_length x + length ?data\<rparr>) p"]) (simp, blast)
qed

lemma new_message_fields:
  "msg_header_map (hp_data http_message_new) = []" "msg_url (hp_data http_message_new) = []" "msg_content (hp_data http_message_new) = []"
  by (simp_all add: http_message_new_def http_parser_init_def)

text \<open>C5: A well-formed HTTP/1.1 request in the input buffer (any method but HEAD and CONNECT, any URL the
  parser's own automaton accepts, headers the parser passes on, one Content-Length with the
  length of the body when there is one) is parsed to the end: all its bytes are to be cut, the message is
  complete, and it holds the method, the URL, every header under its lower-case name (of equal names the
  first) and exactly the body.\<close>

theorem http_request_delivered:
  assumes "buf_ok k b" "contents b = request_head m url hs @ body" "buf_read_index b \<le> buf_write_index b" "request_ok m url hs body"
  shows "\<exists>p. http_message_parse junk b http_message_new = Some (int (length (contents b)), p)
    \<and> http_message_completed p \<and> hp_errno p = HPE_OK \<and> hp_method p = m \<and> http_major p = 1 \<and> http_minor p = 1
    \<and> msg_url (hp_data p) = url \<and> msg_content (hp_data p) = body
    \<and> map_of (msg_header_map (hp_data p)) = map_of (lower_headers hs)"
proof -
  obtain p n where p: "http_message_parse junk b http_message_new = Some (int (length (contents b)), p)" "hp_errno p = HPE_OK"
    "hp_method p = m" "http_major p = 1" "http_minor p = 1"
    "hp_data p = (collected junk url hs body (hp_data http_message_new))\<lparr>msg_parsed_length := n\<rparr>"
    using request_parsed[OF assms] by blast
  note c = collected_fields[OF new_message_fields(1), of junk url hs body]
  show ?thesis using p(1-5) c(1-4) new_message_fields(2,3) by (intro exI[of _ p]) (simp add: p(6) http_message_completed_def)
qed

definition sample_request :: buffer where
  "sample_request =
     \<lparr>buf_read_index = 0, buf_write_index = 63, buf_capacity = 64, buf_mask = 63,
      buf_ring = Block 1 (request_head HTTP_POST ''/s/m?q'' [(''Host'', ''x''), (''Content-Length'', ''2''), (''host'', ''y'')]
        @ ''hi'' @ [NUL]), buf_read_buffer = Null\<rparr>"

lemma sample_request_ok:
  "buf_ok 6 sample_request" "buf_read_index sample_request \<le> buf_write_index sample_request"
  "contents sample_request = request_head HTTP_POST ''/s/m?q'' [(''Host'', ''x''), (''Content-Length'', ''2''), (''host'', ''y'')] @ ''hi''"
  "request_ok HTTP_POST ''/s/m?q'' [(''Host'', ''x''), (''Content-Length'', ''2''), (''host'', ''y'')] ''hi''"
proof -
  let ?req = "request_head HTTP_POST ''/s/m?q'' [(''Host'', ''x''), (''Content-Length'', ''2''), (''host'', ''y'')] @ ''hi''"
  have len: "length ?req = 63" by code_simp
  define bytes where "bytes = ?req"
  have ring: "buf_ring sample_request = Block 1 (bytes @ [NUL])" unfolding sample_request_def bytes_def by simp
  have idx: "buf_read_index sample_request = 0" "buf_write_index sample_request = 63" "buf_capacity sample_request = 64"
    "buf_mask sample_request = 63" "buf_read_buffer sample_request = Null"
    by (simp_all add: sample_request_def)
  show "buf_ok 6 sample_request" using len by (simp add: buf_ok_def ring idx sized_block_def bytes_def)
  show "buf_read_index sample_request \<le> buf_write_index sample_request" by (simp add: idx)
  show "contents sample_request = ?req"
    using len unfolding bytes_def[symmetric] by (simp add: contents_def ring idx ring_content_def)
  show "request_ok HTTP_POST ''/s/m?q'' [(''Host'', ''x''), (''Content-Length'', ''2''), (''host'', ''y'')] ''hi''"
  proof -
    have "foldl parse_url_char s_req_spaces_before_url ''/s/m?q'' \<in> url_end_states" by code_simp
    moreover have "headers_ok 2 [(''Host'', ''x''), (''Content-Length'', ''2''), (''host'', ''y'')]" by code_simp
    moreover have "length_header 2 (''Content-Length'', ''2'')" by code_simp
    ultimately show ?thesis using len by (simp add: request_ok_def numeral_2_eq_2 del: foldl.simps headers_ok.simps)
  qed
qed

theorem http_request_delivered_witness:
  "\<exists>p. http_message_parse http_parser_url_init sample_request http_message_new = Some (63, p) \<and> http_message_completed p
    \<and> hp_method p = HTTP_POST \<and> msg_url (hp_data p) = ''/s/m?q'' \<and> msg_content (hp_data p) = ''hi''
    \<and> map_of (msg_header_map (hp_data p)) ''host'' = Some ''x''"
proof -
  have "map_of (lower_headers [(''Host'', ''x''), (''Content-Length'', ''2''), (''host'', ''y'')]) ''host'' = Some ''x''" by code_simp
  moreover have "length (contents sample_request) = 63"
    unfolding sample_request_ok(3) by (simp add: request_head_def header_line_def crlf_def)
  ultimately show ?thesis
    using http_request_delivered[OF sample_request_ok(1,3,2,4), of http_parser_url_init] by auto
qed

text \<open>C7: When the URL of such a request is \<open>/service/method\<close> with or without a query, the service and
  the method the server dispatches on are exactly these two parts, in whatever state the local
  \<open>http_parser_url\<close> was; the service may have slashes of its own.\<close>

theorem http_request_routed:
  assumes "buf_ok k b" "contents b = request_head m (CHR ''/'' # svc @ CHR ''/'' # meth @ q) hs @ body"
    and "buf_read_index b \<le> buf_write_index b" "request_ok m (CHR ''/'' # svc @ CHR ''/'' # meth @ q) hs body"
    and "\<forall>ch \<in> set (svc @ meth). IS_URL_CHAR ch" "CHR ''/'' \<notin> set meth" "meth \<noteq> []" "url_query q"
    and "length svc + length meth < 65534"
  shows "\<exists>n p. http_message_parse junk b http_message_new = Some (n, p) \<and> http_message_completed p
    \<and> msg_service_name (hp_data p) = svc \<and> msg_method_name (hp_data p) = meth"
proof -
  let ?url = "CHR ''/'' # svc @ CHR ''/'' # meth @ q" and ?d = "hp_data http_message_new"
  obtain p n where p: "http_message_parse junk b http_message_new = Some (int (length (contents b)), p)"
    "hp_data p = (collected junk ?url hs body ?d)\<lparr>msg_parsed_length := n\<rparr>"
    using request_parsed[OF assms(1-4)] by blast
  have u: "msg_url (?d\<lparr>msg_stage := HTTP_ON_MESSAGE_BEGIN\<rparr>) = []" using new_message_fields by simp
  note c = collected_fields[OF new_message_fields(1), of junk ?url hs body]
  show ?thesis
    using p c(3,5,6) url_routed[OF assms(5-9) u, of junk] by (intro exI[of _ p] exI) (simp add: http_message_completed_def)
qed

theorem http_request_routed_witness:
  "\<exists>n p. http_message_parse http_parser_url_init sample_request http_message_new = Some (n, p) \<and> http_message_completed p
    \<and> msg_service_name (hp_data p) = ''s'' \<and> msg_method_name (hp_data p) = ''m''"
proof -
  have url: "''/s/m?q'' = CHR ''/'' # ''s'' @ CHR ''/'' # ''m'' @ ''?q''" by simp
  have side: "\<forall>ch \<in> set (''s'' @ ''m''). IS_URL_CHAR ch" "CHR ''/'' \<notin> set ''m''" "''m'' \<noteq> []" "url_query ''?q''"
    "length ''s'' + length ''m'' < 65534"
  proof -
    show "\<forall>ch \<in> set (''s'' @ ''m''). IS_URL_CHAR ch" by code_simp
    have "IS_URL_CHAR CHR ''q''" by code_simp
    then show "url_query ''?q''" by (simp add: url_query_def)
  qed simp_all
  show ?thesis
    by (rule http_request_routed[OF sample_request_ok(1) sample_request_ok(3)[unfolded url] sample_request_ok(2)
      sample_request_ok(4)[unfolded url] side])
qed

end
