(* ===== verification/Md5.thy ===== *)
theory Md5
  imports Smart_Prelude "HOL-Library.Word"
begin

text \<open>
  \<open>public/md5.cpp\<close>: the digest behind the tokens. The definitions follow the class with its
  buffer, its 64-bit count in two words and its unrolled rounds; the reference is RFC 1321.
\<close>

section \<open>MD5\<close>

unbundle bit_operations_syntax

type_synonym bit32 = "32 word"
type_synonym byte = "8 word"
type_synonym md5_words = "bit32 \<times> bit32 \<times> bit32 \<times> bit32"

subsection \<open>The macros\<close>

definition s11 :: nat where "s11 = 7"

definition s12 :: nat where "s12 = 12"

definition s13 :: nat where "s13 = 17"

definition s14 :: nat where "s14 = 22"

definition s21 :: nat where "s21 = 5"

definition s22 :: nat where "s22 = 9"

definition s23 :: nat where "s23 = 14"

definition s24 :: nat where "s24 = 20"

definition s31 :: nat where "s31 = 4"

definition s32 :: nat where "s32 = 11"

definition s33 :: nat where "s33 = 16"

definition s34 :: nat where "s34 = 23"

definition s41 :: nat where "s41 = 6"

definition s42 :: nat where "s42 = 10"

definition s43 :: nat where "s43 = 15"

definition s44 :: nat where "s44 = 21"

definition md5_F :: "bit32 \<Rightarrow> bit32 \<Rightarrow> bit32 \<Rightarrow> bit32" where
  "md5_F x y z = (x AND y) OR (NOT x AND z)"

definition md5_G :: "bit32 \<Rightarrow> bit32 \<Rightarrow> bit32 \<Rightarrow> bit32" where
  "md5_G x y z = (x AND z) OR (y AND NOT z)"

definition md5_H :: "bit32 \<Rightarrow> bit32 \<Rightarrow> bit32 \<Rightarrow> bit32" where
  "md5_H x y z = x XOR y XOR z"

definition md5_I :: "bit32 \<Rightarrow> bit32 \<Rightarrow> bit32 \<Rightarrow> bit32" where
  "md5_I x y z = y XOR (x OR NOT z)"

definition ROTATELEFT :: "bit32 \<Rightarrow> nat \<Rightarrow> bit32" where
  "ROTATELEFT num n = push_bit n num OR drop_bit (32 - n) num"

definition md5_FF :: "bit32 \<Rightarrow> bit32 \<Rightarrow> bit32 \<Rightarrow> bit32 \<Rightarrow> bit32 \<Rightarrow> nat \<Rightarrow> bit32 \<Rightarrow> bit32" where
  "md5_FF a b c d x s ac = ROTATELEFT (a + (md5_F b c d + x + ac)) s + b"

definition md5_GG :: "bit32 \<Rightarrow> bit32 \<Rightarrow> bit32 \<Rightarrow> bit32 \<Rightarrow> bit32 \<Rightarrow> nat \<Rightarrow> bit32 \<Rightarrow> bit32" where
  "md5_GG a b c d x s ac = ROTATELEFT (a + (md5_G b c d + x + ac)) s + b"

definition md5_HH :: "bit32 \<Rightarrow> bit32 \<Rightarrow> bit32 \<Rightarrow> bit32 \<Rightarrow> bit32 \<Rightarrow> nat \<Rightarrow> bit32 \<Rightarrow> bit32" where
  "md5_HH a b c d x s ac = ROTATELEFT (a + (md5_H b c d + x + ac)) s + b"

definition md5_II :: "bit32 \<Rightarrow> bit32 \<Rightarrow> bit32 \<Rightarrow> bit32 \<Rightarrow> bit32 \<Rightarrow> nat \<Rightarrow> bit32 \<Rightarrow> bit32" where
  "md5_II a b c d x s ac = ROTATELEFT (a + (md5_I b c d + x + ac)) s + b"

subsection \<open>One block\<close>

text \<open>\<open>encode\<close> and \<open>decode\<close>: words and their bytes, the low-order byte first.\<close>

fun md5_encode :: "bit32 list \<Rightarrow> byte list" where
  "md5_encode [] = []"
| "md5_encode (w # ws) =
     ucast (w AND 0xff) # ucast (drop_bit 8 w AND 0xff) # ucast (drop_bit 16 w AND 0xff) # ucast (drop_bit 24 w AND 0xff)
     # md5_encode ws"

fun md5_decode :: "byte list \<Rightarrow> bit32 list" where
  "md5_decode (b0 # b1 # b2 # b3 # bs) =
     (ucast b0 OR push_bit 8 (ucast b1) OR push_bit 16 (ucast b2) OR push_bit 24 (ucast b3)) # md5_decode bs"
| "md5_decode _ = []"

definition md5_round1 :: "bit32 list \<Rightarrow> md5_words \<Rightarrow> md5_words" where
  "md5_round1 x = (\<lambda>(a, b, c, d).
     (let a = md5_FF a b c d (x ! 0) s11 0xd76aa478;
          d = md5_FF d a b c (x ! 1) s12 0xe8c7b756;
          c = md5_FF c d a b (x ! 2) s13 0x242070db;
          b = md5_FF b c d a (x ! 3) s14 0xc1bdceee;
          a = md5_FF a b c d (x ! 4) s11 0xf57c0faf;
          d = md5_FF d a b c (x ! 5) s12 0x4787c62a;
          c = md5_FF c d a b (x ! 6) s13 0xa8304613;
          b = md5_FF b c d a (x ! 7) s14 0xfd469501;
          a = md5_FF a b c d (x ! 8) s11 0x698098d8;
          d = md5_FF d a b c (x ! 9) s12 0x8b44f7af;
          c = md5_FF c d a b (x ! 10) s13 0xffff5bb1;
          b = md5_FF b c d a (x ! 11) s14 0x895cd7be;
          a = md5_FF a b c d (x ! 12) s11 0x6b901122;
          d = md5_FF d a b c (x ! 13) s12 0xfd987193;
          c = md5_FF c d a b (x ! 14) s13 0xa679438e;
          b = md5_FF b c d a (x ! 15) s14 0x49b40821
      in (a, b, c, d)))"

definition md5_round2 :: "bit32 list \<Rightarrow> md5_words \<Rightarrow> md5_words" where
  "md5_round2 x = (\<lambda>(a, b, c, d).
     (let a = md5_GG a b c d (x ! 1) s21 0xf61e2562;
          d = md5_GG d a b c (x ! 6) s22 0xc040b340;
          c = md5_GG c d a b (x ! 11) s23 0x265e5a51;
          b = md5_GG b c d a (x ! 0) s24 0xe9b6c7aa;
          a = md5_GG a b c d (x ! 5) s21 0xd62f105d;
          d = md5_GG d a b c (x ! 10) s22 0x2441453;
          c = md5_GG c d a b (x ! 15) s23 0xd8a1e681;
          b = md5_GG b c d a (x ! 4) s24 0xe7d3fbc8;
          a = md5_GG a b c d (x ! 9) s21 0x21e1cde6;
          d = md5_GG d a b c (x ! 14) s22 0xc33707d6;
          c = md5_GG c d a b (x ! 3) s23 0xf4d50d87;
          b = md5_GG b c d a (x ! 8) s24 0x455a14ed;
          a = md5_GG a b c d (x ! 13) s21 0xa9e3e905;
          d = md5_GG d a b c (x ! 2) s22 0xfcefa3f8;
          c = md5_GG c d a b (x ! 7) s23 0x676f02d9;
          b = md5_GG b c d a (x ! 12) s24 0x8d2a4c8a
      in (a, b, c, d)))"

definition md5_round3 :: "bit32 list \<Rightarrow> md5_words \<Rightarrow> md5_words" where
  "md5_round3 x = (\<lambda>(a, b, c, d).
     (let a = md5_HH a b c d (x ! 5) s31 0xfffa3942;
          d = md5_HH d a b c (x ! 8) s32 0x8771f681;
          c = md5_HH c d a b (x ! 11) s33 0x6d9d6122;
          b = md5_HH b c d a (x ! 14) s34 0xfde5380c;
          a = md5_HH a b c d (x ! 1) s31 0xa4beea44;
          d = md5_HH d a b c (x ! 4) s32 0x4bdecfa9;
          c = md5_HH c d a b (x ! 7) s33 0xf6bb4b60;
          b = md5_HH b c d a (x ! 10) s34 0xbebfbc70;
          a = md5_HH a b c d (x ! 13) s31 0x289b7ec6;
          d = md5_HH d a b c (x ! 0) s32 0xeaa127fa;
          c = md5_HH c d a b (x ! 3) s33 0xd4ef3085;
          b = md5_HH b c d a (x ! 6) s34 0x4881d05;
          a = md5_HH a b c d (x ! 9) s31 0xd9d4d039;
          d = md5_HH d a b c (x ! 12) s32 0xe6db99e5;
          c = md5_HH c d a b (x ! 15) s33 0x1fa27cf8;
          b = md5_HH b c d a (x ! 2) s34 0xc4ac5665
      in (a, b, c, d)))"

definition md5_round4 :: "bit32 list \<Rightarrow> md5_words \<Rightarrow> md5_words" where
  "md5_round4 x = (\<lambda>(a, b, c, d).
     (let a = md5_II a b c d (x ! 0) s41 0xf4292244;
          d = md5_II d a b c (x ! 7) s42 0x432aff97;
          c = md5_II c d a b (x ! 14) s43 0xab9423a7;
          b = md5_II b c d a (x ! 5) s44 0xfc93a039;
          a = md5_II a b c d (x ! 12) s41 0x655b59c3;
          d = md5_II d a b c (x ! 3) s42 0x8f0ccc92;
          c = md5_II c d a b (x ! 10) s43 0xffeff47d;
          b = md5_II b c d a (x ! 1) s44 0x85845dd1;
          a = md5_II a b c d (x ! 8) s41 0x6fa87e4f;
          d = md5_II d a b c (x ! 15) s42 0xfe2ce6e0;
          c = md5_II c d a b (x ! 6) s43 0xa3014314;
          b = md5_II b c d a (x ! 13) s44 0x4e0811a1;
          a = md5_II a b c d (x ! 4) s41 0xf7537e82;
          d = md5_II d a b c (x ! 11) s42 0xbd3af235;
          c = md5_II c d a b (x ! 2) s43 0x2ad7d2bb;
          b = md5_II b c d a (x ! 9) s44 0xeb86d391
      in (a, b, c, d)))"

definition md5_transform :: "byte list \<Rightarrow> md5_words \<Rightarrow> md5_words" where
  "md5_transform block st =
     (let x = md5_decode block;
          (a, b, c, d) = md5_round4 x (md5_round3 x (md5_round2 x (md5_round1 x st)));
          (s0, s1, s2, s3) = st
      in (s0 + a, s1 + b, s2 + c, s3 + d))"

subsection \<open>The object\<close>

record md5 =
  md5_finished :: bool
  md5_state :: md5_words
  md5_count :: "bit32 \<times> bit32"
  md5_buffer :: "byte list"
  md5_digest :: "byte list"

definition md5_iv :: md5_words where
  "md5_iv = (0x67452301, 0xefcdab89, 0x98badcfe, 0x10325476)"

definition PADDING :: "byte list" where
  "PADDING = 0x80 # replicate 63 0"

text \<open>\<open>memcpy\<close> into the buffer of 64 bytes; \<^const>\<open>None\<close> when it would write behind its end.\<close>

definition md5_memcpy :: "nat \<Rightarrow> byte list \<Rightarrow> byte list \<Rightarrow> byte list option" where
  "md5_memcpy at xs buf =
     (if at + length xs \<le> length buf then Some (take at buf @ xs @ drop (at + length xs) buf) else None)"

text \<open>\<open>for (i = partLen; i + 63 < len; i += 64)\<close>, with \<open>i\<close> of 32 bits: the sum is cut to 32 bits before it is
  compared with the length, which has 64.\<close>

partial_function (option) md5_blocks_loop :: "byte list \<Rightarrow> bit32 \<Rightarrow> md5_words \<Rightarrow> (bit32 \<times> md5_words) option" where
  "md5_blocks_loop input i st =
     (if unat (i + 63) < length input
      then (if unat i + 64 \<le> length input
            then md5_blocks_loop input (i + 64) (md5_transform (take 64 (drop (unat i) input)) st) else None)
      else Some (i, st))"

definition md5_add_count :: "nat \<Rightarrow> bit32 \<times> bit32 \<Rightarrow> bit32 \<times> bit32" where
  "md5_add_count len count =
     (let low = fst count + push_bit 3 (of_nat len);
          high = (if low < push_bit 3 (of_nat len) then snd count + 1 else snd count)
      in (low, high + drop_bit 29 (of_nat len)))"

definition md5_index :: "bit32 \<times> bit32 \<Rightarrow> bit32" where
  "md5_index count = drop_bit 3 (fst count) AND 0x3f"

definition md5_init :: "byte list \<Rightarrow> md5 \<Rightarrow> md5 option" where
  "md5_init input m =
     (let index = md5_index (md5_count m);
          m1 = m\<lparr>md5_finished := False, md5_count := md5_add_count (length input) (md5_count m)\<rparr>;
          partLen = 64 - index
      in if unat partLen \<le> length input then do {
           buf \<leftarrow> md5_memcpy (unat index) (take (unat partLen) input) (md5_buffer m1);
           (i, st) \<leftarrow> md5_blocks_loop input partLen (md5_transform buf (md5_state m1));
           buf' \<leftarrow> md5_memcpy 0 (drop (unat i) input) buf;
           Some (m1\<lparr>md5_state := st, md5_buffer := buf'\<rparr>) }
         else do {
           buf \<leftarrow> md5_memcpy (unat index) input (md5_buffer m1);
           Some (m1\<lparr>md5_buffer := buf\<rparr>) })"

text \<open>The constructor; \<open>junk\<close> is what the uninitialised buffer and digest hold.\<close>

definition md5_new :: "byte list \<times> byte list \<Rightarrow> byte list \<Rightarrow> md5 option" where
  "md5_new junk message =
     md5_init message \<lparr>md5_finished = False, md5_state = md5_iv, md5_count = (0, 0), md5_buffer = fst junk, md5_digest = snd junk\<rparr>"

fun words4 :: "md5_words \<Rightarrow> bit32 list" where
  "words4 (a, b, c, d) = [a, b, c, d]"

definition md5_getDigest :: "md5 \<Rightarrow> (md5 \<times> byte list) option" where
  "md5_getDigest m =
     (if md5_finished m then Some (m, md5_digest m)
      else do {
        let bits = md5_encode [fst (md5_count m), snd (md5_count m)];
        let index = md5_index (md5_count m);
        let padLen = (if index < 56 then 56 - index else 120 - index);
        m1 \<leftarrow> md5_init (take (unat padLen) PADDING) (m\<lparr>md5_finished := True\<rparr>);
        m2 \<leftarrow> md5_init bits m1;
        let m3 = m2\<lparr>md5_digest := md5_encode (words4 (md5_state m2)), md5_state := md5_state m, md5_count := md5_count m\<rparr>;
        Some (m3, md5_digest m3) })"

definition HEX_NUMBERS :: string where
  "HEX_NUMBERS = ''0123456789abcdef''"

definition md5_hex :: "byte \<Rightarrow> string" where
  "md5_hex b = [HEX_NUMBERS ! (unat b div 16), HEX_NUMBERS ! (unat b mod 16)]"

definition md5_toStr :: "md5 \<Rightarrow> (md5 \<times> string) option" where
  "md5_toStr m = do {
     (m', digest) \<leftarrow> md5_getDigest m;
     Some (m', concat (map md5_hex digest)) }"

subsection \<open>RFC 1321\<close>

text \<open>The reference: the 64 operations as one step with a table, and the message padded as a whole.\<close>

definition rfc_K :: "bit32 list" where
  "rfc_K = [
     0xd76aa478, 0xe8c7b756, 0x242070db, 0xc1bdceee, 0xf57c0faf, 0x4787c62a, 0xa8304613, 0xfd469501,
     0x698098d8, 0x8b44f7af, 0xffff5bb1, 0x895cd7be, 0x6b901122, 0xfd987193, 0xa679438e, 0x49b40821,
     0xf61e2562, 0xc040b340, 0x265e5a51, 0xe9b6c7aa, 0xd62f105d, 0x2441453, 0xd8a1e681, 0xe7d3fbc8,
     0x21e1cde6, 0xc33707d6, 0xf4d50d87, 0x455a14ed, 0xa9e3e905, 0xfcefa3f8, 0x676f02d9, 0x8d2a4c8a,
     0xfffa3942, 0x8771f681, 0x6d9d6122, 0xfde5380c, 0xa4beea44, 0x4bdecfa9, 0xf6bb4b60, 0xbebfbc70,
     0x289b7ec6, 0xeaa127fa, 0xd4ef3085, 0x4881d05, 0xd9d4d039, 0xe6db99e5, 0x1fa27cf8, 0xc4ac5665,
     0xf4292244, 0x432aff97, 0xab9423a7, 0xfc93a039, 0x655b59c3, 0x8f0ccc92, 0xffeff47d, 0x85845dd1,
     0x6fa87e4f, 0xfe2ce6e0, 0xa3014314, 0x4e0811a1, 0xf7537e82, 0xbd3af235, 0x2ad7d2bb, 0xeb86d391]"

definition rfc_S :: "nat list" where
  "rfc_S = concat (replicate 4 [7, 12, 17, 22]) @ concat (replicate 4 [5, 9, 14, 20])
     @ concat (replicate 4 [4, 11, 16, 23]) @ concat (replicate 4 [6, 10, 15, 21])"

definition rfc_mix :: "nat \<Rightarrow> bit32 \<Rightarrow> bit32 \<Rightarrow> bit32 \<Rightarrow> bit32 \<times> nat" where
  "rfc_mix i b c d =
     (if i < 16 then ((b AND c) OR (NOT b AND d), i)
      else if i < 32 then ((d AND b) OR (NOT d AND c), (5 * i + 1) mod 16)
      else if i < 48 then (b XOR c XOR d, (3 * i + 5) mod 16)
      else (c XOR (b OR NOT d), (7 * i) mod 16))"

definition rfc_step :: "bit32 list \<Rightarrow> nat \<Rightarrow> md5_words \<Rightarrow> md5_words" where
  "rfc_step x i = (\<lambda>(a, b, c, d).
     (let (f, g) = rfc_mix i b c d
      in (d, b + word_rotl (rfc_S ! i) (a + f + rfc_K ! i + x ! g), b, c)))"

definition rfc_block :: "byte list \<Rightarrow> md5_words \<Rightarrow> md5_words" where
  "rfc_block block st =
     (let (a, b, c, d) = fold (rfc_step (md5_decode block)) [0..<64] st; (s0, s1, s2, s3) = st
      in (s0 + a, s1 + b, s2 + c, s3 + d))"

fun rfc_blocks :: "byte list \<Rightarrow> md5_words \<Rightarrow> md5_words" where
  "rfc_blocks m st = (if length m < 64 then st else rfc_blocks (drop 64 m) (rfc_block (take 64 m) st))"

definition rfc_pad :: "byte list \<Rightarrow> byte list" where
  "rfc_pad m = m @ [0x80] @ replicate ((119 - length m mod 64) mod 64) 0
     @ map (\<lambda>k. of_nat (8 * length m div 256 ^ k)) [0..<8]"

definition rfc_md5 :: "byte list \<Rightarrow> byte list" where
  "rfc_md5 m = md5_encode (words4 (rfc_blocks (rfc_pad m) md5_iv))"


subsection \<open>One block is one block of RFC 1321\<close>

lemma rotate_left: "0 < n \<Longrightarrow> n < 32 \<Longrightarrow> word_rotl n w = ROTATELEFT w n"
proof (rule bit_word_eqI)
  fix k assume n: "0 < n" "n < 32" and k: "k < LENGTH(32)"
  have "(k + (32 - n)) mod 32 = (if k < n then k + (32 - n) else k - n)"
    using n k by (cases "k < n") (auto simp: mod_if)
  then show "bit (word_rotl n w) k = bit (ROTATELEFT w n) k"
    using n k by (auto simp: bit_word_rotl_iff ROTATELEFT_def bit_or_iff bit_push_bit_iff bit_drop_bit_eq dest: bit_imp_le_length)
      (metis add.commute)+
qed

text \<open>Four operations in a row are four steps.\<close>

definition quad :: "bit32 list \<Rightarrow> nat \<Rightarrow> md5_words \<Rightarrow> md5_words" where
  "quad x i = rfc_step x (i + 3) \<circ> rfc_step x (i + 2) \<circ> rfc_step x (i + 1) \<circ> rfc_step x i"

lemma fold_quads: "fold (rfc_step x) (concat (map (\<lambda>i. [i, i + 1, i + 2, i + 3]) is)) st = fold (quad x) is st"
  by (induction "is" arbitrary: st) (simp_all add: quad_def)

lemma steps_quads:
  "fold (rfc_step x) [0..<64] st =
     fold (quad x) [48, 52, 56, 60] (fold (quad x) [32, 36, 40, 44] (fold (quad x) [16, 20, 24, 28] (fold (quad x) [0, 4, 8, 12] st)))"
proof -
  have "[0..<64] = concat (map (\<lambda>i. [i, i + 1, i + 2, i + 3])
      ([0, 4, 8, 12] @ [16, 20, 24, 28] @ [32, 36, 40, 44] @ [48, 52, 56, 60]))" by code_simp
  then show ?thesis by (simp only: fold_quads fold_append comp_apply)
qed

lemma rfc_step_ops:
  "i < 16 \<Longrightarrow> rfc_step x i (a, b, c, d) = (d, md5_FF a b c d (x ! i) (rfc_S ! i) (rfc_K ! i), b, c)"
  "16 \<le> i \<Longrightarrow> i < 32 \<Longrightarrow> rfc_step x i (a, b, c, d) = (d, md5_GG a b c d (x ! ((5 * i + 1) mod 16)) (rfc_S ! i) (rfc_K ! i), b, c)"
  "32 \<le> i \<Longrightarrow> i < 48 \<Longrightarrow> rfc_step x i (a, b, c, d) = (d, md5_HH a b c d (x ! ((3 * i + 5) mod 16)) (rfc_S ! i) (rfc_K ! i), b, c)"
  "48 \<le> i \<Longrightarrow> i < 64 \<Longrightarrow> rfc_step x i (a, b, c, d) = (d, md5_II a b c d (x ! (7 * i mod 16)) (rfc_S ! i) (rfc_K ! i), b, c)"
proof -
  have s: "0 < rfc_S ! i \<and> rfc_S ! i < 32" if "i < 64"
  proof -
    have "\<forall>s \<in> set rfc_S. 0 < s \<and> s < 32" by (simp add: rfc_S_def)
    moreover have "length rfc_S = 64" by (simp add: rfc_S_def numeral_eq_Suc)
    ultimately show ?thesis using that by simp
  qed
  show "i < 16 \<Longrightarrow> rfc_step x i (a, b, c, d) = (d, md5_FF a b c d (x ! i) (rfc_S ! i) (rfc_K ! i), b, c)"
    using s by (simp add: rfc_step_def rfc_mix_def rotate_left md5_FF_def md5_F_def ac_simps)
  show "16 \<le> i \<Longrightarrow> i < 32 \<Longrightarrow> rfc_step x i (a, b, c, d) = (d, md5_GG a b c d (x ! ((5 * i + 1) mod 16)) (rfc_S ! i) (rfc_K ! i), b, c)"
    using s by (simp add: rfc_step_def rfc_mix_def rotate_left md5_GG_def md5_G_def ac_simps)
  show "32 \<le> i \<Longrightarrow> i < 48 \<Longrightarrow> rfc_step x i (a, b, c, d) = (d, md5_HH a b c d (x ! ((3 * i + 5) mod 16)) (rfc_S ! i) (rfc_K ! i), b, c)"
    using s by (simp add: rfc_step_def rfc_mix_def rotate_left md5_HH_def md5_H_def ac_simps)
  show "48 \<le> i \<Longrightarrow> i < 64 \<Longrightarrow> rfc_step x i (a, b, c, d) = (d, md5_II a b c d (x ! (7 * i mod 16)) (rfc_S ! i) (rfc_K ! i), b, c)"
    using s by (simp add: rfc_step_def rfc_mix_def rotate_left md5_II_def md5_I_def ac_simps)
qed

lemma rfc_K_values:
  "rfc_K ! 0 = 0xd76aa478" "rfc_K ! 1 = 0xe8c7b756" "rfc_K ! 2 = 0x242070db" "rfc_K ! 3 = 0xc1bdceee"
  "rfc_K ! 4 = 0xf57c0faf" "rfc_K ! 5 = 0x4787c62a" "rfc_K ! 6 = 0xa8304613" "rfc_K ! 7 = 0xfd469501"
  "rfc_K ! 8 = 0x698098d8" "rfc_K ! 9 = 0x8b44f7af" "rfc_K ! 10 = 0xffff5bb1" "rfc_K ! 11 = 0x895cd7be"
  "rfc_K ! 12 = 0x6b901122" "rfc_K ! 13 = 0xfd987193" "rfc_K ! 14 = 0xa679438e" "rfc_K ! 15 = 0x49b40821"
  "rfc_K ! 16 = 0xf61e2562" "rfc_K ! 17 = 0xc040b340" "rfc_K ! 18 = 0x265e5a51" "rfc_K ! 19 = 0xe9b6c7aa"
  "rfc_K ! 20 = 0xd62f105d" "rfc_K ! 21 = 0x2441453" "rfc_K ! 22 = 0xd8a1e681" "rfc_K ! 23 = 0xe7d3fbc8"
  "rfc_K ! 24 = 0x21e1cde6" "rfc_K ! 25 = 0xc33707d6" "rfc_K ! 26 = 0xf4d50d87" "rfc_K ! 27 = 0x455a14ed"
  "rfc_K ! 28 = 0xa9e3e905" "rfc_K ! 29 = 0xfcefa3f8" "rfc_K ! 30 = 0x676f02d9" "rfc_K ! 31 = 0x8d2a4c8a"
  "rfc_K ! 32 = 0xfffa3942" "rfc_K ! 33 = 0x8771f681" "rfc_K ! 34 = 0x6d9d6122" "rfc_K ! 35 = 0xfde5380c"
  "rfc_K ! 36 = 0xa4beea44" "rfc_K ! 37 = 0x4bdecfa9" "rfc_K ! 38 = 0xf6bb4b60" "rfc_K ! 39 = 0xbebfbc70"
  "rfc_K ! 40 = 0x289b7ec6" "rfc_K ! 41 = 0xeaa127fa" "rfc_K ! 42 = 0xd4ef3085" "rfc_K ! 43 = 0x4881d05"
  "rfc_K ! 44 = 0xd9d4d039" "rfc_K ! 45 = 0xe6db99e5" "rfc_K ! 46 = 0x1fa27cf8" "rfc_K ! 47 = 0xc4ac5665"
  "rfc_K ! 48 = 0xf4292244" "rfc_K ! 49 = 0x432aff97" "rfc_K ! 50 = 0xab9423a7" "rfc_K ! 51 = 0xfc93a039"
  "rfc_K ! 52 = 0x655b59c3" "rfc_K ! 53 = 0x8f0ccc92" "rfc_K ! 54 = 0xffeff47d" "rfc_K ! 55 = 0x85845dd1"
  "rfc_K ! 56 = 0x6fa87e4f" "rfc_K ! 57 = 0xfe2ce6e0" "rfc_K ! 58 = 0xa3014314" "rfc_K ! 59 = 0x4e0811a1"
  "rfc_K ! 60 = 0xf7537e82" "rfc_K ! 61 = 0xbd3af235" "rfc_K ! 62 = 0x2ad7d2bb" "rfc_K ! 63 = 0xeb86d391"
  by (simp_all add: rfc_K_def)

lemma rfc_S_values:
  "rfc_S ! 0 = s11" "rfc_S ! 1 = s12" "rfc_S ! 2 = s13" "rfc_S ! 3 = s14"
  "rfc_S ! 4 = s11" "rfc_S ! 5 = s12" "rfc_S ! 6 = s13" "rfc_S ! 7 = s14"
  "rfc_S ! 8 = s11" "rfc_S ! 9 = s12" "rfc_S ! 10 = s13" "rfc_S ! 11 = s14"
  "rfc_S ! 12 = s11" "rfc_S ! 13 = s12" "rfc_S ! 14 = s13" "rfc_S ! 15 = s14"
  "rfc_S ! 16 = s21" "rfc_S ! 17 = s22" "rfc_S ! 18 = s23" "rfc_S ! 19 = s24"
  "rfc_S ! 20 = s21" "rfc_S ! 21 = s22" "rfc_S ! 22 = s23" "rfc_S ! 23 = s24"
  "rfc_S ! 24 = s21" "rfc_S ! 25 = s22" "rfc_S ! 26 = s23" "rfc_S ! 27 = s24"
  "rfc_S ! 28 = s21" "rfc_S ! 29 = s22" "rfc_S ! 30 = s23" "rfc_S ! 31 = s24"
  "rfc_S ! 32 = s31" "rfc_S ! 33 = s32" "rfc_S ! 34 = s33" "rfc_S ! 35 = s34"
  "rfc_S ! 36 = s31" "rfc_S ! 37 = s32" "rfc_S ! 38 = s33" "rfc_S ! 39 = s34"
  "rfc_S ! 40 = s31" "rfc_S ! 41 = s32" "rfc_S ! 42 = s33" "rfc_S ! 43 = s34"
  "rfc_S ! 44 = s31" "rfc_S ! 45 = s32" "rfc_S ! 46 = s33" "rfc_S ! 47 = s34"
  "rfc_S ! 48 = s41" "rfc_S ! 49 = s42" "rfc_S ! 50 = s43" "rfc_S ! 51 = s44"
  "rfc_S ! 52 = s41" "rfc_S ! 53 = s42" "rfc_S ! 54 = s43" "rfc_S ! 55 = s44"
  "rfc_S ! 56 = s41" "rfc_S ! 57 = s42" "rfc_S ! 58 = s43" "rfc_S ! 59 = s44"
  "rfc_S ! 60 = s41" "rfc_S ! 61 = s42" "rfc_S ! 62 = s43" "rfc_S ! 63 = s44"
  by (simp_all add: rfc_S_def numeral_eq_Suc s11_def s12_def s13_def s14_def s21_def s22_def s23_def s24_def
    s31_def s32_def s33_def s34_def s41_def s42_def s43_def s44_def)

lemma quad_round1:
  "quad x 0 (a, b, c, d) =
     (let a = md5_FF a b c d (x ! 0) s11 0xd76aa478;
          d = md5_FF d a b c (x ! 1) s12 0xe8c7b756;
          c = md5_FF c d a b (x ! 2) s13 0x242070db;
          b = md5_FF b c d a (x ! 3) s14 0xc1bdceee
      in (a, b, c, d))"
  "quad x 4 (a, b, c, d) =
     (let a = md5_FF a b c d (x ! 4) s11 0xf57c0faf;
          d = md5_FF d a b c (x ! 5) s12 0x4787c62a;
          c = md5_FF c d a b (x ! 6) s13 0xa8304613;
          b = md5_FF b c d a (x ! 7) s14 0xfd469501
      in (a, b, c, d))"
  "quad x 8 (a, b, c, d) =
     (let a = md5_FF a b c d (x ! 8) s11 0x698098d8;
          d = md5_FF d a b c (x ! 9) s12 0x8b44f7af;
          c = md5_FF c d a b (x ! 10) s13 0xffff5bb1;
          b = md5_FF b c d a (x ! 11) s14 0x895cd7be
      in (a, b, c, d))"
  "quad x 12 (a, b, c, d) =
     (let a = md5_FF a b c d (x ! 12) s11 0x6b901122;
          d = md5_FF d a b c (x ! 13) s12 0xfd987193;
          c = md5_FF c d a b (x ! 14) s13 0xa679438e;
          b = md5_FF b c d a (x ! 15) s14 0x49b40821
      in (a, b, c, d))"
  by (simp_all add: quad_def rfc_step_ops rfc_K_values rfc_S_values Let_def del: One_nat_def add_2_eq_Suc add_2_eq_Suc')

lemma quad_round2:
  "quad x 16 (a, b, c, d) =
     (let a = md5_GG a b c d (x ! 1) s21 0xf61e2562;
          d = md5_GG d a b c (x ! 6) s22 0xc040b340;
          c = md5_GG c d a b (x ! 11) s23 0x265e5a51;
          b = md5_GG b c d a (x ! 0) s24 0xe9b6c7aa
      in (a, b, c, d))"
  "quad x 20 (a, b, c, d) =
     (let a = md5_GG a b c d (x ! 5) s21 0xd62f105d;
          d = md5_GG d a b c (x ! 10) s22 0x2441453;
          c = md5_GG c d a b (x ! 15) s23 0xd8a1e681;
          b = md5_GG b c d a (x ! 4) s24 0xe7d3fbc8
      in (a, b, c, d))"
  "quad x 24 (a, b, c, d) =
     (let a = md5_GG a b c d (x ! 9) s21 0x21e1cde6;
          d = md5_GG d a b c (x ! 14) s22 0xc33707d6;
          c = md5_GG c d a b (x ! 3) s23 0xf4d50d87;
          b = md5_GG b c d a (x ! 8) s24 0x455a14ed
      in (a, b, c, d))"
  "quad x 28 (a, b, c, d) =
     (let a = md5_GG a b c d (x ! 13) s21 0xa9e3e905;
          d = md5_GG d a b c (x ! 2) s22 0xfcefa3f8;
          c = md5_GG c d a b (x ! 7) s23 0x676f02d9;
          b = md5_GG b c d a (x ! 12) s24 0x8d2a4c8a
      in (a, b, c, d))"
  by (simp_all add: quad_def rfc_step_ops rfc_K_values rfc_S_values Let_def del: One_nat_def add_2_eq_Suc add_2_eq_Suc')

lemma quad_round3:
  "quad x 32 (a, b, c, d) =
     (let a = md5_HH a b c d (x ! 5) s31 0xfffa3942;
          d = md5_HH d a b c (x ! 8) s32 0x8771f681;
          c = md5_HH c d a b (x ! 11) s33 0x6d9d6122;
          b = md5_HH b c d a (x ! 14) s34 0xfde5380c
      in (a, b, c, d))"
  "quad x 36 (a, b, c, d) =
     (let a = md5_HH a b c d (x ! 1) s31 0xa4beea44;
          d = md5_HH d a b c (x ! 4) s32 0x4bdecfa9;
          c = md5_HH c d a b (x ! 7) s33 0xf6bb4b60;
          b = md5_HH b c d a (x ! 10) s34 0xbebfbc70
      in (a, b, c, d))"
  "quad x 40 (a, b, c, d) =
     (let a = md5_HH a b c d (x ! 13) s31 0x289b7ec6;
          d = md5_HH d a b c (x ! 0) s32 0xeaa127fa;
          c = md5_HH c d a b (x ! 3) s33 0xd4ef3085;
          b = md5_HH b c d a (x ! 6) s34 0x4881d05
      in (a, b, c, d))"
  "quad x 44 (a, b, c, d) =
     (let a = md5_HH a b c d (x ! 9) s31 0xd9d4d039;
          d = md5_HH d a b c (x ! 12) s32 0xe6db99e5;
          c = md5_HH c d a b (x ! 15) s33 0x1fa27cf8;
          b = md5_HH b c d a (x ! 2) s34 0xc4ac5665
      in (a, b, c, d))"
  by (simp_all add: quad_def rfc_step_ops rfc_K_values rfc_S_values Let_def del: One_nat_def add_2_eq_Suc add_2_eq_Suc')

lemma quad_round4:
  "quad x 48 (a, b, c, d) =
     (let a = md5_II a b c d (x ! 0) s41 0xf4292244;
          d = md5_II d a b c (x ! 7) s42 0x432aff97;
          c = md5_II c d a b (x ! 14) s43 0xab9423a7;
          b = md5_II b c d a (x ! 5) s44 0xfc93a039
      in (a, b, c, d))"
  "quad x 52 (a, b, c, d) =
     (let a = md5_II a b c d (x ! 12) s41 0x655b59c3;
          d = md5_II d a b c (x ! 3) s42 0x8f0ccc92;
          c = md5_II c d a b (x ! 10) s43 0xffeff47d;
          b = md5_II b c d a (x ! 1) s44 0x85845dd1
      in (a, b, c, d))"
  "quad x 56 (a, b, c, d) =
     (let a = md5_II a b c d (x ! 8) s41 0x6fa87e4f;
          d = md5_II d a b c (x ! 15) s42 0xfe2ce6e0;
          c = md5_II c d a b (x ! 6) s43 0xa3014314;
          b = md5_II b c d a (x ! 13) s44 0x4e0811a1
      in (a, b, c, d))"
  "quad x 60 (a, b, c, d) =
     (let a = md5_II a b c d (x ! 4) s41 0xf7537e82;
          d = md5_II d a b c (x ! 11) s42 0xbd3af235;
          c = md5_II c d a b (x ! 2) s43 0x2ad7d2bb;
          b = md5_II b c d a (x ! 9) s44 0xeb86d391
      in (a, b, c, d))"
  by (simp_all add: quad_def rfc_step_ops rfc_K_values rfc_S_values Let_def del: One_nat_def add_2_eq_Suc add_2_eq_Suc')

lemma quad_Let: "quad x i (Let s f) = (let v = s in quad x i (f v))"
  by (simp add: Let_def)

lemma rounds_quads:
  "fold (quad x) [0, 4, 8, 12] (a, b, c, d) = md5_round1 x (a, b, c, d)"
  "fold (quad x) [16, 20, 24, 28] (a, b, c, d) = md5_round2 x (a, b, c, d)"
  "fold (quad x) [32, 36, 40, 44] (a, b, c, d) = md5_round3 x (a, b, c, d)"
  "fold (quad x) [48, 52, 56, 60] (a, b, c, d) = md5_round4 x (a, b, c, d)"
  by (simp_all only: fold_simps id_apply comp_apply quad_round1 quad_round2 quad_round3 quad_round4 quad_Let
    md5_round1_def md5_round2_def md5_round3_def md5_round4_def prod.case)

lemma transform_rfc: "md5_transform block st = rfc_block block st"
proof -
  have r: "fold (quad x) [0, 4, 8, 12] t = md5_round1 x t" "fold (quad x) [16, 20, 24, 28] t = md5_round2 x t"
    "fold (quad x) [32, 36, 40, 44] t = md5_round3 x t" "fold (quad x) [48, 52, 56, 60] t = md5_round4 x t" for x t
    by (cases t; simp only: rounds_quads)+
  show ?thesis unfolding md5_transform_def rfc_block_def steps_quads r Let_def by (rule refl)
qed


declare rfc_blocks.simps [simp del]

subsection \<open>The bytes taken so far\<close>

text \<open>What the object is after the bytes \<open>m\<close>: the blocks of \<open>m\<close> are in the state, the rest in the buffer.\<close>

definition md5_abs :: "md5 \<Rightarrow> byte list \<Rightarrow> bool" where
  "md5_abs md m \<longleftrightarrow> length (md5_buffer md) = 64
     \<and> md5_count md = (of_nat (8 * length m), of_nat (8 * length m div 4294967296))
     \<and> md5_state md = rfc_blocks m md5_iv
     \<and> take (length m mod 64) (md5_buffer md) = drop (64 * (length m div 64)) m"

lemma blocks_append: "64 dvd length a \<Longrightarrow> rfc_blocks (a @ b) st = rfc_blocks b (rfc_blocks a st)"
proof (induction a st arbitrary: b rule: rfc_blocks.induct)
  case (1 m st)
  show ?case
  proof (cases "length m < 64")
    case True
    then have "m = []" using 1(2) by (cases m) (auto dest: dvd_imp_le)
    then show ?thesis by (simp add: rfc_blocks.simps[of "[]"])
  next
    case False
    have "64 dvd length (drop 64 m)" using 1(2) False by (simp add: dvd_diff_nat)
    from 1(1)[OF False this] show ?thesis
      using False by (subst rfc_blocks.simps) (subst (3) rfc_blocks.simps, simp)
  qed
qed

lemma blocks_short: "length m < 64 \<Longrightarrow> rfc_blocks m st = st"
  by (subst rfc_blocks.simps) simp

lemma blocks_one: "length m = 64 \<Longrightarrow> rfc_blocks m st = rfc_block m st"
  by (subst rfc_blocks.simps) (simp add: blocks_short)

lemma blocks_whole: "rfc_blocks m st = rfc_blocks (take (64 * (length m div 64)) m) st"
proof -
  let ?k = "64 * (length m div 64)"
  have k: "?k \<le> length m" by simp
  have "rfc_blocks m st = rfc_blocks (take ?k m @ drop ?k m) st" by simp
  also have "\<dots> = rfc_blocks (drop ?k m) (rfc_blocks (take ?k m) st)"
    by (rule blocks_append) (use k in \<open>simp add: min_absorb2\<close>)
  also have "\<dots> = rfc_blocks (take ?k m) st"
  proof (rule blocks_short)
    have "length (drop ?k m) = length m mod 64" by (simp add: minus_mult_div_eq_mod)
    also have "\<dots> < 64" by simp
    finally show "length (drop ?k m) < 64" .
  qed
  finally show ?thesis .
qed

lemma index_mod: "unat (md5_index (of_nat (8 * n), h)) = n mod 64"
proof -
  have "(0x3f :: bit32) = mask 6" by (simp add: mask_eq_exp_minus_1)
  then have "unat (md5_index (of_nat (8 * n), h)) = take_bit 6 (drop_bit 3 (take_bit 32 (8 * n)))"
    by (simp only: md5_index_def fst_conv take_bit_eq_mask[symmetric] unsigned_take_bit_eq unat_drop_bit_eq unsigned_of_nat) simp
  also have "\<dots> = 8 * n mod (8 * 536870912) div 8 mod 64"
    by (simp only: take_bit_eq_mod drop_bit_eq_div) simp
  also have "\<dots> = n mod 536870912 mod 64" by (simp only: mod_mult_mult1) simp
  also have "\<dots> = n mod 64" by (rule mod_mod_cancel) simp
  finally show ?thesis .
qed

lemma add_carry:
  fixes A B M :: nat
  assumes "0 < M"
  shows "(A + B) mod M < B mod M \<longleftrightarrow> M \<le> A mod M + B mod M"
    "(A + B) div M = A div M + B div M + (if M \<le> A mod M + B mod M then 1 else 0)"
proof -
  have a: "A mod M < M" "B mod M < M" using assms by simp_all
  have s: "(A + B) mod M = (A mod M + B mod M) mod M" by (simp add: mod_add_eq)
  show "(A + B) mod M < B mod M \<longleftrightarrow> M \<le> A mod M + B mod M"
  proof (cases "M \<le> A mod M + B mod M")
    case True
    have "A mod M + B mod M - M < M" using a by linarith
    then have "(A + B) mod M = A mod M + B mod M - M" unfolding s using True by (simp add: le_mod_geq)
    then show ?thesis using True a by linarith
  next
    case False
    then have "(A + B) mod M = A mod M + B mod M" unfolding s by simp
    then show ?thesis using False by linarith
  qed
  have "(A + B) div M = A div M + B div M + (A mod M + B mod M) div M" by (rule div_add1_eq)
  moreover have "(A mod M + B mod M) div M = (if M \<le> A mod M + B mod M then 1 else 0)"
  proof (cases "M \<le> A mod M + B mod M")
    case True
    have "A mod M + B mod M - M < M" using a by linarith
    then show ?thesis using True assms by (simp add: le_div_geq)
  qed simp
  ultimately show "(A + B) div M = A div M + B div M + (if M \<le> A mod M + B mod M then 1 else 0)" by simp
qed

lemma count_add:
  assumes "len < 4294967296"
  shows "md5_add_count len (of_nat (8 * n), of_nat (8 * n div 4294967296))
    = (of_nat (8 * (n + len)), of_nat (8 * (n + len) div 4294967296))"
proof -
  let ?M = "4294967296 :: nat" and ?A = "8 * n" and ?B = "8 * len"
  have u: "unat (of_nat x :: bit32) = x mod ?M" for x by (simp add: unat_of_nat)
  have sh: "push_bit 3 (of_nat len) = (of_nat ?B :: bit32)" by (simp add: push_bit_eq_mult)
  have dr: "drop_bit 29 (of_nat len) = (of_nat (?B div ?M) :: bit32)"
  proof -
    have "unat (drop_bit 29 (of_nat len :: bit32)) = ?B div ?M"
      using assms by (simp only: unat_drop_bit_eq u) (simp add: drop_bit_eq_div)
    moreover have "?B div ?M < 8" using assms by (intro less_mult_imp_div_less) simp
    then have "?B div ?M mod ?M = ?B div ?M" by (intro mod_less) simp
    ultimately show ?thesis unfolding word_unat_eq_iff u by (simp only:)
  qed
  have low: "(of_nat ?A + of_nat ?B :: bit32) = of_nat (?A + ?B)" by simp
  have carry: "((of_nat (?A + ?B) :: bit32) < of_nat ?B) = (?M \<le> ?A mod ?M + ?B mod ?M)"
    unfolding word_less_nat_alt u by (rule add_carry(1)) simp
  have div: "(?A + ?B) div ?M = ?A div ?M + ?B div ?M + (if ?M \<le> ?A mod ?M + ?B mod ?M then 1 else 0)"
    by (rule add_carry(2)) simp
  have e: "8 * (n + len) = ?A + ?B" by simp
  show ?thesis
    unfolding md5_add_count_def Let_def fst_conv snd_conv sh dr low carry
    unfolding e div by (cases "?M \<le> ?A mod ?M + ?B mod ?M") (simp_all only: if_True if_False of_nat_add of_nat_1 of_nat_0 add_0_left add_0_right ac_simps)
qed


text \<open>The blocks that lie whole in the input.\<close>

lemma blocks_loop:
  assumes "length input < 4294967232" "k \<le> length input"
  shows "md5_blocks_loop input (of_nat k) st =
    Some (of_nat (k + 64 * ((length input - k) div 64)), rfc_blocks (drop k input) st)"
  using assms(2)
proof (induction "length input - k" arbitrary: k st rule: less_induct)
  case less
  have u: "unat (of_nat k :: bit32) = k" "unat (of_nat k + 63 :: bit32) = k + 63"
  proof -
    show "unat (of_nat k :: bit32) = k" using less(2) assms(1) by (simp only: unat_of_nat) simp
    have "(of_nat k + 63 :: bit32) = of_nat (k + 63)" by simp
    then show "unat (of_nat k + 63 :: bit32) = k + 63" using less(2) assms(1) by (simp only: unat_of_nat) simp
  qed
  show ?case
  proof (cases "k + 63 < length input")
    case True
    have e: "(of_nat k + 64 :: bit32) = of_nat (k + 64)" by simp
    have d: "(length input - k) div 64 = Suc ((length input - (k + 64)) div 64)"
    proof -
      have "length input - k = 64 + (length input - (k + 64))" using True by simp
      then show ?thesis by (metis div_add_self1 Suc_eq_plus1 add.commute zero_neq_numeral)
    qed
    have "rfc_blocks (drop k input) st = rfc_blocks (drop (k + 64) input) (md5_transform (take 64 (drop k input)) st)"
    proof -
      have "\<not> length (drop k input) < 64" using True by simp
      then show ?thesis by (subst rfc_blocks.simps) (simp only: if_False transform_rfc drop_drop add.commute)
    qed
    then show ?thesis
      using True less(1)[of "k + 64"] by (subst md5_blocks_loop.simps) (simp only: u e d, simp)
  next
    case False
    have "(length input - k) div 64 = 0" using False by simp
    moreover have "rfc_blocks (drop k input) st = st" by (rule blocks_short) (use False in simp)
    ultimately show ?thesis using False by (subst md5_blocks_loop.simps) (simp only: u, simp)
  qed
qed

lemma md5_init_keeps:
  "md5_init xs md = Some md' \<Longrightarrow> md5_digest md' = md5_digest md \<and> \<not> md5_finished md'"
  by (auto simp: md5_init_def Let_def split: if_splits bind_splits)

lemma md5_init_abs:
  assumes "md5_abs md m" "length xs < 4294967232"
  shows "\<exists>md'. md5_init xs md = Some md' \<and> md5_abs md' (m @ xs)"
proof -
  let ?r = "length m mod 64" and ?buf = "md5_buffer md"
  define part where "part = 64 - ?r"
  have rp: "?r + part = 64" "0 < part" by (simp_all add: part_def less_imp_le)
  have abs: "length ?buf = 64" "md5_count md = (of_nat (8 * length m), of_nat (8 * length m div 4294967296))"
    "md5_state md = rfc_blocks m md5_iv" "take ?r ?buf = drop (64 * (length m div 64)) m"
    using assms(1) by (simp_all only: md5_abs_def)
  have idx: "unat (md5_index (md5_count md)) = ?r" unfolding abs(2) by (rule index_mod)
  have count: "md5_add_count (length xs) (md5_count md) =
      (of_nat (8 * length (m @ xs)), of_nat (8 * length (m @ xs) div 4294967296))"
    unfolding abs(2) using assms(2) by (subst count_add) simp_all
  have part_word: "unat (64 - md5_index (md5_count md)) = part"
  proof -
    have "md5_index (md5_count md) \<le> 64" unfolding word_le_nat_alt idx using rp by simp
    then have "unat (64 - md5_index (md5_count md)) = unat (64 :: bit32) - unat (md5_index (md5_count md))" by (rule unat_sub)
    then show ?thesis unfolding idx part_def by simp
  qed
  have part_of: "64 - md5_index (md5_count md) = of_nat part"
    unfolding word_unat_eq_iff part_word using rp by (simp only: unat_of_nat) simp
  have pw: "unat (of_nat part :: bit32) = part" using part_word unfolding part_of .
  have split: "m = take (64 * (length m div 64)) m @ take ?r ?buf" unfolding abs(4) by simp
  have whole: "64 dvd length (take (64 * (length m div 64)) m)" by (simp add: min_absorb2)
  show ?thesis
  proof (cases "part \<le> length xs")
    case True
    define buf where "buf = take ?r ?buf @ take part xs"
    have lb: "length buf = 64" using abs(1) True rp by (simp add: buf_def min_absorb2)
    have cpy: "md5_memcpy ?r (take part xs) ?buf = Some buf"
      using abs(1) True rp by (simp add: md5_memcpy_def buf_def min_absorb2)
    define i where "i = part + 64 * ((length xs - part) div 64)"
    have i: "i \<le> length xs" "length xs - i = (length xs - part) mod 64"
    proof -
      have "64 * ((length xs - part) div 64) + (length xs - part) mod 64 = length xs - part" by simp
      then show "i \<le> length xs" "length xs - i = (length xs - part) mod 64" using True unfolding i_def by linarith+
    qed
    have small: "length xs - i < 64" unfolding i(2) by simp
    have iw: "unat (of_nat i :: bit32) = i" using i(1) assms(2) by (simp only: unat_of_nat) simp
    define st where "st = rfc_blocks (drop part xs) (md5_transform buf (md5_state md))"
    have loop: "md5_blocks_loop xs (of_nat part) (md5_transform buf (md5_state md)) = Some (of_nat i, st)"
      unfolding i_def st_def by (rule blocks_loop[OF assms(2) True])
    define buf' where "buf' = drop i xs @ drop (length xs - i) buf"
    have cpy': "md5_memcpy 0 (drop i xs) buf = Some buf'"
      using small lb by (simp add: md5_memcpy_def buf'_def)
    define md' where "md' = md\<lparr>md5_finished := False, md5_count := md5_add_count (length xs) (md5_count md), md5_state := st, md5_buffer := buf'\<rparr>"
    have run: "md5_init xs md = Some md'"
      unfolding md5_init_def Let_def md5.simps idx part_of pw if_P[OF True] cpy bind.bind_lunit
      by (simp add: cpy loop cpy' iw md'_def)
    have blk: "m @ take part xs = take (64 * (length m div 64)) m @ buf" unfolding buf_def by (subst split) simp
    have "64 dvd length (m @ take part xs)" unfolding blk using whole lb by simp
    then have "rfc_blocks (m @ xs) md5_iv = rfc_blocks (drop part xs) (rfc_blocks (m @ take part xs) md5_iv)"
      using blocks_append[of "m @ take part xs" "drop part xs"] by simp
    also have "rfc_blocks (m @ take part xs) md5_iv = md5_transform buf (md5_state md)"
      unfolding blk blocks_append[OF whole] blocks_one[OF lb] abs(3) transform_rfc by (subst (2) blocks_whole) (rule refl)
    finally have st: "st = rfc_blocks (m @ xs) md5_iv" by (simp only: st_def)
    have len: "length (m @ xs) = 64 * (length m div 64) + 64 + (i - part) + (length xs - i)"
    proof -
      have "length m = 64 * (length m div 64) + ?r" by simp
      moreover have "part \<le> i" by (simp add: i_def)
      ultimately show ?thesis using rp i(1) by (simp only: length_append)
    qed
    have dvd: "64 * (length m div 64) + 64 + (i - part) = 64 * (length m div 64 + 1 + (length xs - part) div 64)"
      by (simp add: i_def)
    have mod: "length (m @ xs) mod 64 = length xs - i" "64 * (length (m @ xs) div 64) = length m + i"
    proof -
      show "length (m @ xs) mod 64 = length xs - i" unfolding len dvd using small by (simp only: mod_mult_self4) simp
      then have "64 * (length (m @ xs) div 64) + (length xs - i) = length (m @ xs)" by (metis mult_div_mod_eq)
      then show "64 * (length (m @ xs) div 64) = length m + i" using i(1) by simp
    qed
    have "take (length (m @ xs) mod 64) buf' = drop (64 * (length (m @ xs) div 64)) (m @ xs)"
      unfolding mod using small by (simp add: buf'_def)
    moreover have "length buf' = 64" using small lb by (simp add: buf'_def)
    ultimately have "md5_abs md' (m @ xs)" unfolding md5_abs_def md'_def using count st by simp
    then show ?thesis using run by blast
  next
    case False
    define buf where "buf = take ?r ?buf @ xs @ drop (?r + length xs) ?buf"
    have cpy: "md5_memcpy ?r xs ?buf = Some buf" using abs(1) False rp by (simp add: md5_memcpy_def buf_def)
    define md' where "md' = md\<lparr>md5_finished := False, md5_count := md5_add_count (length xs) (md5_count md), md5_buffer := buf\<rparr>"
    have run: "md5_init xs md = Some md'"
      unfolding md5_init_def Let_def md5.simps idx part_of pw if_not_P[OF False] cpy by (simp add: cpy md'_def)
    have small: "?r + length xs < 64" using False rp by simp
    have len: "length (m @ xs) = 64 * (length m div 64) + (?r + length xs)" by simp
    have mod: "length (m @ xs) mod 64 = ?r + length xs" "64 * (length (m @ xs) div 64) = 64 * (length m div 64)"
      unfolding len using small by (simp_all only: mod_mult_self4 mod_less div_mult_self4 div_less add_0_right mult.commute zero_neq_numeral not_False_eq_True)
    have pre: "take (64 * (length m div 64)) (m @ xs) = take (64 * (length m div 64)) m" by simp
    have "rfc_blocks (m @ xs) md5_iv = rfc_blocks m md5_iv"
      by (subst blocks_whole, subst (2) blocks_whole) (simp only: mod pre)
    moreover have "take (?r + length xs) buf = take ?r ?buf @ xs" using abs(1) small by (simp add: buf_def min_absorb2)
    then have "take (length (m @ xs) mod 64) buf = drop (64 * (length (m @ xs) div 64)) (m @ xs)" unfolding mod abs(4) by simp
    moreover have "length buf = 64" using abs(1) small by (simp add: buf_def min_absorb2)
    ultimately have "md5_abs md' (m @ xs)" unfolding md5_abs_def md'_def using count abs(3) by simp
    then show ?thesis using run by blast
  qed
qed


subsection \<open>The digest\<close>

definition md5_length_bytes :: "nat \<Rightarrow> byte list" where
  "md5_length_bytes n = map (\<lambda>k. of_nat (8 * n div 256 ^ k)) [0..<8]"

lemma length_byte:
  assumes "s \<le> 24"
  shows "(ucast (drop_bit s (of_nat N :: bit32) AND 0xff) :: byte) = of_nat (N div 2 ^ s)"
proof (rule bit_word_eqI)
  fix k assume k: "k < LENGTH(8)"
  have ff: "(0xff :: bit32) = mask 8" by (simp add: mask_eq_exp_minus_1)
  have "bit (of_nat (N div 2 ^ s) :: byte) k = bit N (s + k)"
    using k by (simp only: bit_of_nat_iff drop_bit_eq_div[symmetric] bit_drop_bit_eq) simp
  moreover have "bit (ucast (drop_bit s (of_nat N :: bit32) AND 0xff) :: byte) k = bit N (s + k)"
    using k assms unfolding ff take_bit_eq_mask[symmetric]
    by (simp add: bit_ucast_iff bit_take_bit_iff bit_drop_bit_eq bit_of_nat_iff)
  ultimately show "bit (ucast (drop_bit s (of_nat N :: bit32) AND 0xff) :: byte) k = bit (of_nat (N div 2 ^ s) :: byte) k" by simp
qed

lemma count_bytes: "md5_encode [of_nat (8 * n), of_nat (8 * n div 4294967296)] = md5_length_bytes n"
proof -
  let ?N = "8 * n"
  have z: "(ucast ((of_nat N :: bit32) AND 0xff) :: byte) = of_nat N" for N using length_byte[of 0 N] by simp
  have d: "?N div 4294967296 div 2 ^ s = ?N div (4294967296 * 2 ^ s)" for s by (simp add: div_mult2_eq)
  have l: "[0..<8] = [0 :: nat, 1, 2, 3, 4, 5, 6, 7]" by code_simp
  show ?thesis
    unfolding md5_length_bytes_def l by (simp add: length_byte z d div_mult2_eq[symmetric] del: of_nat_mult)
qed

lemma init_fill:
  assumes "unat (md5_index (md5_count md)) = 56" "length xs = 8" "length (md5_buffer md) = 64" "md5_init xs md = Some md'"
  shows "md5_buffer md' = take 56 (md5_buffer md) @ xs"
proof -
  have i: "md5_index (md5_count md) = 56" unfolding word_unat_eq_iff assms(1) by simp
  have "md5_blocks_loop xs 8 st = Some (8, st)" for st
    using assms(2) by (subst md5_blocks_loop.simps) simp
  then show ?thesis using assms(2-4) by (auto simp: md5_init_def i md5_memcpy_def Let_def)
qed

text \<open>After a digest the buffer holds what the padding has left: the bytes that a further call takes for
  the end of the message.\<close>

definition md5_clobbered :: "byte list \<Rightarrow> byte list" where
  "md5_clobbered m =
     (if length m mod 64 < 56 then m
      else take (64 * (length m div 64)) m @ take (length m mod 64) (replicate 56 0 @ md5_length_bytes (length m)))"

lemma rest_len: "length m - 64 * (length m div 64) = length m mod 64"
  by (simp add: minus_mult_div_eq_mod)

lemma md5_digest_abs:
  assumes "md5_abs md m" "\<not> md5_finished md"
  shows "\<exists>md'. md5_getDigest md = Some (md', rfc_md5 m) \<and> \<not> md5_finished md' \<and> md5_abs md' (md5_clobbered m)"
proof -
  let ?r = "length m mod 64" and ?k = "64 * (length m div 64)"
  have abs: "length (md5_buffer md) = 64" "md5_count md = (of_nat (8 * length m), of_nat (8 * length m div 4294967296))"
    "md5_state md = rfc_blocks m md5_iv" "take ?r (md5_buffer md) = drop ?k m"
    using assms(1) by (simp_all only: md5_abs_def)
  define n where "n = (if ?r < 56 then 56 - ?r else 120 - ?r)"
  have r: "?r < 64" by simp
  have n: "0 < n" "n \<le> 64" using r unfolding n_def by (auto simp: not_less)
  have idx: "unat (md5_index (md5_count md)) = ?r" unfolding abs(2) by (rule index_mod)
  define padLen where "padLen = (if md5_index (md5_count md) < 56 then 56 - md5_index (md5_count md) else 120 - md5_index (md5_count md))"
  have padn: "unat padLen = n"
  proof -
    let ?i = "md5_index (md5_count md)"
    have lt: "(?i < 56) = (?r < 56)" unfolding word_less_nat_alt idx by simp
    have "?i \<le> 120" "?r < 56 \<Longrightarrow> ?i \<le> 56" unfolding word_le_nat_alt idx using r by simp_all
    then have "unat (120 - ?i) = 120 - ?r" "?r < 56 \<Longrightarrow> unat (56 - ?i) = 56 - ?r"
      by (simp_all add: unat_sub idx)
    then show ?thesis unfolding padLen_def n_def lt by simp
  qed
  define pad where "pad = take n PADDING"
  have lp: "length pad = n" using n by (simp add: pad_def PADDING_def)
  let ?bits = "md5_length_bytes (length m)"
  have lb: "length ?bits = 8" by (simp add: md5_length_bytes_def)
  have abs0: "md5_abs (md\<lparr>md5_finished := True\<rparr>) m" using assms(1) by (simp add: md5_abs_def)
  obtain m1 where m1: "md5_init pad (md\<lparr>md5_finished := True\<rparr>) = Some m1" "md5_abs m1 (m @ pad)"
    using md5_init_abs[OF abs0, of pad] lp n by auto
  obtain m2 where m2: "md5_init ?bits m1 = Some m2" "md5_abs m2 ((m @ pad) @ ?bits)"
    using md5_init_abs[OF m1(2), of ?bits] lb by auto
  have total: "length (m @ pad) = ?k + (?r + n)" using lp by simp
  have rn: "?r + n = (if ?r < 56 then 56 else 120)" using r by (simp add: n_def)
  have mod56: "length (m @ pad) mod 64 = 56" unfolding total rn by simp
  have padz: "pad = [0x80] @ replicate ((119 - ?r) mod 64) 0"
  proof -
    have "(119 - ?r) mod 64 = n - 1"
    proof (cases "?r < 56")
      case True
      then have "119 - ?r = 64 + (55 - ?r)" by simp
      then have "(119 - ?r) mod 64 = (55 - ?r) mod 64" by (metis mod_add_self1)
      then show ?thesis using True by (simp add: n_def)
    next
      case False
      then show ?thesis using r by (simp add: n_def)
    qed
    moreover have "take n PADDING = 0x80 # replicate (n - 1) 0" using n by (cases n) (simp_all add: PADDING_def min_absorb1)
    ultimately show ?thesis by (simp add: pad_def)
  qed
  have rfc: "(m @ pad) @ ?bits = rfc_pad m" unfolding padz by (simp add: rfc_pad_def md5_length_bytes_def)
  have digest: "md5_encode (words4 (md5_state m2)) = rfc_md5 m"
    using m2(2) unfolding rfc by (simp add: md5_abs_def rfc_md5_def)
  define md' where "md' = m2\<lparr>md5_digest := md5_encode (words4 (md5_state m2)), md5_state := md5_state md, md5_count := md5_count md\<rparr>"
  have "md5_getDigest md = Some (md', md5_digest md')"
    unfolding md5_getDigest_def Let_def if_not_P[OF assms(2)] padLen_def[symmetric] padn pad_def[symmetric]
    using m1(1) m2(1) count_bytes[of "length m"] by (simp add: abs(2) md'_def)
  then have run: "md5_getDigest md = Some (md', rfc_md5 m)" by (simp add: md'_def digest)
  have idx1: "unat (md5_index (md5_count m1)) = 56"
    using m1(2) mod56 index_mod[of "length (m @ pad)"] by (simp only: md5_abs_def)
  have buf1: "length (md5_buffer m1) = 64" "take 56 (md5_buffer m1) = drop (64 * (length (m @ pad) div 64)) (m @ pad)"
    using m1(2) unfolding md5_abs_def mod56 by (simp_all only:)
  have buf: "md5_buffer m2 = drop (64 * (length (m @ pad) div 64)) (m @ pad) @ ?bits"
    using init_fill[OF idx1 lb buf1(1) m2(1)] by (simp only: buf1(2))
  have "md5_abs md' (md5_clobbered m)"
  proof (cases "?r < 56")
    case True
    have dv: "64 * (length (m @ pad) div 64) = ?k" unfolding total rn using True by simp
    have "take ?r (md5_buffer m2) = drop ?k m" unfolding buf dv by (simp add: rest_len)
    moreover have "length (md5_buffer m2) = 64" unfolding buf dv using lb lp True by (simp add: n_def rest_len)
    ultimately show ?thesis using True abs unfolding md5_clobbered_def if_P[OF True] md5_abs_def md'_def by simp
  next
    case False
    have dv: "64 * (length (m @ pad) div 64) = ?k + 64" unfolding total rn using False by simp
    have k: "?k + 64 = length m + (64 - ?r)" 
    proof -
      have "?k + ?r = length m" by simp
      then show ?thesis using r by linarith
    qed
    have z: "drop (?k + 64) (m @ pad) = replicate 56 0"
    proof -
      have "(119 - ?r) mod 64 = 119 - ?r" "64 - ?r = Suc (63 - ?r)" using False r by simp_all
      then show ?thesis unfolding k padz using False r by simp
    qed
    have buf2: "md5_buffer m2 = replicate 56 0 @ ?bits" unfolding buf dv z ..
    let ?c = "take ?k m @ take ?r (replicate 56 0 @ ?bits)"
    have c: "md5_clobbered m = ?c" using False by (simp add: md5_clobbered_def)
    have lc: "length ?c = length m" 
    proof -
      have "?r \<le> length (replicate 56 (0 :: byte) @ ?bits)" using lb r by (simp only: length_append length_replicate)
      then have "length ?c = ?k + ?r" by (simp only: length_append length_take min_absorb2 min_absorb1)
      then show ?thesis by simp
    qed
    have "rfc_blocks ?c md5_iv = rfc_blocks m md5_iv"
      by (subst blocks_whole, subst (2) blocks_whole) (simp only: lc, simp)
    moreover have "take ?r (md5_buffer m2) = drop ?k ?c" unfolding buf2 by simp
    moreover have "length (md5_buffer m2) = 64" unfolding buf2 using lb by simp
    ultimately show ?thesis unfolding c md5_abs_def md'_def lc using abs by simp
  qed
  moreover have "\<not> md5_finished md'" using md5_init_keeps[OF m2(1)] by (simp add: md'_def)
  ultimately show ?thesis using run by blast
qed

lemma md5_new_abs:
  assumes "length (fst junk) = 64" "length msg < 4294967232"
  shows "\<exists>md. md5_new junk msg = Some md \<and> md5_abs md msg \<and> \<not> md5_finished md"
proof -
  let ?md = "\<lparr>md5_finished = False, md5_state = md5_iv, md5_count = (0, 0), md5_buffer = fst junk, md5_digest = snd junk\<rparr>"
  have "md5_abs ?md []" using assms(1) by (simp add: md5_abs_def blocks_short)
  then obtain md where "md5_init msg ?md = Some md" "md5_abs md ([] @ msg)" using md5_init_abs assms(2) by blast
  then show ?thesis using md5_init_keeps by (auto simp: md5_new_def)
qed

text \<open>C10: For every message of less than 2^32 - 64 bytes the class computes MD5 as RFC 1321 defines it: the
  unrolled rounds, the buffering in blocks of 64 bytes, the 64-bit count in two words and the padding
  give the digest of the reference, as 32 hexadecimal digits, whatever the uninitialised members hold.\<close>

theorem md5_is_rfc1321:
  assumes "length (fst junk) = 64" "length msg < 4294967232"
  shows "\<exists>md md'. md5_new junk msg = Some md \<and> md5_toStr md = Some (md', concat (map md5_hex (rfc_md5 msg)))"
  using md5_new_abs[OF assms] md5_digest_abs[of _ msg] by (fastforce simp: md5_toStr_def)

theorem md5_is_rfc1321_witness:
  "\<exists>md md'. md5_new (replicate 64 7, []) (map of_char ''abc'') = Some md
     \<and> md5_toStr md = Some (md', concat (map md5_hex (rfc_md5 [97, 98, 99])))"
  using md5_is_rfc1321[of "(replicate 64 7, [])" "map of_char ''abc''"] by simp

text \<open>\<open>getDigest\<close> means to keep the object usable, but its own padding runs through \<open>init\<close>, which resets
  \<open>finished\<close> and fills the buffer: a second \<open>toStr\<close> computes again, and what it computes is the digest of the
  message only when the message ends before byte 56 of its last block. Otherwise it is the digest of
  another message, whose last block starts with the padding of the first call.\<close>

theorem md5_second_toStr:
  assumes "length (fst junk) = 64" "length msg < 4294967232"
  shows "\<exists>md md' md''. md5_new junk msg = Some md \<and> md5_toStr md = Some (md', concat (map md5_hex (rfc_md5 msg)))
    \<and> md5_toStr md' = Some (md'', concat (map md5_hex (rfc_md5 (md5_clobbered msg))))"
proof -
  obtain md where md: "md5_new junk msg = Some md" "md5_abs md msg" "\<not> md5_finished md" using md5_new_abs[OF assms] by blast
  obtain md' where md': "md5_getDigest md = Some (md', rfc_md5 msg)" "\<not> md5_finished md'" "md5_abs md' (md5_clobbered msg)"
    using md5_digest_abs[OF md(2,3)] by blast
  obtain md'' where "md5_getDigest md' = Some (md'', rfc_md5 (md5_clobbered msg))" using md5_digest_abs[OF md'(3,2)] by blast
  then show ?thesis using md(1) md'(1) by (simp add: md5_toStr_def)
qed

theorem md5_second_toStr_witness:
  "\<exists>md md' md''. md5_new (replicate 64 7, []) (replicate 56 1) = Some md \<and> md5_toStr md = Some (md', concat (map md5_hex (rfc_md5 (replicate 56 1))))
    \<and> md5_toStr md' = Some (md'', concat (map md5_hex (rfc_md5 (replicate 56 0))))"
proof -
  have "md5_clobbered (replicate 56 1) = replicate 56 0" by (simp add: md5_clobbered_def)
  then show ?thesis using md5_second_toStr[of "(replicate 64 7, [])" "replicate 56 1"] by simp
qed

end
