(* ===== verification/Mpmc_Queue.thy ===== *)
theory Mpmc_Queue
  imports Smart_Prelude "HOL-Library.Sublist"
begin

text \<open>
  \<open>public/mpmc_queue.hpp\<close>: the lock-free ring the threads of a server hand connections and requests
  through. Every atomic access is one step of a thread; the steps of the threads interleave in any order
  (sequentially consistent, the memory orders of the code are not weakened further).
\<close>

section \<open>The lock-free queue\<close>

text \<open>A slot is \<^const>\<open>None\<close> while no object lives in it.\<close>

record 'a mpmc =
  q_size :: nat
  q_ring :: "'a option list"
  read_index :: nat
  write_index :: nat
  read_commit_index :: nat
  write_commit_index :: nat

definition DEFAULT_RING_BUFFER_SIZE :: nat where "DEFAULT_RING_BUFFER_SIZE = 1025"

definition mpmc_alloc :: "nat \<Rightarrow> 'a mpmc" where
  "mpmc_alloc n = \<lparr>q_size = n, q_ring = replicate n None, read_index = 0, write_index = 0,
     read_commit_index = 0, write_commit_index = 0\<rparr>"

definition mpmc_default :: "'a mpmc" where
  "mpmc_default = mpmc_alloc DEFAULT_RING_BUFFER_SIZE"

definition mpmc_new :: "nat \<Rightarrow> 'a mpmc option" where
  "mpmc_new n = (if n + 1 > 1 then Some (mpmc_alloc (n + 1)) else None)"

text \<open>The next index, around the end of the ring.\<close>

definition mpmc_next :: "'a mpmc \<Rightarrow> nat \<Rightarrow> nat" where
  "mpmc_next q i = (if i + 1 = q_size q then 0 else i + 1)"

definition mpmc_empty :: "'a mpmc \<Rightarrow> bool" where
  "mpmc_empty q \<longleftrightarrow> read_index q = write_commit_index q"

definition mpmc_full :: "'a mpmc \<Rightarrow> bool" where
  "mpmc_full q \<longleftrightarrow> mpmc_next q (write_index q) = read_commit_index q"

text \<open>The move constructor leaves the other queue without a ring; the destructor destroys the objects that
  are left (a slot without one is undefined) and frees the ring.\<close>

definition mpmc_move :: "'a mpmc \<Rightarrow> 'a mpmc \<times> 'a mpmc" where
  "mpmc_move rhs = (rhs, \<lparr>q_size = 0, q_ring = [], read_index = 0, write_index = 0, read_commit_index = 0, write_commit_index = 0\<rparr>)"

partial_function (option) mpmc_destroy_loop :: "'a mpmc \<Rightarrow> nat \<Rightarrow> nat \<Rightarrow> 'a option list \<Rightarrow> 'a option list option" where
  "mpmc_destroy_loop q read end_index ring =
     (if read = end_index then Some ring
      else if read < length ring \<and> ring ! read \<noteq> None
      then mpmc_destroy_loop q (mpmc_next q read) end_index (ring[read := None]) else None)"

definition mpmc_destroy :: "'a mpmc \<Rightarrow> 'a option list option" where
  "mpmc_destroy q = mpmc_destroy_loop q (read_index q) (write_index q) (q_ring q)"

subsection \<open>The threads\<close>

text \<open>
  \<open>Many\<close> is \<open>push\<close> and \<open>pop\<close>, \<open>One\<close> is \<open>sp_push\<close> and \<open>sc_pop\<close>. The program counter says what a
  thread does next, with the local variables it still needs.
\<close>

datatype mode = Many | One

datatype 'a pc =
    Idle
  | Push_Load mode 'a
  | Push_Check mode 'a nat
  | Push_Claim mode 'a nat nat
  | Push_Build mode 'a nat nat
  | Push_Commit mode 'a nat nat
  | Push_End bool
  | Pop_Load mode
  | Pop_Check mode nat
  | Pop_Claim mode nat nat
  | Pop_Move mode nat nat
  | Pop_Commit mode 'a nat nat
  | Pop_End "'a option"

text \<open>The steps of \<open>push\<close>. A weak exchange may fail for no reason: \<open>spurious\<close>.\<close>

definition push_check :: "mode \<Rightarrow> 'a \<Rightarrow> nat \<Rightarrow> 'a mpmc \<Rightarrow> 'a pc" where
  "push_check m v cur q =
     (if mpmc_next q cur = read_commit_index q then Push_End False else Push_Claim m v cur (mpmc_next q cur))"

definition push_claim :: "bool \<Rightarrow> 'a \<Rightarrow> nat \<Rightarrow> nat \<Rightarrow> 'a mpmc \<Rightarrow> 'a pc \<times> 'a mpmc" where
  "push_claim spurious v cur nxt q =
     (if write_index q = cur \<and> \<not> spurious then (Push_Build Many v cur nxt, q\<lparr>write_index := nxt\<rparr>)
      else (Push_Check Many v (write_index q), q))"

definition sp_push_claim :: "'a \<Rightarrow> nat \<Rightarrow> nat \<Rightarrow> 'a mpmc \<Rightarrow> 'a pc \<times> 'a mpmc" where
  "sp_push_claim v cur nxt q = (Push_Build One v cur nxt, q\<lparr>write_index := nxt\<rparr>)"

definition push_build :: "mode \<Rightarrow> 'a \<Rightarrow> nat \<Rightarrow> nat \<Rightarrow> 'a mpmc \<Rightarrow> ('a pc \<times> 'a mpmc) option" where
  "push_build m v cur nxt q =
     (if cur < length (q_ring q) then Some (Push_Commit m v cur nxt, q\<lparr>q_ring := (q_ring q)[cur := Some v]\<rparr>) else None)"

definition push_commit :: "bool \<Rightarrow> 'a \<Rightarrow> nat \<Rightarrow> nat \<Rightarrow> 'a mpmc \<Rightarrow> 'a pc \<times> 'a mpmc" where
  "push_commit spurious v cur nxt q =
     (if write_commit_index q = cur \<and> \<not> spurious then (Push_End True, q\<lparr>write_commit_index := nxt\<rparr>)
      else (Push_Commit Many v cur nxt, q))"

definition sp_push_commit :: "nat \<Rightarrow> 'a mpmc \<Rightarrow> 'a pc \<times> 'a mpmc" where
  "sp_push_commit nxt q = (Push_End True, q\<lparr>write_commit_index := nxt\<rparr>)"

text \<open>The steps of \<open>pop\<close>. Moving from a slot without an object is undefined: \<^const>\<open>None\<close>.\<close>

definition pop_check :: "mode \<Rightarrow> nat \<Rightarrow> 'a mpmc \<Rightarrow> 'a pc" where
  "pop_check m cur q =
     (if cur = write_commit_index q then Pop_End None else Pop_Claim m cur (mpmc_next q cur))"

definition pop_claim :: "bool \<Rightarrow> nat \<Rightarrow> nat \<Rightarrow> 'a mpmc \<Rightarrow> 'a pc \<times> 'a mpmc" where
  "pop_claim spurious cur nxt q =
     (if read_index q = cur \<and> \<not> spurious then (Pop_Move Many cur nxt, q\<lparr>read_index := nxt\<rparr>)
      else (Pop_Check Many (read_index q), q))"

definition sc_pop_claim :: "nat \<Rightarrow> nat \<Rightarrow> 'a mpmc \<Rightarrow> 'a pc \<times> 'a mpmc" where
  "sc_pop_claim cur nxt q = (Pop_Move One cur nxt, q\<lparr>read_index := nxt\<rparr>)"

definition pop_move :: "mode \<Rightarrow> nat \<Rightarrow> nat \<Rightarrow> 'a mpmc \<Rightarrow> ('a pc \<times> 'a mpmc) option" where
  "pop_move m cur nxt q =
     (if cur < length (q_ring q) then
        (case q_ring q ! cur of
           None \<Rightarrow> None
         | Some v \<Rightarrow> Some (Pop_Commit m v cur nxt, q\<lparr>q_ring := (q_ring q)[cur := None]\<rparr>))
      else None)"

definition pop_commit :: "bool \<Rightarrow> 'a \<Rightarrow> nat \<Rightarrow> nat \<Rightarrow> 'a mpmc \<Rightarrow> 'a pc \<times> 'a mpmc" where
  "pop_commit spurious v cur nxt q =
     (if read_commit_index q = cur \<and> \<not> spurious then (Pop_End (Some v), q\<lparr>read_commit_index := nxt\<rparr>)
      else (Pop_Commit Many v cur nxt, q))"

definition sc_pop_commit :: "'a \<Rightarrow> nat \<Rightarrow> 'a mpmc \<Rightarrow> 'a pc \<times> 'a mpmc" where
  "sc_pop_commit v nxt q = (Pop_End (Some v), q\<lparr>read_commit_index := nxt\<rparr>)"

fun thread_step :: "bool \<Rightarrow> 'a pc \<Rightarrow> 'a mpmc \<Rightarrow> ('a pc \<times> 'a mpmc) option" where
  "thread_step b Idle q = Some (Idle, q)"
| "thread_step b (Push_Load m v) q = Some (Push_Check m v (write_index q), q)"
| "thread_step b (Push_Check m v cur) q = Some (push_check m v cur q, q)"
| "thread_step b (Push_Claim Many v cur nxt) q = Some (push_claim b v cur nxt q)"
| "thread_step b (Push_Claim One v cur nxt) q = Some (sp_push_claim v cur nxt q)"
| "thread_step b (Push_Build m v cur nxt) q = push_build m v cur nxt q"
| "thread_step b (Push_Commit Many v cur nxt) q = Some (push_commit b v cur nxt q)"
| "thread_step b (Push_Commit One v cur nxt) q = Some (sp_push_commit nxt q)"
| "thread_step b (Push_End r) q = Some (Idle, q)"
| "thread_step b (Pop_Load m) q = Some (Pop_Check m (read_index q), q)"
| "thread_step b (Pop_Check m cur) q = Some (pop_check m cur q, q)"
| "thread_step b (Pop_Claim Many cur nxt) q = Some (pop_claim b cur nxt q)"
| "thread_step b (Pop_Claim One cur nxt) q = Some (sc_pop_claim cur nxt q)"
| "thread_step b (Pop_Move m cur nxt) q = pop_move m cur nxt q"
| "thread_step b (Pop_Commit Many v cur nxt) q = Some (pop_commit b v cur nxt q)"
| "thread_step b (Pop_Commit One v cur nxt) q = Some (sc_pop_commit v nxt q)"
| "thread_step b (Pop_End r) q = Some (Idle, q)"

text \<open>All the threads, with the values whose push has been committed and those that were moved out.\<close>

record 'a sys =
  s_queue :: "'a mpmc"
  s_pc :: "nat \<Rightarrow> 'a pc"
  pushed :: "'a list"
  popped :: "'a list"

text \<open>What a step adds to the two lists.\<close>

definition new_pushed :: "'a pc \<Rightarrow> 'a pc \<Rightarrow> 'a list" where
  "new_pushed pc pc' = (case pc of Push_Commit m v cur nxt \<Rightarrow> if pc' = Push_End True then [v] else [] | _ \<Rightarrow> [])"

definition new_popped :: "'a pc \<Rightarrow> 'a pc \<Rightarrow> 'a list" where
  "new_popped pc pc' = (case (pc, pc') of (Pop_Move m cur nxt, Pop_Commit m' v cur' nxt') \<Rightarrow> [v] | _ \<Rightarrow> [])"

definition sys_step :: "bool \<Rightarrow> nat \<Rightarrow> 'a sys \<Rightarrow> 'a sys option" where
  "sys_step b t s =
     (case thread_step b (s_pc s t) (s_queue s) of
        None \<Rightarrow> None
      | Some (pc', q') \<Rightarrow> Some (s\<lparr>s_queue := q', s_pc := (s_pc s)(t := pc'),
          pushed := pushed s @ new_pushed (s_pc s t) pc', popped := popped s @ new_popped (s_pc s t) pc'\<rparr>))"

definition sys_call :: "nat \<Rightarrow> 'a pc \<Rightarrow> 'a sys \<Rightarrow> 'a sys" where
  "sys_call t pc s = s\<lparr>s_pc := (s_pc s)(t := pc)\<rparr>"

definition sys_new :: "'a mpmc \<Rightarrow> 'a sys" where
  "sys_new q = \<lparr>s_queue = q, s_pc = (\<lambda>_. Idle), pushed = [], popped = []\<rparr>"

text \<open>Producers push, consumers pop; \<^const>\<open>None\<close> is an undefined access.\<close>

inductive reach :: "nat set \<Rightarrow> nat set \<Rightarrow> 'a mpmc \<Rightarrow> 'a sys option \<Rightarrow> bool" for P C q0 where
  reach_new: "reach P C q0 (Some (sys_new q0))"
| reach_push: "reach P C q0 (Some s) \<Longrightarrow> t \<in> P \<Longrightarrow> s_pc s t = Idle \<Longrightarrow> reach P C q0 (Some (sys_call t (Push_Load m v) s))"
| reach_pop: "reach P C q0 (Some s) \<Longrightarrow> t \<in> C \<Longrightarrow> s_pc s t = Idle \<Longrightarrow> reach P C q0 (Some (sys_call t (Pop_Load m) s))"
| reach_step: "reach P C q0 (Some s) \<Longrightarrow> t \<in> P \<union> C \<Longrightarrow> reach P C q0 (sys_step b t s)"


subsection \<open>One producer and one consumer\<close>

text \<open>Absolute counts: slots claimed and committed by the consumer and by the producer.\<close>

fun moving :: "'a pc \<Rightarrow> nat" where
  "moving (Pop_Move m cur nxt) = 1" | "moving _ = 0"

fun uncommitted :: "'a pc \<Rightarrow> nat" where
  "uncommitted (Pop_Commit m v cur nxt) = 1" | "uncommitted _ = 0"

fun building :: "'a pc \<Rightarrow> nat" where
  "building (Push_Build m v cur nxt) = 1" | "building (Push_Commit m v cur nxt) = 1" | "building _ = 0"

text \<open>What the producer and the consumer know at their program counters.\<close>

fun producer_ok :: "nat \<Rightarrow> 'a option list \<Rightarrow> nat \<Rightarrow> nat \<Rightarrow> 'a pc \<Rightarrow> bool" where
  "producer_ok n ring wc rc Idle \<longleftrightarrow> True"
| "producer_ok n ring wc rc (Push_Load m v) \<longleftrightarrow> True"
| "producer_ok n ring wc rc (Push_Check m v cur) \<longleftrightarrow> cur = wc mod n"
| "producer_ok n ring wc rc (Push_Claim m v cur nxt) \<longleftrightarrow> cur = wc mod n \<and> nxt = (wc + 1) mod n \<and> wc + 2 \<le> rc + n"
| "producer_ok n ring wc rc (Push_Build m v cur nxt) \<longleftrightarrow> cur = wc mod n \<and> nxt = (wc + 1) mod n"
| "producer_ok n ring wc rc (Push_Commit m v cur nxt) \<longleftrightarrow> cur = wc mod n \<and> nxt = (wc + 1) mod n \<and> ring ! cur = Some v"
| "producer_ok n ring wc rc (Push_End r) \<longleftrightarrow> True"
| "producer_ok n ring wc rc _ \<longleftrightarrow> False"

fun consumer_ok :: "nat \<Rightarrow> 'a list \<Rightarrow> nat \<Rightarrow> 'a pc \<Rightarrow> bool" where
  "consumer_ok n xs k Idle \<longleftrightarrow> True"
| "consumer_ok n xs k (Pop_Load m) \<longleftrightarrow> True"
| "consumer_ok n xs k (Pop_Check m cur) \<longleftrightarrow> cur = k mod n"
| "consumer_ok n xs k (Pop_Claim m cur nxt) \<longleftrightarrow> cur = k mod n \<and> nxt = (k + 1) mod n \<and> k < length xs"
| "consumer_ok n xs k (Pop_Move m cur nxt) \<longleftrightarrow> cur = k mod n \<and> nxt = (k + 1) mod n \<and> k < length xs"
| "consumer_ok n xs k (Pop_Commit m v cur nxt) \<longleftrightarrow> 0 < k \<and> cur = (k - 1) mod n \<and> nxt = k mod n \<and> v = xs ! (k - 1)"
| "consumer_ok n xs k (Pop_End (Some v)) \<longleftrightarrow> 0 < k \<and> v = xs ! (k - 1)"
| "consumer_ok n xs k (Pop_End None) \<longleftrightarrow> True"
| "consumer_ok n xs k _ \<longleftrightarrow> False"

definition spsc :: "nat \<Rightarrow> 'a mpmc \<Rightarrow> 'a pc \<Rightarrow> 'a pc \<Rightarrow> 'a list \<Rightarrow> 'a list \<Rightarrow> bool" where
  "spsc n q p c xs ys \<longleftrightarrow> 1 < n \<and> q_size q = n \<and> length (q_ring q) = n
     \<and> read_index q = (length ys + moving c) mod n \<and> read_commit_index q = (length ys - uncommitted c) mod n
     \<and> write_index q = (length xs + building p) mod n \<and> write_commit_index q = length xs mod n
     \<and> length ys \<le> length xs \<and> length xs + building p + 1 \<le> length ys - uncommitted c + n
     \<and> ys = take (length ys) xs
     \<and> (\<forall>i. length ys \<le> i \<longrightarrow> i < length xs \<longrightarrow> q_ring q ! (i mod n) = Some (xs ! i))
     \<and> producer_ok n (q_ring q) (length xs) (length ys - uncommitted c) p \<and> consumer_ok n xs (length ys) c"

lemma mod_same:
  fixes a b n :: nat
  assumes "a \<le> b" "b < a + n"
  shows "a mod n = b mod n \<longleftrightarrow> a = b"
proof
  assume "a mod n = b mod n"
  then have "n dvd b - a" using assms(1) by (metis mod_eq_dvd_iff_nat)
  moreover have "b - a < n" using assms by linarith
  ultimately have "b - a = 0" using dvd_imp_le by (metis gr0I not_le)
  then show "a = b" using assms(1) by simp
qed simp

lemma next_mod: "1 < n \<Longrightarrow> q_size q = n \<Longrightarrow> mpmc_next q (i mod n) = (i + 1) mod n"
proof -
  assume n: "1 < n" "q_size q = n"
  have "(i + 1) mod n = (i mod n + 1) mod n" by (simp add: mod_Suc_eq)
  moreover have "i mod n + 1 \<le> n" using n by (simp add: Suc_leI)
  ultimately show ?thesis using n by (cases "i mod n + 1 = n") (simp_all add: mpmc_next_def)
qed

lemma consumer_ok_more: "k \<le> length xs \<Longrightarrow> consumer_ok n xs k c \<Longrightarrow> consumer_ok n (xs @ ys) k c"
  by (cases "(n, xs, k, c)" rule: consumer_ok.cases) (auto simp: nth_append)

lemma spsc_producer:
  assumes "spsc n q p c xs ys"
  shows "\<exists>p' q'. thread_step b p q = Some (p', q') \<and> spsc n q' p' c (xs @ new_pushed p p') (ys @ new_popped p p')
    \<and> (p' = Push_End False \<longrightarrow> length xs + 1 = length ys - uncommitted c + n)"
proof -
  have n: "1 < n" "q_size q = n" "length (q_ring q) = n" "length ys \<le> length xs" "length xs + building p + 1 \<le> length ys - uncommitted c + n"
    and ok: "producer_ok n (q_ring q) (length xs) (length ys - uncommitted c) p"
    and idx: "write_index q = (length xs + building p) mod n" "write_commit_index q = length xs mod n"
      "read_commit_index q = (length ys - uncommitted c) mod n"
    and old: "\<forall>i. length ys \<le> i \<longrightarrow> i < length xs \<longrightarrow> q_ring q ! (i mod n) = Some (xs ! i)"
    using assms by (auto simp: spsc_def)
  show ?thesis
  proof (cases p)
    case (Push_Check m v cur)
    have "mpmc_next q cur = (length xs + 1) mod n" using ok Push_Check next_mod[OF n(1,2)] by simp
    moreover have "((length ys - uncommitted c) mod n = (length xs + 1) mod n) = (length xs + 1 = length ys - uncommitted c + n)"
    proof -
      have "(length xs + 1) mod n = (length ys - uncommitted c + n) mod n \<longleftrightarrow> length xs + 1 = length ys - uncommitted c + n"
        using n Push_Check by (intro mod_same) auto
      then show ?thesis by auto
    qed
    ultimately have "push_check m v cur q =
        (if length xs + 1 = length ys - uncommitted c + n then Push_End False else Push_Claim m v cur ((length xs + 1) mod n))"
      using idx by (auto simp: push_check_def)
    then show ?thesis using assms ok n Push_Check by (auto simp: spsc_def new_pushed_def new_popped_def)
  next
    case (Push_Build m v cur nxt)
    have cur: "cur = length xs mod n" using ok Push_Build by simp
    have "i mod n \<noteq> cur" if "length ys \<le> i" "i < length xs" for i
      using mod_same[of i "length xs" n] that n(5) Push_Build unfolding cur by auto
    then have ring: "\<forall>i. length ys \<le> i \<longrightarrow> i < length xs \<longrightarrow> (q_ring q)[cur := Some v] ! (i mod n) = Some (xs ! i)"
      using old by (metis nth_list_update_neq)
    have "cur < n" using n(1) by (simp add: cur)
    then show ?thesis using assms ok Push_Build n(3) ring
      by (simp add: spsc_def push_build_def new_pushed_def new_popped_def)
  next
    case (Push_Claim m v cur nxt)
    then show ?thesis using assms ok idx by (cases m) (auto simp: spsc_def push_claim_def sp_push_claim_def new_pushed_def new_popped_def)
  next
    case (Push_Commit m v cur nxt)
    have c: "consumer_ok n (xs @ [v]) (length ys) c" using assms consumer_ok_more by (auto simp: spsc_def)
    have i: "q_ring q ! (i mod n) = Some ((xs @ [v]) ! i)" if "length ys \<le> i" "i < length (xs @ [v])" for i
      using that assms ok Push_Commit by (cases "i = length xs") (auto simp: spsc_def nth_append)
    have fin: "spsc n (q\<lparr>write_commit_index := nxt\<rparr>) (Push_End True) c (xs @ [v]) ys"
      using assms ok Push_Commit c i by (simp add: spsc_def)
    show ?thesis
    proof (cases m)
      case Many
      then show ?thesis using assms ok Push_Commit fin idx
        by (auto simp: push_commit_def new_pushed_def new_popped_def)
    next
      case One
      then show ?thesis using assms ok Push_Commit fin
        by (auto simp: sp_push_commit_def new_pushed_def new_popped_def)
    qed
  next
    case (Push_Load m v)
    then show ?thesis using assms idx by (auto simp: spsc_def new_pushed_def new_popped_def)
  next
    case (Push_End r)
    then show ?thesis using assms idx by (auto simp: spsc_def new_pushed_def new_popped_def)
  next
    case Idle
    then show ?thesis using assms idx by (auto simp: spsc_def new_pushed_def new_popped_def)
  qed (use ok in auto)
qed


lemma spsc_consumer:
  assumes "spsc n q p c xs ys"
  shows "\<exists>c' q'. thread_step b c q = Some (c', q') \<and> spsc n q' p c' (xs @ new_pushed c c') (ys @ new_popped c c')
    \<and> (c' = Pop_End None \<longrightarrow> ys = xs)"
proof -
  have n: "1 < n" "q_size q = n" "length (q_ring q) = n" "length ys \<le> length xs" "length xs + building p + 1 \<le> length ys - uncommitted c + n"
    and ok: "consumer_ok n xs (length ys) c"
    and idx: "read_index q = (length ys + moving c) mod n" "write_commit_index q = length xs mod n"
      "read_commit_index q = (length ys - uncommitted c) mod n"
    and pre: "ys = take (length ys) xs"
    and old: "\<forall>i. length ys \<le> i \<longrightarrow> i < length xs \<longrightarrow> q_ring q ! (i mod n) = Some (xs ! i)"
    using assms by (simp_all add: spsc_def)
  show ?thesis
  proof (cases c)
    case (Pop_Check m cur)
    have "length ys mod n = length xs mod n \<longleftrightarrow> length ys = length xs"
      using n Pop_Check by (intro mod_same) auto
    then have "pop_check m cur q = (if length ys = length xs then Pop_End None else Pop_Claim m cur ((length ys + 1) mod n))"
      using ok idx Pop_Check next_mod[OF n(1,2)] by (auto simp: pop_check_def)
    moreover have "ys = xs" if "length ys = length xs" using pre that by simp
    ultimately show ?thesis using assms ok n Pop_Check by (auto simp: spsc_def new_pushed_def new_popped_def)
  next
    case (Pop_Claim m cur nxt)
    then show ?thesis using assms ok idx by (cases m) (auto simp: spsc_def pop_claim_def sc_pop_claim_def new_pushed_def new_popped_def)
  next
    case (Pop_Move m cur nxt)
    let ?k = "length ys"
    have cur: "cur = ?k mod n" "?k < length xs" using ok Pop_Move by simp_all
    have v: "q_ring q ! cur = Some (xs ! ?k)" using assms cur by (simp add: spsc_def)
    have other: "i mod n \<noteq> cur" if "?k < i" "i \<le> length xs" for i
      using mod_same[of ?k i n] that n(5) Pop_Move unfolding cur by auto
    have lt: "cur < n" using n(1) by (simp add: cur)
    have ring: "\<forall>i. Suc ?k \<le> i \<longrightarrow> i < length xs \<longrightarrow> (q_ring q)[cur := None] ! (i mod n) = Some (xs ! i)"
      using old other by (metis Suc_le_lessD less_imp_le nth_list_update_neq)
    have ys: "ys @ [xs ! ?k] = take (Suc ?k) xs" using pre cur(2) by (simp add: take_Suc_conv_app_nth)
    have prod: "producer_ok n ((q_ring q)[cur := None]) (length xs) ?k p"
    proof -
      have o: "cur \<noteq> length xs mod n" using other[of "length xs"] cur(2) by auto
      have "producer_ok n (q_ring q) (length xs) ?k p" using assms Pop_Move by (simp add: spsc_def)
      then show ?thesis using o by (cases "(n, q_ring q, length xs, ?k, p)" rule: producer_ok.cases) (auto simp: nth_list_update)
    qed
    have step: "thread_step b c q = Some (Pop_Commit m (xs ! ?k) cur nxt, q\<lparr>q_ring := (q_ring q)[cur := None]\<rparr>)"
      using v lt n(3) Pop_Move by (simp add: pop_move_def)
    have "spsc n (q\<lparr>q_ring := (q_ring q)[cur := None]\<rparr>) p (Pop_Commit m (xs ! ?k) cur nxt) xs (ys @ [xs ! ?k])"
      using assms ok Pop_Move ring cur ys prod by (simp add: spsc_def)
    then show ?thesis using step Pop_Move by (simp add: new_pushed_def new_popped_def)
  next
    case (Pop_Commit m v cur nxt)
    have p: "producer_ok n (q_ring q) (length xs) (length ys) p"
    proof -
      have "producer_ok n (q_ring q) (length xs) (length ys - 1) p" using assms Pop_Commit by (simp add: spsc_def)
      then show ?thesis by (cases "(n, q_ring q, length xs, length ys, p)" rule: producer_ok.cases) auto
    qed
    have fin: "spsc n (q\<lparr>read_commit_index := nxt\<rparr>) p (Pop_End (Some v)) xs ys"
      using assms ok Pop_Commit p by (auto simp: spsc_def)
    show ?thesis
    proof (cases m)
      case Many
      then show ?thesis using assms ok Pop_Commit fin idx
        by (auto simp: pop_commit_def new_pushed_def new_popped_def)
    next
      case One
      then show ?thesis using assms ok Pop_Commit fin
        by (auto simp: sc_pop_commit_def new_pushed_def new_popped_def)
    qed
  next
    case (Pop_Load m)
    then show ?thesis using assms idx by (auto simp: spsc_def new_pushed_def new_popped_def)
  next
    case (Pop_End r)
    then show ?thesis using assms idx by (cases r) (auto simp: spsc_def new_pushed_def new_popped_def)
  next
    case Idle
    then show ?thesis using assms idx by (auto simp: spsc_def new_pushed_def new_popped_def)
  qed (use ok in auto)
qed

lemma spsc_new:
  assumes "1 < n"
  shows "spsc n (mpmc_alloc n) Idle Idle [] []"
  using assms by (simp add: spsc_def mpmc_alloc_def)

lemma spsc_call:
  "spsc n q Idle c xs ys \<Longrightarrow> spsc n q (Push_Load m v) c xs ys"
  "spsc n q p Idle xs ys \<Longrightarrow> spsc n q p (Pop_Load m) xs ys"
  by (simp_all add: spsc_def)

definition sys_ok :: "nat \<Rightarrow> 'a sys \<Rightarrow> bool" where
  "sys_ok n s \<longleftrightarrow> spsc n (s_queue s) (s_pc s 0) (s_pc s 1) (pushed s) (popped s)"

lemma sys_ok_step:
  assumes "sys_ok n s" "t \<in> {0, 1}"
  shows "\<exists>s'. sys_step b t s = Some s' \<and> sys_ok n s'
    \<and> (t = 0 \<longrightarrow> s_pc s' 0 = Push_End False \<longrightarrow> length (pushed s) + 1 = length (popped s) - uncommitted (s_pc s 1) + n)
    \<and> (t = 1 \<longrightarrow> s_pc s' 1 = Pop_End None \<longrightarrow> popped s = pushed s)"
proof (cases "t = 0")
  case True
  then show ?thesis using spsc_producer[of n "s_queue s" "s_pc s 0" "s_pc s 1" "pushed s" "popped s" b] assms(1)
    by (auto simp: sys_ok_def sys_step_def)
next
  case False
  then have "t = 1" using assms(2) by simp
  then show ?thesis using spsc_consumer[of n "s_queue s" "s_pc s 0" "s_pc s 1" "pushed s" "popped s" b] assms(1)
    by (auto simp: sys_ok_def sys_step_def)
qed

lemma reach_ok:
  assumes "reach {0} {1} (mpmc_alloc n) S" "1 < n"
  shows "\<exists>s. S = Some s \<and> sys_ok n s"
  using assms(1)
proof (induction rule: reach.induct)
  case reach_new
  then show ?case using spsc_new[OF assms(2)] by (simp add: sys_ok_def sys_new_def)
next
  case (reach_push s t m v)
  then show ?case by (simp add: sys_ok_def sys_call_def spsc_call)
next
  case (reach_pop s t m)
  then show ?case by (simp add: sys_ok_def sys_call_def spsc_call)
next
  case (reach_step s t b)
  then show ?case using sys_ok_step[of n s t b] by auto
qed

lemma sys_ok_facts:
  assumes "sys_ok n s"
  shows "prefix (popped s) (pushed s)" "length (pushed s) < length (popped s) + n"
    "s_pc s 1 = Pop_End (Some v) \<Longrightarrow> popped s \<noteq> [] \<and> v = last (popped s)"
proof -
  have p: "popped s = take (length (popped s)) (pushed s)" "length (pushed s) + 1 \<le> length (popped s) + n"
    "length (popped s) \<le> length (pushed s)" "consumer_ok n (pushed s) (length (popped s)) (s_pc s 1)"
    using assms by (auto simp: sys_ok_def spsc_def)
  show "prefix (popped s) (pushed s)" using p(1) by (metis take_is_prefix)
  show "length (pushed s) < length (popped s) + n" using p(2) by simp
  assume "s_pc s 1 = Pop_End (Some v)"
  then have "popped s \<noteq> []" "v = pushed s ! (length (popped s) - 1)" using p(4) by auto
  moreover have "pushed s ! (length (popped s) - 1) = last (popped s)"
    using \<open>popped s \<noteq> []\<close> p(1) by (metis last_conv_nth length_greater_0_conv diff_less nth_take zero_less_one)
  ultimately show "popped s \<noteq> [] \<and> v = last (popped s)" by simp
qed

subsection \<open>Schedules\<close>

text \<open>A schedule: a thread calls an operation or makes its next step.\<close>

fun sys_run :: "(nat \<times> 'a pc option) list \<Rightarrow> 'a sys \<Rightarrow> 'a sys option" where
  "sys_run [] s = Some s"
| "sys_run ((t, Some pc) # xs) s = sys_run xs (sys_call t pc s)"
| "sys_run ((t, None) # xs) s = (case sys_step False t s of None \<Rightarrow> None | Some s' \<Rightarrow> sys_run xs s')"

fun schedule_ok :: "nat set \<Rightarrow> nat set \<Rightarrow> (nat \<times> 'a pc option) list \<Rightarrow> 'a sys \<Rightarrow> bool" where
  "schedule_ok P C [] s \<longleftrightarrow> True"
| "schedule_ok P C ((t, Some (Push_Load m v)) # xs) s \<longleftrightarrow> t \<in> P \<and> s_pc s t = Idle \<and> schedule_ok P C xs (sys_call t (Push_Load m v) s)"
| "schedule_ok P C ((t, Some (Pop_Load m)) # xs) s \<longleftrightarrow> t \<in> C \<and> s_pc s t = Idle \<and> schedule_ok P C xs (sys_call t (Pop_Load m) s)"
| "schedule_ok P C ((t, None) # xs) s \<longleftrightarrow> t \<in> P \<union> C \<and> (case sys_step False t s of None \<Rightarrow> True | Some s' \<Rightarrow> schedule_ok P C xs s')"
| "schedule_ok P C _ s \<longleftrightarrow> False"

lemma run_reach:
  "reach P C q0 (Some s) \<Longrightarrow> schedule_ok P C xs s \<Longrightarrow> reach P C q0 (sys_run xs s)"
proof (induction P C xs s rule: schedule_ok.induct)
  case (4 P C t xs s)
  have r: "reach P C q0 (sys_step False t s)" using 4(2,3) by (intro reach_step) auto
  then show ?case using 4 by (cases "sys_step False t s") auto
qed (auto intro: reach.intros)

definition steps :: "nat \<Rightarrow> nat \<Rightarrow> (nat \<times> 'a pc option) list" where
  "steps t k = replicate k (t, None)"

text \<open>The whole of a push and of a pop, when nothing fails.\<close>

definition whole_push :: "nat \<Rightarrow> 'a \<Rightarrow> (nat \<times> 'a pc option) list" where
  "whole_push t v = (t, Some (Push_Load Many v)) # steps t 6"

definition whole_pop :: "nat \<Rightarrow> (nat \<times> 'a pc option) list" where
  "whole_pop t = (t, Some (Pop_Load Many)) # steps t 6"

text \<open>A thread stands before its exchange while others go once around the ring.\<close>

definition pop_race :: "(nat \<times> nat pc option) list" where
  "pop_race = whole_push 0 10 @ [(1, Some (Pop_Load Many)), (1, None), (1, None)]
     @ whole_pop 2 @ whole_push 0 11 @ whole_pop 2 @ [(1, None)]"

definition push_race :: "(nat \<times> nat pc option) list" where
  "push_race = [(2, Some (Push_Load Many 12)), (2, None), (2, None)]
     @ whole_push 0 10 @ whole_pop 1 @ whole_push 0 11 @ steps 2 4"

lemmas race_defs = pop_race_def push_race_def whole_push_def whole_pop_def steps_def numeral_eq_Suc

lemmas queue_steps = sys_step_def sys_call_def push_check_def push_claim_def push_build_def push_commit_def
  pop_check_def pop_claim_def pop_move_def pop_commit_def mpmc_next_def new_pushed_def new_popped_def

lemma pop_race_run:
  "\<exists>s. sys_run pop_race (sys_new (mpmc_alloc 2)) = Some s \<and> popped s = pushed s \<and> sys_step False 1 s = None"
  by (simp add: race_defs queue_steps sys_new_def mpmc_alloc_def)

lemma push_race_run:
  "\<exists>s. sys_run push_race (sys_new (mpmc_alloc 2)) = Some s \<and> (\<forall>t. s_pc s t = Idle) \<and> mpmc_empty (s_queue s)
     \<and> length (pushed s) = length (popped s) + 2"
  by (simp add: race_defs queue_steps sys_new_def mpmc_alloc_def mpmc_empty_def)

lemma races_ok:
  "schedule_ok {0} {1, 2} pop_race (sys_new (mpmc_alloc 2))" "schedule_ok {0, 2} {1} push_race (sys_new (mpmc_alloc 2))"
  by (simp_all add: race_defs queue_steps sys_new_def mpmc_alloc_def)

text \<open>C11: With one producer and one consumer, whichever of the two versions of each operation they call and
  however their atomic steps interleave (exchanges failing for no reason included), no slot without an
  object is touched and the queue is a FIFO: the values taken are a prefix of the values pushed, a pop
  returns the value it took, \<open>pop\<close> answers empty only when everything pushed has been taken, \<open>push\<close> answers full
  only when \<open>size\<close> values (one may just be leaving) are in the queue, and never more are.\<close>

theorem mpmc_spsc_fifo:
  assumes "reach {0} {1} (mpmc_alloc n) S" "1 < n"
  shows "\<exists>s. S = Some s \<and> prefix (popped s) (pushed s) \<and> length (pushed s) < length (popped s) + n
    \<and> (\<forall>v. s_pc s 1 = Pop_End (Some v) \<longrightarrow> popped s \<noteq> [] \<and> v = last (popped s))
    \<and> (\<forall>b. \<exists>s'. sys_step b 1 s = Some s' \<and> (s_pc s' 1 = Pop_End None \<longrightarrow> popped s = pushed s))
    \<and> (\<forall>b. \<exists>s'. sys_step b 0 s = Some s' \<and> (s_pc s' 0 = Push_End False \<longrightarrow> length (popped s) + n \<le> length (pushed s) + 2))"
proof -
  obtain s where s: "S = Some s" "sys_ok n s" using reach_ok[OF assms] by blast
  have u: "uncommitted (s_pc s 1) \<le> 1" by (cases "s_pc s 1") auto
  have "\<exists>s'. sys_step b 1 s = Some s' \<and> (s_pc s' 1 = Pop_End None \<longrightarrow> popped s = pushed s)" for b
    using sys_ok_step[OF s(2), of 1 b] by auto
  moreover have "\<exists>s'. sys_step b 0 s = Some s' \<and> (s_pc s' 0 = Push_End False \<longrightarrow> length (popped s) + n \<le> length (pushed s) + 2)" for b
    using sys_ok_step[OF s(2), of 0 b] u by fastforce
  ultimately show ?thesis using s sys_ok_facts[OF s(2)] by blast
qed

theorem mpmc_spsc_fifo_witness:
  "\<exists>s. reach {0} {1} (mpmc_alloc 2) (Some s) \<and> popped s = [7 :: nat] \<and> prefix (popped s) (pushed s)
    \<and> s_pc s 1 = Pop_End (Some 7) \<and> 7 = last (popped s)"
proof -
  let ?xs = "whole_push 0 (7 :: nat) @ (1, Some (Pop_Load Many)) # steps 1 5"
  have ok: "schedule_ok {0} {1} ?xs (sys_new (mpmc_alloc 2))"
    by (simp add: race_defs queue_steps sys_new_def mpmc_alloc_def)
  obtain s where s: "sys_run ?xs (sys_new (mpmc_alloc 2)) = Some s" "popped s = [7]" "s_pc s 1 = Pop_End (Some 7)"
    by (simp add: race_defs queue_steps sys_new_def mpmc_alloc_def)
  have "reach {0} {1} (mpmc_alloc 2) (Some s)" using run_reach[OF reach_new ok] s(1) by simp
  then show ?thesis using mpmc_spsc_fifo[of 2 "Some s"] s(2,3) by auto
qed


end
