(* ===== verification/Event_Loop.thy ===== *)
theory Event_Loop
  imports Ev_Loop
begin

text \<open>
  The event loop of the servers (\<open>core/loop.cpp\<close>, \<open>core/loop.h\<close>, \<open>core/io.h\<close>): a table of slots over
  libev. An \<open>IO\<close> is a descriptor with the functions to call when it is ready; while it is in the
  loop its \<open>_index\<close> is the number of its slot, a slot holds the libev watcher and a weak pointer to
  the \<open>IO\<close>, and the numbers of the free slots wait in a queue.

  The \<open>Loop\<close> object and the \<open>IO\<close> objects are part of the process a libev callback can change, which
  is the field \<open>env\<close> of the libev loop. An \<open>IO\<close> is identified by the address of the control block of
  its \<open>shared_ptr\<close>, which is what \<open>owner_before\<close> compares and is never null.
\<close>

subsection \<open>The state\<close>

type_synonym io_id = nat
type_synonym thread_id = nat

record io_obj =
  io_fd :: int
  io_index :: int
  io_events :: mask32
  io_revents :: mask32
  io_own_fd :: bool
  io_live :: bool

definition io_default :: io_obj where
  "io_default = \<lparr>io_fd = -1, io_index = -1, io_events = 0, io_revents = 0, io_own_fd = True, io_live = True\<rparr>"

definition io_new :: "int \<Rightarrow> mask32 \<Rightarrow> bool \<Rightarrow> io_obj" where
  "io_new fd events own_fd =
     \<lparr>io_fd = fd, io_index = -1, io_events = events, io_revents = 0, io_own_fd = own_fd, io_live = True\<rparr>"

record smart_ev_io =
  eio :: wid
  sio :: "io_id option"

record process =
  lp_owner :: thread_id
  lp_async :: wid
  lp_quit :: bool
  lp_ios :: "smart_ev_io list"
  lp_idle :: "nat list"
  io_objs :: "io_id \<Rightarrow> io_obj"

text \<open>A loop whose \<open>_loop\<close> is null is the process alone.\<close>

type_synonym 'u smart_loop = "'u process_scheme + 'u process_scheme ev_loop"

definition upd_io :: "io_id \<Rightarrow> (io_obj \<Rightarrow> io_obj) \<Rightarrow> 'u process_scheme \<Rightarrow> 'u process_scheme" where
  "upd_io a f P = P\<lparr>io_objs := (io_objs P)(a := f (io_objs P a))\<rparr>"

definition set_index :: "io_id \<Rightarrow> int \<Rightarrow> 'u process_scheme \<Rightarrow> 'u process_scheme" where
  "set_index a i = upd_io a (io_index_update (\<lambda>_. i))"

definition set_sio :: "nat \<Rightarrow> io_id option \<Rightarrow> 'u process_scheme \<Rightarrow> 'u process_scheme" where
  "set_sio i x P = P\<lparr>lp_ios := (lp_ios P)[i := (lp_ios P ! i)\<lparr>sio := x\<rparr>]\<rparr>"

definition upd_env :: "('e \<Rightarrow> 'e) \<Rightarrow> 'e ev_loop \<Rightarrow> 'e ev_loop" where
  "upd_env f l = l\<lparr>env := f (env l)\<rparr>"

text \<open>The destructor of an \<open>IO\<close>; \<open>close_fd\<close> is \<open>rpc::close\<close>.\<close>

definition io_destroy :: "(int \<Rightarrow> 'u process_scheme \<Rightarrow> 'u process_scheme) \<Rightarrow> io_id \<Rightarrow> 'u process_scheme \<Rightarrow> 'u process_scheme" where
  "io_destroy close_fd a P =
     (let o1 = io_objs P a;
          P1 = (if io_own_fd o1 \<and> io_fd o1 > 0 then upd_io a (io_fd_update (\<lambda>_. -1)) (close_fd (io_fd o1) P) else P)
      in upd_io a (io_live_update (\<lambda>_. False)) P1)"

subsection \<open>Callbacks\<close>

text \<open>The functions \<open>_read_func\<close> and \<open>_write_func\<close> of the \<open>IO\<close> objects.\<close>

datatype io_call = Read_Func | Write_Func

type_synonym 'u io_funcs = "io_id \<Rightarrow> io_call \<Rightarrow> 'u process_scheme ev_loop \<Rightarrow> 'u process_scheme ev_loop option"

definition handle_event :: "'u io_funcs \<Rightarrow> io_id \<Rightarrow> mask32 \<Rightarrow> 'u process_scheme ev_loop \<Rightarrow> 'u process_scheme ev_loop option" where
  "handle_event h a revents l = do {
     l1 \<leftarrow> (if revents AND EV_READ \<noteq> 0 then h a Read_Func l else Some l);
     if revents AND EV_WRITE \<noteq> 0 then h a Write_Func l1 else Some l1 }"

definition sio_lock :: "smart_ev_io \<Rightarrow> 'u process_scheme \<Rightarrow> io_id option" where
  "sio_lock s P = (case sio s of None \<Rightarrow> None | Some a \<Rightarrow> if io_live (io_objs P a) then Some a else None)"

definition ev_io_common_cb :: "'u io_funcs \<Rightarrow> smart_ev_io \<Rightarrow> mask32 \<Rightarrow> 'u process_scheme ev_loop \<Rightarrow> 'u process_scheme ev_loop option" where
  "ev_io_common_cb h one_io revents l =
     (case sio_lock one_io (env l) of None \<Rightarrow> Some l | Some a \<Rightarrow> handle_event h a revents l)"

definition ev_async_cb :: "'u process_scheme ev_loop \<Rightarrow> 'u process_scheme ev_loop option" where
  "ev_async_cb l = Some (ev_break EVBREAK_ONE l)"

text \<open>The callback libev finds in a watcher: the watcher is the first member of its slot. A watcher
  the loop never initialised has none.\<close>

definition find_slot :: "wid \<Rightarrow> 'u process_scheme \<Rightarrow> smart_ev_io option" where
  "find_slot w P = find (\<lambda>s. eio s = w) (lp_ios P)"

definition loop_callbacks :: "'u io_funcs \<Rightarrow> 'u process_scheme callbacks" where
  "loop_callbacks h w revents l =
     (if w = lp_async (env l) then ev_async_cb l
      else case find_slot w (env l) of None \<Rightarrow> None | Some s \<Rightarrow> ev_io_common_cb h s revents l)"

subsection \<open>Operations\<close>

definition loop_new :: "thread_id \<Rightarrow> wid \<Rightarrow> (io_id \<Rightarrow> io_obj) \<Rightarrow> process" where
  "loop_new self async objs =
     \<lparr>lp_owner = self, lp_async = async, lp_quit = False, lp_ios = [], lp_idle = [], io_objs = objs\<rparr>"

text \<open>\<open>mem\<close> is the memory the libev loop is made in; \<open>ev_loop_new\<close> is taken to succeed.\<close>

definition loop_init_io :: "'u process_scheme sys \<Rightarrow> 'u process_scheme ev_loop \<Rightarrow> 'u smart_loop \<Rightarrow> ('u smart_loop \<times> bool) option" where
  "loop_init_io sys mem s =
     (case s of
        Inr l \<Rightarrow> Some (Inr l, True)
      | Inl P \<Rightarrow>
          (let l1 = ev_loop_new sys (mem\<lparr>env := P\<rparr>);
               l2 = ev_init (lp_async P) l1
           in map_option (\<lambda>l3. (Inr l3, True)) (ev_async_start sys (lp_async P) l2)))"

definition loop_loop :: "'u process_scheme sys \<Rightarrow> 'u io_funcs \<Rightarrow> 'u smart_loop \<Rightarrow> 'u smart_loop option" where
  "loop_loop sys h s =
     (case s of
        Inl P \<Rightarrow> Some (Inl (P\<lparr>lp_quit := False\<rparr>))
      | Inr l \<Rightarrow> map_option (\<lambda>(_, l1). Inr l1) (ev_run sys (loop_callbacks h) 0 (upd_env (lp_quit_update (\<lambda>_. False)) l)))"

definition loop_pending :: "'u process_scheme sys \<Rightarrow> 'u smart_loop \<Rightarrow> 'u smart_loop option" where
  "loop_pending sys s = (case s of Inl P \<Rightarrow> Some (Inl P) | Inr l \<Rightarrow> map_option Inr (ev_suspend sys l))"

definition loop_resume :: "'u process_scheme sys \<Rightarrow> 'u smart_loop \<Rightarrow> 'u smart_loop option" where
  "loop_resume sys s = (case s of Inl P \<Rightarrow> Some (Inl P) | Inr l \<Rightarrow> map_option Inr (ev_resume sys l))"

definition loop_quit :: "'u process_scheme sys \<Rightarrow> thread_id \<Rightarrow> 'u smart_loop \<Rightarrow> 'u smart_loop" where
  "loop_quit sys self s =
     (case s of
        Inl P \<Rightarrow> Inl (P\<lparr>lp_quit := True\<rparr>)
      | Inr l \<Rightarrow>
          (let l1 = upd_env (lp_quit_update (\<lambda>_. True)) l in
           Inr (if self = lp_owner (env l1) then ev_break EVBREAK_ONE l1
                else ev_async_send sys (lp_async (env l1)) l1)))"

definition is_going_to_quit :: "'u smart_loop \<Rightarrow> bool" where
  "is_going_to_quit s = (case s of Inl P \<Rightarrow> lp_quit P | Inr l \<Rightarrow> lp_quit (env l))"

definition ev_io_init :: "wid \<Rightarrow> int \<Rightarrow> mask32 \<Rightarrow> 'e ev_loop \<Rightarrow> 'e ev_loop" where
  "ev_io_init w fd events l = ev_io_set w fd events (ev_init w l)"

text \<open>The slot for a new \<open>IO\<close>: a new one at the end, whose memory is at \<open>p\<close>, or the oldest free one.\<close>

definition io_slot :: "wid \<Rightarrow> 'u process_scheme \<Rightarrow> nat \<times> 'u process_scheme" where
  "io_slot p P =
     (case lp_idle P of
        [] \<Rightarrow> (length (lp_ios P), P\<lparr>lp_ios := lp_ios P @ [\<lparr>eio = p, sio = None\<rparr>]\<rparr>)
      | i # idle \<Rightarrow> (i, P\<lparr>lp_idle := idle\<rparr>))"

definition add_io :: "wid \<Rightarrow> bool \<Rightarrow> io_id option \<Rightarrow> 'u process_scheme ev_loop \<Rightarrow> ('u process_scheme ev_loop \<times> bool) option" where
  "add_io p start io l =
     (case io of
        None \<Rightarrow> Some (l, True)
      | Some a \<Rightarrow>
          if io_index (io_objs (env l) a) \<ge> 0 then Some (l, True)
          else
            (let (i, P) = io_slot p (env l); P1 = set_index a (int i) P in
             if length (lp_ios P1) \<le> i then None
             else
               (let w = eio (lp_ios P1 ! i);
                    l1 = l\<lparr>env := set_sio i (Some a) P1\<rparr>;
                    l2 = ev_io_init w (io_fd (io_objs P1 a)) (io_events (io_objs P1 a)) l1
                in map_option (\<lambda>l3. (l3, True)) (if start then ev_io_start w l2 else Some l2))))"

text \<open>The order \<open>owner_before\<close> is that of the addresses of the control blocks, null when reset.\<close>

definition owner_key :: "io_id option \<Rightarrow> nat" where
  "owner_key x = (case x of None \<Rightarrow> 0 | Some a \<Rightarrow> a)"

definition owner_before :: "io_id option \<Rightarrow> io_id option \<Rightarrow> bool" where
  "owner_before x y \<longleftrightarrow> owner_key x < owner_key y"

definition remove_io :: "io_id option \<Rightarrow> 'u process_scheme ev_loop \<Rightarrow> ('u process_scheme ev_loop \<times> bool) option" where
  "remove_io io l =
     (case io of
        None \<Rightarrow> Some (l, True)
      | Some a \<Rightarrow>
          (let idx = io_index (io_objs (env l) a); i = nat idx in
           if idx < 0 \<or> length (lp_ios (env l)) \<le> i then Some (l, True)
           else
             (let one_io = lp_ios (env l) ! i in
              if owner_before (sio one_io) (Some a) then Some (l, False)
              else do {
                l1 \<leftarrow> ev_io_stop (eio one_io) l;
                Some (upd_env (\<lambda>P. set_sio i None (set_index a (-1) (P\<lparr>lp_idle := lp_idle P @ [i]\<rparr>))) l1, True) })))"

definition stop_io :: "io_id option \<Rightarrow> 'u process_scheme ev_loop \<Rightarrow> ('u process_scheme ev_loop \<times> bool) option" where
  "stop_io io l =
     (case io of
        None \<Rightarrow> Some (l, True)
      | Some a \<Rightarrow>
          (let idx = io_index (io_objs (env l) a); i = nat idx in
           if idx < 0 then Some (l, True)
           else if length (lp_ios (env l)) \<le> i then None
           else map_option (\<lambda>l1. (l1, True)) (ev_io_stop (eio (lp_ios (env l) ! i)) l)))"

definition start_io :: "io_id option \<Rightarrow> 'u process_scheme ev_loop \<Rightarrow> ('u process_scheme ev_loop \<times> bool) option" where
  "start_io io l =
     (case io of
        None \<Rightarrow> Some (l, True)
      | Some a \<Rightarrow>
          (let idx = io_index (io_objs (env l) a); i = nat idx in
           if idx < 0 then Some (l, True)
           else if length (lp_ios (env l)) \<le> i then None
           else map_option (\<lambda>l1. (l1, True)) (ev_io_start (eio (lp_ios (env l) ! i)) l)))"

text \<open>The test for \<open>_loop == nullptr\<close> with which each of these begins.\<close>

definition with_loop ::
  "('u process_scheme ev_loop \<Rightarrow> ('u process_scheme ev_loop \<times> bool) option) \<Rightarrow> 'u smart_loop \<Rightarrow> ('u smart_loop \<times> bool) option" where
  "with_loop f s =
     (case s of Inl P \<Rightarrow> Some (Inl P, False) | Inr l \<Rightarrow> map_option (\<lambda>(l1, ok). (Inr l1, ok)) (f l))"

text \<open>The destructor stops the watchers whose \<open>IO\<close> is still there and destroys the libev loop.\<close>

fun stop_ios :: "smart_ev_io list \<Rightarrow> 'u process_scheme ev_loop \<Rightarrow> 'u process_scheme ev_loop option" where
  "stop_ios [] l = Some l"
| "stop_ios (s # ss) l =
     Option.bind (if sio_lock s (env l) \<noteq> None then ev_io_stop (eio s) l else Some l) (stop_ios ss)"

definition loop_destroy :: "'u process_scheme sys \<Rightarrow> 'u io_funcs \<Rightarrow> 'u smart_loop \<Rightarrow> 'u process_scheme option" where
  "loop_destroy sys h s =
     (case s of
        Inl P \<Rightarrow> Some P
      | Inr l \<Rightarrow> do {
          l1 \<leftarrow> stop_ios (lp_ios (env l)) l;
          l2 \<leftarrow> ev_loop_destroy sys (loop_callbacks h) l1;
          Some (env l2) })"

subsection \<open>libev operations seen from the loop\<close>

lemma fd_inv_env [simp]: "fd_inv j (l\<lparr>env := e\<rparr>) = fd_inv j l"
proof -
  have "pend_ok (k\<lparr>env := x\<rparr>)" if "pend_ok k" for k :: "'a ev_loop" and x
    by (rule pend_ok_cong(1)[OF that]) (simp_all add: ABSPRI_def)
  moreover have "io_from j (k\<lparr>env := x\<rparr>)" if "io_from j k" for k :: "'a ev_loop" and x
    by (rule io_from_cong[OF that]) simp_all
  ultimately have "fd_inv j (k\<lparr>env := x\<rparr>)" if "fd_inv j k" for k :: "'a ev_loop" and x
    using that by (simp add: fd_inv_def)
  from this[of l e] this[of "l\<lparr>env := e\<rparr>" "env l"] show ?thesis by auto
qed

lemma fd_inv_upd_env [simp]: "fd_inv j (upd_env f l) = fd_inv j l"
  by (simp add: upd_env_def)

text \<open>Initialising a watcher that is neither active nor pending disturbs nothing.\<close>

lemma ev_io_init_fields:
  "w_kind (ev_io_init w fd e l) = w_kind l" "w_active (ev_io_init w fd e l) = (w_active l)(w := 0)"
  "w_pending (ev_io_init w fd e l) = (w_pending l)(w := 0)" "w_fd (ev_io_init w fd e l) = (w_fd l)(w := fd)"
  "w_events (ev_io_init w fd e l) = (w_events l)(w := e OR EV__IOFDSET)" "env (ev_io_init w fd e l) = env l"
  "pendings (ev_io_init w fd e l) = pendings l"
  by (simp_all add: ev_io_init_def ev_io_set_def ev_init_def)

lemma ev_io_init_inv:
  assumes inv: "fd_inv j l" and w: "w_active l w = 0" "w_pending l w = 0"
  shows "fd_inv j (ev_io_init w fd e l)"
proof -
  let ?l = "ev_io_init w fd e l"
  have io: "io_from j l" and pend: "pend_ok l" using inv by (auto simp: fd_inv_def)
  have f: "anfds ?l = anfds l" "fdchanges ?l = fdchanges l" "w_priority ?l x = (if x = w then 0 else w_priority l x)" for x
    by (simp_all add: ev_io_init_def ev_io_set_def ev_init_def)
  note f = f ev_io_init_fields
  have "pend_ok ?l"
    by (rule pend_ok_cong(1)[OF pend]) (use w in \<open>auto simp: f ABSPRI_def fun_eq_iff\<close>)
  moreover have "anfd_ok ?l C n a" if a: "anfd_ok l C n a" for C n a
  proof -
    have "w \<notin> set (anfd_head a)" using a w by (auto simp: anfd_ok_def)
    then have "wanted_events ?l (anfd_head a) = wanted_events l (anfd_head a)"
      by (intro wanted_events_cong) (auto simp: f)
    then show ?thesis using a \<open>w \<notin> set (anfd_head a)\<close> by (auto simp: anfd_ok_def f)
  qed
  moreover have "io_active_ok ?l x" if "io_active_ok l x" "x \<noteq> w" for x
    using that by (simp add: io_active_ok_def f prio_ok_def ABSPRI_def)
  ultimately show ?thesis using io by (auto simp: fd_inv_def io_from_def f)
qed

lemma ev_io_start_fields:
  assumes "ev_io_start w l = Some l'"
  shows "env l' = env l" "w_kind l' = w_kind l" "w_fd l' = w_fd l" "w_pending l' = w_pending l"
    "x \<noteq> w \<Longrightarrow> w_active l' x = w_active l x" "x \<noteq> w \<Longrightarrow> w_events l' x = w_events l x"
    "legal_events (w_events l w) \<Longrightarrow> legal_events (w_events l' w)"
proof -
  have *: "env l' = env l \<and> w_kind l' = w_kind l \<and> w_fd l' = w_fd l \<and> w_pending l' = w_pending l
    \<and> (\<forall>x. x \<noteq> w \<longrightarrow> w_active l' x = w_active l x) \<and> (w_events l' = w_events l \<or> w_events l' = (w_events l)(w := w_events l w AND NOT EV__IOFDSET))"
    using assms
    by (auto simp: ev_io_start_def Let_def fd_change_def set_anfd_def ev_start_def ev_ref_def set_active_def
      pri_adjust_def split: if_splits option.splits)
  then show "env l' = env l" "w_kind l' = w_kind l" "w_fd l' = w_fd l" "w_pending l' = w_pending l"
    "x \<noteq> w \<Longrightarrow> w_active l' x = w_active l x" "x \<noteq> w \<Longrightarrow> w_events l' x = w_events l x" by auto
  have "legal_events (e AND NOT EV__IOFDSET)" if e: "legal_events e" for e
  proof -
    have "(e AND NOT EV__IOFDSET) AND m = (e AND m) AND NOT EV__IOFDSET" for m :: mask32
      by (simp add: and.commute and.left_commute)
    then show ?thesis using e unfolding legal_events_def by simp
  qed
  with * show "legal_events (w_events l w) \<Longrightarrow> legal_events (w_events l' w)" by auto
qed

lemma ev_io_stop_fields:
  assumes "ev_io_stop w l = Some l'"
  shows "env l' = env l" "w_kind l' = w_kind l" "w_fd l' = w_fd l" "w_events l' = w_events l"
    "x \<noteq> w \<Longrightarrow> w_active l' x = w_active l x" "x \<noteq> w \<Longrightarrow> w_pending l' x = w_pending l x"
  using assms
  by (auto simp: ev_io_stop_def Let_def fd_change_def set_anfd_def ev_stop_def ev_unref_def set_active_def
      clear_pending_def set_pending_def bind_eq_Some_conv split: if_splits option.splits)

lemma ev_io_stop_quiet:
  assumes "fd_inv 0 l" "w_kind l w = Ev_Io"
  shows "\<exists>l'. ev_io_stop w l = Some l' \<and> fd_inv 0 l' \<and> w_active l' w = 0 \<and> w_pending l' w = 0"
proof (cases "w_active l w = 0")
  case True
  then show ?thesis using ev_io_stop_inactive[OF assms(1) True] by (auto simp: same_but_pendingD)
next
  case False
  then show ?thesis using ev_io_stop_active[OF assms False] by auto
qed

lemma ev_io_start_runs:
  assumes "fd_inv 0 l" "w_kind l w = Ev_Io" "0 \<le> w_fd l w" "legal_events (w_events l w)"
  shows "\<exists>l'. ev_io_start w l = Some l' \<and> fd_inv 0 l' \<and> w_active l' w \<noteq> 0"
proof (cases "w_active l w = 0")
  case True
  then show ?thesis using ev_io_start_correct[OF assms(1,2) True assms(3,4)] by auto
next
  case False
  then show ?thesis using assms(1) by (simp add: ev_io_start_def)
qed

subsection \<open>The invariant\<close>

text \<open>
  The free slots are exactly those in the queue, their watchers are asleep; a taken slot knows an
  \<open>IO\<close> that knows its number, and its watcher can be started.
\<close>

definition slot_watchers :: "'u process_scheme \<Rightarrow> wid set" where
  "slot_watchers P = eio ` set (lp_ios P)"

definition slots_distinct :: "'u process_scheme ev_loop \<Rightarrow> bool" where
  "slots_distinct l \<longleftrightarrow> distinct (map eio (lp_ios (env l))) \<and> lp_async (env l) \<notin> slot_watchers (env l)
   \<and> pipe_w \<notin> slot_watchers (env l) \<and> (\<forall>w \<in> slot_watchers (env l). w_kind l w = Ev_Io)"

definition slot_asleep :: "'u process_scheme ev_loop \<Rightarrow> nat \<Rightarrow> bool" where
  "slot_asleep l i \<longleftrightarrow> w_active l (eio (lp_ios (env l) ! i)) = 0 \<and> w_pending l (eio (lp_ios (env l) ! i)) = 0"

definition slot_taken :: "'u process_scheme ev_loop \<Rightarrow> nat \<Rightarrow> io_id \<Rightarrow> bool" where
  "slot_taken l i a \<longleftrightarrow> a \<noteq> 0 \<and> io_index (io_objs (env l) a) = int i
   \<and> 0 \<le> w_fd l (eio (lp_ios (env l) ! i)) \<and> legal_events (w_events l (eio (lp_ios (env l) ! i)))"

definition idle_ok :: "'u process_scheme \<Rightarrow> bool" where
  "idle_ok P \<longleftrightarrow> distinct (lp_idle P)
   \<and> (\<forall>i. i \<in> set (lp_idle P) \<longleftrightarrow> i < length (lp_ios P) \<and> sio (lp_ios P ! i) = None)"

definition slots_ok :: "'u process_scheme ev_loop \<Rightarrow> bool" where
  "slots_ok l \<longleftrightarrow> fd_inv 0 l \<and> slots_distinct l \<and> idle_ok (env l)
   \<and> (\<forall>i < length (lp_ios (env l)). case sio (lp_ios (env l) ! i) of None \<Rightarrow> slot_asleep l i | Some a \<Rightarrow> slot_taken l i a)"

text \<open>An \<open>IO\<close> that this loop can be asked about: out of any loop, or in its slot of this one.\<close>

definition io_mine :: "'u process_scheme \<Rightarrow> io_id \<Rightarrow> bool" where
  "io_mine P a \<longleftrightarrow> io_index (io_objs P a) < 0
     \<or> nat (io_index (io_objs P a)) < length (lp_ios P) \<and> sio (lp_ios P ! nat (io_index (io_objs P a))) = Some a"

definition io_valid :: "'u process_scheme \<Rightarrow> io_id \<Rightarrow> bool" where
  "io_valid P a \<longleftrightarrow> a \<noteq> 0 \<and> 0 \<le> io_fd (io_objs P a) \<and> legal_events (io_events (io_objs P a) OR EV__IOFDSET) \<and> io_mine P a"

text \<open>Fresh zeroed memory for a slot.\<close>

definition slot_fresh :: "'u process_scheme ev_loop \<Rightarrow> wid \<Rightarrow> bool" where
  "slot_fresh l p \<longleftrightarrow> w_kind l p = Ev_Io \<and> w_active l p = 0 \<and> w_pending l p = 0 \<and> p \<noteq> pipe_w
   \<and> p \<noteq> lp_async (env l) \<and> p \<notin> slot_watchers (env l)"

lemma slots_okD:
  assumes "slots_ok l"
  shows "fd_inv 0 l" "slots_distinct l" "idle_ok (env l)"
    "i < length (lp_ios (env l)) \<Longrightarrow> sio (lp_ios (env l) ! i) = None \<Longrightarrow> slot_asleep l i"
    "i < length (lp_ios (env l)) \<Longrightarrow> sio (lp_ios (env l) ! i) = Some a \<Longrightarrow> slot_taken l i a"
    "i < length (lp_ios (env l)) \<Longrightarrow> w_kind l (eio (lp_ios (env l) ! i)) = Ev_Io"
  using assms by (auto simp: slots_ok_def slots_distinct_def slot_watchers_def split: option.splits)

lemma slot_inj:
  assumes "slots_ok l" "i < length (lp_ios (env l))" "k < length (lp_ios (env l))"
  shows "eio (lp_ios (env l) ! i) = eio (lp_ios (env l) ! k) \<longleftrightarrow> i = k"
  using slots_okD(2)[OF assms(1)] assms(2,3) by (auto simp: slots_distinct_def distinct_conv_nth)

text \<open>What an operation on the watcher of slot \<open>i\<close> leaves alone.\<close>

definition slot_frame :: "wid \<Rightarrow> 'u process_scheme ev_loop \<Rightarrow> 'u process_scheme ev_loop \<Rightarrow> bool" where
  "slot_frame w l l' \<longleftrightarrow> w_kind l' = w_kind l
   \<and> (\<forall>x. x \<noteq> w \<longrightarrow> w_active l' x = w_active l x \<and> w_pending l' x = w_pending l x \<and> w_fd l' x = w_fd l x \<and> w_events l' x = w_events l x)"

lemma slot_frame_trans: "slot_frame w a b \<Longrightarrow> slot_frame w b c \<Longrightarrow> slot_frame w a c"
  by (simp add: slot_frame_def)

lemma slot_frame_start: "ev_io_start w l = Some l' \<Longrightarrow> slot_frame w l l'"
  by (auto simp: slot_frame_def dest: ev_io_start_fields)

lemma slot_frame_stop: "ev_io_stop w l = Some l' \<Longrightarrow> slot_frame w l l'"
  by (auto simp: slot_frame_def dest: ev_io_stop_fields)

lemma slot_frame_init: "slot_frame w l (ev_io_init w fd e l)"
  by (simp add: slot_frame_def ev_io_init_fields)

lemma slot_frame_env: "slot_frame w l (l\<lparr>env := e\<rparr>)"
  by (simp add: slot_frame_def)

text \<open>
  Every operation changes one slot: the rest of the table, the queue of free slots and the objects
  are related by the following, from which the invariant of the new state follows.
\<close>

lemma slots_ok_change:
  assumes ok: "slots_ok l" and fr: "slot_frame (eio (lp_ios (env l') ! i)) l l'" and inv: "fd_inv 0 l'"
    and i: "i < length (lp_ios (env l'))" and dist: "slots_distinct l'" and idle: "idle_ok (env l')"
    and n: "length (lp_ios (env l)) \<le> length (lp_ios (env l'))" "length (lp_ios (env l')) \<le> Suc (length (lp_ios (env l)))"
    and new: "length (lp_ios (env l)) < length (lp_ios (env l')) \<Longrightarrow> i = length (lp_ios (env l))"
    and same: "\<And>k. k < length (lp_ios (env l)) \<Longrightarrow> k \<noteq> i \<Longrightarrow> lp_ios (env l') ! k = lp_ios (env l) ! k"
    and objs: "\<And>k a. k < length (lp_ios (env l)) \<Longrightarrow> k \<noteq> i \<Longrightarrow> sio (lp_ios (env l) ! k) = Some a \<Longrightarrow>
      io_index (io_objs (env l') a) = io_index (io_objs (env l) a)"
    and filled: "case sio (lp_ios (env l') ! i) of None \<Rightarrow> slot_asleep l' i | Some a \<Rightarrow> slot_taken l' i a"
  shows "slots_ok l'"
  unfolding slots_ok_def
proof (intro conjI allI impI inv dist idle)
  fix k assume k: "k < length (lp_ios (env l'))"
  show "case sio (lp_ios (env l') ! k) of None \<Rightarrow> slot_asleep l' k | Some a \<Rightarrow> slot_taken l' k a"
  proof (cases "k = i")
    case True
    show ?thesis unfolding True by (rule filled)
  next
    case False
    then have k0: "k < length (lp_ios (env l))" using k n new by (metis le_neq_implies_less less_SucE order_less_le_trans)
    note s = same[OF k0 False]
    have "eio (lp_ios (env l') ! k) \<noteq> eio (lp_ios (env l') ! i)"
      using dist k i False by (auto simp: slots_distinct_def distinct_conv_nth)
    then have f: "w_active l' (eio (lp_ios (env l') ! k)) = w_active l (eio (lp_ios (env l) ! k))"
      "w_pending l' (eio (lp_ios (env l') ! k)) = w_pending l (eio (lp_ios (env l) ! k))"
      "w_fd l' (eio (lp_ios (env l') ! k)) = w_fd l (eio (lp_ios (env l) ! k))"
      "w_events l' (eio (lp_ios (env l') ! k)) = w_events l (eio (lp_ios (env l) ! k))"
      using fr by (simp_all add: slot_frame_def s)
    show ?thesis
    proof (cases "sio (lp_ios (env l) ! k)")
      case None
      then show ?thesis using slots_okD(4)[OF ok k0 None] f by (simp add: s slot_asleep_def)
    next
      case (Some a)
      then show ?thesis using slots_okD(5)[OF ok k0 Some] f objs[OF k0 False Some] by (simp add: s slot_taken_def)
    qed
  qed
qed

lemma remove_io_correct:
  assumes ok: "slots_ok l" and i: "io_index (io_objs (env l) a) = int i" "i < length (lp_ios (env l))"
    and b: "sio (lp_ios (env l) ! i) = Some b" "a \<le> b"
  shows "\<exists>l'. remove_io (Some a) l = Some (l', True) \<and> slots_ok l'
    \<and> env l' = set_sio i None (set_index a (-1) (env l\<lparr>lp_idle := lp_idle (env l) @ [i]\<rparr>))
    \<and> slot_asleep l' i \<and> slot_frame (eio (lp_ios (env l) ! i)) l l'"
proof -
  let ?P = "env l" and ?w = "eio (lp_ios (env l) ! i)"
  obtain l1 where l1: "ev_io_stop ?w l = Some l1" "fd_inv 0 l1" "w_active l1 ?w = 0" "w_pending l1 ?w = 0"
    using ev_io_stop_quiet[OF slots_okD(1)[OF ok] slots_okD(6)[OF ok i(2)]] by blast
  note f = ev_io_stop_fields[OF l1(1)]
  define l' where "l' = upd_env (\<lambda>P. set_sio i None (set_index a (-1) (P\<lparr>lp_idle := lp_idle P @ [i]\<rparr>))) l1"
  have run: "remove_io (Some a) l = Some (l', True)"
    using i b l1(1) by (simp add: remove_io_def Let_def owner_before_def owner_key_def l'_def)
  have e: "env l' = set_sio i None (set_index a (-1) (?P\<lparr>lp_idle := lp_idle ?P @ [i]\<rparr>))"
    by (simp add: l'_def upd_env_def f)
  have ios: "lp_ios (env l') = (lp_ios ?P)[i := (lp_ios ?P ! i)\<lparr>sio := None\<rparr>]"
    and q: "lp_idle (env l') = lp_idle ?P @ [i]" "lp_async (env l') = lp_async ?P"
    and ob: "io_index (io_objs (env l') c) = (if c = a then -1 else io_index (io_objs ?P c))" for c
    by (simp_all add: e set_sio_def set_index_def upd_io_def)
  have eios: "map eio (lp_ios (env l')) = map eio (lp_ios ?P)"
    using i(2) by (intro nth_equalityI) (auto simp: ios nth_list_update)
  have w: "eio (lp_ios (env l') ! i) = ?w" using i(2) by (simp add: ios)
  have frame: "slot_frame ?w l l'"
    using slot_frame_stop[OF l1(1)] by (simp add: l'_def upd_env_def slot_frame_def)
  have sleep: "slot_asleep l' i"
    using l1(3,4) w by (simp add: slot_asleep_def) (simp add: l'_def upd_env_def)
  have sw: "slot_watchers (env l') = slot_watchers ?P"
    unfolding slot_watchers_def set_map[symmetric] eios ..
  have dist: "slots_distinct l'"
    using slots_okD(2)[OF ok] frame by (simp add: slots_distinct_def eios sw q slot_frame_def)
  have idle0: "idle_ok ?P" by (rule slots_okD(3)[OF ok])
  have "i \<notin> set (lp_idle ?P)" using idle0 b(1) by (simp add: idle_ok_def)
  then have idle: "idle_ok (env l')"
    using idle0 i(2) by (auto simp: idle_ok_def q ios nth_list_update)
  have "slots_ok l'"
  proof (rule slots_ok_change[OF ok, where i = i])
    show "slot_frame (eio (lp_ios (env l') ! i)) l l'" using frame by (simp add: w)
    show "fd_inv 0 l'" using l1(2) by (simp add: l'_def)
    show "case sio (lp_ios (env l') ! i) of None \<Rightarrow> slot_asleep l' i | Some c \<Rightarrow> slot_taken l' i c"
      using sleep i(2) by (simp add: ios)
    show "io_index (io_objs (env l') c) = io_index (io_objs ?P c)"
      if "k < length (lp_ios ?P)" "k \<noteq> i" "sio (lp_ios ?P ! k) = Some c" for k c
      using slots_okD(5)[OF ok that(1,3)] that(2) i(1) by (auto simp: ob slot_taken_def)
  qed (use i(2) dist idle in \<open>simp_all add: ios\<close>)
  with run e sleep frame show ?thesis by blast
qed

lemma stop_io_correct:
  assumes ok: "slots_ok l" and i: "io_index (io_objs (env l) a) = int i" "i < length (lp_ios (env l))"
  shows "\<exists>l'. stop_io (Some a) l = Some (l', True) \<and> slots_ok l' \<and> env l' = env l \<and> slot_asleep l' i
    \<and> slot_frame (eio (lp_ios (env l) ! i)) l l'"
proof -
  let ?w = "eio (lp_ios (env l) ! i)"
  obtain l1 where l1: "ev_io_stop ?w l = Some l1" "fd_inv 0 l1" "w_active l1 ?w = 0" "w_pending l1 ?w = 0"
    using ev_io_stop_quiet[OF slots_okD(1)[OF ok] slots_okD(6)[OF ok i(2)]] by blast
  note f = ev_io_stop_fields[OF l1(1)]
  note frame = slot_frame_stop[OF l1(1)]
  have sleep: "slot_asleep l1 i" using l1(3,4) by (simp add: slot_asleep_def f)
  have "slots_ok l1"
  proof (rule slots_ok_change[OF ok, where i = i])
    show "slot_frame (eio (lp_ios (env l1) ! i)) l l1" using frame by (simp add: f)
    show "slots_distinct l1" using slots_okD(2)[OF ok] by (simp add: slots_distinct_def f)
    show "case sio (lp_ios (env l1) ! i) of None \<Rightarrow> slot_asleep l1 i | Some c \<Rightarrow> slot_taken l1 i c"
      using sleep slots_okD(5)[OF ok i(2)] by (auto simp: f slot_taken_def split: option.splits)
  qed (use i(2) l1(2) slots_okD(3)[OF ok] in \<open>simp_all add: f\<close>)
  then show ?thesis using i l1(1) sleep frame f by (simp add: stop_io_def Let_def)
qed

lemma start_io_correct:
  assumes ok: "slots_ok l" and i: "io_index (io_objs (env l) a) = int i" "i < length (lp_ios (env l))"
    and b: "sio (lp_ios (env l) ! i) = Some b"
  shows "\<exists>l'. start_io (Some a) l = Some (l', True) \<and> slots_ok l' \<and> env l' = env l
    \<and> w_active l' (eio (lp_ios (env l) ! i)) \<noteq> 0 \<and> slot_frame (eio (lp_ios (env l) ! i)) l l'"
proof -
  let ?w = "eio (lp_ios (env l) ! i)"
  have t: "slot_taken l i b" by (rule slots_okD(5)[OF ok i(2) b])
  then have t2: "0 \<le> w_fd l ?w" "legal_events (w_events l ?w)" by (simp_all add: slot_taken_def)
  obtain l1 where l1: "ev_io_start ?w l = Some l1" "fd_inv 0 l1" "w_active l1 ?w \<noteq> 0"
    using ev_io_start_runs[OF slots_okD(1)[OF ok] slots_okD(6)[OF ok i(2)] t2] by blast
  note f = ev_io_start_fields(1-4)[OF l1(1)] ev_io_start_fields(7)[OF l1(1)]
  note frame = slot_frame_start[OF l1(1)]
  have "slots_ok l1"
  proof (rule slots_ok_change[OF ok, where i = i])
    show "slot_frame (eio (lp_ios (env l1) ! i)) l l1" using frame by (simp add: f)
    show "slots_distinct l1" using slots_okD(2)[OF ok] by (simp add: slots_distinct_def f)
    show "case sio (lp_ios (env l1) ! i) of None \<Rightarrow> slot_asleep l1 i | Some c \<Rightarrow> slot_taken l1 i c"
      using t t2 b f(5) by (simp add: f(1-4) slot_taken_def)
  qed (use i(2) l1(2) slots_okD(3)[OF ok] in \<open>simp_all add: f\<close>)
  then show ?thesis using i l1(1,3) frame f by (simp add: start_io_def Let_def)
qed

lemma io_slot_cases:
  assumes ok: "slots_ok l" and fresh: "lp_idle (env l) = [] \<longrightarrow> slot_fresh l p" and s: "io_slot p (env l) = (i, P)"
  defines "w \<equiv> eio (lp_ios P ! i)"
  shows "i < length (lp_ios P)" "length (lp_ios (env l)) \<le> length (lp_ios P)" "length (lp_ios P) \<le> Suc (length (lp_ios (env l)))"
    "length (lp_ios (env l)) < length (lp_ios P) \<Longrightarrow> i = length (lp_ios (env l))"
    "\<And>k. k < length (lp_ios (env l)) \<Longrightarrow> lp_ios P ! k = lp_ios (env l) ! k"
    "w_active l w = 0" "w_pending l w = 0" "w_kind l w = Ev_Io" "slots_distinct (l\<lparr>env := P\<rparr>)"
    "idle_ok (set_sio i (Some a) P)" "io_objs P = io_objs (env l)" "lp_async P = lp_async (env l)"
    "slot_watchers P \<subseteq> insert w (slot_watchers (env l))" "w = p \<or> w \<in> slot_watchers (env l)"
proof -
  have dist: "slots_distinct l" and idle: "idle_ok (env l)" by (rule slots_okD[OF ok])+
  have *: "i < length (lp_ios P) \<and> length (lp_ios (env l)) \<le> length (lp_ios P) \<and> length (lp_ios P) \<le> Suc (length (lp_ios (env l)))
    \<and> (length (lp_ios (env l)) < length (lp_ios P) \<longrightarrow> i = length (lp_ios (env l)))
    \<and> (\<forall>k. k < length (lp_ios (env l)) \<longrightarrow> lp_ios P ! k = lp_ios (env l) ! k)
    \<and> w_active l w = 0 \<and> w_pending l w = 0 \<and> w_kind l w = Ev_Io \<and> slots_distinct (l\<lparr>env := P\<rparr>)
    \<and> idle_ok (set_sio i (Some a) P) \<and> io_objs P = io_objs (env l) \<and> lp_async P = lp_async (env l)
    \<and> slot_watchers P \<subseteq> insert w (slot_watchers (env l)) \<and> (w = p \<or> w \<in> slot_watchers (env l))"
  proof (cases "lp_idle (env l)")
    case Nil
    then have P: "i = length (lp_ios (env l))" "P = env l\<lparr>lp_ios := lp_ios (env l) @ [\<lparr>eio = p, sio = None\<rparr>]\<rparr>"
      using s by (simp_all add: io_slot_def)
    have w: "w = p" by (simp add: w_def P)
    have f: "slot_fresh l p" using fresh Nil by simp
    then have d: "slots_distinct (l\<lparr>env := P\<rparr>)"
      using dist by (auto simp: slots_distinct_def slot_watchers_def slot_fresh_def P)
    have "idle_ok (set_sio i (Some a) P)"
      using idle Nil by (auto simp: idle_ok_def set_sio_def P nth_append)
    then show ?thesis using f w d by (auto simp: P nth_append slot_fresh_def slot_watchers_def)
  next
    case (Cons j js)
    then have P: "i = j" "P = env l\<lparr>lp_idle := js\<rparr>" using s by (simp_all add: io_slot_def)
    have j: "j < length (lp_ios (env l))" "sio (lp_ios (env l) ! j) = None"
      using idle Cons by (auto simp: idle_ok_def)
    have sleep: "slot_asleep l j" by (rule slots_okD(4)[OF ok j])
    have kind: "w_kind l (eio (lp_ios (env l) ! j)) = Ev_Io" by (rule slots_okD(6)[OF ok j(1)])
    have d: "slots_distinct (l\<lparr>env := P\<rparr>)"
      using dist by (simp add: slots_distinct_def slot_watchers_def P)
    have jd: "j \<notin> set js" "distinct js" using idle Cons by (simp_all add: idle_ok_def)
    have iff: "k \<in> set (j # js) \<longleftrightarrow> k < length (lp_ios (env l)) \<and> sio (lp_ios (env l) ! k) = None" for k
      using idle Cons by (simp add: idle_ok_def)
    have "idle_ok (set_sio i (Some a) P)"
      unfolding idle_ok_def
    proof (intro conjI allI)
      show "distinct (lp_idle (set_sio i (Some a) P))" using jd by (simp add: set_sio_def P)
      show "k \<in> set (lp_idle (set_sio i (Some a) P)) \<longleftrightarrow> k < length (lp_ios (set_sio i (Some a) P))
          \<and> sio (lp_ios (set_sio i (Some a) P) ! k) = None" for k
        using iff[of k] jd j(1) by (auto simp: set_sio_def P nth_list_update)
    qed
    then show ?thesis using j sleep kind d by (auto simp: P w_def slot_asleep_def slot_watchers_def)
  qed
  then show "i < length (lp_ios P)" "length (lp_ios (env l)) \<le> length (lp_ios P)" "length (lp_ios P) \<le> Suc (length (lp_ios (env l)))"
    "length (lp_ios (env l)) < length (lp_ios P) \<Longrightarrow> i = length (lp_ios (env l))"
    "\<And>k. k < length (lp_ios (env l)) \<Longrightarrow> lp_ios P ! k = lp_ios (env l) ! k"
    "w_active l w = 0" "w_pending l w = 0" "w_kind l w = Ev_Io" "slots_distinct (l\<lparr>env := P\<rparr>)"
    "idle_ok (set_sio i (Some a) P)" "io_objs P = io_objs (env l)" "lp_async P = lp_async (env l)"
    "slot_watchers P \<subseteq> insert w (slot_watchers (env l))" "w = p \<or> w \<in> slot_watchers (env l)"
    by simp_all
qed

lemma eios_set_sio: "map eio (lp_ios (set_sio i x P)) = map eio (lp_ios P)"
  by (cases "i < length (lp_ios P)") (auto simp: set_sio_def nth_list_update intro: nth_equalityI)

lemma slot_watchers_set_sio [simp]: "slot_watchers (set_sio i x P) = slot_watchers P"
  unfolding slot_watchers_def set_map[symmetric] eios_set_sio ..

text \<open>The state that \<open>add_io\<close> makes of the table: the \<open>IO\<close> is in its slot and knows the number.\<close>

lemma add_io_correct:
  assumes ok: "slots_ok l" and fresh: "lp_idle (env l) = [] \<longrightarrow> slot_fresh l p"
    and a: "a \<noteq> 0" "io_index (io_objs (env l) a) < 0" "0 \<le> io_fd (io_objs (env l) a)"
      "legal_events (io_events (io_objs (env l) a) OR EV__IOFDSET)"
    and s: "io_slot p (env l) = (i, P)"
  shows "\<exists>l'. add_io p start (Some a) l = Some (l', True) \<and> slots_ok l'
    \<and> env l' = set_sio i (Some a) (set_index a (int i) P) \<and> i < length (lp_ios P)
    \<and> w_fd l' (eio (lp_ios P ! i)) = io_fd (io_objs (env l) a) \<and> w_pending l' (eio (lp_ios P ! i)) = 0
    \<and> (w_active l' (eio (lp_ios P ! i)) \<noteq> 0 \<longleftrightarrow> start)
    \<and> slot_frame (eio (lp_ios P ! i)) l l'"
proof -
  let ?o = "io_objs (env l) a"
  note c = io_slot_cases[OF ok fresh s]
  define w where "w = eio (lp_ios P ! i)"
  note c = c[folded w_def]
  define E where "E = set_sio i (Some a) (set_index a (int i) P)"
  define l1 where "l1 = ev_io_init w (io_fd ?o) (io_events ?o) (l\<lparr>env := E\<rparr>)"
  have l1: "fd_inv 0 l1" "w_kind l1 = w_kind l" "w_active l1 w = 0" "w_pending l1 w = 0" "env l1 = E"
    "w_fd l1 w = io_fd ?o" "w_events l1 w = io_events ?o OR EV__IOFDSET"
    using ev_io_init_inv[of 0 "l\<lparr>env := E\<rparr>" w] slots_okD(1)[OF ok] c(6,7)
    by (simp_all add: l1_def ev_io_init_fields)
  have fr1: "slot_frame w l l1"
    unfolding l1_def by (rule slot_frame_trans[OF slot_frame_env slot_frame_init])
  obtain l2 where l2: "(if start then ev_io_start w l1 else Some l1) = Some l2" "fd_inv 0 l2" "slot_frame w l1 l2"
      "env l2 = E" "w_kind l2 = w_kind l1" "w_fd l2 w = io_fd ?o" "legal_events (w_events l2 w)"
      "w_active l2 w \<noteq> 0 \<longleftrightarrow> start" "w_pending l2 w = 0"
  proof (cases start)
    case True
    obtain l2 where k: "ev_io_start w l1 = Some l2" "fd_inv 0 l2" "w_active l2 w \<noteq> 0"
      using ev_io_start_runs[OF l1(1), of w] c(8) l1 a(3,4) by auto
    then show thesis
      using that[of l2] True l1 a(4) slot_frame_start[OF k(1)] ev_io_start_fields(1-4)[OF k(1)] ev_io_start_fields(7)[OF k(1)]
      by simp
  next
    case False
    then show thesis using that[of l1] l1 a(4) by (simp add: slot_frame_def)
  qed
  have P1: "lp_ios (set_index a (int i) P) = lp_ios P" "lp_idle (set_index a (int i) P) = lp_idle P"
    "lp_async (set_index a (int i) P) = lp_async P"
    "io_objs (set_index a (int i) P) = (io_objs P)(a := ?o\<lparr>io_index := int i\<rparr>)"
    by (simp_all add: set_index_def upd_io_def c(11))
  have run: "add_io p start (Some a) l = Some (l2, True)"
    using a(2) c(1) l2(1) unfolding l1_def
    by (simp add: add_io_def s P1 Let_def w_def[symmetric] E_def split: if_splits)
  have ios: "lp_ios E = (lp_ios P)[i := (lp_ios P ! i)\<lparr>sio := Some a\<rparr>]" and Ew: "eio (lp_ios E ! i) = w"
    and ob: "io_objs E = (io_objs (env l))(a := ?o\<lparr>io_index := int i\<rparr>)" and as: "lp_async E = lp_async P"
    using c(1) by (simp_all add: E_def set_sio_def P1 w_def c(11))
  have "slots_ok l2"
  proof (rule slots_ok_change[OF ok, where i = i])
    show "slot_frame (eio (lp_ios (env l2) ! i)) l l2"
      using slot_frame_trans[OF fr1 l2(3)] by (simp add: l2(4) Ew)
    have "map eio (lp_ios E) = map eio (lp_ios P)" "slot_watchers E = slot_watchers P"
      by (simp_all only: E_def eios_set_sio slot_watchers_set_sio) (simp_all add: P1 slot_watchers_def)
    then show "slots_distinct l2"
      using c(9) by (simp add: slots_distinct_def l2(4,5) l1(2) as)
    have "idle_ok E = idle_ok (set_sio i (Some a) P)"
      by (simp add: idle_ok_def E_def set_sio_def P1)
    then show "idle_ok (env l2)" using c(10) by (simp add: l2(4))
    show "case sio (lp_ios (env l2) ! i) of None \<Rightarrow> slot_asleep l2 i | Some b \<Rightarrow> slot_taken l2 i b"
    proof -
      have "sio (lp_ios E ! i) = Some a" using c(1) by (simp add: ios)
      moreover have "slot_taken l2 i a"
        unfolding slot_taken_def l2(4) Ew l2(6) by (simp add: a l2(7) ob)
      ultimately show ?thesis by (simp add: l2(4))
    qed
    show "io_index (io_objs (env l2) b) = io_index (io_objs (env l) b)"
      if "k < length (lp_ios (env l))" "k \<noteq> i" "sio (lp_ios (env l) ! k) = Some b" for k b
      using slots_okD(5)[OF ok that(1,3)] a(2) by (auto simp: l2(4) ob slot_taken_def)
    show "i < length (lp_ios (env l2))" "length (lp_ios (env l)) \<le> length (lp_ios (env l2))"
      "length (lp_ios (env l2)) \<le> Suc (length (lp_ios (env l)))"
      "length (lp_ios (env l)) < length (lp_ios (env l2)) \<Longrightarrow> i = length (lp_ios (env l))"
      using c(1-4) by (simp_all add: l2(4) ios)
    show "lp_ios (env l2) ! k = lp_ios (env l) ! k" if "k < length (lp_ios (env l))" "k \<noteq> i" for k
      using c(5)[OF that(1)] that(2) by (simp add: l2(4) ios)
  qed (rule l2(2))
  with run l2 c(1) slot_frame_trans[OF fr1 l2(3)] show ?thesis by (auto simp: E_def w_def)
qed

subsection \<open>The table as a map\<close>

text \<open>What the table stands for: an \<open>IO\<close> is out of the loop, or in it and started or not.\<close>

definition io_mode :: "'u process_scheme ev_loop \<Rightarrow> io_id \<Rightarrow> bool option" where
  "io_mode l a = (if io_index (io_objs (env l) a) < 0 then None
     else Some (w_active l (eio (lp_ios (env l) ! nat (io_index (io_objs (env l) a)))) \<noteq> 0))"

datatype loop_op = Add_Io io_id bool wid | Remove_Io io_id | Stop_Io io_id | Start_Io io_id

fun op_io :: "loop_op \<Rightarrow> io_id" where
  "op_io (Add_Io a start p) = a" | "op_io (Remove_Io a) = a" | "op_io (Stop_Io a) = a" | "op_io (Start_Io a) = a"

fun op_mem :: "loop_op \<Rightarrow> wid list" where
  "op_mem (Add_Io a start p) = [p]" | "op_mem (Remove_Io a) = []" | "op_mem (Stop_Io a) = []" | "op_mem (Start_Io a) = []"

fun run_op :: "loop_op \<Rightarrow> 'u process_scheme ev_loop \<Rightarrow> ('u process_scheme ev_loop \<times> bool) option" where
  "run_op (Add_Io a start p) l = add_io p start (Some a) l"
| "run_op (Remove_Io a) l = remove_io (Some a) l"
| "run_op (Stop_Io a) l = stop_io (Some a) l"
| "run_op (Start_Io a) l = start_io (Some a) l"

fun run_ops :: "loop_op list \<Rightarrow> 'u process_scheme ev_loop \<Rightarrow> ('u process_scheme ev_loop \<times> bool list) option" where
  "run_ops [] l = Some (l, [])"
| "run_ops (q # qs) l = do { (l1, r) \<leftarrow> run_op q l; (l2, rs) \<leftarrow> run_ops qs l1; Some (l2, r # rs) }"

fun op_spec :: "loop_op \<Rightarrow> (io_id \<Rightarrow> bool option) \<Rightarrow> io_id \<Rightarrow> bool option" where
  "op_spec (Add_Io a start p) m = (if m a = None then m(a := Some start) else m)"
| "op_spec (Remove_Io a) m = m(a := None)"
| "op_spec (Stop_Io a) m = (if m a = None then m else m(a := Some False))"
| "op_spec (Start_Io a) m = (if m a = None then m else m(a := Some True))"

lemma op_spec_pointwise: "m b = m' b \<Longrightarrow> op_spec q m b = op_spec q m' b"
  by (cases q) (auto dest: sym)

lemma specs_pointwise: "m b = m' b \<Longrightarrow> fold op_spec qs m b = fold op_spec qs m' b"
proof (induction qs arbitrary: m m')
  case (Cons q qs)
  show ?case unfolding fold_Cons comp_apply by (rule Cons.IH, rule op_spec_pointwise, rule Cons.prems)
qed simp

definition op_done :: "loop_op \<Rightarrow> 'u process_scheme ev_loop \<Rightarrow> 'u process_scheme ev_loop \<Rightarrow> bool" where
  "op_done q l l' \<longleftrightarrow> run_op q l = Some (l', True) \<and> slots_ok l'
   \<and> (\<forall>b. io_valid (env l) b \<longrightarrow> io_valid (env l') b \<and> io_mode l' b = op_spec q (io_mode l) b)
   \<and> (\<forall>p. slot_fresh l p \<and> p \<notin> set (op_mem q) \<longrightarrow> slot_fresh l' p)"

lemma io_mineE:
  assumes "slots_ok l" "io_mine (env l) a"
  obtains "io_index (io_objs (env l) a) < 0"
    | i where "io_index (io_objs (env l) a) = int i" "i < length (lp_ios (env l))" "sio (lp_ios (env l) ! i) = Some a"
proof (cases "io_index (io_objs (env l) a) < 0")
  case False
  then show thesis using that(2)[of "nat (io_index (io_objs (env l) a))"] assms(2) by (simp add: io_mine_def)
qed (rule that(1))

lemma slot_fresh_frame:
  assumes fr: "slot_frame w l l'" and p: "slot_fresh l p" "p \<noteq> w"
    and env: "lp_async (env l') = lp_async (env l)" "slot_watchers (env l') \<subseteq> insert w (slot_watchers (env l))"
  shows "slot_fresh l' p"
  using assms by (auto simp: slot_fresh_def slot_frame_def)

lemma slot_watcher_in: "i < length (lp_ios P) \<Longrightarrow> eio (lp_ios P ! i) \<in> slot_watchers P"
  by (simp add: slot_watchers_def)

lemma slot_fresh_other: "slot_fresh l p \<Longrightarrow> i < length (lp_ios (env l)) \<Longrightarrow> p \<noteq> eio (lp_ios (env l) ! i)"
  using slot_watcher_in by (auto simp: slot_fresh_def)

text \<open>Stopping and starting: the table stays as it is.\<close>

lemma io_mode_stays:
  assumes ok: "slots_ok l" and fr: "slot_frame (eio (lp_ios (env l) ! i)) l l'" and i: "i < length (lp_ios (env l))"
    and env: "env l' = env l" and b: "io_mine (env l) b" "io_index (io_objs (env l) b) \<noteq> int i"
  shows "io_mode l' b = io_mode l b"
  using ok b(1)
proof (cases rule: io_mineE)
  case 1
  then show ?thesis by (simp add: io_mode_def env)
next
  case (2 k)
  then have "eio (lp_ios (env l) ! k) \<noteq> eio (lp_ios (env l) ! i)"
    using b(2) slot_inj[OF ok 2(2) i] by auto
  then show ?thesis using fr 2 by (simp add: io_mode_def env slot_frame_def)
qed

lemma toggle_done:
  assumes ok: "slots_ok l" and i: "io_index (io_objs (env l) a) = int i" "i < length (lp_ios (env l))" "sio (lp_ios (env l) ! i) = Some a"
    and q: "run_op q l = Some (l', True)" "slots_ok l'" "env l' = env l" "slot_frame (eio (lp_ios (env l) ! i)) l l'"
    and act: "op_spec q (io_mode l) = (io_mode l)(a := Some (w_active l' (eio (lp_ios (env l) ! i)) \<noteq> 0))"
  shows "op_done q l l'"
  unfolding op_done_def
proof (intro conjI allI impI q(1,2))
  fix b assume b: "io_valid (env l) b"
  show "io_valid (env l') b" using b by (simp add: q(3))
  have m: "io_mine (env l) b" using b by (simp add: io_valid_def)
  show "io_mode l' b = op_spec q (io_mode l) b"
  proof (cases "io_index (io_objs (env l) b) = int i")
    case True
    then have "b = a" using m i by (simp add: io_mine_def)
    then show ?thesis using i act by (simp add: io_mode_def q(3))
  next
    case False
    then show ?thesis using io_mode_stays[OF ok q(4) i(2) q(3) m] i act by auto
  qed
next
  fix p assume "slot_fresh l p \<and> p \<notin> set (op_mem q)"
  then show "slot_fresh l' p"
    using slot_fresh_frame[OF q(4)] slot_fresh_other[OF _ i(2)] q(3) by auto
qed

lemma out_done: "slots_ok l \<Longrightarrow> run_op q l = Some (l, True) \<Longrightarrow> op_spec q (io_mode l) = io_mode l \<Longrightarrow> op_done q l l"
  by (simp add: op_done_def)

lemma remove_io_done:
  assumes ok: "slots_ok l" and i: "io_index (io_objs (env l) a) = int i" "i < length (lp_ios (env l))" "sio (lp_ios (env l) ! i) = Some a"
  shows "\<exists>l'. op_done (Remove_Io a) l l'"
proof -
  obtain l' where l': "remove_io (Some a) l = Some (l', True)" "slots_ok l'"
    "env l' = set_sio i None (set_index a (-1) (env l\<lparr>lp_idle := lp_idle (env l) @ [i]\<rparr>))"
    "slot_frame (eio (lp_ios (env l) ! i)) l l'"
    using remove_io_correct[OF ok i] by blast
  let ?w = "eio (lp_ios (env l) ! i)"
  have ios: "lp_ios (env l') = (lp_ios (env l))[i := (lp_ios (env l) ! i)\<lparr>sio := None\<rparr>]"
    and ob: "io_objs (env l') = (io_objs (env l))(a := (io_objs (env l) a)\<lparr>io_index := -1\<rparr>)"
    by (simp_all add: l'(3) set_sio_def set_index_def upd_io_def)
  have "io_valid (env l') b \<and> io_mode l' b = op_spec (Remove_Io a) (io_mode l) b" if b: "io_valid (env l) b" for b
  proof (cases "b = a")
    case True
    then show ?thesis using b by (simp add: io_valid_def io_mine_def io_mode_def ob)
  next
    case False
    have m: "io_mine (env l) b" using b by (simp add: io_valid_def)
    show ?thesis
    proof (rule io_mineE[OF ok m], goal_cases)
      case 1
      then show ?thesis using b False by (simp add: io_valid_def io_mine_def io_mode_def ob)
    next
      case (2 k)
      have ki: "k \<noteq> i" using 2(3) i(3) False by auto
      then have "eio (lp_ios (env l) ! k) \<noteq> ?w" using slot_inj[OF ok 2(2) i(2)] by simp
      then show ?thesis
        using b 2 False ki l'(4) by (simp add: io_valid_def io_mine_def io_mode_def ob ios slot_frame_def)
    qed
  qed
  moreover have "slot_fresh l' p" if "slot_fresh l p" for p
    by (rule slot_fresh_frame[OF l'(4) that slot_fresh_other[OF that i(2)]])
       (auto simp: l'(3) set_index_def upd_io_def slot_watchers_def[of "_\<lparr>lp_idle := _\<rparr>"], auto simp: set_sio_def slot_watchers_def)
  ultimately show ?thesis using l'(1,2) by (auto simp: op_done_def)
qed

lemma slot_watchers_set_index: "slot_watchers (set_index a i P) = slot_watchers P"
  by (simp add: slot_watchers_def set_index_def upd_io_def)

lemma io_slot_free:
  assumes "idle_ok P" "io_slot p P = (i, P')" "i < length (lp_ios P)"
  shows "sio (lp_ios P ! i) = None"
proof (cases "lp_idle P")
  case (Cons j js)
  then have "i \<in> set (lp_idle P)" using assms(2) by (simp add: io_slot_def)
  then show ?thesis using assms(1) by (simp add: idle_ok_def)
qed (use assms in \<open>simp add: io_slot_def\<close>)

lemma add_io_done:
  assumes ok: "slots_ok l" and a: "io_valid (env l) a" "io_index (io_objs (env l) a) < 0" and fresh: "slot_fresh l p"
  shows "\<exists>l'. op_done (Add_Io a start p) l l'"
proof -
  obtain i P where s: "io_slot p (env l) = (i, P)" by (cases "io_slot p (env l)")
  have f: "lp_idle (env l) = [] \<longrightarrow> slot_fresh l p" using fresh by simp
  have a': "a \<noteq> 0" "0 \<le> io_fd (io_objs (env l) a)" "legal_events (io_events (io_objs (env l) a) OR EV__IOFDSET)"
    using a(1) by (simp_all add: io_valid_def)
  note c = io_slot_cases[OF ok f s]
  let ?w = "eio (lp_ios P ! i)"
  obtain l' where l': "add_io p start (Some a) l = Some (l', True)" "slots_ok l'"
    "env l' = set_sio i (Some a) (set_index a (int i) P)" "w_active l' ?w \<noteq> 0 \<longleftrightarrow> start" "slot_frame ?w l l'"
    using add_io_correct[OF ok f a'(1) a(2) a'(2,3) s] by blast
  have ios: "lp_ios (env l') = (lp_ios P)[i := (lp_ios P ! i)\<lparr>sio := Some a\<rparr>]"
    and ob: "io_objs (env l') = (io_objs (env l))(a := (io_objs (env l) a)\<lparr>io_index := int i\<rparr>)"
    by (simp_all add: l'(3) set_sio_def set_index_def upd_io_def c(11))
  have "io_valid (env l') b \<and> io_mode l' b = op_spec (Add_Io a start p) (io_mode l) b" if b: "io_valid (env l) b" for b
  proof (cases "b = a")
    case True
    then show ?thesis using a a' c(1) l'(4) by (simp add: io_valid_def io_mine_def io_mode_def ob ios)
  next
    case False
    have m: "io_mine (env l) b" using b by (simp add: io_valid_def)
    show ?thesis
    proof (rule io_mineE[OF ok m], goal_cases)
      case 1
      then show ?thesis using b False by (simp add: io_valid_def io_mine_def io_mode_def ob)
    next
      case (2 k)
      have "sio (lp_ios P ! i) = None" if "i < length (lp_ios (env l))"
        using io_slot_free[OF slots_okD(3)[OF ok] s that] c(5)[OF that] by simp
      then have ki: "k \<noteq> i" using 2(2,3) c(5)[OF 2(2)] by auto
      have "distinct (map eio (lp_ios P))" using c(9) by (simp add: slots_distinct_def)
      then have "eio (lp_ios P ! k) \<noteq> ?w" using c(1,2) 2(2) ki nth_eq_iff_index_eq[of "map eio (lp_ios P)" k i] by simp
      then show ?thesis
        using b 2 False ki l'(5) c(2) c(5)[OF 2(2)] by (simp add: io_valid_def io_mine_def io_mode_def ob ios slot_frame_def)
    qed
  qed
  moreover have "slot_fresh l' x" if x: "slot_fresh l x" "x \<noteq> p" for x
  proof (rule slot_fresh_frame[OF l'(5) x(1)])
    show "x \<noteq> ?w" using c(14) x by (auto simp: slot_fresh_def)
    show "lp_async (env l') = lp_async (env l)" by (simp add: l'(3) set_sio_def set_index_def upd_io_def c(12))
    show "slot_watchers (env l') \<subseteq> insert ?w (slot_watchers (env l))"
      using c(13) by (simp add: l'(3) slot_watchers_set_index)
  qed
  ultimately show ?thesis using l'(1,2) by (auto simp: op_done_def)
qed

lemma run_op_done:
  assumes ok: "slots_ok l" and v: "io_valid (env l) (op_io q)" and fresh: "\<forall>p \<in> set (op_mem q). slot_fresh l p"
  shows "\<exists>l'. op_done q l l'"
proof (cases "io_index (io_objs (env l) (op_io q)) < 0")
  case True
  show ?thesis
  proof (cases q)
    case (Add_Io a start p)
    then show ?thesis using add_io_done[OF ok] v True fresh by simp
  next
    case (Remove_Io a)
    have "op_done q l l"
      by (rule out_done[OF ok]) (use True Remove_Io in \<open>auto simp: remove_io_def Let_def io_mode_def\<close>)
    then show ?thesis by blast
  next
    case (Stop_Io a)
    have "op_done q l l"
      by (rule out_done[OF ok]) (use True Stop_Io in \<open>auto simp: stop_io_def Let_def io_mode_def\<close>)
    then show ?thesis by blast
  next
    case (Start_Io a)
    have "op_done q l l"
      by (rule out_done[OF ok]) (use True Start_Io in \<open>auto simp: start_io_def Let_def io_mode_def\<close>)
    then show ?thesis by blast
  qed
next
  case False
  define i where "i = nat (io_index (io_objs (env l) (op_io q)))"
  have i: "io_index (io_objs (env l) (op_io q)) = int i" "i < length (lp_ios (env l))"
    "sio (lp_ios (env l) ! i) = Some (op_io q)"
    using v False by (simp_all add: i_def io_valid_def io_mine_def)
  show ?thesis
  proof (cases q)
    case (Add_Io a start p)
    have "op_done q l l"
      by (rule out_done[OF ok]) (use False Add_Io in \<open>auto simp: add_io_def io_mode_def\<close>)
    then show ?thesis by blast
  next
    case (Remove_Io a)
    then show ?thesis using remove_io_done[OF ok] i by simp
  next
    case (Stop_Io a)
    have i': "io_index (io_objs (env l) a) = int i" "i < length (lp_ios (env l))" "sio (lp_ios (env l) ! i) = Some a"
      using i Stop_Io by simp_all
    obtain l' where l': "stop_io (Some a) l = Some (l', True)" "slots_ok l'" "env l' = env l" "slot_asleep l' i"
      "slot_frame (eio (lp_ios (env l) ! i)) l l'"
      using stop_io_correct[OF ok i'(1,2)] by blast
    have "op_done q l l'"
      by (rule toggle_done[OF ok i' _ l'(2,3,5)])
         (use Stop_Io l' i' in \<open>simp_all add: io_mode_def slot_asleep_def\<close>)
    then show ?thesis by blast
  next
    case (Start_Io a)
    have i': "io_index (io_objs (env l) a) = int i" "i < length (lp_ios (env l))" "sio (lp_ios (env l) ! i) = Some a"
      using i Start_Io by simp_all
    obtain l' where l': "start_io (Some a) l = Some (l', True)" "slots_ok l'" "env l' = env l"
      "w_active l' (eio (lp_ios (env l) ! i)) \<noteq> 0" "slot_frame (eio (lp_ios (env l) ! i)) l l'"
      using start_io_correct[OF ok i'] by blast
    have "op_done q l l'"
      by (rule toggle_done[OF ok i' _ l'(2,3,5)])
         (use Start_Io l' i' in \<open>simp_all add: io_mode_def\<close>)
    then show ?thesis by blast
  qed
qed

lemma run_ops_done:
  assumes "slots_ok l" "\<forall>q \<in> set qs. io_valid (env l) (op_io q)"
    "distinct (concat (map op_mem qs))" "\<forall>q \<in> set qs. \<forall>p \<in> set (op_mem q). slot_fresh l p"
  shows "\<exists>l'. run_ops qs l = Some (l', replicate (length qs) True) \<and> slots_ok l'
    \<and> (\<forall>a. io_valid (env l) a \<longrightarrow> io_valid (env l') a \<and> io_mode l' a = fold op_spec qs (io_mode l) a)"
  using assms
proof (induction qs arbitrary: l)
  case (Cons q qs)
  obtain l1 where l1: "op_done q l l1" using run_op_done[OF Cons.prems(1), of q] Cons.prems(2,4) by auto
  then have d: "run_op q l = Some (l1, True)" "slots_ok l1"
    "\<And>b. io_valid (env l) b \<Longrightarrow> io_valid (env l1) b" "\<And>b. io_valid (env l) b \<Longrightarrow> io_mode l1 b = op_spec q (io_mode l) b"
    "\<And>p. slot_fresh l p \<Longrightarrow> p \<notin> set (op_mem q) \<Longrightarrow> slot_fresh l1 p"
    by (simp_all add: op_done_def)
  have v1: "\<forall>x \<in> set qs. io_valid (env l1) (op_io x)" using Cons.prems(2) d(3) by simp
  have dist: "distinct (concat (map op_mem qs))" "set (op_mem q) \<inter> set (concat (map op_mem qs)) = {}"
    using Cons.prems(3) by simp_all
  have f1: "\<forall>x \<in> set qs. \<forall>p \<in> set (op_mem x). slot_fresh l1 p"
  proof (intro ballI)
    fix x p assume x: "x \<in> set qs" "p \<in> set (op_mem x)"
    then have "p \<notin> set (op_mem q)" using dist(2) by auto
    moreover have "slot_fresh l p" using Cons.prems(4) x by simp
    ultimately show "slot_fresh l1 p" by (rule d(5)[rotated])
  qed
  obtain l' where l': "run_ops qs l1 = Some (l', replicate (length qs) True)" "slots_ok l'"
    "\<forall>a. io_valid (env l1) a \<longrightarrow> io_valid (env l') a \<and> io_mode l' a = fold op_spec qs (io_mode l1) a"
    using Cons.IH[OF d(2) v1 dist(1) f1] by blast
  have "io_mode l' a = fold op_spec (q # qs) (io_mode l) a" if a: "io_valid (env l) a" for a
  proof -
    have "fold op_spec qs (io_mode l1) a = fold op_spec qs (op_spec q (io_mode l)) a"
      by (rule specs_pointwise, rule d(4)[OF a])
    then show ?thesis using l'(3) d(3)[OF a] by simp
  qed
  then show ?case using l' d(1,3) by simp
qed simp

subsection \<open>A new loop\<close>

text \<open>The system calls of libev do not touch the objects of the loop, and the wake-up descriptor is
  made.\<close>

definition sys_apart :: "'u process_scheme sys \<Rightarrow> bool" where
  "sys_apart sys \<longleftrightarrow>
     (\<forall>e. process.truncate (snd (sys_time sys e)) = process.truncate e
        \<and> process.truncate (snd (sys_get_clock sys e)) = process.truncate e
        \<and> process.truncate (snd (sys_evpipe sys e)) = process.truncate e
        \<and> (0 \<le> fst (fst (sys_evpipe sys e)) \<or> 0 \<le> snd (fst (sys_evpipe sys e))))"

text \<open>Initialised memory: the types of libev's own watchers and of \<open>_async\<close>, and nothing running.\<close>

definition mem_ready :: "wid \<Rightarrow> 'u process_scheme ev_loop \<Rightarrow> bool" where
  "mem_ready async mem \<longleftrightarrow> w_kind mem pending_w = Ev_Prepare \<and> w_kind mem pipe_w = Ev_Io \<and> w_kind mem async = Ev_Async
     \<and> (\<forall>w. w_active mem w = 0 \<and> w_pending mem w = 0)"

lemma truncate_eqD:
  assumes "process.truncate P = process.truncate Q"
  shows "lp_owner P = lp_owner Q" "lp_async P = lp_async Q" "lp_quit P = lp_quit Q" "lp_ios P = lp_ios Q"
    "lp_idle P = lp_idle Q" "io_objs P = io_objs Q"
  using assms by (simp_all add: process.truncate_def)

lemma ev_loop_new_env:
  "sys_apart sys \<Longrightarrow> process.truncate (env (ev_loop_new sys mem)) = process.truncate (env mem)"
  by (simp add: ev_loop_new_def loop_init_def loop_zero_def epoll_init_def ev_init_def Let_def sys_apart_def
      split: prod.splits) (metis snd_conv)

lemma fd_inv_cong:
  assumes inv: "fd_inv j l" and io: "w_kind l' = w_kind l" "fdchanges l' = fdchanges l" "anfds l' = anfds l"
    "w_fd l' = w_fd l" "w_events l' = w_events l" "w_priority l' = w_priority l"
    and pend: "w_pending l' = w_pending l" "pendings l' = pendings l"
    and act: "\<And>w. w_kind l w = Ev_Io \<Longrightarrow> w_active l' w = w_active l w"
  shows "fd_inv j l'"
  unfolding fd_inv_def
proof
  show "io_from j l'" by (rule io_from_cong[of j l]) (use inv io act in \<open>simp_all add: fd_inv_def\<close>)
  have "ABSPRI l' x = ABSPRI l x" for x using io by (simp add: ABSPRI_def)
  then show "pend_ok l'" using inv pend pend_ok_cong(1)[of l l'] by (simp add: fd_inv_def)
qed

lemma ev_io_set_inv:
  assumes inv: "fd_inv j l" and w: "w_active l w = 0" "w_pending l w = 0"
  shows "fd_inv j (ev_io_set w fd e l)"
proof -
  let ?l = "ev_io_set w fd e l"
  have io: "io_from j l" and pend: "pend_ok l" using inv by (auto simp: fd_inv_def)
  have f: "anfds ?l = anfds l" "fdchanges ?l = fdchanges l" "w_priority ?l = w_priority l" "w_kind ?l = w_kind l"
    "w_active ?l = w_active l" "w_fd ?l = (w_fd l)(w := fd)" "w_events ?l = (w_events l)(w := e OR EV__IOFDSET)"
    by (simp_all add: ev_io_set_def)
  have "pend_ok ?l" by (rule pend_ok_cong(1)[OF pend]) (simp_all add: ev_io_set_def ABSPRI_def)
  moreover have "anfd_ok ?l C n a" if a: "anfd_ok l C n a" for C n a
  proof -
    have "w \<notin> set (anfd_head a)" using a w by (auto simp: anfd_ok_def)
    then have "wanted_events ?l (anfd_head a) = wanted_events l (anfd_head a)"
      by (intro wanted_events_cong) (auto simp: f)
    then show ?thesis using a \<open>w \<notin> set (anfd_head a)\<close> by (auto simp: anfd_ok_def f)
  qed
  moreover have "io_active_ok ?l x" if "io_active_ok l x" "x \<noteq> w" for x
    using that by (simp add: io_active_ok_def f prio_ok_def ABSPRI_def)
  moreover have "io_active_ok l x" "x \<noteq> w" if "w_kind l x = Ev_Io" "w_active l x \<noteq> 0" for x
    using that io w(1) by (auto simp: io_from_def)
  ultimately show ?thesis using io by (simp add: fd_inv_def io_from_def f)
qed

lemma ev_unref_inv: "fd_inv j l \<Longrightarrow> fd_inv j (ev_unref l)"
  by (rule fd_inv_cong) (simp_all add: ev_unref_def)

lemma ev_io_start_priority: "ev_io_start w l = Some l' \<Longrightarrow> x \<noteq> w \<Longrightarrow> w_priority l' x = w_priority l x"
  by (auto simp: ev_io_start_def Let_def fd_change_def set_anfd_def ev_start_def ev_ref_def set_active_def
      pri_adjust_def split: if_splits option.splits)

lemma evpipe_init_runs:
  assumes s: "sys_apart sys" and inv: "fd_inv 0 l" and k: "w_kind l pipe_w = Ev_Io" "w_active l pipe_w = 0" "w_pending l pipe_w = 0"
    and e: "evpipe1 l < 0"
  shows "\<exists>l'. evpipe_init sys l = Some l' \<and> fd_inv 0 l' \<and> process.truncate (env l') = process.truncate (env l)
    \<and> w_kind l' = w_kind l \<and> w_pending l' = w_pending l \<and> (\<forall>x. x \<noteq> pipe_w \<longrightarrow> w_active l' x = w_active l x)
    \<and> (\<forall>x. x \<noteq> pipe_w \<longrightarrow> w_priority l' x = w_priority l x)"
proof -
  obtain fd0 fd1 e1 where pipe: "sys_evpipe sys (env l) = ((fd0, fd1), e1)" by (metis prod.exhaust)
  have p: "0 \<le> fd0 \<or> 0 \<le> fd1" "process.truncate e1 = process.truncate (env l)"
    using s pipe unfolding sys_apart_def by (metis fst_conv snd_conv)+
  define l3 where "l3 = ev_io_set pipe_w (if fd0 < 0 then fd1 else fd0) EV_READ (l\<lparr>env := e1, evpipe0 := fd0, evpipe1 := fd1\<rparr>)"
  have run: "evpipe_init sys l = map_option ev_unref (ev_io_start pipe_w l3)"
    using k(2) e by (simp add: evpipe_init_def pipe l3_def Let_def)
  have f: "w_kind l3 = w_kind l" "w_active l3 = w_active l" "w_pending l3 = w_pending l" "env l3 = e1"
    "w_priority l3 = w_priority l" "0 \<le> w_fd l3 pipe_w" "legal_events (w_events l3 pipe_w)"
    using p(1) by (auto simp: l3_def ev_io_set_def legal_events_def EV_READ_def EV__IOFDSET_def EV_WRITE_def EV_ET_def)
  have "fd_inv 0 (l\<lparr>env := e1, evpipe0 := fd0, evpipe1 := fd1\<rparr>)"
    by (rule fd_inv_cong[OF inv]) simp_all
  then have inv3: "fd_inv 0 l3" unfolding l3_def by (rule ev_io_set_inv) (simp_all add: k)
  obtain l4 where l4: "ev_io_start pipe_w l3 = Some l4" "fd_inv 0 l4"
    using ev_io_start_runs[OF inv3] f k(1) by metis
  note g = ev_io_start_fields(1-5)[OF l4(1)]
  have pr: "w_priority l4 x = w_priority l3 x" if "x \<noteq> pipe_w" for x
    by (rule ev_io_start_priority[OF l4(1) that])
  have u: "w_kind (ev_unref l4) = w_kind l4" "w_active (ev_unref l4) = w_active l4" "env (ev_unref l4) = env l4"
    "w_pending (ev_unref l4) = w_pending l4" "w_priority (ev_unref l4) = w_priority l4"
    by (simp_all add: ev_unref_def)
  show ?thesis
    by (intro exI[of _ "ev_unref l4"]) (use run l4 ev_unref_inv f g pr p(2) in \<open>simp add: u\<close>)
qed

lemma ev_loop_new_pipe: "evpipe1 (ev_loop_new sys mem) < 0"
  by (simp add: ev_loop_new_def loop_init_def loop_zero_def epoll_init_def ev_init_def Let_def split: prod.splits)

lemma loop_init_ok:
  assumes s: "sys_apart sys" and m: "mem_ready (lp_async P) mem" and new: "lp_ios P = []" "lp_idle P = []"
  shows "\<exists>l. loop_init_io sys mem (Inl P) = Some (Inr l, True) \<and> slots_ok l
    \<and> process.truncate (env l) = process.truncate P \<and> w_kind l = w_kind mem \<and> w_pending l = (\<lambda>_. 0)
    \<and> (\<forall>x. x \<noteq> pipe_w \<longrightarrow> x \<noteq> lp_async P \<longrightarrow> w_active l x = 0)"
proof -
  define l1 where "l1 = ev_loop_new sys (mem\<lparr>env := P\<rparr>)"
  define w where "w = lp_async P"
  have f1: "w_active l1 = (\<lambda>_. 0)" "w_pending l1 = (\<lambda>_. 0)" "w_kind l1 = w_kind mem"
    using m by (simp_all add: l1_def ev_loop_new_fields mem_ready_def fun_eq_iff)
  have f1e: "process.truncate (env l1) = process.truncate P"
    using ev_loop_new_env[OF s, of "mem\<lparr>env := P\<rparr>"] by (simp add: l1_def)
  have f1i: "fd_inv 0 l1"
    unfolding l1_def by (rule ev_loop_new_inv) (use m in \<open>simp_all add: mem_ready_def\<close>)
  have f1p: "evpipe1 l1 < 0"
    unfolding l1_def by (rule ev_loop_new_pipe)
  define l2 where "l2 = (ev_init w l1)\<lparr>w_sent := (w_sent (ev_init w l1))(w := False)\<rparr>"
  have f2: "w_active l2 = (\<lambda>_. 0)" "w_pending l2 = (\<lambda>_. 0)" "w_kind l2 = w_kind mem" "env l2 = env l1"
    "w_priority l2 w = 0" "evpipe1 l2 < 0"
    using f1 f1p by (simp_all add: l2_def ev_init_def fun_eq_iff)
  have inv2: "fd_inv 0 l2"
  proof -
    have "pendings l2 = replicate NUMPRI []" by (simp add: l2_def ev_init_def l1_def ev_loop_new_fields)
    then have "pend_ok l2" using f2 by (simp add: pend_ok_def)
    moreover have "io_active_ok l2 x" if "w_active l2 x \<noteq> 0" for x using that f2 by simp
    moreover have "anfds l2 = []" "fdchanges l2 = []" by (simp_all add: l2_def ev_init_def l1_def ev_loop_new_fields)
    ultimately show ?thesis using m f2 by (simp add: fd_inv_def io_from_def mem_ready_def)
  qed
  obtain l3 where l3: "evpipe_init sys l2 = Some l3" "fd_inv 0 l3" "process.truncate (env l3) = process.truncate P"
    "w_kind l3 = w_kind mem" "w_pending l3 = (\<lambda>_. 0)" "\<forall>x. x \<noteq> pipe_w \<longrightarrow> w_active l3 x = 0"
    "\<forall>x. x \<noteq> pipe_w \<longrightarrow> w_priority l3 x = w_priority l2 x"
  proof -
    have "w_kind l2 pipe_w = Ev_Io" using m f2(3) by (simp add: mem_ready_def)
    from evpipe_init_runs[OF s inv2 this _ _ f2(6)] obtain k where "evpipe_init sys l2 = Some k" "fd_inv 0 k"
      "process.truncate (env k) = process.truncate (env l2)" "w_kind k = w_kind l2" "w_pending k = w_pending l2"
      "\<forall>x. x \<noteq> pipe_w \<longrightarrow> w_active k x = w_active l2 x" "\<forall>x. x \<noteq> pipe_w \<longrightarrow> w_priority k x = w_priority l2 x"
      using f2 by auto
    then show thesis using f2 f1e by (intro that[of k]) simp_all
  qed
  define l where "l = array_start asyncs (\<lambda>ws. asyncs_update (\<lambda>_. ws)) w l3"
  have wp: "w \<noteq> pipe_w" using m by (auto simp: mem_ready_def w_def)
  then have pr: "w_priority l3 w = 0" using l3(7) f2 by simp
  have run: "loop_init_io sys mem (Inl P) = Some (Inr l, True)"
    using l3(1) by (simp add: loop_init_io_def Let_def l1_def[symmetric] w_def[symmetric] ev_async_start_def l_def)
      (simp add: l2_def ev_init_def)
  have adj: "(w_priority l3)(w := 0) = w_priority l3" using pr by (auto simp: fun_eq_iff)
  have l: "l = l3\<lparr>w_active := (w_active l3)(w := length (asyncs l3) + 1), activecnt := activecnt l3 + 1, asyncs := asyncs l3 @ [w]\<rparr>"
    using adj by (simp add: l_def array_start_def Let_def ev_start_def ev_ref_def set_active_def pri_adjust_def pr
        EV_MINPRI_def EV_MAXPRI_def)
  have f: "w_kind l = w_kind l3" "w_pending l = w_pending l3" "env l = env l3" "pendings l = pendings l3"
    "w_priority l = w_priority l3" "anfds l = anfds l3" "fdchanges l = fdchanges l3" "w_fd l = w_fd l3" "w_events l = w_events l3"
    "\<And>x. x \<noteq> w \<Longrightarrow> w_active l x = w_active l3 x"
    by (simp_all add: l)
  have kf: "w_active l x = w_active l3 x" if "w_kind l3 x = Ev_Io" for x
    by (rule f(10)) (use that l3(4) m in \<open>auto simp: mem_ready_def w_def\<close>)
  have "fd_inv 0 l" by (rule fd_inv_cong[OF l3(2)]) (simp_all add: f(1-9) kf)
  moreover note t = truncate_eqD[OF l3(3)]
  ultimately have "slots_ok l"
    using new t by (simp add: slots_ok_def slots_distinct_def idle_ok_def slot_watchers_def f)
  moreover have "w_kind l = w_kind mem" "w_pending l = (\<lambda>_. 0)" "process.truncate (env l) = process.truncate P"
    by (simp_all only: f l3)
  moreover have "w_active l x = 0" if "x \<noteq> pipe_w" "x \<noteq> lp_async P" for x
    using f(10)[of x] l3(6) that by (simp add: w_def)
  ultimately show ?thesis using run by blast
qed

subsection \<open>Dispatch\<close>

lemma find_slot_at:
  assumes "slots_ok l" "i < length (lp_ios (env l))"
  shows "find_slot (eio (lp_ios (env l) ! i)) (env l) = Some (lp_ios (env l) ! i)"
  unfolding find_slot_def find_Some_iff using assms slot_inj[OF assms(1)]
  by (intro exI[of _ i]) auto

lemma slot_not_async:
  "slots_ok l \<Longrightarrow> i < length (lp_ios (env l)) \<Longrightarrow> eio (lp_ios (env l) ! i) \<noteq> lp_async (env l)"
  using slots_okD(2)[of l] slot_watcher_in[of i "env l"] by (auto simp: slots_distinct_def)

lemma dispatch_slot:
  assumes ok: "slots_ok l" and i: "i < length (lp_ios (env l))"
  shows "loop_callbacks h (eio (lp_ios (env l) ! i)) revents l =
    (case sio_lock (lp_ios (env l) ! i) (env l) of None \<Rightarrow> Some l | Some a \<Rightarrow> handle_event h a revents l)"
  by (simp add: loop_callbacks_def find_slot_at[OF ok i] slot_not_async[OF ok i] ev_io_common_cb_def)

text \<open>An \<open>IO\<close> that is in no slot is never called.\<close>

lemma dispatch_ignores:
  assumes ok: "slots_ok l" and out: "io_index (io_objs (env l) a) < 0" and h: "\<forall>b. b \<noteq> a \<longrightarrow> h b = h' b"
  shows "loop_callbacks h w revents l = loop_callbacks h' w revents l"
proof (cases "find_slot w (env l)")
  case None
  then show ?thesis by (simp add: loop_callbacks_def)
next
  case (Some s)
  then obtain i where i: "i < length (lp_ios (env l))" "s = lp_ios (env l) ! i"
    by (auto simp: find_slot_def find_Some_iff)
  have "sio s \<noteq> Some a" using slots_okD(5)[OF ok i(1)] i(2) out by (auto simp: slot_taken_def)
  then have "h b = h' b" if "sio_lock s (env l) = Some b" for b
    using that h by (auto simp: sio_lock_def split: option.splits if_splits)
  then have "ev_io_common_cb h s revents l = ev_io_common_cb h' s revents l"
    by (simp add: ev_io_common_cb_def handle_event_def split: option.splits)
  then show ?thesis using Some by (simp add: loop_callbacks_def)
qed

lemma add_io_dispatch:
  assumes ok: "slots_ok l" and v: "io_valid (env l) b" "io_mode l b = None" and fresh: "slot_fresh l p"
  shows "\<exists>l' w. add_io p start (Some b) l = Some (l', True) \<and> io_mode l' b = Some start
    \<and> pending_events l' w = None \<and> w_fd l' w = io_fd (io_objs (env l) b)
    \<and> (io_live (io_objs (env l) b) \<longrightarrow> (\<forall>h revents. loop_callbacks h w revents l' = handle_event h b revents l'))"
proof -
  obtain i P where s: "io_slot p (env l) = (i, P)" by (cases "io_slot p (env l)")
  have f: "lp_idle (env l) = [] \<longrightarrow> slot_fresh l p" using fresh by simp
  have b: "b \<noteq> 0" "io_index (io_objs (env l) b) < 0" "0 \<le> io_fd (io_objs (env l) b)"
    "legal_events (io_events (io_objs (env l) b) OR EV__IOFDSET)"
    using v by (simp_all add: io_valid_def io_mode_def split: if_splits)
  obtain l' where l': "add_io p start (Some b) l = Some (l', True)" "slots_ok l'"
    "env l' = set_sio i (Some b) (set_index b (int i) P)" "i < length (lp_ios P)"
    "w_fd l' (eio (lp_ios P ! i)) = io_fd (io_objs (env l) b)" "w_pending l' (eio (lp_ios P ! i)) = 0"
    "w_active l' (eio (lp_ios P ! i)) \<noteq> 0 \<longleftrightarrow> start"
    using add_io_correct[OF ok f b s] by blast
  have e: "i < length (lp_ios (env l'))" "eio (lp_ios (env l') ! i) = eio (lp_ios P ! i)" "sio (lp_ios (env l') ! i) = Some b"
    "io_index (io_objs (env l') b) = int i" "io_live (io_objs (env l') b) = io_live (io_objs (env l) b)"
    using l'(4) io_slot_cases(11)[OF ok f s] by (simp_all add: l'(3) set_sio_def set_index_def upd_io_def)
  have "loop_callbacks h (eio (lp_ios P ! i)) revents l' = handle_event h b revents l'"
    if "io_live (io_objs (env l) b)" for h revents
    using dispatch_slot[OF l'(2) e(1), of h revents] that e by (simp add: sio_lock_def)
  moreover have "io_mode l' b = Some start" using e l'(7) by (simp add: io_mode_def)
  ultimately show ?thesis
    using l'(1,5,6) by (intro exI[of _ l'] exI[of _ "eio (lp_ios P ! i)"]) (auto simp: pending_events_def)
qed

subsection \<open>Properties\<close>

text \<open>For the witnesses: system calls that do nothing, memory with libev's two watchers, the watcher
  of \<open>_async\<close> at 9 and io watchers elsewhere, and \<open>IO\<close> objects that read descriptor 5.\<close>

definition still_sys :: "'e sys" where
  "still_sys = \<lparr>sys_epoll_ctl = (\<lambda>opr fd ev e. (None, e)), sys_epoll_wait = (\<lambda>n t e. (Inr [], e)),
     sys_fd_valid = (\<lambda>fd e. None), sys_get_clock = (\<lambda>e. (0, e)), sys_time = (\<lambda>e. (0, e)),
     sys_sleep = (\<lambda>t e. e), sys_have_monotonic = True, sys_getpid = (\<lambda>e. 1),
     sys_evpipe = (\<lambda>e. ((-1, 3), e)), sys_dup2 = (\<lambda>f g e. e), sys_pipe_read = (\<lambda>f e. e), sys_pipe_write = (\<lambda>f e. e)\<rparr>"

definition demo_kinds :: "wid \<Rightarrow> watcher_kind" where
  "demo_kinds w = (if w = pending_w then Ev_Prepare else if w = 9 then Ev_Async else Ev_Io)"

definition demo_process :: process where
  "demo_process = loop_new 1 9 (\<lambda>_. io_new 5 EV_READ True)"

definition blank_memory :: "(wid \<Rightarrow> watcher_kind) \<Rightarrow> 'e \<Rightarrow> 'e ev_loop" where
  "blank_memory kind e = \<lparr>w_kind = kind, w_active = (\<lambda>_. 0), w_pending = (\<lambda>_. 0), w_priority = (\<lambda>_. 0),
     w_fd = (\<lambda>_. 0), w_events = (\<lambda>_. 0), w_at = (\<lambda>_. 0), w_repeat = (\<lambda>_. 0),
     w_offset = (\<lambda>_. 0), w_interval = (\<lambda>_. 0), w_resched = (\<lambda>_. None), w_sent = (\<lambda>_. False),
     ev_rt_now = 0, mn_now = 0, now_floor = 0, rtmn_diff = 0, io_blocktime = 0, timeout_blocktime = 0,
     backend_mintime = 0, pendings = [], pendingpri = 0, rfeeds = [], anfds = [], fdchanges = [],
     timers = (\<lambda>_. \<lparr>anhe_at = 0, anhe_w = 0\<rparr>), timercnt = 0,
     periodics = (\<lambda>_. \<lparr>anhe_at = 0, anhe_w = 0\<rparr>), periodiccnt = 0, idles = [], idleall = 0,
     prepares = [], checks = [], forks = [], cleanups = [], asyncs = [], async_pending = False,
     pipe_write_wanted = False, pipe_write_skipped = False, evpipe0 = 0, evpipe1 = 0, curpid = 0, activecnt = 0, loop_count = 0,
     loop_depth = 0, loop_done = 0, postfork = 0, epoll_eperms = [], epoll_eventmax = 0, env = e\<rparr>"

definition demo_memory :: "process ev_loop" where
  "demo_memory = blank_memory demo_kinds demo_process"

lemma demo_ready: "sys_apart (still_sys :: process sys)" "mem_ready (lp_async demo_process) demo_memory"
    "lp_ios demo_process = []" "lp_idle demo_process = []"
  by (simp_all add: sys_apart_def still_sys_def mem_ready_def demo_memory_def blank_memory_def demo_process_def loop_new_def
      demo_kinds_def pending_w_def pipe_w_def)

lemma demo_io: "io_objs demo_process a = io_new 5 EV_READ True"
  by (simp add: demo_process_def loop_new_def)

lemma demo_legal: "legal_events (EV_READ OR EV__IOFDSET)"
  by (simp add: legal_events_def EV_READ_def EV__IOFDSET_def EV_WRITE_def EV_ET_def)

text \<open>Operations on objects that are in no loop yet, with memory from \<open>new\<close>, on a new loop.\<close>

definition ops_ok :: "(wid \<Rightarrow> watcher_kind) \<Rightarrow> process \<Rightarrow> loop_op list \<Rightarrow> bool" where
  "ops_ok kind P qs \<longleftrightarrow>
     (\<forall>q \<in> set qs. io_valid P (op_io q) \<and> io_index (io_objs P (op_io q)) < 0
        \<and> (\<forall>p \<in> set (op_mem q). kind p = Ev_Io \<and> p \<noteq> pipe_w))
     \<and> distinct (concat (map op_mem qs))"

lemma run_new_loop:
  assumes l: "slots_ok l" "process.truncate (env l) = process.truncate P" "w_kind l = w_kind mem" "w_pending l = (\<lambda>_. 0)"
      "\<forall>x. x \<noteq> pipe_w \<longrightarrow> x \<noteq> lp_async P \<longrightarrow> w_active l x = 0"
    and new: "lp_ios P = []" "w_kind mem (lp_async P) = Ev_Async" and qs: "ops_ok (w_kind mem) P qs"
  shows "\<exists>l'. run_ops qs l = Some (l', replicate (length qs) True) \<and> slots_ok l'
    \<and> (\<forall>q \<in> set qs. io_mode l' (op_io q) = fold op_spec qs (\<lambda>_. None) (op_io q))"
proof -
  note t = truncate_eqD[OF l(2)]
  have v: "io_valid (env l) a = io_valid P a" for a by (simp add: io_valid_def io_mine_def t)
  have fr: "slot_fresh l p" if "w_kind mem p = Ev_Io" "p \<noteq> pipe_w" for p
  proof -
    have "p \<noteq> lp_async P" using that new by auto
    then show ?thesis using that l(3-5) new(1) by (simp add: slot_fresh_def t slot_watchers_def)
  qed
  have q: "io_valid P (op_io q)" "io_index (io_objs P (op_io q)) < 0"
      "p \<in> set (op_mem q) \<Longrightarrow> w_kind mem p = Ev_Io \<and> p \<noteq> pipe_w" if "q \<in> set qs" for q p
    using that qs unfolding ops_ok_def by blast+
  have d: "distinct (concat (map op_mem qs))" using qs by (simp add: ops_ok_def)
  have m: "io_mode l (op_io q) = None" if "q \<in> set qs" for q
    using q(2)[OF that] by (simp add: io_mode_def t)
  obtain l' where l': "run_ops qs l = Some (l', replicate (length qs) True)" "slots_ok l'"
    "\<forall>a. io_valid (env l) a \<longrightarrow> io_valid (env l') a \<and> io_mode l' a = fold op_spec qs (io_mode l) a"
    using run_ops_done[OF l(1) _ d] q fr v by blast
  have "io_mode l' (op_io q) = fold op_spec qs (\<lambda>_. None) (op_io q)" if q': "q \<in> set qs" for q
  proof -
    have "fold op_spec qs (io_mode l) (op_io q) = fold op_spec qs (\<lambda>_. None) (op_io q)"
      by (rule specs_pointwise, rule m[OF q'])
    then show ?thesis using l'(3) v q(1)[OF q'] by simp
  qed
  then show ?thesis using l' by blast
qed

text \<open>C18: a loop that has been initialised keeps track of its objects: any sequence of adding, removing,
  stopping and starting \<open>IO\<close>s returns \<open>true\<close> each time without failing an assertion of libev or leaving
  the table, whatever slots are reused; at the end every \<open>IO\<close> is in the loop and started, in it and
  stopped, or out of it exactly as the same operations on a map from objects to these modes say, and the
  table, the queue of free slots and the indices of the objects agree.\<close>

theorem loop_tracks_ios:
  assumes "sys_apart sys" and "mem_ready (lp_async P) mem" and "lp_ios P = []" "lp_idle P = []"
    and "ops_ok (w_kind mem) P qs"
  shows "\<exists>l l'. loop_init_io sys mem (Inl P) = Some (Inr l, True)
    \<and> run_ops qs l = Some (l', replicate (length qs) True) \<and> slots_ok l'
    \<and> (\<forall>q \<in> set qs. io_mode l' (op_io q) = fold op_spec qs (\<lambda>_. None) (op_io q))"
proof -
  obtain l where l: "loop_init_io sys mem (Inl P) = Some (Inr l, True)" "slots_ok l"
    "process.truncate (env l) = process.truncate P" "w_kind l = w_kind mem" "w_pending l = (\<lambda>_. 0)"
    "\<forall>x. x \<noteq> pipe_w \<longrightarrow> x \<noteq> lp_async P \<longrightarrow> w_active l x = 0"
    using loop_init_ok[OF assms(1-4)] by blast
  have "w_kind mem (lp_async P) = Ev_Async" using assms(2) by (simp add: mem_ready_def)
  then show ?thesis using run_new_loop[OF l(2-6) assms(3) _ assms(5)] l(1) by blast
qed

definition demo_ops :: "loop_op list" where
  "demo_ops = [Add_Io 4 True 20, Add_Io 6 False 21, Remove_Io 4, Add_Io 8 True 22, Stop_Io 8, Start_Io 6]"

lemma demo_ops_ok: "ops_ok (w_kind demo_memory) demo_process demo_ops"
  using demo_legal
  by (simp add: ops_ok_def demo_ops_def io_valid_def io_mine_def demo_io io_new_def demo_memory_def blank_memory_def demo_kinds_def
      pending_w_def pipe_w_def)

theorem loop_tracks_ios_witness:
  "\<exists>l l'. loop_init_io still_sys demo_memory (Inl demo_process) = Some (Inr l, True)
    \<and> run_ops demo_ops l = Some (l', replicate 6 True)
    \<and> io_mode l' 4 = None \<and> io_mode l' 6 = Some True \<and> io_mode l' 8 = Some False"
proof -
  obtain l l' where *: "loop_init_io still_sys demo_memory (Inl demo_process) = Some (Inr l, True)"
    "run_ops demo_ops l = Some (l', replicate (length demo_ops) True)"
    "\<forall>q \<in> set demo_ops. io_mode l' (op_io q) = fold op_spec demo_ops (\<lambda>_. None) (op_io q)"
    using loop_tracks_ios[OF demo_ready demo_ops_ok] by blast
  moreover have "length demo_ops = 6" by (simp add: demo_ops_def)
  moreover have "io_mode l' 4 = None" "io_mode l' 6 = Some True" "io_mode l' 8 = Some False"
    using *(3) by (simp_all add: demo_ops_def)
  ultimately show ?thesis by metis
qed

text \<open>The loop of the other witnesses: it is new and 4 has been added in the slot at 20.\<close>

lemma demo_loop:
  "\<exists>l :: process ev_loop. slots_ok l \<and> io_valid (env l) 4 \<and> io_mode l 4 = Some True \<and> length (lp_ios (env l)) = 1
    \<and> sio (lp_ios (env l) ! 0) = Some 4 \<and> io_index (io_objs (env l) 4) = 0
    \<and> io_valid (env l) 6 \<and> io_mode l 6 = None \<and> slot_fresh l 21"
proof -
  obtain l :: "process ev_loop" where l: "slots_ok l" "process.truncate (env l) = process.truncate demo_process" "w_kind l = w_kind demo_memory"
    "w_pending l = (\<lambda>_. 0)" "\<forall>x. x \<noteq> pipe_w \<longrightarrow> x \<noteq> lp_async demo_process \<longrightarrow> w_active l x = 0"
    using loop_init_ok[OF demo_ready] by blast
  note t = truncate_eqD[OF l(2)]
  have v: "io_valid (env l) a" if "a \<noteq> 0" for a
    using that demo_legal by (simp add: io_valid_def io_mine_def t demo_io io_new_def)
  have n: "io_index (io_objs (env l) a) < 0" "io_mode l a = None" for a by (simp_all add: t demo_io io_new_def io_mode_def)
  have dp: "lp_async demo_process = 9" "lp_ios demo_process = []" "w_kind demo_memory = demo_kinds"
    by (simp_all add: demo_process_def loop_new_def demo_memory_def blank_memory_def)
  have f: "slot_fresh l 20" "slot_fresh l 21"
    using l(3-5) by (simp_all add: slot_fresh_def t slot_watchers_def dp demo_kinds_def pending_w_def pipe_w_def)
  obtain l' where d: "op_done (Add_Io 4 True 20) l l'" using add_io_done[OF l(1) v n(1) f(1), of 4 True] by auto
  then have dd: "add_io 20 True (Some 4) l = Some (l', True)" "slots_ok l'" "slot_fresh l' 21"
    "io_valid (env l') 4" "io_valid (env l') 6" "io_mode l' 4 = Some True" "io_mode l' 6 = None"
    using v[of 4] v[of 6] n(2) f(2) by (simp_all add: op_done_def)
  have idle: "lp_idle (env l) = []" "lp_ios (env l) = []" by (simp_all add: t demo_process_def loop_new_def)
  obtain P where s: "io_slot 20 (env l) = (0, P)" "lp_ios P = [\<lparr>eio = 20, sio = None\<rparr>]"
    using idle by (simp add: io_slot_def)
  have o4: "0 \<le> io_fd (io_objs (env l) 4)" "legal_events (io_events (io_objs (env l) 4) OR EV__IOFDSET)"
    using v[of 4] by (simp_all add: io_valid_def)
  obtain l2 where "add_io 20 True (Some 4) l = Some (l2, True)" "env l2 = set_sio 0 (Some 4) (set_index 4 (int 0) P)"
    using add_io_correct[OF l(1) _ _ n(1) o4 s(1), of True] f(1) by auto
  with dd(1) have "env l' = set_sio 0 (Some 4) (set_index 4 (int 0) P)" by simp
  then have "length (lp_ios (env l')) = 1" "sio (lp_ios (env l') ! 0) = Some 4" "io_index (io_objs (env l') 4) = 0"
    by (simp_all add: set_sio_def set_index_def upd_io_def s(2))
  then show ?thesis using dd by blast
qed



text \<open>The check of \<open>remove_io\<close> that the slot belongs to the object compares addresses in one
  direction only: an \<open>IO\<close> of another loop whose index is that of a slot here evicts the occupant of the
  slot when the address of its control block is the lower one. The call returns \<open>true\<close>, the occupant's
  watcher is stopped and its slot freed although the occupant still has the index, and the next \<open>IO\<close> that
  is added gets the slot: a \<open>stop_io\<close> of the evicted object then stops the watcher of that one.\<close>

theorem loop_remove_foreign:
  assumes "slots_ok l" and "io_index (io_objs (env l) a) = int i" and "i < length (lp_ios (env l))"
    and "sio (lp_ios (env l) ! i) = Some b" and "a < b"
  shows "(\<exists>l'. remove_io (Some a) l = Some (l', True) \<and> slot_asleep l' i \<and> i \<in> set (lp_idle (env l'))
      \<and> io_index (io_objs (env l') b) = int i \<and> \<not> io_mine (env l') b)
    \<and> (\<forall>c. io_index (io_objs (env l) c) = int i \<and> b < c \<longrightarrow> remove_io (Some c) l = Some (l, False))"
proof
  obtain l' where l': "remove_io (Some a) l = Some (l', True)"
    "env l' = set_sio i None (set_index a (-1) (env l\<lparr>lp_idle := lp_idle (env l) @ [i]\<rparr>))" "slot_asleep l' i"
    using remove_io_correct[OF assms(1-4)] assms(5) by auto
  moreover have "io_index (io_objs (env l) b) = int i" using slots_okD(5)[OF assms(1,3,4)] by (simp add: slot_taken_def)
  ultimately show "\<exists>l'. remove_io (Some a) l = Some (l', True) \<and> slot_asleep l' i \<and> i \<in> set (lp_idle (env l'))
    \<and> io_index (io_objs (env l') b) = int i \<and> \<not> io_mine (env l') b"
    using assms(3,5) by (auto simp: set_sio_def set_index_def upd_io_def io_mine_def)
  show "\<forall>c. io_index (io_objs (env l) c) = int i \<and> b < c \<longrightarrow> remove_io (Some c) l = Some (l, False)"
    using assms(3,4) by (simp add: remove_io_def Let_def owner_before_def owner_key_def)
qed

theorem loop_remove_foreign_witness:
  "\<exists>l :: process ev_loop. slots_ok l \<and> io_mode l 4 = Some True \<and> io_index (io_objs (env l) 2) = 0
    \<and> (\<exists>l'. remove_io (Some 2) l = Some (l', True) \<and> \<not> io_mine (env l') 4 \<and> slot_asleep l' 0)"
proof -
  obtain l0 :: "process ev_loop" where l0: "slots_ok l0" "io_mode l0 4 = Some True" "length (lp_ios (env l0)) = 1"
    "sio (lp_ios (env l0) ! 0) = Some 4" "io_index (io_objs (env l0) 4) = 0"
    using demo_loop by blast
  define l where "l = upd_env (set_index 2 0) l0"
  have e: "lp_ios (env l) = lp_ios (env l0)" "io_index (io_objs (env l) c) = (if c = 2 then 0 else io_index (io_objs (env l0) c))"
    "lp_idle (env l) = lp_idle (env l0)" "lp_async (env l) = lp_async (env l0)" "w_kind l = w_kind l0" "w_fd l = w_fd l0"
    "w_events l = w_events l0" "w_active l = w_active l0" "w_pending l = w_pending l0" for c
    by (simp_all add: l_def upd_env_def set_index_def upd_io_def)
  have "fd_inv 0 l" using slots_okD(1)[OF l0(1)] by (simp add: l_def)
  moreover have "slots_distinct l" "idle_ok (env l)"
    using slots_okD(2,3)[OF l0(1)] by (simp_all add: slots_distinct_def idle_ok_def slot_watchers_def e)
  moreover have "slot_taken l 0 4" using slots_okD(5)[OF l0(1) _ l0(4)] l0(3) by (simp add: slot_taken_def e)
  ultimately have "slots_ok l" using l0(3,4) by (simp add: slots_ok_def e)
  moreover have "io_mode l 4 = Some True" using l0(2,5) by (simp add: io_mode_def e)
  moreover have "io_index (io_objs (env l) 2) = int 0" by (simp add: e)
  ultimately show ?thesis using loop_remove_foreign[of l 2 0 4] l0(3,4) e(1) by auto
qed

end
