(* ===== verification/Redis_Proxy.thy ===== *)
theory Redis_Proxy
  imports Event_Loop
begin

text \<open>
  The asynchronous client of the Redis server (\<open>redis/redis_proxy.cpp\<close>, \<open>redis_proxy.h\<close>): it hands
  commands to hiredis, keeps the function for the reply of each in a queue, and starts and stops the two
  watchers of its descriptor when hiredis asks for it. Every thread has its own (\<open>get_local_redis\<close>).

  hiredis is not part of the program. What the client relies on is the documented behaviour of its
  functions: \<open>redisAsyncConnect\<close> gives a context with an error code and a descriptor, or none; a
  command that \<open>redisAsyncCommand\<close> accepts is answered once, in the order of the commands, by a call
  of the callback with the reply, which is null when the connection is lost; a command it does not
  accept (\<open>REDIS_ERR\<close>) is not answered. A function is a value of the type \<open>'f\<close> here.
\<close>

section \<open>The Redis client\<close>

subsection \<open>State\<close>

record 'f redis_proxy =
  rp_context :: bool
  rp_connected :: bool
  rp_reading :: bool
  rp_writting :: bool
  rp_callbacks :: "'f list"
  rp_read_io :: "io_id option"
  rp_write_io :: "io_id option"

definition redis_proxy_new :: "'f redis_proxy" where
  "redis_proxy_new = \<lparr>rp_context = False, rp_connected = False, rp_reading = False, rp_writting = False,
     rp_callbacks = [], rp_read_io = None, rp_write_io = None\<rparr>"

datatype redis_reply =
    Reply_String string | Reply_Array "redis_reply list" | Reply_Integer int | Reply_Nil
  | Reply_Status string | Reply_Error string

text \<open>A \<open>char *\<close> ends at its first null character.\<close>

definition c_str :: "string \<Rightarrow> string" where
  "c_str s = takeWhile (\<lambda>c. c \<noteq> char_of (0 :: nat)) s"

text \<open>The field \<open>str\<close> of a reply, null for the types without text.\<close>

fun reply_str :: "redis_reply \<Rightarrow> string option" where
  "reply_str (Reply_String s) = Some (c_str s)"
| "reply_str (Reply_Status s) = Some (c_str s)"
| "reply_str (Reply_Error s) = Some (c_str s)"
| "reply_str _ = None"

subsection \<open>Requests and replies\<close>

datatype redis_command = Command_Line string | Command_Argv "string list"

text \<open>
  \<open>redisAsyncCommand\<close> takes a format: a percent sign that is followed by another character than
  itself consumes an argument, and the client passes none.
\<close>

fun has_directive :: "string \<Rightarrow> bool" where
  "has_directive (x # y # s) =
     (if x = CHR ''%'' then (if y = CHR ''%'' then has_directive s else True) else has_directive (y # s))"
| "has_directive _ = False"

text \<open>The hiredis side: whether a command is accepted, and the state after it.\<close>

type_synonym 'c hiredis = "redis_command \<Rightarrow> 'c \<Rightarrow> bool \<times> 'c"

definition push_callback :: "'f \<Rightarrow> 'f redis_proxy \<Rightarrow> 'f redis_proxy" where
  "push_callback f p = p\<lparr>rp_callbacks := rp_callbacks p @ [f]\<rparr>"

definition send_argv ::
  "'c hiredis \<Rightarrow> string list \<Rightarrow> 'f \<Rightarrow> 'f redis_proxy \<times> 'c \<Rightarrow> (('f redis_proxy \<times> 'c) \<times> bool) option" where
  "send_argv hi commands f s =
     (case s of (p, c) \<Rightarrow>
        if \<not> rp_context p \<or> commands = [] then Some ((p, c), False)
        else
          (let p1 = push_callback f p; (_, c1) = hi (Command_Argv commands) c
           in Some ((p1, c1), True)))"

definition send_line ::
  "'c hiredis \<Rightarrow> string \<Rightarrow> 'f \<Rightarrow> 'f redis_proxy \<times> 'c \<Rightarrow> (('f redis_proxy \<times> 'c) \<times> bool) option" where
  "send_line hi command f s =
     (case s of (p, c) \<Rightarrow>
        if \<not> rp_context p \<or> command = [] then Some ((p, c), False)
        else if has_directive (c_str command) then None
        else
          (let p1 = push_callback f p; (_, c1) = hi (Command_Line (c_str command)) c
           in Some ((p1, c1), True)))"

text \<open>
  \<open>redis_callback\<close>: the oldest function is taken out and called. A null reply is dereferenced, an
  empty queue has no front.
\<close>

definition redis_callback :: "redis_reply option \<Rightarrow> 'f redis_proxy \<Rightarrow> ('f redis_proxy \<times> 'f \<times> redis_reply) option" where
  "redis_callback r p =
     (case rp_callbacks p of
        [] \<Rightarrow> None
      | f # fs \<Rightarrow> map_option (\<lambda>reply. (p\<lparr>rp_callbacks := fs\<rparr>, f, reply)) r)"

subsection \<open>The connection\<close>

record 'f redis_process = process +
  redis :: "'f redis_proxy"

definition upd_redis :: "('f redis_proxy \<Rightarrow> 'f redis_proxy) \<Rightarrow> ('f, 'u) redis_process_scheme ev_loop \<Rightarrow> ('f, 'u) redis_process_scheme ev_loop" where
  "upd_redis g = upd_env (redis_update g)"

text \<open>
  \<open>connect\<close>: \<open>ctx\<close> is what \<open>redisAsyncConnect\<close> returned, the error code and the descriptor; the two
  new \<open>IO\<close> objects get the addresses \<open>a\<close> and \<open>b\<close>, the slots of the loop \<open>pa\<close> and \<open>pb\<close> if they are
  new. Without a libev loop the objects are made but not added.
\<close>

definition make_io :: "io_id \<Rightarrow> io_obj \<Rightarrow> 'u process_scheme \<Rightarrow> 'u process_scheme" where
  "make_io a o1 = upd_io a (\<lambda>_. o1)"

definition redis_connect ::
  "(int \<times> int) option \<Rightarrow> io_id \<times> wid \<Rightarrow> io_id \<times> wid \<Rightarrow> ('f, 'u) redis_process_scheme ev_loop \<Rightarrow> ('f, 'u) redis_process_scheme ev_loop option" where
  "redis_connect ctx rd wr l =
     (if rp_connected (redis (env l)) then Some l
      else
        (case ctx of
           None \<Rightarrow> Some (upd_redis (rp_context_update (\<lambda>_. False)) l)
         | Some (err, fd) \<Rightarrow>
             if err \<noteq> 0 then Some (upd_redis (rp_context_update (\<lambda>_. False)) l)
             else do {
               let l1 = upd_redis (rp_context_update (\<lambda>_. True)) l;
               let l2 = upd_env (make_io (fst rd) (io_new fd EV_READ False)) l1;
               let l3 = upd_redis (rp_read_io_update (\<lambda>_. Some (fst rd))) l2;
               let l4 = upd_env (make_io (fst wr) (io_new fd EV_WRITE False)) l3;
               let l5 = upd_redis (rp_write_io_update (\<lambda>_. Some (fst wr))) l4;
               (l6, ok1) \<leftarrow> add_io (snd rd) False (rp_read_io (redis (env l5))) l5;
               (l7, ok2) \<leftarrow> (if ok1 then add_io (snd wr) False (rp_write_io (redis (env l6))) l6 else Some (l6, False));
               Some (upd_redis (rp_connected_update (\<lambda>_. ok1 \<and> ok2)) l7) }))"

definition redis_add_read :: "('f, 'u) redis_process_scheme ev_loop \<Rightarrow> ('f, 'u) redis_process_scheme ev_loop option" where
  "redis_add_read l =
     (if \<not> rp_reading (redis (env l)) then
        (let l1 = upd_redis (rp_reading_update (\<lambda>_. True)) l in map_option fst (start_io (rp_read_io (redis (env l1))) l1))
      else Some l)"

definition redis_del_read :: "('f, 'u) redis_process_scheme ev_loop \<Rightarrow> ('f, 'u) redis_process_scheme ev_loop option" where
  "redis_del_read l =
     (if rp_reading (redis (env l)) then
        (let l1 = upd_redis (rp_reading_update (\<lambda>_. False)) l in map_option fst (stop_io (rp_read_io (redis (env l1))) l1))
      else Some l)"

definition redis_add_write :: "('f, 'u) redis_process_scheme ev_loop \<Rightarrow> ('f, 'u) redis_process_scheme ev_loop option" where
  "redis_add_write l =
     (if \<not> rp_writting (redis (env l)) then
        (let l1 = upd_redis (rp_writting_update (\<lambda>_. True)) l in map_option fst (start_io (rp_write_io (redis (env l1))) l1))
      else Some l)"

definition redis_del_write :: "('f, 'u) redis_process_scheme ev_loop \<Rightarrow> ('f, 'u) redis_process_scheme ev_loop option" where
  "redis_del_write l =
     (if rp_writting (redis (env l)) then
        (let l1 = upd_redis (rp_writting_update (\<lambda>_. False)) l in map_option fst (stop_io (rp_write_io (redis (env l1))) l1))
      else Some l)"

definition redis_cleanup :: "('f, 'u) redis_process_scheme ev_loop \<Rightarrow> ('f, 'u) redis_process_scheme ev_loop option" where
  "redis_cleanup l = Option.bind (redis_del_read l) redis_del_write"

definition get_local_redis ::
  "(int \<times> int) option \<Rightarrow> io_id \<times> wid \<Rightarrow> io_id \<times> wid \<Rightarrow> ('f, 'u) redis_process_scheme ev_loop \<Rightarrow> ('f, 'u) redis_process_scheme ev_loop option" where
  "get_local_redis ctx rd wr l = (if \<not> rp_connected (redis (env l)) then redis_connect ctx rd wr l else Some l)"

subsection \<open>Replies find their functions\<close>

text \<open>
  hiredis as it is documented: the commands that are accepted and not answered yet, oldest first.
  \<open>refuse\<close> says which commands it does not accept.
\<close>

definition queue_hiredis :: "(redis_command \<Rightarrow> bool) \<Rightarrow> redis_command list hiredis" where
  "queue_hiredis refuse cmd c = (if refuse cmd then (False, c) else (True, c @ [cmd]))"

text \<open>What happens at the client: somebody sends a command with a function, or the oldest command is
  answered. The result lists the command of each answer, the function that was called and the reply.\<close>

datatype 'f redis_step = Send redis_command 'f | Answer redis_reply

fun redis_send :: "'c hiredis \<Rightarrow> redis_command \<Rightarrow> 'f \<Rightarrow> 'f redis_proxy \<times> 'c \<Rightarrow> (('f redis_proxy \<times> 'c) \<times> bool) option" where
  "redis_send hi (Command_Argv cmds) f s = send_argv hi cmds f s"
| "redis_send hi (Command_Line cmd) f s = send_line hi cmd f s"

fun redis_run ::
  "(redis_command \<Rightarrow> bool) \<Rightarrow> 'f redis_step list \<Rightarrow> 'f redis_proxy \<times> redis_command list \<Rightarrow>
   (('f redis_proxy \<times> redis_command list) \<times> (redis_command \<times> 'f \<times> redis_reply) list) option" where
  "redis_run refuse [] s = Some (s, [])"
| "redis_run refuse (Send cmd f # steps) s = do {
     (s1, _) \<leftarrow> redis_send (queue_hiredis refuse) cmd f s;
     redis_run refuse steps s1 }"
| "redis_run refuse (Answer r # steps) (p, c) =
     (case c of
        [] \<Rightarrow> redis_run refuse steps (p, c)
      | cmd # c1 \<Rightarrow> do {
          (p1, f, reply) \<leftarrow> redis_callback (Some r) p;
          (s2, calls) \<leftarrow> redis_run refuse steps (p1, c1);
          Some (s2, (cmd, f, reply) # calls) })"

text \<open>Commands the client can send as they are: not empty, and a line without null characters and
  without percent signs that hiredis would expand.\<close>

fun sendable :: "redis_command \<Rightarrow> bool" where
  "sendable (Command_Argv cmds) \<longleftrightarrow> cmds \<noteq> []"
| "sendable (Command_Line cmd) \<longleftrightarrow> cmd \<noteq> [] \<and> char_of (0 :: nat) \<notin> set cmd \<and> \<not> has_directive cmd"

fun sends :: "'f redis_step list \<Rightarrow> (redis_command \<times> 'f) list" where
  "sends [] = []" | "sends (Send cmd f # steps) = (cmd, f) # sends steps" | "sends (Answer r # steps) = sends steps"

fun answers :: "'f redis_step list \<Rightarrow> redis_reply list" where
  "answers [] = []" | "answers (Send cmd f # steps) = answers steps" | "answers (Answer r # steps) = r # answers steps"

text \<open>At no point more answers than commands, with \<open>n\<close> commands open at the start.\<close>

fun answerable :: "nat \<Rightarrow> 'f redis_step list \<Rightarrow> bool" where
  "answerable n [] \<longleftrightarrow> True"
| "answerable n (Send cmd f # steps) \<longleftrightarrow> answerable (Suc n) steps"
| "answerable n (Answer r # steps) \<longleftrightarrow> 0 < n \<and> answerable (n - 1) steps"

lemma c_str_id: "char_of (0 :: nat) \<notin> set s \<Longrightarrow> c_str s = s"
  by (auto simp: c_str_def takeWhile_eq_all_conv)

lemma redis_send_queue:
  assumes "rp_context p" "sendable cmd"
  shows "redis_send (queue_hiredis refuse) cmd f (p, c) =
    Some ((push_callback f p, if refuse cmd then c else c @ [cmd]), True)"
  using assms by (cases cmd) (auto simp: send_argv_def send_line_def queue_hiredis_def c_str_id)

lemma redis_run_matched:
  assumes "rp_context p" "length c = length (rp_callbacks p)" "answerable (length c) steps"
    "\<forall>(cmd, f) \<in> set (sends steps). sendable cmd \<and> \<not> refuse cmd"
  shows "\<exists>p' c' calls. redis_run refuse steps (p, c) = Some ((p', c'), calls) \<and> length c' = length (rp_callbacks p')
    \<and> map (\<lambda>(cmd, f, r). (cmd, f)) calls @ zip c' (rp_callbacks p') = zip c (rp_callbacks p) @ sends steps
    \<and> map (\<lambda>(cmd, f, r). r) calls = answers steps"
  using assms
proof (induction steps arbitrary: p c)
  case (Cons a steps)
  show ?case
  proof (cases a)
    case (Send cmd f)
    then have ok: "sendable cmd" "\<not> refuse cmd" using Cons.prems(4) by auto
    let ?p = "push_callback f p"
    have p1: "rp_context ?p" "length (c @ [cmd]) = length (rp_callbacks ?p)"
      using Cons.prems(1,2) by (simp_all add: push_callback_def)
    have "zip (c @ [cmd]) (rp_callbacks ?p) = zip c (rp_callbacks p) @ [(cmd, f)]"
      using Cons.prems(2) by (simp add: push_callback_def)
    then show ?thesis
      using Cons.IH[OF p1] Cons.prems(3,4) ok by (simp add: Send redis_send_queue[OF Cons.prems(1)])
  next
    case (Answer r)
    obtain cmd c1 f fs where c: "c = cmd # c1" "rp_callbacks p = f # fs"
      using Cons.prems(2,3) Answer by (cases c; cases "rp_callbacks p") auto
    let ?p = "p\<lparr>rp_callbacks := fs\<rparr>"
    have p1: "rp_context ?p" "length c1 = length (rp_callbacks ?p)" "answerable (length c1) steps"
      using Cons.prems(1-3) by (simp_all add: c Answer)
    obtain p' c' calls where "redis_run refuse steps (?p, c1) = Some ((p', c'), calls)" "length c' = length (rp_callbacks p')"
      "map (\<lambda>(cmd, f, r). (cmd, f)) calls @ zip c' (rp_callbacks p') = zip c1 fs @ sends steps"
      "map (\<lambda>(cmd, f, r). r) calls = answers steps"
      using Cons.IH[OF p1] Cons.prems(4) by (auto simp: Answer)
    then show ?thesis by (simp add: Answer c redis_callback_def)
  qed
qed simp

text \<open>A command that was refused leaves its function in the queue: from then on every reply goes to
  the function of the command before.\<close>

lemma redis_run_shifted:
  assumes "rp_context p" "length (rp_callbacks p) = Suc (length c)" "answerable (length c) steps"
    "\<forall>(cmd, f) \<in> set (sends steps). sendable cmd \<and> \<not> refuse cmd"
  shows "\<exists>p' c' calls. redis_run refuse steps (p, c) = Some ((p', c'), calls)
    \<and> length (rp_callbacks p') = Suc (length c')
    \<and> map fst calls @ c' = c @ map fst (sends steps)
    \<and> map (\<lambda>(cmd, f, r). f) calls @ rp_callbacks p' = rp_callbacks p @ map snd (sends steps)
    \<and> map (\<lambda>(cmd, f, r). r) calls = answers steps"
  using assms
proof (induction steps arbitrary: p c)
  case (Cons a steps)
  show ?case
  proof (cases a)
    case (Send cmd f)
    then have ok: "sendable cmd" "\<not> refuse cmd" using Cons.prems(4) by auto
    let ?p = "push_callback f p"
    have p1: "rp_context ?p" "length (rp_callbacks ?p) = Suc (length (c @ [cmd]))"
      using Cons.prems(1,2) by (simp_all add: push_callback_def)
    show ?thesis
      using Cons.IH[OF p1] Cons.prems(3,4) ok
      by (simp add: Send redis_send_queue[OF Cons.prems(1)] push_callback_def)
  next
    case (Answer r)
    obtain cmd c1 f fs where c: "c = cmd # c1" "rp_callbacks p = f # fs"
      using Cons.prems(2,3) Answer by (cases c; cases "rp_callbacks p") auto
    let ?p = "p\<lparr>rp_callbacks := fs\<rparr>"
    have p1: "rp_context ?p" "length (rp_callbacks ?p) = Suc (length c1)" "answerable (length c1) steps"
      using Cons.prems(1-3) by (simp_all add: c Answer)
    obtain p' c' calls where "redis_run refuse steps (?p, c1) = Some ((p', c'), calls)"
      "length (rp_callbacks p') = Suc (length c')"
      "map fst calls @ c' = c1 @ map fst (sends steps)"
      "map (\<lambda>(cmd, f, r). f) calls @ rp_callbacks p' = fs @ map snd (sends steps)"
      "map (\<lambda>(cmd, f, r). r) calls = answers steps"
      using Cons.IH[OF p1] Cons.prems(4) by (auto simp: Answer)
    then show ?thesis by (simp add: Answer c redis_callback_def)
  qed
qed simp

subsection \<open>The watchers follow hiredis\<close>

lemma slots_ok_env:
  assumes "slots_ok l" "process.truncate e = process.truncate (env l)"
  shows "slots_ok (l\<lparr>env := e\<rparr>)" "io_mode (l\<lparr>env := e\<rparr>) = io_mode l" "io_valid e = io_valid (env l)"
proof -
  note t = truncate_eqD[OF assms(2)]
  show "slots_ok (l\<lparr>env := e\<rparr>)"
    using assms(1) by (simp add: slots_ok_def slots_distinct_def idle_ok_def slot_watchers_def slot_asleep_def
        slot_taken_def t cong: option.case_cong)
  show "io_mode (l\<lparr>env := e\<rparr>) = io_mode l" by (simp add: io_mode_def fun_eq_iff t)
  show "io_valid e = io_valid (env l)" by (simp add: io_valid_def io_mine_def fun_eq_iff t)
qed

lemma truncate_redis [simp]: "process.truncate (redis_update g P) = process.truncate P"
  by (simp add: process.truncate_def)

lemma upd_redis_facts:
  assumes "slots_ok l"
  shows "slots_ok (upd_redis g l)" "io_mode (upd_redis g l) = io_mode l" "io_valid (env (upd_redis g l)) = io_valid (env l)"
    "redis (env (upd_redis g l)) = g (redis (env l))"
  using slots_ok_env[OF assms, of "redis_update g (env l)"] by (simp_all add: upd_redis_def upd_env_def)

text \<open>The client's flags say what its two watchers are doing.\<close>

definition redis_watching :: "('f, 'u) redis_process_scheme ev_loop \<Rightarrow> bool" where
  "redis_watching l \<longleftrightarrow> slots_ok l \<and>
     (\<exists>a b. rp_read_io (redis (env l)) = Some a \<and> rp_write_io (redis (env l)) = Some b \<and> a \<noteq> b
        \<and> io_valid (env l) a \<and> io_valid (env l) b
        \<and> io_mode l a = Some (rp_reading (redis (env l))) \<and> io_mode l b = Some (rp_writting (redis (env l))))"

datatype redis_hook = Add_Read | Del_Read | Add_Write | Del_Write | Cleanup

fun run_hook :: "redis_hook \<Rightarrow> ('f, 'u) redis_process_scheme ev_loop \<Rightarrow> ('f, 'u) redis_process_scheme ev_loop option" where
  "run_hook Add_Read l = redis_add_read l"
| "run_hook Del_Read l = redis_del_read l"
| "run_hook Add_Write l = redis_add_write l"
| "run_hook Del_Write l = redis_del_write l"
| "run_hook Cleanup l = redis_cleanup l"

fun run_hooks :: "redis_hook list \<Rightarrow> ('f, 'u) redis_process_scheme ev_loop \<Rightarrow> ('f, 'u) redis_process_scheme ev_loop option" where
  "run_hooks [] l = Some l"
| "run_hooks (h # hs) l = Option.bind (run_hook h l) (run_hooks hs)"

fun hook_spec :: "redis_hook \<Rightarrow> bool \<times> bool \<Rightarrow> bool \<times> bool" where
  "hook_spec Add_Read (r, w) = (True, w)"
| "hook_spec Del_Read (r, w) = (False, w)"
| "hook_spec Add_Write (r, w) = (r, True)"
| "hook_spec Del_Write (r, w) = (r, False)"
| "hook_spec Cleanup (r, w) = (False, False)"

definition redis_flags :: "('f, 'u) redis_process_scheme ev_loop \<Rightarrow> bool \<times> bool" where
  "redis_flags l = (rp_reading (redis (env l)), rp_writting (redis (env l)))"

definition redis_ios :: "('f, 'u) redis_process_scheme ev_loop \<Rightarrow> io_id option \<times> io_id option" where
  "redis_ios l = (rp_read_io (redis (env l)), rp_write_io (redis (env l)))"

lemma start_watch:
  assumes ok: "slots_ok l" and a: "io_valid (env l) a" "io_mode l a \<noteq> None"
  shows "\<exists>l'. start_io (Some a) l = Some (l', True) \<and> slots_ok l' \<and> env l' = env l
    \<and> (\<forall>b. io_valid (env l) b \<longrightarrow> io_mode l' b = ((io_mode l)(a := Some True)) b)"
proof -
  obtain i where i: "io_index (io_objs (env l) a) = int i" "i < length (lp_ios (env l))" "sio (lp_ios (env l) ! i) = Some a"
    using ok a by (elim io_mineE[of l a]) (auto simp: io_valid_def io_mode_def)
  obtain l' where "start_io (Some a) l = Some (l', True)" "env l' = env l"
    using start_io_correct[OF ok i] by blast
  moreover obtain k where "op_done (Start_Io a) l k" using run_op_done[OF ok, of "Start_Io a"] a by auto
  ultimately show ?thesis using a by (auto simp: op_done_def)
qed

lemma stop_watch:
  assumes ok: "slots_ok l" and a: "io_valid (env l) a" "io_mode l a \<noteq> None"
  shows "\<exists>l'. stop_io (Some a) l = Some (l', True) \<and> slots_ok l' \<and> env l' = env l
    \<and> (\<forall>b. io_valid (env l) b \<longrightarrow> io_mode l' b = ((io_mode l)(a := Some False)) b)"
proof -
  obtain i where i: "io_index (io_objs (env l) a) = int i" "i < length (lp_ios (env l))" "sio (lp_ios (env l) ! i) = Some a"
    using ok a by (elim io_mineE[of l a]) (auto simp: io_valid_def io_mode_def)
  obtain l' where "stop_io (Some a) l = Some (l', True)" "env l' = env l"
    using stop_io_correct[OF ok i(1,2)] by blast
  moreover obtain k where "op_done (Stop_Io a) l k" using run_op_done[OF ok, of "Stop_Io a"] a by auto
  ultimately show ?thesis using a by (auto simp: op_done_def)
qed

lemma watchingE:
  assumes "redis_watching l"
  obtains a b where "slots_ok l" "rp_read_io (redis (env l)) = Some a" "rp_write_io (redis (env l)) = Some b" "a \<noteq> b"
    "io_valid (env l) a" "io_valid (env l) b" "io_mode l a = Some (rp_reading (redis (env l)))"
    "io_mode l b = Some (rp_writting (redis (env l)))"
  using assms unfolding redis_watching_def by blast

lemma add_read_watching:
  assumes "redis_watching l"
  shows "\<exists>l'. redis_add_read l = Some l' \<and> redis_watching l' \<and> redis_flags l' = (True, snd (redis_flags l)) \<and> redis_ios l' = redis_ios l"
  using assms
proof (cases rule: watchingE)
  case (1 a b)
  let ?l = "upd_redis (rp_reading_update (\<lambda>_. True)) l"
  note u = upd_redis_facts[OF 1(1), of "rp_reading_update (\<lambda>_. True)"]
  have m: "io_valid (env ?l) a" "io_mode ?l a \<noteq> None" using u 1(5,7) by simp_all
  show ?thesis
  proof (cases "rp_reading (redis (env l))")
    case True
    then show ?thesis using assms by (simp add: redis_add_read_def redis_flags_def redis_ios_def)
  next
    case False
    obtain l' where "start_io (Some a) ?l = Some (l', True)" "slots_ok l'" "env l' = env ?l"
      "\<forall>b. io_valid (env ?l) b \<longrightarrow> io_mode l' b = ((io_mode ?l)(a := Some True)) b"
      using start_watch[OF u(1) m] by blast
    then show ?thesis using False 1 u by (auto simp: redis_add_read_def redis_watching_def redis_flags_def redis_ios_def Let_def)
  qed
qed

lemma add_write_watching:
  assumes "redis_watching l"
  shows "\<exists>l'. redis_add_write l = Some l' \<and> redis_watching l' \<and> redis_flags l' = (fst (redis_flags l), True) \<and> redis_ios l' = redis_ios l"
  using assms
proof (cases rule: watchingE)
  case (1 a b)
  let ?l = "upd_redis (rp_writting_update (\<lambda>_. True)) l"
  note u = upd_redis_facts[OF 1(1), of "rp_writting_update (\<lambda>_. True)"]
  have m: "io_valid (env ?l) b" "io_mode ?l b \<noteq> None" using u 1(6,8) by simp_all
  show ?thesis
  proof (cases "rp_writting (redis (env l))")
    case True
    then show ?thesis using assms by (simp add: redis_add_write_def redis_flags_def redis_ios_def)
  next
    case False
    obtain l' where "start_io (Some b) ?l = Some (l', True)" "slots_ok l'" "env l' = env ?l"
      "\<forall>c. io_valid (env ?l) c \<longrightarrow> io_mode l' c = ((io_mode ?l)(b := Some True)) c"
      using start_watch[OF u(1) m] by blast
    then show ?thesis using False 1 u by (auto simp: redis_add_write_def redis_watching_def redis_flags_def redis_ios_def Let_def)
  qed
qed

lemma del_read_watching:
  assumes "redis_watching l"
  shows "\<exists>l'. redis_del_read l = Some l' \<and> redis_watching l' \<and> redis_flags l' = (False, snd (redis_flags l)) \<and> redis_ios l' = redis_ios l"
  using assms
proof (cases rule: watchingE)
  case (1 a b)
  let ?l = "upd_redis (rp_reading_update (\<lambda>_. False)) l"
  note u = upd_redis_facts[OF 1(1), of "rp_reading_update (\<lambda>_. False)"]
  have m: "io_valid (env ?l) a" "io_mode ?l a \<noteq> None" using u 1(5,7) by simp_all
  show ?thesis
  proof (cases "rp_reading (redis (env l))")
    case False
    then show ?thesis using assms by (simp add: redis_del_read_def redis_flags_def redis_ios_def)
  next
    case True
    obtain l' where "stop_io (Some a) ?l = Some (l', True)" "slots_ok l'" "env l' = env ?l"
      "\<forall>b. io_valid (env ?l) b \<longrightarrow> io_mode l' b = ((io_mode ?l)(a := Some False)) b"
      using stop_watch[OF u(1) m] by blast
    then show ?thesis using True 1 u by (auto simp: redis_del_read_def redis_watching_def redis_flags_def redis_ios_def Let_def)
  qed
qed

lemma del_write_watching:
  assumes "redis_watching l"
  shows "\<exists>l'. redis_del_write l = Some l' \<and> redis_watching l' \<and> redis_flags l' = (fst (redis_flags l), False) \<and> redis_ios l' = redis_ios l"
  using assms
proof (cases rule: watchingE)
  case (1 a b)
  let ?l = "upd_redis (rp_writting_update (\<lambda>_. False)) l"
  note u = upd_redis_facts[OF 1(1), of "rp_writting_update (\<lambda>_. False)"]
  have m: "io_valid (env ?l) b" "io_mode ?l b \<noteq> None" using u 1(6,8) by simp_all
  show ?thesis
  proof (cases "rp_writting (redis (env l))")
    case False
    then show ?thesis using assms by (simp add: redis_del_write_def redis_flags_def redis_ios_def)
  next
    case True
    obtain l' where "stop_io (Some b) ?l = Some (l', True)" "slots_ok l'" "env l' = env ?l"
      "\<forall>c. io_valid (env ?l) c \<longrightarrow> io_mode l' c = ((io_mode ?l)(b := Some False)) c"
      using stop_watch[OF u(1) m] by blast
    then show ?thesis using True 1 u by (auto simp: redis_del_write_def redis_watching_def redis_flags_def redis_ios_def Let_def)
  qed
qed

lemma hook_watching:
  assumes "redis_watching l"
  shows "\<exists>l'. run_hook h l = Some l' \<and> redis_watching l' \<and> redis_flags l' = hook_spec h (redis_flags l) \<and> redis_ios l' = redis_ios l"
proof (cases h)
  case Cleanup
  obtain l1 where l1: "redis_del_read l = Some l1" "redis_watching l1" "redis_flags l1 = (False, snd (redis_flags l))" "redis_ios l1 = redis_ios l"
    using del_read_watching[OF assms] by blast
  then show ?thesis
    using del_write_watching[OF l1(2)] Cleanup by (cases "redis_flags l") (auto simp: redis_cleanup_def)
qed (use add_read_watching[OF assms] add_write_watching[OF assms] del_read_watching[OF assms] del_write_watching[OF assms]
  in \<open>cases "redis_flags l"; simp\<close>)+

lemma hooks_watching:
  "redis_watching l \<Longrightarrow> \<exists>l'. run_hooks hs l = Some l' \<and> redis_watching l' \<and> redis_flags l' = fold hook_spec hs (redis_flags l)
    \<and> redis_ios l' = redis_ios l"
proof (induction hs arbitrary: l)
  case (Cons h hs)
  obtain l1 where "run_hook h l = Some l1" "redis_watching l1" "redis_flags l1 = hook_spec h (redis_flags l)" "redis_ios l1 = redis_ios l"
    using hook_watching[OF Cons.prems] by blast
  then show ?case using Cons.IH[of l1] by simp
qed simp

subsection \<open>Connecting\<close>

text \<open>A new object: no slot of the loop knows its address.\<close>

definition io_unknown :: "'u process_scheme \<Rightarrow> io_id \<Rightarrow> bool" where
  "io_unknown P a \<longleftrightarrow> a \<noteq> 0 \<and> (\<forall>i < length (lp_ios P). sio (lp_ios P ! i) \<noteq> Some a)"

lemma make_io_fields [simp]:
  "lp_ios (make_io a x P) = lp_ios P" "lp_idle (make_io a x P) = lp_idle P" "lp_async (make_io a x P) = lp_async P"
  "io_objs (make_io a x P) = (io_objs P)(a := x)"
  by (simp_all add: make_io_def upd_io_def)

lemma make_io_redis [simp]: "redis (make_io a x P) = redis P"
  by (simp add: make_io_def upd_io_def)

lemma slots_ok_make:
  assumes ok: "slots_ok l" and a: "io_unknown (env l) a"
  shows "slots_ok (upd_env (make_io a x) l)"
proof -
  let ?l = "upd_env (make_io a x) l"
  have e: "env ?l = make_io a x (env l)" "w_active ?l = w_active l" "w_pending ?l = w_pending l" "w_fd ?l = w_fd l"
    "w_events ?l = w_events l" "w_kind ?l = w_kind l"
    by (simp_all add: upd_env_def)
  have "slots_distinct ?l" "idle_ok (env ?l)"
    using slots_okD(2,3)[OF ok] by (simp_all add: slots_distinct_def idle_ok_def slot_watchers_def e)
  moreover have "case sio (lp_ios (env ?l) ! i) of None \<Rightarrow> slot_asleep ?l i | Some b \<Rightarrow> slot_taken ?l i b"
    if i: "i < length (lp_ios (env ?l))" for i
  proof (cases "sio (lp_ios (env l) ! i)")
    case None
    then show ?thesis using slots_okD(4)[OF ok] i by (simp add: e slot_asleep_def)
  next
    case (Some b)
    then have "b \<noteq> a" using a i by (auto simp: io_unknown_def e)
    then show ?thesis using slots_okD(5)[OF ok _ Some] i Some by (simp add: e slot_taken_def)
  qed
  moreover have "fd_inv 0 ?l" using slots_okD(1)[OF ok] by simp
  ultimately show ?thesis by (simp add: slots_ok_def)
qed

lemma redis_set_sio [simp]: "redis (set_sio i x P) = redis P"
  by (simp add: set_sio_def)

lemma redis_set_index [simp]: "redis (set_index a i P) = redis P"
  by (simp add: set_index_def upd_io_def)

lemma io_slot_redis: "io_slot p P = (i, P') \<Longrightarrow> redis P' = redis P"
  by (auto simp: io_slot_def split: list.splits)

text \<open>Adding an object keeps the client, makes the object one of the loop and leaves the others.\<close>

lemma add_new_io:
  assumes ok: "slots_ok l" and v: "io_valid (env l) a" "io_mode l a = None" and p: "slot_fresh l p"
  shows "\<exists>l'. add_io p False (Some a) l = Some (l', True) \<and> slots_ok l' \<and> redis (env l') = redis (env l)
    \<and> io_valid (env l') a \<and> io_mode l' a = Some False
    \<and> (\<forall>b. io_valid (env l) b \<and> b \<noteq> a \<longrightarrow> io_valid (env l') b \<and> io_mode l' b = io_mode l b)
    \<and> (\<forall>q. slot_fresh l q \<and> q \<noteq> p \<longrightarrow> slot_fresh l' q)"
proof -
  obtain i P where s: "io_slot p (env l) = (i, P)" by (cases "io_slot p (env l)")
  have a: "a \<noteq> 0" "io_index (io_objs (env l) a) < 0" "0 \<le> io_fd (io_objs (env l) a)"
    "legal_events (io_events (io_objs (env l) a) OR EV__IOFDSET)"
    using v by (simp_all add: io_valid_def io_mode_def split: if_splits)
  obtain l' where l': "add_io p False (Some a) l = Some (l', True)" "env l' = set_sio i (Some a) (set_index a (int i) P)"
    using add_io_correct[OF ok _ a s] p by blast
  obtain k where "op_done (Add_Io a False p) l k" using add_io_done[OF ok v(1) a(2) p] by blast
  then have d: "op_done (Add_Io a False p) l l'" using l'(1) by (simp add: op_done_def)
  have r: "redis (env l') = redis (env l)" using io_slot_redis[OF s] by (simp add: l'(2))
  show ?thesis using d v l'(1) r by (intro exI[of _ l']) (simp add: op_done_def)
qed

lemma redis_connect_watching:
  assumes ok: "slots_ok l" and off: "\<not> rp_connected (redis (env l))" "redis_flags l = (False, False)"
    and fd: "0 \<le> fd" and io: "io_unknown (env l) a" "io_unknown (env l) b" "a \<noteq> b"
    and mem: "slot_fresh l pa" "slot_fresh l pb" "pa \<noteq> pb"
  shows "\<exists>l'. redis_connect (Some (0, fd)) (a, pa) (b, pb) l = Some l' \<and> redis_watching l'
    \<and> redis_flags l' = (False, False) \<and> rp_connected (redis (env l')) \<and> rp_context (redis (env l'))
    \<and> rp_callbacks (redis (env l')) = rp_callbacks (redis (env l))
    \<and> rp_read_io (redis (env l')) = Some a \<and> rp_write_io (redis (env l')) = Some b"
proof -
  define l1 where "l1 = upd_redis (rp_context_update (\<lambda>_. True)) l"
  define l2 where "l2 = upd_env (make_io a (io_new fd EV_READ False)) l1"
  define l3 where "l3 = upd_redis (rp_read_io_update (\<lambda>_. Some a)) l2"
  define l4 where "l4 = upd_env (make_io b (io_new fd EV_WRITE False)) l3"
  define l5 where "l5 = upd_redis (rp_write_io_update (\<lambda>_. Some b)) l4"
  have s1: "slots_ok l1" unfolding l1_def by (rule upd_redis_facts(1)[OF ok])
  have ios: "lp_ios (env l1) = lp_ios (env l)" by (simp add: l1_def upd_redis_def upd_env_def)
  have s2: "slots_ok l2" unfolding l2_def
    by (rule slots_ok_make[OF s1]) (use io(1) in \<open>simp add: io_unknown_def ios\<close>)
  have s3: "slots_ok l3" unfolding l3_def by (rule upd_redis_facts(1)[OF s2])
  have ios3: "lp_ios (env l3) = lp_ios (env l)" by (simp add: l3_def l2_def ios upd_redis_def upd_env_def)
  have s4: "slots_ok l4" unfolding l4_def
    by (rule slots_ok_make[OF s3]) (use io(2) in \<open>simp add: io_unknown_def ios3\<close>)
  have s5: "slots_ok l5" unfolding l5_def by (rule upd_redis_facts(1)[OF s4])
  have e5: "io_objs (env l5) = (io_objs (env l))(a := io_new fd EV_READ False, b := io_new fd EV_WRITE False)"
    "lp_ios (env l5) = lp_ios (env l)" "lp_async (env l5) = lp_async (env l)"
    "redis (env l5) = (redis (env l))\<lparr>rp_context := True, rp_read_io := Some a, rp_write_io := Some b\<rparr>"
    "w_kind l5 = w_kind l" "w_active l5 = w_active l" "w_pending l5 = w_pending l"
    by (simp_all add: l5_def l4_def l3_def l2_def l1_def upd_redis_def upd_env_def)
  have legal: "legal_events (EV_READ OR EV__IOFDSET)" "legal_events (EV_WRITE OR EV__IOFDSET)"
    by (simp_all add: legal_events_def EV_READ_def EV__IOFDSET_def EV_WRITE_def EV_ET_def)
  have v5: "io_valid (env l5) a" "io_valid (env l5) b" "io_mode l5 a = None" "io_mode l5 b = None"
    using io fd legal by (simp_all add: io_valid_def io_mine_def io_mode_def e5 io_new_def io_unknown_def)
  have f5: "slot_fresh l5 pa" "slot_fresh l5 pb"
    using mem by (simp_all add: slot_fresh_def slot_watchers_def e5)
  obtain l6 where l6: "add_io pa False (Some a) l5 = Some (l6, True)" "slots_ok l6" "redis (env l6) = redis (env l5)"
    "io_valid (env l6) a" "io_mode l6 a = Some False" "io_valid (env l6) b" "io_mode l6 b = None" "slot_fresh l6 pb"
    using add_new_io[OF s5 v5(1,3) f5(1)] v5 f5(2) io(3) mem(3) by auto
  obtain l7 where l7: "add_io pb False (Some b) l6 = Some (l7, True)" "slots_ok l7" "redis (env l7) = redis (env l6)"
    "io_valid (env l7) b" "io_mode l7 b = Some False" "io_valid (env l7) a" "io_mode l7 a = Some False"
    using add_new_io[OF l6(2,6,7,8)] l6 io(3) by auto
  define l' where "l' = upd_redis (rp_connected_update (\<lambda>_. True)) l7"
  note u = upd_redis_facts[OF l7(2), of "rp_connected_update (\<lambda>_. True)", folded l'_def]
  have run: "redis_connect (Some (0, fd)) (a, pa) (b, pb) l = Some l'"
    using off(1) l6(1,3) l7(1)
    by (simp add: redis_connect_def Let_def l1_def[symmetric] l2_def[symmetric] l3_def[symmetric] l4_def[symmetric]
        l5_def[symmetric] e5(4) l'_def)
  have "redis (env l') = (redis (env l))\<lparr>rp_context := True, rp_read_io := Some a, rp_write_io := Some b, rp_connected := True\<rparr>"
    using u(4) l7(3) l6(3) e5(4) by simp
  then show ?thesis
    using run u l7 io(3) off(2) by (intro exI[of _ l']) (auto simp: redis_watching_def redis_flags_def)
qed

subsection \<open>Properties\<close>

text \<open>C15: as long as hiredis accepts every command, each reply goes to the function that was sent with the
  command it answers, however sends and answers are interleaved: the calls so far, followed by the
  commands and functions that still wait, are the requests in the order they were made, and the replies
  are those of the server in their order.\<close>

theorem redis_replies_matched:
  assumes "rp_context p" and "rp_callbacks p = []" and "answerable 0 steps"
    and "\<forall>(cmd, f) \<in> set (sends steps). sendable cmd \<and> \<not> refuse cmd"
  shows "\<exists>p' c' calls. redis_run refuse steps (p, []) = Some ((p', c'), calls) \<and> length c' = length (rp_callbacks p')
    \<and> map (\<lambda>(cmd, f, r). (cmd, f)) calls @ zip c' (rp_callbacks p') = sends steps
    \<and> map (\<lambda>(cmd, f, r). r) calls = answers steps"
  using redis_run_matched[of p "[]" steps refuse] assms by simp

lemma nul_char: "char_of (0 :: nat) = CHR 0x00"
  by code_simp

definition demo_proxy :: "nat redis_proxy" where
  "demo_proxy = redis_proxy_new\<lparr>rp_context := True\<rparr>"

definition demo_steps :: "nat redis_step list" where
  "demo_steps = [Send (Command_Line ''GET x'') 1, Send (Command_Argv [''GET'', ''y'']) 2, Answer (Reply_String ''a''),
     Send (Command_Line ''GET z'') 3, Answer Reply_Nil]"

lemma demo_steps_ok:
  "answerable 0 demo_steps" "\<forall>(cmd, f) \<in> set (sends demo_steps). sendable cmd \<and> \<not> (\<lambda>_. False) cmd"
  by (simp_all add: demo_steps_def nul_char)

theorem redis_replies_matched_witness:
  "\<exists>s calls. redis_run (\<lambda>_. False) demo_steps (demo_proxy, []) = Some (s, calls)
    \<and> map (\<lambda>(cmd, f, r). r) calls = [Reply_String ''a'', Reply_Nil]"
proof -
  have "rp_context demo_proxy" "rp_callbacks demo_proxy = []" by (simp_all add: demo_proxy_def redis_proxy_new_def)
  then obtain p' c' calls where "redis_run (\<lambda>_. False) demo_steps (demo_proxy, []) = Some ((p', c'), calls)"
    "map (\<lambda>(cmd, f, r). r) calls = answers demo_steps"
    using redis_replies_matched[OF _ _ demo_steps_ok] by metis
  then show ?thesis by (simp add: demo_steps_def)
qed

text \<open>C24: the result of \<open>redisAsyncCommand\<close> is not looked at: after one command that hiredis did not
  accept, its function stays at the front of the queue and every later reply is given to the function of
  the request before, although all the later commands are accepted. The first one that is called belongs
  to the command that was never sent.\<close>

theorem redis_refused_shifts:
  assumes "rp_context p" and "rp_callbacks p = []" and "sendable bad" and "refuse bad"
    and "answerable 0 steps" and "\<forall>(cmd, f) \<in> set (sends steps). sendable cmd \<and> \<not> refuse cmd"
  shows "\<exists>p' c' calls. redis_run refuse (Send bad g # steps) (p, []) = Some ((p', c'), calls)
    \<and> map fst calls @ c' = map fst (sends steps)
    \<and> map (\<lambda>(cmd, f, r). f) calls @ rp_callbacks p' = g # map snd (sends steps)
    \<and> map (\<lambda>(cmd, f, r). r) calls = answers steps"
proof -
  have "redis_run refuse (Send bad g # steps) (p, []) = redis_run refuse steps (push_callback g p, [])"
    using redis_send_queue[OF assms(1,3)] assms(4) by simp
  then show ?thesis
    using redis_run_shifted[of "push_callback g p" "[]" steps refuse] assms(1,2,5,6) by (auto simp: push_callback_def)
qed

theorem redis_refused_shifts_witness:
  "\<exists>p'. redis_run (\<lambda>cmd. cmd = Command_Line ''BAD'')
      [Send (Command_Line ''BAD'') 1, Send (Command_Line ''GET x'') 2, Answer (Reply_String ''a'')] (demo_proxy, [])
    = Some ((p', []), [(Command_Line ''GET x'', 1, Reply_String ''a'')]) \<and> rp_callbacks p' = [2]"
proof -
  let ?refuse = "\<lambda>cmd. cmd = Command_Line ''BAD''"
  let ?steps = "[Send (Command_Line ''GET x'') 2, Answer (Reply_String ''a'')] :: nat redis_step list"
  have "\<exists>p' c' calls. redis_run ?refuse (Send (Command_Line ''BAD'') 1 # ?steps) (demo_proxy, []) = Some ((p', c'), calls)
    \<and> map fst calls @ c' = map fst (sends ?steps)
    \<and> map (\<lambda>(cmd, f, r). f) calls @ rp_callbacks p' = 1 # map snd (sends ?steps)
    \<and> map (\<lambda>(cmd, f, r). r) calls = answers ?steps"
    by (rule redis_refused_shifts) (simp_all add: demo_proxy_def redis_proxy_new_def nul_char)
  then show ?thesis by (auto simp: map_eq_Cons_conv)
qed

text \<open>C35: connecting on a loop whose table is in order adds the two objects for the descriptor, stopped;
  from then on the watchers follow the requests of hiredis: after any sequence of its calls the watcher
  for reading is started exactly when the last call about reading asked for it, and the same for writing,
  so that the flags, which skip repeated requests, never get out of step with the loop.\<close>

theorem redis_watchers_follow:
  assumes "slots_ok l" and "\<not> rp_connected (redis (env l))" and "redis_flags l = (False, False)" and "0 \<le> fd"
    and "io_unknown (env l) a" and "io_unknown (env l) b" and "a \<noteq> b"
    and "slot_fresh l pa" and "slot_fresh l pb" and "pa \<noteq> pb"
  shows "\<exists>l1 l2. redis_connect (Some (0, fd)) (a, pa) (b, pb) l = Some l1 \<and> rp_connected (redis (env l1))
    \<and> run_hooks hs l1 = Some l2 \<and> slots_ok l2 \<and> redis_flags l2 = fold hook_spec hs (False, False)
    \<and> io_mode l2 a = Some (fst (redis_flags l2)) \<and> io_mode l2 b = Some (snd (redis_flags l2))"
proof -
  have "\<exists>l1. redis_connect (Some (0, fd)) (a, pa) (b, pb) l = Some l1 \<and> redis_watching l1
    \<and> redis_flags l1 = (False, False) \<and> rp_connected (redis (env l1))
    \<and> rp_read_io (redis (env l1)) = Some a \<and> rp_write_io (redis (env l1)) = Some b"
    using redis_connect_watching[OF assms] by blast
  then obtain l1 where l1: "redis_connect (Some (0, fd)) (a, pa) (b, pb) l = Some l1" "redis_watching l1"
    "redis_flags l1 = (False, False)" "rp_connected (redis (env l1))"
    "rp_read_io (redis (env l1)) = Some a" "rp_write_io (redis (env l1)) = Some b" by blast
  obtain l2 where l2: "run_hooks hs l1 = Some l2" "redis_watching l2" "redis_flags l2 = fold hook_spec hs (False, False)"
    "rp_read_io (redis (env l2)) = Some a" "rp_write_io (redis (env l2)) = Some b"
    using hooks_watching[OF l1(2), of hs] l1(3,5,6) by (auto simp: redis_ios_def)
  have "slots_ok l2" "io_mode l2 a = Some (fst (redis_flags l2))" "io_mode l2 b = Some (snd (redis_flags l2))"
    using l2(2,4,5) by (simp_all add: redis_watching_def redis_flags_def)
  then show ?thesis using l1 l2 by blast
qed

text \<open>For the witness: a new loop of the process with the client.\<close>

definition redis_demo_process :: "nat redis_process" where
  "redis_demo_process = process.extend (loop_new 1 9 (\<lambda>_. io_new 5 EV_READ True)) (redis_process.fields redis_proxy_new)"

definition redis_demo_memory :: "nat redis_process ev_loop" where
  "redis_demo_memory = blank_memory demo_kinds redis_demo_process"

lemma still_env:
  assumes "loop_init_io still_sys mem (Inl P) = Some (Inr l, ok)"
  shows "env l = P"
proof -
  let ?l1 = "ev_loop_new still_sys (mem\<lparr>env := P\<rparr>)"
  have e1: "env ?l1 = P"
    by (simp add: ev_loop_new_def loop_init_def loop_zero_def epoll_init_def ev_init_def Let_def still_sys_def)
  obtain l3 where l3: "ev_async_start still_sys (lp_async P) (ev_init (lp_async P) ?l1) = Some l3" "l = l3"
    using assms by (auto simp: loop_init_io_def Let_def)
  let ?l2 = "(ev_init (lp_async P) ?l1)\<lparr>w_sent := (w_sent (ev_init (lp_async P) ?l1))(lp_async P := False)\<rparr>"
  have e2: "env ?l2 = P" using e1 by (simp add: ev_init_def)
  obtain l4 where l4: "evpipe_init still_sys ?l2 = Some l4" "l3 = array_start asyncs (\<lambda>ws. asyncs_update (\<lambda>_. ws)) (lp_async P) l4"
    using l3(1) by (auto simp: ev_async_start_def ev_init_def)
  have "env l4 = P"
    using l4(1) e2 unfolding evpipe_init_def
    by (auto simp: still_sys_def Let_def ev_unref_def ev_io_set_def dest!: ev_io_start_fields(1) split: if_splits)
  then show ?thesis
    by (simp add: l3(2) l4(2) array_start_def Let_def ev_start_def ev_ref_def set_active_def pri_adjust_def)
qed

lemma redis_demo_loop:
  "\<exists>l :: nat redis_process ev_loop. slots_ok l \<and> \<not> rp_connected (redis (env l)) \<and> redis_flags l = (False, False)
    \<and> io_unknown (env l) 4 \<and> io_unknown (env l) 6 \<and> slot_fresh l 20 \<and> slot_fresh l 21"
proof -
  have f: "lp_ios redis_demo_process = []" "lp_idle redis_demo_process = []" "lp_async redis_demo_process = 9"
      "redis redis_demo_process = redis_proxy_new"
    by (simp_all add: redis_demo_process_def loop_new_def process.extend_def redis_process.fields_def)
  have sys: "sys_apart (still_sys :: nat redis_process sys)" by (simp add: sys_apart_def still_sys_def)
  have mem: "mem_ready (lp_async redis_demo_process) redis_demo_memory"
    by (simp add: mem_ready_def redis_demo_memory_def blank_memory_def f demo_kinds_def pending_w_def pipe_w_def)
  obtain l where l: "loop_init_io still_sys redis_demo_memory (Inl redis_demo_process) = Some (Inr l, True)" "slots_ok l"
    "process.truncate (env l) = process.truncate redis_demo_process" "w_kind l = w_kind redis_demo_memory"
    "w_pending l = (\<lambda>_. 0)" "\<forall>x. x \<noteq> pipe_w \<longrightarrow> x \<noteq> lp_async redis_demo_process \<longrightarrow> w_active l x = 0"
    using loop_init_ok[OF sys mem f(1,2)] by blast
  note t = truncate_eqD[OF l(3)]
  have "redis (env l) = redis redis_demo_process"
    using still_env[OF l(1)] by simp
  moreover have "slot_fresh l 20" "slot_fresh l 21"
    using l(4-6) by (simp_all add: slot_fresh_def t slot_watchers_def f redis_demo_memory_def blank_memory_def demo_kinds_def pending_w_def pipe_w_def)
  ultimately show ?thesis using l(2)
    by (intro exI[of _ l]) (simp add: f redis_proxy_new_def redis_flags_def io_unknown_def t)
qed

theorem redis_watchers_follow_witness:
  "\<exists>(l :: nat redis_process ev_loop) l1 l2. redis_connect (Some (0, 7)) (4, 20) (6, 21) l = Some l1
    \<and> run_hooks [Add_Write, Add_Read, Del_Write, Add_Read] l1 = Some l2 \<and> io_mode l2 4 = Some True \<and> io_mode l2 6 = Some False"
proof -
  obtain l :: "nat redis_process ev_loop" where l: "slots_ok l" "\<not> rp_connected (redis (env l))" "redis_flags l = (False, False)"
    "io_unknown (env l) 4" "io_unknown (env l) 6" "slot_fresh l 20" "slot_fresh l 21"
    using redis_demo_loop by blast
  obtain l1 l2 where "redis_connect (Some (0, 7)) (4, 20) (6, 21) l = Some l1"
    "run_hooks [Add_Write, Add_Read, Del_Write, Add_Read] l1 = Some l2"
    "redis_flags l2 = fold hook_spec [Add_Write, Add_Read, Del_Write, Add_Read] (False, False)"
    "io_mode l2 4 = Some (fst (redis_flags l2))" "io_mode l2 6 = Some (snd (redis_flags l2))"
    using redis_watchers_follow[OF l(1-3) _ l(4,5) _ l(6,7), of 7 "[Add_Write, Add_Read, Del_Write, Add_Read]"] by auto
  then show ?thesis by auto
qed

end
