(* ===== verification/Service_Core.thy ===== *)
theory Service_Core
  imports Redis_Proxy Http_Message
begin

section \<open>Services and their replies\<close>

text \<open>
  What the services share (\<open>small/service.h\<close>): the table of methods, the table of services
  (\<open>small/tcp_service.h\<close>), and the JSON values of requests and replies. The JSON library is not part of
  the program; the model has its values and the operations the services use, as the library documents
  them: an object is a map in the order of its keys, \<open>operator[]\<close> makes an object of null, a value of
  another type than the one asked for is an exception.
\<close>

subsection \<open>JSON values\<close>

datatype json =
    J_Null | J_Bool bool | J_Int int | J_Unsigned nat | J_Float real | J_String string
  | J_Array "json list" | J_Object "(string \<times> json) list"

fun type_name :: "json \<Rightarrow> string" where
  "type_name J_Null = ''null''"
| "type_name (J_Object xs) = ''object''"
| "type_name (J_Array xs) = ''array''"
| "type_name (J_String s) = ''string''"
| "type_name (J_Bool b) = ''boolean''"
| "type_name _ = ''number''"

fun j_find :: "string \<Rightarrow> json \<Rightarrow> json option" where
  "j_find k (J_Object xs) = map_of xs k"
| "j_find k _ = None"

text \<open>Assignment to an element of a \<open>std::map\<close>.\<close>

fun map_put :: "'k :: linorder \<Rightarrow> 'v \<Rightarrow> ('k \<times> 'v) list \<Rightarrow> ('k \<times> 'v) list" where
  "map_put k v [] = [(k, v)]"
| "map_put k v ((k', v') # xs) =
     (if k < k' then (k, v) # (k', v') # xs
      else if k = k' then (k, v) # xs
      else (k', v') # map_put k v xs)"

text \<open>An operation gives its result or the text of an exception.\<close>

fun j_put :: "string \<Rightarrow> json \<Rightarrow> json \<Rightarrow> string + json" where
  "j_put k v J_Null = Inr (J_Object [(k, v)])"
| "j_put k v (J_Object xs) = Inr (J_Object (map_put k v xs))"
| "j_put k v j = Inl (''cannot use operator[] with '' @ type_name j)"

fun j_push_back :: "json \<Rightarrow> json \<Rightarrow> string + json" where
  "j_push_back v J_Null = Inr (J_Array [v])"
| "j_push_back v (J_Array xs) = Inr (J_Array (xs @ [v]))"
| "j_push_back v j = Inl (''cannot use push_back() with '' @ type_name j)"

fun j_get_string :: "json \<Rightarrow> string + string" where
  "j_get_string (J_String s) = Inr s"
| "j_get_string j = Inl (''type must be string, but is '' @ type_name j)"

fun j_get_array :: "json \<Rightarrow> string + json list" where
  "j_get_array (J_Array xs) = Inr xs"
| "j_get_array j = Inl (''type must be array, but is '' @ type_name j)"

fun is_string :: "json \<Rightarrow> bool" where
  "is_string (J_String s) \<longleftrightarrow> True"
| "is_string _ \<longleftrightarrow> False"

lemma map_of_put: "map_of (map_put k v xs) x = (if x = k then Some v else map_of xs x)"
  by (induction xs) auto

subsection \<open>Outcomes\<close>

text \<open>Code returns with a state, throws an exception with a text in a state, or is undefined.\<close>

datatype 'w result = Done 'w | Threw string 'w | Undefined

fun after :: "'w result \<Rightarrow> ('w \<Rightarrow> 'w result) \<Rightarrow> 'w result" where
  "after (Done w) f = f w"
| "after (Threw e w) f = Threw e w"
| "after Undefined f = Undefined"

definition or_throw :: "string + 'a \<Rightarrow> ('a \<Rightarrow> 'w \<Rightarrow> 'w result) \<Rightarrow> 'w \<Rightarrow> 'w result" where
  "or_throw x f w = (case x of Inl e \<Rightarrow> Threw e w | Inr a \<Rightarrow> f a w)"

lemma after_assoc: "after (after r f) g = after r (\<lambda>w. after (f w) g)"
  by (cases r) auto

subsection \<open>The table of methods\<close>

record 'm service =
  sv_methods :: "'m list"
  sv_method_map :: "string \<Rightarrow> nat option"

definition service_new :: "'m service" where
  "service_new = \<lparr>sv_methods = [], sv_method_map = Map.empty\<rparr>"

text \<open>\<open>emplace\<close> keeps an entry that is there.\<close>

definition emplace :: "'k \<Rightarrow> 'v \<Rightarrow> ('k \<Rightarrow> 'v option) \<Rightarrow> 'k \<Rightarrow> 'v option" where
  "emplace k v m = (if m k = None then m(k := Some v) else m)"

definition add_method :: "string \<Rightarrow> 'm \<Rightarrow> 'm service \<Rightarrow> 'm service" where
  "add_method name f s =
     (let ms = sv_methods s @ [f]
      in s\<lparr>sv_methods := ms, sv_method_map := emplace name (length ms - 1) (sv_method_map s)\<rparr>)"

text \<open>\<open>default_method\<close> is the static \<open>_default_method\<close>; an index outside the vector is undefined.\<close>

definition find_method :: "'m \<Rightarrow> string \<Rightarrow> 'm service \<Rightarrow> 'm option" where
  "find_method default_method name s =
     (case sv_method_map s name of
        None \<Rightarrow> Some default_method
      | Some i \<Rightarrow> if i < length (sv_methods s) then Some (sv_methods s ! i) else None)"

text \<open>The services of a server: the first one is its own base service.\<close>

record 'm services =
  base_service :: "'m service"
  service_map :: "string \<Rightarrow> 'm service option"

text \<open>\<open>add_service\<close> calls the service's \<open>init\<close> first; the base service is added by the constructor.\<close>

definition add_service :: "('m service \<Rightarrow> 'm service) \<Rightarrow> 'm service \<Rightarrow> string \<Rightarrow> 'm services \<Rightarrow> 'm services" where
  "add_service init service name ss = ss\<lparr>service_map := emplace name (init service) (service_map ss)\<rparr>"

definition services_new :: "('m service \<Rightarrow> 'm service) \<Rightarrow> 'm services" where
  "services_new init = (let b = init service_new in \<lparr>base_service = b, service_map = emplace ''Service'' b Map.empty\<rparr>)"

definition find_service :: "string \<Rightarrow> 'm services \<Rightarrow> 'm service" where
  "find_service name ss = (case service_map ss name of None \<Rightarrow> base_service ss | Some s \<Rightarrow> s)"

text \<open>Every index in the map is one of the vector, so that \<open>find_method\<close> never leaves it.\<close>

definition service_ok :: "'m service \<Rightarrow> bool" where
  "service_ok s \<longleftrightarrow> (\<forall>name i. sv_method_map s name = Some i \<longrightarrow> i < length (sv_methods s))"

lemma service_new_ok: "service_ok service_new"
  by (simp add: service_ok_def service_new_def)

lemma add_method_ok: "service_ok s \<Longrightarrow> service_ok (add_method name f s)"
  by (auto simp: service_ok_def add_method_def Let_def emplace_def less_Suc_eq)

lemma find_add_method:
  assumes "service_ok s"
  shows "find_method d x (add_method name f s) =
    (if x = name \<and> sv_method_map s name = None then Some f else find_method d x s)"
proof (cases "sv_method_map s x")
  case None
  then show ?thesis by (auto simp: find_method_def add_method_def Let_def emplace_def)
next
  case (Some i)
  then have "i < length (sv_methods s)" using assms by (simp add: service_ok_def)
  then show ?thesis using Some by (auto simp: find_method_def add_method_def Let_def emplace_def nth_append)
qed

lemma find_method_new: "find_method d x service_new = Some d"
  by (simp add: find_method_def service_new_def)

lemma sv_map_add: "sv_method_map (add_method name f s) x = None \<longleftrightarrow> x \<noteq> name \<and> sv_method_map s x = None"
  by (auto simp: add_method_def Let_def emplace_def)

end
