(* ===== verification/Business.thy ===== *)
theory Business
  imports Service_Core Md5
begin

section \<open>The services of the application\<close>

text \<open>
  The methods of \<open>authorize/auth_service.cpp\<close> and \<open>business/customer_service.cpp\<close>, the tokens of
  \<open>redis/redis_process.cpp\<close>, and what becomes of a request: it gets a reply object and a \<open>Control\<close>,
  whose destructor sends the reply. A method may answer at once, or send a command to Redis with a
  function that captures the \<open>Control\<close> and answers later; the reply is sent when the last of them is gone.

  A lambda is a constructor of \<open>closure\<close> with what it captures. The \<open>n\<close>-th request of a thread has the
  reply object and the \<open>Control\<close> with the number \<open>n\<close>.
\<close>

subsection \<open>State\<close>

datatype token_fn =
    Token_Login nat
  | Token_Upload json nat
  | Token_Base json nat
  | Token_Loan json nat
  | Token_Set_Switch json nat
  | Token_Get_Switch json nat

datatype closure =
    Ignored
  | Registered string string nat
  | Logged_In string string nat
  | With_Mobile token_fn
  | Uploaded nat
  | Base_Info nat
  | Loan_Applied nat
  | Switch_Set nat
  | Switch_Keys nat
  | Switch_Status string nat
  | Gateway_Status nat bytes nat

record 'c app =
  app_redis :: "closure redis_proxy"
  app_responses :: "nat \<Rightarrow> json"
  app_sent :: "(nat \<times> json) list"
  app_rest :: 'c

text \<open>
  The outside: hiredis; the attempt to connect, with the context it gets and whether both objects could
  be added to the loop; the clock, as the text of its count; the memory under a new \<open>MD5\<close>; the effect of
  the function of the smart gateway, which is in another component, on the connection with that number;
  the JSON parser.
\<close>

record 'c ext =
  ext_hiredis :: "'c hiredis"
  ext_connect :: "'c \<Rightarrow> ((int \<times> int) option \<times> bool) \<times> 'c"
  ext_now :: "'c \<Rightarrow> string \<times> 'c"
  ext_md5_memory :: "byte list \<times> byte list"
  ext_gateway :: "nat \<Rightarrow> bytes \<Rightarrow> nat \<Rightarrow> redis_reply \<Rightarrow> 'c \<Rightarrow> 'c option"
  ext_parse :: "string \<Rightarrow> string + json"

datatype err_code = E_OK | PARAM_ERROR | REGISTERED | LOGIN_ERR | SYSTEM_ERROR

fun err_number :: "err_code \<Rightarrow> int" where
  "err_number E_OK = 200"
| "err_number PARAM_ERROR = 400"
| "err_number REGISTERED = 401"
| "err_number LOGIN_ERR = 402"
| "err_number SYSTEM_ERROR = 500"

subsection \<open>Replies\<close>

definition set_reply :: "nat \<Rightarrow> json \<Rightarrow> 'c app \<Rightarrow> 'c app" where
  "set_reply n j w = w\<lparr>app_responses := (app_responses w)(n := j)\<rparr>"

text \<open>\<open>(*reply)[key] = value\<close>.\<close>

definition reply_put :: "nat \<Rightarrow> string \<Rightarrow> json \<Rightarrow> 'c app \<Rightarrow> 'c app result" where
  "reply_put n k v w = or_throw (j_put k v (app_responses w n)) (\<lambda>j w. Done (set_reply n j w)) w"

text \<open>The code and the message, in this order everywhere.\<close>

definition reply_both :: "nat \<Rightarrow> err_code \<Rightarrow> string \<Rightarrow> 'c app \<Rightarrow> 'c app result" where
  "reply_both n c msg w = after (reply_put n ''code'' (J_Int (err_number c)) w) (reply_put n ''message'' (J_String msg))"

text \<open>\<open>(*reply)["switchs"].push_back(v)\<close>: a new element is null.\<close>

definition reply_push :: "nat \<Rightarrow> string \<Rightarrow> json \<Rightarrow> 'c app \<Rightarrow> 'c app result" where
  "reply_push n k v w =
     (let old = (case j_find k (app_responses w n) of None \<Rightarrow> J_Null | Some j \<Rightarrow> j) in
      after (reply_put n k old w) (\<lambda>w1. or_throw (j_push_back v old) (\<lambda>arr. reply_put n k arr) w1))"

subsection \<open>Redis\<close>

text \<open>\<open>get_local_redis\<close>: the client, after another attempt to connect when it is not connected. The part
  of \<open>connect\<close> that concerns the loop is in the theory of the client.\<close>

definition proxy_connect :: "(int \<times> int) option \<times> bool \<Rightarrow> 'f redis_proxy \<Rightarrow> 'f redis_proxy" where
  "proxy_connect r p =
     (case fst r of
        None \<Rightarrow> p\<lparr>rp_context := False\<rparr>
      | Some (err, fd) \<Rightarrow> if err \<noteq> 0 then p\<lparr>rp_context := False\<rparr> else p\<lparr>rp_context := True, rp_connected := snd r\<rparr>)"

definition local_redis :: "'c ext \<Rightarrow> 'c app \<Rightarrow> 'c app" where
  "local_redis ext w =
     (if rp_connected (app_redis w) then w
      else (let (r, c) = ext_connect ext (app_rest w)
            in w\<lparr>app_redis := proxy_connect r (app_redis w), app_rest := c\<rparr>))"

definition redis_connected :: "'c app \<Rightarrow> bool" where
  "redis_connected w \<longleftrightarrow> rp_connected (app_redis w)"

definition app_send :: "'c ext \<Rightarrow> redis_command \<Rightarrow> closure \<Rightarrow> 'c app \<Rightarrow> 'c app result" where
  "app_send ext cmd f w =
     (let w1 = local_redis ext w in
      case redis_send (ext_hiredis ext) cmd f (app_redis w1, app_rest w1) of
        None \<Rightarrow> Undefined
      | Some ((p, c), _) \<Rightarrow> Done (w1\<lparr>app_redis := p, app_rest := c\<rparr>))"

subsection \<open>Tokens\<close>

definition private_key :: string where
  "private_key = ''6b7c9c763fad3e@#99e44!$b6ffb*51382bb6''"

definition md5_string :: "byte list \<times> byte list \<Rightarrow> string \<Rightarrow> string option" where
  "md5_string memory s = do {
     m \<leftarrow> md5_new memory (map of_char s);
     (m', hex) \<leftarrow> md5_toStr m;
     Some hex }"

text \<open>\<open>(*reply)["token"] = generate_token(mobile, password)\<close>, the call and its use: \<open>f\<close> gets the token.\<close>

definition generate_token :: "'c ext \<Rightarrow> string \<Rightarrow> string \<Rightarrow> (string \<Rightarrow> 'c app \<Rightarrow> 'c app result) \<Rightarrow> 'c app \<Rightarrow> 'c app result" where
  "generate_token ext mobile password f w =
     (let (now, c) = ext_now ext (app_rest w) in
      case md5_string (ext_md5_memory ext) (mobile @ private_key @ password @ now) of
        None \<Rightarrow> Undefined
      | Some md5 \<Rightarrow>
          after (app_send ext (Command_Line (''SETEX TOKEN_'' @ md5 @ '' 3600 '' @ mobile)) Ignored (w\<lparr>app_rest := c\<rparr>)) (f md5))"

definition refresh_token :: "'c ext \<Rightarrow> string \<Rightarrow> 'c app \<Rightarrow> 'c app result" where
  "refresh_token ext mobile = app_send ext (Command_Line (''EXPIRE TOKEN_'' @ mobile @ '' 3600'')) Ignored"

definition get_mobile_by_token :: "'c ext \<Rightarrow> string \<Rightarrow> token_fn \<Rightarrow> 'c app \<Rightarrow> 'c app result" where
  "get_mobile_by_token ext token fn = app_send ext (Command_Line (''GET TOKEN_'' @ token)) (With_Mobile fn)"

subsection \<open>Methods\<close>

type_synonym 'c meth = "json \<Rightarrow> nat \<Rightarrow> 'c app \<Rightarrow> 'c app result"

definition default_method :: "'c meth" where
  "default_method request n = reply_both n PARAM_ERROR ''method not found''"

definition health :: "'c meth" where
  "health request n = reply_put n ''status'' (J_String ''ok'')"

text \<open>The tests of the parameters \<open>mobile\<close> and \<open>password\<close> with which \<open>Register\<close> and \<open>Login\<close> begin.\<close>

definition with_param :: "json \<Rightarrow> nat \<Rightarrow> string \<Rightarrow> (string \<Rightarrow> 'c app \<Rightarrow> 'c app result) \<Rightarrow> 'c app \<Rightarrow> 'c app result" where
  "with_param request n name f w =
     (case j_find name request of
        None \<Rightarrow> reply_both n PARAM_ERROR (''miss required param : '' @ name) w
      | Some j \<Rightarrow>
          if \<not> is_string j then reply_both n PARAM_ERROR (''illegal param : '' @ name) w
          else or_throw (j_get_string j) f w)"

definition if_connected :: "'c ext \<Rightarrow> nat \<Rightarrow> string \<Rightarrow> ('c app \<Rightarrow> 'c app result) \<Rightarrow> 'c app \<Rightarrow> 'c app result" where
  "if_connected ext n msg f w =
     (let w1 = local_redis ext w in if \<not> redis_connected w1 then reply_both n SYSTEM_ERROR msg w1 else f w1)"

definition register :: "'c ext \<Rightarrow> 'c meth" where
  "register ext request n =
     with_param request n ''mobile'' (\<lambda>mobile. with_param request n ''password'' (\<lambda>password.
       if_connected ext n ''system error''
         (app_send ext (Command_Line (''HSETNX '' @ mobile @ '' password '' @ password)) (Registered mobile password n))))"

definition login :: "'c ext \<Rightarrow> 'c meth" where
  "login ext request n =
     with_param request n ''mobile'' (\<lambda>mobile. with_param request n ''password'' (\<lambda>password.
       if_connected ext n ''system error''
         (app_send ext (Command_Line (''HGET '' @ mobile @ '' password'')) (Logged_In mobile password n))))"

text \<open>The methods that take a token: a value that is not a string is an exception here.\<close>

definition with_token :: "'c ext \<Rightarrow> (json \<Rightarrow> nat \<Rightarrow> token_fn) \<Rightarrow> 'c meth" where
  "with_token ext fn request n w =
     (case j_find ''token'' request of
        None \<Rightarrow> reply_both n PARAM_ERROR ''miss required param: token'' w
      | Some j \<Rightarrow> or_throw (j_get_string j) (\<lambda>token. get_mobile_by_token ext token (fn request n)) w)"

definition login_with_token :: "'c ext \<Rightarrow> 'c meth" where
  "login_with_token ext = with_token ext (\<lambda>request n. Token_Login n)"

definition upload_data :: "'c ext \<Rightarrow> 'c meth" where
  "upload_data ext = with_token ext Token_Upload"

definition get_base_info :: "'c ext \<Rightarrow> 'c meth" where
  "get_base_info ext = with_token ext Token_Base"

definition apply_for_loan :: "'c ext \<Rightarrow> 'c meth" where
  "apply_for_loan ext = with_token ext Token_Loan"

definition set_switch_info :: "'c ext \<Rightarrow> 'c meth" where
  "set_switch_info ext = with_token ext Token_Set_Switch"

definition get_switch_info :: "'c ext \<Rightarrow> 'c meth" where
  "get_switch_info ext = with_token ext Token_Get_Switch"

text \<open>\<open>GetLocation\<close> reads its parameters only to log them, and throws when one is not a string.\<close>

definition log_param :: "json \<Rightarrow> string \<Rightarrow> 'c app \<Rightarrow> 'c app result" where
  "log_param request name w =
     (case j_find name request of None \<Rightarrow> Done w | Some j \<Rightarrow> or_throw (j_get_string j) (\<lambda>_. Done) w)"

definition get_location :: "'c meth" where
  "get_location request n w =
     after (log_param request ''longitude'' w) (\<lambda>w. after (log_param request ''latitude'' w) (\<lambda>w.
     after (log_param request ''altitude'' w) (reply_both n E_OK ''success'')))"

subsection \<open>Functions for the replies of Redis\<close>

text \<open>\<open>find\<close> of an optional parameter of \<open>UploadData\<close>: the name and the value follow in the command.\<close>

definition upload_param :: "json \<Rightarrow> string \<Rightarrow> (string list \<Rightarrow> 'c app \<Rightarrow> 'c app result) \<Rightarrow> string list \<Rightarrow> 'c app \<Rightarrow> 'c app result" where
  "upload_param request name f cmd w =
     (case j_find name request of
        None \<Rightarrow> f cmd w
      | Some j \<Rightarrow> or_throw (j_get_string j) (\<lambda>v. f (cmd @ [name, v])) w)"

text \<open>The loop of \<open>SetSwitchInfo\<close>; \<open>f\<close> is what follows it. When the client is not connected the function
  returns out of the loop with an error in the reply.\<close>

fun switch_loop :: "'c ext \<Rightarrow> nat \<Rightarrow> json list \<Rightarrow> ('c app \<Rightarrow> 'c app result) \<Rightarrow> 'c app \<Rightarrow> 'c app result" where
  "switch_loop ext n [] f w = f w"
| "switch_loop ext n (info # infos) f w =
     (case j_find ''name'' info of
        None \<Rightarrow> switch_loop ext n infos f w
      | Some name \<Rightarrow>
          (case j_find ''status'' info of
             None \<Rightarrow> switch_loop ext n infos f w
           | Some status \<Rightarrow>
               or_throw (j_get_string name) (\<lambda>name. or_throw (j_get_string status) (\<lambda>status.
                 if_connected ext n ''connect redis fail'' (\<lambda>w.
                   after (app_send ext (Command_Argv [''HSET'', name, ''request_status'', status]) (Switch_Set n) w)
                     (switch_loop ext n infos f)))) w))"

text \<open>The functions \<open>get_mobile_by_token\<close> calls with the mobile number.\<close>

fun run_token_fn :: "'c ext \<Rightarrow> token_fn \<Rightarrow> string \<Rightarrow> 'c app \<Rightarrow> 'c app result" where
  "run_token_fn ext (Token_Login n) mobile w =
     (if mobile = [] then reply_both n LOGIN_ERR ''token is wrong'' w
      else after (reply_both n E_OK ''success'' w) (reply_put n ''mobile'' (J_String mobile)))"
| "run_token_fn ext (Token_Upload request n) mobile w =
     (if mobile = [] then reply_both n LOGIN_ERR ''token is wrong'' w
      else
        upload_param request ''name'' (upload_param request ''company'' (upload_param request ''income''
          (upload_param request ''has_loans'' (\<lambda>cmd.
             if_connected ext n ''connect redis fail'' (app_send ext (Command_Argv cmd) (Uploaded n))))))
          [''HMSET'', mobile] w)"
| "run_token_fn ext (Token_Base request n) mobile w =
     (if mobile = [] then reply_both n LOGIN_ERR ''token is wrong'' w
      else if_connected ext n ''connect redis fail'' (app_send ext (Command_Argv [''HGETALL'', mobile]) (Base_Info n)) w)"
| "run_token_fn ext (Token_Loan request n) mobile w =
     (if mobile = [] then reply_both n LOGIN_ERR ''token is wrong'' w
      else if_connected ext n ''connect redis fail'' (app_send ext (Command_Line []) (Loan_Applied n)) w)"
| "run_token_fn ext (Token_Set_Switch request n) mobile w =
     (if mobile = [] then reply_both n LOGIN_ERR ''token is wrong'' w
      else
        (case j_find ''switch'' request of
           None \<Rightarrow> reply_both n E_OK ''success'' w
         | Some j \<Rightarrow> or_throw (j_get_array j) (\<lambda>infos. switch_loop ext n infos (reply_both n E_OK ''success'')) w))"
| "run_token_fn ext (Token_Get_Switch request n) mobile w =
     (if mobile = [] then reply_both n LOGIN_ERR ''token is wrong'' w
      else if_connected ext n ''connect redis fail'' (app_send ext (Command_Argv [''KEYS'', mobile @ ''_switch_*'']) (Switch_Keys n)) w)"

text \<open>
  The loop of \<open>GetBaseInfo\<close> over the elements, a name and a value by turns; \<open>key\<close> is empty when a name is
  next. An element without text is a null pointer for \<open>std::string\<close>.
\<close>

fun base_loop :: "nat \<Rightarrow> string \<Rightarrow> redis_reply list \<Rightarrow> 'c app \<Rightarrow> 'c app result" where
  "base_loop n key [] w = Done w"
| "base_loop n key (r # rs) w =
     (if key = [] then (case reply_str r of None \<Rightarrow> Undefined | Some s \<Rightarrow> base_loop n s rs w)
      else if key = ''password'' then base_loop n [] rs w
      else
        (case reply_str r of
           None \<Rightarrow> Undefined
         | Some s \<Rightarrow> after (reply_put n key (J_String s) w) (base_loop n [] rs)))"

fun keys_loop :: "'c ext \<Rightarrow> nat \<Rightarrow> redis_reply list \<Rightarrow> 'c app \<Rightarrow> 'c app result" where
  "keys_loop ext n [] w = Done w"
| "keys_loop ext n (r # rs) w =
     (case reply_str r of
        None \<Rightarrow> Undefined
      | Some key \<Rightarrow> after (app_send ext (Command_Argv [''HGET'', key, ''status'']) (Switch_Status key n) w) (keys_loop ext n rs))"

fun run_closure :: "'c ext \<Rightarrow> closure \<Rightarrow> redis_reply \<Rightarrow> 'c app \<Rightarrow> 'c app result" where
  "run_closure ext Ignored r w = Done w"
| "run_closure ext (Registered mobile password n) r w =
     (if r = Reply_Integer 1 then
        after (reply_both n E_OK ''success'' w) (generate_token ext mobile password (\<lambda>token. reply_put n ''token'' (J_String token)))
      else reply_both n REGISTERED ''this mobile has been registerd.'' w)"
| "run_closure ext (Logged_In mobile password n) r w =
     (case r of
        Reply_String s \<Rightarrow>
          if password = c_str s then
            after (reply_both n E_OK ''success'' w) (generate_token ext mobile password (\<lambda>token. reply_put n ''token'' (J_String token)))
          else reply_both n LOGIN_ERR ''mobile number/password is wrong'' w
      | _ \<Rightarrow> reply_both n LOGIN_ERR ''mobile number/password is wrong'' w)"
| "run_closure ext (With_Mobile fn) r w =
     run_token_fn ext fn (case r of Reply_String s \<Rightarrow> c_str s | _ \<Rightarrow> []) w"
| "run_closure ext (Uploaded n) r w =
     (case r of
        Reply_Status s \<Rightarrow>
          if c_str s = ''OK'' then reply_both n E_OK ''success'' w else reply_both n SYSTEM_ERROR ''system error'' w
      | _ \<Rightarrow> reply_both n SYSTEM_ERROR ''system error'' w)"
| "run_closure ext (Base_Info n) r w =
     (case r of
        Reply_Array rs \<Rightarrow> after (base_loop n [] rs w) (reply_both n E_OK ''success'')
      | _ \<Rightarrow> reply_both n SYSTEM_ERROR ''system error'' w)"
| "run_closure ext (Loan_Applied n) r w = Done w"
| "run_closure ext (Switch_Set n) r w = Done w"
| "run_closure ext (Switch_Keys n) r w =
     (case r of
        Reply_Array rs \<Rightarrow> if rs = [] then reply_both n E_OK ''success'' w else keys_loop ext n rs w
      | _ \<Rightarrow> reply_both n SYSTEM_ERROR ''system error'' w)"
| "run_closure ext (Switch_Status key n) r w =
     (case r of
        Reply_String s \<Rightarrow>
          after (reply_push n ''switchs'' (J_Object [(''name'', J_String key), (''status'', J_String (c_str s))]) w)
            (reply_both n E_OK ''success'')
      | _ \<Rightarrow> Done w)"
| "run_closure ext (Gateway_Status conn pro t) r w =
     (case ext_gateway ext conn pro t r (app_rest w) of None \<Rightarrow> Undefined | Some c \<Rightarrow> Done (w\<lparr>app_rest := c\<rparr>))"

subsection \<open>The control of a request\<close>

text \<open>The \<open>Control\<close> a function captures. The function of \<open>SetSwitchInfo\<close> captures the reply only.\<close>

fun token_ctrl :: "token_fn \<Rightarrow> nat" where
  "token_ctrl (Token_Login n) = n"
| "token_ctrl (Token_Upload j n) = n"
| "token_ctrl (Token_Base j n) = n"
| "token_ctrl (Token_Loan j n) = n"
| "token_ctrl (Token_Set_Switch j n) = n"
| "token_ctrl (Token_Get_Switch j n) = n"

fun closure_ctrl :: "closure \<Rightarrow> nat option" where
  "closure_ctrl (Registered m p n) = Some n"
| "closure_ctrl (Logged_In m p n) = Some n"
| "closure_ctrl (With_Mobile fn) = Some (token_ctrl fn)"
| "closure_ctrl (Uploaded n) = Some n"
| "closure_ctrl (Base_Info n) = Some n"
| "closure_ctrl (Loan_Applied n) = Some n"
| "closure_ctrl (Switch_Keys n) = Some n"
| "closure_ctrl (Switch_Status key n) = Some n"
| "closure_ctrl _ = None"

definition held :: "'c app \<Rightarrow> nat set" where
  "held w = {n. Some n \<in> closure_ctrl ` set (rp_callbacks (app_redis w))}"

text \<open>A reference goes away: the destructor runs when no waiting function has another one.\<close>

definition release :: "nat \<Rightarrow> 'c app \<Rightarrow> 'c app" where
  "release n w =
     (if \<exists>f \<in> set (rp_callbacks (app_redis w)). closure_ctrl f = Some n then w
      else w\<lparr>app_sent := app_sent w @ [(n, app_responses w n)]\<rparr>)"

text \<open>
  A complete message: \<open>parse_http_message\<close> from the reply object on. Exceptions of the parser and of the
  method are caught there.
\<close>

definition serve :: "'c ext \<Rightarrow> 'c meth services \<Rightarrow> nat \<Rightarrow> string \<Rightarrow> string \<Rightarrow> string \<Rightarrow> 'c app \<Rightarrow> 'c app result" where
  "serve ext services n service_name method_name content w =
     (let w1 = set_reply n J_Null w;
          r = or_throw (ext_parse ext content) (\<lambda>request w.
                case find_method default_method method_name (find_service service_name services) of
                  None \<Rightarrow> Undefined
                | Some f \<Rightarrow> f request n w) w1;
          r2 = (case r of Threw what w \<Rightarrow> reply_both n PARAM_ERROR what w | _ \<Rightarrow> r)
      in after r2 (\<lambda>w. Done (release n w)))"

text \<open>A reply of Redis: an exception that leaves the function is not caught on the way out of hiredis
  and libev.\<close>

definition redis_answer :: "'c ext \<Rightarrow> redis_reply option \<Rightarrow> 'c app \<Rightarrow> 'c app result" where
  "redis_answer ext r w =
     (case redis_callback r (app_redis w) of
        None \<Rightarrow> Undefined
      | Some (p, f, reply) \<Rightarrow>
          after (run_closure ext f reply (w\<lparr>app_redis := p\<rparr>))
            (\<lambda>w. Done (case closure_ctrl f of None \<Rightarrow> w | Some n \<Rightarrow> release n w)))"

text \<open>The services of the server (\<open>server_small.cpp\<close>).\<close>

definition base_init :: "'c meth service \<Rightarrow> 'c meth service" where
  "base_init = add_method ''Health'' health"

definition access_init :: "'c ext \<Rightarrow> 'c meth service \<Rightarrow> 'c meth service" where
  "access_init ext s =
     add_method ''Login'' (login ext) (add_method ''LoginWithToken'' (login_with_token ext)
       (add_method ''Register'' (register ext) s))"

definition customer_init :: "'c ext \<Rightarrow> 'c meth service \<Rightarrow> 'c meth service" where
  "customer_init ext s =
     add_method ''GetSwitchInfo'' (get_switch_info ext) (add_method ''SetSwitchInfo'' (set_switch_info ext)
       (add_method ''GetLocation'' get_location (add_method ''ApplyForLoan'' (apply_for_loan ext)
         (add_method ''GetBaseInfo'' (get_base_info ext) (add_method ''UploadData'' (upload_data ext) s)))))"

definition smart_services :: "'c ext \<Rightarrow> 'c meth services" where
  "smart_services ext =
     add_service (customer_init ext) service_new ''Customer''
       (add_service (access_init ext) service_new ''AccessService'' (services_new base_init))"

text \<open>The life of the application in one thread: requests and replies of Redis as they come. The second
  component counts the requests.\<close>

datatype app_event = Request string string string | Redis_Reply redis_reply

fun app_run :: "'c ext \<Rightarrow> app_event list \<Rightarrow> nat \<times> 'c app \<Rightarrow> (nat \<times> 'c app) option" where
  "app_run ext [] s = Some s"
| "app_run ext (Request service_name method_name content # es) (n, w) =
     (case serve ext (smart_services ext) n service_name method_name content w of
        Done w1 \<Rightarrow> app_run ext es (Suc n, w1)
      | _ \<Rightarrow> None)"
| "app_run ext (Redis_Reply r # es) (n, w) =
     (case redis_answer ext (Some r) w of Done w1 \<Rightarrow> app_run ext es (n, w1) | _ \<Rightarrow> None)"

subsection \<open>What a method may do\<close>

text \<open>On behalf of request \<open>n\<close> a method or a function for a reply changes that request's reply only, sends
  nothing itself, and adds functions to the queue that hold that request's \<open>Control\<close> or none.\<close>

definition grows :: "nat \<Rightarrow> 'c app \<Rightarrow> 'c app \<Rightarrow> bool" where
  "grows n w w' \<longleftrightarrow> app_sent w' = app_sent w \<and> (\<forall>m. m \<noteq> n \<longrightarrow> app_responses w' m = app_responses w m)
   \<and> (\<exists>cs. rp_callbacks (app_redis w') = rp_callbacks (app_redis w) @ cs \<and> (\<forall>f \<in> set cs. closure_ctrl f = Some n \<or> closure_ctrl f = None))"

text \<open>A reply under construction is null or an object; a complete one has the code and the message.\<close>

definition j_fields :: "json \<Rightarrow> string \<Rightarrow> json option" where
  "j_fields j = (case j of J_Object xs \<Rightarrow> map_of xs | _ \<Rightarrow> Map.empty)"

definition open_reply :: "json \<Rightarrow> bool" where
  "open_reply j \<longleftrightarrow> j = J_Null \<or> (\<exists>xs. j = J_Object xs)"

definition complete :: "json \<Rightarrow> bool" where
  "complete j \<longleftrightarrow> open_reply j \<and> (\<exists>c. j_fields j ''code'' = Some (J_Int (err_number c))) \<and> (\<exists>s. j_fields j ''message'' = Some (J_String s))"

definition settled :: "json \<Rightarrow> json \<Rightarrow> bool" where
  "settled j0 j \<longleftrightarrow> complete j \<or> j = j0"

definition meets :: "nat \<Rightarrow> 'c app \<Rightarrow> (json \<Rightarrow> bool) \<Rightarrow> 'c app result \<Rightarrow> bool" where
  "meets n w0 R r \<longleftrightarrow>
     (case r of Done w \<Rightarrow> grows n w0 w \<and> R (app_responses w n)
      | Threw e w \<Rightarrow> grows n w0 w \<and> open_reply (app_responses w n)
      | Undefined \<Rightarrow> True)"

named_theorems meets_intros \<open>what the building blocks of the methods do\<close>

lemma open_null [simp]: "open_reply J_Null"
  by (simp add: open_reply_def)

lemma grows_refl [simp]: "grows n w w"
  by (simp add: grows_def)

lemma grows_trans: "grows n a b \<Longrightarrow> grows n b c \<Longrightarrow> grows n a c"
  unfolding grows_def by (elim conjE exE) (auto intro!: exI[of _ "_ @ _"])

lemma grows_set_reply: "grows n w0 w \<Longrightarrow> grows n w0 (set_reply n j w)"
  by (simp add: grows_def set_reply_def)

lemma grows_rest [simp]: "grows n w0 (w\<lparr>app_rest := c\<rparr>) = grows n w0 w"
  by (simp add: grows_def)

lemma meets_Done [meets_intros]: "grows n w0 w \<Longrightarrow> R (app_responses w n) \<Longrightarrow> meets n w0 R (Done w)"
  by (simp add: meets_def)

lemma meets_Undefined [meets_intros]: "meets n w0 R Undefined"
  by (simp add: meets_def)

lemma meets_after:
  assumes "meets n w0 P r" "\<And>w. grows n w0 w \<Longrightarrow> P (app_responses w n) \<Longrightarrow> meets n w0 R (f w)"
  shows "meets n w0 R (after r f)"
  using assms by (cases r) (auto simp: meets_def)

lemma meets_mono: "meets n w0 P r \<Longrightarrow> (\<And>j. P j \<Longrightarrow> R j) \<Longrightarrow> meets n w0 R r"
  by (auto simp: meets_def split: result.splits)

lemma meets_or_throw [meets_intros]:
  assumes "grows n w0 w" "open_reply (app_responses w n)" "\<And>a. x = Inr a \<Longrightarrow> meets n w0 R (f a w)"
  shows "meets n w0 R (or_throw x f w)"
  using assms by (auto simp: or_throw_def meets_def split: sum.splits)

lemma j_put_open:
  assumes "open_reply j"
  shows "\<exists>j'. j_put k v j = Inr j' \<and> open_reply j' \<and> j_fields j' = (j_fields j)(k \<mapsto> v)"
  using assms by (auto simp: open_reply_def j_fields_def map_of_put fun_eq_iff)

lemma reply_put_Done:
  assumes "open_reply (app_responses w n)"
  shows "\<exists>j. reply_put n k v w = Done (set_reply n j w) \<and> open_reply j \<and> j_fields j = (j_fields (app_responses w n))(k \<mapsto> v)"
  using j_put_open[OF assms, of k v] by (auto simp: reply_put_def or_throw_def)

lemma set_reply_same [simp]: "app_responses (set_reply n j w) n = j"
  by (simp add: set_reply_def)

lemma meets_put:
  assumes "grows n w0 w" "open_reply (app_responses w n)"
    "\<And>j. open_reply j \<Longrightarrow> j_fields j = (j_fields (app_responses w n))(k \<mapsto> v) \<Longrightarrow> R j"
  shows "meets n w0 R (reply_put n k v w)"
  using reply_put_Done[OF assms(2), of k v] assms grows_set_reply by (auto simp: meets_def)

lemma set_reply_twice [simp]: "set_reply n j (set_reply n i w) = set_reply n j w"
  by (simp add: set_reply_def)

lemma reply_both_Done:
  assumes "open_reply (app_responses w n)"
  shows "\<exists>j. reply_both n c msg w = Done (set_reply n j w) \<and> complete j
    \<and> j_fields j = (j_fields (app_responses w n))(''code'' \<mapsto> J_Int (err_number c), ''message'' \<mapsto> J_String msg)"
proof -
  obtain j where j: "reply_put n ''code'' (J_Int (err_number c)) w = Done (set_reply n j w)" "open_reply j"
    "j_fields j = (j_fields (app_responses w n))(''code'' \<mapsto> J_Int (err_number c))"
    using reply_put_Done[OF assms] by blast
  have o2: "open_reply (app_responses (set_reply n j w) n)" using j(2) by simp
  obtain j' where "reply_put n ''message'' (J_String msg) (set_reply n j w) = Done (set_reply n j' w)" "open_reply j'"
    "j_fields j' = (j_fields j)(''message'' \<mapsto> J_String msg)"
    using reply_put_Done[OF o2, of "''message''" "J_String msg"] by auto
  then have "reply_both n c msg w = Done (set_reply n j' w)"
    "j_fields j' = (j_fields (app_responses w n))(''code'' \<mapsto> J_Int (err_number c), ''message'' \<mapsto> J_String msg)"
    using j by (simp_all add: reply_both_def)
  moreover from this(2) \<open>open_reply j'\<close> have "complete j'" unfolding complete_def by auto
  ultimately show ?thesis by blast
qed

lemma meets_both [meets_intros]:
  assumes "grows n w0 w" "open_reply (app_responses w n)" "\<And>j. complete j \<Longrightarrow> R j"
  shows "meets n w0 R (reply_both n c msg w)"
  using reply_both_Done[OF assms(2), of c msg] assms grows_set_reply by (auto simp: meets_def)

lemma local_redis_grows: "grows n w0 w \<Longrightarrow> grows n w0 (local_redis ext w)"
  by (auto simp: local_redis_def grows_def proxy_connect_def split: prod.splits option.splits)

lemma local_redis_responses [simp]: "app_responses (local_redis ext w) = app_responses w"
  by (simp add: local_redis_def split: prod.splits)

lemma redis_send_callbacks:
  "redis_send hi cmd f (p, c) = Some ((p', c'), ok) \<Longrightarrow> rp_callbacks p' = rp_callbacks p \<or> rp_callbacks p' = rp_callbacks p @ [f]"
  by (cases cmd) (auto simp: send_argv_def send_line_def push_callback_def split: if_splits prod.splits)

lemma meets_send [meets_intros]:
  assumes "grows n w0 w" "closure_ctrl f = Some n \<or> closure_ctrl f = None" "R (app_responses w n)"
  shows "meets n w0 R (app_send ext cmd f w)"
proof (cases "redis_send (ext_hiredis ext) cmd f (app_redis (local_redis ext w), app_rest (local_redis ext w))")
  case None
  then show ?thesis by (simp add: app_send_def meets_def)
next
  case (Some x)
  then obtain p c ok where x: "redis_send (ext_hiredis ext) cmd f (app_redis (local_redis ext w), app_rest (local_redis ext w)) = Some ((p, c), ok)"
    by (metis prod.exhaust)
  let ?w = "(local_redis ext w)\<lparr>app_redis := p, app_rest := c\<rparr>"
  have "grows n (local_redis ext w) ?w"
    using redis_send_callbacks[OF x] assms(2) by (auto simp: grows_def)
  then have "grows n w0 ?w" using grows_trans local_redis_grows[OF assms(1)] by blast
  then show ?thesis using x assms(3) by (simp add: app_send_def meets_def)
qed

lemma meets_connected [meets_intros]:
  assumes "grows n w0 w" "open_reply (app_responses w n)" "\<And>j. complete j \<Longrightarrow> R j"
    "grows n w0 (local_redis ext w) \<Longrightarrow> app_responses (local_redis ext w) = app_responses w \<Longrightarrow> meets n w0 R (f (local_redis ext w))"
  shows "meets n w0 R (if_connected ext n msg f w)"
  using assms local_redis_grows[OF assms(1)] by (auto simp: if_connected_def Let_def intro!: meets_both)

lemma complete_open: "complete j \<Longrightarrow> open_reply j"
  by (simp add: complete_def)

lemma complete_other_field:
  assumes "complete j" "open_reply j'" "j_fields j' = (j_fields j)(k \<mapsto> v)" "k \<noteq> ''code''" "k \<noteq> ''message''"
  shows "complete j'"
  using assms by (simp add: complete_def)

lemma meets_token [meets_intros]:
  assumes "grows n w0 w" "R0 (app_responses w n)"
    "\<And>token w'. grows n w0 w' \<Longrightarrow> R0 (app_responses w' n) \<Longrightarrow> meets n w0 R (f token w')"
  shows "meets n w0 R (generate_token ext mobile password f w)"
proof -
  obtain now c where t: "ext_now ext (app_rest w) = (now, c)" by (cases "ext_now ext (app_rest w)")
  show ?thesis
  proof (cases "md5_string (ext_md5_memory ext) (mobile @ private_key @ password @ now)")
    case None
    then show ?thesis by (simp add: generate_token_def t meets_def)
  next
    case (Some md5)
    have "meets n w0 R0 (app_send ext (Command_Line (''SETEX TOKEN_'' @ md5 @ '' 3600 '' @ mobile)) Ignored (w\<lparr>app_rest := c\<rparr>))"
      using assms by (intro meets_send) simp_all
    then have "meets n w0 R (after (app_send ext (Command_Line (''SETEX TOKEN_'' @ md5 @ '' 3600 '' @ mobile)) Ignored (w\<lparr>app_rest := c\<rparr>)) (f md5))"
      by (rule meets_after) (rule assms(3))
    then show ?thesis by (simp add: generate_token_def t Some)
  qed
qed

lemma with_token_meets:
  assumes "grows n w0 w" "open_reply (app_responses w n)" "\<And>r. token_ctrl (fn r n) = n"
  shows "meets n w0 (settled (app_responses w n)) (with_token ext fn request n w)"
  unfolding with_token_def get_mobile_by_token_def
  using assms by (auto simp: settled_def split: option.splits intro!: meets_intros)

lemma with_param_meets:
  assumes "grows n w0 w" "open_reply (app_responses w n)" "\<And>v. meets n w0 (settled j0) (f v w)"
  shows "meets n w0 (settled j0) (with_param request n name f w)"
  unfolding with_param_def
  using assms by (auto simp: settled_def split: option.splits intro!: meets_intros)

text \<open>Every method leaves a complete reply or none, and \<open>health\<close> its own.\<close>

definition health_reply :: json where
  "health_reply = J_Object [(''status'', J_String ''ok'')]"

definition well_behaved :: "'c meth \<Rightarrow> bool" where
  "well_behaved f \<longleftrightarrow> (\<forall>request n w0 w. grows n w0 w \<and> app_responses w n = J_Null \<longrightarrow>
     meets n w0 (\<lambda>j. complete j \<or> j = J_Null \<or> j = health_reply) (f request n w))"

lemma well_behavedI:
  assumes "\<And>request n w0 w. grows n w0 w \<Longrightarrow> app_responses w n = J_Null \<Longrightarrow> open_reply (app_responses w n) \<Longrightarrow>
    meets n w0 (settled J_Null) (f request n w)"
  shows "well_behaved f"
  unfolding well_behaved_def
  by (intro allI impI, rule meets_mono, rule assms) (auto simp: settled_def open_reply_def)

lemma with_token_behaved:
  fixes ext :: "'a ext"
  assumes "\<And>r n. token_ctrl (fn r n) = n"
  shows "well_behaved (with_token ext fn)"
proof (rule well_behavedI)
  fix request n and w0 w :: "'a app"
  assume w: "grows n w0 w" "app_responses w n = J_Null" "open_reply (app_responses w n)"
  show "meets n w0 (settled J_Null) (with_token ext fn request n w)"
    using with_token_meets[of n w0 w fn ext request] w assms by simp
qed

lemma token_methods:
  "well_behaved (login_with_token ext)" "well_behaved (upload_data ext)" "well_behaved (get_base_info ext)"
  "well_behaved (apply_for_loan ext)" "well_behaved (set_switch_info ext)" "well_behaved (get_switch_info ext)"
  by (simp_all add: login_with_token_def upload_data_def get_base_info_def apply_for_loan_def set_switch_info_def
      get_switch_info_def with_token_behaved)

lemma password_methods: "well_behaved (register ext)" "well_behaved (login ext)"
proof -
  show "well_behaved (register ext)"
    unfolding register_def
    by (rule well_behavedI) (intro with_param_meets meets_connected meets_send; simp add: settled_def)
  show "well_behaved (login ext)"
    unfolding login_def
    by (rule well_behavedI) (intro with_param_meets meets_connected meets_send; simp add: settled_def)
qed

lemma log_param_meets:
  assumes "grows n w0 w" "app_responses w n = j0" "open_reply j0"
  shows "meets n w0 (\<lambda>j. j = j0) (log_param request name w)"
  unfolding log_param_def using assms by (auto split: option.splits intro!: meets_intros)

lemma other_methods: "well_behaved get_location" "well_behaved default_method" "well_behaved health"
proof -
  show "well_behaved get_location"
    unfolding get_location_def
    by (rule well_behavedI) (intro meets_after[where P = "\<lambda>j. j = J_Null", OF log_param_meets] meets_both; simp add: settled_def)
  show "well_behaved default_method"
    unfolding default_method_def by (rule well_behavedI) (intro meets_both; simp add: settled_def)
  show "well_behaved health"
    by (auto simp: well_behaved_def health_def reply_put_def or_throw_def meets_def health_reply_def intro: grows_set_reply)
qed

lemma upload_param_meets:
  assumes "grows n w0 w" "open_reply (app_responses w n)" "\<And>cmd. meets n w0 R (f cmd w)"
  shows "meets n w0 R (upload_param request name f cmd w)"
  unfolding upload_param_def using assms by (auto split: option.splits intro!: meets_or_throw)

lemma switch_loop_meets:
  assumes "\<And>w. grows n w0 w \<Longrightarrow> open_reply (app_responses w n) \<Longrightarrow> meets n w0 complete (f w)"
    "grows n w0 w" "open_reply (app_responses w n)"
  shows "meets n w0 complete (switch_loop ext n infos f w)"
  using assms(2,3)
proof (induction infos arbitrary: w)
  case Nil
  then show ?case using assms(1) by simp
next
  case (Cons info infos)
  have step: "meets n w0 complete (after (app_send ext cmd (Switch_Set n) w') (switch_loop ext n infos f))"
    if "grows n w0 w'" "open_reply (app_responses w' n)" for cmd w'
    by (rule meets_after[where P = open_reply], rule meets_send) (use that Cons.IH in auto)
  have "meets n w0 complete (if_connected ext n msg
      (\<lambda>w. after (app_send ext cmd (Switch_Set n) w) (switch_loop ext n infos f)) w)" for msg cmd
    by (rule meets_connected) (use Cons.prems step in auto)
  then show ?case using Cons by (auto split: option.splits intro!: meets_or_throw)
qed

lemma run_token_fn_meets:
  assumes w: "grows n w0 w" "open_reply (app_responses w n)" and n: "token_ctrl fn = n"
  shows "meets n w0 (settled (app_responses w n)) (run_token_fn ext fn mobile w)"
proof (cases "mobile = []")
  case True
  then show ?thesis using w n by (cases fn) (auto simp: settled_def intro!: meets_both)
next
  case False
  have send: "meets n w0 (settled (app_responses w n)) (if_connected ext n msg (app_send ext cmd f) w)"
    if "closure_ctrl f = Some n" for msg cmd f
    by (rule meets_connected[OF w]) (use that in \<open>auto simp: settled_def intro!: meets_send\<close>)
  show ?thesis
  proof (cases fn)
    case (Token_Login k)
    have "meets n w0 complete (after (reply_both n E_OK ''success'' w) (reply_put n ''mobile'' (J_String mobile)))"
      by (rule meets_after[where P = complete], rule meets_both[OF w], assumption, rule meets_put)
         (auto intro: complete_open complete_other_field)
    then show ?thesis using False n Token_Login by (auto simp: settled_def intro: meets_mono)
  next
    case (Token_Upload request k)
    then show ?thesis using False n send w by (auto intro!: upload_param_meets)
  next
    case (Token_Set_Switch request k)
    have "meets n w0 complete (switch_loop ext n infos (reply_both n E_OK ''success'') w)" for infos
      by (rule switch_loop_meets) (use w in \<open>auto intro: meets_both\<close>)
    then have "meets n w0 (settled (app_responses w n)) (switch_loop ext n infos (reply_both n E_OK ''success'') w)" for infos
      by (rule meets_mono) (simp add: settled_def)
    then show ?thesis using False n w Token_Set_Switch
      by (auto simp: settled_def split: option.splits intro!: meets_or_throw meets_both)
  qed (use False n send in simp_all)
qed

lemma base_loop_meets:
  "grows n w0 w \<Longrightarrow> open_reply (app_responses w n) \<Longrightarrow> meets n w0 open_reply (base_loop n key rs w)"
proof (induction rs arbitrary: key w)
  case (Cons r rs)
  have "meets n w0 open_reply (after (reply_put n key (J_String s) w) (base_loop n [] rs))" for s
    by (rule meets_after[where P = open_reply], rule meets_put[OF Cons.prems]) (use Cons.IH in auto)
  then show ?case using Cons by (auto split: option.splits intro!: meets_Undefined)
qed (simp add: meets_Done)

lemma keys_loop_meets:
  "grows n w0 w \<Longrightarrow> app_responses w n = j0 \<Longrightarrow> meets n w0 (\<lambda>j. j = j0) (keys_loop ext n rs w)"
proof (induction rs arbitrary: w)
  case (Cons r rs)
  have "meets n w0 (\<lambda>j. j = j0) (after (app_send ext cmd (Switch_Status key n) w) (keys_loop ext n rs))" for cmd key
    by (rule meets_after[where P = "\<lambda>j. j = j0"], rule meets_send) (use Cons in auto)
  then show ?case by (auto split: option.splits intro!: meets_Undefined)
qed (simp add: meets_Done)

lemma reply_push_meets:
  assumes "grows n w0 w" "open_reply (app_responses w n)"
  shows "meets n w0 open_reply (reply_push n k v w)"
  unfolding reply_push_def Let_def
  by (rule meets_after[where P = open_reply], rule meets_put[OF assms])
     (auto intro!: meets_or_throw meets_put)

lemma issue_token_meets:
  assumes "grows n w0 w" "open_reply (app_responses w n)"
  shows "meets n w0 complete (after (reply_both n E_OK ''success'' w)
    (generate_token ext mobile password (\<lambda>token. reply_put n ''token'' (J_String token))))"
  by (rule meets_after[where P = complete], rule meets_both[OF assms], assumption,
      rule meets_token[where R0 = complete], assumption, assumption, rule meets_put)
     (auto intro: complete_open complete_other_field)

lemma run_closure_meets:
  assumes w: "grows n w0 w" "open_reply (app_responses w n)" and f: "closure_ctrl f = Some n"
  shows "meets n w0 (settled (app_responses w n)) (run_closure ext f r w)"
proof (cases f)
  case (Registered mobile password k)
  then show ?thesis using f issue_token_meets[OF w, THEN meets_mono] w
    by (auto simp: settled_def intro!: meets_both)
next
  case (Logged_In mobile password k)
  then show ?thesis using f issue_token_meets[OF w, THEN meets_mono] w
    by (auto simp: settled_def split: redis_reply.splits intro!: meets_both)
next
  case (With_Mobile fn)
  then show ?thesis using f run_token_fn_meets[OF w] by simp
next
  case (Uploaded k)
  then show ?thesis using f w by (auto simp: settled_def split: redis_reply.splits intro!: meets_both)
next
  case (Base_Info k)
  have "meets n w0 complete (after (base_loop n [] rs w) (reply_both n E_OK ''success''))" for rs
    by (rule meets_after[OF base_loop_meets[OF w]]) (auto intro: meets_both)
  then have "meets n w0 (settled (app_responses w n)) (after (base_loop n [] rs w) (reply_both n E_OK ''success''))" for rs
    by (rule meets_mono) (simp add: settled_def)
  then show ?thesis using f w Base_Info by (auto simp: settled_def split: redis_reply.splits intro!: meets_both)
next
  case (Switch_Keys k)
  have "meets n w0 (settled (app_responses w n)) (keys_loop ext n rs w)" for rs
    by (rule meets_mono[OF keys_loop_meets[OF w(1) refl]]) (simp add: settled_def)
  then show ?thesis using f w Switch_Keys by (auto simp: settled_def split: redis_reply.splits intro!: meets_both)
next
  case (Switch_Status key k)
  have "meets n w0 complete (after (reply_push n ''switchs'' v w) (reply_both n E_OK ''success''))" for v
    by (rule meets_after[OF reply_push_meets[OF w]]) (auto intro: meets_both)
  then have "meets n w0 (settled (app_responses w n)) (after (reply_push n ''switchs'' v w) (reply_both n E_OK ''success''))" for v
    by (rule meets_mono) (simp add: settled_def)
  then show ?thesis using f w Switch_Status by (auto simp: settled_def split: redis_reply.splits intro!: meets_Done)
qed (use f w in \<open>auto simp: settled_def intro!: meets_Done\<close>)

text \<open>The functions without a \<open>Control\<close> leave the replies and the queue as they are.\<close>

lemma run_closure_free:
  "closure_ctrl f = None \<Longrightarrow> run_closure ext f r w = Undefined \<or> (\<exists>c. run_closure ext f r w = Done (w\<lparr>app_rest := c\<rparr>))"
proof (cases f)
  case Ignored
  then show ?thesis by (intro disjI2 exI[of _ "app_rest w"]) simp
next
  case (Switch_Set n)
  then show ?thesis by (intro disjI2 exI[of _ "app_rest w"]) simp
next
  case (Gateway_Status conn pro t)
  then show ?thesis by (cases "ext_gateway ext conn pro t r (app_rest w)") auto
qed auto

subsection \<open>The routes\<close>

text \<open>The methods by the name of their service, with the base service for the names that are unknown.\<close>

definition route :: "'c ext \<Rightarrow> string \<Rightarrow> string \<Rightarrow> 'c meth" where
  "route ext service_name method_name =
     (if service_name = ''AccessService'' then
        (if method_name = ''Register'' then register ext
         else if method_name = ''LoginWithToken'' then login_with_token ext
         else if method_name = ''Login'' then login ext else default_method)
      else if service_name = ''Customer'' then
        (if method_name = ''UploadData'' then upload_data ext
         else if method_name = ''GetBaseInfo'' then get_base_info ext
         else if method_name = ''ApplyForLoan'' then apply_for_loan ext
         else if method_name = ''GetLocation'' then get_location
         else if method_name = ''SetSwitchInfo'' then set_switch_info ext
         else if method_name = ''GetSwitchInfo'' then get_switch_info ext else default_method)
      else if method_name = ''Health'' then health else default_method)"

lemmas method_table = find_add_method add_method_ok service_new_ok find_method_new sv_map_add

lemma sv_map_new: "sv_method_map service_new x = None"
  by (simp add: service_new_def)

lemma find_route:
  "find_method default_method method_name (find_service service_name (smart_services ext)) =
     Some (route ext service_name method_name)"
proof -
  have s: "find_service service_name (smart_services ext) =
    (if service_name = ''AccessService'' then access_init ext service_new
     else if service_name = ''Customer'' then customer_init ext service_new else base_init service_new)"
    by (simp add: smart_services_def add_service_def services_new_def find_service_def emplace_def Let_def)
  show ?thesis
    unfolding s
    by (simp add: access_init_def customer_init_def base_init_def method_table sv_map_new route_def)
qed

lemma route_behaved: "well_behaved (route ext service_name method_name)"
  by (simp add: route_def token_methods password_methods other_methods)

subsection \<open>One reply for each request\<close>

definition reply_ok :: "json \<Rightarrow> bool" where
  "reply_ok j \<longleftrightarrow> complete j \<or> j = J_Null \<or> j = health_reply"

text \<open>A request has been answered once, or a waiting function holds its \<open>Control\<close>.\<close>

definition app_inv :: "nat \<Rightarrow> 'c app \<Rightarrow> bool" where
  "app_inv k w \<longleftrightarrow> distinct (map fst (app_sent w)) \<and> fst ` set (app_sent w) \<inter> held w = {}
   \<and> fst ` set (app_sent w) \<union> held w = {..<k}
   \<and> (\<forall>n. reply_ok (app_responses w n)) \<and> (\<forall>p \<in> set (app_sent w). reply_ok (snd p))"

lemma reply_ok_open: "reply_ok j \<Longrightarrow> open_reply j"
  by (auto simp: reply_ok_def health_reply_def open_reply_def complete_def)

lemma grows_held:
  assumes "grows n w w'"
  shows "held w \<subseteq> held w'" "held w' \<subseteq> insert n (held w)" "app_sent w' = app_sent w"
  using assms by (auto simp: grows_def held_def) (metis Un_iff option.distinct(1) option.inject image_eqI)+

lemma held_iff: "(\<exists>f \<in> set (rp_callbacks (app_redis w)). closure_ctrl f = Some n) \<longleftrightarrow> n \<in> held w"
  by (force simp: held_def)

lemma release_cases: "release n w = (if n \<in> held w then w else w\<lparr>app_sent := app_sent w @ [(n, app_responses w n)]\<rparr>)"
  by (simp add: release_def held_iff)

lemma grows_replies:
  assumes "grows n w w'" "\<forall>m. reply_ok (app_responses w m)" "reply_ok (app_responses w' n)"
  shows "\<forall>m. reply_ok (app_responses w' m)"
proof
  fix m show "reply_ok (app_responses w' m)" using assms by (cases "m = n") (simp_all add: grows_def)
qed

text \<open>After the last reference to the \<open>Control\<close> of \<open>n\<close> has been looked at: \<open>w\<close> is the state without the
  function that held it, or before the request.\<close>

lemma release_inv:
  assumes g: "grows n w w'" and r: "reply_ok (app_responses w' n)"
    and sent: "distinct (map fst (app_sent w))" "n \<notin> fst ` set (app_sent w)" "fst ` set (app_sent w) \<inter> held w = {}"
      "insert n (fst ` set (app_sent w) \<union> held w) = {..<k}"
    and ok: "\<forall>m. reply_ok (app_responses w m)" "\<forall>p \<in> set (app_sent w). reply_ok (snd p)"
  shows "app_inv k (release n w')"
proof -
  note h = grows_held[OF g]
  note o1 = grows_replies[OF g ok(1) r]
  show ?thesis
  proof (cases "n \<in> held w'")
    case True
    then have "held w' = insert n (held w)" using h by auto
    then show ?thesis using True sent ok o1 h(3) by (auto simp: release_cases app_inv_def)
  next
    case False
    let ?w = "w'\<lparr>app_sent := app_sent w' @ [(n, app_responses w' n)]\<rparr>"
    have hw: "held ?w = held w" using False h by (auto simp: held_def)
    have "distinct (map fst (app_sent ?w))" using sent(1,2) h(3) by simp
    moreover have "fst ` set (app_sent ?w) \<inter> held ?w = {}" using sent(3) False h hw by auto
    moreover have "fst ` set (app_sent ?w) \<union> held ?w = {..<k}" using sent(4) hw h(3) by auto
    moreover have "\<forall>p \<in> set (app_sent ?w). reply_ok (snd p)" using ok(2) r h(3) by auto
    ultimately show ?thesis using False o1 by (simp add: release_cases app_inv_def)
  qed
qed

lemma serve_inv:
  assumes inv: "app_inv k w"
  shows "case serve ext (smart_services ext) k service_name method_name content w of
    Done w' \<Rightarrow> app_inv (Suc k) w' | Threw e w' \<Rightarrow> False | Undefined \<Rightarrow> True"
proof -
  let ?w1 = "set_reply k J_Null w"
  define f where "f = route ext service_name method_name"
  define r where "r = or_throw (ext_parse ext content) (\<lambda>request w. f request k w) ?w1"
  define r2 where "r2 = (case r of Threw what w \<Rightarrow> reply_both k PARAM_ERROR what w | _ \<Rightarrow> r)"
  have run: "serve ext (smart_services ext) k service_name method_name content w = after r2 (\<lambda>w. Done (release k w))"
    unfolding serve_def Let_def r2_def r_def f_def find_route option.case ..
  have g1: "grows k w ?w1" by (simp add: grows_set_reply)
  have "meets k w (\<lambda>j. complete j \<or> j = J_Null \<or> j = health_reply) r"
    unfolding r_def
    by (rule meets_or_throw[OF g1]) (use route_behaved[of ext] g1 in \<open>auto simp: well_behaved_def f_def\<close>)
  then have m: "meets k w reply_ok r" by (rule meets_mono) (simp add: reply_ok_def)
  have m2: "(\<exists>w'. r2 = Done w' \<and> grows k w w' \<and> reply_ok (app_responses w' k)) \<or> r2 = Undefined"
  proof (cases r)
    case (Threw what w')
    then have w': "grows k w w'" "open_reply (app_responses w' k)" using m by (simp_all add: meets_def)
    then obtain j where "reply_both k PARAM_ERROR what w' = Done (set_reply k j w')" "complete j"
      using reply_both_Done[OF w'(2)] by blast
    then show ?thesis using Threw w' grows_set_reply by (auto simp: r2_def reply_ok_def)
  qed (use m in \<open>auto simp: r2_def meets_def\<close>)
  have k: "k \<notin> fst ` set (app_sent w)" "insert k (fst ` set (app_sent w) \<union> held w) = {..<Suc k}"
    using inv by (auto simp: app_inv_def lessThan_Suc)
  have "app_inv (Suc k) (release k w')" if "grows k w w'" "reply_ok (app_responses w' k)" for w'
    by (rule release_inv[OF that]) (use inv k in \<open>auto simp: app_inv_def\<close>)
  then show ?thesis using run m2 by auto
qed

lemma answer_inv:
  assumes inv: "app_inv k w" and run: "redis_answer ext r w = Done w'"
  shows "app_inv k w'"
proof -
  obtain f fs reply where c: "rp_callbacks (app_redis w) = f # fs" "r = Some reply"
    using run by (auto simp: redis_answer_def redis_callback_def split: list.splits option.splits)
  let ?w = "w\<lparr>app_redis := (app_redis w)\<lparr>rp_callbacks := fs\<rparr>\<rparr>"
  have h: "held w = held ?w \<union> {n. closure_ctrl f = Some n}" by (auto simp: held_def c(1))
  have ans: "redis_answer ext r w = after (run_closure ext f reply ?w)
      (\<lambda>w. Done (case closure_ctrl f of None \<Rightarrow> w | Some n \<Rightarrow> release n w))"
    by (simp add: redis_answer_def redis_callback_def c)
  have ok: "\<forall>m. reply_ok (app_responses ?w m)" "\<forall>p \<in> set (app_sent ?w). reply_ok (snd p)"
    using inv by (simp_all add: app_inv_def)
  show ?thesis
  proof (cases "closure_ctrl f")
    case None
    then obtain x where "run_closure ext f reply ?w = Done (?w\<lparr>app_rest := x\<rparr>)"
      using run_closure_free[OF None, of ext reply ?w] run ans by auto
    then have "w' = ?w\<lparr>app_rest := x\<rparr>" using run ans None by simp
    moreover have "held (?w\<lparr>app_rest := x\<rparr>) = held w" using h None by (auto simp: held_def)
    ultimately show ?thesis using inv by (simp add: app_inv_def)
  next
    case (Some n)
    have "meets n ?w (settled (app_responses ?w n)) (run_closure ext f reply ?w)"
      by (rule run_closure_meets[OF _ _ Some]) (use ok reply_ok_open in auto)
    then obtain w1 where w1: "run_closure ext f reply ?w = Done w1" "grows n ?w w1" "settled (app_responses ?w n) (app_responses w1 n)"
      using run ans Some by (cases "run_closure ext f reply ?w") (auto simp: meets_def)
    then have "reply_ok (app_responses w1 n)" using ok(1) by (auto simp: settled_def reply_ok_def)
    moreover have "n \<notin> fst ` set (app_sent ?w)" "fst ` set (app_sent ?w) \<inter> held ?w = {}"
      "insert n (fst ` set (app_sent ?w) \<union> held ?w) = {..<k}" "distinct (map fst (app_sent ?w))"
      using inv h Some by (auto simp: app_inv_def)
    ultimately have "app_inv k (release n w1)" by (intro release_inv[OF w1(2)]) (use ok in auto)
    then show ?thesis using run ans w1(1) Some by simp
  qed
qed

lemma app_run_inv:
  "app_run ext es (k, w) = Some (k', w') \<Longrightarrow> app_inv k w \<Longrightarrow>
     app_inv k' w' \<and> k' = k + length (filter (\<lambda>e. \<exists>a b c. e = Request a b c) es)"
proof (induction ext es "(k, w)" arbitrary: k w rule: app_run.induct)
  case (2 ext service_name method_name content es n w)
  obtain w1 where w1: "serve ext (smart_services ext) n service_name method_name content w = Done w1"
    "app_run ext es (Suc n, w1) = Some (k', w')"
    using 2(2) by (auto split: result.splits)
  have "app_inv (Suc n) w1" using serve_inv[OF 2(3), of ext service_name method_name content] w1(1) by simp
  then show ?case using 2(1)[OF w1(1) w1(2)] by auto
next
  case (3 ext r es n w)
  obtain w1 where w1: "redis_answer ext (Some r) w = Done w1" "app_run ext es (n, w1) = Some (k', w')"
    using 3(2) by (auto split: result.splits)
  then show ?case using 3(1)[OF w1(1) w1(2) answer_inv[OF 3(3) w1(1)]] by auto
qed simp

definition app_new :: "'c \<Rightarrow> 'c app" where
  "app_new c = \<lparr>app_redis = redis_proxy_new, app_responses = (\<lambda>_. J_Null), app_sent = [], app_rest = c\<rparr>"

lemma app_new_inv: "app_inv 0 (app_new c)"
  by (simp add: app_inv_def app_new_def held_def redis_proxy_new_def reply_ok_def)

subsection \<open>Lines that hiredis takes as they are\<close>

definition plain :: "string \<Rightarrow> bool" where
  "plain s \<longleftrightarrow> CHR ''%'' \<notin> set s \<and> char_of (0 :: nat) \<notin> set s"

lemma plain_append [simp]: "plain (s @ t) \<longleftrightarrow> plain s \<and> plain t"
  by (auto simp: plain_def)

lemma plain_Cons: "plain (x # s) \<longleftrightarrow> x \<noteq> CHR ''%'' \<and> x \<noteq> char_of (0 :: nat) \<and> plain s"
  by (auto simp: plain_def)

lemma no_percent: "CHR ''%'' \<notin> set s \<Longrightarrow> \<not> has_directive s"
  by (induction s rule: has_directive.induct) auto

lemma plain_sendable: "plain s \<Longrightarrow> s \<noteq> [] \<Longrightarrow> sendable (Command_Line s)"
  using no_percent by (simp add: plain_def)

lemma plain_hex: "plain (concat (map md5_hex bs))"
proof -
  have all: "\<forall>c \<in> set HEX_NUMBERS. c \<noteq> CHR ''%'' \<and> c \<noteq> CHR 0x00" by code_simp
  have "length HEX_NUMBERS = 16" by (simp add: HEX_NUMBERS_def)
  then have d: "HEX_NUMBERS ! i \<noteq> CHR ''%''" "HEX_NUMBERS ! i \<noteq> CHR 0x00" if "i < 16" for i
    using all that by (metis nth_mem)+
  have "unat b div 16 < 16" for b :: byte using unsigned_less[of b, where 'a = nat] by simp
  then have "plain (md5_hex b)" for b by (auto simp: md5_hex_def plain_def nul_char d dest!: sym[of _ "_ ! _"])
  then show ?thesis by (induction bs) (auto simp: plain_def)
qed

lemma md5_string_rfc:
  assumes "length (fst memory) = 64" "length s < 4294967232"
  shows "md5_string memory s = Some (concat (map md5_hex (rfc_md5 (map of_char s))))"
proof -
  obtain md where md: "md5_new memory (map of_char s) = Some md" "md5_abs md (map of_char s)" "\<not> md5_finished md"
    using md5_new_abs[of memory "map of_char s"] assms by auto
  obtain md' where "md5_getDigest md = Some (md', rfc_md5 (map of_char s))" using md5_digest_abs[OF md(2,3)] by blast
  then show ?thesis using md(1) by (simp add: md5_string_def md5_toStr_def)
qed

subsection \<open>Logging in\<close>

text \<open>A client that is connected, to a hiredis that accepts and records every command.\<close>

definition app_online :: "'c \<Rightarrow> 'c app" where
  "app_online c = (app_new c)\<lparr>app_redis := redis_proxy_new\<lparr>rp_context := True, rp_connected := True\<rparr>\<rparr>"

definition log_hiredis :: "redis_command list hiredis" where
  "log_hiredis cmd cs = (True, cs @ [cmd])"

lemma online_send:
  assumes "rp_connected (app_redis w)" "rp_context (app_redis w)" "ext_hiredis ext = (\<lambda>cmd c. (True, rec cmd c))" "sendable cmd"
  shows "app_send ext cmd f w = Done (w\<lparr>app_redis := push_callback f (app_redis w), app_rest := rec cmd (app_rest w)\<rparr>)"
  using assms by (cases cmd) (auto simp: app_send_def local_redis_def send_argv_def send_line_def Let_def c_str_id)

lemma log_hiredis_records: "log_hiredis = (\<lambda>cmd c. (True, c @ [cmd]))"
  by (simp add: log_hiredis_def fun_eq_iff)

text \<open>The text the token of a user is the digest of.\<close>

definition token_text :: "string \<Rightarrow> string \<Rightarrow> string \<Rightarrow> string" where
  "token_text mobile password now = mobile @ private_key @ password @ now"

definition token_of :: "string \<Rightarrow> string \<Rightarrow> string \<Rightarrow> string" where
  "token_of mobile password now = concat (map md5_hex (rfc_md5 (map of_char (token_text mobile password now))))"

lemma online_token:
  assumes "rp_connected (app_redis w)" "rp_context (app_redis w)" "ext_hiredis ext = (\<lambda>cmd c. (True, rec cmd c))"
    "\<And>c. ext_now ext c = (now, c)" "length (fst (ext_md5_memory ext)) = 64" "length (token_text mobile password now) < 4294967232"
    "plain mobile"
  shows "generate_token ext mobile password f w = f (token_of mobile password now)
    (w\<lparr>app_redis := push_callback Ignored (app_redis w),
       app_rest := rec (Command_Line (''SETEX TOKEN_'' @ token_of mobile password now @ '' 3600 '' @ mobile)) (app_rest w)\<rparr>)"
proof -
  have "md5_string (ext_md5_memory ext) (mobile @ private_key @ password @ now) = Some (token_of mobile password now)"
    using md5_string_rfc[OF assms(5), of "token_text mobile password now"] assms(6) by (simp add: token_text_def token_of_def)
  moreover have "sendable (Command_Line (''SETEX TOKEN_'' @ token_of mobile password now @ '' 3600 '' @ mobile))"
    by (rule plain_sendable) (use assms(7) plain_hex in \<open>auto simp: plain_Cons token_of_def nul_char plain_def\<close>)
  ultimately show ?thesis
    using online_send[OF _ _ assms(3), of w] assms(1,2,4) by (simp add: generate_token_def)
qed

text \<open>The request has been taken: Redis has been asked for the password of the mobile number.\<close>

lemma serve_login:
  assumes ext: "ext_hiredis ext = (\<lambda>cmd c. (True, rec cmd c))" "ext_parse ext content = Inr request"
    and req: "j_find ''mobile'' request = Some (J_String mobile)" "j_find ''password'' request = Some (J_String password)"
    and m: "plain mobile"
  shows "serve ext (smart_services ext) 0 ''AccessService'' ''Login'' content (app_online cs) =
    Done ((app_online cs)\<lparr>app_redis := push_callback (Logged_In mobile password 0) (app_redis (app_online cs)),
      app_rest := rec (Command_Line (''HGET '' @ mobile @ '' password'')) (cs)\<rparr>)"
proof -
  have s: "sendable (Command_Line (''HGET '' @ mobile @ '' password''))"
    by (rule plain_sendable) (use m in \<open>auto simp: plain_Cons nul_char plain_def\<close>)
  have r: "route ext ''AccessService'' ''Login'' = login ext" by (simp add: route_def)
  let ?w = "set_reply 0 J_Null (app_online cs)"
  have on: "rp_connected (app_redis ?w)" "rp_context (app_redis ?w)" "app_rest ?w = cs"
    by (simp_all add: app_online_def app_new_def set_reply_def redis_proxy_new_def)
  have w: "?w = app_online cs" by (simp add: set_reply_def app_online_def app_new_def fun_eq_iff)
  have l: "login ext request 0 ?w = Done (?w\<lparr>app_redis := push_callback (Logged_In mobile password 0) (app_redis ?w),
      app_rest := rec (Command_Line (''HGET '' @ mobile @ '' password'')) (app_rest ?w)\<rparr>)"
    using on req online_send[OF on(1,2) ext(1) s]
    by (simp add: login_def with_param_def or_throw_def if_connected_def local_redis_def redis_connected_def Let_def)
  show ?thesis
    unfolding serve_def Let_def find_route option.case r
    using l on(3) by (simp add: ext(2) or_throw_def release_def push_callback_def w)
qed

definition verdict :: "redis_reply \<Rightarrow> string \<Rightarrow> bool" where
  "verdict r password \<longleftrightarrow> (\<exists>s. r = Reply_String s \<and> c_str s = password)"

text \<open>The answer to it.\<close>

lemma answer_login:
  assumes ext: "ext_hiredis ext = (\<lambda>cmd c. (True, rec cmd c))" "\<And>c. ext_now ext c = (now, c)" "length (fst (ext_md5_memory ext)) = 64"
    and m: "plain mobile" "length (token_text mobile password now) < 4294967232"
    and w: "rp_callbacks (app_redis w) = [Logged_In mobile password 0]" "rp_connected (app_redis w)" "rp_context (app_redis w)"
      "app_responses w 0 = J_Null" "app_sent w = []"
  shows "\<exists>w' reply. redis_answer ext (Some r) w = Done w' \<and> app_sent w' = [(0, reply)]
    \<and> (if verdict r password
       then j_fields reply = [''code'' \<mapsto> J_Int 200, ''message'' \<mapsto> J_String ''success'',
              ''token'' \<mapsto> J_String (token_of mobile password now)]
          \<and> app_rest w' = rec (Command_Line (''SETEX TOKEN_'' @ token_of mobile password now @ '' 3600 '' @ mobile)) (app_rest w)
       else j_fields reply = [''code'' \<mapsto> J_Int 402, ''message'' \<mapsto> J_String ''mobile number/password is wrong'']
          \<and> app_rest w' = app_rest w)"
proof -
  let ?w = "w\<lparr>app_redis := (app_redis w)\<lparr>rp_callbacks := []\<rparr>\<rparr>"
  have open0: "open_reply (app_responses ?w 0)" by (simp add: w(4))
  have ans: "redis_answer ext (Some r) w = after (run_closure ext (Logged_In mobile password 0) r ?w) (\<lambda>w. Done (release 0 w))"
    by (simp add: redis_answer_def redis_callback_def w(1))
  have null: "j_fields J_Null = Map.empty" by (simp add: j_fields_def)
  show ?thesis
  proof (cases "verdict r password")
    case True
    then obtain s where s: "r = Reply_String s" "password = c_str s" by (auto simp: verdict_def)
    obtain j where j: "reply_both 0 E_OK ''success'' ?w = Done (set_reply 0 j ?w)" "open_reply j"
      "j_fields j = [''code'' \<mapsto> J_Int 200, ''message'' \<mapsto> J_String ''success'']"
      using reply_both_Done[OF open0, of E_OK "''success''"] by (auto simp: w(4) null complete_def)
    let ?w1 = "(set_reply 0 j ?w)\<lparr>app_redis := push_callback Ignored (app_redis (set_reply 0 j ?w)),
       app_rest := rec (Command_Line (''SETEX TOKEN_'' @ token_of mobile password now @ '' 3600 '' @ mobile)) (app_rest (set_reply 0 j ?w))\<rparr>"
    have t: "generate_token ext mobile password (\<lambda>token. reply_put 0 ''token'' (J_String token)) (set_reply 0 j ?w)
        = reply_put 0 ''token'' (J_String (token_of mobile password now)) ?w1"
      by (rule online_token[OF _ _ ext m(2,1)]) (simp_all add: set_reply_def w)
    have "open_reply (app_responses ?w1 0)" using j(2) by (simp add: set_reply_def)
    from reply_put_Done[OF this, of "''token''" "J_String (token_of mobile password now)"]
    obtain j' where j': "reply_put 0 ''token'' (J_String (token_of mobile password now)) ?w1 = Done (set_reply 0 j' ?w1)"
      "j_fields j' = (j_fields j)(''token'' \<mapsto> J_String (token_of mobile password now))"
      by (auto simp: set_reply_def)
    have run: "run_closure ext (Logged_In mobile password 0) r ?w = Done (set_reply 0 j' ?w1)"
      using s j(1) t j'(1) by simp
    show ?thesis
      unfolding ans run using True j'(2) j(3)
      by (simp add: release_def set_reply_def push_callback_def w(5))
  next
    case False
    obtain j where j: "reply_both 0 LOGIN_ERR ''mobile number/password is wrong'' ?w = Done (set_reply 0 j ?w)"
      "j_fields j = [''code'' \<mapsto> J_Int 402, ''message'' \<mapsto> J_String ''mobile number/password is wrong'']"
      using reply_both_Done[OF open0, of LOGIN_ERR "''mobile number/password is wrong''"] by (auto simp: w(4) null)
    have run: "run_closure ext (Logged_In mobile password 0) r ?w = Done (set_reply 0 j ?w)"
      using False j(1) by (auto simp: verdict_def split: redis_reply.splits)
    show ?thesis
      unfolding ans run using False j(2) by (simp add: release_def set_reply_def w(5))
  qed
qed

subsection \<open>The data of a user\<close>

definition hash_reply :: "(string \<times> string) list \<Rightarrow> redis_reply" where
  "hash_reply kvs = Reply_Array (concat (map (\<lambda>(k, v). [Reply_String k, Reply_String v]) kvs))"

definition hash_ok :: "(string \<times> string) list \<Rightarrow> bool" where
  "hash_ok kvs \<longleftrightarrow> (\<forall>(k, v) \<in> set kvs. k \<noteq> [] \<and> c_str k = k \<and> c_str v = v)"

definition shown :: "(string \<times> string) list \<Rightarrow> string \<Rightarrow> string option" where
  "shown kvs = map_of (rev (filter (\<lambda>(k, v). k \<noteq> ''password'') kvs))"

lemma base_loop_pairs:
  assumes "hash_ok kvs" "open_reply (app_responses w n)"
  shows "\<exists>j. base_loop n [] (concat (map (\<lambda>(k, v). [Reply_String k, Reply_String v]) kvs)) w = Done (set_reply n j w)
    \<and> open_reply j \<and> j_fields j = j_fields (app_responses w n) ++ (map_option J_String \<circ> shown kvs)"
  using assms
proof (induction kvs arbitrary: w)
  case Nil
  have "set_reply n (app_responses w n) w = w" by (simp add: set_reply_def)
  then show ?case using Nil by (intro exI[of _ "app_responses w n"]) (simp add: shown_def fun_eq_iff map_add_def)
next
  case (Cons p kvs)
  obtain k v where p: "p = (k, v)" by (cases p)
  have kv: "k \<noteq> []" "c_str k = k" "c_str v = v" "hash_ok kvs" using Cons.prems(1) by (auto simp: hash_ok_def p)
  show ?case
  proof (cases "k = ''password''")
    case True
    then show ?thesis using Cons.IH[OF kv(4) Cons.prems(2)] kv by (simp add: p shown_def)
  next
    case False
    obtain j where j: "reply_put n k (J_String v) w = Done (set_reply n j w)" "open_reply j"
      "j_fields j = (j_fields (app_responses w n))(k \<mapsto> J_String v)"
      using reply_put_Done[OF Cons.prems(2)] by blast
    have "open_reply (app_responses (set_reply n j w) n)" using j(2) by simp
    note ih = Cons.IH[OF kv(4) this, unfolded set_reply_same set_reply_twice]
    obtain j' where j':
      "base_loop n [] (concat (map (\<lambda>(k, v). [Reply_String k, Reply_String v]) kvs)) (set_reply n j w) = Done (set_reply n j' w)"
      "open_reply j'" "j_fields j' = j_fields j ++ (map_option J_String \<circ> shown kvs)"
      using ih by blast
    have "j_fields j' x = (j_fields (app_responses w n) ++ (map_option J_String \<circ> shown (p # kvs))) x" for x
      using False by (auto simp: j'(3) j(3) shown_def p map_add_def split: option.splits)
    then have "j_fields j' = j_fields (app_responses w n) ++ (map_option J_String \<circ> shown (p # kvs))" by (rule ext)
    moreover have "base_loop n [] (concat (map (\<lambda>(k, v). [Reply_String k, Reply_String v]) (p # kvs))) w = Done (set_reply n j' w)"
      using False kv j(1) j'(1) by (simp add: p)
    ultimately show ?thesis using j'(2) by blast
  qed
qed

subsection \<open>Properties\<close>

text \<open>For the witnesses: a world that records the commands and parses every body as the same object.\<close>

definition demo_body :: json where
  "demo_body = J_Object [(''mobile'', J_String ''185''), (''name'', J_Int 7), (''password'', J_String ''pw''), (''token'', J_String ''t'')]"

definition demo_ext :: "redis_command list ext" where
  "demo_ext = \<lparr>ext_hiredis = log_hiredis, ext_connect = (\<lambda>c. ((Some (0, 7), True), c)), ext_now = (\<lambda>c. (''0'', c)),
     ext_md5_memory = (replicate 64 0, []), ext_gateway = (\<lambda>conn pro t r c. Some c), ext_parse = (\<lambda>s. Inr demo_body)\<rparr>"

definition demo_events :: "app_event list" where
  "demo_events = [Request ''AccessService'' ''LoginWithToken'' ''body'', Request ''x'' ''Health'' ''body'',
     Redis_Reply (Reply_String ''185''), Request ''Customer'' ''Nothing'' ''body'']"

lemma demo_send:
  "rp_connected (app_redis w) \<Longrightarrow> rp_context (app_redis w) \<Longrightarrow> sendable cmd \<Longrightarrow>
     app_send demo_ext cmd f w = Done (w\<lparr>app_redis := push_callback f (app_redis w), app_rest := app_rest w @ [cmd]\<rparr>)"
  by (rule online_send[where rec = "\<lambda>cmd c. c @ [cmd]"]) (simp_all add: demo_ext_def log_hiredis_records)

lemma demo_run: "\<exists>w. app_run demo_ext demo_events (0, app_online []) = Some (3, w) \<and> rp_callbacks (app_redis w) = []"
  by (simp add: demo_events_def serve_def find_route route_def Let_def demo_ext_def or_throw_def login_with_token_def with_token_def
      demo_body_def get_mobile_by_token_def app_send_def local_redis_def app_online_def app_new_def redis_proxy_new_def
      send_line_def c_str_def nul_char log_hiredis_def push_callback_def set_reply_def release_def health_def reply_put_def
      redis_answer_def redis_callback_def reply_both_def default_method_def)

lemma app_online_inv: "app_inv 0 (app_online c)"
  by (simp add: app_inv_def app_online_def app_new_def held_def redis_proxy_new_def reply_ok_def)





text \<open>Logging in, from the request to the reply. A login request for a mobile number makes the server ask
  Redis for the password of that number; when the answer is the password of the request, the reply has code
  200 and a token, the MD5 digest of the number, a secret, the password and the time, which is stored in
  Redis under that token with the number for an hour; with any other answer, an error or nothing included,
  the reply has code 402, no token, and nothing is stored.\<close>

theorem login_verdict:
  assumes "ext_hiredis ext = log_hiredis" and "\<And>c. ext_now ext c = (now, c)" and "length (fst (ext_md5_memory ext)) = 64"
    and "ext_parse ext content = Inr request" and "j_find ''mobile'' request = Some (J_String mobile)"
    and "j_find ''password'' request = Some (J_String password)"
    and "plain mobile" and "length (token_text mobile password now) < 4294967232"
  shows "\<exists>w reply. app_run ext [Request ''AccessService'' ''Login'' content, Redis_Reply r] (0, app_online []) = Some (1, w)
    \<and> app_sent w = [(0, reply)]
    \<and> (if verdict r password
       then j_fields reply = [''code'' \<mapsto> J_Int 200, ''message'' \<mapsto> J_String ''success'',
              ''token'' \<mapsto> J_String (token_of mobile password now)]
          \<and> app_rest w = [Command_Line (''HGET '' @ mobile @ '' password''),
              Command_Line (''SETEX TOKEN_'' @ token_of mobile password now @ '' 3600 '' @ mobile)]
       else j_fields reply = [''code'' \<mapsto> J_Int 402, ''message'' \<mapsto> J_String ''mobile number/password is wrong'']
          \<and> app_rest w = [Command_Line (''HGET '' @ mobile @ '' password'')])"
proof -
  note hi = assms(1)[unfolded log_hiredis_records]
  let ?w = "(app_online [] :: redis_command list app)\<lparr>app_redis := push_callback (Logged_In mobile password 0) (app_redis (app_online [] :: redis_command list app)),
      app_rest := [] @ [Command_Line (''HGET '' @ mobile @ '' password'')]\<rparr>"
  have s: "serve ext (smart_services ext) 0 ''AccessService'' ''Login'' content (app_online []) = Done ?w"
    by (rule serve_login[OF hi assms(4,5,6,7)])
  have w: "rp_callbacks (app_redis ?w) = [Logged_In mobile password 0]" "rp_connected (app_redis ?w)" "rp_context (app_redis ?w)"
    "app_responses ?w 0 = J_Null" "app_sent ?w = []"
    by (simp_all add: app_online_def app_new_def redis_proxy_new_def push_callback_def)
  have rest: "app_rest ?w = [Command_Line (''HGET '' @ mobile @ '' password'')]"
    "[Command_Line a] @ [x] = [Command_Line a, x]" for a x by simp_all
  from answer_login[OF hi assms(2,3,7,8) w, of r, unfolded rest] obtain w' reply where
    r: "redis_answer ext (Some r) ?w = Done w'" and reply: "app_sent w' = [(0, reply)]"
      "if verdict r password
       then j_fields reply = [''code'' \<mapsto> J_Int 200, ''message'' \<mapsto> J_String ''success'',
              ''token'' \<mapsto> J_String (token_of mobile password now)]
          \<and> app_rest w' = [Command_Line (''HGET '' @ mobile @ '' password''),
              Command_Line (''SETEX TOKEN_'' @ token_of mobile password now @ '' 3600 '' @ mobile)]
       else j_fields reply = [''code'' \<mapsto> J_Int 402, ''message'' \<mapsto> J_String ''mobile number/password is wrong'']
          \<and> app_rest w' = [Command_Line (''HGET '' @ mobile @ '' password'')]"
    by (elim exE conjE) (rule that)
  have "app_run ext [Request ''AccessService'' ''Login'' content, Redis_Reply r] (0, app_online []) = Some (1, w')"
    unfolding app_run.simps s result.case r by simp
  then show ?thesis by (intro exI[of _ w'] exI[of _ reply] conjI reply)
qed

theorem login_verdict_witness:
  "\<exists>w reply. app_run demo_ext [Request ''AccessService'' ''Login'' ''body'', Redis_Reply (Reply_String ''pw'')] (0, app_online []) = Some (1, w)
    \<and> app_sent w = [(0, reply)] \<and> j_fields reply ''code'' = Some (J_Int 200)"
proof -
  have d: "ext_hiredis demo_ext = log_hiredis" "\<And>c. ext_now demo_ext c = (''0'', c)" "length (fst (ext_md5_memory demo_ext)) = 64"
    "ext_parse demo_ext ''body'' = Inr demo_body"
    by (simp_all add: demo_ext_def)
  have j: "j_find ''mobile'' demo_body = Some (J_String ''185'')" "j_find ''password'' demo_body = Some (J_String ''pw'')"
    "plain ''185''" "length (token_text ''185'' ''pw'' ''0'') < 4294967232" "verdict (Reply_String ''pw'') ''pw''"
    by (simp_all add: demo_body_def plain_def nul_char token_text_def private_key_def verdict_def c_str_def)
  from login_verdict[OF d j(1-4), of "Reply_String ''pw''"] j(5) show ?thesis by auto
qed

text \<open>C26: the user data that \<open>GetBaseInfo\<close> sends are the fields of the hash in Redis, the later one of two
  equal names winning, without the password, and with the code and the message, which replace fields of
  these names.\<close>

theorem base_info_without_password:
  assumes "rp_callbacks (app_redis w) = [Base_Info n]" and "app_responses w n = J_Null" and "hash_ok kvs"
  shows "\<exists>w' reply. redis_answer ext (Some (hash_reply kvs)) w = Done w' \<and> app_sent w' = app_sent w @ [(n, reply)]
    \<and> j_fields reply = (map_option J_String \<circ> shown kvs)(''code'' \<mapsto> J_Int 200, ''message'' \<mapsto> J_String ''success'')
    \<and> j_fields reply ''password'' = None"
proof -
  let ?w = "w\<lparr>app_redis := (app_redis w)\<lparr>rp_callbacks := []\<rparr>\<rparr>"
  have o: "open_reply (app_responses ?w n)" by (simp add: assms(2))
  obtain j where j: "base_loop n [] (concat (map (\<lambda>(k, v). [Reply_String k, Reply_String v]) kvs)) ?w = Done (set_reply n j ?w)"
    "open_reply j" "j_fields j = j_fields (app_responses ?w n) ++ (map_option J_String \<circ> shown kvs)"
    using base_loop_pairs[OF assms(3) o] by blast
  then have jf: "j_fields j = map_option J_String \<circ> shown kvs" by (simp add: assms(2) j_fields_def)
  have "open_reply (app_responses (set_reply n j ?w) n)" using j(2) by simp
  from reply_both_Done[OF this, of E_OK "''success''"] obtain j' where j':
    "reply_both n E_OK ''success'' (set_reply n j ?w) = Done (set_reply n j' ?w)"
    "j_fields j' = (map_option J_String \<circ> shown kvs)(''code'' \<mapsto> J_Int 200, ''message'' \<mapsto> J_String ''success'')"
    by (auto simp: jf)
  have "redis_answer ext (Some (hash_reply kvs)) w = Done (release n (set_reply n j' ?w))"
    using j(1) j'(1) by (simp add: redis_answer_def redis_callback_def assms(1) hash_reply_def)
  moreover have "shown kvs ''password'' = None"
    by (auto simp: shown_def map_of_eq_None_iff)
  ultimately show ?thesis using j'(2) by (simp add: release_def set_reply_def)
qed

theorem base_info_without_password_witness:
  "\<exists>w' reply. redis_answer demo_ext (Some (hash_reply [(''password'', ''pw''), (''name'', ''x'')]))
      ((app_online [])\<lparr>app_redis := push_callback (Base_Info 0) (app_redis (app_online ([] :: redis_command list)))\<rparr>) = Done w'
    \<and> app_sent w' = [(0, reply)] \<and> j_fields reply ''password'' = None \<and> j_fields reply ''name'' = Some (J_String ''x'')"
proof -
  let ?w = "(app_online [] :: redis_command list app)\<lparr>app_redis := push_callback (Base_Info 0) (app_redis (app_online [] :: redis_command list app))\<rparr>"
  have w: "rp_callbacks (app_redis ?w) = [Base_Info 0]" "app_responses ?w 0 = J_Null" "app_sent ?w = []"
    by (simp_all add: app_online_def app_new_def redis_proxy_new_def push_callback_def)
  have h: "hash_ok [(''password'', ''pw''), (''name'', ''x'')]" by (simp add: hash_ok_def c_str_def nul_char)
  from base_info_without_password[OF w(1,2) h, of demo_ext] obtain w' reply where r:
    "redis_answer demo_ext (Some (hash_reply [(''password'', ''pw''), (''name'', ''x'')])) ?w = Done w'"
    "app_sent w' = app_sent ?w @ [(0, reply)]" "j_fields reply ''password'' = None"
    "j_fields reply = (map_option J_String \<circ> shown [(''password'', ''pw''), (''name'', ''x'')])
      (''code'' \<mapsto> J_Int 200, ''message'' \<mapsto> J_String ''success'')"
    by blast
  have "j_fields reply ''name'' = Some (J_String ''x'')" by (simp add: r(4) shown_def)
  then show ?thesis by (intro exI conjI) (rule r(1), rule r(2)[unfolded w(3) append_Nil], rule r(3))
qed



end
