(* ===== verification/Tcp_Connection.thy ===== *)
theory Tcp_Connection
  imports Business Http_Request
begin

section \<open>Connections and the end of a request\<close>

text \<open>
  The connections of the server (\<open>small/service_data.h\<close>) and what the destructor of a \<open>Control\<close>
  does with a reply (\<open>small/service.h\<close>): it puts the response into the output buffer of the connection
  on which the request came and writes to its socket once. The objects are shared, so there is a heap
  of connections, addressed by number; the map of the service leads from descriptors to numbers, and a
  request that has not been answered keeps its connection and its message.
\<close>

subsection \<open>State\<close>

datatype ssl_check = SSL_UNKNOWN | IS_SSL | NOT_SSL

record connection =
  cn_fd :: int
  cn_in :: buffer
  cn_out :: buffer
  cn_msg :: "http_message http_parser option"
  cn_ssl :: ssl_check
  cn_session :: bool

text \<open>
  \<open>net_watched\<close> is the map of the loop: the connections whose \<open>IO\<close> it has; \<open>net_listen\<close> says
  that it has the listening one. \<open>net_controls\<close> is what
  the \<open>Control\<close> of a request holds, \<open>net_wire\<close> what the socket of a connection has taken. The rest is
  the state of the TLS library, of hiredis and of the clock.
\<close>

record 'x net =
  net_conns :: "nat \<Rightarrow> connection"
  net_next :: nat
  net_map :: "int \<Rightarrow> nat option"
  net_watched :: "nat \<Rightarrow> bool"
  net_idle_fd :: int
  net_listen :: bool
  net_controls :: "nat \<Rightarrow> nat \<times> http_message http_parser"
  net_wire :: "nat \<Rightarrow> bytes"
  net_writes :: nat
  net_rest :: 'x

text \<open>
  The functions outside: \<open>malloc\<close>, the \<open>writev\<close> of each write of the server, by its number, the TLS
  library, \<open>dump\<close> of the JSON library, and the content of the local \<open>http_parser_url\<close> before it is set.
\<close>

record 'x tcp_sys =
  sys_malloc :: allocator
  sys_writev :: "nat \<Rightarrow> writev_fn"
  sys_SSL_read :: "'x ssl_read_fn"
  sys_SSL_write :: "'x ssl_write_fn"
  sys_SSL_error :: "'x ssl_error_fn"
  sys_dump :: "json \<Rightarrow> string"
  sys_junk :: url

definition upd_conn :: "nat \<Rightarrow> (connection \<Rightarrow> connection) \<Rightarrow> 'x net \<Rightarrow> 'x net" where
  "upd_conn c f net = net\<lparr>net_conns := (net_conns net)(c := f (net_conns net c))\<rparr>"

subsection \<open>Writing\<close>

text \<open>\<open>cut_into_fd (fd, 0)\<close>: one \<open>writev\<close> of all of the output buffer; its result is not looked at.\<close>

definition conn_write :: "'x tcp_sys \<Rightarrow> nat \<Rightarrow> 'x net \<Rightarrow> 'x net option" where
  "conn_write sys c net =
     (let b = cn_out (net_conns net c) in do {
        ds \<leftarrow> gather (buf_ring b) (used_iov b (cut_amount b 0));
        (b1, ret) \<leftarrow> cut_into_fd (sys_writev sys (net_writes net)) b 0;
        Some (upd_conn c (cn_out_update (\<lambda>_. b1))
          (net\<lparr>net_wire := (net_wire net)(c := net_wire net c @ take (nat ret) (concat ds)),
               net_writes := net_writes net + 1\<rparr>)) })"

text \<open>\<open>cut_into_ssl (session, 0)\<close>; a null session is dereferenced.\<close>

definition conn_write_ssl :: "'x tcp_sys \<Rightarrow> nat \<Rightarrow> 'x net \<Rightarrow> 'x net option" where
  "conn_write_ssl sys c net =
     (if \<not> cn_session (net_conns net c) then None
      else do {
        (b1, x, ret) \<leftarrow> cut_into_ssl (sys_SSL_write sys) (net_rest net) (cn_out (net_conns net c)) 0;
        Some (upd_conn c (cn_out_update (\<lambda>_. b1)) (net\<lparr>net_rest := x\<rparr>)) })"

text \<open>\<open>Control::~Control\<close>. The status is always \<open>OK\<close>: nothing calls \<open>set_http_status\<close>.\<close>

definition control_destroy :: "'x tcp_sys \<Rightarrow> nat \<times> json \<Rightarrow> 'x net \<Rightarrow> 'x net option" where
  "control_destroy sys reply net =
     (case net_controls net (fst reply) of (c, m) \<Rightarrow> do {
        (b, _) \<leftarrow> set_response m (cn_out (net_conns net c)) S_OK (sys_dump sys (snd reply));
        let net1 = upd_conn c (cn_out_update (\<lambda>_. b)) net;
        if cn_ssl (net_conns net c) = IS_SSL then conn_write_ssl sys c net1 else conn_write sys c net1 })"

fun destroy_all :: "'x tcp_sys \<Rightarrow> (nat \<times> json) list \<Rightarrow> 'x net \<Rightarrow> 'x net option" where
  "destroy_all sys [] net = Some net"
| "destroy_all sys (r # rs) net = do { net1 \<leftarrow> control_destroy sys r net; destroy_all sys rs net1 }"

text \<open>After an event of the application the controls released by it are destroyed.\<close>

definition settle :: "'x tcp_sys \<Rightarrow> 'x net app \<Rightarrow> 'x net app result \<Rightarrow> 'x net app result" where
  "settle sys w0 r = after r (\<lambda>w.
     case destroy_all sys (drop (length (app_sent w0)) (app_sent w)) (app_rest w) of
       None \<Rightarrow> Undefined
     | Some net \<Rightarrow> Done (w\<lparr>app_rest := net\<rparr>))"

subsection \<open>What a write does\<close>

text \<open>The length of a string is a \<open>size_t\<close>; a string in memory is shorter than that.\<close>

definition sized :: "string \<Rightarrow> string" where
  "sized s = take (unat (word_of_nat (length s) :: size_t)) s"

lemma sized_id: "length s < 2 ^ 64 \<Longrightarrow> sized s = s"
  by (simp add: sized_def unat_word_of_nat_small)

lemma append_strings_correct:
  assumes "buf_ok k b"
  shows "\<exists>b'. append_strings ss b = Some b' \<and> buf_ok k b'
    \<and> contents b' = contents b @ take (2 ^ k - 1 - length (contents b)) (concat (map sized ss))"
  using assms
proof (induction ss arbitrary: b)
  case Nil
  then show ?case by simp
next
  case (Cons s ss)
  define l where "l = unat (word_of_nat (length s) :: size_t)"
  define room where "room = 2 ^ k - 1 - length (contents b)"
  have l: "l \<le> length s" by (simp add: l_def unsigned_of_nat take_bit_nat_less_eq_self)
  obtain b1 where b1: "append_string b s = Some (b1, word_of_nat (min l room))" "buf_ok k b1" "contents b1 = contents b @ take (min l room) s"
    using append_bytes_correct[OF Cons.prems, of "word_of_nat (length s)" s] l
    by (auto simp: append_string_def l_def room_def)
  obtain b2 where b2: "append_strings ss b1 = Some b2" "buf_ok k b2"
    "contents b2 = contents b1 @ take (2 ^ k - 1 - length (contents b1)) (concat (map sized ss))"
    using Cons.IH[OF b1(2)] by auto
  have "2 ^ k - 1 - length (contents b1) = room - min l room" using l by (simp add: b1(3) room_def)
  then have "contents b2 = contents b @ take room (concat (map sized (s # ss)))"
    using l by (cases "l \<le> room") (simp_all add: b2(3) b1(3) sized_def l_def[symmetric])
  then show ?case using b1(1) b2(1,2) unfolding room_def by simp
qed

text \<open>The text of a response.\<close>

definition response_text :: "'x tcp_sys \<Rightarrow> http_message http_parser \<Rightarrow> json \<Rightarrow> string" where
  "response_text sys m j = concat (map sized (response_parts m S_OK (sys_dump sys j)))"

lemma conn_write_correct:
  assumes ok: "buf_ok k (cn_out (net_conns net c))" and wv: "writev_ok (sys_writev sys (net_writes net))"
  shows "\<exists>b n. conn_write sys c net = Some (upd_conn c (cn_out_update (\<lambda>_. b))
      (net\<lparr>net_wire := (net_wire net)(c := net_wire net c @ take n (contents (cn_out (net_conns net c)))),
           net_writes := net_writes net + 1\<rparr>))
    \<and> buf_ok k b \<and> contents b = drop n (contents (cn_out (net_conns net c)))
    \<and> (\<exists>ds. concat ds = contents (cn_out (net_conns net c)) \<and> n = nat (sys_writev sys (net_writes net) ds))"
proof -
  let ?b = "cn_out (net_conns net c)"
  have amount: "unat (cut_amount ?b 0) = length (contents ?b)" by (simp add: unat_cut_amount[OF ok])
  obtain ds where ds: "gather (buf_ring ?b) (used_iov ?b (cut_amount ?b 0)) = Some ds" "concat ds = contents ?b"
    using gather_used[OF ok, of "cut_amount ?b 0"] amount by auto
  obtain b' ds' where b': "cut_into_fd (sys_writev sys (net_writes net)) ?b 0 = Some (b', sys_writev sys (net_writes net) ds')"
    "buf_ok k b'" "contents b' = drop (nat (sys_writev sys (net_writes net) ds')) (contents ?b)" "concat ds' = contents ?b"
    using cut_into_fd_correct[OF ok wv, of 0] by (auto simp: amount)
  show ?thesis
    using ds b' by (intro exI[of _ b'] exI[of _ "nat (sys_writev sys (net_writes net) ds')"]) (auto simp: conn_write_def Let_def)
qed

subsection \<open>An example\<close>

text \<open>For the witnesses: a socket that takes everything, and one connection with new buffers.\<close>

definition demo_sys :: "redis_command list tcp_sys" where
  "demo_sys = \<lparr>sys_malloc = zero_malloc, sys_writev = (\<lambda>n ds. int (length (concat ds))), sys_SSL_read = (\<lambda>x n. (0, [], x)),
     sys_SSL_write = (\<lambda>x d n. (n, x)), sys_SSL_error = (\<lambda>x ret. 0), sys_dump = (\<lambda>j. type_name j), sys_junk = http_parser_url_init\<rparr>"

definition demo_conn :: connection where
  "demo_conn = \<lparr>cn_fd = 7, cn_in = buffer_default zero_malloc, cn_out = buffer_default zero_malloc, cn_msg = None,
     cn_ssl = SSL_UNKNOWN, cn_session = False\<rparr>"

definition demo_net :: "redis_command list net" where
  "demo_net = \<lparr>net_conns = (\<lambda>_. demo_conn), net_next = 1, net_map = [7 \<mapsto> 0], net_watched = (\<lambda>c. c = 0), net_idle_fd = 3, net_listen = True,
     net_controls = (\<lambda>_. (0, http_message_new)), net_wire = (\<lambda>_. []), net_writes = 0, net_rest = []\<rparr>"

lemma demo_buffer: "buf_ok 13 (buffer_default zero_malloc)" "contents (buffer_default zero_malloc) = []"
  using buffer_default_correct[of zero_malloc] by (simp_all add: zero_malloc_def sized_block_def DEFAULT_INITIAL_SIZE_def)

lemma demo_writev: "writev_ok (sys_writev demo_sys n)" "sys_writev demo_sys n ds = int (length (concat ds))"
  by (simp_all add: demo_sys_def writev_ok_def)

lemma demo_malloc: "malloc_ok (sys_malloc demo_sys)"
  using zero_malloc_ok by (simp add: demo_sys_def)

end
