(* ===== verification/Smart_Gateway.thy ===== *)
theory Smart_Gateway
  imports Tcp_Connection
begin

section \<open>The smart gateway\<close>

text \<open>
  \<open>business/smart_service.cpp\<close>: a frame of a smart gateway carries the state of its switches. Each state
  is stored in Redis by a script, which returns what a user has asked for when it differs; the gateway is
  then told. A frame has a head of 23 bytes, whose fourth byte is the length of all of it, the states, each
  a type, a length and a value of one byte, and two bytes at the end.
\<close>

subsection \<open>Frames\<close>

definition frame_head :: nat where
  "frame_head = 23"

record tlv =
  tlv_type :: nat
  tlv_length :: nat
  tlv_value :: nat

text \<open>The loop over the data: it reads three bytes whenever there is one.\<close>

fun tlvs :: "bytes \<Rightarrow> tlv list option" where
  "tlvs [] = Some []"
| "tlvs (t # l # v # d) = map_option (Cons \<lparr>tlv_type = code t, tlv_length = code l, tlv_value = code v\<rparr>) (tlvs d)"
| "tlvs _ = None"

text \<open>
  From the bytes to the head and the states. A failing read stores through a null pointer; the copies read
  from the start of the content, whatever its length is; \<open>new\<close> throws for a length that exceeds every
  object.
\<close>

definition gateway_frame :: "allocator \<Rightarrow> readv_fn \<Rightarrow> buffer \<Rightarrow> (buffer \<times> (bytes \<times> tlv list) option) option" where
  "gateway_frame malloc readv b = do {
     (b1, ret, err) \<leftarrow> append_from_fd False readv b;
     (b2, p, off, len) \<leftarrow> buffer_str malloc b1;
     pro \<leftarrow> block_read p (unat off) frame_head;
     let data_length = (word_of_nat (code (pro ! 3)) :: size_t) - word_of_nat frame_head - 2;
     if data_length > 9223372036854775807 then Some (b2, None)
     else do {
       let (b3, n) = buffer_cut b2 (word_of_nat frame_head);
       (b4, p4, off4, len4) \<leftarrow> buffer_str malloc b3;
       data \<leftarrow> block_read p4 (unat off4) (unat data_length);
       vs \<leftarrow> tlvs data;
       Some (buffer_clear b4, Some (pro, vs)) } }"

subsection \<open>Commands\<close>

definition lua_script :: string where
  "lua_script =
     ''local ret = redis.call('HGET', KEYS[1], 'request_status')'' @ [LF] @
     ''redis.call('HSET', KEYS[1], 'status', KEYS[2])'' @ [LF] @
     ''if ret and ret ~= KEYS[2] then'' @ [LF] @
     ''return ret'' @ [LF] @
     ''else'' @ [LF] @
     ''return '' @ [CHR 0x27, CHR 0x27] @ [LF] @
     ''end''"

text \<open>The names and values fit into the arrays of \<open>snprintf\<close>: a number below 256 has three digits.\<close>

definition gateway_command :: "tlv \<Rightarrow> redis_command" where
  "gateway_command v = Command_Argv [''EVAL'', lua_script, ''2'', ''18502560763_switch_'' @ dec (tlv_type v), dec (tlv_value v)]"

fun gateway_loop :: "'c ext \<Rightarrow> nat \<Rightarrow> bytes \<Rightarrow> tlv list \<Rightarrow> 'c app \<Rightarrow> 'c app result" where
  "gateway_loop ext c pro [] w = Done w"
| "gateway_loop ext c pro (v # vs) w =
     (let w1 = local_redis ext w in
      if redis_connected w1
      then after (app_send ext (gateway_command v) (Gateway_Status c pro (tlv_type v)) w1) (gateway_loop ext c pro vs)
      else gateway_loop ext c pro vs w1)"

definition set_in :: "nat \<Rightarrow> buffer \<Rightarrow> 'x net app \<Rightarrow> 'x net app" where
  "set_in c b w = w\<lparr>app_rest := upd_conn c (cn_in_update (\<lambda>_. b)) (app_rest w)\<rparr>"

text \<open>\<open>SmartService::parse\<close>.\<close>

definition gateway_parse :: "'x tcp_sys \<Rightarrow> 'x net ext \<Rightarrow> readv_fn \<Rightarrow> nat \<Rightarrow> 'x net app \<Rightarrow> 'x net app result" where
  "gateway_parse sys ext readv c w =
     (case gateway_frame (sys_malloc sys) readv (cn_in (net_conns (app_rest w) c)) of
        None \<Rightarrow> Undefined
      | Some (b, None) \<Rightarrow> Threw ''std::bad_alloc'' (set_in c b w)
      | Some (b, Some (pro, vs)) \<Rightarrow> gateway_loop ext c pro vs (set_in c b w))"

subsection \<open>The answer to the gateway\<close>

definition gateway_reply :: "'x tcp_sys \<Rightarrow> nat \<Rightarrow> bytes \<Rightarrow> nat \<Rightarrow> redis_reply \<Rightarrow> 'x net \<Rightarrow> 'x net option" where
  "gateway_reply sys c pro t r net =
     (case r of
        Reply_String s \<Rightarrow>
          (let str = c_str s in
           if str = [] then Some net
           else do {
             (b1, n1) \<leftarrow> append_bytes (cn_out (net_conns net c)) (pro[3 := byte_of_nat 28]) (word_of_nat frame_head);
             b2 \<leftarrow> append_strings [[byte_of_nat t], [byte_of_nat 1],
                     [if hd str = CHR ''0'' then byte_of_nat 0 else byte_of_nat 1], [byte_of_nat 22]] b1;
             conn_write sys c (upd_conn c (cn_out_update (\<lambda>_. b2)) net) })
      | _ \<Rightarrow> Some net)"

subsection \<open>What a frame does\<close>

lemma bytes_read_prefix: "bytes_read m off n = Some d \<Longrightarrow> i \<le> n \<Longrightarrow> bytes_read m off i = Some (take i d)"
  by (auto simp: bytes_read_def min_absorb1 split: if_splits)

lemma block_read_prefix: "block_read p off n = Some d \<Longrightarrow> i \<le> n \<Longrightarrow> block_read p off i = Some (take i d)"
  by (auto simp: block_read_def bytes_read_prefix split: mem_block.splits if_splits)

lemma buffer_str_front:
  assumes "buf_ok k b" "malloc_ok malloc"
  shows "\<exists>b' p off len. buffer_str malloc b = Some (b', p, off, len) \<and> buf_ok k b' \<and> contents b' = contents b
    \<and> (\<forall>i \<le> length (contents b). block_read p (unat off) i = Some (take i (contents b)))"
proof -
  obtain b' where b': "buffer_str_bytes malloc b = Some (b', contents b)" "buf_ok k b'" "contents b' = contents b"
    using buffer_str_correct[where malloc = malloc, OF assms(1) malloc_okD[OF assms(2,1)]] by blast
  then obtain p off len where s: "buffer_str malloc b = Some (b', p, off, len)" "block_read p (unat off) (unat len) = Some (contents b)"
    unfolding buffer_str_bytes_def by (auto split: Option.bind_splits)
  have "length (contents b) = unat len" using block_read_length[OF s(2)] .
  then show ?thesis using s b' block_read_prefix[OF s(2)]
    by (intro exI[of _ b'] exI[of _ p] exI[of _ off] exI[of _ len]) auto
qed

lemma tlvs_length: "(tlvs d = None) = (length d mod 3 \<noteq> 0)"
  by (induction d rule: tlvs.induct) (auto simp: mod_Suc)

text \<open>The data of a frame, by the length the head states.\<close>

lemma data_length_word:
  assumes "n < 256"
  shows "25 \<le> n \<Longrightarrow> unat ((word_of_nat n :: size_t) - word_of_nat 23 - 2) = n - 25"
    and "n < 25 \<Longrightarrow> (word_of_nat n :: size_t) - word_of_nat 23 - 2 > 9223372036854775807"
proof -
  let ?w = "(word_of_nat n :: size_t) - word_of_nat 23 - 2"
  have e: "?w = word_of_int (int n - 25)" by simp
  have u: "uint ?w = (int n - 25) mod 18446744073709551616" unfolding e uint_word_of_int by simp
  show "unat ?w = n - 25" if "25 \<le> n"
    using u that assms by (simp add: unat_eq_nat_uint nat_diff_distrib)
  assume "n < 25"
  then have "(int n - 25) mod 18446744073709551616 = int n - 25 + 18446744073709551616"
    by (subst mod_add_self2[symmetric]) simp
  then show "?w > 9223372036854775807" using u by (simp add: word_less_alt)
qed

lemma append_from_fd_no_error:
  assumes "buf_ok k b" "readv_ok readv" "writable_bytes b \<noteq> 0" "rv_ret (readv (map snd (free_iov b))) > 0"
  shows "\<exists>b'. append_from_fd False readv b = Some (b', rv_ret (readv (map snd (free_iov b))), None)
    \<and> buf_ok k b' \<and> contents b' = contents b @ rv_data (readv (map snd (free_iov b)))"
proof -
  have "append_from_fd False readv b = append_from_fd True readv b"
    using assms(3,4) by (simp add: append_from_fd_def Let_def)
  then show ?thesis using append_from_fd_correct[OF assms(1-3)] assms(4) by simp
qed

lemma gateway_frame_read:
  assumes read: "append_from_fd False readv b = Some (b1, ret, err)" and ok: "buf_ok k b1" and ma: "malloc_ok malloc"
    and c: "contents b1 = pro @ d @ rest" "length pro = 23" "code (pro ! 3) = 25 + length d"
  shows "\<exists>b4. gateway_frame malloc readv b = map_option (\<lambda>vs. (b4, Some (pro, vs))) (tlvs d) \<and> buf_ok k b4 \<and> contents b4 = []"
proof -
  obtain b2 p off len where s2: "buffer_str malloc b1 = Some (b2, p, off, len)" "buf_ok k b2" "contents b2 = contents b1"
    "block_read p (unat off) 23 = Some pro"
    using buffer_str_front[OF ok ma] by (auto simp: c)
  have len: "unat ((word_of_nat (code (pro ! 3)) :: size_t) - word_of_nat 23 - 2) = length d"
    using data_length_word(1)[of "code (pro ! 3)"] code_less[of "pro ! 3"] c(3) by simp
  have small: "\<not> (word_of_nat (code (pro ! 3)) :: size_t) - word_of_nat 23 - 2 > 9223372036854775807"
    using len code_less[of "pro ! 3"] c(3) unfolding word_less_nat_alt by simp
  obtain b3 n where b3: "buffer_cut b2 (word_of_nat 23) = (b3, n)" by (cases "buffer_cut b2 (word_of_nat 23)")
  have ok3: "buf_ok k b3" "contents b3 = d @ rest"
    using buffer_cut_correct(1,2)[OF s2(2), of "word_of_nat 23"] s2(3) c(1,2) b3 by simp_all
  obtain b4 p4 off4 len4 where s4: "buffer_str malloc b3 = Some (b4, p4, off4, len4)" "buf_ok k b4"
    "block_read p4 (unat off4) (length d) = Some d"
    using buffer_str_front[OF ok3(1) ma] by (auto simp: ok3(2))
  have "gateway_frame malloc readv b = map_option (\<lambda>vs. (buffer_clear b4, Some (pro, vs))) (tlvs d)"
    unfolding gateway_frame_def frame_head_def using read s2(1,4) small b3 s4(1,3)
    by (cases "tlvs d") (simp_all add: len[simplified] Let_def)
  then show ?thesis using buffer_clear_correct[OF s4(2)] by blast
qed

lemma gateway_frame_short:
  assumes read: "append_from_fd False readv b = Some (b1, ret, err)" and ok: "buf_ok k b1" and ma: "malloc_ok malloc"
    and c: "23 \<le> length (contents b1)" "code (contents b1 ! 3) < 25"
  shows "\<exists>b2. gateway_frame malloc readv b = Some (b2, None)"
proof -
  obtain b2 p off len where s2: "buffer_str malloc b1 = Some (b2, p, off, len)"
    "block_read p (unat off) 23 = Some (take 23 (contents b1))"
    using buffer_str_front[OF ok ma] c(1) by blast
  have "(word_of_nat (code (take 23 (contents b1) ! 3)) :: size_t) - word_of_nat 23 - 2 > 9223372036854775807"
    using data_length_word(2)[of "code (contents b1 ! 3)"] code_less c(2) by simp
  then show ?thesis
    unfolding gateway_frame_def frame_head_def using read s2 by (simp add: Let_def)
qed

text \<open>A hiredis that accepts every command and records it.\<close>

definition net_hiredis :: "redis_command list net hiredis" where
  "net_hiredis cmd net = (True, net\<lparr>net_rest := net_rest net @ [cmd]\<rparr>)"

lemma gateway_loop_online:
  assumes "rp_connected (app_redis w)" "rp_context (app_redis w)" "ext_hiredis ext = net_hiredis"
  shows "gateway_loop ext c pro vs w = Done (w\<lparr>
      app_redis := (app_redis w)\<lparr>rp_callbacks := rp_callbacks (app_redis w) @ map (\<lambda>v. Gateway_Status c pro (tlv_type v)) vs\<rparr>,
      app_rest := (app_rest w)\<lparr>net_rest := net_rest (app_rest w) @ map gateway_command vs\<rparr>\<rparr>)"
  using assms
proof (induction vs arbitrary: w)
  case (Cons v vs)
  have "app_send ext (gateway_command v) (Gateway_Status c pro (tlv_type v)) w = Done (w\<lparr>
      app_redis := push_callback (Gateway_Status c pro (tlv_type v)) (app_redis w),
      app_rest := (app_rest w)\<lparr>net_rest := net_rest (app_rest w) @ [gateway_command v]\<rparr>\<rparr>)"
    using Cons.prems by (simp add: app_send_def local_redis_def gateway_command_def send_argv_def net_hiredis_def Let_def)
  then show ?case
    using Cons.prems Cons.IH by (simp add: local_redis_def redis_connected_def Let_def push_callback_def)
qed simp

text \<open>The answer that goes to the gateway.\<close>

definition status_frame :: "bytes \<Rightarrow> nat \<Rightarrow> string \<Rightarrow> bytes" where
  "status_frame pro t s =
     pro[3 := byte_of_nat 28] @ [byte_of_nat t, byte_of_nat 1, if hd s = CHR ''0'' then byte_of_nat 0 else byte_of_nat 1, byte_of_nat 22]"

lemma gateway_reply_online:
  assumes ok: "buf_ok k (cn_out (net_conns net c))" "contents (cn_out (net_conns net c)) = []" "5 \<le> k"
    and wv: "writev_ok (sys_writev sys (net_writes net))" "\<And>ds. sys_writev sys (net_writes net) ds = int (length (concat ds))"
    and pro: "length pro = 23" and s: "c_str s \<noteq> []"
  shows "\<exists>net'. gateway_reply sys c pro t (Reply_String s) net = Some net'
    \<and> net_wire net' = (net_wire net)(c := net_wire net c @ status_frame pro t (c_str s))
    \<and> contents (cn_out (net_conns net' c)) = []"
proof -
  let ?o = "cn_out (net_conns net c)" and ?pro = "pro[3 := byte_of_nat 28]"
  let ?tail = "[[byte_of_nat t], [byte_of_nat 1], [if hd (c_str s) = CHR ''0'' then byte_of_nat 0 else byte_of_nat 1], [byte_of_nat 22]]"
  have room: "(32 :: nat) \<le> 2 ^ k" using power_increasing[OF ok(3), of "2 :: nat"] by simp
  obtain b1 where b1: "append_bytes ?o ?pro (word_of_nat 23) = Some (b1, word_of_nat 23)" "buf_ok k b1" "contents b1 = ?pro"
    using append_bytes_correct[OF ok(1), of "word_of_nat 23" ?pro] room by (auto simp: ok(2) pro)
  obtain b2 where b2: "append_strings ?tail b1 = Some b2" "buf_ok k b2"
    "contents b2 = ?pro @ take (2 ^ k - 1 - 23) (concat ?tail)"
    using append_strings_correct[OF b1(2), of ?tail] by (auto simp: b1(3) pro sized_id)
  have tail: "take (2 ^ k - 1 - 23) (concat ?tail) = concat ?tail" using room by simp
  have c2: "contents b2 = status_frame pro t (c_str s)" unfolding b2(3) tail by (simp add: status_frame_def)
  define net1 where "net1 = upd_conn c (cn_out_update (\<lambda>_. b2)) net"
  have o1: "cn_out (net_conns net1 c) = b2" "net_writes net1 = net_writes net" "net_wire net1 = net_wire net"
    by (simp_all add: net1_def upd_conn_def)
  have "buf_ok k (cn_out (net_conns net1 c))" "writev_ok (sys_writev sys (net_writes net1))"
    using b2(2) wv(1) by (simp_all add: o1)
  from conn_write_correct[OF this] obtain b n where b: "conn_write sys c net1 = Some (upd_conn c (cn_out_update (\<lambda>_. b))
      (net1\<lparr>net_wire := (net_wire net1)(c := net_wire net1 c @ take n (contents b2)), net_writes := net_writes net1 + 1\<rparr>))"
    "contents b = drop n (contents b2)" "n = length (contents b2)"
    unfolding o1 using wv(2) by auto
  have "gateway_reply sys c pro t (Reply_String s) net = conn_write sys c net1"
    using b1(1) b2(1) s by (simp add: gateway_reply_def frame_head_def net1_def Let_def del: append_strings.simps)
  then show ?thesis using b by (simp add: o1 c2 upd_conn_def)
qed

subsection \<open>Properties\<close>

lemma readv_of_all:
  assumes "buf_ok k b" "length d \<le> unat (writable_bytes b)"
  shows "rv_data (readv_of d (map snd (free_iov b))) = d" "rv_ret (readv_of d (map snd (free_iov b))) = int (length d)"
  using assms(2) sum_free_iov[OF assms(1)] by (simp_all add: readv_of_def Let_def)

text \<open>C19: The states of a gateway's switches, from its frame to the answer. A well-formed frame that is read in
  one piece makes the server send Redis one \<open>EVAL\<close> for each switch, in the order of the frame, with the
  name and the value of that switch; when Redis answers the first with the status a user has asked for,
  the gateway that sent the frame gets a frame for that switch with this status, and nothing else.\<close>

theorem gateway_switches:
  assumes "buf_ok k (cn_in (net_conns (app_rest w) c))" "contents (cn_in (net_conns (app_rest w) c)) = []" "malloc_ok (sys_malloc sys)"
    and "length pro = 23" "code (pro ! 3) = 25 + length d" "tlvs d = Some vs" "length (pro @ d @ tail) < 2 ^ k"
    and "rp_connected (app_redis w)" "rp_context (app_redis w)" "rp_callbacks (app_redis w) = []"
    and "ext_hiredis ext = net_hiredis" "ext_gateway ext = gateway_reply sys"
    and "buf_ok k' (cn_out (net_conns (app_rest w) c))" "contents (cn_out (net_conns (app_rest w) c)) = []" "5 \<le> k'"
    and "\<And>n. writev_ok (sys_writev sys n)" "\<And>n ds. sys_writev sys n ds = int (length (concat ds))"
  shows "\<exists>w'. gateway_parse sys ext (readv_of (pro @ d @ tail)) c w = Done w'
    \<and> net_rest (app_rest w') = net_rest (app_rest w) @ map gateway_command vs
    \<and> contents (cn_in (net_conns (app_rest w') c)) = []
    \<and> (\<forall>v vs' s. vs = v # vs' \<and> c_str s \<noteq> [] \<longrightarrow> (\<exists>w''. redis_answer ext (Some (Reply_String s)) w' = Done w''
         \<and> net_wire (app_rest w'') = (net_wire (app_rest w))(c := net_wire (app_rest w) c @ status_frame pro (tlv_type v) (c_str s))))"
proof -
  let ?b = "cn_in (net_conns (app_rest w) c)" and ?bytes = "pro @ d @ tail"
  have wr: "unat (writable_bytes ?b) = 2 ^ k - 1" by (simp add: unat_writable[OF assms(1)] assms(2))
  then have le: "length ?bytes \<le> unat (writable_bytes ?b)" using assms(7) by linarith
  note all = readv_of_all[OF assms(1) le]
  have pos: "rv_ret (readv_of ?bytes (map snd (free_iov ?b))) > 0" unfolding all(2) using assms(4) by simp
  have nz: "writable_bytes ?b \<noteq> 0" using le assms(4) by auto
  obtain b1 ret where b1: "append_from_fd False (readv_of ?bytes) ?b = Some (b1, ret, None)" "buf_ok k b1" "contents b1 = ?bytes"
    using append_from_fd_no_error[OF assms(1) readv_of_ok nz pos] by (auto simp: all(1) assms(2))
  obtain b4 where b4: "gateway_frame (sys_malloc sys) (readv_of ?bytes) ?b = Some (b4, Some (pro, vs))" "contents b4 = []"
    using gateway_frame_read[OF b1(1,2) assms(3) b1(3) assms(4,5)] assms(6) by auto
  let ?w = "set_in c b4 w"
  have on: "rp_connected (app_redis ?w)" "rp_context (app_redis ?w)" using assms(8,9) by (simp_all add: set_in_def)
  let ?w' = "?w\<lparr>app_redis := (app_redis ?w)\<lparr>rp_callbacks := rp_callbacks (app_redis ?w) @ map (\<lambda>v. Gateway_Status c pro (tlv_type v)) vs\<rparr>,
      app_rest := (app_rest ?w)\<lparr>net_rest := net_rest (app_rest ?w) @ map gateway_command vs\<rparr>\<rparr>"
  have run: "gateway_parse sys ext (readv_of ?bytes) c w = Done ?w'"
    by (simp add: gateway_parse_def b4(1) gateway_loop_online[OF on assms(11)])
  have answer: "\<exists>w''. redis_answer ext (Some (Reply_String s)) ?w' = Done w''
         \<and> net_wire (app_rest w'') = (net_wire (app_rest w))(c := net_wire (app_rest w) c @ status_frame pro (tlv_type v) (c_str s))"
    if v: "vs = v # vs'" and s: "c_str s \<noteq> []" for v vs' s
  proof -
    let ?net = "app_rest ?w'"
    have o: "cn_out (net_conns ?net c) = cn_out (net_conns (app_rest w) c)" "net_wire ?net = net_wire (app_rest w)"
      by (simp_all add: set_in_def upd_conn_def)
    obtain net' where net': "gateway_reply sys c pro (tlv_type v) (Reply_String s) ?net = Some net'"
      "net_wire net' = (net_wire ?net)(c := net_wire ?net c @ status_frame pro (tlv_type v) (c_str s))"
      using gateway_reply_online[of k' ?net c sys pro s "tlv_type v"] assms(4,13-17) s unfolding o by blast
    have "redis_answer ext (Some (Reply_String s)) ?w' =
        after (run_closure ext (Gateway_Status c pro (tlv_type v)) (Reply_String s)
          (?w'\<lparr>app_redis := (app_redis ?w')\<lparr>rp_callbacks := map (\<lambda>v. Gateway_Status c pro (tlv_type v)) vs'\<rparr>\<rparr>)) Done"
      by (simp add: redis_answer_def redis_callback_def v assms(10) set_in_def)
    then show ?thesis using net'(1) net'(2)[unfolded o(2)] by (simp add: assms(12))
  qed
  have "contents (cn_in (net_conns (app_rest ?w') c)) = []" "net_rest (app_rest ?w') = net_rest (app_rest w) @ map gateway_command vs"
    using b4(2) by (simp_all add: set_in_def upd_conn_def)
  then show ?thesis using run answer by blast
qed

text \<open>A frame of a switch with the number 1 that is off.\<close>

definition demo_pro :: bytes where
  "demo_pro = map byte_of_nat [235, 144, 0, 28] @ replicate 19 (byte_of_nat 0)"

definition demo_gateway :: "redis_command list net ext" where
  "demo_gateway = \<lparr>ext_hiredis = net_hiredis, ext_connect = (\<lambda>c. ((Some (0, 7), True), c)), ext_now = (\<lambda>c. (''0'', c)),
     ext_md5_memory = (replicate 64 0, []), ext_gateway = gateway_reply demo_sys, ext_parse = (\<lambda>s. Inr demo_body)\<rparr>"

lemma demo_pro_facts: "length demo_pro = 23" "code (demo_pro ! 3) = 28"
  by (simp_all add: demo_pro_def code_byte_of_nat)

lemma demo_in: "cn_in (net_conns (app_rest (app_online demo_net)) 0) = buffer_default zero_malloc"
  "cn_out (net_conns (app_rest (app_online demo_net)) 0) = buffer_default zero_malloc"
  "net_rest (app_rest (app_online demo_net)) = []" "net_wire (app_rest (app_online demo_net)) = (\<lambda>_. [])"
  by (simp_all add: app_online_def app_new_def demo_net_def demo_conn_def)

lemma demo_redis: "rp_connected (app_redis (app_online c))" "rp_context (app_redis (app_online c))" "rp_callbacks (app_redis (app_online c)) = []"
  by (simp_all add: app_online_def app_new_def redis_proxy_new_def)

theorem gateway_switches_witness:
  "\<exists>w' w''. gateway_parse demo_sys demo_gateway (readv_of (demo_pro @ map byte_of_nat [1, 1, 0] @ map byte_of_nat [0, 22])) 0 (app_online demo_net) = Done w'
    \<and> redis_answer demo_gateway (Some (Reply_String ''1'')) w' = Done w''
    \<and> net_wire (app_rest w'') 0 = status_frame demo_pro 1 ''1''"
proof -
  have t: "tlvs (map byte_of_nat [1, 1, 0]) = Some [\<lparr>tlv_type = 1, tlv_length = 1, tlv_value = 0\<rparr>]" by (simp add: code_byte_of_nat)
  have s: "c_str ''1'' = ''1''" by (simp add: c_str_def nul_char)
  have b: "buf_ok 13 (cn_in (net_conns (app_rest (app_online demo_net)) 0))" "contents (cn_in (net_conns (app_rest (app_online demo_net)) 0)) = []"
    "buf_ok 13 (cn_out (net_conns (app_rest (app_online demo_net)) 0))" "contents (cn_out (net_conns (app_rest (app_online demo_net)) 0)) = []"
    unfolding demo_in using demo_buffer by simp_all
  have c: "code (demo_pro ! 3) = 25 + length (map byte_of_nat [1, 1, 0 :: nat])"
    "length (demo_pro @ map byte_of_nat [1, 1, 0] @ map byte_of_nat [0, 22]) < 2 ^ 13"
    by (simp_all add: demo_pro_facts)
  have e: "ext_hiredis demo_gateway = net_hiredis" "ext_gateway demo_gateway = gateway_reply demo_sys" by (simp_all add: demo_gateway_def)
  let ?v = "\<lparr>tlv_type = 1, tlv_length = 1, tlv_value = 0\<rparr>"
  have "(5 :: nat) \<le> 13" by simp
  note g = gateway_switches[OF b(1,2) demo_malloc demo_pro_facts(1) c(1) t c(2) demo_redis e b(3,4) this demo_writev]
  obtain w' where w': "gateway_parse demo_sys demo_gateway (readv_of (demo_pro @ map byte_of_nat [1, 1, 0] @ map byte_of_nat [0, 22])) 0 (app_online demo_net) = Done w'"
    and a: "\<And>v vs' s. [?v] = v # vs' \<and> c_str s \<noteq> [] \<longrightarrow> (\<exists>w''. redis_answer demo_gateway (Some (Reply_String s)) w' = Done w''
       \<and> net_wire (app_rest w'') = (net_wire (app_rest (app_online demo_net)))
           (0 := net_wire (app_rest (app_online demo_net)) 0 @ status_frame demo_pro (tlv_type v) (c_str s)))"
    using g by blast
  obtain w'' where "redis_answer demo_gateway (Some (Reply_String ''1'')) w' = Done w''"
    "net_wire (app_rest w'') = (net_wire (app_rest (app_online demo_net)))
       (0 := net_wire (app_rest (app_online demo_net)) 0 @ status_frame demo_pro (tlv_type ?v) (c_str ''1''))"
    using a[of ?v "[]" "''1''"] unfolding s by blast
  then show ?thesis using w' by (intro exI[of _ w'] exI[of _ w'']) (simp add: demo_in s)
qed

text \<open>C22: What a frame can do to the server. Its length byte is not checked: below 25 the size of the data
  wraps around and \<open>new\<close> throws, out of the callback of the loop; and data that are no multiple of three
  bytes are read past their end. No connection needs a password for this.\<close>

theorem gateway_bad_frame:
  assumes "buf_ok k (cn_in (net_conns (app_rest w) c))" "contents (cn_in (net_conns (app_rest w) c)) = []" "malloc_ok (sys_malloc sys)"
    and "length pro = 23" "length (pro @ d) < 2 ^ k"
  shows "(code (pro ! 3) < 25 \<longrightarrow> (\<exists>w'. gateway_parse sys ext (readv_of (pro @ d)) c w = Threw ''std::bad_alloc'' w'))
    \<and> (code (pro ! 3) = 25 + length d \<and> length d mod 3 \<noteq> 0 \<longrightarrow> gateway_parse sys ext (readv_of (pro @ d)) c w = Undefined)"
proof -
  let ?b = "cn_in (net_conns (app_rest w) c)" and ?bytes = "pro @ d"
  have wr: "unat (writable_bytes ?b) = 2 ^ k - 1" by (simp add: unat_writable[OF assms(1)] assms(2))
  then have le: "length ?bytes \<le> unat (writable_bytes ?b)" using assms(5) by linarith
  note all = readv_of_all[OF assms(1) le]
  have pos: "rv_ret (readv_of ?bytes (map snd (free_iov ?b))) > 0" unfolding all(2) using assms(4) by simp
  have nz: "writable_bytes ?b \<noteq> 0" using le assms(4) by auto
  obtain b1 ret where b1: "append_from_fd False (readv_of ?bytes) ?b = Some (b1, ret, None)" "buf_ok k b1" "contents b1 = pro @ d @ []"
    using append_from_fd_no_error[OF assms(1) readv_of_ok nz pos] by (auto simp: all(1) assms(2))
  have head: "contents b1 ! 3 = pro ! 3" "23 \<le> length (contents b1)" using assms(4) by (simp_all add: b1(3) nth_append)
  show ?thesis
  proof (intro conjI impI)
    assume "code (pro ! 3) < 25"
    then obtain b2 where "gateway_frame (sys_malloc sys) (readv_of ?bytes) ?b = Some (b2, None)"
      using gateway_frame_short[OF b1(1,2) assms(3) head(2)] unfolding head(1) by blast
    then show "\<exists>w'. gateway_parse sys ext (readv_of ?bytes) c w = Threw ''std::bad_alloc'' w'" by (simp add: gateway_parse_def)
  next
    assume a: "code (pro ! 3) = 25 + length d \<and> length d mod 3 \<noteq> 0"
    then have "tlvs d = None" by (simp add: tlvs_length)
    then have "gateway_frame (sys_malloc sys) (readv_of ?bytes) ?b = None"
      using gateway_frame_read[OF b1(1,2) assms(3) b1(3) assms(4)] a by auto
    then show "gateway_parse sys ext (readv_of ?bytes) c w = Undefined" by (simp add: gateway_parse_def)
  qed
qed

theorem gateway_bad_frame_witness:
  "gateway_parse demo_sys demo_gateway (readv_of (demo_pro[3 := byte_of_nat 27] @ map byte_of_nat [1, 1])) 0 (app_online demo_net) = Undefined"
proof -
  have b: "buf_ok 13 (cn_in (net_conns (app_rest (app_online demo_net)) 0))" "contents (cn_in (net_conns (app_rest (app_online demo_net)) 0)) = []"
    unfolding demo_in using demo_buffer by simp_all
  have "length (demo_pro[3 := byte_of_nat 27]) = 23" "length (demo_pro[3 := byte_of_nat 27] @ map byte_of_nat [1, 1]) < 2 ^ 13"
    by (simp_all add: demo_pro_facts)
  from gateway_bad_frame[OF b demo_malloc this, of demo_gateway] show ?thesis
    by (simp add: demo_pro_facts code_byte_of_nat)
qed

end
