(* ===== verification/App_Frame.thy ===== *)
theory App_Frame
  imports Business
begin

text \<open>
  What the application leaves alone. Replies that have been sent stay. The state of the rest of the program, which the functions outside
  get and return, is changed by nothing else: whatever relation the functions of hiredis, of the
  connection attempt and of the clock stay in, a request and a reply of Redis stay in it too. The
  functions that a request puts into the queue never are those of the gateway.
\<close>

section \<open>The frame of the application\<close>

definition plain_fn :: "closure \<Rightarrow> bool" where
  "plain_fn f \<longleftrightarrow> (\<forall>c p t. f \<noteq> Gateway_Status c p t)"

lemma plain_fns [simp]:
  "plain_fn Ignored" "plain_fn (Registered m p n)" "plain_fn (Logged_In m p n)" "plain_fn (With_Mobile fn)" "plain_fn (Uploaded n)"
  "plain_fn (Base_Info n)" "plain_fn (Loan_Applied n)" "plain_fn (Switch_Set n)" "plain_fn (Switch_Keys n)" "plain_fn (Switch_Status k n)"
  "\<not> plain_fn (Gateway_Status c p t)"
  by (simp_all add: plain_fn_def)

definition stays :: "('c \<Rightarrow> 'c \<Rightarrow> bool) \<Rightarrow> 'c app \<Rightarrow> 'c app \<Rightarrow> bool" where
  "stays Q w w' \<longleftrightarrow> Q (app_rest w) (app_rest w') \<and> (\<exists>xs. app_sent w' = app_sent w @ xs)
   \<and> (\<exists>cs. rp_callbacks (app_redis w') = rp_callbacks (app_redis w) @ cs \<and> (\<forall>f \<in> set cs. plain_fn f))"

definition confined :: "('c \<Rightarrow> 'c \<Rightarrow> bool) \<Rightarrow> 'c app \<Rightarrow> 'c app result \<Rightarrow> bool" where
  "confined Q w0 r \<longleftrightarrow> (case r of Done w \<Rightarrow> stays Q w0 w | Threw e w \<Rightarrow> stays Q w0 w | Undefined \<Rightarrow> True)"

named_theorems confined_intros \<open>what the building blocks of the methods leave alone\<close>

lemma confined_Done [confined_intros]: "stays Q w0 w \<Longrightarrow> confined Q w0 (Done w)"
  by (simp add: confined_def)

lemma confined_Undefined [confined_intros]: "confined Q w0 Undefined"
  by (simp add: confined_def)

lemma confined_after [confined_intros]:
  assumes "confined Q w0 r" "\<And>w. stays Q w0 w \<Longrightarrow> confined Q w0 (f w)"
  shows "confined Q w0 (after r f)"
  using assms by (cases r) (auto simp: confined_def)

lemma confined_or_throw [confined_intros]:
  "stays Q w0 w \<Longrightarrow> (\<And>a. x = Inr a \<Longrightarrow> confined Q w0 (f a w)) \<Longrightarrow> confined Q w0 (or_throw x f w)"
  by (auto simp: or_throw_def confined_def split: sum.splits)

lemma stays_set_reply [simp]: "stays Q w0 (set_reply n j w) = stays Q w0 w"
  by (simp add: stays_def set_reply_def)

lemma confined_put [confined_intros]: "stays Q w0 w \<Longrightarrow> confined Q w0 (reply_put n k v w)"
  unfolding reply_put_def by (intro confined_intros) simp_all

lemma confined_both [confined_intros]: "stays Q w0 w \<Longrightarrow> confined Q w0 (reply_both n c msg w)"
  unfolding reply_both_def by (intro confined_intros)

lemma confined_push [confined_intros]: "stays Q w0 w \<Longrightarrow> confined Q w0 (reply_push n k v w)"
  unfolding reply_push_def Let_def by (intro confined_intros)

lemma base_loop_confined [confined_intros]: "stays Q w0 w \<Longrightarrow> confined Q w0 (base_loop n key rs w)"
  by (induction n key rs w rule: base_loop.induct) (auto split: option.splits intro!: confined_intros)

locale outside_frame =
  fixes Q :: "'c \<Rightarrow> 'c \<Rightarrow> bool" and ext :: "'c ext"
  assumes Q_refl: "Q c c"
    and Q_trans: "Q a b \<Longrightarrow> Q b c \<Longrightarrow> Q a c"
    and hiredis_in: "Q c (snd (ext_hiredis ext cmd c))"
    and connect_in: "Q c (snd (ext_connect ext c))"
    and now_in: "Q c (snd (ext_now ext c))"
begin

lemma stays_refl: "stays Q w w"
  by (simp add: stays_def Q_refl)

lemma stays_trans: "stays Q a b \<Longrightarrow> stays Q b c \<Longrightarrow> stays Q a c"
  unfolding stays_def using Q_trans by (elim conjE exE) (intro conjI; fastforce intro!: exI[of _ "_ @ _"])

lemma stays_local [confined_intros]: "stays Q w0 w \<Longrightarrow> stays Q w0 (local_redis ext w)"
  using Q_trans connect_in[of "app_rest w"]
  by (auto simp: local_redis_def stays_def proxy_connect_def split: prod.splits option.splits)

lemma redis_send_in:
  "redis_send (ext_hiredis ext) cmd f (p, c) = Some ((p', c'), ok) \<Longrightarrow> Q c c'"
  using hiredis_in[of c] Q_refl
  by (cases cmd; auto simp: send_argv_def send_line_def Let_def split: if_splits prod.splits; metis snd_conv)

lemma confined_send [confined_intros]:
  assumes "stays Q w0 w" "plain_fn f"
  shows "confined Q w0 (app_send ext cmd f w)"
proof (cases "redis_send (ext_hiredis ext) cmd f (app_redis (local_redis ext w), app_rest (local_redis ext w))")
  case None
  then show ?thesis by (simp add: app_send_def confined_def)
next
  case (Some x)
  then obtain p c ok where x: "redis_send (ext_hiredis ext) cmd f (app_redis (local_redis ext w), app_rest (local_redis ext w)) = Some ((p, c), ok)"
    by (metis prod.exhaust)
  have "stays Q (local_redis ext w) ((local_redis ext w)\<lparr>app_redis := p, app_rest := c\<rparr>)"
    using redis_send_callbacks[OF x] redis_send_in[OF x] assms(2) by (auto simp: stays_def)
  then show ?thesis
    using x stays_trans[OF stays_local[OF assms(1)]] by (simp add: app_send_def confined_def)
qed

lemma confined_connected [confined_intros]:
  assumes "stays Q w0 w" "\<And>w. stays Q w0 w \<Longrightarrow> confined Q w0 (f w)"
  shows "confined Q w0 (if_connected ext n msg f w)"
  using assms stays_local[OF assms(1)] by (auto simp: if_connected_def Let_def intro!: confined_both)

lemma confined_token [confined_intros]:
  assumes "stays Q w0 w" "\<And>token w. stays Q w0 w \<Longrightarrow> confined Q w0 (f token w)"
  shows "confined Q w0 (generate_token ext mobile password f w)"
proof -
  obtain now c where t: "ext_now ext (app_rest w) = (now, c)" by (cases "ext_now ext (app_rest w)")
  have "Q (app_rest w) c" using now_in[of "app_rest w"] t by simp
  then have "stays Q w0 (w\<lparr>app_rest := c\<rparr>)" using assms(1) Q_trans by (auto simp: stays_def)
  then show ?thesis
    unfolding generate_token_def t using assms(2) by (auto split: option.splits intro!: confined_intros)
qed

lemma confined_with_param [confined_intros]:
  assumes "stays Q w0 w" "\<And>v w. stays Q w0 w \<Longrightarrow> confined Q w0 (f v w)"
  shows "confined Q w0 (with_param request n name f w)"
  unfolding with_param_def using assms by (auto split: option.splits intro!: confined_intros)

lemma confined_with_token [confined_intros]: "stays Q w0 w \<Longrightarrow> confined Q w0 (with_token ext fn request n w)"
  unfolding with_token_def get_mobile_by_token_def by (auto split: option.splits intro!: confined_intros)

lemma confined_log [confined_intros]: "stays Q w0 w \<Longrightarrow> confined Q w0 (log_param request name w)"
  unfolding log_param_def by (auto split: option.splits intro!: confined_intros)

lemma method_frames:
  assumes "stays Q w0 w"
  shows "confined Q w0 (register ext request n w)" "confined Q w0 (login ext request n w)"
    "confined Q w0 (login_with_token ext request n w)" "confined Q w0 (upload_data ext request n w)"
    "confined Q w0 (get_base_info ext request n w)" "confined Q w0 (apply_for_loan ext request n w)"
    "confined Q w0 (set_switch_info ext request n w)" "confined Q w0 (get_switch_info ext request n w)"
    "confined Q w0 (get_location request n w)" "confined Q w0 (default_method request n w)" "confined Q w0 (health request n w)"
  unfolding register_def login_def login_with_token_def upload_data_def get_base_info_def apply_for_loan_def
    get_location_def set_switch_info_def get_switch_info_def default_method_def health_def
  by (intro confined_intros; simp add: assms)+

lemma route_confined: "stays Q w0 w \<Longrightarrow> confined Q w0 (route ext service_name method_name request n w)"
  unfolding route_def by (simp add: method_frames)

lemma confined_upload_param [confined_intros]:
  assumes "stays Q w0 w" "\<And>cmd w. stays Q w0 w \<Longrightarrow> confined Q w0 (f cmd w)"
  shows "confined Q w0 (upload_param request name f cmd w)"
  unfolding upload_param_def using assms by (auto split: option.splits intro!: confined_intros)

lemma confined_switch_loop [confined_intros]:
  assumes "stays Q w0 w" "\<And>w. stays Q w0 w \<Longrightarrow> confined Q w0 (f w)"
  shows "confined Q w0 (switch_loop ext n infos f w)"
  using assms(1)
proof (induction infos arbitrary: w)
  case (Cons info infos)
  then show ?case by (auto split: option.splits intro!: confined_intros)
qed (simp add: assms(2))

lemma confined_keys_loop [confined_intros]: "stays Q w0 w \<Longrightarrow> confined Q w0 (keys_loop ext n rs w)"
  by (induction rs arbitrary: w) (auto split: option.splits intro!: confined_intros)

lemma run_token_fn_confined: "stays Q w0 w \<Longrightarrow> confined Q w0 (run_token_fn ext fn mobile w)"
  by (cases fn) (auto split: option.splits intro!: confined_intros)

lemma run_closure_confined: "plain_fn f \<Longrightarrow> stays Q w0 w \<Longrightarrow> confined Q w0 (run_closure ext f r w)"
  by (cases f) (auto split: redis_reply.splits intro!: confined_intros run_token_fn_confined)

lemma stays_release: "stays Q w0 w \<Longrightarrow> stays Q w0 (release n w)"
  by (auto simp: stays_def release_def)

lemma serve_confined: "confined Q w (serve ext (smart_services ext) n service_name method_name content w)"
proof -
  let ?r = "or_throw (ext_parse ext content) (\<lambda>request w. route ext service_name method_name request n w) (set_reply n J_Null w)"
  have r: "confined Q w ?r" by (rule confined_or_throw) (simp_all add: stays_refl route_confined)
  have "confined Q w (case ?r of Threw what w \<Rightarrow> reply_both n PARAM_ERROR what w | _ \<Rightarrow> ?r)"
    using r by (cases ?r) (auto simp: confined_def[of Q w "Threw _ _"] intro: confined_both)
  then show ?thesis
    unfolding serve_def Let_def find_route option.case
    by (rule confined_after) (simp add: confined_def stays_release)
qed

lemma answer_confined:
  assumes "redis_answer ext (Some r) w = Done w'" "\<forall>f \<in> set (rp_callbacks (app_redis w)). plain_fn f"
  shows "Q (app_rest w) (app_rest w') \<and> (\<exists>xs. app_sent w' = app_sent w @ xs) \<and> (\<forall>f \<in> set (rp_callbacks (app_redis w')). plain_fn f)"
proof -
  obtain f fs where f: "rp_callbacks (app_redis w) = f # fs"
    using assms(1) by (auto simp: redis_answer_def redis_callback_def split: list.splits)
  let ?w = "w\<lparr>app_redis := (app_redis w)\<lparr>rp_callbacks := fs\<rparr>\<rparr>"
  have "confined Q ?w (run_closure ext f r ?w)" by (rule run_closure_confined) (use assms(2) f stays_refl in auto)
  then have "confined Q ?w (redis_answer ext (Some r) w)"
    by (auto simp: redis_answer_def redis_callback_def f stays_release split: option.splits intro!: confined_after confined_Done)
  then show ?thesis using assms f by (auto simp: confined_def stays_def)
qed

end

end
