(* ===== verification/Tcp_Service.thy ===== *)
theory Tcp_Service
  imports Smart_Gateway App_Frame
begin

section \<open>The TCP service\<close>

text \<open>
  \<open>small/tcp_service.cpp\<close>: the callbacks of the listening socket and of the connections. A connection
  is read into its buffer, the message it collects is parsed from there, and a complete message is served;
  a frame of a smart gateway is recognised by its first two bytes. The functions of sockets and of the
  operating system answer by arguments of the events.
\<close>

subsection \<open>The outside of the application\<close>

text \<open>hiredis, the connection attempt and the clock have a state of their own inside that of the server; the
  function of the gateway is the one of the gateway's component.\<close>

definition on_rest :: "('x \<Rightarrow> 'r \<times> 'x) \<Rightarrow> 'x net \<Rightarrow> 'r \<times> 'x net" where
  "on_rest f net = (let (r, x) = f (net_rest net) in (r, net\<lparr>net_rest := x\<rparr>))"

definition server_ext :: "'x tcp_sys \<Rightarrow> 'x ext \<Rightarrow> 'x net ext" where
  "server_ext sys e = \<lparr>ext_hiredis = (\<lambda>cmd. on_rest (ext_hiredis e cmd)), ext_connect = on_rest (ext_connect e),
     ext_now = on_rest (ext_now e), ext_md5_memory = ext_md5_memory e, ext_gateway = gateway_reply sys, ext_parse = ext_parse e\<rparr>"

definition rest_only :: "'x net \<Rightarrow> 'x net \<Rightarrow> bool" where
  "rest_only net net' \<longleftrightarrow> (\<exists>x. net' = net\<lparr>net_rest := x\<rparr>)"

lemma on_rest_only: "rest_only net (snd (on_rest f net))"
  by (auto simp: on_rest_def rest_only_def split: prod.splits)

interpretation server: outside_frame rest_only "server_ext sys e"
proof
  show "rest_only c c" for c :: "'a net" by (auto simp: rest_only_def intro: exI[of _ "net_rest c"])
qed (auto simp: server_ext_def on_rest_only, auto simp: rest_only_def)

subsection \<open>Messages\<close>

type_synonym 'x server = "nat \<times> 'x net app"

fun numbered :: "nat \<Rightarrow> 'w result \<Rightarrow> (nat \<times> 'w) result" where
  "numbered k (Done w) = Done (k, w)"
| "numbered k (Threw e w) = Threw e (k, w)"
| "numbered k Undefined = Undefined"

definition upd_app :: "nat \<Rightarrow> (connection \<Rightarrow> connection) \<Rightarrow> 'x net app \<Rightarrow> 'x net app" where
  "upd_app c f w = w\<lparr>app_rest := upd_conn c f (app_rest w)\<rparr>"

abbreviation conn_of :: "'x net app \<Rightarrow> nat \<Rightarrow> connection" where
  "conn_of w c \<equiv> net_conns (app_rest w) c"

text \<open>The lambda \<open>parse_http_message\<close>. A parse error leaves the message and the buffer.\<close>

definition parse_http_message :: "'x tcp_sys \<Rightarrow> 'x ext \<Rightarrow> nat \<Rightarrow> 'x server \<Rightarrow> 'x server result" where
  "parse_http_message sys e c s =
     (case s of (k, w) \<Rightarrow>
        (let m = (case cn_msg (conn_of w c) of None \<Rightarrow> http_message_new | Some m \<Rightarrow> m) in
         case http_message_parse (sys_junk sys) (cn_in (conn_of w c)) m of
           None \<Rightarrow> Undefined
         | Some (cut_n, m1) \<Rightarrow>
             let w1 = upd_app c (cn_msg_update (\<lambda>_. Some m1)) w in
             if cut_n < 0 then Done (k, w1)
             else
               let w2 = upd_app c (cn_in_update (\<lambda>b. fst (buffer_cut b (word_of_int cut_n)))) w1 in
               if \<not> http_message_completed m1 then Done (k, w2)
               else
                 let w3 = upd_app c (cn_msg_update (\<lambda>_. None)) w2;
                     w4 = w3\<lparr>app_rest := (app_rest w3)\<lparr>net_controls := (net_controls (app_rest w3))(k := (c, m1))\<rparr>\<rparr>;
                     ext = server_ext sys e
                 in numbered (Suc k) (settle sys w4
                      (serve ext (smart_services ext) k (msg_service_name (hp_data m1)) (msg_method_name (hp_data m1))
                        (msg_content (hp_data m1)) w4))))"

subsection \<open>Reading\<close>

text \<open>
  What the system answers during one call of a connection's read function: the first two bytes and the
  first six of the socket (\<open>MSG_PEEK\<close>), the read, whether a TLS session could be made, and what the local
  \<open>ssl_error\<close> holds before it is set.
\<close>

record read_args =
  ra_peek :: bytes
  ra_header :: bytes
  ra_readv :: readv_fn
  ra_session :: bool
  ra_ssl_error :: int

text \<open>\<open>rpc::is_ssl\<close>.\<close>

definition is_ssl :: "bytes \<Rightarrow> ssl_check" where
  "is_ssl header =
     (if length header < 6 then NOT_SSL
      else if (code (header ! 0) = 22 \<and> code (header ! 5) = 1) \<or> ((code (header ! 0) AND 128) = 128 \<and> code (header ! 2) = 1)
      then IS_SSL else NOT_SSL)"

definition SSL_ERROR_WANT_READ :: int where "SSL_ERROR_WANT_READ = 2"
definition SSL_ERROR_WANT_WRITE :: int where "SSL_ERROR_WANT_WRITE = 3"

text \<open>From the socket to the input buffer: the number read, or nothing when the function returns before.\<close>

definition fill_buffer :: "'x tcp_sys \<Rightarrow> read_args \<Rightarrow> nat \<Rightarrow> 'x net app \<Rightarrow> ('x net app \<times> int option) option" where
  "fill_buffer sys a c w =
     (let w1 = (if cn_ssl (conn_of w c) = SSL_UNKNOWN then upd_app c (cn_ssl_update (\<lambda>_. is_ssl (ra_header a))) w else w) in
      if cn_ssl (conn_of w1 c) = IS_SSL then
        (let w2 = (if cn_session (conn_of w1 c) then w1 else upd_app c (cn_session_update (\<lambda>_. ra_session a)) w1) in
         if \<not> cn_session (conn_of w2 c) then Some (w2, None)
         else do {
           io \<leftarrow> append_from_ssl (sys_SSL_read sys) (sys_SSL_error sys) (net_rest (app_rest w2)) (cn_in (conn_of w2 c));
           let w3 = upd_app c (cn_in_update (\<lambda>_. io_buffer io)) (w2\<lparr>app_rest := (app_rest w2)\<lparr>net_rest := io_session io\<rparr>\<rparr>);
           let ssl_error = (case io_error io of None \<Rightarrow> ra_ssl_error a | Some err \<Rightarrow> err);
           Some (w3, if ssl_error = SSL_ERROR_WANT_READ \<or> ssl_error = SSL_ERROR_WANT_WRITE then None else Some (io_ret io)) })
      else do {
        (b, nr, err) \<leftarrow> append_from_fd True (ra_readv a) (cn_in (conn_of w1 c));
        Some (upd_app c (cn_in_update (\<lambda>_. b)) w1, Some nr) })"

definition close_conn :: "nat \<Rightarrow> 'x net app \<Rightarrow> 'x net app" where
  "close_conn c w = w\<lparr>app_rest := (app_rest w)\<lparr>net_watched := (net_watched (app_rest w))(c := False),
     net_map := (net_map (app_rest w))(cn_fd (conn_of w c) := None)\<rparr>\<rparr>"

text \<open>The read function of a connection.\<close>

definition on_read :: "'x tcp_sys \<Rightarrow> 'x ext \<Rightarrow> read_args \<Rightarrow> nat \<Rightarrow> 'x server \<Rightarrow> 'x server result" where
  "on_read sys e a c s =
     after (if writable_bytes (cn_in (conn_of (snd s) c)) = 0 then parse_http_message sys e c s else Done s) (\<lambda>(k, w).
       if 2 \<le> length (ra_peek a) \<and> code (ra_peek a ! 0) = 235 \<and> code (ra_peek a ! 1) = 144
       then numbered k (gateway_parse sys (server_ext sys e) (ra_readv a) c w)
       else
         (case fill_buffer sys a c w of
            None \<Rightarrow> Undefined
          | Some (w1, None) \<Rightarrow> Done (k, w1)
          | Some (w1, Some nr) \<Rightarrow> if nr \<le> 0 then Done (k, close_conn c w1) else parse_http_message sys e c (k, w1)))"

subsection \<open>Accepting\<close>

text \<open>
  What \<open>accept4\<close> answers: a descriptor, or an error; with \<open>EMFILE\<close> the idle descriptor is given up for a
  moment, and opened again. Of the errors \<open>rpc::accept\<close> throws for these (the text goes on with the
  descriptor and the name of the error).
\<close>

datatype accept_result = Accepted int | Accept_Failed int int

definition EMFILE :: int where "EMFILE = 24"

definition fatal_errors :: "int set" where
  "fatal_errors = {9, 14, 22, 23, 105, 12, 88, 95}"

definition new_connection :: "'x tcp_sys \<Rightarrow> int \<Rightarrow> connection" where
  "new_connection sys fd = \<lparr>cn_fd = fd, cn_in = buffer_default (sys_malloc sys), cn_out = buffer_default (sys_malloc sys),
     cn_msg = None, cn_ssl = SSL_UNKNOWN, cn_session = False\<rparr>"

text \<open>\<open>emplace\<close> does not replace an entry of the map; the connection that is there gets a new \<open>IO\<close>.\<close>

definition on_accept :: "'x tcp_sys \<Rightarrow> accept_result \<Rightarrow> 'x net app \<Rightarrow> 'x net app result" where
  "on_accept sys r w =
     (case r of
        Accepted fd \<Rightarrow>
          (let net = app_rest w;
               (c, net1) = (case net_map net fd of
                  Some c \<Rightarrow> (c, upd_conn c (cn_fd_update (\<lambda>_. fd) \<circ> cn_ssl_update (\<lambda>_. SSL_UNKNOWN)) net)
                | None \<Rightarrow> (net_next net, upd_conn (net_next net) (\<lambda>_. new_connection sys fd)
                    (net\<lparr>net_next := net_next net + 1, net_map := (net_map net)(fd := Some (net_next net))\<rparr>)))
           in Done (w\<lparr>app_rest := net1\<lparr>net_watched := (net_watched net1)(c := True)\<rparr>\<rparr>))
      | Accept_Failed err idle \<Rightarrow>
          if err \<in> fatal_errors then Threw ''socket: accept fd '' w
          else if err = EMFILE then Done (w\<lparr>app_rest := (app_rest w)\<lparr>net_idle_fd := idle\<rparr>\<rparr>)
          else Done w)"

subsection \<open>Starting and running\<close>

text \<open>\<open>prepare\<close>: the results of making the TLS context, of \<open>socket\<close>, \<open>bind\<close>, \<open>open\<close> and \<open>listen\<close>.\<close>

definition tcp_prepare :: "bool \<Rightarrow> int \<Rightarrow> bool \<Rightarrow> int \<Rightarrow> bool \<Rightarrow> 'x net \<Rightarrow> 'x net \<times> bool" where
  "tcp_prepare ctx fd bound idle listening net =
     (if \<not> ctx \<or> fd < 0 \<or> \<not> bound then (net, False)
      else (net\<lparr>net_idle_fd := idle, net_listen := True\<rparr>, listening))"

definition tcp_process_end :: "'x net \<Rightarrow> 'x net" where
  "tcp_process_end net = net\<lparr>net_listen := False\<rparr>"

text \<open>A new service; the heap of connections is blank.\<close>

definition tcp_new :: "'x tcp_sys \<Rightarrow> 'x \<Rightarrow> 'x net" where
  "tcp_new sys x = \<lparr>net_conns = (\<lambda>_. new_connection sys 0), net_next = 0, net_map = Map.empty, net_watched = (\<lambda>_. False),
     net_idle_fd = -1, net_listen = False, net_controls = (\<lambda>_. (0, http_message_new)), net_wire = (\<lambda>_. []), net_writes = 0,
     net_rest = x\<rparr>"

text \<open>What the loop calls: only what it has been given is called.\<close>

datatype tcp_event = Accept accept_result | Readable nat read_args | Answer redis_reply

fun tcp_step :: "'x tcp_sys \<Rightarrow> 'x ext \<Rightarrow> tcp_event \<Rightarrow> 'x server \<Rightarrow> 'x server result" where
  "tcp_step sys e (Accept r) (k, w) = (if net_listen (app_rest w) then numbered k (on_accept sys r w) else Done (k, w))"
| "tcp_step sys e (Readable c a) (k, w) = (if net_watched (app_rest w) c then on_read sys e a c (k, w) else Done (k, w))"
| "tcp_step sys e (Answer r) (k, w) = numbered k (settle sys w (redis_answer (server_ext sys e) (Some r) w))"

fun tcp_run :: "'x tcp_sys \<Rightarrow> 'x ext \<Rightarrow> tcp_event list \<Rightarrow> 'x server \<Rightarrow> 'x server result" where
  "tcp_run sys e [] s = Done s"
| "tcp_run sys e (ev # evs) s = after (tcp_step sys e ev s) (tcp_run sys e evs)"

subsection \<open>Parsing always returns\<close>

lemma parse_slices_failed:
  assumes "hp_errno m \<noteq> HPE_OK"
  shows "parse_slices junk ds n m = (if concat ds = [] then Some (int n, set_message (\<lambda>x. x\<lparr>msg_parsed_length := msg_parsed_length x + n\<rparr>) m)
    else Some (- 1, m))"
  using assms by (induction ds) (auto simp: http_parser_execute_def)

lemma message_parse_total:
  assumes "buf_ok k b" "parser_inv m"
  shows "\<exists>ret m'. http_message_parse junk b m = Some (ret, m') \<and> parser_inv m' \<and> ret \<le> int (length (contents b))
    \<and> (hp_errno m \<noteq> HPE_OK \<longrightarrow> (if contents b = [] then ret = 0 else ret = - 1) \<and> hp_errno m' \<noteq> HPE_OK
        \<and> msg_stage (hp_data m') = msg_stage (hp_data m))"
proof -
  obtain ds where ds: "gather (buf_ring b) (strs b) = Some ds" "concat ds = contents b"
    using strs_views[OF assms(1)] gather_views by metis
  show ?thesis
  proof (cases "hp_errno m = HPE_OK")
    case True
    then show ?thesis
      using parse_slices_ok[OF assms(2) True, of junk ds 0] ds by (auto simp: http_message_parse_def parse_result_ok_def)
  next
    case False
    then show ?thesis
      using assms(2) ds(1) parse_slices_failed[OF False, of junk ds 0, unfolded ds(2)] by (auto simp: http_message_parse_def set_message_def)
  qed
qed

subsection \<open>The invariant of the server\<close>

text \<open>A connection without TLS, between events: the buffers are in order, all replies have been written.\<close>

definition conn_ok :: "connection \<Rightarrow> bool" where
  "conn_ok conn \<longleftrightarrow> buf_ok 13 (cn_in conn) \<and> buf_ok 13 (cn_out conn) \<and> contents (cn_out conn) = [] \<and> cn_ssl conn \<noteq> IS_SSL
   \<and> (\<forall>m. cn_msg conn = Some m \<longrightarrow> parser_inv m)"

definition net_ok :: "'x net \<Rightarrow> bool" where
  "net_ok net \<longleftrightarrow> (\<forall>c. conn_ok (net_conns net c))"

text \<open>What the socket of a connection gets for a list of replies: each as far as it fits into the empty buffer.\<close>

definition replies :: "'x tcp_sys \<Rightarrow> (nat \<Rightarrow> nat \<times> http_message http_parser) \<Rightarrow> (nat \<times> json) list \<Rightarrow> nat \<Rightarrow> bytes" where
  "replies sys ctl sent c =
     concat (map (\<lambda>(n, j). take 8191 (response_text sys (snd (ctl n)) j)) (filter (\<lambda>(n, j). fst (ctl n) = c) sent))"

lemma replies_append [simp]: "replies sys ctl (xs @ ys) c = replies sys ctl xs c @ replies sys ctl ys c"
  by (simp add: replies_def)

lemma replies_Nil [simp]: "replies sys ctl [] c = []"
  by (simp add: replies_def)

lemma replies_other: "(\<And>n. n \<in> fst ` set sent \<Longrightarrow> ctl' n = ctl n) \<Longrightarrow> replies sys ctl' sent c = replies sys ctl sent c"
  unfolding replies_def by (intro arg_cong[where f = concat] map_cong filter_cong) force+

definition eager :: "'x tcp_sys \<Rightarrow> bool" where
  "eager sys \<longleftrightarrow> (\<forall>n ds. sys_writev sys n ds = int (length (concat ds)))"

lemma eager_writev: "eager sys \<Longrightarrow> writev_ok (sys_writev sys n)"
  by (simp add: eager_def writev_ok_def)

lemma control_destroy_ok:
  assumes ok: "net_ok net" and e: "eager sys"
  shows "\<exists>net'. control_destroy sys (n, j) net = Some net' \<and> net_ok net' \<and> net_controls net' = net_controls net
    \<and> net_rest net' = net_rest net \<and> (\<forall>c. net_wire net' c = net_wire net c @ replies sys (net_controls net) [(n, j)] c)"
proof -
  obtain c m where cm: "net_controls net n = (c, m)" by (cases "net_controls net n")
  have c: "conn_ok (net_conns net c)" using ok by (simp add: net_ok_def)
  then have b: "buf_ok 13 (cn_out (net_conns net c))" "contents (cn_out (net_conns net c)) = []" "cn_ssl (net_conns net c) \<noteq> IS_SSL"
    by (simp_all add: conn_ok_def)
  obtain b1 where b1: "append_strings (response_parts m S_OK (sys_dump sys j)) (cn_out (net_conns net c)) = Some b1" "buf_ok 13 b1"
    "contents b1 = take 8191 (response_text sys m j)"
    using append_strings_correct[OF b(1), of "response_parts m S_OK (sys_dump sys j)"] by (auto simp: b(2) response_text_def)
  define net1 where "net1 = upd_conn c (cn_out_update (\<lambda>_. b1)) net"
  have o1: "cn_out (net_conns net1 c) = b1" by (simp add: net1_def upd_conn_def)
  have "buf_ok 13 (cn_out (net_conns net1 c))" using b1(2) by (simp add: o1)
  from conn_write_correct[OF this eager_writev[OF e]] obtain b2 k where w: "conn_write sys c net1 = Some (upd_conn c (cn_out_update (\<lambda>_. b2))
      (net1\<lparr>net_wire := (net_wire net1)(c := net_wire net1 c @ take k (contents b1)), net_writes := net_writes net1 + 1\<rparr>))"
    "buf_ok 13 b2" "contents b2 = drop k (contents b1)" "k = length (contents b1)"
    unfolding o1 using e by (auto simp: eager_def)
  have run: "control_destroy sys (n, j) net = conn_write sys c net1"
    using cm b(3) b1(1) by (simp add: control_destroy_def set_response_def net1_def)
  have "net_ok (upd_conn c (cn_out_update (\<lambda>_. b2)) (net1\<lparr>net_wire := f, net_writes := i\<rparr>))" for f i
    using ok w(2-4) by (auto simp: net_ok_def conn_ok_def net1_def upd_conn_def)
  moreover have "take k (contents b1) = take 8191 (response_text sys m j)" unfolding b1(3)[symmetric] w(4) by simp
  ultimately show ?thesis
    unfolding run w(1) using cm by (auto simp: net1_def upd_conn_def replies_def)
qed

lemma destroy_all_ok:
  assumes "net_ok net" "eager sys"
  shows "\<exists>net'. destroy_all sys rs net = Some net' \<and> net_ok net' \<and> net_controls net' = net_controls net
    \<and> net_rest net' = net_rest net \<and> (\<forall>c. net_wire net' c = net_wire net c @ replies sys (net_controls net) rs c)"
  using assms(1)
proof (induction rs arbitrary: net)
  case (Cons r rs)
  obtain n j where r: "r = (n, j)" by (cases r)
  obtain net1 where n1: "control_destroy sys r net = Some net1" "net_ok net1" "net_controls net1 = net_controls net"
    "net_rest net1 = net_rest net" "\<forall>c. net_wire net1 c = net_wire net c @ replies sys (net_controls net) [r] c"
    using control_destroy_ok[OF Cons.prems assms(2), of n j] unfolding r by blast
  obtain net2 where "destroy_all sys rs net1 = Some net2" "net_ok net2" "net_controls net2 = net_controls net1"
    "net_rest net2 = net_rest net1" "\<forall>c. net_wire net2 c = net_wire net1 c @ replies sys (net_controls net1) rs c"
    using Cons.IH[OF n1(2)] by blast
  then show ?case using n1 replies_append[of sys "net_controls net" "[r]" rs] by (intro exI[of _ net2]) simp
qed simp

definition server_ok :: "'x tcp_sys \<Rightarrow> 'x server \<Rightarrow> bool" where
  "server_ok sys s \<longleftrightarrow> (case s of (k, w) \<Rightarrow> app_inv k w \<and> net_ok (app_rest w) \<and> (\<forall>f \<in> set (rp_callbacks (app_redis w)). plain_fn f)
     \<and> (\<forall>c. net_wire (app_rest w) c = replies sys (net_controls (app_rest w)) (app_sent w) c))"

lemma app_inv_rest [simp]: "app_inv k (w\<lparr>app_rest := x\<rparr>) = app_inv k w"
  by (simp add: app_inv_def held_def)

lemma settle_ok:
  assumes "app_inv k w1" "net_ok (app_rest w1)" "\<forall>f \<in> set (rp_callbacks (app_redis w1)). plain_fn f" "eager sys"
    and "app_sent w1 = app_sent w0 @ xs" "\<forall>c. net_wire (app_rest w1) c = replies sys (net_controls (app_rest w1)) (app_sent w0) c"
  shows "\<exists>w2. settle sys w0 (Done w1) = Done w2 \<and> server_ok sys (k, w2)"
proof -
  obtain net where net: "destroy_all sys xs (app_rest w1) = Some net" "net_ok net" "net_controls net = net_controls (app_rest w1)"
    "\<forall>c. net_wire net c = net_wire (app_rest w1) c @ replies sys (net_controls (app_rest w1)) xs c"
    using destroy_all_ok[OF assms(2,4)] by blast
  then show ?thesis using assms by (simp add: settle_def server_ok_def)
qed

lemma settle_cases [simp]: "settle sys w0 Undefined = Undefined" "settle sys w0 (Threw e w) = Threw e w"
  by (simp_all add: settle_def)

lemma rest_only_fields:
  assumes "rest_only net net'"
  shows "net_ok net' = net_ok net" "net_wire net' = net_wire net" "net_controls net' = net_controls net" "net_conns net' = net_conns net"
    "net_watched net' = net_watched net" "net_map net' = net_map net" "net_listen net' = net_listen net"
  using assms by (auto simp: rest_only_def net_ok_def)

lemma upd_app_fields [simp]:
  "app_inv k (upd_app c f w) = app_inv k w" "app_redis (upd_app c f w) = app_redis w" "app_sent (upd_app c f w) = app_sent w"
  "net_wire (app_rest (upd_app c f w)) = net_wire (app_rest w)" "net_controls (app_rest (upd_app c f w)) = net_controls (app_rest w)"
  "net_conns (app_rest (upd_app c f w)) = (net_conns (app_rest w))(c := f (conn_of w c))"
  "net_watched (app_rest (upd_app c f w)) = net_watched (app_rest w)" "net_map (app_rest (upd_app c f w)) = net_map (app_rest w)"
  by (simp_all add: upd_app_def upd_conn_def)

lemma server_ok_upd:
  assumes "server_ok sys (k, w)" "conn_ok (f (conn_of w c))"
  shows "server_ok sys (k, upd_app c f w)"
  using assms by (auto simp: server_ok_def net_ok_def)

text \<open>A complete message is served.\<close>

lemma serve_settled:
  fixes cm :: "nat \<times> http_message http_parser" and svc meth content :: string and x :: "'x ext" and k :: nat and w :: "'x net app"
  assumes ok: "server_ok sys (k, w)" and e: "eager sys"
  defines "w1 \<equiv> w\<lparr>app_rest := (app_rest w)\<lparr>net_controls := (net_controls (app_rest w))(k := cm)\<rparr>\<rparr>"
  defines "r \<equiv> serve (server_ext sys x) (smart_services (server_ext sys x)) k svc meth content w1"
  shows "r = Undefined \<or> (\<exists>w2. settle sys w1 r = Done w2 \<and> server_ok sys (Suc k, w2))"
proof -
  have a: "app_inv k w1" "net_ok (app_rest w1)" using ok by (simp_all add: w1_def server_ok_def net_ok_def)
  have sent: "n < k" if "n \<in> fst ` set (app_sent w)" for n
  proof -
    have "fst ` set (app_sent w) \<subseteq> {..<k}" using ok by (auto simp: server_ok_def app_inv_def)
    then show ?thesis using that by blast
  qed
  have wire: "net_wire (app_rest w1) c = replies sys (net_controls (app_rest w1)) (app_sent w1) c" for c
    using ok replies_other[of "app_sent w" "net_controls (app_rest w1)" "net_controls (app_rest w)" sys c] sent
    by (force simp: w1_def server_ok_def)
  show ?thesis
  proof (cases r)
    case (Done w2)
    have inv: "app_inv (Suc k) w2" using serve_inv[OF a(1), of "server_ext sys x" svc meth content] Done by (simp add: r_def)
    have s: "stays rest_only w1 w2"
      using server.serve_confined[of w1 sys x k svc meth content] Done by (simp add: r_def confined_def)
    then obtain xs cs where xs: "app_sent w2 = app_sent w1 @ xs" "rest_only (app_rest w1) (app_rest w2)"
      "rp_callbacks (app_redis w2) = rp_callbacks (app_redis w1) @ cs" "\<forall>f \<in> set cs. plain_fn f"
      by (auto simp: stays_def)
    have "\<forall>f \<in> set (rp_callbacks (app_redis w2)). plain_fn f" using xs(3,4) ok by (auto simp: w1_def server_ok_def)
    from settle_ok[OF inv _ this e xs(1)] a(2) wire show ?thesis
      unfolding Done by (simp add: rest_only_fields[OF xs(2)])
  qed (use serve_inv[OF a(1), of "server_ext sys x" svc meth content] in \<open>auto simp: r_def\<close>)
qed

lemma http_message_new_ok: "parser_inv http_message_new"
  by (rule http_message_new_inv)

lemma parse_http_message_ok:
  assumes ok: "server_ok sys (k, w)" and e: "eager sys"
  shows "parse_http_message sys x c (k, w) = Undefined \<or> (\<exists>s. parse_http_message sys x c (k, w) = Done s \<and> server_ok sys s)"
proof -
  have c: "conn_ok (conn_of w c)" using ok by (simp add: server_ok_def net_ok_def)
  define m where "m = (case cn_msg (conn_of w c) of None \<Rightarrow> http_message_new | Some m \<Rightarrow> m)"
  have "parser_inv m" using c http_message_new_inv by (auto simp: m_def conn_ok_def split: option.splits)
  then obtain ret m1 where p: "http_message_parse (sys_junk sys) (cn_in (conn_of w c)) m = Some (ret, m1)" "parser_inv m1"
    using message_parse_total[of 13 "cn_in (conn_of w c)" m "sys_junk sys"] c by (auto simp: conn_ok_def)
  define w1 where "w1 = upd_app c (cn_msg_update (\<lambda>_. Some m1)) w"
  have ok1: "server_ok sys (k, w1)" unfolding w1_def by (rule server_ok_upd[OF ok]) (use c p(2) in \<open>simp add: conn_ok_def\<close>)
  define w2 where "w2 = upd_app c (cn_in_update (\<lambda>b. fst (buffer_cut b (word_of_int ret)))) w1"
  have c1: "conn_ok (conn_of w1 c)" using ok1 by (simp add: server_ok_def net_ok_def)
  have ok2: "server_ok sys (k, w2)"
    unfolding w2_def by (rule server_ok_upd[OF ok1]) (use c1 buffer_cut_correct(1)[of 13] in \<open>simp add: conn_ok_def\<close>)
  define w3 where "w3 = upd_app c (cn_msg_update (\<lambda>_. None)) w2"
  have c2: "conn_ok (conn_of w2 c)" using ok2 by (simp add: server_ok_def net_ok_def)
  have ok3: "server_ok sys (k, w3)"
    unfolding w3_def by (rule server_ok_upd[OF ok2]) (use c2 in \<open>simp add: conn_ok_def\<close>)
  note s = serve_settled[OF ok3 e, where x = x and cm = "(c, m1)" and svc = "msg_service_name (hp_data m1)" and
      meth = "msg_method_name (hp_data m1)" and content = "msg_content (hp_data m1)"]
  have "parse_http_message sys x c (k, w) =
    (if ret < 0 then Done (k, w1) else if \<not> http_message_completed m1 then Done (k, w2)
     else numbered (Suc k) (settle sys (w3\<lparr>app_rest := (app_rest w3)\<lparr>net_controls := (net_controls (app_rest w3))(k := (c, m1))\<rparr>\<rparr>)
       (serve (server_ext sys x) (smart_services (server_ext sys x)) k (msg_service_name (hp_data m1)) (msg_method_name (hp_data m1))
         (msg_content (hp_data m1)) (w3\<lparr>app_rest := (app_rest w3)\<lparr>net_controls := (net_controls (app_rest w3))(k := (c, m1))\<rparr>\<rparr>))))"
    by (simp add: parse_http_message_def Let_def p(1)[unfolded m_def] w1_def w2_def w3_def)
  then show ?thesis using ok1 ok2 s by auto
qed

subsection \<open>Steps\<close>

text \<open>Events without a gateway and without TLS; reads behave as documented.\<close>

fun plain_event :: "tcp_event \<Rightarrow> bool" where
  "plain_event (Readable c a) \<longleftrightarrow> readv_ok (ra_readv a) \<and> is_ssl (ra_header a) \<noteq> IS_SSL
     \<and> \<not> (2 \<le> length (ra_peek a) \<and> code (ra_peek a ! 0) = 235 \<and> code (ra_peek a ! 1) = 144)"
| "plain_event _ \<longleftrightarrow> True"

text \<open>The read of a connection without TLS.\<close>

lemma fill_plain:
  assumes ok: "server_ok sys (k, w)" and a: "readv_ok (ra_readv a)" "is_ssl (ra_header a) \<noteq> IS_SSL"
  shows "\<exists>w1 nr. fill_buffer sys a c w = Some (w1, Some nr) \<and> server_ok sys (k, w1)
    \<and> app_sent w1 = app_sent w \<and> net_wire (app_rest w1) = net_wire (app_rest w) \<and> cn_msg (conn_of w1 c) = cn_msg (conn_of w c)
    \<and> cn_fd (conn_of w1 c) = cn_fd (conn_of w c) \<and> net_watched (app_rest w1) = net_watched (app_rest w)
    \<and> (0 < nr \<longrightarrow> contents (cn_in (conn_of w1 c)) \<noteq> [])"
proof -
  have c: "conn_ok (conn_of w c)" using ok by (simp add: server_ok_def net_ok_def)
  define w0 where "w0 = (if cn_ssl (conn_of w c) = SSL_UNKNOWN then upd_app c (cn_ssl_update (\<lambda>_. is_ssl (ra_header a))) w else w)"
  have ok0: "server_ok sys (k, w0)"
    unfolding w0_def using ok server_ok_upd[OF ok, of "cn_ssl_update (\<lambda>_. is_ssl (ra_header a))" c] c a(2) by (simp add: conn_ok_def)
  have f0: "app_sent w0 = app_sent w" "net_wire (app_rest w0) = net_wire (app_rest w)" "cn_msg (conn_of w0 c) = cn_msg (conn_of w c)"
    "cn_fd (conn_of w0 c) = cn_fd (conn_of w c)" "net_watched (app_rest w0) = net_watched (app_rest w)" "cn_in (conn_of w0 c) = cn_in (conn_of w c)"
    by (simp_all add: w0_def)
  have c0: "conn_ok (conn_of w0 c)" using ok0 by (simp add: server_ok_def net_ok_def)
  have "\<exists>b nr err. append_from_fd True (ra_readv a) (cn_in (conn_of w0 c)) = Some (b, nr, err) \<and> buf_ok 13 b
    \<and> (0 < nr \<longrightarrow> contents b \<noteq> [])"
  proof (cases "writable_bytes (cn_in (conn_of w0 c)) = 0")
    case True
    then show ?thesis using c0 by (simp add: append_from_fd_def conn_ok_def)
  next
    case False
    define res where "res = ra_readv a (map snd (free_iov (cn_in (conn_of w0 c))))"
    have "length (rv_data res) = nat (rv_ret res)" using a(1) by (simp add: readv_ok_def res_def)
    then have "0 < rv_ret res \<longrightarrow> rv_data res \<noteq> []" by auto
    then show ?thesis
      using append_from_fd_correct[OF _ a(1) False, of 13] c0 unfolding res_def conn_ok_def by fastforce
  qed
  then obtain b nr err where b: "append_from_fd True (ra_readv a) (cn_in (conn_of w0 c)) = Some (b, nr, err)" "buf_ok 13 b"
    "0 < nr \<longrightarrow> contents b \<noteq> []" by blast
  have "fill_buffer sys a c w = Some (upd_app c (cn_in_update (\<lambda>_. b)) w0, Some nr)"
    using c0 b(1) by (simp add: fill_buffer_def w0_def[symmetric] Let_def conn_ok_def)
  moreover have "server_ok sys (k, upd_app c (cn_in_update (\<lambda>_. b)) w0)"
    by (rule server_ok_upd[OF ok0]) (use c0 b(2) in \<open>simp add: conn_ok_def\<close>)
  ultimately show ?thesis using f0 b(3)
    by (intro exI[of _ "upd_app c (cn_in_update (\<lambda>_. b)) w0"] exI[of _ nr] conjI) auto
qed

lemma close_ok: "server_ok sys (k, w) \<Longrightarrow> server_ok sys (k, close_conn c w)"
  by (simp add: server_ok_def close_conn_def net_ok_def)

lemma on_read_ok:
  assumes ok: "server_ok sys s" and e: "eager sys" and a: "plain_event (Readable c a)"
  shows "on_read sys x a c s = Undefined \<or> (\<exists>s'. on_read sys x a c s = Done s' \<and> server_ok sys s')"
proof -
  obtain k w where s: "s = (k, w)" by (cases s)
  let ?first = "if writable_bytes (cn_in (conn_of w c)) = 0 then parse_http_message sys x c (k, w) else Done (k, w)"
  have "?first = Undefined \<or> (\<exists>s1. ?first = Done s1 \<and> server_ok sys s1)"
    using parse_http_message_ok[of sys k w x c] ok e by (simp add: s)
  then consider "?first = Undefined" | k1 w1 where "?first = Done (k1, w1)" "server_ok sys (k1, w1)" by (metis prod.exhaust)
  then show ?thesis
  proof cases
    case 1
    then show ?thesis by (simp add: on_read_def s)
  next
    case 2
    obtain w2 nr where f: "fill_buffer sys a c w1 = Some (w2, Some nr)" "server_ok sys (k1, w2)"
      using fill_plain[OF 2(2), of a c] a by auto
    have "on_read sys x a c s = (if nr \<le> 0 then Done (k1, close_conn c w2) else parse_http_message sys x c (k1, w2))"
      using 2(1) f(1) a by (auto simp: on_read_def s)
    then show ?thesis using close_ok[OF f(2)] parse_http_message_ok[OF f(2) e, of x c] by auto
  qed
qed

lemma new_connection_ok: "malloc_ok (sys_malloc sys) \<Longrightarrow> conn_ok (new_connection sys fd)"
proof -
  assume "malloc_ok (sys_malloc sys)"
  then have "sized_block (unat DEFAULT_INITIAL_SIZE) (sys_malloc sys DEFAULT_INITIAL_SIZE)" unfolding malloc_ok_def by blast
  then have "sized_block 8192 (sys_malloc sys DEFAULT_INITIAL_SIZE)" by (simp add: DEFAULT_INITIAL_SIZE_def)
  from buffer_default_correct[where malloc = "sys_malloc sys", OF this] show ?thesis by (simp add: new_connection_def conn_ok_def)
qed

lemma on_accept_ok:
  assumes ok: "server_ok sys (k, w)" and m: "malloc_ok (sys_malloc sys)" and run: "on_accept sys r w = Done w'"
  shows "server_ok sys (k, w')"
proof (cases r)
  case (Accepted fd)
  have new: "conn_ok (new_connection sys fd)" by (rule new_connection_ok[OF m])
  show ?thesis
  proof (cases "net_map (app_rest w) fd")
    case None
    then have w': "w' = w\<lparr>app_rest := (upd_conn (net_next (app_rest w)) (\<lambda>_. new_connection sys fd) ((app_rest w)
        \<lparr>net_next := net_next (app_rest w) + 1, net_map := (net_map (app_rest w))(fd := Some (net_next (app_rest w)))\<rparr>))
        \<lparr>net_watched := (net_watched (app_rest w))(net_next (app_rest w) := True)\<rparr>\<rparr>"
      using run Accepted by (simp add: on_accept_def Let_def upd_conn_def)
    show ?thesis unfolding w' using ok new by (simp add: server_ok_def net_ok_def upd_conn_def)
  next
    case (Some c)
    have "conn_ok (conn_of w c)" using ok by (simp add: server_ok_def net_ok_def)
    then have old: "conn_ok ((conn_of w c)\<lparr>cn_ssl := SSL_UNKNOWN, cn_fd := fd\<rparr>)" by (simp add: conn_ok_def)
    have w': "w' = w\<lparr>app_rest := (upd_conn c (cn_fd_update (\<lambda>_. fd) \<circ> cn_ssl_update (\<lambda>_. SSL_UNKNOWN)) (app_rest w))
        \<lparr>net_watched := (net_watched (app_rest w))(c := True)\<rparr>\<rparr>"
      using run Accepted Some by (simp add: on_accept_def Let_def upd_conn_def)
    show ?thesis unfolding w' using ok old by (simp add: server_ok_def net_ok_def upd_conn_def)
  qed
next
  case (Accept_Failed err idle)
  then show ?thesis using ok run by (auto simp: on_accept_def server_ok_def net_ok_def split: if_splits)
qed

lemma tcp_step_ok:
  assumes ok: "server_ok sys s" and m: "malloc_ok (sys_malloc sys)" "eager sys" and p: "plain_event ev" and run: "tcp_step sys x ev s = Done s'"
  shows "server_ok sys s'"
proof -
  obtain k w where s: "s = (k, w)" by (cases s)
  show ?thesis
  proof (cases ev)
    case (Accept r)
    then show ?thesis using on_accept_ok[OF _ m(1), of k w r] ok run
      by (cases "on_accept sys r w") (auto simp: s split: if_splits)
  next
    case (Readable c a)
    then show ?thesis using on_read_ok[OF ok m(2), of c a x] p ok run by (auto simp: s split: if_splits)
  next
    case (Answer r)
    let ?r = "redis_answer (server_ext sys x) (Some r) w"
    obtain w1 where w1: "?r = Done w1" "settle sys w ?r = Done (snd s')" "fst s' = k"
      using run Answer by (cases "?r"; cases s'; cases "settle sys w ?r") (auto simp: s)
    have plain: "\<forall>f \<in> set (rp_callbacks (app_redis w)). plain_fn f" using ok by (simp add: s server_ok_def)
    obtain xs where w2: "rest_only (app_rest w) (app_rest w1)" "app_sent w1 = app_sent w @ xs"
      "\<forall>f \<in> set (rp_callbacks (app_redis w1)). plain_fn f"
      using server.answer_confined[OF w1(1) plain] by blast
    have inv: "app_inv k w1" using answer_inv[OF _ w1(1)] ok by (simp add: s server_ok_def)
    have "net_ok (app_rest w1)" "\<forall>c. net_wire (app_rest w1) c = replies sys (net_controls (app_rest w1)) (app_sent w) c"
      using ok by (simp_all add: s server_ok_def rest_only_fields[OF w2(1)])
    from settle_ok[OF inv this(1) w2(3) m(2) w2(2) this(2)] show ?thesis using w1 by (cases s') auto
  qed
qed

lemma tcp_run_ok:
  "tcp_run sys x evs s = Done s' \<Longrightarrow> server_ok sys s \<Longrightarrow> malloc_ok (sys_malloc sys) \<Longrightarrow> eager sys \<Longrightarrow> list_all plain_event evs \<Longrightarrow> server_ok sys s'"
proof (induction evs arbitrary: s)
  case (Cons ev evs)
  obtain s1 where "tcp_step sys x ev s = Done s1" "tcp_run sys x evs s1 = Done s'"
    using Cons.prems(1) by (cases "tcp_step sys x ev s") auto
  then show ?case using Cons tcp_step_ok[OF Cons.prems(2-4), of ev x s1] by auto
qed simp

text \<open>The server when it starts to listen, with a Redis client in some state and no function waiting.\<close>

definition tcp_start :: "'x tcp_sys \<Rightarrow> closure redis_proxy \<Rightarrow> 'x \<Rightarrow> 'x server" where
  "tcp_start sys p x = (0, (app_new (fst (tcp_prepare True 4 True 3 True (tcp_new sys x))))\<lparr>app_redis := p\<rparr>)"

lemma tcp_start_ok:
  assumes "malloc_ok (sys_malloc sys)" "rp_callbacks p = []"
  shows "server_ok sys (tcp_start sys p x)"
  using assms new_connection_ok[OF assms(1)]
  by (simp add: tcp_start_def server_ok_def app_new_def app_inv_def held_def reply_ok_def tcp_prepare_def tcp_new_def net_ok_def)

subsection \<open>A request that arrives in one piece\<close>

lemma append_from_fd_read_index:
  "append_from_fd e readv b = Some (b', n, err) \<Longrightarrow> buf_read_index b' = buf_read_index b"
  by (auto simp: append_from_fd_def Let_def split: if_splits Option.bind_splits)

text \<open>The message that is parsed from it.\<close>

lemma message_of_request:
  assumes "buf_ok k b" "contents b = request_head meth (CHR ''/'' # svc @ CHR ''/'' # name) hs @ body" "buf_read_index b \<le> buf_write_index b"
    and "request_ok meth (CHR ''/'' # svc @ CHR ''/'' # name) hs body"
    and "\<forall>ch \<in> set (svc @ name). IS_URL_CHAR ch" "CHR ''/'' \<notin> set name" "name \<noteq> []" "length svc + length name < 65534"
  shows "\<exists>m. http_message_parse junk b http_message_new = Some (int (length (contents b)), m) \<and> hp_errno m = HPE_OK
    \<and> http_message_completed m \<and> http_major m = 1 \<and> http_minor m = 1
    \<and> msg_service_name (hp_data m) = svc \<and> msg_method_name (hp_data m) = name \<and> msg_content (hp_data m) = body
    \<and> map_of (msg_header_map (hp_data m)) = map_of (lower_headers hs)"
proof -
  let ?url = "CHR ''/'' # svc @ CHR ''/'' # name" and ?d = "hp_data http_message_new"
  obtain m n where m: "http_message_parse junk b http_message_new = Some (int (length (contents b)), m)" "hp_errno m = HPE_OK"
    "http_major m = 1" "http_minor m = 1" "hp_data m = (collected junk ?url hs body ?d)\<lparr>msg_parsed_length := n\<rparr>"
    using request_parsed[OF assms(1-4)] by blast
  have u: "msg_url (?d\<lparr>msg_stage := HTTP_ON_MESSAGE_BEGIN\<rparr>) = []" using new_message_fields by simp
  have q: "url_query []" by (simp add: url_query_def)
  note c = collected_fields[OF new_message_fields(1), of junk ?url hs body]
  show ?thesis
    using m(1-4) c new_message_fields(2,3) url_routed[OF assms(5-7) q assms(8) u, of junk]
    by (intro exI[of _ m]) (simp add: m(5) http_message_completed_def)
qed

text \<open>A connection that waits for a request.\<close>

definition fresh_conn :: "connection \<Rightarrow> bool" where
  "fresh_conn conn \<longleftrightarrow> conn_ok conn \<and> contents (cn_in conn) = [] \<and> buf_read_index (cn_in conn) = 0 \<and> cn_msg conn = None"

lemma fresh_new: "malloc_ok (sys_malloc sys) \<Longrightarrow> fresh_conn (new_connection sys fd)"
proof -
  assume m: "malloc_ok (sys_malloc sys)"
  then have "sized_block (unat DEFAULT_INITIAL_SIZE) (sys_malloc sys DEFAULT_INITIAL_SIZE)" unfolding malloc_ok_def by blast
  then have "sized_block 8192 (sys_malloc sys DEFAULT_INITIAL_SIZE)" by (simp add: DEFAULT_INITIAL_SIZE_def)
  from buffer_default_correct[where malloc = "sys_malloc sys", OF this] new_connection_ok[OF m, of fd] show ?thesis
    by (simp add: fresh_conn_def new_connection_def) (simp add: buffer_default_def)
qed

text \<open>It is served.\<close>

lemma read_request:
  fixes meth :: http_method and svc name body :: string
  defines "bytes \<equiv> \<lambda>hs. request_head meth (CHR ''/'' # svc @ CHR ''/'' # name) hs @ body"
  assumes ok: "net_ok (app_rest w)" and f: "fresh_conn (conn_of w c)"
    and a: "plain_event (Readable c a)" "ra_readv a = readv_of (bytes hs)" "length (bytes hs) < 8192"
    and r: "request_ok meth (CHR ''/'' # svc @ CHR ''/'' # name) hs body"
      "\<forall>ch \<in> set (svc @ name). IS_URL_CHAR ch" "CHR ''/'' \<notin> set name" "name \<noteq> []" "length svc + length name < 65534"
  shows "\<exists>m net. on_read sys x a c (k, w) = numbered (Suc k) (settle sys (w\<lparr>app_rest := net\<rparr>)
        (serve (server_ext sys x) (smart_services (server_ext sys x)) k svc name body (w\<lparr>app_rest := net\<rparr>)))
    \<and> net_ok net \<and> net_rest net = net_rest (app_rest w) \<and> net_wire net = net_wire (app_rest w)
    \<and> net_controls net = (net_controls (app_rest w))(k := (c, m))
    \<and> http_major m = 1 \<and> http_minor m = 1 \<and> map_of (msg_header_map (hp_data m)) = map_of (lower_headers hs)"
proof -
  let ?b = "cn_in (conn_of w c)"
  have c: "conn_ok (conn_of w c)" "contents ?b = []" "buf_read_index ?b = 0" "cn_msg (conn_of w c) = None" "buf_ok 13 ?b"
    "cn_ssl (conn_of w c) \<noteq> IS_SSL"
    using f by (simp_all add: fresh_conn_def conn_ok_def)
  have wr: "unat (writable_bytes ?b) = 8191" by (simp add: unat_writable[OF c(5)] c(2))
  then have nz: "writable_bytes ?b \<noteq> 0" by auto
  have "length (bytes hs) \<le> unat (writable_bytes ?b)" using a(3) by (simp add: wr)
  note all = readv_of_all[OF c(5) this]
  have pos: "0 < length (bytes hs)" by (simp add: bytes_def request_head_def)
  obtain b1 where b1: "append_from_fd True (readv_of (bytes hs)) ?b = Some (b1, int (length (bytes hs)), None)" "buf_ok 13 b1" "contents b1 = bytes hs"
    using append_from_fd_correct[OF c(5) readv_of_ok nz, of "bytes hs"] pos unfolding all by (auto simp: c(2))
  have flat: "buf_read_index b1 \<le> buf_write_index b1" using append_from_fd_read_index[OF b1(1)] c(3) by simp
  have b1c: "contents b1 = request_head meth (CHR ''/'' # svc @ CHR ''/'' # name) hs @ body" by (simp add: b1(3) bytes_def)
  obtain m where m: "http_message_parse (sys_junk sys) b1 http_message_new = Some (int (length (bytes hs)), m)" "hp_errno m = HPE_OK"
    "http_message_completed m" "http_major m = 1" "http_minor m = 1"
    "msg_service_name (hp_data m) = svc" "msg_method_name (hp_data m) = name" "msg_content (hp_data m) = body"
    "map_of (msg_header_map (hp_data m)) = map_of (lower_headers hs)"
    using message_of_request[OF b1(2) b1c flat r, of "sys_junk sys"] unfolding b1(3) by blast
  define w0 where "w0 = (if cn_ssl (conn_of w c) = SSL_UNKNOWN then upd_app c (cn_ssl_update (\<lambda>_. is_ssl (ra_header a))) w else w)"
  define w1 where "w1 = upd_app c (cn_in_update (\<lambda>_. b1)) w0"
  define w2 where "w2 = upd_app c (cn_msg_update (\<lambda>_. None)) (upd_app c (cn_in_update (\<lambda>b. fst (buffer_cut b (word_of_int (int (length (bytes hs)))))))
      (upd_app c (cn_msg_update (\<lambda>_. Some m)) w1))"
  define net where "net = (app_rest w2)\<lparr>net_controls := (net_controls (app_rest w2))(k := (c, m))\<rparr>"
  have c0: "conn_ok (conn_of w0 c)" "cn_in (conn_of w0 c) = ?b" "cn_msg (conn_of w0 c) = None"
    using c a(1) by (auto simp: w0_def conn_ok_def)
  have w2: "w2 = w\<lparr>app_rest := app_rest w2\<rparr>" by (simp add: w2_def w1_def w0_def upd_app_def)
  have w2': "w2\<lparr>app_rest := net\<rparr> = w\<lparr>app_rest := net\<rparr>" by (subst w2) simp
  have "fill_buffer sys a c w = Some (w1, Some (int (length (bytes hs))))"
    using c0 b1(1) a(2) by (simp add: fill_buffer_def Let_def w0_def[symmetric] w1_def conn_ok_def)
  then have "on_read sys x a c (k, w) = parse_http_message sys x c (k, w1)"
    using nz a(1) pos by (auto simp: on_read_def)
  also have "\<dots> = numbered (Suc k) (settle sys (w2\<lparr>app_rest := net\<rparr>)
        (serve (server_ext sys x) (smart_services (server_ext sys x)) k svc name body (w2\<lparr>app_rest := net\<rparr>)))"
    using m c0(3) by (simp add: parse_http_message_def Let_def net_def w2_def) (simp add: w1_def Let_def)
  finally have run: "on_read sys x a c (k, w) = numbered (Suc k) (settle sys (w\<lparr>app_rest := net\<rparr>)
        (serve (server_ext sys x) (smart_services (server_ext sys x)) k svc name body (w\<lparr>app_rest := net\<rparr>)))" unfolding w2' .
  have "net_ok net"
    using ok c0(1) buffer_cut_correct(1)[OF b1(2)] b1(2)
    by (auto simp: net_ok_def net_def w2_def w1_def w0_def conn_ok_def)
  moreover have "net_rest net = net_rest (app_rest w)" "net_wire net = net_wire (app_rest w)"
    "net_controls net = (net_controls (app_rest w))(k := (c, m))"
    by (simp_all add: net_def w2_def w1_def w0_def upd_app_def upd_conn_def)
  ultimately show ?thesis
    unfolding run using m(4,5,9) by (intro exI[of _ m] exI[of _ net]) simp
qed

subsection \<open>Logging in over TCP\<close>

definition redis_online :: "closure redis_proxy" where
  "redis_online = redis_proxy_new\<lparr>rp_context := True, rp_connected := True\<rparr>"

definition record_command :: "redis_command \<Rightarrow> redis_command list net \<Rightarrow> redis_command list net" where
  "record_command cmd net = net\<lparr>net_rest := net_rest net @ [cmd]\<rparr>"

lemma server_ext_fields:
  "ext_hiredis e = log_hiredis \<Longrightarrow> ext_hiredis (server_ext sys e) = (\<lambda>cmd c. (True, record_command cmd c))"
  "(\<And>c. ext_now e c = (now, c)) \<Longrightarrow> ext_now (server_ext sys e) net = (now, net)"
  "ext_md5_memory (server_ext sys e) = ext_md5_memory e" "ext_parse (server_ext sys e) = ext_parse e"
  by (simp_all add: server_ext_def on_rest_def log_hiredis_def record_command_def fun_eq_iff)

lemma record_fields [simp]:
  "net_ok (record_command cmd net) = net_ok net" "net_wire (record_command cmd net) = net_wire net"
  "net_controls (record_command cmd net) = net_controls net" "net_rest (record_command cmd net) = net_rest net @ [cmd]"
  by (simp_all add: record_command_def net_ok_def)

lemma settle_one:
  "app_sent w0 = [] \<Longrightarrow> app_sent w = [(n, j)] \<Longrightarrow> control_destroy sys (n, j) (app_rest w) = Some net \<Longrightarrow>
     settle sys w0 (Done w) = Done (w\<lparr>app_rest := net\<rparr>)"
  by (simp add: settle_def)

lemma accept_first:
  assumes m: "malloc_ok (sys_malloc sys)"
  shows "\<exists>net. tcp_step sys e (Accept (Accepted fd)) (tcp_start sys redis_online cs) = Done (0, app_online net)
    \<and> net_ok net \<and> fresh_conn (net_conns net 0) \<and> net_watched net 0 \<and> net_wire net = (\<lambda>_. []) \<and> net_rest net = cs"
proof -
  let ?net0 = "fst (tcp_prepare True 4 True 3 True (tcp_new sys cs))"
  let ?net = "(upd_conn 0 (\<lambda>_. new_connection sys fd) (?net0\<lparr>net_next := 1, net_map := (net_map ?net0)(fd := Some 0)\<rparr>))
      \<lparr>net_watched := (net_watched ?net0)(0 := True)\<rparr>"
  have "tcp_step sys e (Accept (Accepted fd)) (tcp_start sys redis_online cs) = Done (0, app_online ?net)"
    by (simp add: tcp_start_def tcp_prepare_def tcp_new_def on_accept_def Let_def upd_conn_def app_online_def app_new_def redis_online_def)
  moreover have "net_ok ?net" "fresh_conn (net_conns ?net 0)"
    using new_connection_ok[OF m] fresh_new[OF m, of fd] by (simp_all add: net_ok_def tcp_prepare_def tcp_new_def upd_conn_def)
  ultimately show ?thesis by (intro exI[of _ ?net] conjI) (simp_all add: tcp_prepare_def tcp_new_def upd_conn_def)
qed

text \<open>What the client sends, and the run of the server.\<close>

definition login_bytes :: "(string \<times> string) list \<Rightarrow> string \<Rightarrow> bytes" where
  "login_bytes hs body = request_head HTTP_POST ''/AccessService/Login'' hs @ body"

lemma login_run:
  assumes m: "malloc_ok (sys_malloc sys)" "eager sys"
    and e: "ext_hiredis e = log_hiredis" "\<And>c. ext_now e c = (now, c)" "length (fst (ext_md5_memory e)) = 64" "ext_parse e body = Inr request"
    and req: "j_find ''mobile'' request = Some (J_String mobile)" "j_find ''password'' request = Some (J_String password)"
      "plain mobile" "length (token_text mobile password now) < 4294967232"
    and a: "plain_event (Readable 0 a)" "ra_readv a = readv_of (login_bytes hs body)" "length (login_bytes hs body) < 8192"
      "request_ok HTTP_POST ''/AccessService/Login'' hs body"
  shows "\<exists>w m reply. tcp_run sys e [Accept (Accepted fd), Readable 0 a, Answer r] (tcp_start sys redis_online []) = Done (1, w)
    \<and> net_wire (app_rest w) 0 = take 8191 (response_text sys m reply) \<and> app_sent w = [(0, reply)]
    \<and> http_major m = 1 \<and> http_minor m = 1 \<and> map_of (msg_header_map (hp_data m)) = map_of (lower_headers hs)
    \<and> (if verdict r password
       then j_fields reply = [''code'' \<mapsto> J_Int 200, ''message'' \<mapsto> J_String ''success'',
              ''token'' \<mapsto> J_String (token_of mobile password now)]
          \<and> net_rest (app_rest w) = [Command_Line (''HGET '' @ mobile @ '' password''),
              Command_Line (''SETEX TOKEN_'' @ token_of mobile password now @ '' 3600 '' @ mobile)]
       else j_fields reply = [''code'' \<mapsto> J_Int 402, ''message'' \<mapsto> J_String ''mobile number/password is wrong'']
          \<and> net_rest (app_rest w) = [Command_Line (''HGET '' @ mobile @ '' password'')])"
proof -
  obtain net1 where n1: "tcp_step sys e (Accept (Accepted fd)) (tcp_start sys redis_online []) = Done (0, app_online net1)"
    "net_ok net1" "fresh_conn (net_conns net1 0)" "net_watched net1 0" "net_wire net1 = (\<lambda>_. [])" "net_rest net1 = []"
    using accept_first[OF m(1), of e fd "[]"] by blast
  let ?w1 = "app_online net1" and ?ext = "server_ext sys e"
  have rest1: "app_rest ?w1 = net1" by (simp add: app_online_def app_new_def)
  have chars: "\<forall>ch \<in> set (''AccessService'' @ ''Login''). IS_URL_CHAR ch" by code_simp
  have side: "CHR ''/'' \<notin> set ''Login''" "''Login'' \<noteq> []" "length ''AccessService'' + length ''Login'' < 65534" by simp_all
  let ?url = "CHR ''/'' # ''AccessService'' @ CHR ''/'' # ''Login''"
  have bytes: "ra_readv a = readv_of (request_head HTTP_POST ?url hs @ body)" "length (request_head HTTP_POST ?url hs @ body) < 8192"
    "request_ok HTTP_POST ?url hs body"
    using a(2-4) by (simp_all add: login_bytes_def)
  have ok1: "net_ok (app_rest ?w1)" "fresh_conn (conn_of ?w1 0)" using n1(2,3) by (simp_all add: rest1)
  obtain msg net2 where n2: "on_read sys e a 0 (0, ?w1) = numbered (Suc 0) (settle sys (?w1\<lparr>app_rest := net2\<rparr>)
        (serve ?ext (smart_services ?ext) 0 ''AccessService'' ''Login'' body (?w1\<lparr>app_rest := net2\<rparr>)))"
    "net_ok net2" "net_rest net2 = net_rest (app_rest ?w1)" "net_wire net2 = net_wire (app_rest ?w1)"
    "net_controls net2 = (net_controls (app_rest ?w1))(0 := (0, msg))"
    "http_major msg = 1" "http_minor msg = 1" "map_of (msg_header_map (hp_data msg)) = map_of (lower_headers hs)"
    using read_request[OF ok1 a(1) bytes chars side] by blast
  note n2w = n2(3,4)[unfolded rest1 n1(5,6)]
  have on2: "?w1\<lparr>app_rest := net2\<rparr> = app_online net2" by (simp add: app_online_def app_new_def)
  note ext = server_ext_fields(1)[OF e(1), of sys] server_ext_fields(2)[OF e(2), of sys]
  have par: "ext_parse ?ext body = Inr request" "length (fst (ext_md5_memory ?ext)) = 64" using e(3,4) by (simp_all add: server_ext_fields)
  let ?w3 = "(app_online net2)\<lparr>app_redis := push_callback (Logged_In mobile password 0) (app_redis (app_online net2)),
      app_rest := record_command (Command_Line (''HGET '' @ mobile @ '' password'')) net2\<rparr>"
  have s: "serve ?ext (smart_services ?ext) 0 ''AccessService'' ''Login'' body (app_online net2) = Done ?w3"
    by (rule serve_login[OF ext(1) par(1) req(1-3)])
  have sent: "app_sent ?w3 = []" "app_sent (app_online net2) = []" by (simp_all add: app_online_def app_new_def)
  have step2: "tcp_step sys e (Readable 0 a) (0, ?w1) = Done (1, ?w3)"
    using n1(4) by (simp add: n2(1) on2 s settle_def sent rest1)
  have w: "rp_callbacks (app_redis ?w3) = [Logged_In mobile password 0]" "rp_connected (app_redis ?w3)" "rp_context (app_redis ?w3)"
    "app_responses ?w3 0 = J_Null"
    by (simp_all add: app_online_def app_new_def redis_proxy_new_def push_callback_def)
  have rest3: "app_rest ?w3 = record_command (Command_Line (''HGET '' @ mobile @ '' password'')) net2" by simp
  obtain w4 reply where w4: "redis_answer ?ext (Some r) ?w3 = Done w4" "app_sent w4 = [(0, reply)]"
    and v: "if verdict r password
       then j_fields reply = [''code'' \<mapsto> J_Int 200, ''message'' \<mapsto> J_String ''success'',
              ''token'' \<mapsto> J_String (token_of mobile password now)]
          \<and> app_rest w4 = record_command (Command_Line (''SETEX TOKEN_'' @ token_of mobile password now @ '' 3600 '' @ mobile)) (app_rest ?w3)
       else j_fields reply = [''code'' \<mapsto> J_Int 402, ''message'' \<mapsto> J_String ''mobile number/password is wrong'']
          \<and> app_rest w4 = app_rest ?w3"
    using answer_login[OF ext(1,2) par(2) req(3,4) w sent(1), of r] by blast
  have w4n: "net_ok (app_rest w4)" "net_wire (app_rest w4) = (\<lambda>_. [])" "net_controls (app_rest w4) = net_controls net2"
    using v n2(2) n2w by (simp_all add: rest3 split: if_splits)
  obtain net5 where n5: "control_destroy sys (0, reply) (app_rest w4) = Some net5" "net_rest net5 = net_rest (app_rest w4)"
    "net_wire net5 0 = take 8191 (response_text sys msg reply)"
    using control_destroy_ok[OF w4n(1) m(2), of 0 reply] by (auto simp: w4n(2,3) n2(5) replies_def)
  have step3: "tcp_step sys e (Answer r) (1, ?w3) = Done (1, w4\<lparr>app_rest := net5\<rparr>)"
    unfolding tcp_step.simps w4(1) settle_one[OF sent(1) w4(2) n5(1)] by simp
  have run: "tcp_run sys e [Accept (Accepted fd), Readable 0 a, Answer r] (tcp_start sys redis_online []) = Done (1, w4\<lparr>app_rest := net5\<rparr>)"
    unfolding tcp_run.simps n1(1) after.simps step2 step3 by (rule refl)
  show ?thesis
    using v n5(2,3) w4(2) n2w n2(6-8)
    by (intro exI[of _ "w4\<lparr>app_rest := net5\<rparr>"] exI[of _ msg] exI[of _ reply] conjI run) (simp_all add: rest3 split: if_splits)
qed

subsection \<open>A message that does not parse\<close>

definition message_of :: "connection \<Rightarrow> http_message http_parser" where
  "message_of conn = (case cn_msg conn of None \<Rightarrow> http_message_new | Some m \<Rightarrow> m)"

definition stuck :: "'x net app \<Rightarrow> nat \<Rightarrow> bool" where
  "stuck w c \<longleftrightarrow> (\<exists>m. cn_msg (conn_of w c) = Some m \<and> hp_errno m \<noteq> HPE_OK) \<and> contents (cn_in (conn_of w c)) \<noteq> []"

lemma parse_fails:
  assumes ok: "server_ok sys (k, w)" and p: "http_message_parse (sys_junk sys) (cn_in (conn_of w c)) (message_of (conn_of w c)) = Some (ret, m)"
    "ret < 0"
  shows "\<exists>w1. parse_http_message sys x c (k, w) = Done (k, w1) \<and> server_ok sys (k, w1) \<and> stuck w1 c \<and> app_sent w1 = app_sent w
    \<and> net_wire (app_rest w1) = net_wire (app_rest w) \<and> net_watched (app_rest w1) = net_watched (app_rest w)"
proof -
  have c: "conn_ok (conn_of w c)" using ok by (simp add: server_ok_def net_ok_def)
  then have cb: "buf_ok 13 (cn_in (conn_of w c))" "parser_inv (message_of (conn_of w c))"
    using http_message_new_inv by (auto simp: conn_ok_def message_of_def split: option.splits)
  have m: "parser_inv m" "hp_errno m \<noteq> HPE_OK" "contents (cn_in (conn_of w c)) \<noteq> []"
  proof -
    obtain ds where ds: "gather (buf_ring (cn_in (conn_of w c))) (strs (cn_in (conn_of w c))) = Some ds" "concat ds = contents (cn_in (conn_of w c))"
      using strs_views[OF cb(1)] gather_views by metis
    have s: "parse_slices (sys_junk sys) ds 0 (message_of (conn_of w c)) = Some (ret, m)"
      using p(1) ds(1) by (simp add: http_message_parse_def)
    have "parse_slices (sys_junk sys) ds 0 m' = Some (int 0, set_message (\<lambda>x. x\<lparr>msg_parsed_length := msg_parsed_length x + 0\<rparr>) m')"
      if "concat ds = []" for m' using that by (induction ds) auto
    then show "contents (cn_in (conn_of w c)) \<noteq> []" using s p(2) ds(2) by fastforce
    have "parser_inv m \<and> hp_errno m \<noteq> HPE_OK"
    proof (cases "hp_errno (message_of (conn_of w c)) = HPE_OK")
      case True
      then show ?thesis using parse_slices_ok[OF cb(2) True, of "sys_junk sys" ds 0] s p(2) by (auto simp: parse_result_ok_def)
    next
      case False
      then show ?thesis using message_parse_total[OF cb, of "sys_junk sys"] p(1) by auto
    qed
    then show "parser_inv m" "hp_errno m \<noteq> HPE_OK" by simp_all
  qed
  let ?w1 = "upd_app c (cn_msg_update (\<lambda>_. Some m)) w"
  have "parse_http_message sys x c (k, w) = Done (k, ?w1)"
    using p by (simp add: parse_http_message_def message_of_def Let_def)
  moreover have "server_ok sys (k, ?w1)" by (rule server_ok_upd[OF ok]) (use c m(1) in \<open>simp add: conn_ok_def\<close>)
  ultimately show ?thesis using m(2,3) by (intro exI[of _ ?w1]) (simp add: stuck_def)
qed

lemma parse_stuck:
  assumes ok: "server_ok sys (k, w)" and s: "stuck w c"
  shows "\<exists>w1. parse_http_message sys x c (k, w) = Done (k, w1) \<and> server_ok sys (k, w1) \<and> stuck w1 c \<and> app_sent w1 = app_sent w
    \<and> net_wire (app_rest w1) = net_wire (app_rest w) \<and> net_watched (app_rest w1) = net_watched (app_rest w)"
proof -
  obtain m where m: "cn_msg (conn_of w c) = Some m" "hp_errno m \<noteq> HPE_OK" "contents (cn_in (conn_of w c)) \<noteq> []"
    using s by (auto simp: stuck_def)
  have "buf_ok 13 (cn_in (conn_of w c))" "parser_inv m" using ok m(1) by (auto simp: server_ok_def net_ok_def conn_ok_def)
  from message_parse_total[OF this, of "sys_junk sys"] obtain m' where
    "http_message_parse (sys_junk sys) (cn_in (conn_of w c)) (message_of (conn_of w c)) = Some (- 1, m')"
    using m by (auto simp: message_of_def)
  from parse_fails[OF ok this] show ?thesis by simp
qed

lemma read_stuck:
  assumes ok: "server_ok sys (k, w)" and s: "stuck w c" and a: "plain_event (Readable c a)"
  shows "\<exists>w'. on_read sys x a c (k, w) = Done (k, w') \<and> server_ok sys (k, w') \<and> app_sent w' = app_sent w
    \<and> net_wire (app_rest w') = net_wire (app_rest w) \<and> (stuck w' c \<or> \<not> net_watched (app_rest w') c)"
proof -
  obtain w1 where w1: "(if writable_bytes (cn_in (conn_of w c)) = 0 then parse_http_message sys x c (k, w) else Done (k, w)) = Done (k, w1)"
    "server_ok sys (k, w1)" "stuck w1 c" "app_sent w1 = app_sent w" "net_wire (app_rest w1) = net_wire (app_rest w)"
    using parse_stuck[OF ok s, of x] ok s by (cases "writable_bytes (cn_in (conn_of w c)) = 0") auto
  obtain w2 nr where w2: "fill_buffer sys a c w1 = Some (w2, Some nr)" "server_ok sys (k, w2)" "app_sent w2 = app_sent w1"
    "net_wire (app_rest w2) = net_wire (app_rest w1)" "cn_msg (conn_of w2 c) = cn_msg (conn_of w1 c)"
    "0 < nr \<longrightarrow> contents (cn_in (conn_of w2 c)) \<noteq> []"
    using fill_plain[OF w1(2), of a c] a by auto
  have run: "on_read sys x a c (k, w) = (if nr \<le> 0 then Done (k, close_conn c w2) else parse_http_message sys x c (k, w2))"
    using w1(1) w2(1) a by (auto simp: on_read_def)
  show ?thesis
  proof (cases "nr \<le> 0")
    case True
    then show ?thesis using close_ok[OF w2(2), of c] w1(4,5) w2(3,4) by (simp add: run close_conn_def)
  next
    case False
    then have "stuck w2 c" using w1(3) w2(5,6) by (auto simp: stuck_def)
    from parse_stuck[OF w2(2) this, of x] show ?thesis using False w1(4,5) w2(3,4) by (auto simp: run)
  qed
qed

lemma run_stuck:
  "list_all (\<lambda>ev. \<exists>a. ev = Readable c a \<and> plain_event ev) evs \<Longrightarrow> server_ok sys (k, w) \<Longrightarrow> stuck w c \<or> \<not> net_watched (app_rest w) c \<Longrightarrow>
    \<exists>w'. tcp_run sys x evs (k, w) = Done (k, w') \<and> app_sent w' = app_sent w \<and> net_wire (app_rest w') = net_wire (app_rest w)"
proof (induction evs arbitrary: w)
  case (Cons ev evs)
  obtain a where ev: "ev = Readable c a" "plain_event (Readable c a)" using Cons.prems(1) by auto
  have rest: "list_all (\<lambda>ev. \<exists>a. ev = Readable c a \<and> plain_event ev) evs" using Cons.prems(1) by simp
  show ?case
  proof (cases "net_watched (app_rest w) c")
    case True
    then obtain w1 where w1: "on_read sys x a c (k, w) = Done (k, w1)" "server_ok sys (k, w1)" "app_sent w1 = app_sent w"
      "net_wire (app_rest w1) = net_wire (app_rest w)" "stuck w1 c \<or> \<not> net_watched (app_rest w1) c"
      using read_stuck[OF Cons.prems(2) _ ev(2), of x] Cons.prems(3) by blast
    from Cons.IH[OF rest w1(2,5)] show ?thesis using True w1(1,3,4) by (simp add: ev(1))
  next
    case False
    then show ?thesis using Cons.IH[OF rest Cons.prems(2)] by (simp add: ev(1))
  qed
qed simp

subsection \<open>An example\<close>

text \<open>A client that sends these bytes at once.\<close>

definition demo_read :: "bytes \<Rightarrow> read_args" where
  "demo_read d = \<lparr>ra_peek = take 2 d, ra_header = take 6 d, ra_readv = readv_of d, ra_session = False, ra_ssl_error = 0\<rparr>"

definition demo_login :: bytes where
  "demo_login = login_bytes [(''Content-Length'', ''2'')] ''{}''"

lemma demo_login_ok:
  "plain_event (Readable 0 (demo_read demo_login))" "ra_readv (demo_read demo_login) = readv_of demo_login" "length demo_login < 8192"
  "request_ok HTTP_POST ''/AccessService/Login'' [(''Content-Length'', ''2'')] ''{}''"
proof -
  have t: "take 6 demo_login = ''POST /''" "length demo_login < 100" by code_simp+
  have t2: "take 2 demo_login = ''PO''" using arg_cong[OF t(1), of "take 2"] by simp
  have c: "code CHR ''P'' = 80" by (simp add: code_def)
  have "readv_ok (readv_of demo_login)" by (rule readv_of_ok)
  then show "plain_event (Readable 0 (demo_read demo_login))"
    unfolding plain_event.simps demo_read_def read_args.simps t(1) t2 by (simp add: is_ssl_def c)
  show "ra_readv (demo_read demo_login) = readv_of demo_login" by (simp add: demo_read_def)
  show "length demo_login < 8192" using t(2) by simp
  have "foldl parse_url_char s_req_spaces_before_url ''/AccessService/Login'' \<in> url_end_states" by code_simp
  moreover have "headers_ok 2 [(''Content-Length'', ''2'')]" by code_simp
  moreover have "length_header 2 (''Content-Length'', ''2'')" by code_simp
  moreover have "length (request_head HTTP_POST ''/AccessService/Login'' [(''Content-Length'', ''2'')]) < 100" by code_simp
  ultimately show "request_ok HTTP_POST ''/AccessService/Login'' [(''Content-Length'', ''2'')] ''{}''"
    by (simp add: request_ok_def numeral_2_eq_2 del: foldl.simps headers_ok.simps)
qed

lemma demo_eager: "eager demo_sys"
  using demo_writev(2) by (simp add: eager_def)

lemma demo_account:
  "ext_hiredis demo_ext = log_hiredis" "\<And>c. ext_now demo_ext c = (''0'', c)" "length (fst (ext_md5_memory demo_ext)) = 64"
  "ext_parse demo_ext ''{}'' = Inr demo_body" "j_find ''mobile'' demo_body = Some (J_String ''185'')"
  "j_find ''password'' demo_body = Some (J_String ''pw'')" "plain ''185''" "length (token_text ''185'' ''pw'' ''0'') < 4294967232"
  "verdict (Reply_String ''pw'') ''pw''" "list_all plain_event [Accept (Accepted 7), Readable 0 (demo_read demo_login), Answer r]"
  using demo_login_ok(1)
  by (simp_all add: demo_ext_def demo_body_def plain_def nul_char token_text_def private_key_def verdict_def c_str_def del: plain_event.simps(1))

lemmas demo_login_run = login_run[OF demo_malloc demo_eager demo_account(1-8) demo_login_ok(1-3)[unfolded demo_login_def]
    demo_login_ok(4), of 7 "Reply_String ''pw''"]

text \<open>A byte no method begins with.\<close>

lemma bad_byte: "case http_parser_execute (parser_settings http_parser_url_init) ''@'' http_message_new of
    None \<Rightarrow> False | Some (n, m) \<Rightarrow> hp_errno m \<noteq> HPE_OK"
  by code_simp

lemma bad_parse:
  assumes "buf_ok k b" "contents b = ''@''"
  shows "\<exists>m. http_message_parse http_parser_url_init b http_message_new = Some (- 1, m)"
proof -
  obtain ds where ds: "gather (buf_ring b) (strs b) = Some ds" "concat ds = ''@''"
    using strs_views[OF assms(1)] gather_views assms(2) by metis
  have "\<exists>m. parse_slices http_parser_url_init ds 0 http_message_new = Some (- 1, m)"
    using ds(2)
  proof (induction ds)
    case (Cons d ds)
    show ?case
    proof (cases "d = []")
      case False
      then have "d = ''@''" using Cons.prems by (cases d) auto
      then show ?thesis using bad_byte by (auto split: option.splits prod.splits)
    qed (use Cons in simp)
  qed simp
  then show ?thesis by (simp add: http_message_parse_def ds(1))
qed

subsection \<open>Properties\<close>



text \<open>C1: Logging in over TCP. A client connects, sends a well-formed request for \<open>/AccessService/Login\<close> and
  Redis answers: the server asks Redis for the password of the mobile number in the body and, when the
  answer is the password of the body, stores a token for an hour and writes a response with code 200 and
  this token to the socket of the client; otherwise it stores nothing and writes one with code 402. The
  response carries the HTTP version and the headers of the request.\<close>

theorem login_over_tcp:
  assumes "malloc_ok (sys_malloc sys)" and "eager sys"
    and "ext_hiredis e = log_hiredis" and "\<And>c. ext_now e c = (now, c)" and "length (fst (ext_md5_memory e)) = 64"
    and "ext_parse e body = Inr request" and "j_find ''mobile'' request = Some (J_String mobile)"
    and "j_find ''password'' request = Some (J_String password)" and "plain mobile" and "length (token_text mobile password now) < 4294967232"
    and "plain_event (Readable 0 a)" and "ra_readv a = readv_of (login_bytes hs body)" and "length (login_bytes hs body) < 8192"
    and "request_ok HTTP_POST ''/AccessService/Login'' hs body"
  shows "\<exists>w m reply. tcp_run sys e [Accept (Accepted fd), Readable 0 a, Answer r] (tcp_start sys redis_online []) = Done (1, w)
    \<and> net_wire (app_rest w) 0 = take 8191 (response_text sys m reply)
    \<and> http_major m = 1 \<and> http_minor m = 1 \<and> map_of (msg_header_map (hp_data m)) = map_of (lower_headers hs)
    \<and> (if verdict r password
       then j_fields reply = [''code'' \<mapsto> J_Int 200, ''message'' \<mapsto> J_String ''success'',
              ''token'' \<mapsto> J_String (token_of mobile password now)]
          \<and> net_rest (app_rest w) = [Command_Line (''HGET '' @ mobile @ '' password''),
              Command_Line (''SETEX TOKEN_'' @ token_of mobile password now @ '' 3600 '' @ mobile)]
       else j_fields reply = [''code'' \<mapsto> J_Int 402, ''message'' \<mapsto> J_String ''mobile number/password is wrong'']
          \<and> net_rest (app_rest w) = [Command_Line (''HGET '' @ mobile @ '' password'')])"
  using login_run[OF assms, of fd r] by blast

theorem login_over_tcp_witness:
  "\<exists>w m reply. tcp_run demo_sys demo_ext [Accept (Accepted 7), Readable 0 (demo_read demo_login), Answer (Reply_String ''pw'')]
      (tcp_start demo_sys redis_online []) = Done (1, w)
    \<and> net_wire (app_rest w) 0 = take 8191 (response_text demo_sys m reply)
    \<and> j_fields reply = [''code'' \<mapsto> J_Int 200, ''message'' \<mapsto> J_String ''success'', ''token'' \<mapsto> J_String (token_of ''185'' ''pw'' ''0'')]"
  using login_over_tcp[OF demo_malloc demo_eager demo_account(1-8) demo_login_ok(1-3)[unfolded demo_login_def]
    demo_login_ok(4), of 7 "Reply_String ''pw''"]
  unfolding demo_login_def[symmetric] if_P[OF demo_account(9)] by blast



end
