(* ===== verification/Service_Pool.thy ===== *)
theory Service_Pool
  imports Tcp_Service Mpmc_Queue
begin

section \<open>The server with threads\<close>

text \<open>
  The other server (\<open>service/\<close>) has threads that read connections (\<open>tcp_reader.cpp\<close>) and threads that
  serve requests (\<open>service_pool.cpp\<close>). Both kinds get their work in the same way: the producer pushes it
  into a queue and adds one to an \<open>eventfd\<close>; a thread that is woken takes the count and pops as often. The
  threads interleave at these accesses. The queue is that of the theory \<open>Mpmc_Queue\<close>, where its commit is
  the moment an element becomes visible; it holds 1024 elements, and the result of a push is not looked at.
\<close>

subsection \<open>A pool of threads\<close>

text \<open>
  \<open>wp_signals\<close> is the number of producers between the push and the write to the \<open>eventfd\<close>; a thread of the
  pool has a number of pops left, none when it waits in its loop.
\<close>

record 'a work_pool =
  wp_queue :: "'a list"
  wp_counter :: nat
  wp_signals :: nat
  wp_threads :: "nat list"
  wp_taken :: "'a list"
  wp_lost :: "'a list"

definition pool_new :: "nat \<Rightarrow> 'a work_pool" where
  "pool_new n = \<lparr>wp_queue = [], wp_counter = 0, wp_signals = 0, wp_threads = replicate n 0, wp_taken = [], wp_lost = []\<rparr>"

datatype 'a pool_act = Push 'a | Signal | Wake nat | Pop nat

text \<open>
  \<open>ServicePool::send\<close> (and \<open>TcpReaderPool::push\<close>) is \<open>Push\<close> and \<open>Signal\<close>; the read function of a thread is
  \<open>Wake\<close>, its \<open>eventfd_read\<close>, which fails when the count is zero, and a \<open>Pop\<close> for each turn of its loop,
  which ends when the queue is empty. A step that the code cannot take is \<^const>\<open>None\<close>.
\<close>

fun pool_step :: "'a pool_act \<Rightarrow> 'a work_pool \<Rightarrow> 'a work_pool option" where
  "pool_step (Push x) p =
     (if length (wp_queue p) < DEFAULT_RING_BUFFER_SIZE - 1
      then Some (p\<lparr>wp_queue := wp_queue p @ [x], wp_signals := wp_signals p + 1\<rparr>)
      else Some (p\<lparr>wp_lost := wp_lost p @ [x], wp_signals := wp_signals p + 1\<rparr>))"
| "pool_step Signal p =
     (if wp_signals p = 0 then None else Some (p\<lparr>wp_signals := wp_signals p - 1, wp_counter := wp_counter p + 1\<rparr>))"
| "pool_step (Wake i) p =
     (if i < length (wp_threads p) \<and> wp_threads p ! i = 0
      then Some (p\<lparr>wp_threads := (wp_threads p)[i := wp_counter p], wp_counter := 0\<rparr>) else None)"
| "pool_step (Pop i) p =
     (if i < length (wp_threads p) \<and> 0 < wp_threads p ! i
      then (case wp_queue p of
              [] \<Rightarrow> Some (p\<lparr>wp_threads := (wp_threads p)[i := 0]\<rparr>)
            | x # xs \<Rightarrow> Some (p\<lparr>wp_queue := xs, wp_taken := wp_taken p @ [x], wp_threads := (wp_threads p)[i := wp_threads p ! i - 1]\<rparr>))
      else None)"

fun pool_run :: "'a pool_act list \<Rightarrow> 'a work_pool \<Rightarrow> 'a work_pool option" where
  "pool_run [] p = Some p"
| "pool_run (a # as) p = (case pool_step a p of None \<Rightarrow> None | Some p1 \<Rightarrow> pool_run as p1)"

text \<open>Nothing is under way: all threads wait, and their loop would not wake one.\<close>

definition pool_quiet :: "'a work_pool \<Rightarrow> bool" where
  "pool_quiet p \<longleftrightarrow> wp_counter p = 0 \<and> wp_signals p = 0 \<and> (\<forall>n \<in> set (wp_threads p). n = 0)"

definition pushed_work :: "'a pool_act list \<Rightarrow> 'a list" where
  "pushed_work as = concat (map (\<lambda>a. case a of Push x \<Rightarrow> [x] | _ \<Rightarrow> []) as)"

text \<open>There is a wake-up for every element.\<close>

definition pool_inv :: "'a work_pool \<Rightarrow> bool" where
  "pool_inv p \<longleftrightarrow> length (wp_queue p) \<le> wp_counter p + wp_signals p + sum_list (wp_threads p)"

lemma pool_step_inv: "pool_step a p = Some p' \<Longrightarrow> pool_inv p \<Longrightarrow> pool_inv p'"
proof (induction a p rule: pool_step.induct)
  case (3 i p)
  then show ?case by (auto simp: pool_inv_def sum_list_update split: if_splits)
next
  case (4 i p)
  moreover have "wp_threads p ! i \<le> sum_list (wp_threads p)" if "i < length (wp_threads p)"
    using that by (simp add: member_le_sum_list)
  ultimately show ?case by (auto simp: pool_inv_def sum_list_update split: if_splits list.splits)
qed (auto simp: pool_inv_def split: if_splits)

text \<open>What has been pushed is taken in this order, waits, or found the queue full.\<close>

lemma pool_run_conserves:
  "pool_run as p = Some p' \<Longrightarrow> pool_inv p \<Longrightarrow> pool_inv p'
     \<and> mset (wp_taken p' @ wp_queue p' @ wp_lost p') = mset (wp_taken p @ wp_queue p @ wp_lost p) + mset (pushed_work as)
     \<and> (\<exists>xs. subseq xs (pushed_work as) \<and> wp_taken p' @ wp_queue p' = wp_taken p @ wp_queue p @ xs
          \<and> (wp_lost p' = wp_lost p \<longrightarrow> xs = pushed_work as))"
proof (induction as arbitrary: p)
  case Nil
  then show ?case by (auto simp: pushed_work_def)
next
  case (Cons a as)
  obtain p1 where p1: "pool_step a p = Some p1" "pool_run as p1 = Some p'" using Cons.prems(1) by (auto split: option.splits)
  have inv: "pool_inv p1" by (rule pool_step_inv[OF p1(1) Cons.prems(2)])
  obtain xs where ih: "pool_inv p'" "mset (wp_taken p' @ wp_queue p' @ wp_lost p') = mset (wp_taken p1 @ wp_queue p1 @ wp_lost p1) + mset (pushed_work as)"
    "subseq xs (pushed_work as)" "wp_taken p' @ wp_queue p' = wp_taken p1 @ wp_queue p1 @ xs" "wp_lost p' = wp_lost p1 \<longrightarrow> xs = pushed_work as"
    using Cons.IH[OF p1(2) inv] by blast
  have lost: "\<exists>ys. wp_lost p' = wp_lost p1 @ ys" using p1(2)
  proof (induction as arbitrary: p1)
    case (Cons b bs)
    obtain p2 where "pool_step b p1 = Some p2" "pool_run bs p2 = Some p'" using Cons.prems by (auto split: option.splits)
    moreover have "\<exists>ys. wp_lost p2 = wp_lost p1 @ ys"
      using calculation(1) by (cases b) (auto split: if_splits list.splits)
    ultimately show ?case using Cons.IH by fastforce
  qed simp
  show ?case
  proof (cases a)
    case (Push x)
    then have q: "pushed_work (a # as) = x # pushed_work as" by (simp add: pushed_work_def)
    show ?thesis
    proof (cases "length (wp_queue p) < DEFAULT_RING_BUFFER_SIZE - 1")
      case True
      then have e: "wp_queue p1 = wp_queue p @ [x]" "wp_taken p1 = wp_taken p" "wp_lost p1 = wp_lost p" using p1(1) Push by auto
      show ?thesis using ih e q by (intro conjI exI[of _ "x # xs"]) auto
    next
      case False
      then have e: "wp_queue p1 = wp_queue p" "wp_taken p1 = wp_taken p" "wp_lost p1 = wp_lost p @ [x]" using p1(1) Push by auto
      have "wp_lost p' \<noteq> wp_lost p" using lost e(3) by auto
      then show ?thesis using ih e q by (intro conjI exI[of _ xs]) auto
    qed
  next
    case (Pop i)
    then have "pushed_work (a # as) = pushed_work as" by (simp add: pushed_work_def)
    then show ?thesis using ih p1(1) Pop by (auto split: if_splits list.splits)
  qed (use ih p1(1) in \<open>auto simp: pushed_work_def split: if_splits\<close>)
qed

lemma pool_new_inv: "pool_inv (pool_new n)"
  by (simp add: pool_inv_def pool_new_def)

text \<open>As long as something is under way a step is possible that is no push, and there are finitely many of them.\<close>

definition pool_measure :: "'a work_pool \<Rightarrow> nat" where
  "pool_measure p = 3 * wp_signals p + 2 * wp_counter p + sum_list (wp_threads p)"

lemma pool_progress:
  assumes "\<not> pool_quiet p" "wp_threads p \<noteq> []"
  shows "\<exists>a p1. pool_step a p = Some p1 \<and> (\<forall>x. a \<noteq> Push x) \<and> pool_measure p1 < pool_measure p \<and> wp_threads p1 \<noteq> []"
proof (cases "wp_signals p = 0")
  case False
  then show ?thesis using assms(2) by (intro exI[of _ Signal]) (simp add: pool_measure_def)
next
  case sig: True
  show ?thesis
  proof (cases "\<exists>i < length (wp_threads p). 0 < wp_threads p ! i")
    case True
    then obtain i where i: "i < length (wp_threads p)" "0 < wp_threads p ! i" by blast
    have "wp_threads p ! i \<le> sum_list (wp_threads p)" using i(1) by (simp add: member_le_sum_list)
    then show ?thesis
      using i assms(2) by (cases "wp_queue p") (auto intro!: exI[of _ "Pop i"] simp: pool_measure_def sum_list_update)
  next
    case False
    then have zero: "\<forall>n \<in> set (wp_threads p). n = 0" by (auto simp: in_set_conv_nth)
    then have "0 < wp_counter p" using sig assms(1) by (simp add: pool_quiet_def)
    moreover have "wp_threads p ! 0 = 0" using zero assms(2) by simp
    ultimately show ?thesis
      using assms(2) by (intro exI[of _ "Wake 0"]) (simp add: pool_measure_def sum_list_update)
  qed
qed

lemma pool_settles:
  "wp_threads p \<noteq> [] \<Longrightarrow> \<exists>bs p'. pool_run bs p = Some p' \<and> pool_quiet p' \<and> pushed_work bs = []"
proof (induction "pool_measure p" arbitrary: p rule: less_induct)
  case less
  show ?case
  proof (cases "pool_quiet p")
    case True
    then show ?thesis by (intro exI[of _ "[]"]) (simp add: pushed_work_def)
  next
    case False
    obtain a p1 where a: "pool_step a p = Some p1" "\<forall>x. a \<noteq> Push x" "pool_measure p1 < pool_measure p" "wp_threads p1 \<noteq> []"
      using pool_progress[OF False less.prems] by blast
    obtain bs p' where "pool_run bs p1 = Some p'" "pool_quiet p'" "pushed_work bs = []" using less.hyps[OF a(3,4)] by blast
    then show ?thesis using a(1,2) by (intro exI[of _ "a # bs"] exI[of _ p']) (auto simp: pushed_work_def split: pool_act.split)
  qed
qed

lemma pool_run_threads: "pool_run as p = Some p' \<Longrightarrow> length (wp_threads p') = length (wp_threads p)"
proof (induction as arbitrary: p)
  case (Cons a as)
  obtain p1 where p1: "pool_step a p = Some p1" "pool_run as p1 = Some p'" using Cons.prems by (auto split: option.splits)
  have "length (wp_threads p1) = length (wp_threads p)" using p1(1) by (cases a) (auto split: if_splits list.splits)
  then show ?case using Cons.IH[OF p1(2)] by simp
qed simp

lemma quiet_empty: "pool_inv p \<Longrightarrow> pool_quiet p \<Longrightarrow> wp_queue p = []"
proof -
  assume "pool_inv p" "pool_quiet p"
  moreover have "sum_list (wp_threads p) = 0" using calculation(2) unfolding pool_quiet_def sum_list_eq_0_iff by blast
  ultimately show ?thesis by (simp add: pool_inv_def pool_quiet_def)
qed

definition EAGAIN :: int where "EAGAIN = 11"

subsection \<open>Accepting\<close>

text \<open>
  The read function of the listening socket (\<open>TcpService::prepare\<close>); \<open>as i\<close> is the result of its \<open>i\<close>-th
  \<open>accept\<close>, and the descriptors are those of the connections it pushes. Only \<open>EAGAIN\<close> ends the loop; an
  error that \<open>rpc::accept\<close> throws leaves the function.
\<close>

partial_function (option) accept_loop :: "(nat \<Rightarrow> accept_result) \<Rightarrow> nat \<Rightarrow> int list \<Rightarrow> int list result option" where
  "accept_loop as i fds =
     (case as i of
        Accepted fd \<Rightarrow> accept_loop as (i + 1) (fds @ [fd])
      | Accept_Failed err idle \<Rightarrow>
          if err \<in> fatal_errors then Some (Threw ''socket: accept fd '' fds)
          else if err = EAGAIN then Some (Done fds)
          else accept_loop as (i + 1) fds)"

fun ends_accept :: "accept_result \<Rightarrow> bool" where
  "ends_accept (Accepted fd) = False"
| "ends_accept (Accept_Failed err idle) = (err \<in> insert EAGAIN fatal_errors)"

definition accepted :: "accept_result list \<Rightarrow> int list" where
  "accepted rs = concat (map (\<lambda>r. case r of Accepted fd \<Rightarrow> [fd] | Accept_Failed err idle \<Rightarrow> []) rs)"

lemma accept_loop_ends:
  assumes "accept_loop as i fds = Some r"
  shows "\<exists>n \<ge> i. ends_accept (as n)"
proof (rule accept_loop.raw_induct[of "\<lambda>as i fds r. \<exists>n \<ge> i. ends_accept (as n)", OF _ assms])
  fix f :: "(nat \<Rightarrow> accept_result) \<Rightarrow> nat \<Rightarrow> int list \<Rightarrow> int list result option" and as i fds r
  assume IH: "\<And>as i fds r. f as i fds = Some r \<Longrightarrow> \<exists>n \<ge> i. ends_accept (as n)"
    and run: "(case as i of Accepted fd \<Rightarrow> f as (i + 1) (fds @ [fd])
      | Accept_Failed err idle \<Rightarrow>
          if err \<in> fatal_errors then Some (Threw ''socket: accept fd '' fds)
          else if err = EAGAIN then Some (Done fds) else f as (i + 1) fds) = Some r"
  show "\<exists>n \<ge> i. ends_accept (as n)"
  proof (cases "ends_accept (as i)")
    case False
    then obtain fds' where "f as (i + 1) fds' = Some r" using run by (cases "as i") (auto split: if_splits)
    from IH[OF this] show ?thesis by (auto intro: Suc_leD)
  qed auto
qed

lemma accept_loop_skips:
  "(\<And>j. j < n \<Longrightarrow> \<not> ends_accept (as (i + j))) \<Longrightarrow>
     accept_loop as i fds = accept_loop as (i + n) (fds @ accepted (map as [i..<i + n]))"
proof (induction n)
  case (Suc n)
  have "\<not> ends_accept (as (i + n))" using Suc.prems by simp
  then have "accept_loop as (i + n) xs = accept_loop as (i + Suc n) (xs @ accepted [as (i + n)])" for xs
    by (subst accept_loop.simps) (cases "as (i + n)"; simp add: accepted_def)
  then show ?case using Suc by (simp add: accepted_def)
qed (simp add: accepted_def)

subsection \<open>Reading a connection\<close>

type_synonym letter = "http_message http_parser"

text \<open>
  The lambda \<open>parse_http_message\<close>: the number it cuts is a \<open>size_t\<close>, so that after a parse error the cut of
  -1 takes everything. A complete message leaves as a letter.
\<close>

definition reader_parse :: "url \<Rightarrow> connection \<times> letter list \<Rightarrow> (connection \<times> letter list) option" where
  "reader_parse junk s =
     (case s of (conn, sent) \<Rightarrow> do {
        let m = (case cn_msg conn of None \<Rightarrow> http_message_new | Some m \<Rightarrow> m);
        (n, m1) \<leftarrow> http_message_parse junk (cn_in conn) m;
        let conn1 = conn\<lparr>cn_in := fst (buffer_cut (cn_in conn) (word_of_int n))\<rparr>;
        if http_message_completed m1 then Some (conn1\<lparr>cn_msg := None\<rparr>, sent @ [m1])
        else Some (conn1\<lparr>cn_msg := Some m1\<rparr>, sent) })"

text \<open>
  The loop of the read function; \<open>rs i\<close> answers its \<open>i\<close>-th read. \<open>append_from_fd\<close> gives -2 for no state of
  the buffer, so a full one, for which it gives 0, ends the loop.
\<close>

partial_function (option) reader_loop ::
  "url \<Rightarrow> (nat \<Rightarrow> readv_fn) \<Rightarrow> nat \<Rightarrow> int \<Rightarrow> connection \<times> letter list \<Rightarrow> ((connection \<times> letter list) \<times> int \<times> int) option" where
  "reader_loop junk rs i err s = do {
     (b, n, e) \<leftarrow> append_from_fd True (rs i) (cn_in (fst s));
     let err1 = (case e of None \<Rightarrow> err | Some x \<Rightarrow> x);
     let s1 = ((fst s)\<lparr>cn_in := b\<rparr>, snd s);
     if n = -2 then do { s2 \<leftarrow> reader_parse junk s1; reader_loop junk rs (i + 1) err1 s2 }
     else if n \<le> 0 then Some (s1, n, err1)
     else reader_loop junk rs (i + 1) err1 s1 }"

text \<open>The read function: the first component of its result says that the connection has been closed.\<close>

definition reader_read :: "url \<Rightarrow> (nat \<Rightarrow> readv_fn) \<Rightarrow> connection \<times> letter list \<Rightarrow> (bool \<times> connection \<times> letter list) option" where
  "reader_read junk rs s = do {
     (s1, n, err) \<leftarrow> reader_loop junk rs 0 0 s;
     if n = 0 \<or> (n < 0 \<and> err \<noteq> EAGAIN) then Some (True, s1)
     else do { s2 \<leftarrow> reader_parse junk s1; Some (False, s2) } }"

text \<open>A socket with bytes that come in these pieces, and no more for now.\<close>

definition readv_pieces :: "bytes list \<Rightarrow> nat \<Rightarrow> readv_fn" where
  "readv_pieces ds i = (if i < length ds then readv_of (ds ! i) else (\<lambda>lens. \<lparr>rv_ret = -1, rv_data = [], rv_errno = EAGAIN\<rparr>))"

lemma reader_loop_pieces:
  assumes "buf_ok k (cn_in conn)" "\<forall>d \<in> set ds. d \<noteq> []" "\<And>j. rs (i + j) = readv_pieces ds j"
  shows "\<exists>b n e. reader_loop junk rs i err (conn, sent) = Some ((conn\<lparr>cn_in := b\<rparr>, sent), n, e) \<and> buf_ok k b
    \<and> contents b = take (2 ^ k - 1) (contents (cn_in conn) @ concat ds)
    \<and> (if length (contents (cn_in conn) @ concat ds) < 2 ^ k - 1 then n = -1 \<and> e = EAGAIN else n = 0)"
  using assms
proof (induction ds arbitrary: i conn err)
  case Nil
  let ?b = "cn_in conn"
  have lt: "length (contents ?b) < 2 ^ k" by (rule length_contents_less[OF Nil(1)])
  have r: "rs i = (\<lambda>lens. \<lparr>rv_ret = -1, rv_data = [], rv_errno = EAGAIN\<rparr>)" using Nil(3)[of 0] by (simp add: readv_pieces_def)
  have rok: "readv_ok (rs i)" by (simp add: r readv_ok_def)
  show ?case
  proof (cases "writable_bytes ?b = 0")
    case True
    then have "unat (writable_bytes ?b) = 0" by simp
    then have "length (contents ?b) = 2 ^ k - 1" using lt by (simp add: unat_writable[OF Nil(1)])
    then show ?thesis
      using True Nil(1) by (subst reader_loop.simps) (auto simp: append_from_fd_def intro!: exI[of _ "cn_in conn"])
  next
    case False
    then have "unat (writable_bytes ?b) \<noteq> 0" by (simp add: unat_eq_0)
    then have "length (contents ?b) < 2 ^ k - 1" by (simp add: unat_writable[OF Nil(1)])
    moreover obtain b' where "append_from_fd True (rs i) ?b = Some (b', -1, Some EAGAIN)" "buf_ok k b'" "contents b' = contents ?b"
      using append_from_fd_correct[OF Nil(1) rok False] by (auto simp: r)
    ultimately show ?thesis by (subst reader_loop.simps) (auto intro!: exI[of _ b'])
  qed
next
  case (Cons d ds)
  let ?b = "cn_in conn"
  have lt: "length (contents ?b) < 2 ^ k" by (rule length_contents_less[OF Cons.prems(1)])
  have r: "rs i = readv_of d" using Cons.prems(3)[of 0] by (simp add: readv_pieces_def)
  show ?case
  proof (cases "writable_bytes ?b = 0")
    case True
    then have "unat (writable_bytes ?b) = 0" by simp
    then have "length (contents ?b) = 2 ^ k - 1" using lt by (simp add: unat_writable[OF Cons.prems(1)])
    then show ?thesis
      using True Cons.prems(1) by (subst reader_loop.simps) (auto simp: append_from_fd_def intro!: exI[of _ "cn_in conn"])
  next
    case False
    then have nz: "unat (writable_bytes ?b) \<noteq> 0" by (simp add: unat_eq_0)
    define room where "room = 2 ^ k - 1 - length (contents ?b)"
    have room: "unat (writable_bytes ?b) = room" "0 < room" using nz by (simp_all add: unat_writable[OF Cons.prems(1)] room_def)
    have data: "rv_data (readv_of d (map snd (free_iov ?b))) = take room d"
      "rv_ret (readv_of d (map snd (free_iov ?b))) = int (length (take room d))"
      using sum_free_iov[OF Cons.prems(1)] by (simp_all add: readv_of_def Let_def room(1))
    have pos: "0 < length (take room d)" using Cons.prems(2) room(2) by simp
    obtain b' where b': "append_from_fd True (rs i) ?b = Some (b', int (length (take room d)), None)" "buf_ok k b'"
      "contents b' = contents ?b @ take room d"
      using append_from_fd_correct[OF Cons.prems(1) readv_of_ok False, of d] pos unfolding r data by auto
    have next_rs: "rs (i + 1 + j) = readv_pieces ds j" for j
      using Cons.prems(3)[of "Suc j"] by (simp add: readv_pieces_def)
    have step: "reader_loop junk rs i err (conn, sent) = reader_loop junk rs (i + 1) err (conn\<lparr>cn_in := b'\<rparr>, sent)"
      using b'(1) pos by (subst reader_loop.simps) (auto simp: Let_def min_def)
    have l: "length (contents ?b) + room = 2 ^ k - 1" using lt by (simp add: room_def)
    have c: "take (2 ^ k - 1) (contents b' @ concat ds) = take (2 ^ k - 1) (contents ?b @ concat (d # ds))"
      "(length (contents b' @ concat ds) < 2 ^ k - 1) = (length (contents ?b @ concat (d # ds)) < 2 ^ k - 1)"
      unfolding b'(3) l[symmetric] by (cases "length d \<le> room"; simp)+
    show ?thesis
      using Cons.IH[of "conn\<lparr>cn_in := b'\<rparr>" "i + 1" err] b'(2) Cons.prems(2) next_rs c unfolding step by simp
  qed
qed

subsection \<open>Serving the letters\<close>

text \<open>
  The rest of the loop of \<open>ServProc\<close>: a letter that has been popped is served like a message in the other
  server, by the services that \<open>main\<close> has added to the pool (\<open>server.cpp\<close>).
\<close>

fun serve_letters :: "'x ext \<Rightarrow> letter list \<Rightarrow> nat \<times> 'x app \<Rightarrow> (nat \<times> 'x app) result" where
  "serve_letters e [] s = Done s"
| "serve_letters e (m # ms) (k, w) =
     after (numbered (Suc k) (serve e (smart_services e) k (msg_service_name (hp_data m)) (msg_method_name (hp_data m))
        (msg_content (hp_data m)) w)) (serve_letters e ms)"

lemma serve_letters_inv:
  "app_inv k w \<Longrightarrow> case serve_letters e ms (k, w) of Done (k', w') \<Rightarrow> k' = k + length ms \<and> app_inv k' w' | Threw x s \<Rightarrow> False | Undefined \<Rightarrow> True"
proof (induction ms arbitrary: k w)
  case (Cons m ms)
  show ?case
    using serve_inv[OF Cons.prems, of e "msg_service_name (hp_data m)" "msg_method_name (hp_data m)" "msg_content (hp_data m)"] Cons.IH[of "Suc k"]
    by (fastforce split: result.splits prod.splits)
qed simp

subsection \<open>Properties\<close>



text \<open>C28: Reading in the server with threads. The loop ends, whatever pieces the bytes come in: when they fit
  into the input buffer all of them are parsed; when they fill it (8191 bytes with what is already there)
  the connection is closed like one that the client has closed, and nothing is parsed, whatever complete
  requests the buffer holds.\<close>

theorem reader_reads:
  assumes "buf_ok k (cn_in conn)" and "\<forall>d \<in> set ds. d \<noteq> []"
  shows "\<exists>b. buf_ok k b \<and> contents b = take (2 ^ k - 1) (contents (cn_in conn) @ concat ds)
    \<and> reader_read junk (readv_pieces ds) (conn, sent) =
       (if length (contents (cn_in conn) @ concat ds) < 2 ^ k - 1
        then map_option (Pair False) (reader_parse junk (conn\<lparr>cn_in := b\<rparr>, sent))
        else Some (True, conn\<lparr>cn_in := b\<rparr>, sent))"
proof -
  obtain b n e where l: "reader_loop junk (readv_pieces ds) 0 0 (conn, sent) = Some ((conn\<lparr>cn_in := b\<rparr>, sent), n, e)" "buf_ok k b"
    "contents b = take (2 ^ k - 1) (contents (cn_in conn) @ concat ds)"
    "if length (contents (cn_in conn) @ concat ds) < 2 ^ k - 1 then n = -1 \<and> e = EAGAIN else n = 0"
    using reader_loop_pieces[OF assms, of "readv_pieces ds" 0 junk 0 sent] by auto
  then show ?thesis
    by (intro exI[of _ b] conjI) (cases "reader_parse junk (conn\<lparr>cn_in := b\<rparr>, sent)"; simp add: reader_read_def)+
qed

theorem reader_reads_witness:
  "\<exists>conn'. reader_read http_parser_url_init (readv_pieces [replicate 8000 CHR ''x'', replicate 191 CHR ''y'']) (demo_conn, []) = Some (True, conn', [])"
proof -
  have b: "buf_ok 13 (cn_in demo_conn)" "contents (cn_in demo_conn) = []" using demo_buffer by (simp_all add: demo_conn_def)
  have "\<forall>d \<in> set [replicate 8000 CHR ''x'', replicate 191 CHR ''y'']. d \<noteq> []" by simp
  from reader_reads[OF b(1) this, of http_parser_url_init "[]"] show ?thesis by (auto simp: b(2))
qed

text \<open>C29: Accepting in the server with threads. The loop returns exactly when some \<open>accept\<close> fails with \<open>EAGAIN\<close>
  or with an error that is thrown; then the connections accepted until the first such failure have been
  pushed, in this order. Any other failure that persists, like \<open>EMFILE\<close> when the process is out of
  descriptors, is retried for ever.\<close>

theorem accept_loop_result:
  "accept_loop as 0 [] =
     (if \<exists>i. ends_accept (as i)
      then let n = (LEAST i. ends_accept (as i)); fds = accepted (map as [0..<n])
           in Some (if \<exists>idle. as n = Accept_Failed EAGAIN idle then Done fds else Threw ''socket: accept fd '' fds)
      else None)"
proof (cases "\<exists>i. ends_accept (as i)")
  case True
  define n where "n = (LEAST i. ends_accept (as i))"
  have n: "ends_accept (as n)" "\<not> ends_accept (as j)" if "j < n" for j
    using True that unfolding n_def by (auto intro: LeastI_ex dest: not_less_Least)
  have stop: "ends_accept (as n)" unfolding n_def using True by (rule LeastI_ex)
  have "accept_loop as 0 [] = accept_loop as n (accepted (map as [0..<n]))"
    using accept_loop_skips[of n as 0 "[]"] n(2) by simp
  also have "\<dots> = Some (if \<exists>idle. as n = Accept_Failed EAGAIN idle then Done (accepted (map as [0..<n])) else Threw ''socket: accept fd '' (accepted (map as [0..<n])))"
    using stop by (subst accept_loop.simps) (cases "as n"; auto simp: EAGAIN_def fatal_errors_def)
  finally show ?thesis using True by (simp add: n_def Let_def)
next
  case False
  then have "accept_loop as 0 [] = None" using accept_loop_ends[of as 0 "[]"] by (cases "accept_loop as 0 []") auto
  then show ?thesis using False by simp
qed

end
