(* ===== verification/Rw_Spin_Lock.thy ===== *)
theory Rw_Spin_Lock
  imports Smart_Prelude "HOL-Library.Word"
begin

unbundle bit_operations_syntax

section \<open>The read-write spin lock\<close>

text \<open>
  \<open>RWSpinLock\<close> (\<open>public/rw_spin_lock.h\<close>) keeps everything in one word of 32 bits: the number of readers
  above two bits for the thread that holds the lock in upgrade mode and for the writer. Every access is an
  atomic operation, and threads interleave at these; the loops of \<open>lock\<close>, \<open>lock_shared\<close>, \<open>lock_upgrade\<close>
  and \<open>unlock_upgrade_and_lock\<close> repeat the operation named after \<open>try\<close> until it succeeds.
\<close>

definition READER :: "32 word" where "READER = 4"
definition UPGRADED :: "32 word" where "UPGRADED = 2"
definition WRITER :: "32 word" where "WRITER = 1"

text \<open>
  What a thread holds. The last three are between two atomic operations: a reader that was not admitted and
  has not taken its count back, a writer that has counted itself as a reader, and one that has set the
  upgrade bit.
\<close>

datatype rw_hold = Free | Shared | Upgrade | Exclusive | Backing_Off | Sharing | Upgrading

datatype rw_act = Try_Lock | Unlock | Try_Shared | Undo_Shared | Unlock_Shared | Add_Reader
  | Try_Upgrade | Unlock_Upgrade | Try_Write | Upgrade_To_Shared | Or_Upgraded | Sub_Writer

text \<open>
  One atomic operation by a thread, on the bits and what the thread holds. A call that the thread has no
  right to make is \<^const>\<open>None\<close>. \<open>Add_Reader\<close> and \<open>Unlock\<close> are \<open>unlock_and_lock_shared\<close>, \<open>Or_Upgraded\<close>
  and \<open>Sub_Writer\<close> are \<open>unlock_and_lock_upgrade\<close>, \<open>Try_Shared\<close> and \<open>Undo_Shared\<close> a \<open>try_lock_shared\<close>
  that fails.
\<close>

definition allow :: "bool \<Rightarrow> 'a \<Rightarrow> 'a option" where
  "allow c x = (if c then Some x else None)"

fun rw_atomic :: "rw_act \<Rightarrow> 32 word \<Rightarrow> rw_hold \<Rightarrow> (32 word \<times> rw_hold) option" where
  "rw_atomic Try_Lock b h = allow (h = Free) (if b = 0 then (WRITER, Exclusive) else (b, Free))"
| "rw_atomic Unlock b h = allow (h = Exclusive \<or> h = Sharing) (b AND NOT (WRITER OR UPGRADED), if h = Exclusive then Free else Shared)"
| "rw_atomic Try_Shared b h = allow (h = Free) (b + READER, if b AND (WRITER OR UPGRADED) \<noteq> 0 then Backing_Off else Shared)"
| "rw_atomic Undo_Shared b h = allow (h = Backing_Off) (b + - READER, Free)"
| "rw_atomic Unlock_Shared b h = allow (h = Shared) (b + - READER, Free)"
| "rw_atomic Add_Reader b h = allow (h = Exclusive) (b + READER, Sharing)"
| "rw_atomic Try_Upgrade b h = allow (h = Free) (b OR UPGRADED, if b AND (UPGRADED OR WRITER) = 0 then Upgrade else Free)"
| "rw_atomic Unlock_Upgrade b h = allow (h = Upgrade) (b + - UPGRADED, Free)"
| "rw_atomic Try_Write b h = allow (h = Upgrade) (if b = UPGRADED then (WRITER, Exclusive) else (b, Upgrade))"
| "rw_atomic Upgrade_To_Shared b h = allow (h = Upgrade) (b + (READER - UPGRADED), Shared)"
| "rw_atomic Or_Upgraded b h = allow (h = Exclusive) (b OR UPGRADED, Upgrading)"
| "rw_atomic Sub_Writer b h = allow (h = Upgrading) (b + - WRITER, Upgrade)"

lemma allow_Some [simp]: "allow c x = Some y \<longleftrightarrow> c \<and> x = y"
  by (simp add: allow_def)

text \<open>The lock and its threads.\<close>

type_synonym rw_system = "32 word \<times> rw_hold list"

definition rw_new :: "nat \<Rightarrow> rw_system" where
  "rw_new n = (0, replicate n Free)"

fun rw_step :: "nat \<times> rw_act \<Rightarrow> rw_system \<Rightarrow> rw_system option" where
  "rw_step (i, a) (b, hs) =
     (if i < length hs
      then (case rw_atomic a b (hs ! i) of None \<Rightarrow> None | Some (b', h) \<Rightarrow> Some (b', hs[i := h]))
      else None)"

fun rw_run :: "(nat \<times> rw_act) list \<Rightarrow> rw_system \<Rightarrow> rw_system option" where
  "rw_run [] s = Some s"
| "rw_run (a # as) s = (case rw_step a s of None \<Rightarrow> None | Some s1 \<Rightarrow> rw_run as s1)"

subsection \<open>The bits\<close>

definition lock_bits :: "nat \<Rightarrow> bool \<Rightarrow> bool \<Rightarrow> 32 word" where
  "lock_bits r u w = push_bit 2 (of_nat r) OR (if u then UPGRADED else 0) OR (if w then WRITER else 0)"

lemma lock_bit: "bit WRITER n \<longleftrightarrow> n = 0" "bit UPGRADED n \<longleftrightarrow> n = 1"
  by (auto simp: WRITER_def UPGRADED_def bit_simps bit_2_iff)

lemma lock_bits_sum: "lock_bits r u w = of_nat (4 * r) + (if u then 2 else 0) + (if w then 1 else 0)"
proof -
  have a: "push_bit 2 x OR (if w then WRITER else 0) = push_bit 2 x + (if w then 1 else 0)" for x :: "32 word"
    by (subst disjunctive_add) (auto simp: WRITER_def bit_simps)
  have "lock_bits r u w = (push_bit 2 (of_nat r) OR (if w then WRITER else 0)) OR (if u then UPGRADED else 0)"
    by (simp add: lock_bits_def ac_simps)
  also have "\<dots> = (push_bit 2 (of_nat r) OR (if w then WRITER else 0)) + (if u then UPGRADED else 0)"
    by (subst disjunctive_add) (auto simp: lock_bit bit_simps)
  finally show ?thesis unfolding a by (simp add: push_bit_eq_mult UPGRADED_def)
qed

lemma bit_lock_bits: "bit (lock_bits r u w) n \<longleftrightarrow> bit (push_bit 2 (of_nat r :: 32 word)) n \<or> (n = 1 \<and> u) \<or> (n = 0 \<and> w)"
  by (auto simp: lock_bits_def bit_or_iff lock_bit)

lemma lock_bits_tests: "lock_bits r u w AND (WRITER OR UPGRADED) = 0 \<longleftrightarrow> \<not> u \<and> \<not> w"
proof
  assume z: "lock_bits r u w AND (WRITER OR UPGRADED) = 0"
  have "bit (lock_bits r u w AND (WRITER OR UPGRADED)) 0 = w" "bit (lock_bits r u w AND (WRITER OR UPGRADED)) 1 = u"
    by (auto simp: bit_and_iff bit_or_iff lock_bit bit_lock_bits bit_push_bit_iff)
  then show "\<not> u \<and> \<not> w" unfolding z by simp
next
  assume "\<not> u \<and> \<not> w"
  then show "lock_bits r u w AND (WRITER OR UPGRADED) = 0"
    by (intro bit_eqI) (auto simp: bit_and_iff bit_or_iff lock_bit bit_lock_bits bit_push_bit_iff)
qed

lemma lock_bits_ops:
  "lock_bits r u w OR UPGRADED = lock_bits r True w"
  "lock_bits r u w AND NOT (WRITER OR UPGRADED) = lock_bits r False False"
  "lock_bits r u w AND NOT WRITER AND NOT UPGRADED = lock_bits r False False"
  by (intro bit_eqI; auto simp: bit_and_iff bit_or_iff bit_not_iff lock_bit bit_lock_bits bit_push_bit_iff)+

lemma lock_bits_arith:
  "lock_bits r u w + READER = lock_bits (Suc r) u w"
  "lock_bits (Suc r) u w + - READER = lock_bits r u w"
  "lock_bits r True w + - UPGRADED = lock_bits r False w"
  "lock_bits r u True + - WRITER = lock_bits r u False"
  "lock_bits r True w + (READER - UPGRADED) = lock_bits (Suc r) False w"
  by (simp_all add: lock_bits_sum READER_def UPGRADED_def WRITER_def)

lemma lock_bits_inj:
  assumes "r < 2 ^ 30" "r' < 2 ^ 30"
  shows "lock_bits r u w = lock_bits r' u' w' \<longleftrightarrow> r = r' \<and> u = u' \<and> w = w'"
proof -
  have n: "lock_bits q v x = of_nat (4 * q + (if v then 2 else 0) + (if x then 1 else 0))" for q v x
    by (simp add: lock_bits_sum)
  have u: "unat (lock_bits q v x) = 4 * q + (if v then 2 else 0) + (if x then 1 else 0)" if "q < 2 ^ 30" for q v x
    unfolding n using that by (subst unat_of_nat) (auto simp: take_bit_nat_eq_self)
  show ?thesis
  proof
    assume "lock_bits r u w = lock_bits r' u' w'"
    then have e: "4 * r + (if u then 2 else 0) + (if w then 1 else 0) = 4 * r' + (if u' then 2 else 0) + (if w' then 1 else (0 :: nat))"
      using u[OF assms(1), of u w] u[OF assms(2), of u' w'] by metis
    show "r = r' \<and> u = u' \<and> w = w'"
      using e by (cases u; cases w; cases u'; cases w') (simp_all, presburger+)
  qed simp
qed

lemma lock_bits_values: "0 = lock_bits 0 False False" "UPGRADED = lock_bits 0 True False" "WRITER = lock_bits 0 False True"
  by (simp_all add: lock_bits_def)

subsection \<open>The invariant\<close>

fun counts_reader :: "rw_hold \<Rightarrow> nat" where
  "counts_reader h = (if h \<in> {Shared, Backing_Off, Sharing} then 1 else 0)"

fun counts_writer :: "rw_hold \<Rightarrow> nat" where
  "counts_writer h = (if h \<in> {Exclusive, Sharing, Upgrading} then 1 else 0)"

fun counts_upgrade :: "rw_hold \<Rightarrow> nat" where
  "counts_upgrade h = (if h = Upgrade then 1 else 0)"

definition tally :: "(rw_hold \<Rightarrow> nat) \<Rightarrow> rw_hold list \<Rightarrow> nat" where
  "tally f hs = sum_list (map f hs)"

lemma tally_le: "i < length hs \<Longrightarrow> f (hs ! i) \<le> tally f hs"
  unfolding tally_def using nth_mem[of i "map f hs"] by (auto intro: member_le_sum_list)

lemma tally_update: "i < length hs \<Longrightarrow> tally f (hs[i := h]) + f (hs ! i) = tally f hs + f h"
proof -
  assume i: "i < length hs"
  then show ?thesis using tally_le[OF i, of f] by (simp add: tally_def map_update sum_list_update)
qed

lemma tally_bound: "(\<And>h. f h \<le> 1) \<Longrightarrow> tally f hs \<le> length hs"
  using sum_list_mono[of hs f "\<lambda>_. 1"] by (simp add: tally_def sum_list_triv)

lemma tally_zero: "tally f hs = 0 \<longleftrightarrow> (\<forall>h \<in> set hs. f h = 0)"
  by (simp add: tally_def sum_list_eq_0_iff)

lemma tally_pair:
  assumes "i < length hs" "j < length hs" "i \<noteq> j"
  shows "f (hs ! i) + f (hs ! j) \<le> tally f hs"
proof -
  have "(\<Sum>k \<in> {i, j}. f (hs ! k)) \<le> (\<Sum>k < length hs. f (hs ! k))"
    using assms by (intro sum_mono2) auto
  then show ?thesis using assms(3) by (simp add: tally_def sum_list_sum_nth atLeast0LessThan)
qed

text \<open>
  The upgrade bit is set by every attempt to lock in upgrade mode, also by those that fail; then somebody
  holds the lock whose unlocking clears it.
\<close>

definition rw_inv :: "rw_system \<Rightarrow> bool" where
  "rw_inv s \<longleftrightarrow> (case s of (b, hs) \<Rightarrow>
     (\<exists>u. b = lock_bits (tally counts_reader hs) u (tally counts_writer hs = 1)
        \<and> tally counts_writer hs + tally counts_upgrade hs \<le> 1
        \<and> (tally counts_upgrade hs = 1 \<longrightarrow> u)
        \<and> (u \<longrightarrow> tally counts_writer hs + tally counts_upgrade hs = 1)
        \<and> (tally counts_writer hs = 1 \<longrightarrow> Shared \<notin> set hs \<and> (Upgrading \<in> set hs \<longrightarrow> u))))"

lemma rw_new_inv: "rw_inv (rw_new n)"
proof -
  have "tally f (replicate n Free) = 0" if "f Free = 0" for f using that by (auto simp: tally_zero)
  then show ?thesis by (simp add: rw_inv_def rw_new_def lock_bits_def exI[of _ False])
qed

lemma rw_atomic_inv:
  assumes inv: "rw_inv (b, hs)" and i: "i < length hs" "length hs < 2 ^ 30" and run: "rw_atomic a b (hs ! i) = Some (b', h)"
  shows "rw_inv (b', hs[i := h])"
proof -
  define r w p where d: "r = tally counts_reader hs" "w = tally counts_writer hs" "p = tally counts_upgrade hs"
  obtain u where u: "b = lock_bits r u (w = 1)" "w + p \<le> 1" "p = 1 \<longrightarrow> u" "u \<longrightarrow> w + p = 1" "w = 1 \<longrightarrow> Shared \<notin> set hs \<and> (Upgrading \<in> set hs \<longrightarrow> u)"
    using inv unfolding rw_inv_def d by auto
  define r' w' p' where d': "r' = tally counts_reader (hs[i := h])" "w' = tally counts_writer (hs[i := h])" "p' = tally counts_upgrade (hs[i := h])"
  have t: "r' + counts_reader (hs ! i) = r + counts_reader h" "w' + counts_writer (hs ! i) = w + counts_writer h"
    "p' + counts_upgrade (hs ! i) = p + counts_upgrade h"
    unfolding d d' by (rule tally_update[OF i(1)])+
  have "r \<le> length hs" unfolding d by (rule tally_bound) simp
  then have r: "r < 2 ^ 30" using i(2) by simp
  have zero: "b = 0 \<longleftrightarrow> r = 0 \<and> \<not> u \<and> w \<noteq> 1" "b = UPGRADED \<longleftrightarrow> r = 0 \<and> u \<and> w \<noteq> 1"
    unfolding u(1) lock_bits_values(1,2) using lock_bits_inj[OF r, of 0] by auto
  have none: "r = 0 \<Longrightarrow> Shared \<notin> set hs" "w = 0 \<Longrightarrow> Upgrading \<notin> set hs" unfolding d tally_zero by auto
  have sh: "x \<in> set (hs[i := h]) \<Longrightarrow> x = h \<or> x \<in> set hs" for x using set_update_subset_insert[of hs i h] by auto
  have goal: "rw_inv (b', hs[i := h])"
    if "b' = lock_bits r' v (w' = 1)" "w' + p' \<le> 1" "p' = 1 \<longrightarrow> v" "v \<longrightarrow> w' + p' = 1"
      "w' = 1 \<Longrightarrow> h \<noteq> Shared \<and> Shared \<notin> set hs \<and> (h = Upgrading \<or> Upgrading \<in> set hs \<longrightarrow> v)" for v
    using that sh[of Shared] sh[of Upgrading] unfolding rw_inv_def d' by auto
  note tests = lock_bits_tests lock_bits_tests[unfolded or.commute[of WRITER]]
  have same: "rw_inv (b', hs[i := h])" if "b' = b" "h = hs ! i" using inv that by simp
  have w: "w = 0 \<or> w = 1" "w = 1 \<Longrightarrow> p = 0" "counts_writer (hs ! i) = 1 \<Longrightarrow> w = 1" "counts_upgrade (hs ! i) = 1 \<Longrightarrow> p = 1 \<and> w = 0"
    using u(2) t(2,3) tally_update[OF i(1), of counts_writer Free] tally_update[OF i(1), of counts_upgrade Free] unfolding d by auto
  show ?thesis
  proof (cases a)
    case Try_Lock
    show ?thesis
    proof (cases "b = 0")
      case True
      then have e: "b' = WRITER" "h = Exclusive" "hs ! i = Free" "r = 0" "\<not> u" "w = 0" "Shared \<notin> set hs" "Upgrading \<notin> set hs"
        using run Try_Lock zero(1) none w(1) by auto
      show ?thesis by (rule goal[of False]) (use e t u(2-4) in \<open>simp_all add: lock_bits_values(3)\<close>)
    qed (rule same; use run Try_Lock in auto)
  next
    case Unlock
    then have e: "b' = lock_bits r False False" "h = (if hs ! i = Exclusive then Free else Shared)" "hs ! i = Exclusive \<or> hs ! i = Sharing"
      using run by (auto simp: lock_bits_ops u(1))
    then have "w = 1" "p = 0" using w by auto
    show ?thesis by (rule goal[of False]) (use e t \<open>w = 1\<close> \<open>p = 0\<close> in auto)
  next
    case Try_Shared
    then have e: "b' = lock_bits (Suc r) u (w = 1)" "h = (if u \<or> w = 1 then Backing_Off else Shared)" "hs ! i = Free"
      using run by (auto simp: lock_bits_arith tests u(1))
    show ?thesis by (rule goal[of u]) (use e t u(2-5) in \<open>simp_all split: if_splits\<close>)
  next
    case Undo_Shared
    then have e: "b' = lock_bits (Suc r') u (w = 1) + - READER" "h = Free" "hs ! i = Backing_Off" using run t(1) u(1) by auto
    show ?thesis by (rule goal[of u]) (use e(2,3) e(1)[unfolded lock_bits_arith(2)] t u(2-5) in simp_all)
  next
    case Unlock_Shared
    then have e: "b' = lock_bits (Suc r') u (w = 1) + - READER" "h = Free" "hs ! i = Shared" using run t(1) u(1) by auto
    show ?thesis by (rule goal[of u]) (use e(2,3) e(1)[unfolded lock_bits_arith(2)] t u(2-5) in simp_all)
  next
    case Add_Reader
    then have e: "b' = lock_bits (Suc r) u (w = 1)" "h = Sharing" "hs ! i = Exclusive" using run by (auto simp: lock_bits_arith u(1))
    show ?thesis by (rule goal[of u]) (use e t u(2-5) in simp_all)
  next
    case Try_Upgrade
    then have e: "b' = lock_bits r True (w = 1)" "h = (if u \<or> w = 1 then Free else Upgrade)" "hs ! i = Free"
      using run by (auto simp: lock_bits_ops tests u(1))
    show ?thesis
      by (cases "u \<or> w = 1"; rule goal[of True]) (use e t u(2-5) w(1,2) in auto)
  next
    case Unlock_Upgrade
    then have e: "b' = lock_bits r True False + - UPGRADED" "h = Free" "hs ! i = Upgrade" "p = 1" "w = 0" using run u(1,3) w(4) by auto
    show ?thesis by (rule goal[of False]) (use e(2-5) e(1)[unfolded lock_bits_arith(3)] t in simp_all)
  next
    case Try_Write
    show ?thesis
    proof (cases "b = UPGRADED")
      case True
      then have e: "b' = WRITER" "h = Exclusive" "hs ! i = Upgrade" "r = 0" "w = 0" "p = 1" "Shared \<notin> set hs" "Upgrading \<notin> set hs"
        using run Try_Write zero(2) none w by auto
      show ?thesis by (rule goal[of False]) (use e t in \<open>simp_all add: lock_bits_values(3)\<close>)
    qed (rule same; use run Try_Write in auto)
  next
    case Upgrade_To_Shared
    then have e: "b' = lock_bits r True False + (READER - UPGRADED)" "h = Shared" "hs ! i = Upgrade" "p = 1" "w = 0" using run u(1,3) w(4) by auto
    show ?thesis by (rule goal[of False]) (use e(2-5) e(1)[unfolded lock_bits_arith(5)] t in simp_all)
  next
    case Or_Upgraded
    then have e: "b' = lock_bits r True True" "h = Upgrading" "hs ! i = Exclusive" "w = 1" "p = 0" using run w by (auto simp: lock_bits_ops u(1))
    show ?thesis by (rule goal[of True]) (use e t u(5) in simp_all)
  next
    case Sub_Writer
    then have e: "b' = lock_bits r u True + - WRITER" "h = Upgrade" "hs ! i = Upgrading" "w = 1" "p = 0" using run w u(1) by auto
    have "Upgrading \<in> set hs" unfolding e(3)[symmetric] by (rule nth_mem[OF i(1)])
    then have u by (simp add: e u(5))
    show ?thesis by (rule goal[of True]) (use e(2-5) e(1)[unfolded lock_bits_arith(4)] t u(5) \<open>u\<close> in simp_all)
  qed
qed

lemma rw_step_inv: "rw_step x s = Some s' \<Longrightarrow> rw_inv s \<Longrightarrow> length (snd s) < 2 ^ 30 \<Longrightarrow> rw_inv s' \<and> length (snd s') = length (snd s)"
  by (cases x; cases s) (auto split: if_splits option.splits intro: rw_atomic_inv)

lemma rw_run_inv: "rw_run as s = Some s' \<Longrightarrow> rw_inv s \<Longrightarrow> length (snd s) < 2 ^ 30 \<Longrightarrow> rw_inv s' \<and> length (snd s') = length (snd s)"
proof (induction as arbitrary: s)
  case (Cons a as)
  obtain s1 where "rw_step a s = Some s1" "rw_run as s1 = Some s'" using Cons.prems(1) by (auto split: option.splits)
  then show ?case using Cons.IH[of s1] rw_step_inv[of a s s1] Cons.prems(2,3) by auto
qed simp

lemma rw_run_append: "rw_run (as @ bs) s = Option.bind (rw_run as s) (rw_run bs)"
  by (induction as arbitrary: s) (simp_all split: option.splits)

subsection \<open>What the lock promises\<close>

text \<open>Which holds of two threads may come together.\<close>

definition writes :: "rw_hold \<Rightarrow> bool" where
  "writes h \<longleftrightarrow> h \<in> {Exclusive, Sharing, Upgrading}"

definition rw_compatible :: "rw_hold \<Rightarrow> rw_hold \<Rightarrow> bool" where
  "rw_compatible h h' \<longleftrightarrow> \<not> (writes h \<and> h' \<in> {Shared, Upgrade}) \<and> \<not> (writes h \<and> writes h') \<and> \<not> (h = Upgrade \<and> h' = Upgrade)"

lemma rw_inv_compatible:
  assumes "rw_inv (b, hs)" "i < length hs" "j < length hs" "i \<noteq> j"
  shows "rw_compatible (hs ! i) (hs ! j)"
proof -
  have s: "tally counts_writer hs + tally counts_upgrade hs \<le> 1" "tally counts_writer hs = 1 \<Longrightarrow> Shared \<notin> set hs"
    using assms(1) by (auto simp: rw_inv_def)
  have m: "counts_writer (hs ! i) \<le> tally counts_writer hs" "counts_upgrade (hs ! j) \<le> tally counts_upgrade hs"
    using assms(2,3) by (simp_all only: tally_le)
  show ?thesis
    using s m tally_pair[OF assms(2-4), of counts_writer] tally_pair[OF assms(2-4), of counts_upgrade] nth_mem[OF assms(3)]
    by (auto simp: rw_compatible_def writes_def)
qed

lemma rw_inv_free: "rw_inv (b, hs) \<Longrightarrow> \<forall>h \<in> set hs. h = Free \<Longrightarrow> b = 0"
proof -
  assume i: "rw_inv (b, hs)" and f: "\<forall>h \<in> set hs. h = Free"
  have "tally g hs = 0" if "g Free = 0" for g using f that unfolding tally_zero by metis
  then show ?thesis using i by (auto simp: rw_inv_def lock_bits_def)
qed

lemma rw_inv_upgrade:
  assumes inv: "rw_inv (b, hs)" and i: "i < length hs" "hs ! i = Upgrade" and n: "length hs < 2 ^ 30"
  shows "b = UPGRADED \<longleftrightarrow> (\<forall>h \<in> set hs. h \<notin> {Shared, Backing_Off})"
proof -
  obtain u where u: "b = lock_bits (tally counts_reader hs) u (tally counts_writer hs = 1)"
    "tally counts_writer hs + tally counts_upgrade hs \<le> 1" "tally counts_upgrade hs = 1 \<longrightarrow> u"
    using inv by (auto simp: rw_inv_def)
  have "counts_upgrade (hs ! i) \<le> tally counts_upgrade hs" by (rule tally_le[OF i(1)])
  then have w: "tally counts_writer hs = 0" u using u(2,3) i(2) by auto
  have "tally counts_reader hs \<le> length hs" by (rule tally_bound) simp
  then have r: "tally counts_reader hs < 2 ^ 30" using n by simp
  have "b = UPGRADED \<longleftrightarrow> tally counts_reader hs = 0"
    unfolding u(1) lock_bits_values(2) using lock_bits_inj[OF r, of 0] w by simp
  also have "\<dots> \<longleftrightarrow> (\<forall>h \<in> set hs. h \<notin> {Shared, Backing_Off})" using w(1) by (auto simp: tally_zero)
  finally show ?thesis .
qed

text \<open>What a thread does to give back what it holds.\<close>

fun rw_leave :: "rw_hold \<Rightarrow> rw_act list" where
  "rw_leave Free = []"
| "rw_leave Shared = [Unlock_Shared]"
| "rw_leave Upgrade = [Unlock_Upgrade]"
| "rw_leave Exclusive = [Unlock]"
| "rw_leave Backing_Off = [Undo_Shared]"
| "rw_leave Sharing = [Unlock, Unlock_Shared]"
| "rw_leave Upgrading = [Sub_Writer, Unlock_Upgrade]"

lemma rw_leaves: "i < length hs \<Longrightarrow> \<exists>b'. rw_run (map (Pair i) (rw_leave (hs ! i))) (b, hs) = Some (b', hs[i := Free])"
  by (cases "hs ! i") (auto simp: allow_def, metis list_update_id)

lemma rw_all_leave:
  "k \<le> length hs \<Longrightarrow> \<exists>as b'. rw_run as (b, hs) = Some (b', replicate k Free @ drop k hs)"
proof (induction k)
  case (Suc k)
  obtain as b1 where run: "rw_run as (b, hs) = Some (b1, replicate k Free @ drop k hs)" using Suc by auto
  let ?hs = "replicate k Free @ drop k hs"
  obtain b2 where "rw_run (map (Pair k) (rw_leave (?hs ! k))) (b1, ?hs) = Some (b2, ?hs[k := Free])"
    using rw_leaves[of k ?hs b1] Suc.prems by auto
  moreover have "?hs[k := Free] = replicate (Suc k) Free @ drop (Suc k) hs"
    using Suc.prems by (simp add: list_update_append Cons_nth_drop_Suc[symmetric] replicate_append_same[symmetric])
  ultimately show ?case using run
    by (intro exI[of _ "as @ map (Pair k) (rw_leave (?hs ! k))"] exI[of _ b2]) (simp add: rw_run_append)
qed (intro exI[of _ "[]"] exI[of _ b], simp)

text \<open>C31: The read-write lock. However the atomic operations of the threads interleave, a writer excludes
  every reader, every other writer and the holder in upgrade mode, of whom there is at most one; the
  holder in upgrade mode becomes the writer exactly when nobody is counted as a reader; and no count and
  no bit is left behind: the bits are zero when nobody holds anything, and from every state the threads
  get there by giving back what they hold.\<close>

theorem rw_lock_excludes:
  assumes "rw_run as (rw_new n) = Some (b, hs)" and "n < 2 ^ 30"
  shows "length hs = n \<and> (\<forall>i < n. \<forall>j < n. i \<noteq> j \<longrightarrow> rw_compatible (hs ! i) (hs ! j))
    \<and> (\<forall>i < n. hs ! i = Upgrade \<longrightarrow> (b = UPGRADED \<longleftrightarrow> (\<forall>h \<in> set hs. h \<notin> {Shared, Backing_Off})))
    \<and> ((\<forall>h \<in> set hs. h = Free) \<longrightarrow> b = 0)
    \<and> (\<exists>as'. rw_run as' (b, hs) = Some (rw_new n))"
proof -
  have inv: "rw_inv (b, hs)" "length hs = n"
    using rw_run_inv[OF assms(1) rw_new_inv] assms(2) by (simp_all add: rw_new_def)
  obtain as' b' where r: "rw_run as' (b, hs) = Some (b', replicate n Free)" using rw_all_leave[of n hs b] inv(2) by auto
  have "rw_inv (b', replicate n Free)" using rw_run_inv[OF r inv(1)] inv(2) assms(2) by simp
  then have "b' = 0" by (rule rw_inv_free) simp
  then have "\<exists>as'. rw_run as' (b, hs) = Some (rw_new n)" using r by (auto simp: rw_new_def)
  then show ?thesis using inv rw_inv_compatible[OF inv(1)] rw_inv_upgrade[OF inv(1)] rw_inv_free[OF inv(1)] assms(2) by auto
qed

theorem rw_lock_excludes_witness:
  "rw_run [(0, Try_Shared), (1, Try_Upgrade), (2, Try_Shared), (1, Try_Write), (2, Undo_Shared), (0, Unlock_Shared), (1, Try_Write)] (rw_new 3)
     = Some (WRITER, [Free, Exclusive, Free]) \<and> rw_compatible Exclusive Free"
proof -
  let ?as = "[(0, Try_Shared), (1, Try_Upgrade), (2, Try_Shared), (1, Try_Write), (2, Undo_Shared), (0, Unlock_Shared), (1, Try_Write)]"
  have r: "rw_run ?as (rw_new 3) = Some (WRITER, [Free, Exclusive, Free])"
    by (simp add: rw_new_def allow_def READER_def UPGRADED_def WRITER_def numeral_3_eq_3)
  have "\<forall>i < 3. \<forall>j < 3. i \<noteq> j \<longrightarrow> rw_compatible ([Free, Exclusive, Free] ! i) ([Free, Exclusive, Free] ! j)"
    using rw_lock_excludes[OF r] by simp
  from this[rule_format, of 1 2] show ?thesis using r by simp
qed

end
