(* ===== verification/Ini_File.thy ===== *)
theory Ini_File
  imports Smart_Prelude "HOL-Library.AList"
begin

section \<open>Configuration files\<close>

text \<open>
  \<open>INI::Parser\<close> (\<open>public/ini.hpp\<close>) reads files of lines \<open>key=value\<close> under section lines \<open>[name]\<close>, where a
  section at depth \<open>d\<close> has \<open>d\<close> brackets on either side. A level of the code has a map of its values and one
  of its sections, each with the list of its entries in the order of the file; every entry is put into both
  at the same time, so that the model has one association list in this order for each. The level that is
  being read is the path of section names to it, whose length is its depth, and its parent the path without
  the last name.
\<close>

datatype level = Level (lv_values: "(string \<times> string) list") (lv_sections: "(string \<times> level) list") (lv_depth: nat)

text \<open>What the parser throws, with the number of the line.\<close>

datatype ini_error = Wrong_Depth nat | Duplicate_Section nat | No_Equals nat | Duplicate_Key nat

subsection \<open>Strings\<close>

text \<open>\<open>strchr\<close> finds the final zero byte of its string, too.\<close>

definition blank :: "char \<Rightarrow> bool" where
  "blank c \<longleftrightarrow> c \<in> {CHR '' '', CHR 0x09, CHR 0x0D, CHR 0x0A, CHR 0x00}"

definition trim :: "string \<Rightarrow> string" where
  "trim s = rev (dropWhile blank (rev (dropWhile blank s)))"

text \<open>\<open>substr\<close> up to the end of the string, and the number of brackets in front. The length is a \<open>size_t\<close>
  that wraps around, when there are more brackets than half of the line.\<close>

definition parse_section_line :: "string \<Rightarrow> string \<times> nat" where
  "parse_section_line l =
     (let depth = length (takeWhile (\<lambda>c. c = CHR ''['') l) in
      (if 2 * depth \<le> length l then take (length l - 2 * depth) (drop depth l) else drop depth l, depth))"

subsection \<open>Levels\<close>

fun at_path :: "string list \<Rightarrow> level \<Rightarrow> level option" where
  "at_path [] l = Some l"
| "at_path (n # p) l = (case map_of (lv_sections l) n of None \<Rightarrow> None | Some c \<Rightarrow> at_path p c)"

fun update_at :: "string list \<Rightarrow> (level \<Rightarrow> level) \<Rightarrow> level \<Rightarrow> level" where
  "update_at [] f l = f l"
| "update_at (n # p) f l = Level (lv_values l) (AList.map_entry n (update_at p f) (lv_sections l)) (lv_depth l)"

definition add_value :: "string \<Rightarrow> string \<Rightarrow> level \<Rightarrow> level" where
  "add_value k v l = Level (lv_values l @ [(k, v)]) (lv_sections l) (lv_depth l)"

definition add_section :: "string \<Rightarrow> level \<Rightarrow> level \<Rightarrow> level" where
  "add_section n c l = Level (lv_values l) (lv_sections l @ [(n, c)]) (lv_depth l)"

subsection \<open>The parser\<close>

text \<open>
  One line of the loop of \<open>parse\<close>, in the level at the path. The recursive call for a new section reads the
  rest of the file, so that it is the same loop at the new path.
\<close>

definition ini_line :: "nat \<Rightarrow> string \<Rightarrow> level \<times> string list \<Rightarrow> ini_error + (level \<times> string list)" where
  "ini_line ln l s =
     (case s of (doc, p) \<Rightarrow>
        if l \<noteq> [] \<and> (hd l = CHR ''#'' \<or> hd l = CHR '';'') then Inr s
        else let l = trim l in
        if l = [] then Inr s
        else if hd l = CHR ''['' then
          let (name, depth) = parse_section_line l in
          if length p + 1 < depth then Inl (Wrong_Depth ln)
          else let parent = take (depth - 1) p in
          (case at_path parent doc of
             None \<Rightarrow> Inr s
           | Some lp \<Rightarrow>
               if name \<in> fst ` set (lv_sections lp) then Inl (Duplicate_Section ln)
               else Inr (update_at parent (add_section name (Level [] [] depth)) doc, parent @ [name]))
        else if CHR ''='' \<notin> set l then Inl (No_Equals ln)
        else
          let n = length (takeWhile (\<lambda>c. c \<noteq> CHR ''='') l); key = trim (take n l); val = trim (drop (n + 1) l) in
          (case at_path p doc of
             None \<Rightarrow> Inr s
           | Some lv \<Rightarrow>
               if key \<in> fst ` set (lv_values lv) then Inl (Duplicate_Key ln)
               else Inr (update_at p (add_value key val) doc, p)))"

fun ini_lines :: "nat \<Rightarrow> string list \<Rightarrow> level \<times> string list \<Rightarrow> ini_error + (level \<times> string list)" where
  "ini_lines ln [] s = Inr s"
| "ini_lines ln (l # ls) s = (case ini_line (ln + 1) l s of Inl e \<Rightarrow> Inl e | Inr s1 \<Rightarrow> ini_lines (ln + 1) ls s1)"

text \<open>\<open>getline\<close> until the stream ends: after the last newline there is one more line only when it is not empty.\<close>

fun getlines :: "string \<Rightarrow> string list" where
  "getlines [] = []"
| "getlines (c # s) =
     (if c = CHR 0x0A then [] # getlines s
      else case getlines s of [] \<Rightarrow> [[c]] | l # ls \<Rightarrow> (c # l) # ls)"

definition ini_parse :: "string \<Rightarrow> ini_error + level" where
  "ini_parse text = (case ini_lines 0 (getlines text) (Level [] [] 0, []) of Inl e \<Rightarrow> Inl e | Inr (doc, p) \<Rightarrow> Inr doc)"

subsection \<open>Writing\<close>

fun ini_dump :: "string \<Rightarrow> level \<Rightarrow> string" where
  "ini_dump name (Level vs ss d) =
     (if name \<noteq> [] then [CHR 0x0A] else []) @ replicate d CHR ''['' @ name @ replicate d CHR '']''
     @ (if name \<noteq> [] then [CHR 0x0A] else [])
     @ concat (map (\<lambda>(k, v). k @ [CHR ''=''] @ v @ [CHR 0x0A]) vs)
     @ concat (map (\<lambda>(n, c). ini_dump n c) ss)"

subsection \<open>Files that can be written\<close>

definition one_line :: "string \<Rightarrow> bool" where
  "one_line s \<longleftrightarrow> CHR 0x0A \<notin> set s"

definition key_ok :: "string \<Rightarrow> bool" where
  "key_ok k \<longleftrightarrow> trim k = k \<and> one_line k \<and> CHR ''='' \<notin> set k \<and> (k = [] \<or> hd k \<notin> {CHR ''['', CHR ''#'', CHR '';''})"

definition value_ok :: "string \<Rightarrow> bool" where
  "value_ok v \<longleftrightarrow> trim v = v \<and> one_line v"

definition name_ok :: "string \<Rightarrow> bool" where
  "name_ok n \<longleftrightarrow> n \<noteq> [] \<and> one_line n \<and> hd n \<noteq> CHR ''[''"

fun level_ok :: "nat \<Rightarrow> level \<Rightarrow> bool" where
  "level_ok d (Level vs ss d') \<longleftrightarrow> d' = d \<and> distinct (map fst vs) \<and> distinct (map fst ss)
     \<and> (\<forall>x \<in> set vs. key_ok (fst x) \<and> value_ok (snd x)) \<and> (\<forall>x \<in> set ss. name_ok (fst x) \<and> level_ok (Suc d) (snd x))"

subsection \<open>Lines\<close>

lemma trim_id: "s \<noteq> [] \<Longrightarrow> \<not> blank (hd s) \<Longrightarrow> \<not> blank (last s) \<Longrightarrow> trim s = s"
proof -
  assume s: "s \<noteq> []" "\<not> blank (hd s)" "\<not> blank (last s)"
  have "dropWhile blank s = s" using s by (simp add: dropWhile_eq_self_iff)
  moreover have "dropWhile blank (rev s) = rev s" using s by (simp add: dropWhile_eq_self_iff hd_rev)
  ultimately show ?thesis by (simp add: trim_def)
qed

lemma trim_ends: "trim s = s \<Longrightarrow> s \<noteq> [] \<Longrightarrow> \<not> blank (hd s) \<and> \<not> blank (last s)"
proof -
  assume t: "trim s = s" and s: "s \<noteq> []"
  have "trim s = [] \<or> (\<not> blank (hd (trim s)) \<and> \<not> blank (last (trim s)))"
  proof (cases "dropWhile blank s")
    case (Cons c r)
    then have c: "\<not> blank c" by (metis hd_dropWhile list.discI list.sel(1))
    have "dropWhile blank (rev (c # r)) \<noteq> []" using c by auto
    then obtain x xs where x: "dropWhile blank (rev (c # r)) = x # xs" "\<not> blank x" by (metis hd_dropWhile list.exhaust list.sel(1))
    have "last (x # xs) = last (rev (c # r))"
      by (metis x(1) list.discI last_appendR takeWhile_dropWhile_id)
    then have l: "last (x # xs) = c" by simp
    have tr: "trim s = rev (x # xs)" by (simp only: trim_def Cons x(1))
    show ?thesis unfolding tr hd_rev last_rev l using x(2) c by simp
  next
    case Nil
    then have "trim s = []" by (simp only: trim_def rev.simps dropWhile.simps)
    then show ?thesis ..
  qed
  then show ?thesis using t s by simp
qed

lemma getlines_line: "one_line l \<Longrightarrow> getlines (l @ CHR 0x0A # r) = l # getlines r"
  by (induction l) (auto simp: one_line_def)

definition header_line :: "string \<Rightarrow> nat \<Rightarrow> string" where
  "header_line n d = replicate d CHR ''['' @ n @ replicate d CHR '']''"

definition value_line :: "string \<times> string \<Rightarrow> string" where
  "value_line x = fst x @ [CHR ''=''] @ snd x"

fun dump_lines :: "string \<Rightarrow> level \<Rightarrow> string list" where
  "dump_lines name (Level vs ss d) =
     (if name \<noteq> [] then [[], header_line name d] else []) @ map value_line vs @ concat (map (\<lambda>x. dump_lines (fst x) (snd x)) ss)"

lemma getlines_values:
  "\<forall>x \<in> set vs. key_ok (fst x) \<and> value_ok (snd x) \<Longrightarrow>
     getlines (concat (map (\<lambda>(k, v). k @ [CHR ''=''] @ v @ [CHR 0x0A]) vs) @ r) = map value_line vs @ getlines r"
proof (induction vs)
  case (Cons x vs)
  have "one_line (value_line x)" using Cons.prems by (auto simp: value_line_def one_line_def key_ok_def value_ok_def)
  then show ?case using Cons getlines_line[of "value_line x"] by (cases x) (simp add: value_line_def)
qed simp

lemma getlines_dump:
  "level_ok d t \<Longrightarrow> one_line name \<Longrightarrow> (name = [] \<longrightarrow> d = 0) \<Longrightarrow> getlines (ini_dump name t @ r) = dump_lines name t @ getlines r"
proof (induction t arbitrary: d name r)
  case (Level vs ss d')
  have kids: "getlines (concat (map (\<lambda>(n, c). ini_dump n c) ss') @ r) = concat (map (\<lambda>x. dump_lines (fst x) (snd x)) ss') @ getlines r"
    if "set ss' \<subseteq> set ss" for ss' r
    using that
  proof (induction ss' arbitrary: r)
    case (Cons x ss')
    obtain n c where x: "x = (n, c)" by (cases x)
    have "name_ok n" "level_ok (Suc d) c" using Cons.prems Level.prems(1) x by auto
    moreover have "c \<in> Basic_BNFs.snds x" by (simp add: x)
    ultimately show ?case using Cons Level.IH[of x c "Suc d" n] x by (auto simp: name_ok_def)
  qed simp
  have v: "\<forall>x \<in> set vs. key_ok (fst x) \<and> value_ok (snd x)" "d' = d" using Level.prems(1) by auto
  have h: "one_line (header_line name d)" using Level.prems(2) by (auto simp: one_line_def header_line_def)
  show ?case
  proof (cases "name = []")
    case True
    then show ?thesis using Level.prems(3) v(2) kids[OF order_refl] getlines_values[OF v(1)] by simp
  next
    case False
    then show ?thesis using v(2) kids[OF order_refl] getlines_values[OF v(1)] getlines_line[OF h]
      by (simp add: header_line_def)
  qed
qed

lemma ini_line_header:
  assumes "name_ok name" "0 < d" "length p \<ge> d - 1" "at_path (take (d - 1) p) doc = Some lp" "name \<notin> fst ` set (lv_sections lp)"
  shows "ini_line ln (header_line name d) (doc, p) =
    Inr (update_at (take (d - 1) p) (add_section name (Level [] [] d)) doc, take (d - 1) p @ [name])"
proof -
  obtain e where e: "d = Suc e" using assms(2) by (cases d) auto
  have l: "hd (header_line name d) = CHR ''[''" "last (header_line name d) = CHR '']''" "header_line name d \<noteq> []"
    by (simp_all add: header_line_def e)
  have t: "trim (header_line name d) = header_line name d" by (rule trim_id) (simp_all add: l blank_def)
  have "takeWhile (\<lambda>c. c = CHR ''['') (name @ xs) = []" for xs using assms(1) by (cases name) (auto simp: name_ok_def)
  then have "takeWhile (\<lambda>c. c = CHR ''['') (header_line name d) = replicate d CHR ''[''"
    by (simp add: header_line_def takeWhile_append)
  then have "parse_section_line (header_line name d) = (name, d)"
    by (simp add: parse_section_line_def Let_def) (simp add: header_line_def)
  then show ?thesis using assms(3-5) l unfolding e by (simp add: ini_line_def t[unfolded e] Let_def)
qed

lemma ini_line_value:
  assumes "key_ok k" "value_ok v" "at_path p doc = Some lv" "k \<notin> fst ` set (lv_values lv)"
  shows "ini_line ln (value_line (k, v)) (doc, p) = Inr (update_at p (add_value k v) doc, p)"
proof -
  let ?l = "value_line (k, v)"
  have h: "hd ?l = (if k = [] then CHR ''='' else hd k)" "last ?l = (if v = [] then CHR ''='' else last v)" "?l \<noteq> []"
    by (simp_all add: value_line_def hd_append)
  have t: "trim ?l = ?l"
    using trim_ends[of k] trim_ends[of v] assms(1,2) by (intro trim_id) (auto simp: h key_ok_def value_ok_def blank_def)
  have "takeWhile (\<lambda>c. c \<noteq> CHR ''='') ?l = k" using assms(1) by (simp add: value_line_def key_ok_def takeWhile_append)
  moreover have "CHR ''='' \<in> set ?l" "take (length k) ?l = k" "drop (length k + 1) ?l = v" by (simp_all add: value_line_def)
  moreover have "hd ?l \<notin> {CHR ''['', CHR ''#'', CHR '';''}" using assms(1) by (auto simp: h key_ok_def)
  ultimately show ?thesis
    using assms h(3) by (simp add: ini_line_def t Let_def key_ok_def value_ok_def)
qed

subsection \<open>Levels at a path\<close>

lemma at_update [simp]: "at_path q doc = Some l \<Longrightarrow> at_path q (update_at q f doc) = Some (f l)"
  by (induction q arbitrary: doc) (auto simp: map_of_map_entry split: option.splits)

lemma update_append: "update_at (q @ r) f = update_at q (update_at r f)"
  by (induction q) (rule ext, simp)+

lemma at_append: "at_path (q @ r) doc = (case at_path q doc of None \<Rightarrow> None | Some l \<Rightarrow> at_path r l)"
  by (induction q arbitrary: doc) (simp_all split: option.splits)

lemma map_entry_cong: "map_of ss n = Some c \<Longrightarrow> f c = g c \<Longrightarrow> AList.map_entry n f ss = AList.map_entry n g ss"
  by (induction ss) (auto split: if_splits)

lemma update_cong: "at_path q doc = Some l \<Longrightarrow> f l = g l \<Longrightarrow> update_at q f doc = update_at q g doc"
proof (induction q arbitrary: doc)
  case (Cons n q)
  obtain c where c: "map_of (lv_sections doc) n = Some c" "at_path q c = Some l" using Cons.prems(1) by (auto split: option.splits)
  have e: "update_at q f c = update_at q g c" by (rule Cons.IH[OF c(2) Cons.prems(2)])
  show ?case using map_entry_cong[of _ n c "update_at q f" "update_at q g", OF c(1) e] by simp
qed simp

lemma map_entry_twice: "AList.map_entry n f (AList.map_entry n g ss) = AList.map_entry n (\<lambda>c. f (g c)) ss"
  by (induction ss) auto

lemma update_twice: "update_at q g (update_at q f doc) = update_at q (\<lambda>l. g (f l)) doc"
proof (induction q arbitrary: doc)
  case (Cons n q)
  then have "(\<lambda>c. update_at q g (update_at q f c)) = update_at q (\<lambda>l. g (f l))" by (intro ext)
  then show ?case by (simp add: map_entry_twice)
qed simp

lemma map_entry_last: "n \<notin> fst ` set ss \<Longrightarrow> AList.map_entry n f (ss @ [(n, c)]) = ss @ [(n, f c)]"
  by (induction ss) auto

lemma update_new:
  assumes "at_path q doc = Some l" "n \<notin> fst ` set (lv_sections l)"
  shows "update_at (q @ [n]) f (update_at q (add_section n c) doc) = update_at q (add_section n (f c)) doc"
    "at_path (q @ [n]) (update_at q (add_section n c) doc) = Some c"
proof -
  show "update_at (q @ [n]) f (update_at q (add_section n c) doc) = update_at q (add_section n (f c)) doc"
    unfolding update_append update_twice by (rule update_cong[OF assms(1)]) (simp add: add_section_def map_entry_last[OF assms(2)])
  have "map_of (lv_sections l) n = None" using assms(2) by (simp add: map_of_eq_None_iff)
  then show "at_path (q @ [n]) (update_at q (add_section n c) doc) = Some c"
    by (simp add: at_append at_update[OF assms(1)] add_section_def map_add_def)
qed

subsection \<open>Reading what has been written\<close>

lemma ini_lines_append:
  "ini_lines ln (ls @ ls') s = (case ini_lines ln ls s of Inl e \<Rightarrow> Inl e | Inr s1 \<Rightarrow> ini_lines (ln + length ls) ls' s1)"
  by (induction ls arbitrary: ln s) (simp_all split: sum.splits)

definition add_values :: "(string \<times> string) list \<Rightarrow> level \<Rightarrow> level" where
  "add_values vs l = Level (lv_values l @ vs) (lv_sections l) (lv_depth l)"

definition add_sections :: "(string \<times> level) list \<Rightarrow> level \<Rightarrow> level" where
  "add_sections ss l = Level (lv_values l) (lv_sections l @ ss) (lv_depth l)"

lemma update_id: "at_path p doc = Some l \<Longrightarrow> f l = l \<Longrightarrow> update_at p f doc = doc"
proof (induction p arbitrary: doc)
  case (Cons n p)
  obtain c where c: "map_of (lv_sections doc) n = Some c" "at_path p c = Some l" using Cons.prems(1) by (auto split: option.splits)
  have e: "update_at p f c = c" by (rule Cons.IH[OF c(2) Cons.prems(2)])
  have "AList.map_entry n (\<lambda>x. x) ss = ss" for ss :: "(string \<times> level) list" by (induction ss) auto
  then show ?case using map_entry_cong[of _ n c "update_at p f" "\<lambda>x. x", OF c(1) e] by simp
qed simp

lemma ini_values:
  assumes "at_path p doc = Some l" "distinct (map fst (lv_values l @ vs))" "\<forall>x \<in> set vs. key_ok (fst x) \<and> value_ok (snd x)"
  shows "ini_lines ln (map value_line vs) (doc, p) = Inr (update_at p (add_values vs) doc, p)"
  using assms
proof (induction vs arbitrary: doc l ln)
  case Nil
  then show ?case by (simp add: update_id[OF Nil(1)] add_values_def)
next
  case (Cons x vs)
  obtain k v where x: "x = (k, v)" by (cases x)
  have "ini_line (ln + 1) (value_line (k, v)) (doc, p) = Inr (update_at p (add_value k v) doc, p)"
    using Cons.prems x by (intro ini_line_value) auto
  moreover have "ini_lines (ln + 1) (map value_line vs) (update_at p (add_value k v) doc, p)
      = Inr (update_at p (add_values vs) (update_at p (add_value k v) doc), p)"
    by (rule Cons.IH[OF at_update[OF Cons.prems(1)]]) (use Cons.prems x in \<open>auto simp: add_value_def\<close>)
  moreover have "(\<lambda>l. add_values vs (add_value k v l)) = add_values (x # vs)"
    by (rule ext) (simp add: add_values_def add_value_def x)
  ultimately show ?case by (simp add: x update_twice)
qed

text \<open>The lines of a section are read in any level at or below its parent, and end there.\<close>

definition reads_section :: "string list \<Rightarrow> string \<times> level \<Rightarrow> bool" where
  "reads_section q x \<longleftrightarrow> (\<forall>ln p doc l. length q \<le> length p \<longrightarrow> take (length q) p = q \<longrightarrow> at_path q doc = Some l \<longrightarrow>
     fst x \<notin> fst ` set (lv_sections l) \<longrightarrow>
     (\<exists>p'. ini_lines ln (dump_lines (fst x) (snd x)) (doc, p) = Inr (update_at q (add_section (fst x) (snd x)) doc, p')
        \<and> take (length q) p' = q \<and> length q \<le> length p'))"

lemma ini_sections:
  assumes "\<forall>x \<in> set ss. reads_section q x" "length q \<le> length p" "take (length q) p = q" "at_path q doc = Some l"
    "distinct (map fst (lv_sections l @ ss))"
  shows "\<exists>p'. ini_lines ln (concat (map (\<lambda>x. dump_lines (fst x) (snd x)) ss)) (doc, p) = Inr (update_at q (add_sections ss) doc, p')
    \<and> take (length q) p' = q \<and> length q \<le> length p'"
  using assms
proof (induction ss arbitrary: ln p doc l)
  case Nil
  then show ?case by (simp add: update_id[OF Nil(4)] add_sections_def)
next
  case (Cons x ss)
  have new: "fst x \<notin> fst ` set (lv_sections l)" "reads_section q x" "\<forall>x \<in> set ss. reads_section q x" using Cons.prems(1,5) by auto
  obtain p1 where p1: "ini_lines ln (dump_lines (fst x) (snd x)) (doc, p) = Inr (update_at q (add_section (fst x) (snd x)) doc, p1)"
    "take (length q) p1 = q" "length q \<le> length p1"
    using new(2)[unfolded reads_section_def, rule_format, OF Cons.prems(2-4) new(1), of ln] by blast
  let ?doc = "update_at q (add_section (fst x) (snd x)) doc" and ?ln = "ln + length (dump_lines (fst x) (snd x))"
  have d: "distinct (map fst (lv_sections (add_section (fst x) (snd x) l) @ ss))"
    using Cons.prems(5) by (auto simp: add_section_def)
  obtain p2 where p2: "ini_lines ?ln (concat (map (\<lambda>x. dump_lines (fst x) (snd x)) ss)) (?doc, p1) = Inr (update_at q (add_sections ss) ?doc, p2)"
    "take (length q) p2 = q" "length q \<le> length p2"
    using Cons.IH[OF new(3) p1(3,2) _ d, of ?doc ?ln] at_update[OF Cons.prems(4), of "add_section (fst x) (snd x)"] by blast
  have "(\<lambda>l. add_sections ss (add_section (fst x) (snd x) l)) = add_sections (x # ss)"
    by (rule ext) (simp add: add_sections_def add_section_def)
  then show ?case using p1(1) p2 by (simp add: ini_lines_append update_twice)
qed

lemma ini_section: "level_ok (Suc (length q)) t \<Longrightarrow> name_ok name \<Longrightarrow> reads_section q (name, t)"
proof (induction t arbitrary: q name)
  case (Level vs ss d)
  let ?q = "q @ [name]"
  have ok: "d = Suc (length q)" "name \<noteq> []" "distinct (map fst vs)" "distinct (map fst ss)"
    "\<forall>x \<in> set vs. key_ok (fst x) \<and> value_ok (snd x)"
    using Level.prems(1,2) by (auto simp: name_ok_def)
  have kids: "\<forall>x \<in> set ss. reads_section ?q x"
  proof
    fix x assume x: "x \<in> set ss"
    have "snd x \<in> Basic_BNFs.snds x" by (cases x) simp
    moreover have "level_ok (Suc (length ?q)) (snd x)" "name_ok (fst x)" using x Level.prems(1) ok(1) by auto
    ultimately show "reads_section ?q x" using Level.IH[OF x] by (metis prod.collapse)
  qed
  show ?case
    unfolding reads_section_def fst_conv snd_conv
  proof (intro allI impI)
    fix ln p doc l
    assume st: "length q \<le> length p" "take (length q) p = q" "at_path q doc = Some l" "name \<notin> fst ` set (lv_sections l)"
    define d1 where "d1 = update_at q (add_section name (Level [] [] d)) doc"
    define d2 where "d2 = update_at q (add_section name (Level vs [] d)) doc"
    have "ini_line (ln + 2) (header_line name d) (doc, p) = Inr (d1, ?q)"
      using ini_line_header[OF Level.prems(2), of d p doc l "ln + 2"] st ok(1) by (simp add: d1_def)
    then have head: "ini_lines ln [[], header_line name d] (doc, p) = Inr (d1, ?q)"
      by (simp add: ini_line_def[of _ "[]"] trim_def)
    have at1: "at_path ?q d1 = Some (Level [] [] d)" unfolding d1_def by (rule update_new(2)[OF st(3,4)])
    have "ini_lines (ln + 2) (map value_line vs) (d1, ?q) = Inr (update_at ?q (add_values vs) d1, ?q)"
      by (rule ini_values[OF at1]) (use ok in simp_all)
    moreover have "update_at ?q (add_values vs) d1 = d2"
      unfolding d1_def d2_def update_new(1)[OF st(3,4)] by (simp add: add_values_def)
    ultimately have vals: "ini_lines (ln + 2) (map value_line vs) (d1, ?q) = Inr (d2, ?q)" by simp
    have at2: "at_path ?q d2 = Some (Level vs [] d)" unfolding d2_def by (rule update_new(2)[OF st(3,4)])
    have dist: "distinct (map fst (lv_sections (Level vs [] d) @ ss))" using ok(4) by simp
    have tq: "take (length ?q) ?q = ?q" by simp
    obtain p' where p': "ini_lines (ln + 2 + length (map value_line vs)) (concat (map (\<lambda>x. dump_lines (fst x) (snd x)) ss)) (d2, ?q)
        = Inr (update_at ?q (add_sections ss) d2, p')" "take (length ?q) p' = ?q" "length ?q \<le> length p'"
      using ini_sections[OF kids order_refl tq at2 dist] by blast
    have all: "update_at ?q (add_sections ss) d2 = update_at q (add_section name (Level vs ss d)) doc"
      unfolding d2_def update_new(1)[OF st(3,4)] by (simp add: add_sections_def)
    have "take (length q) (take (length ?q) p') = q" unfolding p'(2) by simp
    then have q: "take (length q) p' = q" "length q \<le> length p'" using p'(3) by (simp_all add: min_def)
    have "dump_lines name (Level vs ss d) = [[], header_line name d] @ map value_line vs @ concat (map (\<lambda>x. dump_lines (fst x) (snd x)) ss)"
      using ok(2) by simp
    moreover have "ln + length [[], header_line name d] = ln + 2" by simp
    ultimately have "ini_lines ln (dump_lines name (Level vs ss d)) (doc, p) = Inr (update_at q (add_section name (Level vs ss d)) doc, p')"
      by (simp only: ini_lines_append head vals p'(1) all sum.case)
    then show "\<exists>p'. ini_lines ln (dump_lines name (Level vs ss d)) (doc, p) = Inr (update_at q (add_section name (Level vs ss d)) doc, p')
        \<and> take (length q) p' = q \<and> length q \<le> length p'"
      using q by blast
  qed
qed

text \<open>A section line without a closing bracket loses its last letter, and a comment that is indented is a value.\<close>

lemma ini_surprises:
  "ini_parse ''[abc'' = Inr (Level [] [(''ab'', Level [] [] 1)] 0)"
  "ini_parse '' #a=b'' = Inr (Level [(''#a'', ''b'')] [] 0)"
  by code_simp+

text \<open>C33: Configuration files. Whatever tree of sections and values is written, with keys that do not look like
  a comment or a section and with names of sections that are not empty, reading the file gives the same
  tree, with the values and sections in the same order.\<close>

theorem ini_roundtrip:
  assumes "level_ok 0 t"
  shows "ini_parse (ini_dump [] t) = Inr t"
proof -
  obtain vs ss where t: "t = Level vs ss 0" using assms by (cases t) auto
  let ?d = "update_at [] (add_values vs) (Level [] [] 0)"
  have lines: "getlines (ini_dump [] t) = map value_line vs @ concat (map (\<lambda>x. dump_lines (fst x) (snd x)) ss)"
    using getlines_dump[OF assms, of "[]" "[]"] by (simp add: t one_line_def)
  have v: "ini_lines 0 (map value_line vs) (Level [] [] 0, []) = Inr (?d, [])"
    by (rule ini_values) (use assms t in auto)
  have kids: "\<forall>x \<in> set ss. reads_section [] x"
  proof
    fix x assume "x \<in> set ss"
    then show "reads_section [] x" using ini_section[of "[]" "snd x" "fst x"] assms t by simp
  qed
  have dist: "distinct (map fst (lv_sections ?d @ ss))" using assms t by (simp add: add_values_def)
  obtain p where "ini_lines (length vs) (concat (map (\<lambda>x. dump_lines (fst x) (snd x)) ss)) (?d, []) = Inr (update_at [] (add_sections ss) ?d, p)"
    using ini_sections[OF kids _ _ _ dist, of "[]" ?d "length vs"] by auto
  then show ?thesis
    unfolding ini_parse_def lines ini_lines_append v by (simp add: t add_values_def add_sections_def)
qed

theorem ini_roundtrip_witness:
  "level_ok 0 (Level [(''host'', ''h=1'')] [(''a b'', Level [(''x'', '''')] [(''c]'', Level [] [] 2)] 1)] 0)
    \<and> ini_parse (ini_dump [] (Level [(''host'', ''h=1'')] [(''a b'', Level [(''x'', '''')] [(''c]'', Level [] [] 2)] 1)] 0))
      = Inr (Level [(''host'', ''h=1'')] [(''a b'', Level [(''x'', '''')] [(''c]'', Level [] [] 2)] 1)] 0)"
proof -
  have ok: "level_ok 0 (Level [(''host'', ''h=1'')] [(''a b'', Level [(''x'', '''')] [(''c]'', Level [] [] 2)] 1)] 0)" by code_simp
  show ?thesis using ini_roundtrip[OF ok] ok by simp
qed

end
