(* ===== verification/Spec2Isabelle.thy ===== *)
theory Spec2Isabelle
  imports Smart_Prelude Ring_Buffer Ring_Queue Ev_Heap Ev_Core Ev_Watchers Ev_Epoll Ev_Timers Ev_Arrays Ev_Loop Http_Url Http_Parser Http_Safety Http_Headers Http_Message Http_Request Md5 Mpmc_Queue Event_Loop Redis_Proxy Service_Core Business Tcp_Connection Smart_Gateway App_Frame Tcp_Service Service_Pool Rw_Spin_Lock Ini_File
begin

text \<open>
  Verification development for the \<open>smart\<close> server.
\<close>

end
